(* ===== verification/Prelude.thy ===== *)
theory Prelude
  imports Main "HOL-Library.Word"
begin

text \<open>
  Shared vocabulary of the development.  Bytes and the unsigned machine integers are
  words; the signed integers of the code (\<^verbatim>\<open>int\<close>, \<^verbatim>\<open>int32_t\<close>, \<^verbatim>\<open>int64_t\<close>, \<^verbatim>\<open>ssize_t\<close>) are
  mathematical integers with the reduction to their width written out by
  \<open>wrap64\<close> and \<open>wrap32\<close>; \<^verbatim>\<open>/\<close> and \<^verbatim>\<open>%\<close> on them are
  \<open>c_div\<close> and \<open>c_mod\<close>, which truncate towards zero.  A failed \<^verbatim>\<open>CHECK\<close>, \<^verbatim>\<open>DCHECK\<close>
  (the build does not define \<^verbatim>\<open>NDEBUG\<close>) or out-of-range access is a value of type \<open>fault\<close>.
\<close>

unbundle bit_operations_syntax

section \<open>Types\<close>

type_synonym byte = "8 word"
type_synonym bytes = "byte list"
type_synonym u16 = "16 word"
type_synonym u32 = "32 word"
type_synonym u64 = "64 word"

text \<open>The ways an operation of the program can abort the process.\<close>

datatype fault = CheckFailed | OutOfBounds | Unreachable

text \<open>Sequencing of operations that may abort: the first fault ends the run.\<close>

fun bindE :: "'e + 'a \<Rightarrow> ('a \<Rightarrow> 'e + 'b) \<Rightarrow> 'e + 'b" where
  "bindE (Inl e) f = Inl e"
| "bindE (Inr x) f = f x"

lemma bindE_cong [fundef_cong]:
  "m = m' \<Longrightarrow> (\<And>x. m' = Inr x \<Longrightarrow> f x = f' x) \<Longrightarrow> bindE m f = bindE m' f'"
  by (cases m') simp_all

lemma bindE_Inr_iff: "bindE m f = Inr y \<longleftrightarrow> (\<exists>x. m = Inr x \<and> f x = Inr y)"
  by (cases m) simp_all

lemma map_sum_Inr_iff: "map_sum id f m = Inr y \<longleftrightarrow> (\<exists>x. m = Inr x \<and> y = f x)"
  by (cases m) auto

definition assertE :: "'e \<Rightarrow> bool \<Rightarrow> 'e + unit" where
  "assertE e b = (if b then Inr () else Inl e)"

lemma assertE_True [simp]: "assertE e True = Inr ()"
  by (simp add: assertE_def)

lemma assertE_False [simp]: "assertE e False = Inl e"
  by (simp add: assertE_def)

section \<open>Lemma collections\<close>

text \<open>
  \<open>wf\<close> collects preservation lemmas of representation invariants, \<open>abs\<close> the
  equations that push an abstraction function through an operation, \<open>arith64\<close> the
  conditions under which the width reduction is the identity.
\<close>

named_theorems wf
named_theorems abs
named_theorems arith64

section \<open>Signed machine arithmetic\<close>

definition wrap64 :: "int \<Rightarrow> int" where
  "wrap64 x = (x + 2 ^ 63) mod 2 ^ 64 - 2 ^ 63"

definition wrap32 :: "int \<Rightarrow> int" where
  "wrap32 x = (x + 2 ^ 31) mod 2 ^ 32 - 2 ^ 31"

definition int64_min :: int where "int64_min = - (2 ^ 63)"
definition int64_max :: int where "int64_max = 2 ^ 63 - 1"

definition in64 :: "int \<Rightarrow> bool" where
  "in64 x \<longleftrightarrow> int64_min \<le> x \<and> x \<le> int64_max"

lemma in64_iff: "in64 x \<longleftrightarrow> - (2 ^ 63) \<le> x \<and> x < 2 ^ 63"
  by (auto simp: in64_def int64_min_def int64_max_def)

lemma wrap64_id [arith64]: "in64 x \<Longrightarrow> wrap64 x = x"
  by (simp add: in64_iff wrap64_def)

lemma in64_wrap64 [simp]: "in64 (wrap64 x)"
proof -
  have "0 \<le> (x + 2 ^ 63) mod (2 ^ 64 :: int)" "(x + 2 ^ 63) mod (2 ^ 64 :: int) < 2 ^ 64"
    by simp_all
  then show ?thesis
    unfolding in64_iff wrap64_def by auto
qed

lemma wrap64_wrap64 [simp]: "wrap64 (wrap64 x) = wrap64 x"
  by (rule wrap64_id) simp

lemma wrap64_add_wrap64: "wrap64 (wrap64 x + y) = wrap64 (x + y)"
proof -
  have "(((x + 2 ^ 63) mod 2 ^ 64 - 2 ^ 63) + y + 2 ^ 63) mod (2 ^ 64 :: int)
      = ((x + 2 ^ 63) mod 2 ^ 64 + y) mod 2 ^ 64"
    by (simp add: algebra_simps)
  also have "\<dots> = ((x + 2 ^ 63) + y) mod 2 ^ 64"
    by (rule mod_add_left_eq)
  also have "\<dots> = (x + y + 2 ^ 63) mod 2 ^ 64"
    by (simp only: ac_simps)
  finally show ?thesis
    by (simp add: wrap64_def)
qed

text \<open>C's \<^verbatim>\<open>/\<close> and \<^verbatim>\<open>%\<close> on signed integers: the quotient is rounded towards zero.\<close>

definition c_div :: "int \<Rightarrow> int \<Rightarrow> int" where
  "c_div a b = sgn a * sgn b * (\<bar>a\<bar> div \<bar>b\<bar>)"

definition c_mod :: "int \<Rightarrow> int \<Rightarrow> int" where
  "c_mod a b = a - c_div a b * b"

lemma c_div_nonneg: "0 \<le> a \<Longrightarrow> 0 < b \<Longrightarrow> c_div a b = a div b"
  by (cases "a = 0") (auto simp: c_div_def)

lemma c_div_neg: "a < 0 \<Longrightarrow> 0 < b \<Longrightarrow> c_div a b = - ((- a) div b)"
  by (auto simp: c_div_def)

lemma c_mod_nonneg: "0 \<le> a \<Longrightarrow> 0 < b \<Longrightarrow> c_mod a b = a mod b"
  by (simp add: c_mod_def c_div_nonneg minus_div_mult_eq_mod)

lemma c_mod_neg: "a < 0 \<Longrightarrow> 0 < b \<Longrightarrow> c_mod a b = - ((- a) mod b)"
  by (simp add: c_mod_def c_div_neg minus_mult_div_eq_mod [symmetric])

section \<open>Reads of a byte buffer\<close>

text \<open>
  Reading \<^verbatim>\<open>p[i]\<close>: a buffer is the list of the bytes that may be accessed, and a read past
  its end is a fault.
\<close>

definition rd :: "bytes \<Rightarrow> nat \<Rightarrow> fault + int" where
  "rd p i = (if i < length p then Inr (uint (p ! i)) else Inl OutOfBounds)"

lemma rd_in [simp]: "i < length p \<Longrightarrow> rd p i = Inr (uint (p ! i))"
  by (simp add: rd_def)

lemma rd_out [simp]: "length p \<le> i \<Longrightarrow> rd p i = Inl OutOfBounds"
  by (simp add: rd_def)

lemma rd_Cons_0 [simp]: "rd (b # p) 0 = Inr (uint b)"
  by simp

lemma rd_Cons_Suc [simp]: "rd (b # p) (Suc i) = rd p i"
  by (simp add: rd_def)

lemma rd_append [simp]: "i < length p \<Longrightarrow> rd (p @ q) i = rd p i"
  by (simp add: rd_def nth_append)

lemma uint_byte_bounds [simp]: "0 \<le> uint (b :: byte)" "uint (b :: byte) < 256"
  using uint_lt2p [of b] by simp_all

section \<open>Byte strings of literals\<close>

definition str :: "string \<Rightarrow> bytes" where
  "str s = map of_char s"

lemma length_str [simp]: "length (str s) = length s"
  by (simp add: str_def)

text \<open>Decimal and two-digit hexadecimal numerals, as the formats \<^verbatim>\<open>%d\<close> and \<^verbatim>\<open>%02x\<close> print them.\<close>

fun dec_nat :: "nat \<Rightarrow> bytes" where
  "dec_nat n = (if n < 10 then [48 + of_nat n] else dec_nat (n div 10) @ [48 + of_nat (n mod 10)])"

declare dec_nat.simps [simp del]

definition dec_int :: "int \<Rightarrow> bytes" where
  "dec_int i = (if i < 0 then 45 # dec_nat (nat (- i)) else dec_nat (nat i))"

definition hex_digit :: "byte \<Rightarrow> byte" where
  "hex_digit d = (if d < 10 then 48 + d else 87 + d)"

definition hex2 :: "byte \<Rightarrow> bytes" where
  "hex2 b = [hex_digit (b div 16), hex_digit (b mod 16)]"

lemma length_hex2 [simp]: "length (hex2 b) = 2"
  by (simp add: hex2_def)

section \<open>Lists\<close>

lemma take_append_eq: "length xs = n \<Longrightarrow> take n (xs @ ys) = xs"
  by simp

lemma drop_append_eq: "length xs = n \<Longrightarrow> drop n (xs @ ys) = ys"
  by simp

end
