(* ===== verification/Codec.thy ===== *)
theory Codec
  imports Prelude
begin

text \<open>
  The interface of a self-delimiting encoding of values as byte strings: an encoder and a
  decoder that reads one value from the front of a buffer and reports how many bytes it
  took.  The facts about sequences of encoded values are proved once here and used through
  interpretations on the coders of the program.
\<close>

text \<open>
  The loop a client of a one-value decoder writes: decode until the buffer is empty,
  failing at the first malformed value.  Each turn takes at least one byte, so the length
  of the buffer is enough fuel.
\<close>

fun decode_all :: "nat \<Rightarrow> (bytes \<Rightarrow> ('a \<times> nat) option) \<Rightarrow> bytes \<Rightarrow> 'a list option" where
  "decode_all 0 dec bs = (if bs = [] then Some [] else None)"
| "decode_all (Suc n) dec bs =
    (if bs = [] then Some []
     else case dec bs of
       None \<Rightarrow> None
     | Some (x, k) \<Rightarrow> map_option (Cons x) (decode_all n dec (drop k bs)))"

lemma decode_all_Nil [simp]: "decode_all n dec [] = Some []"
  by (cases n) simp_all

locale prefix_codec =
  fixes valid :: "'a \<Rightarrow> bool"
    and enc :: "'a \<Rightarrow> bytes"
    and dec :: "bytes \<Rightarrow> ('a \<times> nat) option"
  assumes enc_nonempty: "enc x \<noteq> []"
    and dec_enc: "valid x \<Longrightarrow> dec (enc x @ t) = Some (x, length (enc x))"
begin

lemma decode_all_step:
  "valid x \<Longrightarrow> decode_all (Suc n) dec (enc x @ t) = map_option (Cons x) (decode_all n dec t)"
  using enc_nonempty [of x] by (simp add: dec_enc)

lemma length_enc_pos: "0 < length (enc x)"
  using enc_nonempty [of x] by simp

lemma decode_all_enc:
  "(\<And>x. x \<in> set xs \<Longrightarrow> valid x) \<Longrightarrow> length (concat (map enc xs)) \<le> n \<Longrightarrow>
    decode_all n dec (concat (map enc xs)) = Some xs"
proof (induction xs arbitrary: n)
  case (Cons x xs)
  from Cons.prems length_enc_pos [of x] obtain m where n: "n = Suc m"
    by (cases n) auto
  have "length (concat (map enc xs)) \<le> m"
    using Cons.prems(2) length_enc_pos [of x] n by (simp del: length_greater_0_conv)
  with Cons have "decode_all m dec (concat (map enc xs)) = Some xs"
    by simp
  with Cons.prems(1) show ?case
    by (simp add: n decode_all_step del: decode_all.simps)
qed simp

text \<open>No two sequences of valid values share an encoding.\<close>

lemma concat_enc_inj:
  assumes "\<And>x. x \<in> set xs \<union> set ys \<Longrightarrow> valid x" "concat (map enc xs) = concat (map enc ys)"
  shows "xs = ys"
proof -
  let ?n = "length (concat (map enc xs))"
  have "decode_all ?n dec (concat (map enc xs)) = Some xs"
    by (rule decode_all_enc) (use assms(1) in auto)
  moreover have "decode_all ?n dec (concat (map enc ys)) = Some ys"
    by (rule decode_all_enc) (use assms in auto)
  ultimately show ?thesis
    using assms(2) by simp
qed

end

text \<open>A codec is canonical when a value is accepted in one form only.\<close>

locale canonical_codec = prefix_codec +
  assumes dec_canonical: "dec bs = Some (x, k) \<Longrightarrow> valid x \<Longrightarrow> take k bs = enc x"
begin

lemma decode_all_canonical:
  "decode_all n dec bs = Some xs \<Longrightarrow> (\<And>x. x \<in> set xs \<Longrightarrow> valid x) \<Longrightarrow> bs = concat (map enc xs)"
proof (induction n arbitrary: bs xs)
  case (Suc n)
  show ?case
  proof (cases "bs = []")
    case False
    with Suc.prems(1) obtain x k ys where d: "dec bs = Some (x, k)"
      and ys: "decode_all n dec (drop k bs) = Some ys" "xs = x # ys"
      by (auto split: option.splits)
    have "drop k bs = concat (map enc ys)"
      using Suc.IH [OF ys(1)] Suc.prems(2) ys(2) by simp
    moreover have "take k bs = enc x"
      using dec_canonical [OF d] Suc.prems(2) ys(2) by simp
    ultimately show ?thesis
      using append_take_drop_id [of k bs] ys(2) by simp
  qed (use Suc.prems in simp)
qed (simp split: if_splits)

end

end
