(* ===== verification/Rune.thy ===== *)
theory Rune
  imports Codec
begin

text \<open>
  The UTF-8 coder of \<^verbatim>\<open>gbase/utf/rune.cc\<close>.  A rune is the code's signed \<^verbatim>\<open>int\<close>; a string is
  the list of bytes that may be read, so that a read past it is a fault.  The decoders
  return the rune they store through their pointer together with the number of bytes
  they report; the encoder returns the bytes it writes.
\<close>

section \<open>The constants of the coder\<close>

named_theorems rune_consts

definition Bitx :: nat where [rune_consts]: "Bitx = 6"

definition Tx :: int where "Tx = (push_bit (6 + 1) 1 - 1) XOR 0xFF"
definition T2 :: int where "T2 = (push_bit (5 + 1) 1 - 1) XOR 0xFF"
definition T3 :: int where "T3 = (push_bit (4 + 1) 1 - 1) XOR 0xFF"
definition T4 :: int where "T4 = (push_bit (3 + 1) 1 - 1) XOR 0xFF"
definition T5 :: int where "T5 = (push_bit (2 + 1) 1 - 1) XOR 0xFF"

definition Rune1 :: int where "Rune1 = push_bit (7 + 0 * Bitx) 1 - 1"
definition Rune2 :: int where "Rune2 = push_bit (5 + 1 * Bitx) 1 - 1"
definition Rune3 :: int where "Rune3 = push_bit (4 + 2 * Bitx) 1 - 1"
definition Rune4 :: int where "Rune4 = push_bit (3 + 3 * Bitx) 1 - 1"

definition Maskx :: int where "Maskx = push_bit Bitx 1 - 1"
definition Testx :: int where "Testx = Maskx XOR 0xFF"

definition Runeerror :: int where [rune_consts]: "Runeerror = 0xFFFD"
definition Runemax :: int where [rune_consts]: "Runemax = 0x10FFFF"
definition Bad :: int where "Bad = Runeerror"

lemma rune_consts_eval [rune_consts]:
  "Tx = 0x80" "T2 = 0xC0" "T3 = 0xE0" "T4 = 0xF0" "T5 = 0xF8"
  "Rune1 = 0x7F" "Rune2 = 0x7FF" "Rune3 = 0xFFFF" "Rune4 = 0x1FFFFF"
  "Maskx = 0x3F" "Testx = 0xC0" "Bad = 0xFFFD"
  by (simp_all add: Tx_def T2_def T3_def T4_def T5_def Rune1_def Rune2_def Rune3_def
      Rune4_def Maskx_def Testx_def Bad_def Runeerror_def Bitx_def push_bit_eq_mult)

section \<open>The decoders\<close>

definition charntorune :: "bytes \<Rightarrow> int \<Rightarrow> fault + int \<times> int" where
  "charntorune s n =
    (if n \<le> 0 then Inr (Bad, 0)
     else case rd s 0 of Inl e \<Rightarrow> Inl e | Inr c \<Rightarrow>
       if c < Tx then Inr (c, 1)
       else if n \<le> 1 then Inr (Bad, 0)
       else case rd s 1 of Inl e \<Rightarrow> Inl e | Inr b1 \<Rightarrow>
         let c1 = b1 XOR Tx in
         if c1 AND Testx \<noteq> 0 then Inr (Bad, 1)
         else if c < T3 then
           if c < T2 then Inr (Bad, 1)
           else let l = (push_bit Bitx c OR c1) AND Rune2 in
             if l \<le> Rune1 then Inr (Bad, 1) else Inr (l, 2)
         else if n \<le> 2 then Inr (Bad, 0)
         else case rd s 2 of Inl e \<Rightarrow> Inl e | Inr b2 \<Rightarrow>
           let c2 = b2 XOR Tx in
           if c2 AND Testx \<noteq> 0 then Inr (Bad, 1)
           else if c < T4 then
             let l = (push_bit Bitx (push_bit Bitx c OR c1) OR c2) AND Rune3 in
             if l \<le> Rune2 then Inr (Bad, 1) else Inr (l, 3)
           else if n \<le> 3 then Inr (Bad, 0)
           else case rd s 3 of Inl e \<Rightarrow> Inl e | Inr b3 \<Rightarrow>
             let c3 = b3 XOR Tx in
             if c3 AND Testx \<noteq> 0 then Inr (Bad, 1)
             else if c < T5 then
               let l = (push_bit Bitx (push_bit Bitx (push_bit Bitx c OR c1) OR c2) OR c3) AND Rune4 in
               if l \<le> Rune3 then Inr (Bad, 1) else Inr (l, 4)
             else Inr (Bad, 1))"

definition chartorune :: "bytes \<Rightarrow> fault + int \<times> int" where
  "chartorune s =
    (case rd s 0 of Inl e \<Rightarrow> Inl e | Inr c \<Rightarrow>
       if c < Tx then Inr (c, 1)
       else case rd s 1 of Inl e \<Rightarrow> Inl e | Inr b1 \<Rightarrow>
         let c1 = b1 XOR Tx in
         if c1 AND Testx \<noteq> 0 then Inr (Bad, 1)
         else if c < T3 then
           if c < T2 then Inr (Bad, 1)
           else let l = (push_bit Bitx c OR c1) AND Rune2 in
             if l \<le> Rune1 then Inr (Bad, 1) else Inr (l, 2)
         else case rd s 2 of Inl e \<Rightarrow> Inl e | Inr b2 \<Rightarrow>
           let c2 = b2 XOR Tx in
           if c2 AND Testx \<noteq> 0 then Inr (Bad, 1)
           else if c < T4 then
             let l = (push_bit Bitx (push_bit Bitx c OR c1) OR c2) AND Rune3 in
             if l \<le> Rune2 then Inr (Bad, 1) else Inr (l, 3)
           else case rd s 3 of Inl e \<Rightarrow> Inl e | Inr b3 \<Rightarrow>
             let c3 = b3 XOR Tx in
             if c3 AND Testx \<noteq> 0 then Inr (Bad, 1)
             else if c < T5 then
               let l = (push_bit Bitx (push_bit Bitx (push_bit Bitx c OR c1) OR c2) OR c3) AND Rune4 in
               if l \<le> Rune3 then Inr (Bad, 1) else Inr (l, 4)
             else Inr (Bad, 1))"

text \<open>The result is the returned flag, the rune and the count stored through \<^verbatim>\<open>consumed\<close>.\<close>

definition isvalidcharntorune :: "bytes \<Rightarrow> int \<Rightarrow> fault + bool \<times> int \<times> int" where
  "isvalidcharntorune s n =
    (case charntorune s n of
       Inl e \<Rightarrow> Inl e
     | Inr (r, consumed) \<Rightarrow> Inr (r \<noteq> Runeerror \<or> consumed = 3, r, consumed))"

section \<open>The encoder\<close>

definition runetochar :: "int \<Rightarrow> bytes" where
  "runetochar r =
    (let c = r mod 2 ^ 64 in
     if c \<le> Rune1 then [word_of_int c]
     else if c \<le> Rune2 then
       [word_of_int (T2 OR drop_bit (1 * Bitx) c), word_of_int (Tx OR (c AND Maskx))]
     else let c = (if c > Runemax then Runeerror else c) in
     if c \<le> Rune3 then
       [word_of_int (T3 OR drop_bit (2 * Bitx) c),
        word_of_int (Tx OR (drop_bit (1 * Bitx) c AND Maskx)),
        word_of_int (Tx OR (c AND Maskx))]
     else
       [word_of_int (T4 OR drop_bit (3 * Bitx) c),
        word_of_int (Tx OR (drop_bit (2 * Bitx) c AND Maskx)),
        word_of_int (Tx OR (drop_bit (1 * Bitx) c AND Maskx)),
        word_of_int (Tx OR (c AND Maskx))])"

definition runelen :: "int \<Rightarrow> int" where
  "runelen r = int (length (runetochar r))"

text \<open>The loop runs over the given runes; \<open>nb\<close> is the byte count so far.\<close>

fun runenlen_loop :: "int \<Rightarrow> int list \<Rightarrow> int" where
  "runenlen_loop nb [] = nb"
| "runenlen_loop nb (c # rs) =
    runenlen_loop
      (if c \<le> Rune1 then nb + 1
       else if c \<le> Rune2 then nb + 2
       else if c \<le> Rune3 then nb + 3
       else nb + 4) rs"

definition runenlen :: "int list \<Rightarrow> int" where
  "runenlen rs = runenlen_loop 0 rs"

definition fullrune :: "bytes \<Rightarrow> int \<Rightarrow> fault + bool" where
  "fullrune s n =
    (if n > 0 then
       case rd s 0 of Inl e \<Rightarrow> Inl e | Inr c \<Rightarrow>
         if c < Tx then Inr True
         else if n > 1 then
           if c < T3 then Inr True
           else if n > 2 then
             if c < T4 \<or> n > 3 then Inr True else Inr False
           else Inr False
         else Inr False
     else Inr False)"

section \<open>Bit operations as arithmetic\<close>

lemma push_bit_or_int:
  fixes a b :: int
  assumes "0 \<le> b" "b < 2 ^ k"
  shows "push_bit k a OR b = a * 2 ^ k + b"
proof -
  have b: "take_bit k b = b"
    using assms by (simp add: take_bit_int_eq_self_iff)
  have "push_bit k a AND b = 0"
    by (subst b [symmetric]) (auto intro!: bit_eqI simp: bit_simps)
  then have "push_bit k a + b = push_bit k a OR b"
    by (rule disjunctive_add_eq_or)
  then show ?thesis
    by (simp add: push_bit_eq_mult)
qed

lemma and_mask_int: "(x :: int) AND (2 ^ k - 1) = x mod 2 ^ k"
  by (simp add: take_bit_eq_mask mask_eq_exp_minus_1 flip: take_bit_eq_mod)

lemma cont_byte_table:
  "list_all (\<lambda>x :: int. ((x XOR 128) AND 192 = 0) = (128 \<le> x \<and> x < 192)
     \<and> (128 \<le> x \<and> x < 192 \<longrightarrow> x XOR 128 = x - 128)) [0..255]"
  by code_simp

lemma cont_byte:
  fixes x :: int
  assumes "0 \<le> x" "x < 256"
  shows "(x XOR Tx) AND Testx = 0 \<longleftrightarrow> 0x80 \<le> x \<and> x < 0xC0"
    and "0x80 \<le> x \<Longrightarrow> x < 0xC0 \<Longrightarrow> x XOR Tx = x - 0x80"
proof -
  have "x \<in> set [0..255]" using assms by simp
  with cont_byte_table show "(x XOR Tx) AND Testx = 0 \<longleftrightarrow> 0x80 \<le> x \<and> x < 0xC0"
    and "0x80 \<le> x \<Longrightarrow> x < 0xC0 \<Longrightarrow> x XOR Tx = x - 0x80"
    unfolding list_all_iff rune_consts by blast+
qed

lemma lead_or:
  fixes y :: int
  assumes "0 \<le> y"
  shows "y < 64 \<Longrightarrow> T2 OR y = 0xC0 + y" "y < 32 \<Longrightarrow> T3 OR y = 0xE0 + y" "y < 16 \<Longrightarrow> T4 OR y = 0xF0 + y"
    "y < 64 \<Longrightarrow> Tx OR y = 0x80 + y"
  using push_bit_or_int [of y 6 3] push_bit_or_int [of y 5 7] push_bit_or_int [of y 4 15] push_bit_or_int [of y 6 2] assms
  by (simp_all add: rune_consts push_bit_eq_mult)

lemma masks:
  "(x :: int) AND Maskx = x mod 64" "x AND Rune2 = x mod 0x800" "x AND Rune3 = x mod 0x10000" "x AND Rune4 = x mod 0x200000"
  using and_mask_int [of x 6] and_mask_int [of x 11] and_mask_int [of x 16] and_mask_int [of x 21]
  by (simp_all add: rune_consts)

text \<open>A two-, three- or four-byte sequence read as a number.\<close>

lemma shift_or_6:
  fixes a x :: int
  assumes "0x80 \<le> x" "x < 0xC0"
  shows "push_bit Bitx a OR (x XOR Tx) = a * 64 + (x - 0x80)"
  using push_bit_or_int [of "x - 0x80" 6 a] cont_byte(2) [of x] assms
  by (simp add: rune_consts)

lemma uint_word_of_int_byte [simp]: "0 \<le> x \<Longrightarrow> x < 256 \<Longrightarrow> uint (word_of_int x :: byte) = x"
  by (simp add: uint_word_of_int)

lemmas masks_num = masks [unfolded rune_consts]
lemmas lead_or_num = lead_or [unfolded rune_consts]
lemmas enc_simps = runetochar_def rune_consts Let_def masks_num lead_or_num drop_bit_eq_div

lemma runetochar_1: "0 \<le> r \<Longrightarrow> r \<le> 0x7F \<Longrightarrow> runetochar r = [word_of_int r]"
  by (simp add: runetochar_def rune_consts)

lemma runetochar_2: "0x7F < r \<Longrightarrow> r \<le> 0x7FF \<Longrightarrow>
    runetochar r = [word_of_int (0xC0 + r div 64), word_of_int (0x80 + r mod 64)]"
  by (simp add: enc_simps)

lemma runetochar_3: "0x7FF < r \<Longrightarrow> r \<le> 0xFFFF \<Longrightarrow>
    runetochar r = [word_of_int (0xE0 + r div 4096), word_of_int (0x80 + r div 64 mod 64),
      word_of_int (0x80 + r mod 64)]"
  by (simp add: enc_simps)

lemma runetochar_4: "0xFFFF < r \<Longrightarrow> r \<le> 0x10FFFF \<Longrightarrow>
    runetochar r = [word_of_int (0xF0 + r div 262144), word_of_int (0x80 + r div 4096 mod 64),
      word_of_int (0x80 + r div 64 mod 64), word_of_int (0x80 + r mod 64)]"
  by (simp add: enc_simps)

lemma runetochar_err: "r < 0 \<or> 0x10FFFF < r \<Longrightarrow> - (2 ^ 31) \<le> r \<Longrightarrow> r < 2 ^ 31 \<Longrightarrow>
    runetochar r = runetochar Runeerror"
proof -
  assume r: "r < 0 \<or> 0x10FFFF < r" "- (2 ^ 31) \<le> r" "r < 2 ^ 31"
  have "0x10FFFF < r mod 2 ^ 64"
  proof (cases "r < 0")
    case True
    then have "r mod 2 ^ 64 = (r + 2 ^ 64) mod 2 ^ 64" by simp
    also have "\<dots> = r + 2 ^ 64" using True r by (intro mod_pos_pos_trivial) auto
    finally show ?thesis using r by simp
  qed (use r in simp)
  then show ?thesis
    by (simp add: runetochar_def rune_consts Let_def)
qed

lemma cont_cases:
  fixes b :: byte
  shows "((uint b XOR Tx) AND Testx \<noteq> 0) = (uint b < 0x80 \<or> 0xC0 \<le> uint b)"
  using cont_byte(1) [of "uint b"] by auto

section \<open>The decoders over plain arithmetic\<close>

text \<open>
  The same case analysis with the bit operations replaced by arithmetic on the byte
  values; both decoders are read through it in the proofs.
\<close>

definition seq2 :: "int \<Rightarrow> int \<Rightarrow> int" where
  "seq2 c b1 = (c * 64 + (b1 - 0x80)) mod 0x800"

definition seq3 :: "int \<Rightarrow> int \<Rightarrow> int \<Rightarrow> int" where
  "seq3 c b1 b2 = ((c * 64 + (b1 - 0x80)) * 64 + (b2 - 0x80)) mod 0x10000"

definition seq4 :: "int \<Rightarrow> int \<Rightarrow> int \<Rightarrow> int \<Rightarrow> int" where
  "seq4 c b1 b2 b3 = (((c * 64 + (b1 - 0x80)) * 64 + (b2 - 0x80)) * 64 + (b3 - 0x80)) mod 0x200000"

lemma rd_sum_split:
  "P (case rd s i of Inl e \<Rightarrow> f e | Inr c \<Rightarrow> g c) \<longleftrightarrow>
    (length s \<le> i \<longrightarrow> P (f OutOfBounds)) \<and> (i < length s \<longrightarrow> P (g (uint (s ! i))))"
  by (cases "i < length s") (auto simp: rd_def)

lemma rd_cong:
  assumes "\<And>b :: byte. g (uint b) = g' (uint b)"
  shows "(case rd s i of Inl e \<Rightarrow> Inl e | Inr c \<Rightarrow> g c) = (case rd s i of Inl e \<Rightarrow> Inl e | Inr c \<Rightarrow> g' c)"
  by (simp add: rd_def assms)

lemma seq_bits:
  fixes b1 b2 b3 :: byte
  assumes "0x80 \<le> uint b1" "uint b1 < 0xC0"
  shows "(push_bit Bitx c OR (uint b1 XOR Tx)) AND Rune2 = seq2 c (uint b1)"
    and "0x80 \<le> uint b2 \<Longrightarrow> uint b2 < 0xC0 \<Longrightarrow>
      (push_bit Bitx (push_bit Bitx c OR (uint b1 XOR Tx)) OR (uint b2 XOR Tx)) AND Rune3
      = seq3 c (uint b1) (uint b2)"
    and "0x80 \<le> uint b2 \<Longrightarrow> uint b2 < 0xC0 \<Longrightarrow> 0x80 \<le> uint b3 \<Longrightarrow> uint b3 < 0xC0 \<Longrightarrow>
      (push_bit Bitx (push_bit Bitx (push_bit Bitx c OR (uint b1 XOR Tx)) OR (uint b2 XOR Tx))
        OR (uint b3 XOR Tx)) AND Rune4 = seq4 c (uint b1) (uint b2) (uint b3)"
  using assms by (simp_all add: shift_or_6 masks seq2_def seq3_def seq4_def)

definition chartorune_arith :: "(int \<Rightarrow> bool) \<Rightarrow> bytes \<Rightarrow> fault + int \<times> int" where
  "chartorune_arith stop s =
    (if stop 0 then Inr (Bad, 0)
     else case rd s 0 of Inl e \<Rightarrow> Inl e | Inr c \<Rightarrow>
       if c < Tx then Inr (c, 1)
       else if stop 1 then Inr (Bad, 0)
       else case rd s 1 of Inl e \<Rightarrow> Inl e | Inr b1 \<Rightarrow>
         if b1 < 0x80 \<or> 0xC0 \<le> b1 then Inr (Bad, 1)
         else if c < T3 then
           if c < T2 then Inr (Bad, 1)
           else if seq2 c b1 \<le> Rune1 then Inr (Bad, 1) else Inr (seq2 c b1, 2)
         else if stop 2 then Inr (Bad, 0)
         else case rd s 2 of Inl e \<Rightarrow> Inl e | Inr b2 \<Rightarrow>
           if b2 < 0x80 \<or> 0xC0 \<le> b2 then Inr (Bad, 1)
           else if c < T4 then
             if seq3 c b1 b2 \<le> Rune2 then Inr (Bad, 1) else Inr (seq3 c b1 b2, 3)
           else if stop 3 then Inr (Bad, 0)
           else case rd s 3 of Inl e \<Rightarrow> Inl e | Inr b3 \<Rightarrow>
             if b3 < 0x80 \<or> 0xC0 \<le> b3 then Inr (Bad, 1)
             else if c < T5 then
               if seq4 c b1 b2 b3 \<le> Rune3 then Inr (Bad, 1) else Inr (seq4 c b1 b2 b3, 4)
             else Inr (Bad, 1))"

lemma charntorune_eq_arith: "charntorune s n = chartorune_arith (\<lambda>i. n \<le> i) s"
  unfolding charntorune_def chartorune_arith_def Let_def
  by (intro if_cong rd_cong refl; simp add: cont_cases seq_bits not_less
      del: push_bit_or push_bit_xor push_bit_push_bit)

lemma chartorune_eq_arith: "chartorune s = chartorune_arith (\<lambda>i. False) s"
  unfolding chartorune_def chartorune_arith_def Let_def if_False
  by (intro if_cong rd_cong refl; simp add: cont_cases seq_bits not_less
      del: push_bit_or push_bit_xor push_bit_push_bit)

lemma mod_eqI: "0 \<le> x \<Longrightarrow> x < m \<Longrightarrow> y = x + k * m \<Longrightarrow> y mod m = (x :: int)"
  by simp

lemma seq2_dec: "0xC0 \<le> c \<Longrightarrow> c < 0xE0 \<Longrightarrow> 0x80 \<le> b1 \<Longrightarrow> b1 < 0xC0 \<Longrightarrow>
    seq2 c b1 = (c - 0xC0) * 64 + (b1 - 0x80)"
  unfolding seq2_def by (rule mod_eqI [where k = 6]) simp_all

lemma seq3_dec: "0xE0 \<le> c \<Longrightarrow> c < 0xF0 \<Longrightarrow> 0x80 \<le> b1 \<Longrightarrow> b1 < 0xC0 \<Longrightarrow> 0x80 \<le> b2 \<Longrightarrow> b2 < 0xC0 \<Longrightarrow>
    seq3 c b1 b2 = ((c - 0xE0) * 64 + (b1 - 0x80)) * 64 + (b2 - 0x80)"
  unfolding seq3_def by (rule mod_eqI [where k = 14]) simp_all

lemma seq4_dec: "0xF0 \<le> c \<Longrightarrow> c < 0xF8 \<Longrightarrow> 0x80 \<le> b1 \<Longrightarrow> b1 < 0xC0 \<Longrightarrow> 0x80 \<le> b2 \<Longrightarrow> b2 < 0xC0 \<Longrightarrow>
    0x80 \<le> b3 \<Longrightarrow> b3 < 0xC0 \<Longrightarrow>
    seq4 c b1 b2 b3 = (((c - 0xF0) * 64 + (b1 - 0x80)) * 64 + (b2 - 0x80)) * 64 + (b3 - 0x80)"
  unfolding seq4_def by (rule mod_eqI [where k = 30]) simp_all

lemmas seq_dec = seq2_dec seq3_dec seq4_dec

lemma div_chain: "(r :: int) div 4096 = r div 64 div 64" "r div 262144 = r div 64 div 64 div 64"
  using zdiv_zmult2_eq [of 64 r 64] zdiv_zmult2_eq [of 64 r 4096] zdiv_zmult2_eq [of 64 "r div 64" 64]
  by simp_all

lemma byte_split_6:
  fixes r :: int
  shows "r div 64 * 64 + r mod 64 = r"
    and "(r div 4096 * 64 + r div 64 mod 64) * 64 + r mod 64 = r"
    and "((r div 262144 * 64 + r div 4096 mod 64) * 64 + r div 64 mod 64) * 64 + r mod 64 = r"
  by (simp_all add: div_chain)

lemma byte_ranges:
  fixes r :: int
  shows "0 \<le> r \<Longrightarrow> 0 \<le> r div 64" "0 \<le> r mod 64" "r mod 64 < 64"
    and "0 \<le> r \<Longrightarrow> 0 \<le> r div 4096" "0 \<le> r \<Longrightarrow> 0 \<le> r div 262144"
    and "r \<le> 0x7FF \<Longrightarrow> r div 64 < 32" "r \<le> 0xFFFF \<Longrightarrow> r div 4096 < 16"
    and "r \<le> 0x10FFFF \<Longrightarrow> r div 262144 < 8"
  by (simp_all add: div_int_pos_iff)

lemma split2:
  assumes "0 \<le> r" "r \<le> 0x7FF"
  obtains a y :: int where "r = a * 64 + y" "0 \<le> a" "a < 32" "0 \<le> y" "y < 64"
    "r div 64 = a" "r mod 64 = y"
  using that [of "r div 64" "r mod 64"] byte_ranges [of r] byte_split_6 [of r] assms by metis

lemma split3:
  assumes "0 \<le> r" "r \<le> 0xFFFF"
  obtains a x y :: int where "r = (a * 64 + x) * 64 + y" "0 \<le> a" "a < 16" "0 \<le> x" "x < 64"
    "0 \<le> y" "y < 64" "r div 4096 = a" "r div 64 mod 64 = x" "r mod 64 = y"
  using that [of "r div 4096" "r div 64 mod 64" "r mod 64"] byte_ranges [of r]
    byte_ranges [of "r div 64"] byte_split_6 [of r] assms by metis

lemma split4:
  assumes "0 \<le> r" "r \<le> 0x10FFFF"
  obtains a w x y :: int where "r = ((a * 64 + w) * 64 + x) * 64 + y" "0 \<le> a" "a < 8"
    "0 \<le> w" "w < 64" "0 \<le> x" "x < 64" "0 \<le> y" "y < 64"
    "r div 262144 = a" "r div 4096 mod 64 = w" "r div 64 mod 64 = x" "r mod 64 = y"
  using that [of "r div 262144" "r div 4096 mod 64" "r div 64 mod 64" "r mod 64"] byte_ranges [of r]
    byte_ranges [of "r div 64"] byte_ranges [of "r div 4096"] byte_split_6 [of r] assms by metis

lemma rune_cases:
  assumes "0 \<le> (r :: int)" "r \<le> 0x10FFFF"
  obtains (one) "r \<le> 0x7F" | (two) "0x7F < r" "r \<le> 0x7FF" | (three) "0x7FF < r" "r \<le> 0xFFFF"
    | (four) "0xFFFF < r"
  using assms by linarith

lemmas arith_simps = chartorune_arith_def rune_consts runelen_def

lemma arith_2: "0 \<le> a \<Longrightarrow> a < 32 \<Longrightarrow> 0 \<le> y \<Longrightarrow> y < 64 \<Longrightarrow>
    0x7F < a * 64 + y \<Longrightarrow> \<not> stop 0 \<Longrightarrow> \<not> stop 1 \<Longrightarrow>
    chartorune_arith stop (word_of_int (0xC0 + a) # word_of_int (0x80 + y) # t)
      = Inr (a * 64 + y, 2)"
  by (simp add: arith_simps seq2_dec del: of_int_add)

lemma arith_3: "0 \<le> a \<Longrightarrow> a < 16 \<Longrightarrow> 0 \<le> x \<Longrightarrow> x < 64 \<Longrightarrow> 0 \<le> y \<Longrightarrow> y < 64 \<Longrightarrow>
    0x7FF < (a * 64 + x) * 64 + y \<Longrightarrow> \<not> stop 0 \<Longrightarrow> \<not> stop 1 \<Longrightarrow> \<not> stop 2 \<Longrightarrow>
    chartorune_arith stop (word_of_int (0xE0 + a) # word_of_int (0x80 + x) # word_of_int (0x80 + y) # t)
      = Inr ((a * 64 + x) * 64 + y, 3)"
  by (simp add: arith_simps seq3_dec numeral_2_eq_2 del: of_int_add)

lemma arith_4: "0 \<le> a \<Longrightarrow> a < 8 \<Longrightarrow> 0 \<le> w \<Longrightarrow> w < 64 \<Longrightarrow> 0 \<le> x \<Longrightarrow> x < 64 \<Longrightarrow> 0 \<le> y \<Longrightarrow> y < 64 \<Longrightarrow>
    0xFFFF < ((a * 64 + w) * 64 + x) * 64 + y \<Longrightarrow>
    \<not> stop 0 \<Longrightarrow> \<not> stop 1 \<Longrightarrow> \<not> stop 2 \<Longrightarrow> \<not> stop 3 \<Longrightarrow>
    chartorune_arith stop (word_of_int (0xF0 + a) # word_of_int (0x80 + w) # word_of_int (0x80 + x)
      # word_of_int (0x80 + y) # t) = Inr (((a * 64 + w) * 64 + x) * 64 + y, 4)"
  by (simp add: arith_simps seq4_dec numeral_2_eq_2 numeral_3_eq_3 del: of_int_add)

lemma runelen_cases:
  "0 \<le> r \<Longrightarrow> r \<le> 0x7F \<Longrightarrow> runelen r = 1" "0x7F < r \<Longrightarrow> r \<le> 0x7FF \<Longrightarrow> runelen r = 2"
  "0x7FF < r \<Longrightarrow> r \<le> 0xFFFF \<Longrightarrow> runelen r = 3" "0xFFFF < r \<Longrightarrow> r \<le> 0x10FFFF \<Longrightarrow> runelen r = 4"
  by (simp_all add: runelen_def runetochar_1 runetochar_2 runetochar_3 runetochar_4)

lemma arith_enc:
  assumes r: "0 \<le> r" "r \<le> 0x10FFFF" and go: "\<And>i. 0 \<le> i \<Longrightarrow> i < runelen r \<Longrightarrow> \<not> stop i"
  shows "chartorune_arith stop (runetochar r @ t) = Inr (r, runelen r)"
  using r
proof (cases rule: rune_cases)
  case one
  with r go [of 0] show ?thesis
    by (simp add: runelen_cases runetochar_1 arith_simps)
next
  case two
  obtain a y where a: "r = a * 64 + y" "0 \<le> a" "a < 32" "0 \<le> y" "y < 64"
    "r div 64 = a" "r mod 64 = y" 
    by (rule split2 [OF r(1) two(2)])
  have l: "runelen r = 2" using two by (rule runelen_cases(2))
  have go': "\<not> stop 0" "\<not> stop 1" by (rule go; simp add: l)+
  have "runetochar r = [word_of_int (0xC0 + a), word_of_int (0x80 + y)]"
    using two a(6,7) by (simp only: runetochar_2)
  then show ?thesis
    using arith_2 [of a y stop t] a(1-5) go' two by (simp add: runelen_def del: of_int_add)
next
  case three
  obtain a x y where a: "r = (a * 64 + x) * 64 + y" "0 \<le> a" "a < 16" "0 \<le> x" "x < 64"
    "0 \<le> y" "y < 64" "r div 4096 = a" "r div 64 mod 64 = x" "r mod 64 = y" 
    by (rule split3 [OF r(1) three(2)])
  have l: "runelen r = 3" using three by (rule runelen_cases(3))
  have go': "\<not> stop 0" "\<not> stop 1" "\<not> stop 2" by (rule go; simp add: l)+
  have "runetochar r = [word_of_int (0xE0 + a), word_of_int (0x80 + x), word_of_int (0x80 + y)]"
    using three a(8-10) by (simp only: runetochar_3)
  then show ?thesis
    using arith_3 [of a x y stop t] a(1-7) go' three by (simp add: runelen_def del: of_int_add)
next
  case four
  obtain a w x y where a: "r = ((a * 64 + w) * 64 + x) * 64 + y" "0 \<le> a" "a < 8"
    "0 \<le> w" "w < 64" "0 \<le> x" "x < 64" "0 \<le> y" "y < 64"
    "r div 262144 = a" "r div 4096 mod 64 = w" "r div 64 mod 64 = x" "r mod 64 = y" 
    by (rule split4 [OF r])
  have l: "runelen r = 4" using four r by (intro runelen_cases(4))
  have go': "\<not> stop 0" "\<not> stop 1" "\<not> stop 2" "\<not> stop 3" by (rule go; simp add: l)+
  have "runetochar r = [word_of_int (0xF0 + a), word_of_int (0x80 + w), word_of_int (0x80 + x),
      word_of_int (0x80 + y)]"
    using four r a(10-13) by (simp only: runetochar_4)
  then show ?thesis
    using arith_4 [of a w x y stop t] a(1-9) go' four by (simp add: runelen_def del: of_int_add)
qed

section \<open>What the decoders can answer\<close>

lemma arith_cases:
  assumes "chartorune_arith stop s = Inr (r, k)"
  obtains (incomplete) "\<exists>i. stop i" "k = 0" "r = Bad"
  | (bad) "0 < length s" "k = 1" "r = Bad"
  | (one) "0 < length s" "r = uint (s ! 0)" "r < 0x80" "k = 1"
  | (two) "1 < length s" "0xC0 \<le> uint (s ! 0)" "uint (s ! 0) < 0xE0"
      "0x80 \<le> uint (s ! 1)" "uint (s ! 1) < 0xC0" "0x7F < r" "k = 2"
      "r = (uint (s ! 0) - 0xC0) * 64 + (uint (s ! 1) - 0x80)"
  | (three) "2 < length s" "0xE0 \<le> uint (s ! 0)" "uint (s ! 0) < 0xF0"
      "0x80 \<le> uint (s ! 1)" "uint (s ! 1) < 0xC0" "0x80 \<le> uint (s ! 2)" "uint (s ! 2) < 0xC0"
      "0x7FF < r" "k = 3"
      "r = ((uint (s ! 0) - 0xE0) * 64 + (uint (s ! 1) - 0x80)) * 64 + (uint (s ! 2) - 0x80)"
  | (four) "3 < length s" "0xF0 \<le> uint (s ! 0)" "uint (s ! 0) < 0xF8"
      "0x80 \<le> uint (s ! 1)" "uint (s ! 1) < 0xC0" "0x80 \<le> uint (s ! 2)" "uint (s ! 2) < 0xC0"
      "0x80 \<le> uint (s ! 3)" "uint (s ! 3) < 0xC0" "0xFFFF < r" "k = 4"
      "r = (((uint (s ! 0) - 0xF0) * 64 + (uint (s ! 1) - 0x80)) * 64 + (uint (s ! 2) - 0x80)) * 64
        + (uint (s ! 3) - 0x80)"
  using assms unfolding chartorune_arith_def rd_def rune_consts
  by (simp split: if_splits sum.splits; fastforce simp: seq_dec not_less not_le)

lemma split_back:
  fixes a x y :: int
  shows "0 \<le> y \<Longrightarrow> y < 64 \<Longrightarrow> (a * 64 + y) div 64 = a \<and> (a * 64 + y) mod 64 = y"
    and "0 \<le> x \<Longrightarrow> x < 64 \<Longrightarrow> 0 \<le> y \<Longrightarrow> y < 64 \<Longrightarrow> ((a * 64 + x) * 64 + y) div 4096 = a"
  by (simp, simp add: div_chain)

lemma take_1_nth: "0 < length s \<Longrightarrow> take (Suc 0) s = [s ! 0]"
  by (cases s) simp_all

lemma take_Suc_nth: "i < length s \<Longrightarrow> take i s = xs \<Longrightarrow> take (Suc i) s = xs @ [s ! i]"
  by (simp add: take_Suc_conv_app_nth)

lemma take_2_nth: "1 < length s \<Longrightarrow> take 2 s = [s ! 0, s ! 1]"
  using take_1_nth [of "tl s"] by (cases s; simp add: numeral_2_eq_2)

lemma take_3_nth: "2 < length s \<Longrightarrow> take 3 s = [s ! 0, s ! 1, s ! 2]"
  using take_2_nth [of s] take_Suc_nth [of 2 s "[s ! 0, s ! 1]"] by simp

lemma take_4_nth: "3 < length s \<Longrightarrow> take 4 s = [s ! 0, s ! 1, s ! 2, s ! 3]"
  using take_3_nth [of s] take_Suc_nth [of 3 s "[s ! 0, s ! 1, s ! 2]"] by simp

lemmas nth_take_lists = take_2_nth take_3_nth take_4_nth

lemma arith_canonical:
  assumes d: "chartorune_arith stop s = Inr (r, k)" and ok: "r \<noteq> Bad \<or> k = 3" and r: "r \<le> 0x10FFFF"
  shows "0 \<le> r \<and> k = runelen r \<and> take (nat k) s = runetochar r"
  using d
proof (cases rule: arith_cases)
  case one
  then show ?thesis
    by (simp add: runelen_cases runetochar_1 take_1_nth)
next
  case two
  define a y where "a = uint (s ! 0) - 0xC0" and "y = uint (s ! 1) - 0x80"
  have e: "uint (s ! 0) = 0xC0 + a" "uint (s ! 1) = 0x80 + y" "r = a * 64 + y"
    using two(8) by (simp_all add: a_def y_def)
  have b: "0 \<le> y" "y < 64" "a < 32" using two(3-5) by (simp_all add: a_def y_def)
  have w: "s ! 0 = word_of_int (0xC0 + a)" "s ! 1 = word_of_int (0x80 + y)"
    unfolding e(1,2) [symmetric] by simp_all
  have r2: "r \<le> 0x7FF" using b e(3) by simp
  have "runetochar r = [s ! 0, s ! 1]"
    using split_back(1) [OF b(1,2), of a] runetochar_2 [OF two(6) r2] by (simp only: w e(3))
  with two(1,6,7) r2 show ?thesis
    by (simp add: runelen_cases nth_take_lists)
next
  case three
  define a x y where "a = uint (s ! 0) - 0xE0" and "x = uint (s ! 1) - 0x80"
    and "y = uint (s ! 2) - 0x80"
  have e: "uint (s ! 0) = 0xE0 + a" "uint (s ! 1) = 0x80 + x" "uint (s ! 2) = 0x80 + y"
      "r = (a * 64 + x) * 64 + y"
    using three(10) by (simp_all add: a_def x_def y_def)
  have b: "0 \<le> x" "x < 64" "0 \<le> y" "y < 64" "a < 16"
    using three(3-7) by (simp_all add: a_def x_def y_def)
  have w: "s ! 0 = word_of_int (0xE0 + a)" "s ! 1 = word_of_int (0x80 + x)"
      "s ! 2 = word_of_int (0x80 + y)"
    unfolding e(1-3) [symmetric] by simp_all
  have r2: "r \<le> 0xFFFF" using b e(4) by simp
  have "runetochar r = [s ! 0, s ! 1, s ! 2]"
    using split_back(1) [OF b(1,2), of a] split_back(1) [OF b(3,4), of "a * 64 + x"]
      split_back(2) [OF b(1-4), of a] runetochar_3 [OF three(8) r2] by (simp only: w e(4))
  with three(1,8,9) r2 show ?thesis
    by (simp add: runelen_cases nth_take_lists)
next
  case four
  define a v x y where "a = uint (s ! 0) - 0xF0" and "v = uint (s ! 1) - 0x80"
    and "x = uint (s ! 2) - 0x80" and "y = uint (s ! 3) - 0x80"
  have e: "uint (s ! 0) = 0xF0 + a" "uint (s ! 1) = 0x80 + v" "uint (s ! 2) = 0x80 + x"
      "uint (s ! 3) = 0x80 + y" "r = ((a * 64 + v) * 64 + x) * 64 + y"
    using four(12) by (simp_all add: a_def v_def x_def y_def)
  have b: "0 \<le> v" "v < 64" "0 \<le> x" "x < 64" "0 \<le> y" "y < 64"
    using four(4-9) by (simp_all add: v_def x_def y_def)
  have w: "s ! 0 = word_of_int (0xF0 + a)" "s ! 1 = word_of_int (0x80 + v)"
      "s ! 2 = word_of_int (0x80 + x)" "s ! 3 = word_of_int (0x80 + y)"
    unfolding e(1-4) [symmetric] by simp_all
  have d3: "(((a * 64 + v) * 64 + x) * 64 + y) div 262144 = a"
    using split_back(2) [OF b(1-4), of a] split_back(1) [OF b(5,6), of "(a * 64 + v) * 64 + x"]
      split_back(1) [OF b(1,2), of a] split_back(1) [OF b(3,4), of "a * 64 + v"]
    by (simp only: div_chain)
  have "runetochar r = [s ! 0, s ! 1, s ! 2, s ! 3]"
    using split_back(1) [OF b(1,2), of a] split_back(2) [OF b(3-6), of "a * 64 + v"]
      split_back(1) [OF b(5,6), of "(a * 64 + v) * 64 + x"]
      split_back(1) [OF b(3,4), of "a * 64 + v"]
      d3 runetochar_4 [OF four(10) r] by (simp only: w e(5))
  with four(1,10,11) r show ?thesis
    by (simp add: runelen_cases nth_take_lists)
qed (use ok in simp_all)

section \<open>Reads against a terminator and against a length\<close>

lemma rd_prefix: "i < length s \<Longrightarrow> rd (s @ t) i = rd s i"
  by (simp add: rd_def nth_append)

lemma arith_nul:
  "chartorune_arith (\<lambda>i. False) (s @ 0 # t)
    = chartorune_arith (\<lambda>i. int (length s) + 1 \<le> i) (s @ [0])"
proof -
  consider "s = []" | c where "s = [c]" | c b where "s = [c, b]" | c b d u where "s = c # b # d # u"
    by (metis neq_Nil_conv)
  then show ?thesis
  proof cases
    case (4 c b d u)
    have "rd ((s @ [0]) @ t) i = rd (s @ [0]) i" if "i \<le> 3" for i
      by (rule rd_prefix) (use that 4 in simp)
    from this [of 0] this [of 1] this [of 2] this [of 3]
    have r: "rd (s @ 0 # t) 0 = rd (s @ [0]) 0" "rd (s @ 0 # t) 1 = rd (s @ [0]) 1"
      "rd (s @ 0 # t) 2 = rd (s @ [0]) 2" "rd (s @ 0 # t) 3 = rd (s @ [0]) 3"
      by simp_all
    have n: "(int (length s) + 1 \<le> 0) = False" "(int (length s) + 1 \<le> 1) = False"
      "(int (length s) + 1 \<le> 2) = False" "(int (length s) + 1 \<le> 3) = False"
      using 4 by simp_all
    show ?thesis
      by (simp only: chartorune_arith_def r n)
  qed (simp_all add: chartorune_arith_def rune_consts rd_def)
qed

lemma arith_total:
  assumes "\<And>i. i < 4 \<Longrightarrow> int i < n \<Longrightarrow> i < length s"
  shows "\<exists>r k. chartorune_arith (\<lambda>i. n \<le> i) s = Inr (r, k)"
  using assms [of 0] assms [of 1] assms [of 2] assms [of 3]
  by (auto simp: chartorune_arith_def rd_def)

text \<open>A decoder given a length it may use never reads past it.\<close>

lemma charntorune_total: "n \<le> int (length s) \<Longrightarrow> \<exists>r k. charntorune s n = Inr (r, k)"
  unfolding charntorune_eq_arith by (rule arith_total) simp

lemma arith_consumed:
  assumes "chartorune_arith stop s = Inr (r, k)"
  shows "k \<le> int (length s) \<and> 0 \<le> k \<and> k \<le> 4"
  using assms by (cases rule: arith_cases) (auto simp: Suc_le_eq)


section \<open>Rune sequences\<close>

text \<open>The loop body of a client that accepts only what \<^verbatim>\<open>isvalidcharntorune\<close> accepts.\<close>

definition next_rune :: "bytes \<Rightarrow> (int \<times> nat) option" where
  "next_rune s =
    (case isvalidcharntorune s (int (length s)) of
       Inr (True, r, k) \<Rightarrow> Some (r, nat k)
     | _ \<Rightarrow> None)"

definition valid_rune :: "int \<Rightarrow> bool" where
  "valid_rune r \<longleftrightarrow> 0 \<le> r \<and> r \<le> Runemax"

lemma charntorune_enc:
  "valid_rune r \<Longrightarrow> runelen r \<le> n \<Longrightarrow> charntorune (runetochar r @ t) n = Inr (r, runelen r)"
  unfolding charntorune_eq_arith by (rule arith_enc) (auto simp: valid_rune_def rune_consts)

lemma isvalid_enc:
  assumes "valid_rune r" "runelen r \<le> n"
  shows "isvalidcharntorune (runetochar r @ t) n = Inr (True, r, runelen r)"
  using charntorune_enc [OF assms, of t] runelen_cases(3) [of r]
  by (auto simp: isvalidcharntorune_def rune_consts)

lemma next_rune_canonical:
  assumes "next_rune s = Some (r, k)" "valid_rune r"
  shows "take k s = runetochar r"
proof -
  from assms(1) obtain k' where k: "k = nat k'" "charntorune s (int (length s)) = Inr (r, k')"
    and ok: "r \<noteq> Runeerror \<or> k' = 3"
    by (auto simp: next_rune_def isvalidcharntorune_def split: sum.splits bool.splits prod.splits)
  show ?thesis
    using arith_canonical [OF k(2) [unfolded charntorune_eq_arith]] ok assms(2) k(1)
    by (auto simp: valid_rune_def Bad_def Runemax_def)
qed

interpretation utf8: canonical_codec valid_rune runetochar next_rune
proof
  show "runetochar r \<noteq> []" for r
    by (simp add: runetochar_def Let_def)
  show "valid_rune r \<Longrightarrow> next_rune (runetochar r @ t) = Some (r, length (runetochar r))" for r t
    by (simp add: next_rune_def isvalid_enc runelen_def)
qed (rule next_rune_canonical)

lemma runenlen_loop_acc: "runenlen_loop nb rs = nb + runenlen_loop 0 rs"
proof (induction rs arbitrary: nb)
  case (Cons c rs)
  show ?case
    using Cons.IH [of "nb + 1"] Cons.IH [of "nb + 2"] Cons.IH [of "nb + 3"] Cons.IH [of "nb + 4"]
      Cons.IH [of 1] Cons.IH [of 2] Cons.IH [of 3] Cons.IH [of 4]
    by simp
qed simp

lemma runenlen_Cons: "valid_rune c \<Longrightarrow> runenlen (c # rs) = runelen c + runenlen rs"
  unfolding runenlen_def runenlen_loop.simps
  by (subst runenlen_loop_acc) (auto simp: valid_rune_def rune_consts runelen_cases)

lemma fullrune_enc:
  assumes r: "0 \<le> r" "r \<le> 0x10FFFF" and n: "0 \<le> n"
  shows "fullrune (runetochar r @ t) n = Inr (runelen r \<le> n)"
  using r
proof (cases rule: rune_cases)
  case two
  obtain a y where a: "r = a * 64 + y" "0 \<le> a" "a < 32" "0 \<le> y" "y < 64"
    "r div 64 = a" "r mod 64 = y"
    by (rule split2 [OF r(1) two(2)])
  have "runetochar r = [word_of_int (0xC0 + a), word_of_int (0x80 + y)]"
    using two a(6,7) by (simp only: runetochar_2)
  with a(2,3) n show ?thesis
    by (auto simp: fullrune_def rune_consts runelen_def simp del: of_int_add)
next
  case three
  obtain a x y where a: "r = (a * 64 + x) * 64 + y" "0 \<le> a" "a < 16" "0 \<le> x" "x < 64"
    "0 \<le> y" "y < 64" "r div 4096 = a" "r div 64 mod 64 = x" "r mod 64 = y"
    by (rule split3 [OF r(1) three(2)])
  have "runetochar r = [word_of_int (0xE0 + a), word_of_int (0x80 + x), word_of_int (0x80 + y)]"
    using three a(8-10) by (simp only: runetochar_3)
  with a(2,3) n show ?thesis
    by (auto simp: fullrune_def rune_consts runelen_def simp del: of_int_add)
next
  case four
  obtain a w x y where a: "r = ((a * 64 + w) * 64 + x) * 64 + y" "0 \<le> a" "a < 8"
    "0 \<le> w" "w < 64" "0 \<le> x" "x < 64" "0 \<le> y" "y < 64"
    "r div 262144 = a" "r div 4096 mod 64 = w" "r div 64 mod 64 = x" "r mod 64 = y"
    by (rule split4 [OF r])
  have "runetochar r = [word_of_int (0xF0 + a), word_of_int (0x80 + w), word_of_int (0x80 + x),
      word_of_int (0x80 + y)]"
    using four r a(10-13) by (simp only: runetochar_4)
  with a(2,3) n show ?thesis
    by (auto simp: fullrune_def rune_consts runelen_def simp del: of_int_add)
qed (use r n in \<open>auto simp: runetochar_1 fullrune_def rune_consts runelen_def\<close>)

lemma fullrune_sound:
  "fullrune s n = Inr True \<Longrightarrow> charntorune s n = Inr (r, k) \<Longrightarrow> 0 < k"
  unfolding charntorune_eq_arith chartorune_arith_def fullrune_def rd_def
  by (auto simp: rune_consts split: if_splits)

text \<open>
  The validity test knows nothing of the Unicode limit: it accepts the four-byte form of a
  number behind \<^verbatim>\<open>Runemax\<close>, which \<^verbatim>\<open>runetochar\<close> would then write as the error rune.
\<close>

lemma isvalid_beyond_runemax:
  "isvalidcharntorune [0xF4, 0x90, 0x80, 0x80] 4 = Inr (True, 0x110000, 4)
    \<and> 0x110000 > Runemax \<and> runetochar 0x110000 = runetochar Runeerror"
  by (simp add: isvalidcharntorune_def charntorune_def rd_def rune_consts Let_def push_bit_eq_mult
      runetochar_def)

section \<open>Properties of the coder\<close>

text \<open>
  C33: every rune of the Unicode range survives encoding and decoding, by the bounded and by
  the unbounded decoder, whatever follows it in the buffer, and the decoders consume
  exactly the bytes written.
\<close>

theorem rune_roundtrip:
  assumes "0 \<le> r" "r \<le> Runemax" "runelen r \<le> n"
  shows "charntorune (runetochar r @ t) n = Inr (r, runelen r)
    \<and> chartorune (runetochar r @ t) = Inr (r, runelen r)"
  using assms charntorune_enc [of r n t] arith_enc [of r "\<lambda>i. False" t]
  by (simp add: valid_rune_def chartorune_eq_arith Runemax_def)

theorem rune_roundtrip_witness:
  "charntorune (runetochar 0x20AC @ [0x41]) 3 = Inr (0x20AC, 3)
    \<and> chartorune (runetochar 0x20AC @ [0x41]) = Inr (0x20AC, 3)"
  using rune_roundtrip [of "0x20AC" 3 "[0x41]"] by (simp add: runelen_cases Runemax_def)

text \<open>
  a sequence that \<^verbatim>\<open>isvalidcharntorune\<close> accepts, for a rune of the Unicode range, is the one
  encoding \<^verbatim>\<open>runetochar\<close> writes for it: overlong and truncated forms are rejected.
\<close>

theorem utf8_canonical:
  assumes "isvalidcharntorune s n = Inr (True, r, k)" "r \<le> Runemax"
  shows "0 \<le> r \<and> k = runelen r \<and> take (nat k) s = runetochar r"
proof -
  from assms(1) have "chartorune_arith (\<lambda>i. n \<le> i) s = Inr (r, k)" "r \<noteq> Bad \<or> k = 3"
    by (auto simp: isvalidcharntorune_def charntorune_eq_arith Bad_def split: sum.splits prod.splits)
  with assms(2) show ?thesis
    by (intro arith_canonical) (auto simp: Runemax_def)
qed

theorem utf8_canonical_witness:
  "take (nat 2) [0xC3, 0xA9, 0x21] = runetochar 0xE9"
  using utf8_canonical [of "[0xC3, 0xA9, 0x21]" 3 "0xE9" 2]
  by (simp add: isvalidcharntorune_def charntorune_def rd_def rune_consts Let_def push_bit_eq_mult)

text \<open>
  a buffer of concatenated encodings decodes to the runes that were encoded, and
  \<^verbatim>\<open>runenlen\<close> is exactly the number of bytes that buffer takes.
\<close>

theorem rune_sequence_roundtrip:
  assumes "list_all (\<lambda>r. 0 \<le> r \<and> r \<le> Runemax) rs"
  shows "decode_all (nat (runenlen rs)) next_rune (concat (map runetochar rs)) = Some rs
    \<and> runenlen rs = int (length (concat (map runetochar rs)))"
proof -
  have v: "\<And>r. r \<in> set rs \<Longrightarrow> valid_rune r"
    using assms by (simp add: valid_rune_def list_all_iff)
  then have n: "runenlen rs = int (length (concat (map runetochar rs)))"
    by (induction rs) (simp_all add: runenlen_Cons runelen_def, simp add: runenlen_def)
  show ?thesis
    using utf8.decode_all_enc [OF v] n by simp
qed

theorem rune_sequence_roundtrip_witness:
  "decode_all (nat (runenlen [0x48, 0xE9, 0x1F600])) next_rune
      (concat (map runetochar [0x48, 0xE9, 0x1F600])) = Some [0x48, 0xE9, 0x1F600]
    \<and> runenlen [0x48, 0xE9, 0x1F600] = 7"
  using rune_sequence_roundtrip [of "[0x48, 0xE9, 0x1F600]"]
  by (simp add: runenlen_def rune_consts)

text \<open>
  on a NUL-terminated string the unbounded decoder reads nothing behind the
  terminator: it answers what the bounded decoder answers when given the string and its
  terminator, it always answers, and it consumes at least one byte.
\<close>

theorem chartorune_nul_terminated:
  "chartorune (s @ 0 # t) = charntorune (s @ [0]) (int (length s) + 1)
    \<and> (\<exists>r k. chartorune (s @ 0 # t) = Inr (r, k) \<and> 1 \<le> k \<and> k \<le> int (length s) + 1)"
proof -
  have eq: "chartorune (s @ 0 # t) = charntorune (s @ [0]) (int (length s) + 1)"
    by (simp add: chartorune_eq_arith charntorune_eq_arith arith_nul)
  obtain r k where d: "chartorune (s @ 0 # t) = Inr (r, k)"
    using charntorune_total [of "int (length s) + 1" "s @ [0]"] eq by auto
  have "1 \<le> k"
    using d [unfolded chartorune_eq_arith] by (cases rule: arith_cases) auto
  moreover have "k \<le> int (length s) + 1"
    using arith_consumed [OF d [unfolded eq charntorune_eq_arith]] by simp
  ultimately show ?thesis
    using eq d by blast
qed

text \<open>
  on a prefix of an encoding \<^verbatim>\<open>fullrune\<close> answers whether the whole rune has arrived, and
  whenever it answers yes the bounded decoder consumes input.
\<close>

theorem fullrune_exact:
  assumes "0 \<le> r" "r \<le> Runemax" "0 \<le> n"
  shows "fullrune (runetochar r @ t) n = Inr (runelen r \<le> n)
    \<and> (\<forall>s r' k. fullrune s n = Inr True \<longrightarrow> charntorune s n = Inr (r', k) \<longrightarrow> 0 < k)"
  using assms fullrune_enc [of r n t] fullrune_sound by (auto simp: Runemax_def)

theorem fullrune_exact_witness:
  "fullrune (runetochar 0x20AC @ [0x41]) 2 = Inr False"
  using fullrune_exact [of "0x20AC" 2 "[0x41]"] by (simp add: runelen_cases Runemax_def)

end
