(* ===== verification/RandomGen.thy ===== *)
theory RandomGen
  imports Prelude "HOL-Library.Multiset"
begin

text \<open>
  The pseudo-random generator of \<^verbatim>\<open>base/random.h\<close> and its clients: the numbers drawn from it,
  the reservoir sampler, the byte filler of \<^verbatim>\<open>base/random_util.cc\<close>.  An operation takes the
  generator and returns its result with the generator after it.  The thread-safe wrapper
  holds its lock for exactly one such operation, so each of its methods is the operation
  on the wrapped generator.
\<close>

section \<open>The generator\<close>

record Random =
  seed :: u32

definition M :: u32 where "M = 2147483647"

definition Reset :: "u32 \<Rightarrow> Random" where
  "Reset s =
    (let s0 = s AND 0x7fffffff in
     \<lparr>seed = (if s0 = 0 \<or> s0 = M then 1 else s0)\<rparr>)"

definition Next :: "Random \<Rightarrow> u32 \<times> Random" where
  "Next r =
    (let A = 16807 :: u64;
         product = ucast (seed r) * A;
         s = (ucast (drop_bit 31 product + (product AND ucast M)) :: u32);
         s = (if s > M then s - M else s)
     in (s, r\<lparr>seed := s\<rparr>))"

definition Next32 :: "Random \<Rightarrow> u32 \<times> Random" where
  "Next32 r = Next r"

definition Next64 :: "Random \<Rightarrow> u64 \<times> Random" where
  "Next64 r =
    (let (a, r) = Next r;
         large = push_bit 31 (ucast a :: u64);
         (b, r) = Next r;
         large = large OR ucast b;
         (c, r) = Next32 r
     in (large OR push_bit 62 (ucast c), r))"

definition Uniform :: "Random \<Rightarrow> u32 \<Rightarrow> u32 \<times> Random" where
  "Uniform r n = (let (v, r) = Next r in (v mod n, r))"

definition Uniform32 :: "Random \<Rightarrow> u32 \<Rightarrow> u32 \<times> Random" where
  "Uniform32 r n = Uniform r n"

definition Uniform64 :: "Random \<Rightarrow> u64 \<Rightarrow> u64 \<times> Random" where
  "Uniform64 r n = (let (v, r) = Next64 r in (v mod n, r))"

definition OneIn :: "Random \<Rightarrow> int \<Rightarrow> bool \<times> Random" where
  "OneIn r n = (let (v, r) = Next r in (v mod word_of_int n = 0, r))"

definition Skewed :: "Random \<Rightarrow> int \<Rightarrow> u32 \<times> Random" where
  "Skewed r max_log =
    (let (base, r) = Uniform r (word_of_int (max_log + 1))
     in Uniform r (push_bit (unat base) 1))"

section \<open>Reservoir sampling\<close>

text \<open>
  The sampler draws through a function \<open>uni\<close>, which is \<^verbatim>\<open>Uniform\<close> in the code.  The \<^verbatim>\<open>int i\<close>
  counts the elements seen outside \<open>avoid\<close>; the drawn number is stored in the \<^verbatim>\<open>int j\<close>, and
  an element is overwritten at that index, where a negative index is a fault.  The
  comparison of the result's size with \<open>k\<close> is unsigned; \<open>k\<close> is not negative here.
\<close>

fun reservoir_loop ::
    "('s \<Rightarrow> u32 \<Rightarrow> u32 \<times> 's) \<Rightarrow> 's \<Rightarrow> 'a set \<Rightarrow> int \<Rightarrow> int \<Rightarrow> 'a list \<Rightarrow> 'a list
      \<Rightarrow> fault + 'a list \<times> 's" where
  "reservoir_loop uni s avoid k i res [] = Inr (res, s)"
| "reservoir_loop uni s avoid k i res (elem # c) =
    (if elem \<in> avoid then reservoir_loop uni s avoid k i res c
     else let i = wrap32 (i + 1) in
       if int (length res) < k then reservoir_loop uni s avoid k i (res @ [elem]) c
       else let (v, s) = uni s (word_of_int i); j = sint v in
         if j < k then
           if j < 0 then Inl OutOfBounds
           else reservoir_loop uni s avoid k i (res[nat j := elem]) c
         else reservoir_loop uni s avoid k i res c)"

text \<open>
  \<^verbatim>\<open>reserve(k)\<close> turns a negative \<open>k\<close> into a size no vector can have, which throws.
\<close>

definition ReservoirSample :: "Random \<Rightarrow> 'a list \<Rightarrow> int \<Rightarrow> 'a set \<Rightarrow> fault + 'a list \<times> Random" where
  "ReservoirSample r c k avoid =
    (if k < 0 then Inl OutOfBounds
     else reservoir_loop Uniform r avoid k 0 [] c)"

section \<open>Filling a buffer with random bytes\<close>

text \<open>\<^verbatim>\<open>memcpy\<close> of a \<^verbatim>\<open>uint32_t\<close> on the little-endian targets of the code.\<close>

definition bytes_of_u32 :: "u32 \<Rightarrow> bytes" where
  "bytes_of_u32 w = [ucast w, ucast (drop_bit 8 w), ucast (drop_bit 16 w), ucast (drop_bit 24 w)]"

text \<open>
  The loop of whole words: \<open>i\<close> is the write position, \<open>n\<close> the size of the buffer, the
  result is what has been written, the word drawn last and the generator.
\<close>

function RandomString_loop :: "nat \<Rightarrow> nat \<Rightarrow> bytes \<Rightarrow> u32 \<Rightarrow> Random \<Rightarrow> nat \<times> bytes \<times> u32 \<times> Random" where
  "RandomString_loop n i dest random r =
    (if i \<le> n - 4 then
       let dest = dest @ bytes_of_u32 random; (random, r) = Next r
       in RandomString_loop n (i + 4) dest random r
     else (i, dest, random, r))"
  by pat_completeness auto
termination
  by (relation "measure (\<lambda>(n, i, _). n + 4 - i)") auto

declare RandomString_loop.simps [simp del]

definition RandomString :: "nat \<Rightarrow> Random \<Rightarrow> bytes \<times> Random" where
  "RandomString n r =
    (let (random, r) = Next r;
         (i, dest, random, r) =
           (if n \<ge> 4 then RandomString_loop n 0 [] random r else (0, [], random, r))
     in (dest @ take (n - i) (bytes_of_u32 random), r))"

section \<open>The generator as multiplication modulo a prime\<close>

definition good_seed :: "Random \<Rightarrow> bool" where
  "good_seed r \<longleftrightarrow> 0 < unat (seed r) \<and> unat (seed r) < 2147483647"

lemma unat_take_bit_word: "unat (take_bit n (w :: 'a::len word)) = unat w mod 2 ^ n"
  by (simp add: take_bit_eq_mod unsigned_take_bit_eq flip: take_bit_eq_mod)

lemma and_M31: "(w :: 'a::len word) AND 0x7fffffff = take_bit 31 w"
  by (simp add: take_bit_eq_mask mask_eq_exp_minus_1)

lemma unat_M [simp]: "unat M = 2147483647"
  by (simp add: M_def)

lemma Reset_good [wf]: "good_seed (Reset s)"
proof -
  let ?x = "s AND 0x7fffffff"
  have "unat ?x < 2 ^ 31"
    by (simp add: and_M31 unat_take_bit_word)
  moreover have "unat ?x \<noteq> 0" if "?x \<noteq> 0"
    using that by (simp add: unat_eq_0)
  moreover have "unat ?x \<noteq> 2147483647" if "?x \<noteq> M"
    using that by (auto simp: word_unat_eq_iff)
  ultimately show ?thesis
    by (auto simp: Reset_def good_seed_def Let_def)
qed

lemma mersenne_fold:
  fixes p :: nat
  assumes "p < 2147483647 * 2147483647"
  shows "(if p div 2 ^ 31 + p mod 2 ^ 31 > 2147483647 then p div 2 ^ 31 + p mod 2 ^ 31 - 2147483647
     else p div 2 ^ 31 + p mod 2 ^ 31) mod 2147483647 = p mod 2147483647"
    and "(if p div 2 ^ 31 + p mod 2 ^ 31 > 2147483647 then p div 2 ^ 31 + p mod 2 ^ 31 - 2147483647
     else p div 2 ^ 31 + p mod 2 ^ 31) \<le> 2147483647"
proof -
  define h l where "h = p div 2147483648" and "l = p mod 2147483648"
  have p: "p = h * 2147483647 + (h + l)" 
    using div_mult_mod_eq [of p 2147483648] by (simp add: h_def l_def)
  have e: "(h + l) mod 2147483647 = p mod 2147483647"
    unfolding p by (simp only: mod_mult_self3)
  have h: "h < 2147483647" using assms unfolding h_def by (simp add: less_mult_imp_div_less)
  have l: "l < 2147483648" by (simp add: l_def)
  have k: "p div 2 ^ 31 = h" "p mod 2 ^ 31 = l"
    by (simp_all add: h_def l_def)
  show "(if p div 2 ^ 31 + p mod 2 ^ 31 > 2147483647 then p div 2 ^ 31 + p mod 2 ^ 31 - 2147483647
     else p div 2 ^ 31 + p mod 2 ^ 31) mod 2147483647 = p mod 2147483647"
    unfolding k using e le_mod_geq [of 2147483647 "h + l"] by auto
  show "(if p div 2 ^ 31 + p mod 2 ^ 31 > 2147483647 then p div 2 ^ 31 + p mod 2 ^ 31 - 2147483647
     else p div 2 ^ 31 + p mod 2 ^ 31) \<le> 2147483647"
    unfolding k using h l by auto
qed

text \<open>Multiplication by the inverse of the multiplier undoes a step.\<close>

lemma undo_A: "(1407677000 * ((s * 16807) mod 2147483647)) mod 2147483647 = s mod (2147483647 :: nat)"
proof -
  have "(1407677000 * ((s * 16807) mod 2147483647)) mod 2147483647
      = (1407677000 * (s * 16807)) mod (2147483647 :: nat)"
    by (rule mod_mult_right_eq)
  also have "1407677000 * (s * 16807) = s + 11017 * s * 2147483647"
    by simp
  also have "\<dots> mod 2147483647 = s mod 2147483647"
    by (rule mod_mult_self1)
  finally show ?thesis .
qed

lemma undo_A_inj:
  "s < 2147483647 \<Longrightarrow> t < 2147483647 \<Longrightarrow>
    (s * 16807) mod 2147483647 = (t * 16807) mod (2147483647 :: nat) \<Longrightarrow> s = t"
  by (metis undo_A mod_less)

lemma step_nonzero: "0 < s \<Longrightarrow> s < 2147483647 \<Longrightarrow> 0 < (s * 16807) mod (2147483647 :: nat)"
  using undo_A_inj [of s 0] by auto

lemma unat_Next_good:
  assumes "good_seed r"
  shows "unat (fst (Next r)) = (unat (seed r) * 16807) mod 2147483647"
proof -
  define p :: u64 where "p = ucast (seed r) * 16807"
  define q where "q = unat (seed r) * 16807"
  have s: "0 < unat (seed r)" "unat (seed r) < 2147483647"
    using assms by (auto simp: good_seed_def)
  then have q: "q < 2147483647 * 2147483647" "q < 2 ^ 46"
    by (simp_all add: q_def)
  have "take_bit 64 (unat (seed r)) = unat (seed r)"
    using s by (intro take_bit_nat_eq_self) simp
  then have p: "unat p = q"
    using q(2) by (simp add: p_def q_def unat_word_ariths unsigned_ucast_eq)
  have m: "(ucast M :: u64) = 0x7fffffff"
    by (simp add: M_def)
  have hi: "unat (drop_bit 31 p) = q div 2 ^ 31"
    unfolding unat_drop_bit_eq p by (rule drop_bit_eq_div)
  have lo: "unat (p AND ucast M) = q mod 2 ^ 31"
    by (simp add: m and_M31 unat_take_bit_word p)
  have b: "q div 2 ^ 31 < 2 ^ 15" "q mod 2 ^ 31 < 2 ^ 31"
    using q(2) by (simp_all add: less_mult_imp_div_less)
  define w :: u32 where "w = ucast (drop_bit 31 p + (p AND ucast M))"
  have w: "unat w = q div 2 ^ 31 + q mod 2 ^ 31"
    using b by (simp add: w_def unsigned_ucast_eq take_bit_nat_eq_self unat_word_ariths hi lo)
  have res: "unat (fst (Next r)) = (if q div 2 ^ 31 + q mod 2 ^ 31 > 2147483647
      then q div 2 ^ 31 + q mod 2 ^ 31 - 2147483647 else q div 2 ^ 31 + q mod 2 ^ 31)"
    by (simp add: Next_def Let_def p_def [symmetric] w_def [symmetric] word_less_nat_alt w unat_sub word_le_nat_alt)
  have nz: "0 < q mod 2147483647"
    unfolding q_def using s by (rule step_nonzero)
  have "unat (fst (Next r)) mod 2147483647 = q mod 2147483647" "unat (fst (Next r)) \<le> 2147483647"
    unfolding res using mersenne_fold [OF q(1)] by blast+
  then have "unat (fst (Next r)) = q mod 2147483647"
    using nz by (cases "unat (fst (Next r)) = 2147483647") auto
  then show ?thesis
    by (simp add: q_def)
qed

lemma seed_Next [simp]: "seed (snd (Next r)) = fst (Next r)"
  by (simp add: Next_def Let_def)

lemma Next_good [wf]: "good_seed r \<Longrightarrow> good_seed (snd (Next r))"
  using step_nonzero [of "unat (seed r)"]
  by (simp add: good_seed_def unat_Next_good [unfolded good_seed_def])

text \<open>The state after drawing \<open>n\<close> numbers.\<close>

definition draw :: "nat \<Rightarrow> Random \<Rightarrow> Random" where
  "draw n r = ((\<lambda>r. snd (Next r)) ^^ n) r"

lemma draw_good [wf]: "good_seed r \<Longrightarrow> good_seed (draw n r)"
  by (induction n) (auto simp: draw_def intro: wf)

lemma unat_draw:
  assumes "good_seed r"
  shows "unat (seed (draw n r)) = (unat (seed r) * 16807 ^ n) mod 2147483647"
proof (induction n)
  case 0
  then show ?case using assms by (simp add: draw_def good_seed_def)
next
  case (Suc n)
  have "unat (seed (draw (Suc n) r)) = unat (seed (draw n r)) * 16807 mod 2147483647"
    using unat_Next_good [OF draw_good [OF assms, of n]] by (simp add: draw_def)
  then show ?case
    by (simp add: Suc.IH mod_mult_left_eq mult.assoc mult.commute [of 16807])
qed

lemma Next_inj: "good_seed r \<Longrightarrow> good_seed t \<Longrightarrow> fst (Next r) = fst (Next t) \<Longrightarrow> seed r = seed t"
  using undo_A_inj [of "unat (seed r)" "unat (seed t)"] unat_Next_good [of r] unat_Next_good [of t]
  by (auto simp: good_seed_def word_unat_eq_iff)

lemma good_seed_Uniform [wf]:
  "good_seed r \<Longrightarrow> good_seed (snd (Uniform r n))" "good_seed r \<Longrightarrow> good_seed (snd (Next64 r))"
  by (auto simp: Uniform_def Next64_def Next32_def Let_def split: prod.splits)
    (metis Next_good snd_conv)+

lemma Uniform_lt: "0 < n \<Longrightarrow> fst (Uniform r n) < n"
  by (simp add: Uniform_def word_less_nat_alt unat_mod split: prod.splits)

section \<open>The contract of a uniform source and the sampler over it\<close>

text \<open>
  The sampler needs of its source that a draw for \<open>n\<close> stays below \<open>n\<close>: the number it
  converts to a signed index is then not negative.
\<close>

locale uniform_source =
  fixes good :: "'s \<Rightarrow> bool"
    and uni :: "'s \<Rightarrow> u32 \<Rightarrow> u32 \<times> 's"
  assumes uni_lt: "good s \<Longrightarrow> 0 < n \<Longrightarrow> fst (uni s n) < n"
    and uni_good: "good s \<Longrightarrow> good (snd (uni s n))"
begin

lemma draw_index:
  assumes "good s" "0 \<le> i" "i + 1 < 2 ^ 31" "uni s (word_of_int (i + 1)) = (v, s')"
  shows "0 \<le> sint v" "good s'"
proof -
  have "uint (word_of_int (i + 1) :: u32) = i + 1"
    using assms(2,3) by (simp add: uint_word_of_int del: of_int_add)
  then have w: "unat (word_of_int (i + 1) :: u32) = nat (i + 1)"
    by (metis nat_uint_eq)
  then have "0 < (word_of_int (i + 1) :: u32)"
    using assms(2) by (simp add: word_less_nat_alt)
  with uni_lt [OF assms(1)] assms(4) have "v < word_of_int (i + 1)"
    by (metis fst_conv)
  then have "unat v < 2 ^ 31"
    using w assms(2,3) by (simp add: word_less_nat_alt)
  then have "uint v < 2 ^ 31"
    by (metis nat_uint_eq nat_less_numeral_power_cancel_iff)
  moreover have "- 2147483648 \<le> uint v"
    by (rule order.trans [OF _ uint_ge_0]) simp
  ultimately have "sint v = uint v"
    by (simp add: sint_uint signed_take_bit_int_eq_self)
  then show "0 \<le> sint v" by simp
  show "good s'"
    using uni_good [OF assms(1)] assms(4) by (metis snd_conv)
qed

text \<open>The outcome of the loop, as what it adds to the elements already held.\<close>

definition outcome :: "'a list \<Rightarrow> 'a list \<Rightarrow> int \<Rightarrow> fault + 'a list \<times> 's \<Rightarrow> bool" where
  "outcome res new k x \<longleftrightarrow> (\<exists>out s'. x = Inr (out, s') \<and> good s'
    \<and> mset out \<subseteq># mset res + mset new \<and> int (length out) = min k (int (length res + length new)))"

lemma outcome_step:
  assumes "outcome res' new k x" "mset res' \<subseteq># mset res + {#e#}"
    and "min k (int (length res' + length new)) = min k (int (length res + Suc (length new)))"
  shows "outcome res (e # new) k x"
proof -
  have "mset res' + mset new \<subseteq># (mset res + {#e#}) + mset new"
    using assms(2) by (rule subset_mset.add_right_mono)
  then have "mset res' + mset new \<subseteq># mset res + mset (e # new)"
    by simp
  with assms(1,3) show ?thesis
    unfolding outcome_def by (metis length_Cons subset_mset.order_trans)
qed

lemma reservoir_outcome:
  "good s \<Longrightarrow> int (length res) \<le> k \<Longrightarrow> 0 \<le> i \<Longrightarrow> i + int (length c) < 2 ^ 31 \<Longrightarrow>
    outcome res (filter (\<lambda>x. x \<notin> avoid) c) k (reservoir_loop uni s avoid k i res c)"
proof (induction c arbitrary: s i res)
  case Nil
  then show ?case by (simp add: outcome_def)
next
  case (Cons x c)
  have i: "wrap32 (i + 1) = i + 1" "i + 1 + int (length c) < 2 ^ 31" "0 \<le> i + 1"
    using Cons.prems by (simp_all add: wrap32_def)
  obtain v s' where u: "uni s (word_of_int (i + 1)) = (v, s')"
    by fastforce
  have v: "0 \<le> sint v" "good s'"
    using draw_index [OF Cons.prems(1,3) _ u] i by simp_all
  consider "x \<in> avoid" | "x \<notin> avoid" "int (length res) < k"
    | "x \<notin> avoid" "int (length res) = k" "sint v < k" | "x \<notin> avoid" "int (length res) = k" "\<not> sint v < k"
    using Cons.prems(2) by linarith
  then show ?case
  proof cases
    case 1
    then show ?thesis using Cons by simp
  next
    case 2
    have "outcome (res @ [x]) (filter (\<lambda>x. x \<notin> avoid) c) k
        (reservoir_loop uni s avoid k (i + 1) (res @ [x]) c)"
      by (rule Cons.IH) (use Cons.prems i 2 in simp_all)
    then show ?thesis
      using 2 i by (auto simp: Let_def intro!: outcome_step)
  next
    case 3
    have "nat (sint v) < length res" using 3 v by simp
    then have "mset (res[nat (sint v) := x]) \<subseteq># mset res + {#x#}"
      by (simp add: mset_update subset_eq_diff_conv)
    moreover have "outcome (res[nat (sint v) := x]) (filter (\<lambda>x. x \<notin> avoid) c) k
        (reservoir_loop uni s' avoid k (i + 1) (res[nat (sint v) := x]) c)"
      by (rule Cons.IH) (use Cons.prems i v in simp_all)
    ultimately show ?thesis
      using 3 i u v by (auto simp: Let_def intro!: outcome_step)
  next
    case 4
    have "outcome res (filter (\<lambda>x. x \<notin> avoid) c) k (reservoir_loop uni s' avoid k (i + 1) res c)"
      by (rule Cons.IH) (use Cons.prems i v in simp_all)
    then show ?thesis
      using 4 i u by (auto simp: Let_def intro!: outcome_step)
  qed
qed

lemma reservoir_fill:
  "int (length res + length (filter (\<lambda>x. x \<notin> avoid) c)) \<le> k \<Longrightarrow>
    reservoir_loop uni s avoid k i res c = Inr (res @ filter (\<lambda>x. x \<notin> avoid) c, s)"
  by (induction c arbitrary: res i) (auto simp: Let_def)

end

interpretation rng: uniform_source good_seed Uniform
  by unfold_locales (auto intro: Uniform_lt wf)

lemma length_bytes_of_u32 [simp]: "length (bytes_of_u32 w) = 4"
  by (simp add: bytes_of_u32_def)

lemma RandomString_loop_spec:
  "RandomString_loop n i dest random r = (i', dest', random', r') \<Longrightarrow> 4 \<le> n \<Longrightarrow> i \<le> n \<Longrightarrow>
    length dest = i \<Longrightarrow> length dest' = i' \<and> i' \<le> n \<and> n < i' + 4"
proof (induction n i dest random r rule: RandomString_loop.induct)
  case (1 n i dest random r)
  show ?case
  proof (cases "i \<le> n - 4")
    case True
    obtain v r1 where n: "Next r = (v, r1)" by fastforce
    have "RandomString_loop n (i + 4) (dest @ bytes_of_u32 random) v r1 = (i', dest', random', r')"
      using "1.prems"(1) True n by (simp add: RandomString_loop.simps [of n i] Let_def)
    from "1.IH" [OF True refl n [symmetric] refl this] "1.prems" True show ?thesis
      by simp
  next
    case False
    with "1.prems" show ?thesis
      by (auto simp: RandomString_loop.simps [of n i])
  qed
qed

lemma Skewed_lt:
  assumes "good_seed r" "0 \<le> m" "m \<le> 30"
  shows "unat (fst (Skewed r m)) < 2 ^ nat m"
proof -
  obtain b s where u: "Uniform r (word_of_int (m + 1)) = (b, s)" by fastforce
  have "uint (word_of_int (m + 1) :: u32) = m + 1"
    using assms(2,3) by (simp add: uint_word_of_int del: of_int_add)
  then have w: "unat (word_of_int (m + 1) :: u32) = nat (m + 1)"
    by (metis nat_uint_eq)
  have "b < word_of_int (m + 1)"
    using Uniform_lt [of "word_of_int (m + 1)" r] u w assms(2) by (simp add: word_less_nat_alt del: of_int_add)
  then have b: "unat b \<le> nat m"
    using w assms(2) by (simp add: word_less_nat_alt del: of_int_add)
  then have b30: "unat b < 32" using assms(3) by simp
  then have "(2 :: nat) ^ unat b < 2 ^ 32" by (intro power_strict_increasing) auto
  then have p: "unat (push_bit (unat b) 1 :: u32) = 2 ^ unat b"
    using b30 unfolding unsigned_push_bit_eq by (simp add: push_bit_eq_mult take_bit_nat_eq_self)
  then have "0 < (push_bit (unat b) 1 :: u32)"
    by (simp add: word_less_nat_alt)
  from Uniform_lt [OF this, of s] have "unat (fst (Uniform s (push_bit (unat b) 1))) < 2 ^ unat b"
    using p by (simp only: word_less_nat_alt)
  also have "\<dots> \<le> 2 ^ nat m"
    using b by simp
  finally show ?thesis
    by (simp add: Skewed_def u del: of_int_add)
qed

text \<open>
  The sampler replaces elements in place, so its output need not follow the order of the
  collection: here the third element ends up in front of the second.
\<close>

lemma reservoir_order_counterexample:
  "\<exists>r'. ReservoirSample (Reset 3) [10, 20, 30 :: nat] 2 {} = Inr ([30, 20], r')"
  by (simp add: ReservoirSample_def Reset_def M_def wrap32_def Uniform_def Next_def Let_def)

section \<open>Properties of the generator\<close>

text \<open>
  whatever the seed given, the \<open>n\<close>-th number drawn is the start value times \<open>16807 ^ n\<close>
  modulo the prime \<open>2 ^ 31 - 1\<close>, and it is never 0 nor the modulus, so the generator cannot
  get stuck.
\<close>

theorem draw_closed_form:
  "unat (seed (draw n (Reset s))) = (unat (seed (Reset s)) * 16807 ^ n) mod 2147483647
    \<and> 0 < unat (seed (draw n (Reset s))) \<and> unat (seed (draw n (Reset s))) < 2147483647"
  using unat_draw [OF Reset_good] draw_good [OF Reset_good, of n s] by (auto simp: good_seed_def)

text \<open>
  two generators that produce the same number were in the same state: a step loses
  no state, so no two streams merge.
\<close>

theorem Next_injective:
  assumes "fst (Next (draw m (Reset s))) = fst (Next (draw n (Reset t)))"
  shows "draw m (Reset s) = draw n (Reset t)"
  using Next_inj [OF draw_good [OF Reset_good] draw_good [OF Reset_good] assms] by simp

theorem Next_injective_witness: "draw 1 (Reset 0) = draw 1 (Reset 2147483648)"
  by (rule Next_injective) (simp add: Reset_def M_def draw_def)

text \<open>
  the bounded draws stay in their range: \<^verbatim>\<open>Uniform\<close> and \<^verbatim>\<open>Uniform64\<close> below \<open>n\<close>, \<^verbatim>\<open>Skewed\<close>
  below \<open>2 ^ max_log\<close>.
\<close>

theorem draws_in_range:
  assumes "0 < n" "0 < n64" "0 \<le> max_log" "max_log \<le> 30"
  shows "fst (Uniform (draw i (Reset s)) n) < n \<and> fst (Uniform64 (draw i (Reset s)) n64) < n64
    \<and> unat (fst (Skewed (draw i (Reset s)) max_log)) < 2 ^ nat max_log"
  using Uniform_lt [OF assms(1)] Skewed_lt [OF draw_good [OF Reset_good] assms(3,4)] assms(2)
  by (auto simp: Uniform64_def word_less_nat_alt unat_mod split: prod.splits)

theorem draws_in_range_witness:
  "fst (Uniform (draw 2 (Reset 7)) 10) < 10 \<and> fst (Uniform64 (draw 2 (Reset 7)) 1000) < 1000
    \<and> unat (fst (Skewed (draw 2 (Reset 7)) 8)) < 2 ^ 8"
  using draws_in_range [of 10 1000 8 2 7] by simp

text \<open>
  the reservoir sampler never writes outside its result; it returns \<open>k\<close> elements, or
  all of them where fewer are eligible, in that case in the order of the collection; and
  it returns no element of \<open>avoid\<close> and none more often than the collection holds it.
\<close>

theorem ReservoirSample_sample:
  assumes "0 \<le> k" "length c < 2 ^ 31"
  shows "\<exists>out r'. ReservoirSample (Reset s) c k avoid = Inr (out, r')
    \<and> mset out \<subseteq># mset (filter (\<lambda>x. x \<notin> avoid) c)
    \<and> int (length out) = min k (int (length (filter (\<lambda>x. x \<notin> avoid) c)))
    \<and> (int (length (filter (\<lambda>x. x \<notin> avoid) c)) \<le> k \<longrightarrow> out = filter (\<lambda>x. x \<notin> avoid) c)"
proof -
  have "rng.outcome [] (filter (\<lambda>x. x \<notin> avoid) c) k
      (reservoir_loop Uniform (Reset s) avoid k 0 [] c)"
    by (rule rng.reservoir_outcome) (use assms in \<open>simp_all add: Reset_good\<close>)
  then show ?thesis
    using assms(1) rng.reservoir_fill [of "[]" avoid c k "Reset s" 0]
    by (auto simp: ReservoirSample_def rng.outcome_def)
qed

theorem ReservoirSample_sample_witness:
  "\<exists>out r'. ReservoirSample (Reset 3) [10, 20, 30 :: nat] 2 {20} = Inr (out, r')
    \<and> out = [10, 30]"
  using ReservoirSample_sample [of 2 "[10, 20, 30 :: nat]" 3 "{20}"] by auto

text \<open>
  \<^verbatim>\<open>RandomString\<close> writes exactly the \<open>n\<close> bytes of its destination, for every size.
\<close>

theorem RandomString_length: "length (fst (RandomString n r)) = n"
  by (auto simp: RandomString_def Let_def dest: RandomString_loop_spec split: prod.splits)

end
