(* ===== verification/MonoTime.thy ===== *)
theory MonoTime
  imports Prelude
begin

text \<open>
  Time spans and points of \<^verbatim>\<open>base/monotime.cc\<close>, both a signed 64-bit count of nanoseconds.  A
  default-constructed span holds the smallest 64-bit number and a default-constructed
  point holds 0; most operations abort on them.  The conversions to and from \<^verbatim>\<open>double\<close> and
  the two \<^verbatim>\<open>ToString\<close> built on them are left out.  The reading of the system clock is an
  argument of \<open>Now\<close>.
\<close>

datatype MonoDelta = MonoDelta (nano_delta: int)
datatype MonoTime = MonoTime (nanos: int)

record timeval =
  tv_sec :: int
  tv_usec :: int

record timespec =
  ts_sec :: int
  ts_nsec :: int

definition kNanosecondsPerSecond :: int where "kNanosecondsPerSecond = 1000000000"
definition kNanosecondsPerMillisecond :: int where "kNanosecondsPerMillisecond = 1000000"
definition kNanosecondsPerMicrosecond :: int where "kNanosecondsPerMicrosecond = 1000"

named_theorems time_consts
lemmas [time_consts] = kNanosecondsPerSecond_def kNanosecondsPerMillisecond_def
  kNanosecondsPerMicrosecond_def

section \<open>Spans\<close>

definition kUninitialized :: int where "kUninitialized = int64_min"

definition uninit_delta :: MonoDelta where "uninit_delta = MonoDelta kUninitialized"

definition FromMilliseconds :: "int \<Rightarrow> MonoDelta" where
  "FromMilliseconds ms = MonoDelta (wrap64 (ms * kNanosecondsPerMillisecond))"

definition FromMicroseconds :: "int \<Rightarrow> MonoDelta" where
  "FromMicroseconds us = MonoDelta (wrap64 (us * kNanosecondsPerMicrosecond))"

definition FromNanoseconds :: "int \<Rightarrow> MonoDelta" where
  "FromNanoseconds ns = MonoDelta ns"

definition delta_Initialized :: "MonoDelta \<Rightarrow> bool" where
  "delta_Initialized d \<longleftrightarrow> nano_delta d \<noteq> kUninitialized"

definition delta_LessThan :: "MonoDelta \<Rightarrow> MonoDelta \<Rightarrow> fault + bool" where
  "delta_LessThan d rhs =
    (if \<not> delta_Initialized d then Inl CheckFailed
     else if \<not> delta_Initialized rhs then Inl CheckFailed
     else Inr (nano_delta d < nano_delta rhs))"

definition delta_MoreThan :: "MonoDelta \<Rightarrow> MonoDelta \<Rightarrow> fault + bool" where
  "delta_MoreThan d rhs =
    (if \<not> delta_Initialized d then Inl CheckFailed
     else if \<not> delta_Initialized rhs then Inl CheckFailed
     else Inr (nano_delta d > nano_delta rhs))"

definition delta_Equals :: "MonoDelta \<Rightarrow> MonoDelta \<Rightarrow> fault + bool" where
  "delta_Equals d rhs =
    (if \<not> delta_Initialized d then Inl CheckFailed
     else if \<not> delta_Initialized rhs then Inl CheckFailed
     else Inr (nano_delta d = nano_delta rhs))"

definition ToNanoseconds :: "MonoDelta \<Rightarrow> fault + int" where
  "ToNanoseconds d = (if \<not> delta_Initialized d then Inl CheckFailed else Inr (nano_delta d))"

definition ToMicroseconds :: "MonoDelta \<Rightarrow> fault + int" where
  "ToMicroseconds d =
    (if \<not> delta_Initialized d then Inl CheckFailed
     else Inr (c_div (nano_delta d) kNanosecondsPerMicrosecond))"

definition ToMilliseconds :: "MonoDelta \<Rightarrow> fault + int" where
  "ToMilliseconds d =
    (if \<not> delta_Initialized d then Inl CheckFailed
     else Inr (c_div (nano_delta d) kNanosecondsPerMillisecond))"

definition ToTimeVal :: "MonoDelta \<Rightarrow> fault + timeval" where
  "ToTimeVal d =
    (if \<not> delta_Initialized d then Inl CheckFailed
     else
       let n = nano_delta d;
           sec = c_div n kNanosecondsPerSecond;
           usec = c_div (n - sec * kNanosecondsPerSecond) kNanosecondsPerMicrosecond;
           (sec, usec) = (if usec < 0 then (sec - 1, usec + 1000000) else (sec, usec));
           usec = (if usec = 0 \<and> sec = 0 \<and> n > 0 then 1 else usec);
           (sec, usec) = (if usec = 0 \<and> sec = 0 \<and> n < 0 then (-1, 999999) else (sec, usec))
       in Inr \<lparr>tv_sec = sec, tv_usec = usec\<rparr>)"

definition NanosToTimeSpec :: "int \<Rightarrow> timespec" where
  "NanosToTimeSpec n =
    (let sec = c_div n kNanosecondsPerSecond;
         nsec = n - sec * kNanosecondsPerSecond
     in if nsec < 0 then \<lparr>ts_sec = sec - 1, ts_nsec = nsec + kNanosecondsPerSecond\<rparr>
        else \<lparr>ts_sec = sec, ts_nsec = nsec\<rparr>)"

definition ToTimeSpec :: "MonoDelta \<Rightarrow> fault + timespec" where
  "ToTimeSpec d =
    (if \<not> delta_Initialized d then Inl CheckFailed else Inr (NanosToTimeSpec (nano_delta d)))"

section \<open>Points in time\<close>

text \<open>
  The seconds are compared as an unsigned number with the largest count of seconds that
  fits, so negative seconds fail the check as well.
\<close>

definition MAX_MONOTONIC_SECONDS :: int where
  "MAX_MONOTONIC_SECONDS = (2 ^ 63 - 1) div kNanosecondsPerSecond"

definition of_timespec :: "timespec \<Rightarrow> fault + MonoTime" where
  "of_timespec ts =
    (if \<not> (ts_sec ts mod 2 ^ 64 < MAX_MONOTONIC_SECONDS) then Inl CheckFailed
     else Inr (MonoTime (wrap64 (wrap64 (ts_sec ts * kNanosecondsPerSecond) + ts_nsec ts))))"

definition Now :: "int \<times> timespec \<Rightarrow> fault + MonoTime" where
  "Now clock_gettime =
    (if fst clock_gettime \<noteq> 0 then Inl CheckFailed else of_timespec (snd clock_gettime))"

definition time_Max :: MonoTime where "time_Max = MonoTime int64_max"
definition time_Min :: MonoTime where "time_Min = MonoTime 1"
definition uninit_time :: MonoTime where "uninit_time = MonoTime 0"

definition Earliest :: "MonoTime \<Rightarrow> MonoTime \<Rightarrow> MonoTime" where
  "Earliest a b = (if nanos b < nanos a then b else a)"

definition time_Initialized :: "MonoTime \<Rightarrow> bool" where
  "time_Initialized t \<longleftrightarrow> nanos t \<noteq> 0"

definition GetDeltaSince :: "MonoTime \<Rightarrow> MonoTime \<Rightarrow> fault + MonoDelta" where
  "GetDeltaSince t rhs =
    (if \<not> time_Initialized t then Inl CheckFailed
     else if \<not> time_Initialized rhs then Inl CheckFailed
     else Inr (MonoDelta (wrap64 (nanos t - nanos rhs))))"

definition AddDelta :: "MonoTime \<Rightarrow> MonoDelta \<Rightarrow> fault + MonoTime" where
  "AddDelta t d =
    (if \<not> time_Initialized t then Inl CheckFailed
     else Inr (MonoTime (wrap64 (nanos t + nano_delta d))))"

definition ComesBefore :: "MonoTime \<Rightarrow> MonoTime \<Rightarrow> fault + bool" where
  "ComesBefore t rhs =
    (if \<not> time_Initialized t then Inl CheckFailed
     else if \<not> time_Initialized rhs then Inl CheckFailed
     else Inr (nanos t < nanos rhs))"

definition time_Equals :: "MonoTime \<Rightarrow> MonoTime \<Rightarrow> bool" where
  "time_Equals t other \<longleftrightarrow> nanos t = nanos other"

section \<open>The operators\<close>

definition or_else :: "fault + bool \<Rightarrow> fault + bool \<Rightarrow> fault + bool" where
  "or_else a b = (case a of Inl e \<Rightarrow> Inl e | Inr True \<Rightarrow> Inr True | Inr False \<Rightarrow> b)"

definition delta_eq :: "MonoDelta \<Rightarrow> MonoDelta \<Rightarrow> fault + bool" where
  "delta_eq l r = delta_Equals l r"
definition delta_ne :: "MonoDelta \<Rightarrow> MonoDelta \<Rightarrow> fault + bool" where
  "delta_ne l r = map_sum id Not (delta_Equals l r)"
definition delta_lt :: "MonoDelta \<Rightarrow> MonoDelta \<Rightarrow> fault + bool" where
  "delta_lt l r = delta_LessThan l r"
definition delta_le :: "MonoDelta \<Rightarrow> MonoDelta \<Rightarrow> fault + bool" where
  "delta_le l r = or_else (delta_LessThan l r) (delta_Equals l r)"
definition delta_gt :: "MonoDelta \<Rightarrow> MonoDelta \<Rightarrow> fault + bool" where
  "delta_gt l r = delta_MoreThan l r"
definition delta_ge :: "MonoDelta \<Rightarrow> MonoDelta \<Rightarrow> fault + bool" where
  "delta_ge l r = or_else (delta_MoreThan l r) (delta_Equals l r)"

definition time_eq :: "MonoTime \<Rightarrow> MonoTime \<Rightarrow> bool" where
  "time_eq l r = time_Equals l r"
definition time_ne :: "MonoTime \<Rightarrow> MonoTime \<Rightarrow> bool" where
  "time_ne l r = (\<not> time_Equals l r)"
definition time_lt :: "MonoTime \<Rightarrow> MonoTime \<Rightarrow> fault + bool" where
  "time_lt l r = ComesBefore l r"
definition time_le :: "MonoTime \<Rightarrow> MonoTime \<Rightarrow> fault + bool" where
  "time_le l r = or_else (ComesBefore l r) (Inr (time_Equals l r))"
definition time_gt :: "MonoTime \<Rightarrow> MonoTime \<Rightarrow> fault + bool" where
  "time_gt l r = ComesBefore r l"
definition time_ge :: "MonoTime \<Rightarrow> MonoTime \<Rightarrow> fault + bool" where
  "time_ge l r = or_else (ComesBefore r l) (Inr (time_Equals r l))"

definition time_plus_eq :: "MonoTime \<Rightarrow> MonoDelta \<Rightarrow> fault + MonoTime" where
  "time_plus_eq t d = AddDelta t d"
definition time_minus_eq :: "MonoTime \<Rightarrow> MonoDelta \<Rightarrow> fault + MonoTime" where
  "time_minus_eq t d = AddDelta t (MonoDelta (wrap64 (-1 * nano_delta d)))"

definition time_plus :: "MonoTime \<Rightarrow> MonoDelta \<Rightarrow> fault + MonoTime" where
  "time_plus t d = AddDelta t d"
definition time_minus :: "MonoTime \<Rightarrow> MonoDelta \<Rightarrow> fault + MonoTime" where
  "time_minus t d =
    (case ToNanoseconds d of Inl e \<Rightarrow> Inl e
     | Inr n \<Rightarrow> AddDelta t (FromNanoseconds (wrap64 (- n))))"
definition time_diff :: "MonoTime \<Rightarrow> MonoTime \<Rightarrow> fault + MonoDelta" where
  "time_diff t_end t_beg = GetDeltaSince t_end t_beg"

section \<open>The orders\<close>

text \<open>
  Spans and points are ordered by their counts; the operators of the code compute these
  orders wherever they do not abort.
\<close>

instantiation MonoDelta :: linorder
begin

definition less_eq_MonoDelta :: "MonoDelta \<Rightarrow> MonoDelta \<Rightarrow> bool" where
  "less_eq_MonoDelta a b \<longleftrightarrow> nano_delta a \<le> nano_delta b"
definition less_MonoDelta :: "MonoDelta \<Rightarrow> MonoDelta \<Rightarrow> bool" where
  "less_MonoDelta a b \<longleftrightarrow> nano_delta a < nano_delta b"

instance
  by standard (auto simp: less_eq_MonoDelta_def less_MonoDelta_def MonoDelta.expand)

end

instantiation MonoTime :: linorder
begin

definition less_eq_MonoTime :: "MonoTime \<Rightarrow> MonoTime \<Rightarrow> bool" where
  "less_eq_MonoTime a b \<longleftrightarrow> nanos a \<le> nanos b"
definition less_MonoTime :: "MonoTime \<Rightarrow> MonoTime \<Rightarrow> bool" where
  "less_MonoTime a b \<longleftrightarrow> nanos a < nanos b"

instance
  by standard (auto simp: less_eq_MonoTime_def less_MonoTime_def MonoTime.expand)

end

named_theorems time_ops
lemmas [time_ops] = delta_eq_def delta_ne_def delta_lt_def delta_le_def delta_gt_def delta_ge_def
  time_eq_def time_ne_def time_lt_def time_le_def time_gt_def time_ge_def
  delta_LessThan_def delta_MoreThan_def delta_Equals_def ComesBefore_def time_Equals_def
  or_else_def less_eq_MonoDelta_def less_MonoDelta_def less_eq_MonoTime_def less_MonoTime_def

lemma MonoDelta_eq_iff: "a = b \<longleftrightarrow> nano_delta a = nano_delta b"
  by (cases a; cases b) simp

lemma MonoTime_eq_iff: "a = b \<longleftrightarrow> nanos a = nanos b"
  by (cases a; cases b) simp

lemma delta_operators:
  "delta_Initialized a \<Longrightarrow> delta_Initialized b \<Longrightarrow>
    delta_eq a b = Inr (a = b) \<and> delta_ne a b = Inr (a \<noteq> b) \<and> delta_lt a b = Inr (a < b)
    \<and> delta_le a b = Inr (a \<le> b) \<and> delta_gt a b = Inr (b < a) \<and> delta_ge a b = Inr (b \<le> a)"
  by (auto simp: time_ops MonoDelta_eq_iff split: bool.splits)

text \<open>
  The comparison operators on points are one linear order: on initialized points all six
  return, and what they return is equality and the order of the counts, so they never
  contradict each other.
\<close>

theorem time_operators:
  "time_Initialized a \<Longrightarrow> time_Initialized b \<Longrightarrow>
    time_eq a b = (a = b) \<and> time_ne a b = (a \<noteq> b) \<and> time_lt a b = Inr (a < b)
    \<and> time_le a b = Inr (a \<le> b) \<and> time_gt a b = Inr (b < a) \<and> time_ge a b = Inr (b \<le> a)"
  by (auto simp: time_ops MonoTime_eq_iff split: bool.splits)

lemma time_operators_witness:
  "time_eq time_Min time_Max = (time_Min = time_Max) \<and> time_ne time_Min time_Max = (time_Min \<noteq> time_Max)
    \<and> time_lt time_Min time_Max = Inr (time_Min < time_Max) \<and> time_le time_Min time_Max = Inr (time_Min \<le> time_Max)
    \<and> time_gt time_Min time_Max = Inr (time_Max < time_Min) \<and> time_ge time_Min time_Max = Inr (time_Max \<le> time_Min)"
  by (rule time_operators) (simp_all add: time_Initialized_def time_Max_def time_Min_def int64_max_def)

section \<open>Conversions\<close>

lemma NanosToTimeSpec_floor:
  "NanosToTimeSpec n = \<lparr>ts_sec = n div 1000000000, ts_nsec = n mod 1000000000\<rparr>"
proof (cases "0 \<le> n")
  case True
  then show ?thesis
    by (simp add: NanosToTimeSpec_def time_consts c_div_nonneg Let_def minus_div_mult_eq_mod)
next
  case False
  let ?b = "1000000000 :: int"
  obtain q r where q: "(- n) div ?b = q" and r0: "(- n) mod ?b = r" by blast
  have "- n = q * ?b + r" using div_mult_mod_eq [of "- n" ?b] unfolding q r0 by simp
  then have nq: "n = - q * ?b - r" by linarith
  have r: "0 \<le> r" "r < ?b" unfolding r0 [symmetric] by simp_all
  have t: "NanosToTimeSpec n = (if - r < 0 then \<lparr>ts_sec = - q - 1, ts_nsec = ?b - r\<rparr>
      else \<lparr>ts_sec = - q, ts_nsec = - r\<rparr>)"
    using False by (simp add: NanosToTimeSpec_def time_consts c_div_neg Let_def q) (simp add: nq)
  show ?thesis
  proof (cases "r = 0")
    case True
    then show ?thesis using t nq by simp
  next
    case f: False
    obtain k where k: "k = ?b - r" by blast
    have k0: "0 \<le> k" "k < ?b" using r f by (simp_all add: k)
    have "n = k + (- q - 1) * ?b" using nq by (simp add: k)
    then have "n div ?b = k div ?b + (- q - 1)" "n mod ?b = k mod ?b"
      by (simp_all only: div_mult_self1 mod_mult_self1 zero_neq_numeral not_False_eq_True)
    then have "n div ?b = - q - 1" "n mod ?b = ?b - r"
      using div_pos_pos_trivial [OF k0] mod_pos_pos_trivial [OF k0] by (simp_all only: k add_0)
    then show ?thesis using t r f by simp
  qed
qed

definition normal_timespec :: "timespec \<Rightarrow> bool" where
  "normal_timespec ts \<longleftrightarrow> 0 \<le> ts_nsec ts \<and> ts_nsec ts < kNanosecondsPerSecond"

lemma of_timespec_nanos:
  assumes "0 \<le> ts_sec ts" "ts_sec ts < MAX_MONOTONIC_SECONDS" "normal_timespec ts"
  shows "of_timespec ts = Inr (MonoTime (ts_sec ts * 1000000000 + ts_nsec ts))"
proof -
  have s: "0 \<le> ts_sec ts" "ts_sec ts < 9223372036" "0 \<le> ts_nsec ts" "ts_nsec ts < 1000000000"
    using assms by (auto simp: MAX_MONOTONIC_SECONDS_def normal_timespec_def time_consts)
  have "in64 (ts_sec ts * 1000000000)" "in64 (ts_sec ts * 1000000000 + ts_nsec ts)"
    using s by (auto simp: in64_iff)
  then show ?thesis
    using s assms(2) by (simp add: of_timespec_def time_consts arith64)
qed


text \<open>
  A reading of the clock survives the conversions.  For a normalised time specification
  whose seconds pass the range check, the constructor of a point succeeds, and the count of
  the point it returns converts to the seconds and nanoseconds it was built from.
\<close>

theorem timespec_roundtrip:
  assumes "0 \<le> ts_sec ts" "ts_sec ts < MAX_MONOTONIC_SECONDS" "normal_timespec ts"
  shows "map_sum id (\<lambda>t. NanosToTimeSpec (nanos t)) (Now (0, ts)) = Inr ts"
proof -
  have "0 \<le> ts_nsec ts" "ts_nsec ts < 1000000000"
    using assms(3) by (simp_all add: normal_timespec_def time_consts)
  then have "(ts_sec ts * 1000000000 + ts_nsec ts) div 1000000000 = ts_sec ts"
    "(ts_sec ts * 1000000000 + ts_nsec ts) mod 1000000000 = ts_nsec ts"
    by simp_all
  then show ?thesis
    by (simp add: Now_def of_timespec_nanos [OF assms] NanosToTimeSpec_floor)
qed

lemma timespec_roundtrip_witness:
  "map_sum id (\<lambda>t. NanosToTimeSpec (nanos t)) (Now (0, \<lparr>ts_sec = 7, ts_nsec = 999999999\<rparr>))
    = Inr \<lparr>ts_sec = 7, ts_nsec = 999999999\<rparr>"
  by (rule timespec_roundtrip)
    (simp_all add: MAX_MONOTONIC_SECONDS_def normal_timespec_def time_consts)

text \<open>
  The difference of two points is the span between them, also when the subtraction
  wraps: adding what \<^verbatim>\<open>u - t\<close> returns to \<open>t\<close> gives \<open>u\<close> again, for any two initialized
  64-bit points.
\<close>

theorem add_difference:
  assumes "time_Initialized t" "time_Initialized u" "in64 (nanos t)" "in64 (nanos u)"
  shows "Inr u = (case time_diff u t of Inl e \<Rightarrow> Inl e | Inr d \<Rightarrow> time_plus t d)"
proof -
  have "wrap64 (nanos t + wrap64 (nanos u - nanos t)) = nanos u"
    using wrap64_add_wrap64 [of "nanos u - nanos t" "nanos t"] assms(4)
    by (simp add: add.commute wrap64_id)
  then show ?thesis
    using assms by (simp add: time_diff_def GetDeltaSince_def time_plus_def AddDelta_def)
qed

lemma add_difference_witness:
  "Inr time_Min = (case time_diff time_Min time_Max of Inl e \<Rightarrow> Inl e | Inr d \<Rightarrow> time_plus time_Max d)"
  by (rule add_difference)
    (simp_all add: time_Initialized_def time_Max_def time_Min_def int64_max_def in64_iff)

lemma c_div_carry:
  assumes "0 \<le> n"
  shows "n div 1000000000 * 1000000 + (n - n div 1000000000 * 1000000000) div 1000 = n div (1000 :: int)"
proof -
  obtain s where s: "n div 1000000000 = s" by blast
  have "(n - s * 1000000000) div 1000 = (n + (- s * 1000000) * 1000) div 1000" by simp
  also have "\<dots> = n div 1000 - s * 1000000" by simp
  finally show ?thesis by (simp add: s)
qed


lemma ToTimeVal_nonneg:
  assumes "0 \<le> nano_delta d"
  shows "ToTimeVal d = Inr (let n = nano_delta d; sec = n div 1000000000;
      usec = (n - sec * 1000000000) div 1000
    in \<lparr>tv_sec = sec, tv_usec = (if usec = 0 \<and> sec = 0 \<and> n > 0 then 1 else usec)\<rparr>)"
proof -
  have "\<not> (nano_delta d - nano_delta d div 1000000000 * 1000000000) div 1000 < 0"
    by (simp add: minus_div_mult_eq_mod pos_imp_zdiv_neg_iff)
  then show ?thesis
    using assms
    by (auto simp: ToTimeVal_def time_consts c_div_nonneg minus_div_mult_eq_mod Let_def
        delta_Initialized_def kUninitialized_def int64_min_def)
qed

lemma ToTimeVal_neg:
  assumes "nano_delta d < 0" "delta_Initialized d"
  shows "ToTimeVal d = Inr (let m = - nano_delta d; sec = m div 1000000000;
      usec = (m - sec * 1000000000) div 1000
    in if usec > 0 then \<lparr>tv_sec = - sec - 1, tv_usec = 1000000 - usec\<rparr>
       else if sec = 0 then \<lparr>tv_sec = - 1, tv_usec = 999999\<rparr>
       else \<lparr>tv_sec = - sec, tv_usec = 0\<rparr>)"
proof -
  obtain m where m: "nano_delta d = - m" "0 < m" using assms(1) by (metis minus_minus neg_0_less_iff_less)
  obtain s where s: "m div 1000000000 = s" by blast
  obtain k where k: "m - s * 1000000000 = k" by blast
  have k0: "0 \<le> k" unfolding k [symmetric] s [symmetric] by (simp add: minus_div_mult_eq_mod)
  have k1: "k div 1000 < 1000000"
    unfolding k [symmetric] s [symmetric] by (simp add: minus_div_mult_eq_mod div_less_iff_less_mult)
  have cs: "c_div (- m) 1000000000 = - s" using m by (simp add: c_div_neg s)
  have ck: "c_div (- k) 1000 = - (k div 1000)"
    using k0 by (cases "k = 0") (simp_all add: c_div_neg c_div_nonneg)
  have "- m - (- s) * 1000000000 = - k" using k by simp
  then show ?thesis
    using assms(2) m k0 k1 pos_imp_zdiv_nonneg_iff [of 1000 k]
    by (auto simp: ToTimeVal_def time_consts Let_def cs ck s k)
qed


text \<open>
  A span converts to a \<^verbatim>\<open>timeval\<close> without losing more than what microseconds cannot
  hold, and a span that is not zero never becomes zero: the microseconds are in
  \<open>[0, 10^6)\<close>, and seconds and microseconds together are the number of microseconds
  truncated towards zero, or plus or minus one for a shorter span.
\<close>

theorem ToTimeVal_total:
  assumes "delta_Initialized d"
  shows "\<exists>tv. ToTimeVal d = Inr tv \<and> 0 \<le> tv_usec tv \<and> tv_usec tv < 1000000 \<and>
    tv_sec tv * 1000000 + tv_usec tv =
      (if c_div (nano_delta d) 1000 = 0 then sgn (nano_delta d) else c_div (nano_delta d) 1000)"
proof -
  obtain m where m: "m = \<bar>nano_delta d\<bar>" "0 \<le> m" by simp
  obtain s where s: "m div 1000000000 = s" by blast
  obtain k where k: "(m - s * 1000000000) div 1000 = k" by blast
  have t: "s * 1000000 + k = m div 1000"
    using c_div_carry [OF m(2)] unfolding s k .
  have k0: "0 \<le> k" "k < 1000000"
    unfolding k [symmetric] s [symmetric]
    by (simp_all add: minus_div_mult_eq_mod pos_imp_zdiv_nonneg_iff div_less_iff_less_mult)
  have s0: "0 \<le> s" using m(2) by (simp add: s [symmetric] pos_imp_zdiv_nonneg_iff)
  show ?thesis
  proof (cases "nano_delta d < 0")
    case False
    then have n: "nano_delta d = m" using m by simp
    have "c_div m 1000 = s * 1000000 + k" using m t by (simp add: c_div_nonneg)
    then show ?thesis
      using ToTimeVal_nonneg [of d] k0 s0 m(2) by (auto simp: n s k Let_def sgn_if)
  next
    case True
    then have n: "nano_delta d = - m" "0 < m" using m by simp_all
    have "c_div (- m) 1000 = - (s * 1000000 + k)" using n t by (simp add: c_div_neg)
    then show ?thesis
      using ToTimeVal_neg [OF True assms] k0 s0 n(2) by (auto simp: n(1) s k Let_def sgn_if)
  qed
qed

lemma ToTimeVal_total_witness:
  "\<exists>tv. ToTimeVal (MonoDelta (-1)) = Inr tv \<and> 0 \<le> tv_usec tv \<and> tv_usec tv < 1000000 \<and>
    tv_sec tv * 1000000 + tv_usec tv =
      (if c_div (nano_delta (MonoDelta (-1))) 1000 = 0 then sgn (nano_delta (MonoDelta (-1)))
       else c_div (nano_delta (MonoDelta (-1))) 1000)"
  by (rule ToTimeVal_total) (simp add: delta_Initialized_def kUninitialized_def int64_min_def)

end
