(* ===== verification/Fastmem.thy ===== *)
theory Fastmem
  imports Prelude
begin

text \<open>
  Comparison of memory blocks, \<^verbatim>\<open>gbase/strings/fastmem.h\<close>.  A pointer is the list of the
  bytes that may be read from it; advancing it drops bytes.  Loads are unaligned and
  little-endian, as on the x86-64 targets of the code, and a load past the end of the list
  is a fault.  The lemmas show that both routines read nothing outside the two blocks and
  agree with equality and with the lexicographic order of the blocks.
\<close>

section \<open>Loads and the library routine\<close>

definition le_value :: "bytes \<Rightarrow> int" where
  "le_value bs = horner_sum uint 256 bs"

definition UNALIGNED_LOAD64 :: "bytes \<Rightarrow> fault + u64" where
  "UNALIGNED_LOAD64 p =
    (if 8 \<le> length p then Inr (word_of_int (le_value (take 8 p))) else Inl OutOfBounds)"

definition UNALIGNED_LOAD32 :: "bytes \<Rightarrow> fault + u32" where
  "UNALIGNED_LOAD32 p =
    (if 4 \<le> length p then Inr (word_of_int (le_value (take 4 p))) else Inl OutOfBounds)"

text \<open>
  The C library promises only the sign of \<^verbatim>\<open>memcmp\<close>; the model returns the sign.
\<close>

fun memcmp :: "bytes \<Rightarrow> bytes \<Rightarrow> nat \<Rightarrow> fault + int" where
  "memcmp a b 0 = Inr 0"
| "memcmp (x # a) (y # b) (Suc n) = (if x = y then memcmp a b n else Inr (if x < y then -1 else 1))"
| "memcmp a b (Suc n) = Inl OutOfBounds"

section \<open>The routines\<close>

function memeq_loop :: "bytes \<Rightarrow> bytes \<Rightarrow> nat \<Rightarrow> fault + bool" where
  "memeq_loop a b n =
    (if n \<ge> 16 then
       bindE (UNALIGNED_LOAD64 a) (\<lambda>a0. bindE (UNALIGNED_LOAD64 b) (\<lambda>b0.
       bindE (UNALIGNED_LOAD64 (drop 8 a)) (\<lambda>a1. bindE (UNALIGNED_LOAD64 (drop 8 b)) (\<lambda>b1.
         if (a0 XOR b0) OR (a1 XOR b1) \<noteq> 0 then Inr False
         else memeq_loop (drop 16 a) (drop 16 b) (n - 16)))))
     else if n = 0 then Inr True
     else bindE (UNALIGNED_LOAD64 a) (\<lambda>a0. bindE (UNALIGNED_LOAD64 b) (\<lambda>b0. Inr (a0 = b0))))"
  by pat_completeness auto
termination by (relation "measure (\<lambda>(a, b, n). n)") auto

definition memeq :: "bytes \<Rightarrow> bytes \<Rightarrow> nat \<Rightarrow> fault + bool" where
  "memeq a b n =
    (let n_rounded_down = nat (int n AND NOT 7) in
     if n_rounded_down = 0 then bindE (memcmp a b n) (\<lambda>r. Inr (r = 0))
     else
       bindE (UNALIGNED_LOAD64 a) (\<lambda>a0. bindE (UNALIGNED_LOAD64 b) (\<lambda>b0.
       bindE (UNALIGNED_LOAD64 (drop (n - 8) a)) (\<lambda>a1.
       bindE (UNALIGNED_LOAD64 (drop (n - 8) b)) (\<lambda>b1.
         if (a0 XOR b0) OR (a1 XOR b1) \<noteq> 0 then Inr False
         else
           let a = drop 8 a; b = drop 8 b; n = n_rounded_down - 8 in
           if n > 128 then bindE (memcmp a b n) (\<lambda>r. Inr (r = 0)) else memeq_loop a b n)))))"

text \<open>
  The three phases of \<^verbatim>\<open>fastmemcmp_inlined\<close>: words of eight bytes, at most one word of four,
  single bytes.  \<open>n\<close> is what is left up to \<^verbatim>\<open>a_limit\<close>.
\<close>

function skip64 :: "bytes \<Rightarrow> bytes \<Rightarrow> nat \<Rightarrow> fault + bytes \<times> bytes \<times> nat" where
  "skip64 a b n =
    (if 8 \<le> n then
       bindE (UNALIGNED_LOAD64 a) (\<lambda>x. bindE (UNALIGNED_LOAD64 b) (\<lambda>y.
         if x = y then skip64 (drop 8 a) (drop 8 b) (n - 8) else Inr (a, b, n)))
     else Inr (a, b, n))"
  by pat_completeness auto
termination by (relation "measure (\<lambda>(a, b, n). n)") auto

definition skip32 :: "bytes \<Rightarrow> bytes \<Rightarrow> nat \<Rightarrow> fault + bytes \<times> bytes \<times> nat" where
  "skip32 a b n =
    (if 4 \<le> n then
       bindE (UNALIGNED_LOAD32 a) (\<lambda>x. bindE (UNALIGNED_LOAD32 b) (\<lambda>y.
         if x = y then Inr (drop 4 a, drop 4 b, n - 4) else Inr (a, b, n)))
     else Inr (a, b, n))"

fun cmp_bytes :: "bytes \<Rightarrow> bytes \<Rightarrow> nat \<Rightarrow> fault + int" where
  "cmp_bytes a b 0 = Inr 0"
| "cmp_bytes (x # a) (y # b) (Suc n) =
    (let d = sint (ucast x - ucast y :: u32) in if d \<noteq> 0 then Inr d else cmp_bytes a b n)"
| "cmp_bytes a b (Suc n) = Inl OutOfBounds"

definition fastmemcmp_inlined :: "bytes \<Rightarrow> bytes \<Rightarrow> nat \<Rightarrow> fault + int" where
  "fastmemcmp_inlined a b n =
    (if n \<ge> 64 then memcmp a b n
     else bindE (skip64 a b n) (\<lambda>(a, b, n). bindE (skip32 a b n) (\<lambda>(a, b, n). cmp_bytes a b n)))"

text \<open>
  The cases of \<^verbatim>\<open>memcpy_inlined\<close> differ in the machine code only: each copies \<open>size\<close> bytes
  to the front of the destination.
\<close>

definition memcpy :: "bytes \<Rightarrow> bytes \<Rightarrow> nat \<Rightarrow> fault + bytes" where
  "memcpy dst src n =
    (if n \<le> length dst \<and> n \<le> length src then Inr (take n src @ drop n dst) else Inl OutOfBounds)"

definition memcpy_inlined :: "bytes \<Rightarrow> bytes \<Rightarrow> nat \<Rightarrow> fault + bytes" where
  "memcpy_inlined dst src n =
    (if 1 \<le> n \<and> n \<le> 16 then memcpy dst src n else memcpy dst src n)"

section \<open>Loads compare blocks\<close>

lemma le_value_nonneg: "0 \<le> le_value bs"
  by (induction bs) (simp_all add: le_value_def)

lemma le_value_less: "le_value bs < 256 ^ length bs"
proof (induction bs)
  case (Cons b bs)
  obtain P v :: int where P: "256 ^ length bs = P" "le_value bs = v" by simp
  have "uint b < 256" "v + 1 \<le> P" using Cons P by simp_all
  then have "uint b + 256 * v < 256 * P" by linarith
  then show ?case using P by (simp add: le_value_def)
qed (simp add: le_value_def)

lemma le_value_inj: "length xs = length ys \<Longrightarrow> le_value xs = le_value ys \<Longrightarrow> xs = ys"
proof (induction xs ys rule: list_induct2)
  case (Cons x xs y ys)
  have e: "uint x + 256 * le_value xs = uint y + 256 * le_value ys"
    using Cons.prems by (simp add: le_value_def)
  have "(uint x + 256 * le_value xs) mod 256 = uint x" "(uint y + 256 * le_value ys) mod 256 = uint y"
    by (simp_all add: mod_pos_pos_trivial)
  then have "uint x = uint y" using e by simp
  then have "x = y" by (simp only: word_uint_eq_iff)
  then show ?case using e Cons.IH by simp
qed simp

lemma word_of_le_value_inj:
  assumes "length xs = length ys" "2 ^ LENGTH('a) = (256 :: int) ^ length xs"
  shows "(word_of_int (le_value xs) :: 'a :: len word) = word_of_int (le_value ys) \<longleftrightarrow> xs = ys"
proof
  assume "(word_of_int (le_value xs) :: 'a word) = word_of_int (le_value ys)"
  then have "le_value xs mod 2 ^ LENGTH('a) = le_value ys mod 2 ^ LENGTH('a)"
    by (simp add: word_of_int_eq_iff take_bit_eq_mod)
  then have "le_value xs = le_value ys"
    using le_value_less [of xs] le_value_less [of ys] le_value_nonneg [of xs] le_value_nonneg [of ys] assms
    by (simp add: mod_pos_pos_trivial)
  then show "xs = ys" by (rule le_value_inj [OF assms(1)])
qed simp

lemma load64_eq [simp]:
  "8 \<le> length a \<Longrightarrow> 8 \<le> length b \<Longrightarrow>
    (word_of_int (le_value (take 8 a)) :: u64) = word_of_int (le_value (take 8 b)) \<longleftrightarrow> take 8 a = take 8 b"
  by (rule word_of_le_value_inj) simp_all

lemma load32_eq [simp]:
  "4 \<le> length a \<Longrightarrow> 4 \<le> length b \<Longrightarrow>
    (word_of_int (le_value (take 4 a)) :: u32) = word_of_int (le_value (take 4 b)) \<longleftrightarrow> take 4 a = take 4 b"
  by (rule word_of_le_value_inj) simp_all

lemma xor_eq_0: "u XOR v = 0 \<longleftrightarrow> u = (v :: u64)"
proof
  assume "u XOR v = 0"
  then have "u XOR (u XOR v) = u XOR 0" by (rule arg_cong)
  then show "u = v" by simp
qed simp

lemma xor_or_eq_0: "(u XOR v) OR (x XOR y) = 0 \<longleftrightarrow> u = v \<and> x = (y :: u64)"
  by (auto simp: or_eq_0_iff xor_eq_0)

lemma take_split: "k \<le> n \<Longrightarrow>
    take n a = take n b \<longleftrightarrow> take k a = take k b \<and> take (n - k) (drop k a) = take (n - k) (drop k b)"
  by (metis append_eq_append_conv le_add_diff_inverse length_take take_add min.absorb_iff2 take_take min.absorb1)


section \<open>The order of blocks\<close>

fun block_cmp :: "bytes \<Rightarrow> bytes \<Rightarrow> int" where
  "block_cmp [] [] = 0"
| "block_cmp [] (y # ys) = -1"
| "block_cmp (x # xs) [] = 1"
| "block_cmp (x # xs) (y # ys) = (if x < y then -1 else if y < x then 1 else block_cmp xs ys)"

lemma block_cmp_same_prefix [simp]: "block_cmp (zs @ xs) (zs @ ys) = block_cmp xs ys"
  by (induction zs) simp_all

lemma block_cmp_0_iff: "block_cmp xs ys = 0 \<longleftrightarrow> xs = ys"
  by (induction xs ys rule: block_cmp.induct) auto

lemma block_cmp_refl [simp]: "block_cmp xs xs = 0"
  by (simp add: block_cmp_0_iff)

lemma block_cmp_lexordp: "block_cmp xs ys < 0 \<longleftrightarrow> ord_class.lexordp xs ys"
  by (induction xs ys rule: block_cmp.induct) auto

lemma block_cmp_swap: "block_cmp ys xs = - block_cmp xs ys"
  by (induction xs ys rule: block_cmp.induct) auto

lemma sgn_block_cmp [simp]: "sgn (block_cmp xs ys) = block_cmp xs ys"
  by (induction xs ys rule: block_cmp.induct) auto

lemma block_cmp_skip:
  assumes "k \<le> n" "take k a = take k b"
  shows "block_cmp (take n a) (take n b) = block_cmp (take (n - k) (drop k a)) (take (n - k) (drop k b))"
proof -
  have "take n c = take k c @ take (n - k) (drop k c)" for c :: bytes
    using assms(1) by (metis le_add_diff_inverse take_add)
  from this [of a] this [of b] show ?thesis
    by (simp add: assms(2))
qed

lemma memcmp_block:
  "n \<le> length a \<Longrightarrow> n \<le> length b \<Longrightarrow> memcmp a b n = Inr (block_cmp (take n a) (take n b))"
  by (induction a b n rule: memcmp.induct) auto

section \<open>Correctness of the routines\<close>

lemma skip64_block:
  "n \<le> length a \<Longrightarrow> n \<le> length b \<Longrightarrow> \<exists>a' b' m. skip64 a b n = Inr (a', b', m) \<and>
    m \<le> length a' \<and> m \<le> length b' \<and>
    block_cmp (take n a) (take n b) = block_cmp (take m a') (take m b')"
proof (induction a b n rule: skip64.induct)
  case (1 a b n)
  show ?case
  proof (cases "8 \<le> n \<and> take 8 a = take 8 b")
    case True
    with 1 have "\<exists>a' b' m. skip64 (drop 8 a) (drop 8 b) (n - 8) = Inr (a', b', m) \<and>
        m \<le> length a' \<and> m \<le> length b' \<and>
        block_cmp (take (n - 8) (drop 8 a)) (take (n - 8) (drop 8 b)) = block_cmp (take m a') (take m b')"
      by (intro "1.IH") (auto simp: UNALIGNED_LOAD64_def)
    with True 1(2,3) show ?thesis
      by (subst skip64.simps) (simp add: UNALIGNED_LOAD64_def block_cmp_skip [of 8 n a b])
  next
    case False
    with 1(2,3) show ?thesis
      by (subst skip64.simps) (auto simp: UNALIGNED_LOAD64_def)
  qed
qed

lemma skip32_block:
  "n \<le> length a \<Longrightarrow> n \<le> length b \<Longrightarrow> \<exists>a' b' m. skip32 a b n = Inr (a', b', m) \<and>
    m \<le> length a' \<and> m \<le> length b' \<and>
    block_cmp (take n a) (take n b) = block_cmp (take m a') (take m b')"
  by (auto simp: skip32_def UNALIGNED_LOAD32_def intro: block_cmp_skip)

lemma byte_difference: "sint (ucast x - ucast y :: u32) = uint (x :: byte) - uint (y :: byte)"
proof -
  have b: "uint x < 256" "0 \<le> uint x" "uint y < 256" "0 \<le> uint y" by simp_all
  have "sint (word_of_int (uint x - uint y) :: u32) = uint x - uint y"
    unfolding int_word_sint by (subst mod_pos_pos_trivial; use b in \<open>simp; linarith?\<close>)
  then show ?thesis by (simp only: ucast_eq wi_hom_sub)
qed

lemma cmp_bytes_block:
  "n \<le> length a \<Longrightarrow> n \<le> length b \<Longrightarrow>
    \<exists>r. cmp_bytes a b n = Inr r \<and> sgn r = block_cmp (take n a) (take n b)"
proof (induction a b n rule: cmp_bytes.induct)
  case (2 x a y b n)
  then show ?case
    by (auto simp: byte_difference Let_def word_less_def word_uint_eq_iff sgn_if)
qed auto

lemma fastmemcmp_block:
  assumes "n \<le> length a" "n \<le> length b"
  shows "map_sum id sgn (fastmemcmp_inlined a b n) = Inr (block_cmp (take n a) (take n b))"
proof (cases "64 \<le> n")
  case True
  then show ?thesis using assms by (simp add: fastmemcmp_inlined_def memcmp_block)
next
  case False
  obtain a1 b1 m1 where s1: "skip64 a b n = Inr (a1, b1, m1)" "m1 \<le> length a1" "m1 \<le> length b1"
    "block_cmp (take n a) (take n b) = block_cmp (take m1 a1) (take m1 b1)"
    using skip64_block [OF assms] by blast
  obtain a2 b2 m2 where s2: "skip32 a1 b1 m1 = Inr (a2, b2, m2)" "m2 \<le> length a2" "m2 \<le> length b2"
    "block_cmp (take m1 a1) (take m1 b1) = block_cmp (take m2 a2) (take m2 b2)"
    using skip32_block [OF s1(2,3)] by blast
  obtain r where "cmp_bytes a2 b2 m2 = Inr r" "sgn r = block_cmp (take m2 a2) (take m2 b2)"
    using cmp_bytes_block [OF s2(2,3)] by blast
  then show ?thesis
    using False s1 s2 by (simp add: fastmemcmp_inlined_def)
qed


lemma and_not_plus_and: "(a AND NOT b) + (a AND b) = (a :: int)"
proof -
  have "(a AND NOT b) + (a AND b) = (a AND NOT b) OR (a AND b)"
    by (rule disjunctive_add_eq_or) (auto simp: bit_eq_iff bit_simps)
  also have "\<dots> = a" by (auto simp: bit_eq_iff bit_simps)
  finally show ?thesis .
qed

lemma rounded_down: "nat (int n AND NOT 7) = n - n mod 8"
proof -
  have "(7 :: int) = mask 3" by (simp add: mask_eq_exp_minus_1)
  then have "int n AND 7 = int n mod 8"
    by (simp only: take_bit_eq_mask [symmetric] take_bit_eq_mod) simp
  then have "int n AND NOT 7 = int n - int (n mod 8)"
    using and_not_plus_and [of "int n" 7] by (simp add: zmod_int)
  then show ?thesis by simp
qed

lemma memeq_loop_block:
  "n \<le> length a \<Longrightarrow> n \<le> length b \<Longrightarrow> n mod 8 = 0 \<Longrightarrow>
    memeq_loop a b n = Inr (take n a = take n b)"
proof (induction a b n rule: memeq_loop.induct)
  case (1 a b n)
  obtain q where q: "n = 8 * q" using 1(4) by (metis mod_0_imp_dvd dvdE)
  consider "16 \<le> n" | "n = 0" | "n = 8" using q by (cases q; cases "q - 1") auto
  then show ?case
  proof cases
    case 1
    have m: "(n - 16) mod 8 = 0" using q 1 by (simp add: mod_eq_0_iff_dvd)
    have t: "take n a = take n b \<longleftrightarrow> take 8 a = take 8 b \<and> take 8 (drop 8 a) = take 8 (drop 8 b) \<and>
        take (n - 16) (drop 16 a) = take (n - 16) (drop 16 b)"
      using 1 take_split [of 8 n a b] take_split [of 8 "n - 8" "drop 8 a" "drop 8 b"] by simp
    show ?thesis
      using 1 "1.prems" "1.IH" m
      by (subst memeq_loop.simps) (auto simp: UNALIGNED_LOAD64_def xor_or_eq_0 t)
  next
    case 3
    then show ?thesis using "1.prems"
      by (subst memeq_loop.simps) (simp add: UNALIGNED_LOAD64_def)
  qed simp
qed

lemma take_eq_nth:
  "n \<le> length a \<Longrightarrow> n \<le> length b \<Longrightarrow> take n a = take n b \<longleftrightarrow> (\<forall>i<n. a ! i = b ! i)"
  by (auto simp: list_eq_iff_nth_eq)

lemma take_overlap:
  assumes "n \<le> length a" "n \<le> length b" "8 \<le> n" "m \<le> n - 8" "n - 8 \<le> m + 8"
  shows "take n a = take n b \<longleftrightarrow> take 8 a = take 8 b \<and>
      take 8 (drop (n - 8) a) = take 8 (drop (n - 8) b) \<and> take m (drop 8 a) = take m (drop 8 b)"
proof -
  have "(\<forall>i<n. a ! i = b ! i) \<longleftrightarrow> (\<forall>i<8. a ! i = b ! i) \<and> (\<forall>i<8. a ! (n - 8 + i) = b ! (n - 8 + i)) \<and>
      (\<forall>i<m. a ! (8 + i) = b ! (8 + i))" (is "?l \<longleftrightarrow> ?r")
  proof
    assume ?l then show ?r using assms(3,4) by auto
  next
    assume r: ?r
    show ?l
    proof (intro allI impI)
      fix i assume "i < n"
      consider "i < 8" | "i - 8 < m" "8 \<le> i" | "i - (n - 8) < 8" "n - 8 \<le> i"
        using assms(4,5) \<open>i < n\<close> by linarith
      then show "a ! i = b ! i" using r by cases (auto dest: spec [of _ "i - 8"] spec [of _ "i - (n - 8)"])
    qed
  qed
  with assms show ?thesis by (simp add: take_eq_nth)
qed

lemma memeq_block:
  assumes "n \<le> length a" "n \<le> length b"
  shows "memeq a b n = Inr (take n a = take n b)"
proof (cases "n < 8")
  case True
  then show ?thesis
    unfolding memeq_def rounded_down Let_def
    using assms by (simp add: memcmp_block block_cmp_0_iff)
next
  case False
  obtain q r where n: "n = 8 * q + r" "r < 8" by (metis mult_div_mod_eq mod_less_divisor zero_less_numeral)
  have m8: "n - n mod 8 - 8 = 8 * (q - 1)" "n - n mod 8 \<noteq> 0" "q \<noteq> 0" using n False by auto
  have m: "8 * (q - 1) \<le> n - 8" "n - 8 \<le> 8 * (q - 1) + 8" using n m8(3) by auto
  define w :: "bytes \<Rightarrow> u64" where "w p = word_of_int (le_value (take 8 p))" for p
  have load: "UNALIGNED_LOAD64 p = Inr (w p)" if "8 \<le> length p" for p
    using that by (simp add: UNALIGNED_LOAD64_def w_def)
  have w: "w p = w q \<longleftrightarrow> take 8 p = take 8 q" if "8 \<le> length p" "8 \<le> length q" for p q
    unfolding w_def using that by (rule load64_eq)
  have len: "8 \<le> length a" "8 \<le> length b" "8 \<le> length (drop (n - 8) a)" "8 \<le> length (drop (n - 8) b)"
    using assms False by auto
  have c: "memcmp (drop 8 a) (drop 8 b) (8 * (q - 1)) = Inr (block_cmp (take (8 * (q - 1)) (drop 8 a)) (take (8 * (q - 1)) (drop 8 b)))"
    by (rule memcmp_block) (use assms m False in auto)
  have l: "memeq_loop (drop 8 a) (drop 8 b) (8 * (q - 1)) = Inr (take (8 * (q - 1)) (drop 8 a) = take (8 * (q - 1)) (drop 8 b))"
    by (rule memeq_loop_block) (use assms m False in auto)
  have "take n a = take n b \<longleftrightarrow> w a = w b \<and> w (drop (n - 8) a) = w (drop (n - 8) b) \<and>
      take (8 * (q - 1)) (drop 8 a) = take (8 * (q - 1)) (drop 8 b)"
    using take_overlap [OF assms _ m] False by (simp only: w [OF len(1,2)] w [OF len(3,4)] not_less)
  then show ?thesis
    unfolding memeq_def rounded_down Let_def m8(1) load [OF len(1)] load [OF len(2)]
      load [OF len(3)] load [OF len(4)] bindE.simps xor_or_eq_0 c l
    using m8(2) by (simp only: if_False block_cmp_0_iff if_cancel) (simp only: split: if_split; blast)
qed

section \<open>Properties\<close>

text \<open>
  \<^verbatim>\<open>memeq\<close>, with its overlapping loads of the first and last eight bytes, decides
  equality of the two blocks and reads nothing behind their ends, for every length.
\<close>

theorem memeq_correct:
  assumes "n \<le> length a" "n \<le> length b"
  shows "memeq a b n = Inr (take n a = take n b)"
  using assms by (rule memeq_block)

lemma memeq_correct_witness:
  "memeq (replicate 25 1) (replicate 24 1 @ [2]) 25
    = Inr (take 25 (replicate 25 (1 :: byte)) = take 25 (replicate 24 1 @ [2]))"
  by (rule memeq_correct) simp_all

text \<open>
  the word-skipping comparison reads nothing behind the two blocks and its sign is that
  of the lexicographic comparison by unsigned bytes: negative exactly when the first block
  comes first, zero exactly when they are equal.
\<close>

theorem fastmemcmp_correct:
  assumes "n \<le> length a" "n \<le> length b"
  shows "\<exists>r. fastmemcmp_inlined a b n = Inr r \<and> (r < 0 \<longleftrightarrow> ord_class.lexordp (take n a) (take n b))
    \<and> (r = 0 \<longleftrightarrow> take n a = take n b)"
proof -
  obtain r where r: "fastmemcmp_inlined a b n = Inr r" "sgn r = block_cmp (take n a) (take n b)"
    using fastmemcmp_block [OF assms] by (cases "fastmemcmp_inlined a b n") auto
  have "r < 0 \<longleftrightarrow> sgn r < 0" "r = 0 \<longleftrightarrow> sgn r = 0" by (auto simp: sgn_if)
  then show ?thesis
    using r by (auto simp: block_cmp_lexordp block_cmp_0_iff)
qed

lemma fastmemcmp_correct_witness:
  "\<exists>r. fastmemcmp_inlined (replicate 13 7) (replicate 12 7 @ [200]) 13 = Inr r
    \<and> (r < 0 \<longleftrightarrow> ord_class.lexordp (take 13 (replicate 13 7)) (take 13 (replicate 12 (7 :: byte) @ [200])))
    \<and> (r = 0 \<longleftrightarrow> take 13 (replicate 13 (7 :: byte)) = take 13 (replicate 12 7 @ [200]))"
  by (rule fastmemcmp_correct) simp_all

end
