(* ===== verification/FastString.thy ===== *)
theory FastString
  imports Fastmem
begin

text \<open>
  The growable byte buffer \<^verbatim>\<open>base/faststring.h\<close>, \<^verbatim>\<open>base/faststring.cc\<close>.  The object holds an
  inline array of 32 bytes and a pointer that is either to this array or to one on the heap;
  here the heap array is \<open>None\<close> while the pointer is to the inline one.  The contents of
  a new array are arbitrary: the operations that allocate take them as the argument
  \<open>fresh\<close>, a function from the size.  The poisoning of unused memory for the
  address sanitizer has no effect on the state and is left out, and sizes do not overflow
  \<^verbatim>\<open>size_t\<close>: an array of that size cannot exist.
\<close>

section \<open>State and operations\<close>

definition kInitialCapacity :: nat where "kInitialCapacity = 32"

record faststring =
  initial_data :: bytes
  heap_data :: "bytes option"
  len :: nat
  capacity :: nat

definition fs_data :: "faststring \<Rightarrow> bytes" where
  "fs_data s = (case heap_data s of None \<Rightarrow> initial_data s | Some a \<Rightarrow> a)"

text \<open>The array behind the pointer is replaced by one of the same size.\<close>

definition set_data :: "bytes \<Rightarrow> faststring \<Rightarrow> faststring" where
  "set_data a s =
    (case heap_data s of None \<Rightarrow> s\<lparr>initial_data := a\<rparr> | Some _ \<Rightarrow> s\<lparr>heap_data := Some a\<rparr>)"

definition fs_new :: "bytes \<Rightarrow> faststring" where
  "fs_new init = \<lparr>initial_data = init, heap_data = None, len = 0, capacity = kInitialCapacity\<rparr>"

definition fs_new_capacity :: "(nat \<Rightarrow> bytes) \<Rightarrow> bytes \<Rightarrow> nat \<Rightarrow> faststring" where
  "fs_new_capacity fresh init cap =
    (let s = fs_new init in
     if cap > capacity s then s\<lparr>heap_data := Some (fresh cap), capacity := cap\<rparr> else s)"

definition GrowArray :: "(nat \<Rightarrow> bytes) \<Rightarrow> faststring \<Rightarrow> nat \<Rightarrow> fault + faststring" where
  "GrowArray fresh s new_capacity =
    (if \<not> new_capacity \<ge> capacity s then Inl CheckFailed
     else
       bindE (if len s > 0 then memcpy (fresh new_capacity) (fs_data s) (len s)
              else Inr (fresh new_capacity)) (\<lambda>new_data.
       Inr (s\<lparr>capacity := new_capacity, heap_data := Some new_data\<rparr>)))"

definition GrowByAtLeast :: "(nat \<Rightarrow> bytes) \<Rightarrow> faststring \<Rightarrow> nat \<Rightarrow> fault + faststring" where
  "GrowByAtLeast fresh s count =
    GrowArray fresh s
      (if len s + count < len s * 3 div 2 then len s * 3 div 2 else len s + count)"

definition EnsureRoomForAppend :: "(nat \<Rightarrow> bytes) \<Rightarrow> faststring \<Rightarrow> nat \<Rightarrow> fault + faststring" where
  "EnsureRoomForAppend fresh s count =
    (if len s + count \<le> capacity s then Inr s else GrowByAtLeast fresh s count)"

definition reserve :: "(nat \<Rightarrow> bytes) \<Rightarrow> faststring \<Rightarrow> nat \<Rightarrow> fault + faststring" where
  "reserve fresh s new_capacity =
    (if new_capacity \<le> capacity s then Inr s else GrowArray fresh s new_capacity)"

definition resize :: "(nat \<Rightarrow> bytes) \<Rightarrow> faststring \<Rightarrow> nat \<Rightarrow> fault + faststring" where
  "resize fresh s new_size =
    bindE (if new_size > capacity s then reserve fresh s new_size else Inr s) (\<lambda>s.
    Inr (s\<lparr>len := new_size\<rparr>))"

definition clear :: "(nat \<Rightarrow> bytes) \<Rightarrow> faststring \<Rightarrow> fault + faststring" where
  "clear fresh s = resize fresh s 0"

text \<open>The result is the released array.\<close>

definition release :: "(nat \<Rightarrow> bytes) \<Rightarrow> faststring \<Rightarrow> fault + bytes \<times> faststring" where
  "release fresh s =
    bindE (case heap_data s of
             None \<Rightarrow> memcpy (fresh (len s)) (initial_data s) (len s)
           | Some a \<Rightarrow> Inr a) (\<lambda>ret.
    Inr (ret, s\<lparr>len := 0, capacity := kInitialCapacity, heap_data := None\<rparr>))"

definition write_byte :: "bytes \<Rightarrow> nat \<Rightarrow> byte \<Rightarrow> fault + bytes" where
  "write_byte a i b = (if i < length a then Inr (a[i := b]) else Inl OutOfBounds)"

text \<open>The loop for up to four bytes: \<open>p\<close> is the index of the next byte written.\<close>

fun append_loop :: "bytes \<Rightarrow> nat \<Rightarrow> bytes \<Rightarrow> nat \<Rightarrow> fault + bytes" where
  "append_loop a p src 0 = Inr a"
| "append_loop a p [] (Suc n) = Inl OutOfBounds"
| "append_loop a p (x # src) (Suc n) = bindE (write_byte a p x) (\<lambda>a. append_loop a (p + 1) src n)"

definition append_mem :: "(nat \<Rightarrow> bytes) \<Rightarrow> faststring \<Rightarrow> bytes \<Rightarrow> nat \<Rightarrow> fault + faststring" where
  "append_mem fresh s src count =
    bindE (EnsureRoomForAppend fresh s count) (\<lambda>s.
    bindE (if count \<le> 4 then append_loop (fs_data s) (len s) src count
           else map_sum id (\<lambda>t. take (len s) (fs_data s) @ t)
             (memcpy_inlined (drop (len s) (fs_data s)) src count)) (\<lambda>a.
    Inr ((set_data a s)\<lparr>len := len s + count\<rparr>)))"

definition append_string :: "(nat \<Rightarrow> bytes) \<Rightarrow> faststring \<Rightarrow> bytes \<Rightarrow> fault + faststring" where
  "append_string fresh s src = append_mem fresh s src (length src)"

definition push_back :: "(nat \<Rightarrow> bytes) \<Rightarrow> faststring \<Rightarrow> byte \<Rightarrow> fault + faststring" where
  "push_back fresh s b =
    bindE (EnsureRoomForAppend fresh s 1) (\<lambda>s.
    bindE (write_byte (fs_data s) (len s) b) (\<lambda>a.
    Inr ((set_data a s)\<lparr>len := len s + 1\<rparr>)))"

definition fs_at :: "faststring \<Rightarrow> nat \<Rightarrow> fault + byte" where
  "fs_at s i = (if \<not> i < len s then Inl CheckFailed
     else if i < length (fs_data s) then Inr (fs_data s ! i) else Inl OutOfBounds)"

definition assign_copy :: "(nat \<Rightarrow> bytes) \<Rightarrow> faststring \<Rightarrow> bytes \<Rightarrow> nat \<Rightarrow> fault + faststring" where
  "assign_copy fresh s src n =
    bindE (resize fresh (s\<lparr>len := 0\<rparr>) n) (\<lambda>s.
    bindE (memcpy (fs_data s) src n) (\<lambda>a. Inr (set_data a s)))"

text \<open>
  The overload for strings.  \<^verbatim>\<open>c_str()\<close> points to the bytes of the string and a NUL.
\<close>

definition assign_copy_string :: "(nat \<Rightarrow> bytes) \<Rightarrow> faststring \<Rightarrow> bytes \<Rightarrow> fault + faststring" where
  "assign_copy_string fresh s src = assign_copy fresh s (src @ [0]) (len s)"

definition fs_ToString :: "faststring \<Rightarrow> bytes" where
  "fs_ToString s = take (len s) (fs_data s)"

section \<open>The representation\<close>

definition fs_wf :: "faststring \<Rightarrow> bool" where
  "fs_wf s \<longleftrightarrow> length (initial_data s) = kInitialCapacity \<and> length (fs_data s) = capacity s
    \<and> len s \<le> capacity s \<and> kInitialCapacity \<le> capacity s"

definition allocator :: "(nat \<Rightarrow> bytes) \<Rightarrow> bool" where
  "allocator fresh \<longleftrightarrow> (\<forall>n. length (fresh n) = n)"

lemma allocator_length [simp]: "allocator fresh \<Longrightarrow> length (fresh n) = n"
  by (simp add: allocator_def)

text \<open>What an operation promises: it returns a good buffer with the given content.\<close>

definition yields :: "fault + faststring \<Rightarrow> bytes \<Rightarrow> bool" where
  "yields r c \<longleftrightarrow> (\<exists>s. r = Inr s \<and> fs_wf s \<and> fs_ToString s = c)"

lemma length_fs_ToString [simp]: "fs_wf s \<Longrightarrow> length (fs_ToString s) = len s"
  by (simp add: fs_ToString_def fs_wf_def)

lemma fs_new_wf [wf]: "length init = kInitialCapacity \<Longrightarrow> fs_wf (fs_new init)"
  by (simp add: fs_wf_def fs_new_def fs_data_def)

lemma fs_new_content [abs]: "fs_ToString (fs_new init) = []"
  by (simp add: fs_ToString_def fs_new_def)

lemma fs_new_capacity_wf [wf]:
  "length init = kInitialCapacity \<Longrightarrow> allocator fresh \<Longrightarrow> fs_wf (fs_new_capacity fresh init n)"
  by (simp add: fs_wf_def fs_new_capacity_def fs_new_def fs_data_def Let_def)

text \<open>Growing keeps the content and the length and makes the room asked for.\<close>

definition grown :: "faststring \<Rightarrow> nat \<Rightarrow> fault + faststring \<Rightarrow> bool" where
  "grown s n r \<longleftrightarrow> (\<exists>t. r = Inr t \<and> fs_wf t \<and> fs_ToString t = fs_ToString s \<and> len t = len s
    \<and> n \<le> capacity t)"

lemma GrowArray_grown:
  "allocator fresh \<Longrightarrow> fs_wf s \<Longrightarrow> capacity s \<le> n \<Longrightarrow> grown s n (GrowArray fresh s n)"
  by (auto simp: grown_def GrowArray_def memcpy_def fs_wf_def fs_ToString_def fs_data_def)

lemma EnsureRoomForAppend_grown:
  assumes "allocator fresh" "fs_wf s"
  shows "grown s (len s + n) (EnsureRoomForAppend fresh s n)"
proof (cases "len s + n \<le> capacity s")
  case True
  then show ?thesis using assms by (simp add: grown_def EnsureRoomForAppend_def)
next
  case False
  let ?m = "if len s + n < len s * 3 div 2 then len s * 3 div 2 else len s + n"
  have "grown s ?m (GrowArray fresh s ?m)"
    using assms False by (intro GrowArray_grown) auto
  then show ?thesis
    using False by (auto simp: EnsureRoomForAppend_def GrowByAtLeast_def grown_def)
qed

lemma reserve_grown:
  "allocator fresh \<Longrightarrow> fs_wf s \<Longrightarrow> grown s n (reserve fresh s n)"
  using GrowArray_grown [of fresh s n] by (auto simp: reserve_def grown_def)

lemma append_loop_writes:
  "n \<le> length src \<Longrightarrow> p + n \<le> length a \<Longrightarrow>
    append_loop a p src n = Inr (take p a @ take n src @ drop (p + n) a)"
proof (induction a p src n rule: append_loop.induct)
  case (3 a p x src n)
  then have "append_loop (a[p := x]) (p + 1) src n
      = Inr (take (p + 1) (a[p := x]) @ take n src @ drop (p + 1 + n) (a[p := x]))"
    by (simp add: write_byte_def)
  then show ?case
    using 3(3) by (simp add: write_byte_def take_Suc_conv_app_nth)
qed simp_all

lemma set_data_simps [simp]:
  "fs_data (set_data a s) = a" "len (set_data a s) = len s" "capacity (set_data a s) = capacity s"
  "fs_data (s\<lparr>len := n\<rparr>) = fs_data s"
  by (simp_all add: set_data_def fs_data_def split: option.splits)

lemma set_data_wf:
  "fs_wf s \<Longrightarrow> length a = capacity s \<Longrightarrow> n \<le> capacity s \<Longrightarrow> fs_wf ((set_data a s)\<lparr>len := n\<rparr>)"
  by (auto simp: fs_wf_def set_data_def fs_data_def split: option.splits)

text \<open>After room has been made, writing a block behind the content appends it.\<close>

lemma write_behind:
  assumes "fs_wf s" "len s + length bs \<le> capacity s"
    and "a = take (len s) (fs_data s) @ bs @ drop (len s + length bs) (fs_data s)"
  shows "yields (Inr ((set_data a s)\<lparr>len := len s + length bs\<rparr>)) (fs_ToString s @ bs)"
proof -
  have "length a = capacity s" using assms by (simp add: fs_wf_def)
  with assms show ?thesis
    by (auto simp: yields_def fs_ToString_def fs_wf_def [of s] intro: set_data_wf)
qed

section \<open>The operations on the content\<close>

lemma append_mem_yields:
  assumes "allocator fresh" "fs_wf s" "n \<le> length src"
  shows "yields (append_mem fresh s src n) (fs_ToString s @ take n src)"
proof -
  obtain t where t: "EnsureRoomForAppend fresh s n = Inr t" "fs_wf t" "fs_ToString t = fs_ToString s"
    "len t = len s" "len s + n \<le> capacity t"
    using EnsureRoomForAppend_grown [OF assms(1,2), of n] by (auto simp: grown_def)
  let ?a = "take (len t) (fs_data t) @ take n src @ drop (len t + n) (fs_data t)"
  have room: "len t + n \<le> length (fs_data t)" using t by (simp add: fs_wf_def)
  have "append_mem fresh s src n = Inr ((set_data ?a t)\<lparr>len := len t + length (take n src)\<rparr>)"
  proof (cases "n \<le> 4")
    case True
    then show ?thesis
      using t room assms(3) by (simp add: append_mem_def append_loop_writes)
  next
    case False
    then show ?thesis
      using t room assms(3)
      by (simp add: append_mem_def memcpy_inlined_def memcpy_def add.commute)
  qed
  then show ?thesis
    using write_behind [of t "take n src" ?a] t assms(3) by simp
qed

lemma append_string_yields:
  "allocator fresh \<Longrightarrow> fs_wf s \<Longrightarrow> yields (append_string fresh s src) (fs_ToString s @ src)"
  using append_mem_yields [of fresh s "length src" src] by (simp add: append_string_def)

lemma push_back_yields:
  assumes "allocator fresh" "fs_wf s"
  shows "yields (push_back fresh s b) (fs_ToString s @ [b])"
proof -
  obtain t where t: "EnsureRoomForAppend fresh s 1 = Inr t" "fs_wf t" "fs_ToString t = fs_ToString s"
    "len t = len s" "len s + 1 \<le> capacity t"
    using EnsureRoomForAppend_grown [OF assms, of 1] by (auto simp: grown_def)
  have room: "len t < length (fs_data t)" using t by (simp add: fs_wf_def)
  then show ?thesis
    using write_behind [of t "[b]" "(fs_data t)[len t := b]"] t
    by (simp add: push_back_def write_byte_def upd_conv_take_nth_drop)
qed

lemma resize_prefix:
  assumes "allocator fresh" "fs_wf s"
  shows "\<exists>t. resize fresh s n = Inr t \<and> fs_wf t \<and> len t = n \<and>
    take (min n (len s)) (fs_ToString t) = take (min n (len s)) (fs_ToString s)"
proof -
  obtain t where t: "(if n > capacity s then reserve fresh s n else Inr s) = Inr t"
    "fs_wf t" "fs_ToString t = fs_ToString s" "len t = len s" "n \<le> capacity t"
    using reserve_grown [OF assms, of n] assms(2) by (cases "n > capacity s") (auto simp: grown_def)
  have "fs_wf (t\<lparr>len := n\<rparr>)" using t by (simp add: fs_wf_def)
  moreover have "take (min n (len s)) (fs_ToString (t\<lparr>len := n\<rparr>)) = take (min n (len s)) (fs_ToString t)"
    using t(4) by (simp add: fs_ToString_def)
  ultimately show ?thesis
    using t(1,3) by (simp add: resize_def)
qed

lemma assign_copy_yields:
  assumes "allocator fresh" "fs_wf s" "n \<le> length src"
  shows "yields (assign_copy fresh s src n) (take n src)"
proof -
  have "fs_wf (s\<lparr>len := 0\<rparr>)" using assms(2) by (simp add: fs_wf_def)
  then obtain t where t: "resize fresh (s\<lparr>len := 0\<rparr>) n = Inr t" "fs_wf t" "len t = n"
    using resize_prefix [OF assms(1), of "s\<lparr>len := 0\<rparr>" n] by auto
  let ?a = "take n src @ drop n (fs_data t)"
  have n: "n \<le> length (fs_data t)" "length ?a = capacity t" using t assms(3) by (auto simp: fs_wf_def)
  then have "fs_wf ((set_data ?a t)\<lparr>len := n\<rparr>)"
    using t by (intro set_data_wf) (auto simp: fs_wf_def)
  moreover have "(set_data ?a t)\<lparr>len := n\<rparr> = set_data ?a t" using t(3) by (simp add: set_data_def split: option.split)
  ultimately show ?thesis
    using t n assms(3) by (simp add: assign_copy_def yields_def memcpy_def fs_ToString_def)
qed

lemma release_content:
  assumes "allocator fresh" "fs_wf s"
  shows "\<exists>ret t. release fresh s = Inr (ret, t) \<and> fs_wf t \<and> fs_ToString t = [] \<and>
    len s \<le> length ret \<and> take (len s) ret = fs_ToString s"
  using assms
  by (auto simp: release_def memcpy_def fs_wf_def fs_data_def fs_ToString_def split: option.splits)

section \<open>The interface of a byte sink\<close>

text \<open>Writing chunks one after the other, as a client of a sink does.\<close>

fun put_all :: "('s \<Rightarrow> 'c \<Rightarrow> fault + 's) \<Rightarrow> 's \<Rightarrow> 'c list \<Rightarrow> fault + 's" where
  "put_all put s [] = Inr s"
| "put_all put s (c # cs) = bindE (put s c) (\<lambda>s. put_all put s cs)"

locale byte_sink =
  fixes good :: "'s \<Rightarrow> bool"
    and content :: "'s \<Rightarrow> bytes"
    and put :: "'s \<Rightarrow> 'c \<Rightarrow> fault + 's"
    and chunk :: "'c \<Rightarrow> bytes"
  assumes put_ok: "good s \<Longrightarrow> \<exists>t. put s c = Inr t \<and> good t \<and> content t = content s @ chunk c"
begin

lemma put_all_content:
  "good s \<Longrightarrow> \<exists>t. put_all put s cs = Inr t \<and> good t \<and> content t = content s @ concat (map chunk cs)"
proof (induction cs arbitrary: s)
  case (Cons c cs)
  obtain t where t: "put s c = Inr t" "good t" "content t = content s @ chunk c"
    using put_ok [OF Cons.prems] by blast
  with Cons.IH [of t] show ?case by auto
qed simp

text \<open>How the bytes are cut into chunks does not matter.\<close>

lemma put_all_rechunk:
  "good s \<Longrightarrow> concat (map chunk cs) = concat (map chunk ds) \<Longrightarrow>
    map_sum id content (put_all put s cs) = map_sum id content (put_all put s ds)"
  using put_all_content [of s cs] put_all_content [of s ds] by auto

end

interpretation append_sink: byte_sink "\<lambda>s. fs_wf s \<and> allocator fresh" fs_ToString
    "append_string fresh" id for fresh
  by unfold_locales (use append_string_yields in \<open>auto simp: yields_def\<close>)

interpretation push_sink: byte_sink "\<lambda>s. fs_wf s \<and> allocator fresh" fs_ToString
    "push_back fresh" "\<lambda>b. [b]" for fresh
  by unfold_locales (use push_back_yields in \<open>auto simp: yields_def\<close>)

section \<open>Properties\<close>

text \<open>
  Starting from an empty buffer, appending strings one after the other never writes
  outside the array, whatever the sizes and however often the array has to grow, and leaves
  the concatenation; appending the same bytes one at a time leaves the same content.
\<close>

theorem faststring_appends:
  assumes "allocator fresh" "length init = kInitialCapacity"
  shows "\<exists>s t. put_all (append_string fresh) (fs_new init) cs = Inr s \<and> fs_wf s \<and> fs_ToString s = concat cs
    \<and> put_all (push_back fresh) (fs_new init) (concat cs) = Inr t \<and> fs_ToString t = concat cs"
proof -
  have new: "fs_wf (fs_new init) \<and> allocator fresh" using assms by (simp add: fs_new_wf)
  from append_sink.put_all_content [OF new, of cs] push_sink.put_all_content [OF new, of "concat cs"]
  show ?thesis by (auto simp: abs)
qed

lemma faststring_appends_witness:
  "\<exists>s t. put_all (append_string (\<lambda>n. replicate n 0)) (fs_new (replicate 32 0)) [replicate 40 1, [2], []] = Inr s
    \<and> fs_wf s \<and> fs_ToString s = concat [replicate 40 1, [2], []]
    \<and> put_all (push_back (\<lambda>n. replicate n 0)) (fs_new (replicate 32 0)) (concat [replicate 40 1, [2], []]) = Inr t
    \<and> fs_ToString t = concat [replicate 40 1, [2], []]"
  by (rule faststring_appends) (simp_all add: allocator_def kInitialCapacity_def)

text \<open>
  The overload of \<^verbatim>\<open>assign_copy\<close> for strings copies as many bytes as the buffer held
  before instead of as many as the string has: whenever the old length fits, the result is
  the string with its final NUL cut to the old length, so an empty buffer stays empty.
\<close>

theorem assign_copy_string_old_length:
  assumes "allocator fresh" "fs_wf s" "len s \<le> length src + 1"
  shows "map_sum id fs_ToString (assign_copy_string fresh s src) = Inr (take (len s) (src @ [0]))"
  using assign_copy_yields [OF assms(1,2), of "len s" "src @ [0]"] assms(3)
  by (auto simp: assign_copy_string_def yields_def)

lemma assign_copy_string_old_length_witness:
  "map_sum id fs_ToString (assign_copy_string (\<lambda>n. replicate n 0) (fs_new (replicate 32 0)) (str ''abc''))
    = Inr (take (len (fs_new (replicate 32 0))) (str ''abc'' @ [0]))
    \<and> take (len (fs_new (replicate 32 0))) (str ''abc'' @ [0]) = []"
proof
  show "map_sum id fs_ToString (assign_copy_string (\<lambda>n. replicate n 0) (fs_new (replicate 32 0)) (str ''abc''))
    = Inr (take (len (fs_new (replicate 32 0))) (str ''abc'' @ [0]))"
    by (rule assign_copy_string_old_length)
      (simp_all add: allocator_def fs_new_wf kInitialCapacity_def, simp add: fs_new_def)
qed (simp add: fs_new_def)

end
