(* ===== verification/SliceView.thy ===== *)
theory SliceView
  imports FastString
begin

text \<open>
  The view of a byte range \<^verbatim>\<open>base/slice.h\<close>, \<^verbatim>\<open>base/slice.cc\<close>: a pointer, here the list of the
  bytes that may be read from it, and a size.  \<open>slice_bytes\<close> is what the view denotes.
  The comparison goes through a 32-bit \<^verbatim>\<open>int\<close>, which the model keeps.
\<close>

section \<open>State and operations\<close>

record Slice =
  slice_data :: bytes
  slice_size :: nat

definition slice_of :: "bytes \<Rightarrow> nat \<Rightarrow> Slice" where
  "slice_of d n = \<lparr>slice_data = d, slice_size = n\<rparr>"

definition slice_empty :: Slice where "slice_empty = slice_of [0] 0"

definition slice_of_string :: "bytes \<Rightarrow> Slice" where
  "slice_of_string s = slice_of (s @ [0]) (length s)"

text \<open>\<^verbatim>\<open>strlen\<close> of a pointer to a NUL-terminated array.\<close>

fun strlen :: "bytes \<Rightarrow> fault + nat" where
  "strlen [] = Inl OutOfBounds"
| "strlen (b # p) = (if b = 0 then Inr 0 else map_sum id Suc (strlen p))"

definition slice_of_cstr :: "bytes \<Rightarrow> fault + Slice" where
  "slice_of_cstr p = map_sum id (slice_of p) (strlen p)"

definition slice_of_faststring :: "faststring \<Rightarrow> Slice" where
  "slice_of_faststring s = slice_of (fs_data s) (len s)"

definition slice_is_empty :: "Slice \<Rightarrow> bool" where
  "slice_is_empty s \<longleftrightarrow> slice_size s = 0"

definition slice_index :: "Slice \<Rightarrow> nat \<Rightarrow> fault + byte" where
  "slice_index s n =
    (if \<not> n < slice_size s then Inl CheckFailed
     else if n < length (slice_data s) then Inr (slice_data s ! n) else Inl OutOfBounds)"

definition slice_clear :: "Slice \<Rightarrow> Slice" where
  "slice_clear s = s\<lparr>slice_data := [0], slice_size := 0\<rparr>"

definition remove_prefix :: "Slice \<Rightarrow> nat \<Rightarrow> fault + Slice" where
  "remove_prefix s n =
    (if \<not> n \<le> slice_size s then Inl CheckFailed
     else Inr (s\<lparr>slice_data := drop n (slice_data s), slice_size := slice_size s - n\<rparr>))"

definition truncate :: "Slice \<Rightarrow> nat \<Rightarrow> fault + Slice" where
  "truncate s n =
    (if \<not> n \<le> slice_size s then Inl CheckFailed else Inr (s\<lparr>slice_size := n\<rparr>))"

definition slice_ToString :: "Slice \<Rightarrow> fault + bytes" where
  "slice_ToString s =
    (if slice_size s \<le> length (slice_data s) then Inr (take (slice_size s) (slice_data s))
     else Inl OutOfBounds)"

definition isgraph :: "byte \<Rightarrow> bool" where
  "isgraph b \<longleftrightarrow> 33 \<le> b \<and> b \<le> 126"

text \<open>The first loop of \<^verbatim>\<open>ToDebugString\<close>, which computes how much to reserve.\<close>

fun debug_size :: "bytes \<Rightarrow> int \<Rightarrow> int" where
  "debug_size [] sz = sz"
| "debug_size (b # bs) sz =
    debug_size bs (if \<not> isgraph b then wrap32 (sz + 4) else wrap32 (sz + 1))"

text \<open>Code 92 is the backslash and 120 the letter x.\<close>

fun debug_bytes :: "bytes \<Rightarrow> bytes \<Rightarrow> bytes" where
  "debug_bytes [] ret = ret"
| "debug_bytes (b # bs) ret =
    debug_bytes bs (if \<not> isgraph b then ret @ [92, 120] @ hex2 b else ret @ [b])"

text \<open>The result is the number passed to \<^verbatim>\<open>reserve\<close> and the string.\<close>

definition ToDebugString :: "Slice \<Rightarrow> nat \<Rightarrow> fault + int \<times> bytes" where
  "ToDebugString s max_len =
    (let abbreviated = (max_len \<noteq> 0 \<and> slice_size s > max_len);
         bytes_to_print = (if abbreviated then max_len else slice_size s)
     in if length (slice_data s) < bytes_to_print then Inl OutOfBounds
        else
          let printed = take bytes_to_print (slice_data s);
              sz = debug_size printed 0;
              sz = (if abbreviated then wrap32 (sz + 20) else sz);
              ret = debug_bytes printed [];
              ret = (if abbreviated
                     then ret @ str ''...<'' @ dec_nat (slice_size s) @ str '' bytes total>'' else ret)
          in Inr (sz, ret))"

definition MemEqual :: "bytes \<Rightarrow> bytes \<Rightarrow> nat \<Rightarrow> fault + bool" where
  "MemEqual a b n = memeq a b n"

definition MemCompare :: "bytes \<Rightarrow> bytes \<Rightarrow> nat \<Rightarrow> fault + int" where
  "MemCompare a b n = fastmemcmp_inlined a b n"

definition starts_with :: "Slice \<Rightarrow> Slice \<Rightarrow> fault + bool" where
  "starts_with s x =
    (if slice_size s \<ge> slice_size x then MemEqual (slice_data s) (slice_data x) (slice_size x)
     else Inr False)"

text \<open>\<open>same\<close>: the slice already points to the destination.\<close>

definition relocate :: "Slice \<Rightarrow> bool \<Rightarrow> bytes \<Rightarrow> fault + Slice" where
  "relocate s same d =
    (if same then Inr s
     else bindE (memcpy d (slice_data s) (slice_size s)) (\<lambda>d. Inr (s\<lparr>slice_data := d\<rparr>)))"

definition slice_eq :: "Slice \<Rightarrow> Slice \<Rightarrow> fault + bool" where
  "slice_eq x y =
    (if slice_size x = slice_size y then MemEqual (slice_data x) (slice_data y) (slice_size x)
     else Inr False)"

definition slice_ne :: "Slice \<Rightarrow> Slice \<Rightarrow> fault + bool" where
  "slice_ne x y = map_sum id Not (slice_eq x y)"

definition slice_compare :: "Slice \<Rightarrow> Slice \<Rightarrow> fault + int" where
  "slice_compare s b =
    (let min_len = wrap32 (int (if slice_size s < slice_size b then slice_size s else slice_size b))
     in bindE (MemCompare (slice_data s) (slice_data b) (nat (min_len mod 2 ^ 64))) (\<lambda>r.
        Inr (if r = 0 then
               if slice_size s < slice_size b then -1
               else if slice_size s > slice_size b then 1 else r
             else r)))"

definition Comparator :: "Slice \<Rightarrow> Slice \<Rightarrow> fault + bool" where
  "Comparator a b = map_sum id (\<lambda>r. r < 0) (slice_compare a b)"

section \<open>What a slice denotes\<close>

definition slice_wf :: "Slice \<Rightarrow> bool" where
  "slice_wf s \<longleftrightarrow> slice_size s \<le> length (slice_data s)"

definition slice_bytes :: "Slice \<Rightarrow> bytes" where
  "slice_bytes s = take (slice_size s) (slice_data s)"

lemma length_slice_bytes [simp]: "slice_wf s \<Longrightarrow> length (slice_bytes s) = slice_size s"
  by (simp add: slice_wf_def slice_bytes_def)

lemma slice_of_faststring_wf [wf]: "fs_wf s \<Longrightarrow> slice_wf (slice_of_faststring s)"
  by (simp add: slice_wf_def slice_of_faststring_def slice_of_def fs_wf_def)

lemma slice_of_faststring_bytes [abs]: "slice_bytes (slice_of_faststring s) = fs_ToString s"
  by (simp add: slice_bytes_def slice_of_faststring_def slice_of_def fs_ToString_def)

lemma remove_prefix_bytes:
  "slice_wf s \<Longrightarrow> n \<le> slice_size s \<Longrightarrow>
    \<exists>t. remove_prefix s n = Inr t \<and> slice_wf t \<and> slice_bytes t = drop n (slice_bytes s)"
  by (auto simp: remove_prefix_def slice_wf_def slice_bytes_def drop_take)

lemma truncate_bytes:
  "slice_wf s \<Longrightarrow> n \<le> slice_size s \<Longrightarrow>
    \<exists>t. truncate s n = Inr t \<and> slice_wf t \<and> slice_bytes t = take n (slice_bytes s)"
  by (auto simp: truncate_def slice_wf_def slice_bytes_def min_def)

lemma slice_of_cstr_bytes:
  "0 \<notin> set s \<Longrightarrow> \<exists>t. slice_of_cstr (s @ 0 # junk) = Inr t \<and> slice_wf t \<and> slice_bytes t = s"
proof -
  assume "0 \<notin> set s"
  then have "strlen (s @ 0 # junk) = Inr (length s)" by (induction s) auto
  then show ?thesis by (simp add: slice_of_cstr_def slice_of_def slice_wf_def slice_bytes_def)
qed

lemma starts_with_bytes:
  assumes "slice_wf s" "slice_wf x"
  shows "starts_with s x = Inr (take (slice_size x) (slice_bytes s) = slice_bytes x)"
proof (cases "slice_size x \<le> slice_size s")
  case True
  then show ?thesis
    using assms by (simp add: starts_with_def MemEqual_def memeq_block slice_wf_def slice_bytes_def min_def)
next
  case False
  then have "length (take (slice_size x) (slice_bytes s)) \<noteq> length (slice_bytes x)"
    using assms by simp
  then have "take (slice_size x) (slice_bytes s) \<noteq> slice_bytes x" by metis
  then show ?thesis using False by (simp add: starts_with_def)
qed

lemma slice_eq_bytes:
  "slice_wf x \<Longrightarrow> slice_wf y \<Longrightarrow> slice_eq x y = Inr (slice_bytes x = slice_bytes y)"
  by (auto simp: slice_eq_def MemEqual_def memeq_block slice_wf_def slice_bytes_def
      dest!: arg_cong [where f = length])

text \<open>Comparison of a common part, then of the lengths, is the lexicographic order.\<close>

lemma block_cmp_min:
  "block_cmp xs ys = (let m = min (length xs) (length ys); r = block_cmp (take m xs) (take m ys) in
    if r \<noteq> 0 then r else if length xs < length ys then -1 else if length ys < length xs then 1 else 0)"
  by (induction xs ys rule: block_cmp.induct) (auto simp: Let_def)

lemma slice_compare_sgn:
  assumes "slice_wf a" "slice_wf b" "slice_size a < 2 ^ 31" "slice_size b < 2 ^ 31"
  shows "map_sum id sgn (slice_compare a b) = Inr (block_cmp (slice_bytes a) (slice_bytes b))"
proof -
  let ?m = "min (slice_size a) (slice_size b)"
  have m: "nat (wrap32 (int ?m) mod 2 ^ 64) = ?m"
    using assms(3,4) by (simp add: wrap32_def min_def)
  have "?m \<le> length (slice_data a)" "?m \<le> length (slice_data b)"
    using assms(1,2) by (auto simp: slice_wf_def)
  then obtain r where r: "fastmemcmp_inlined (slice_data a) (slice_data b) ?m = Inr r"
    "sgn r = block_cmp (take ?m (slice_data a)) (take ?m (slice_data b))"
    using fastmemcmp_block [of ?m "slice_data a" "slice_data b"]
    by (cases "fastmemcmp_inlined (slice_data a) (slice_data b) ?m") auto
  have t: "take ?m (slice_bytes s) = take ?m (slice_data s)" if "s = a \<or> s = b" for s
    using that by (auto simp: slice_bytes_def min_def)
  have i: "(if slice_size a < slice_size b then slice_size a else slice_size b) = ?m" by simp
  have z: "r = 0 \<longleftrightarrow> sgn r = 0" by (simp add: sgn_if)
  show ?thesis
    unfolding slice_compare_def i Let_def m MemCompare_def r(1)
    using assms(1,2) r(2) z t [of a] t [of b]
    by (subst block_cmp_min) (auto simp: Let_def)
qed

section \<open>The debug form\<close>

definition width :: "byte \<Rightarrow> nat" where
  "width b = (if isgraph b then 1 else 4)"

lemma wrap32_id: "- (2 ^ 31) \<le> x \<Longrightarrow> x < 2 ^ 31 \<Longrightarrow> wrap32 x = x"
  by (simp add: wrap32_def)

lemma debug_size_sum:
  "0 \<le> sz \<Longrightarrow> sz + int (sum_list (map width bs)) < 2 ^ 31 \<Longrightarrow>
    debug_size bs sz = sz + int (sum_list (map width bs))"
  by (induction bs sz rule: debug_size.induct) (auto simp: width_def wrap32_id)

lemma length_debug_bytes: "length (debug_bytes bs ret) = length ret + sum_list (map width bs)"
  by (induction bs ret rule: debug_bytes.induct) (auto simp: width_def)

lemma hex2_graph: "list_all (\<lambda>n. list_all isgraph (hex2 (word_of_nat n))) [0..<256]"
  by code_simp

lemma isgraph_hex2: "list_all isgraph (hex2 b)"
proof -
  have "unat b < 2 ^ LENGTH(8)" by (rule unsigned_less)
  then have "unat b \<in> set [0..<256]" by simp
  with hex2_graph have "list_all isgraph (hex2 (word_of_nat (unat b)))"
    unfolding list_all_iff by blast
  then show ?thesis by simp
qed

lemma isgraph_escape: "isgraph 92" "isgraph 120"
  by (simp_all add: isgraph_def)

lemma debug_bytes_graph:
  "list_all isgraph ret \<Longrightarrow> list_all isgraph (debug_bytes bs ret)"
proof (induction bs ret rule: debug_bytes.induct)
  case (2 b bs ret)
  then show ?case
    using isgraph_hex2 [of b] by (cases "isgraph b") (simp_all add: isgraph_escape)
qed simp

section \<open>Properties\<close>

text \<open>
  Slices compare by content.  For slices within their buffers and below 2 GiB nothing is
  read outside the slices, the order of \<^verbatim>\<open>Comparator\<close>, which keys the maps over slices, is
  the lexicographic order of the bytes, and \<^verbatim>\<open>compare\<close> returns 0 exactly for the slices
  that \<^verbatim>\<open>==\<close> takes to be equal.
\<close>

theorem slice_compare_content:
  assumes "slice_wf a" "slice_wf b" "slice_size a < 2 ^ 31" "slice_size b < 2 ^ 31"
  shows "Comparator a b = Inr (ord_class.lexordp (slice_bytes a) (slice_bytes b))
    \<and> map_sum id (\<lambda>r. r = 0) (slice_compare a b) = slice_eq a b"
proof -
  obtain r where r: "slice_compare a b = Inr r" "sgn r = block_cmp (slice_bytes a) (slice_bytes b)"
    using slice_compare_sgn [OF assms] by (cases "slice_compare a b") auto
  have "r < 0 \<longleftrightarrow> sgn r < 0" "r = 0 \<longleftrightarrow> sgn r = 0" by (auto simp: sgn_if)
  then show ?thesis
    using r assms(1,2)
    by (simp add: Comparator_def slice_eq_bytes block_cmp_0_iff block_cmp_lexordp)
qed

lemma slice_compare_content_witness:
  "Comparator (slice_of_string (str ''ab'')) (slice_of_string (str ''abc''))
      = Inr (ord_class.lexordp (slice_bytes (slice_of_string (str ''ab''))) (slice_bytes (slice_of_string (str ''abc''))))
    \<and> map_sum id (\<lambda>r. r = 0) (slice_compare (slice_of_string (str ''ab'')) (slice_of_string (str ''abc'')))
      = slice_eq (slice_of_string (str ''ab'')) (slice_of_string (str ''abc''))"
  by (rule slice_compare_content) (simp_all add: slice_wf_def slice_of_string_def slice_of_def)

text \<open>
  The first loop of \<^verbatim>\<open>ToDebugString\<close> reserves exactly the bytes the second one writes, and
  what it writes is printable, for a slice printed in full whose form stays below 2 GiB.
\<close>

theorem ToDebugString_reserved:
  assumes "slice_wf s" "4 * slice_size s < 2 ^ 31"
  shows "\<exists>ret. ToDebugString s 0 = Inr (int (length ret), ret) \<and> list_all isgraph ret"
proof -
  have w: "sum_list (map width bs) \<le> 4 * length bs" for bs
    by (induction bs) (auto simp: width_def)
  have "sum_list (map width (slice_bytes s)) < 2 ^ 31"
    using w [of "slice_bytes s"] assms by simp
  then have "debug_size (slice_bytes s) 0 = int (length (debug_bytes (slice_bytes s) []))"
    by (simp add: debug_size_sum length_debug_bytes)
  moreover have "list_all isgraph (debug_bytes (slice_bytes s) [])"
    by (rule debug_bytes_graph) simp
  ultimately show ?thesis
    using assms(1) by (auto simp: ToDebugString_def Let_def slice_wf_def slice_bytes_def)
qed

lemma ToDebugString_reserved_witness:
  "\<exists>ret. ToDebugString (slice_of_string [0, 65, 255]) 0 = Inr (int (length ret), ret) \<and> list_all isgraph ret"
  by (rule ToDebugString_reserved) (simp_all add: slice_wf_def slice_of_string_def slice_of_def)

text \<open>
  At 4 GiB the length passed through \<^verbatim>\<open>int\<close> becomes 0 and nothing is compared.
\<close>

lemma slice_compare_wraps:
  "slice_size a = 2 ^ 32 \<Longrightarrow> slice_size b = 2 ^ 32 \<Longrightarrow> slice_compare a b = Inr 0"
  by (simp add: slice_compare_def wrap32_def MemCompare_def fastmemcmp_inlined_def skip32_def)

end
