(* ===== verification/StatusCode.thy ===== *)
theory StatusCode
  imports SliceView
begin

text \<open>
  The outcome of an operation, \<^verbatim>\<open>base/status.h\<close> and \<^verbatim>\<open>base/status.cc\<close>.  A status is a
  pointer: null for success, otherwise to an array of four bytes for the length of the
  message, one for the code, two for a POSIX code, and the message.  The model keeps the
  array and the 32-bit arithmetic of its size.  Every byte of a new array is written before
  it is read, so the model starts from zeros.  \<open>view\<close> is the abstract outcome a
  status stands for, and the lemmas show that every operation computes on it.
  The two functions that ask the allocator for the size of a block are left out.
\<close>

section \<open>Codes\<close>

datatype Code = kOk | kNotFound | kCorruption | kNotSupported | kInvalidArgument | kIOError
  | kAlreadyPresent | kRuntimeError | kNetworkError | kIllegalState | kNotAuthorized | kAborted | kRemoteError
  | kServiceUnavailable | kTimedOut | kUninitialized | kConfigurationError | kIncomplete | kEndOfFile

text \<open>The enumerators in the order of their values.\<close>

definition Codes :: "Code list" where
  "Codes = [kOk, kNotFound, kCorruption, kNotSupported, kInvalidArgument, kIOError, kAlreadyPresent,
    kRuntimeError, kNetworkError, kIllegalState, kNotAuthorized, kAborted, kRemoteError,
    kServiceUnavailable, kTimedOut, kUninitialized, kConfigurationError, kIncomplete, kEndOfFile]"

fun Code_value :: "Code \<Rightarrow> byte" where
  "Code_value kOk = 0"
| "Code_value kNotFound = 1"
| "Code_value kCorruption = 2"
| "Code_value kNotSupported = 3"
| "Code_value kInvalidArgument = 4"
| "Code_value kIOError = 5"
| "Code_value kAlreadyPresent = 6"
| "Code_value kRuntimeError = 7"
| "Code_value kNetworkError = 8"
| "Code_value kIllegalState = 9"
| "Code_value kNotAuthorized = 10"
| "Code_value kAborted = 11"
| "Code_value kRemoteError = 12"
| "Code_value kServiceUnavailable = 13"
| "Code_value kTimedOut = 14"
| "Code_value kUninitialized = 15"
| "Code_value kConfigurationError = 16"
| "Code_value kIncomplete = 17"
| "Code_value kEndOfFile = 18"

definition Code_of :: "byte \<Rightarrow> fault + Code" where
  "Code_of b = (if unat b < length Codes then Inr (Codes ! unat b) else Inl Unreachable)"

section \<open>Machine values as bytes\<close>

text \<open>The \<open>n\<close> little-endian bytes of a number.\<close>

fun le_bytes :: "nat \<Rightarrow> int \<Rightarrow> bytes" where
  "le_bytes 0 k = []"
| "le_bytes (Suc n) k = word_of_int k # le_bytes n (k div 256)"

definition wrap16 :: "int \<Rightarrow> int" where
  "wrap16 x = (x + 2 ^ 15) mod 2 ^ 16 - 2 ^ 15"

text \<open>Writing a block into an array.\<close>

definition write_at :: "bytes \<Rightarrow> nat \<Rightarrow> bytes \<Rightarrow> fault + bytes" where
  "write_at a off bs =
    (if off + length bs \<le> length a then Inr (take off a @ bs @ drop (off + length bs) a)
     else Inl OutOfBounds)"

definition read_at :: "bytes \<Rightarrow> nat \<Rightarrow> nat \<Rightarrow> fault + bytes" where
  "read_at a off n =
    (if off + n \<le> length a then Inr (take n (drop off a)) else Inl OutOfBounds)"

section \<open>The object\<close>

datatype Status = Status (state: "bytes option")

definition status_OK :: Status where "status_OK = Status None"

definition ok :: "Status \<Rightarrow> bool" where "ok s \<longleftrightarrow> state s = None"

definition status_make :: "Code \<Rightarrow> Slice \<Rightarrow> Slice \<Rightarrow> int \<Rightarrow> fault + Status" where
  "status_make c msg msg2 posix_code =
    (if \<not> c \<noteq> kOk then Inl CheckFailed
     else
       let len1 = word_of_nat (slice_size msg) :: u32;
           len2 = word_of_nat (slice_size msg2) :: u32;
           sz = len1 + (if len2 \<noteq> 0 then 2 + len2 else 0);
           result = replicate (unat (sz + 7)) 0
       in
       bindE (write_at result 0 (le_bytes 4 (uint sz))) (\<lambda>result.
       bindE (write_at result 4 [Code_value c]) (\<lambda>result.
       bindE (write_at result 5 (le_bytes 2 posix_code)) (\<lambda>result.
       bindE (read_at (slice_data msg) 0 (unat len1)) (\<lambda>m1.
       bindE (write_at result 7 m1) (\<lambda>result.
       if len2 \<noteq> 0 then
         bindE (write_at result (unat (7 + len1)) (str '':'')) (\<lambda>result.
         bindE (write_at result (unat (8 + len1)) (str '' '')) (\<lambda>result.
         bindE (read_at (slice_data msg2) 0 (unat len2)) (\<lambda>m2.
         bindE (write_at result (unat (9 + len1)) m2) (\<lambda>result.
         Inr (Status (Some result))))))
       else Inr (Status (Some result))))))))"

definition code :: "Status \<Rightarrow> fault + Code" where
  "code s = (case state s of None \<Rightarrow> Inr kOk
     | Some a \<Rightarrow> bindE (read_at a 4 1) (\<lambda>b. Code_of (hd b)))"

definition message :: "Status \<Rightarrow> fault + Slice" where
  "message s = (case state s of None \<Rightarrow> Inr slice_empty
     | Some a \<Rightarrow> bindE (read_at a 0 4) (\<lambda>l. Inr (slice_of (drop 7 a) (nat (le_value l)))))"

definition posix_code :: "Status \<Rightarrow> fault + int" where
  "posix_code s = (case state s of None \<Rightarrow> Inr 0
     | Some a \<Rightarrow> bindE (read_at a 5 2) (\<lambda>l. Inr (wrap16 (le_value l))))"

definition CopyState :: "bytes \<Rightarrow> fault + bytes" where
  "CopyState st =
    bindE (read_at st 0 4) (\<lambda>l.
    let sz = word_of_int (le_value l) :: u32 in
    bindE (read_at st 0 (unat (sz + 7))) (\<lambda>b. write_at (replicate (unat (sz + 7)) 0) 0 b))"

definition status_copy :: "Status \<Rightarrow> fault + Status" where
  "status_copy s = (case state s of None \<Rightarrow> Inr (Status None)
     | Some a \<Rightarrow> map_sum id (\<lambda>b. Status (Some b)) (CopyState a))"

text \<open>
  Assignment compares the two pointers; \<open>alias\<close> says whether both objects are the same,
  and two null pointers are equal as well.
\<close>

definition same_state :: "bool \<Rightarrow> Status \<Rightarrow> Status \<Rightarrow> bool" where
  "same_state alias this s \<longleftrightarrow> alias \<or> state this = None \<and> state s = None"

definition status_assign :: "bool \<Rightarrow> Status \<Rightarrow> Status \<Rightarrow> fault + Status" where
  "status_assign alias this s = (if same_state alias this s then Inr this else status_copy s)"

text \<open>The results are the new object and what is left of the old one.\<close>

definition status_move :: "Status \<Rightarrow> Status \<times> Status" where
  "status_move s = (s, Status None)"

definition status_move_assign :: "bool \<Rightarrow> Status \<Rightarrow> Status \<Rightarrow> Status \<times> Status" where
  "status_move_assign alias this s =
    (if same_state alias this s then (this, s) else (s, Status None))"

fun Code_name :: "Code \<Rightarrow> bytes" where
  "Code_name kOk = str ''OK''"
| "Code_name kNotFound = str ''Not found''"
| "Code_name kCorruption = str ''Corruption''"
| "Code_name kNotSupported = str ''Not implemented''"
| "Code_name kInvalidArgument = str ''Invalid argument''"
| "Code_name kIOError = str ''IO error''"
| "Code_name kAlreadyPresent = str ''Already present''"
| "Code_name kRuntimeError = str ''Runtime error''"
| "Code_name kNetworkError = str ''Network error''"
| "Code_name kIllegalState = str ''Illegal state''"
| "Code_name kNotAuthorized = str ''Not authorized''"
| "Code_name kAborted = str ''Aborted''"
| "Code_name kRemoteError = str ''Remote error''"
| "Code_name kServiceUnavailable = str ''Service unavailable''"
| "Code_name kTimedOut = str ''Timed out''"
| "Code_name kUninitialized = str ''Uninitialized''"
| "Code_name kConfigurationError = str ''Configuration error''"
| "Code_name kIncomplete = str ''Incomplete''"
| "Code_name kEndOfFile = str ''End of file''"

definition CodeAsString :: "Status \<Rightarrow> fault + bytes" where
  "CodeAsString s = (if state s = None then Inr (str ''OK'') else map_sum id Code_name (code s))"

definition status_ToString :: "Status \<Rightarrow> fault + bytes" where
  "status_ToString s =
    bindE (CodeAsString s) (\<lambda>result.
    if state s = None then Inr result
    else
      bindE (message s) (\<lambda>msg. bindE (slice_ToString msg) (\<lambda>m.
      bindE (posix_code s) (\<lambda>posix.
      let result = result @ str '': '' @ m in
      Inr (if posix \<noteq> -1 then result @ str '' (error '' @ dec_int posix @ str '')'' else result)))))"

definition CloneAndPrepend :: "Status \<Rightarrow> Slice \<Rightarrow> fault + Status" where
  "CloneAndPrepend s msg =
    bindE (code s) (\<lambda>c. bindE (message s) (\<lambda>m. bindE (posix_code s) (\<lambda>p.
    status_make c msg m p)))"

definition CloneAndAppend :: "Status \<Rightarrow> Slice \<Rightarrow> fault + Status" where
  "CloneAndAppend s msg =
    bindE (code s) (\<lambda>c. bindE (message s) (\<lambda>m. bindE (posix_code s) (\<lambda>p.
    status_make c m msg p)))"

section \<open>Factories and tests\<close>

text \<open>
  The arguments are those of the code; \<open>Incomplete\<close> and \<open>EndOfFile\<close> take a 64-bit
  POSIX code, which the constructor narrows.
\<close>

definition NotFound :: "Slice \<Rightarrow> Slice \<Rightarrow> int \<Rightarrow> fault + Status" where
  "NotFound msg msg2 p = status_make kNotFound msg msg2 p"

definition Corruption :: "Slice \<Rightarrow> Slice \<Rightarrow> int \<Rightarrow> fault + Status" where
  "Corruption msg msg2 p = status_make kCorruption msg msg2 p"

definition NotSupported :: "Slice \<Rightarrow> Slice \<Rightarrow> int \<Rightarrow> fault + Status" where
  "NotSupported msg msg2 p = status_make kNotSupported msg msg2 p"

definition InvalidArgument :: "Slice \<Rightarrow> Slice \<Rightarrow> int \<Rightarrow> fault + Status" where
  "InvalidArgument msg msg2 p = status_make kInvalidArgument msg msg2 p"

definition IOError :: "Slice \<Rightarrow> Slice \<Rightarrow> int \<Rightarrow> fault + Status" where
  "IOError msg msg2 p = status_make kIOError msg msg2 p"

definition AlreadyPresent :: "Slice \<Rightarrow> Slice \<Rightarrow> int \<Rightarrow> fault + Status" where
  "AlreadyPresent msg msg2 p = status_make kAlreadyPresent msg msg2 p"

definition RuntimeError :: "Slice \<Rightarrow> Slice \<Rightarrow> int \<Rightarrow> fault + Status" where
  "RuntimeError msg msg2 p = status_make kRuntimeError msg msg2 p"

definition NetworkError :: "Slice \<Rightarrow> Slice \<Rightarrow> int \<Rightarrow> fault + Status" where
  "NetworkError msg msg2 p = status_make kNetworkError msg msg2 p"

definition IllegalState :: "Slice \<Rightarrow> Slice \<Rightarrow> int \<Rightarrow> fault + Status" where
  "IllegalState msg msg2 p = status_make kIllegalState msg msg2 p"

definition NotAuthorized :: "Slice \<Rightarrow> Slice \<Rightarrow> int \<Rightarrow> fault + Status" where
  "NotAuthorized msg msg2 p = status_make kNotAuthorized msg msg2 p"

definition Aborted :: "Slice \<Rightarrow> Slice \<Rightarrow> int \<Rightarrow> fault + Status" where
  "Aborted msg msg2 p = status_make kAborted msg msg2 p"

definition RemoteError :: "Slice \<Rightarrow> Slice \<Rightarrow> int \<Rightarrow> fault + Status" where
  "RemoteError msg msg2 p = status_make kRemoteError msg msg2 p"

definition ServiceUnavailable :: "Slice \<Rightarrow> Slice \<Rightarrow> int \<Rightarrow> fault + Status" where
  "ServiceUnavailable msg msg2 p = status_make kServiceUnavailable msg msg2 p"

definition TimedOut :: "Slice \<Rightarrow> Slice \<Rightarrow> int \<Rightarrow> fault + Status" where
  "TimedOut msg msg2 p = status_make kTimedOut msg msg2 p"

definition Uninitialized :: "Slice \<Rightarrow> Slice \<Rightarrow> int \<Rightarrow> fault + Status" where
  "Uninitialized msg msg2 p = status_make kUninitialized msg msg2 p"

definition ConfigurationError :: "Slice \<Rightarrow> Slice \<Rightarrow> int \<Rightarrow> fault + Status" where
  "ConfigurationError msg msg2 p = status_make kConfigurationError msg msg2 p"

definition Incomplete :: "Slice \<Rightarrow> Slice \<Rightarrow> int \<Rightarrow> fault + Status" where
  "Incomplete msg msg2 p = status_make kIncomplete msg msg2 (wrap16 p)"

definition EndOfFile :: "Slice \<Rightarrow> Slice \<Rightarrow> int \<Rightarrow> fault + Status" where
  "EndOfFile msg msg2 p = status_make kEndOfFile msg msg2 (wrap16 p)"

definition IsNotFound :: "Status \<Rightarrow> fault + bool" where
  "IsNotFound s = map_sum id (\<lambda>c. c = kNotFound) (code s)"

definition IsCorruption :: "Status \<Rightarrow> fault + bool" where
  "IsCorruption s = map_sum id (\<lambda>c. c = kCorruption) (code s)"

definition IsNotSupported :: "Status \<Rightarrow> fault + bool" where
  "IsNotSupported s = map_sum id (\<lambda>c. c = kNotSupported) (code s)"

definition IsInvalidArgument :: "Status \<Rightarrow> fault + bool" where
  "IsInvalidArgument s = map_sum id (\<lambda>c. c = kInvalidArgument) (code s)"

definition IsIOError :: "Status \<Rightarrow> fault + bool" where
  "IsIOError s = map_sum id (\<lambda>c. c = kIOError) (code s)"

definition IsAlreadyPresent :: "Status \<Rightarrow> fault + bool" where
  "IsAlreadyPresent s = map_sum id (\<lambda>c. c = kAlreadyPresent) (code s)"

definition IsRuntimeError :: "Status \<Rightarrow> fault + bool" where
  "IsRuntimeError s = map_sum id (\<lambda>c. c = kRuntimeError) (code s)"

definition IsNetworkError :: "Status \<Rightarrow> fault + bool" where
  "IsNetworkError s = map_sum id (\<lambda>c. c = kNetworkError) (code s)"

definition IsIllegalState :: "Status \<Rightarrow> fault + bool" where
  "IsIllegalState s = map_sum id (\<lambda>c. c = kIllegalState) (code s)"

definition IsNotAuthorized :: "Status \<Rightarrow> fault + bool" where
  "IsNotAuthorized s = map_sum id (\<lambda>c. c = kNotAuthorized) (code s)"

definition IsAborted :: "Status \<Rightarrow> fault + bool" where
  "IsAborted s = map_sum id (\<lambda>c. c = kAborted) (code s)"

definition IsRemoteError :: "Status \<Rightarrow> fault + bool" where
  "IsRemoteError s = map_sum id (\<lambda>c. c = kRemoteError) (code s)"

definition IsServiceUnavailable :: "Status \<Rightarrow> fault + bool" where
  "IsServiceUnavailable s = map_sum id (\<lambda>c. c = kServiceUnavailable) (code s)"

definition IsTimedOut :: "Status \<Rightarrow> fault + bool" where
  "IsTimedOut s = map_sum id (\<lambda>c. c = kTimedOut) (code s)"

definition IsUninitialized :: "Status \<Rightarrow> fault + bool" where
  "IsUninitialized s = map_sum id (\<lambda>c. c = kUninitialized) (code s)"

definition IsConfigurationError :: "Status \<Rightarrow> fault + bool" where
  "IsConfigurationError s = map_sum id (\<lambda>c. c = kConfigurationError) (code s)"

definition IsIncomplete :: "Status \<Rightarrow> fault + bool" where
  "IsIncomplete s = map_sum id (\<lambda>c. c = kIncomplete) (code s)"

definition IsEndOfFile :: "Status \<Rightarrow> fault + bool" where
  "IsEndOfFile s = map_sum id (\<lambda>c. c = kEndOfFile) (code s)"

section \<open>The control-flow macros\<close>

text \<open>What follows the macro in the function is the argument \<open>k\<close>.\<close>

definition RETURN_NOT_OK :: "Status \<Rightarrow> (unit \<Rightarrow> fault + Status) \<Rightarrow> fault + Status" where
  "RETURN_NOT_OK s k = (if \<not> ok s then Inr s else k ())"

definition RETURN_NOT_OK_PREPEND ::
    "Status \<Rightarrow> Slice \<Rightarrow> (unit \<Rightarrow> fault + Status) \<Rightarrow> fault + Status" where
  "RETURN_NOT_OK_PREPEND s msg k = (if \<not> ok s then CloneAndPrepend s msg else k ())"

definition CHECK_OK :: "Status \<Rightarrow> fault + unit" where
  "CHECK_OK s = (if ok s then Inr () else Inl CheckFailed)"

section \<open>The outcome a status stands for\<close>

datatype outcome = Success | Failure Code bytes int

definition layout :: "Code \<Rightarrow> bytes \<Rightarrow> int \<Rightarrow> bytes" where
  "layout c m p = le_bytes 4 (int (length m)) @ Code_value c # le_bytes 2 p @ m"

fun repr :: "outcome \<Rightarrow> Status" where
  "repr Success = Status None"
| "repr (Failure c m p) = Status (Some (layout c m p))"

fun good_outcome :: "outcome \<Rightarrow> bool" where
  "good_outcome Success \<longleftrightarrow> True"
| "good_outcome (Failure c m p) \<longleftrightarrow>
    c \<noteq> kOk \<and> length m + 7 < 2 ^ 32 \<and> - (2 ^ 15) \<le> p \<and> p < 2 ^ 15"

lemma length_le_bytes [simp]: "length (le_bytes n k) = n"
  by (induction n k rule: le_bytes.induct) simp_all

lemma le_value_Cons: "le_value (b # bs) = uint b + 256 * le_value bs"
  by (simp add: le_value_def)

lemma le_value_le_bytes: "le_value (le_bytes n k) = k mod 256 ^ n"
proof (induction n k rule: le_bytes.induct)
  case (2 n k)
  have "uint (word_of_int k :: byte) = k mod 256" by (simp add: uint_word_of_int)
  then have "le_value (le_bytes (Suc n) k) = k mod 256 + 256 * (k div 256 mod 256 ^ n)"
    using 2 by (simp add: le_value_Cons)
  then show ?case by (simp add: zmod_zmult2_eq add.commute)
qed (simp add: le_value_def)

lemma Code_of_Code_value [simp]: "Code_of (Code_value c) = Inr c"
  by (cases c) (simp_all add: Code_of_def Codes_def)

lemma wrap16_range: "- (2 ^ 15) \<le> wrap16 p \<and> wrap16 p < 2 ^ 15"
  using pos_mod_bound [of "2 ^ 16" "p + 2 ^ 15"] pos_mod_sign [of "2 ^ 16" "p + 2 ^ 15"]
  unfolding wrap16_def by (simp del: pos_mod_bound pos_mod_sign)

lemma wrap16_id: "- (2 ^ 15) \<le> p \<Longrightarrow> p < 2 ^ 15 \<Longrightarrow> wrap16 p = p"
  by (simp add: wrap16_def)

lemma wrap16_mod: "wrap16 (p mod 65536) = wrap16 p"
  by (simp add: wrap16_def mod_add_left_eq)

lemma le_bytes_mod: "le_bytes n (k mod 256 ^ n) = le_bytes n k"
  by (rule le_value_inj) (simp_all add: le_value_le_bytes)

lemma le_bytes_2_wrap16: "le_bytes 2 (wrap16 p) = le_bytes 2 p"
proof (rule le_value_inj)
  obtain q where q: "(p + 2 ^ 15) div 2 ^ 16 = q" by blast
  have "wrap16 p = p + (- q) * 2 ^ 16"
    unfolding wrap16_def minus_div_mult_eq_mod [symmetric] q by simp
  then have "wrap16 p mod 2 ^ 16 = p mod 2 ^ 16" by (simp only: mod_mult_self1)
  then show "le_value (le_bytes 2 (wrap16 p)) = le_value (le_bytes 2 p)"
    by (simp add: le_value_le_bytes)
qed simp

lemma layout_parts:
  "take 4 (layout c m p) = le_bytes 4 (int (length m))"
  "drop 4 (layout c m p) = Code_value c # le_bytes 2 p @ m"
  "drop 5 (layout c m p) = le_bytes 2 p @ m"
  "drop 7 (layout c m p) = m"
  "length (layout c m p) = 7 + length m"
  by (simp_all add: layout_def)

lemma code_repr [simp]: "code (repr (Failure c m p)) = Inr c" "code (repr Success) = Inr kOk"
  by (simp_all add: code_def read_at_def layout_parts)

lemma posix_code_repr [simp]:
  "posix_code (repr (Failure c m p)) = Inr (wrap16 p)" "posix_code (repr Success) = Inr 0"
  by (simp_all add: posix_code_def read_at_def layout_parts le_value_le_bytes wrap16_mod)

lemma message_repr [simp]:
  "length m < 2 ^ 32 \<Longrightarrow> message (repr (Failure c m p)) = Inr (slice_of m (length m))"
  "message (repr Success) = Inr slice_empty"
  by (simp_all add: message_def read_at_def layout_parts le_value_le_bytes)

lemma unat_word_of_nat_32: "n < 2 ^ 32 \<Longrightarrow> unat (word_of_nat n :: u32) = n"
  by (simp add: unat_of_nat take_bit_nat_eq_self)

lemma CopyState_layout:
  assumes "length m + 7 < 2 ^ 32"
  shows "CopyState (layout c m p) = Inr (layout c m p)"
proof -
  have "le_value (le_bytes 4 (int (length m))) = int (length m)"
    using assms by (simp add: le_value_le_bytes)
  moreover have "unat (word_of_int (int (length m)) + 7 :: u32) = 7 + length m"
  proof -
    have "word_of_int (int (length m)) + 7 = (word_of_nat (length m + 7) :: u32)" by simp
    then show ?thesis using unat_word_of_nat_32 [OF assms] by (metis add.commute)
  qed
  ultimately show ?thesis
    by (simp add: CopyState_def read_at_def write_at_def layout_parts Let_def)
qed

section \<open>The operations on outcomes\<close>

definition join :: "bytes \<Rightarrow> bytes \<Rightarrow> bytes" where
  "join m m2 = (if m2 = [] then m else m @ str '': '' @ m2)"

lemma write_at_zeros:
  "off = length a \<Longrightarrow> length bs \<le> k \<Longrightarrow>
    write_at (a @ replicate k 0) off bs = Inr ((a @ bs) @ replicate (k - length bs) 0)"
  by (simp add: write_at_def)

lemma status_make_repr:
  assumes "c \<noteq> kOk" "slice_wf msg" "slice_wf msg2" "slice_size msg + slice_size msg2 + 9 < 2 ^ 32"
  shows "status_make c msg msg2 p =
    Inr (repr (Failure c (join (slice_bytes msg) (slice_bytes msg2)) p))"
proof -
  define n1 n2 where "n1 = slice_size msg" and "n2 = slice_size msg2"
  define m1 m2 where "m1 = slice_bytes msg" and "m2 = slice_bytes msg2"
  have len: "length m1 = n1" "length m2 = n2"
    using assms(2,3) by (simp_all add: m1_def m2_def n1_def n2_def)
  have small: "n1 + n2 + 9 < 2 ^ 32" using assms(4) by (simp add: n1_def n2_def)
  have u1: "unat (word_of_nat n1 :: u32) = n1" "unat (word_of_nat n2 :: u32) = n2"
    using small by (auto intro: unat_word_of_nat_32)
  have z: "(word_of_nat n2 :: u32) = 0 \<longleftrightarrow> n2 = 0"
  proof
    assume "(word_of_nat n2 :: u32) = 0"
    then have "unat (word_of_nat n2 :: u32) = 0" by (simp only: unat_0)
    then show "n2 = 0" unfolding u1(2) .
  qed simp
  have r: "read_at (slice_data msg) 0 n1 = Inr m1" "read_at (slice_data msg2) 0 n2 = Inr m2"
    using assms(2,3) by (simp_all add: read_at_def slice_wf_def n1_def n2_def m1_def m2_def slice_bytes_def)
  define n where "n = length (join m1 m2)"
  have n: "n = n1 + (if n2 \<noteq> 0 then 2 + n2 else 0)"
    using len by (auto simp: n_def join_def str_def)
  define sz where "sz = (word_of_nat n1 :: u32) + (if (word_of_nat n2 :: u32) \<noteq> 0 then 2 + word_of_nat n2 else 0)"
  have sz: "sz = word_of_nat n" by (simp add: sz_def n z)
  have u2: "unat (sz + 7) = n + 7" "uint sz = int n"
  proof -
    have "sz + 7 = word_of_nat (n + 7)" by (simp add: sz)
    moreover have "n + 7 < 2 ^ 32" using small n by auto
    ultimately show "unat (sz + 7) = n + 7" by (metis unat_word_of_nat_32)
    have "unat sz = n" unfolding sz by (rule unat_word_of_nat_32) (use small n in auto)
    then show "uint sz = int n" by (metis uint_nat)
  qed
  have off: "unat (7 + word_of_nat n1 :: u32) = 7 + n1" "unat (8 + word_of_nat n1 :: u32) = 8 + n1"
    "unat (9 + word_of_nat n1 :: u32) = 9 + n1"
  proof -
    have "unat (word_of_nat (k + n1) :: u32) = k + n1" if "k \<le> 9" for k
      by (rule unat_word_of_nat_32) (use that small in simp)
    then have "7 \<le> (9 :: nat) \<Longrightarrow> unat (7 + word_of_nat n1 :: u32) = 7 + n1"
      "8 \<le> (9 :: nat) \<Longrightarrow> unat (8 + word_of_nat n1 :: u32) = 8 + n1"
      "9 \<le> (9 :: nat) \<Longrightarrow> unat (9 + word_of_nat n1 :: u32) = 9 + n1"
      by (metis of_nat_add of_nat_numeral)+
    then show "unat (7 + word_of_nat n1 :: u32) = 7 + n1"
      "unat (8 + word_of_nat n1 :: u32) = 8 + n1" "unat (9 + word_of_nat n1 :: u32) = 9 + n1"
      by simp_all
  qed
  define h where "h = le_bytes 4 (int n) @ [Code_value c] @ le_bytes 2 p"
  have lh: "length h = 7" by (simp add: h_def)
  have w1: "write_at (replicate (n + 7) 0) 0 (le_bytes 4 (int n)) = Inr (le_bytes 4 (int n) @ replicate (n + 3) 0)"
    using write_at_zeros [of 0 "[]" "le_bytes 4 (int n)" "n + 7"] by simp
  have w2: "write_at (le_bytes 4 (int n) @ replicate (n + 3) 0) 4 [Code_value c]
      = Inr ((le_bytes 4 (int n) @ [Code_value c]) @ replicate (n + 2) 0)"
    by (subst write_at_zeros) simp_all
  have w3: "write_at ((le_bytes 4 (int n) @ [Code_value c]) @ replicate (n + 2) 0) 5 (le_bytes 2 p)
      = Inr (h @ replicate n 0)"
    by (subst write_at_zeros) (simp_all add: h_def)
  have w4: "write_at (h @ replicate n 0) 7 m1 = Inr ((h @ m1) @ replicate (n - n1) 0)"
    using lh len n by (subst write_at_zeros) simp_all
  have w5: "write_at ((h @ m1) @ replicate (n - n1) 0) (7 + n1) (str '':'')
      = Inr ((h @ m1 @ str '':'') @ replicate (n2 + 1) 0)" if "n2 \<noteq> 0"
    using lh len n that by (subst write_at_zeros) simp_all
  have w6: "write_at ((h @ m1 @ str '':'') @ replicate (n2 + 1) 0) (8 + n1) (str '' '')
      = Inr ((h @ m1 @ str '': '') @ replicate n2 0)"
    using lh len by (subst write_at_zeros) (simp_all add: str_def)
  have w7: "write_at ((h @ m1 @ str '': '') @ replicate n2 0) (9 + n1) m2
      = Inr ((h @ m1 @ str '': '' @ m2) @ replicate 0 0)"
    using lh len by (subst write_at_zeros) simp_all
  have j: "layout c (join m1 m2) p = h @ join m1 m2"
    by (simp add: layout_def n_def h_def)
  have e: "(m2 = []) = (n2 = 0)" using len by auto
  show ?thesis
    unfolding status_make_def Let_def n1_def [symmetric] n2_def [symmetric]
    unfolding sz_def [symmetric]
    unfolding u2 off u1 r w1 w2 w3 w4 bindE.simps m1_def [symmetric] m2_def [symmetric] repr.simps j z
    using assms(1) w5 w6 w7 n by (cases "n2 = 0") (simp_all add: join_def e)
qed

text \<open>The operations of the class on outcomes.\<close>

fun prepend_outcome :: "bytes \<Rightarrow> outcome \<Rightarrow> fault + outcome" where
  "prepend_outcome b Success = Inl CheckFailed"
| "prepend_outcome b (Failure c m p) = Inr (Failure c (join b m) p)"

fun append_outcome :: "bytes \<Rightarrow> outcome \<Rightarrow> fault + outcome" where
  "append_outcome b Success = Inl CheckFailed"
| "append_outcome b (Failure c m p) = Inr (Failure c (join m b) p)"

fun outcome_size :: "outcome \<Rightarrow> nat" where
  "outcome_size Success = 0"
| "outcome_size (Failure c m p) = length m"

lemma slice_of_wf [simp]: "slice_wf (slice_of m (length m))" "slice_bytes (slice_of m (length m)) = m"
  "slice_size (slice_of m n) = n"
  by (simp_all add: slice_wf_def slice_of_def slice_bytes_def)

lemma repr_make:
  assumes "c \<noteq> kOk" "slice_wf msg" "slice_wf msg2" "slice_size msg + slice_size msg2 + 9 < 2 ^ 32"
  shows "\<exists>s. status_make c msg msg2 p = Inr s \<and> \<not> ok s \<and> code s = Inr c \<and> posix_code s = Inr (wrap16 p)
    \<and> map_sum id slice_bytes (message s) = Inr (join (slice_bytes msg) (slice_bytes msg2))"
proof -
  have "length (join (slice_bytes msg) (slice_bytes msg2)) < 2 ^ 32"
    using assms(2-4) by (auto simp: join_def str_def)
  then show ?thesis
    using status_make_repr [OF assms] by (simp add: ok_def del: repr.simps) (simp add: layout_def)
qed

lemma clone_repr:
  assumes "good_outcome s" "slice_wf msg" "slice_size msg + outcome_size s + 9 < 2 ^ 32"
  shows "CloneAndPrepend (repr s) msg = map_sum id repr (prepend_outcome (slice_bytes msg) s)"
    and "CloneAndAppend (repr s) msg = map_sum id repr (append_outcome (slice_bytes msg) s)"
proof -
  have "CloneAndPrepend (repr s) msg = map_sum id repr (prepend_outcome (slice_bytes msg) s) \<and>
    CloneAndAppend (repr s) msg = map_sum id repr (append_outcome (slice_bytes msg) s)"
  proof (cases s)
    case Success
    then show ?thesis
      by (simp add: CloneAndPrepend_def CloneAndAppend_def status_make_def del: repr.simps)
  next
    case (Failure c m p)
    then have g: "c \<noteq> kOk" "length m < 2 ^ 32" "wrap16 p = p"
      using assms(1) by (auto intro: wrap16_id)
    show ?thesis
      using Failure g assms(2,3)
      by (simp add: CloneAndPrepend_def CloneAndAppend_def status_make_repr del: repr.simps)
  qed
  then show "CloneAndPrepend (repr s) msg = map_sum id repr (prepend_outcome (slice_bytes msg) s)"
    "CloneAndAppend (repr s) msg = map_sum id repr (append_outcome (slice_bytes msg) s)" by blast+
qed

lemma copy_repr: "good_outcome s \<Longrightarrow> status_copy (repr s) = Inr (repr s)"
  by (cases s) (simp_all add: status_copy_def CopyState_layout)

section \<open>Properties\<close>

text \<open>
  A failure built from a code, a message, an optional second message and a POSIX code
  gives all of them back: the code, the POSIX code narrowed to 16 bits, and the message
  followed by a colon and the second message when that is not empty.  No write leaves the
  array, for messages of less than 4 GiB together.
\<close>

theorem status_fields:
  assumes "c \<noteq> kOk" "slice_wf msg" "slice_wf msg2" "slice_size msg + slice_size msg2 + 9 < 2 ^ 32"
  shows "\<exists>s. status_make c msg msg2 p = Inr s \<and> \<not> ok s \<and> code s = Inr c \<and> posix_code s = Inr (wrap16 p)
    \<and> map_sum id slice_bytes (message s) = Inr (join (slice_bytes msg) (slice_bytes msg2))"
  using assms by (rule repr_make)

lemma status_fields_witness:
  "\<exists>s. status_make kIOError (slice_of_string (str ''a'')) (slice_of_string (str ''b'')) 70000 = Inr s
    \<and> \<not> ok s \<and> code s = Inr kIOError \<and> posix_code s = Inr (wrap16 70000)
    \<and> map_sum id slice_bytes (message s)
      = Inr (join (slice_bytes (slice_of_string (str ''a''))) (slice_bytes (slice_of_string (str ''b''))))"
  by (rule status_fields) (simp_all add: slice_wf_def slice_of_string_def slice_of_def)

text \<open>
  Cloning with another message is the operation on outcomes: the code and the POSIX code
  are kept, the message is put in front or behind with a colon, and cloning a success
  aborts.
\<close>

theorem clone_refines:
  assumes "good_outcome s" "slice_wf msg" "slice_size msg + outcome_size s + 9 < 2 ^ 32"
  shows "CloneAndPrepend (repr s) msg = map_sum id repr (prepend_outcome (slice_bytes msg) s)
    \<and> CloneAndAppend (repr s) msg = map_sum id repr (append_outcome (slice_bytes msg) s)"
  using clone_repr [OF assms] by blast

lemma clone_refines_witness:
  "CloneAndPrepend (repr (Failure kAborted [7] 3)) (slice_of_string [1, 2])
      = map_sum id repr (prepend_outcome (slice_bytes (slice_of_string [1, 2])) (Failure kAborted [7] 3))
    \<and> CloneAndAppend (repr (Failure kAborted [7] 3)) (slice_of_string [1, 2])
      = map_sum id repr (append_outcome (slice_bytes (slice_of_string [1, 2])) (Failure kAborted [7] 3))"
  by (rule clone_refines) (simp_all add: slice_wf_def slice_of_string_def slice_of_def)

text \<open>
  Copying, assigning and moving a status keep the outcome, whether or not the two
  objects are the same, and a moved-from status is a success.
\<close>

theorem status_copies:
  assumes "good_outcome s" "alias \<longrightarrow> t = s"
  shows "status_copy (repr s) = Inr (repr s) \<and> status_assign alias (repr t) (repr s) = Inr (repr s)
    \<and> fst (status_move_assign alias (repr t) (repr s)) = repr s
    \<and> (\<not> alias \<longrightarrow> ok (snd (status_move_assign alias (repr t) (repr s))))"
  using assms copy_repr [OF assms(1)]
  by (cases t; cases s)
    (auto simp: status_assign_def status_move_assign_def same_state_def ok_def)

lemma status_copies_witness:
  "status_copy (repr (Failure kTimedOut [65] (-1))) = Inr (repr (Failure kTimedOut [65] (-1)))
    \<and> status_assign False (repr Success) (repr (Failure kTimedOut [65] (-1))) = Inr (repr (Failure kTimedOut [65] (-1)))
    \<and> fst (status_move_assign False (repr Success) (repr (Failure kTimedOut [65] (-1)))) = repr (Failure kTimedOut [65] (-1))
    \<and> ok (snd (status_move_assign False (repr Success) (repr (Failure kTimedOut [65] (-1)))))"
  using status_copies [of "Failure kTimedOut [65] (-1)" False Success] by simp

text \<open>
  The POSIX code of a success is 0; the header promises -1 where there is none.
\<close>

lemma posix_code_of_success: "posix_code status_OK = Inr 0"
  by (simp add: posix_code_def status_OK_def)

end
