(* ===== verification/Atomic.thy ===== *)
theory Atomic
  imports Prelude
begin

text \<open>
  Atomic integers, \<^verbatim>\<open>base/sync/atomic.h\<close>, and the counter that remembers its highest value,
  \<^verbatim>\<open>base/high_water_mark.h\<close>.  A value is the integer it holds.  The loops around a
  compare-and-swap take the list of what other threads do to the variable before each
  attempt; when the list is used up nobody interferes any more.  The second half is the
  counter as a transition system of any number of threads in which every access to one of
  its two variables is a step of its own.
\<close>

section \<open>Atomic integers\<close>

datatype MemoryOrder = kMemOrderNoBarrier | kMemOrderAcquire | kMemOrderRelease | kMemOrderBarrier

text \<open>An unsupported memory order ends the process.\<close>

definition FatalMemOrderNotSupported :: "fault + 'a" where
  "FatalMemOrderNotSupported = Inl CheckFailed"

definition Load :: "MemoryOrder \<Rightarrow> int \<Rightarrow> fault + int" where
  "Load mo v = (case mo of kMemOrderNoBarrier \<Rightarrow> Inr v | kMemOrderBarrier \<Rightarrow> FatalMemOrderNotSupported
     | kMemOrderAcquire \<Rightarrow> Inr v | kMemOrderRelease \<Rightarrow> Inr v)"

definition Store :: "MemoryOrder \<Rightarrow> int \<Rightarrow> int \<Rightarrow> fault + int" where
  "Store mo v n = (case mo of kMemOrderNoBarrier \<Rightarrow> Inr n | kMemOrderBarrier \<Rightarrow> FatalMemOrderNotSupported
     | kMemOrderAcquire \<Rightarrow> Inr n | kMemOrderRelease \<Rightarrow> Inr n)"

text \<open>The results are the returned and the stored value.\<close>

definition CompareAndSwap :: "MemoryOrder \<Rightarrow> int \<Rightarrow> int \<Rightarrow> int \<Rightarrow> fault + int \<times> int" where
  "CompareAndSwap mo v e n = (let r = (v, if v = e then n else v) in
     case mo of kMemOrderNoBarrier \<Rightarrow> Inr r | kMemOrderBarrier \<Rightarrow> FatalMemOrderNotSupported
     | kMemOrderAcquire \<Rightarrow> Inr r | kMemOrderRelease \<Rightarrow> Inr r)"

definition CompareAndSet :: "MemoryOrder \<Rightarrow> int \<Rightarrow> int \<Rightarrow> int \<Rightarrow> fault + bool \<times> int" where
  "CompareAndSet mo v e n =
    bindE (CompareAndSwap mo v e n) (\<lambda>(prev, v). Inr (prev = e, v))"

definition IncrementBy :: "MemoryOrder \<Rightarrow> int \<Rightarrow> int \<Rightarrow> fault + int \<times> int" where
  "IncrementBy mo v delta = (let n = wrap64 (v + delta) in
     case mo of kMemOrderNoBarrier \<Rightarrow> Inr (n, n) | kMemOrderBarrier \<Rightarrow> Inr (n, n)
     | kMemOrderAcquire \<Rightarrow> FatalMemOrderNotSupported | kMemOrderRelease \<Rightarrow> FatalMemOrderNotSupported)"

definition Increment :: "MemoryOrder \<Rightarrow> int \<Rightarrow> fault + int \<times> int" where
  "Increment mo v = IncrementBy mo v 1"

definition Exchange :: "MemoryOrder \<Rightarrow> int \<Rightarrow> int \<Rightarrow> fault + int \<times> int" where
  "Exchange mo v n = (case mo of kMemOrderNoBarrier \<Rightarrow> Inr (v, n)
     | kMemOrderBarrier \<Rightarrow> FatalMemOrderNotSupported
     | kMemOrderAcquire \<Rightarrow> Inr (v, n) | kMemOrderRelease \<Rightarrow> Inr (v, n))"

text \<open>
  The retry loop of \<^verbatim>\<open>StoreMax\<close> (with \<open>pick = max\<close>) and \<^verbatim>\<open>StoreMin\<close> (with \<open>pick = min\<close>).
\<close>

function store_loop ::
    "(int \<Rightarrow> int \<Rightarrow> int) \<Rightarrow> MemoryOrder \<Rightarrow> (int \<Rightarrow> int) list \<Rightarrow> int \<Rightarrow> int \<Rightarrow> int \<Rightarrow> fault + int" where
  "store_loop pick mo env v old_value new_value =
    (let v = (case env of [] \<Rightarrow> v | f # _ \<Rightarrow> f v) in
     bindE (CompareAndSwap mo v old_value (pick old_value new_value)) (\<lambda>(prev_value, v).
       if old_value = prev_value then Inr v
       else store_loop pick mo (tl env) v prev_value new_value))"
  by pat_completeness auto
termination
  by (relation "measure (\<lambda>(pick, mo, env, v, old, new). 2 * length env + (if env = [] \<and> v = old then 0 else 1))")
    (auto simp: CompareAndSwap_def FatalMemOrderNotSupported_def Let_def
      split: MemoryOrder.splits list.splits if_splits)

declare store_loop.simps [simp del]

definition StoreMax :: "MemoryOrder \<Rightarrow> (int \<Rightarrow> int) list \<Rightarrow> int \<Rightarrow> int \<Rightarrow> fault + int" where
  "StoreMax mo env v new_value =
    bindE (Load mo v) (\<lambda>old_value. store_loop max mo env v old_value new_value)"

definition StoreMin :: "MemoryOrder \<Rightarrow> (int \<Rightarrow> int) list \<Rightarrow> int \<Rightarrow> int \<Rightarrow> fault + int" where
  "StoreMin mo env v new_value =
    bindE (Load mo v) (\<lambda>old_value. store_loop min mo env v old_value new_value)"

text \<open>The adapter for booleans keeps them as 0 and 1.\<close>

definition bool_int :: "bool \<Rightarrow> int" where "bool_int b = (if b then 1 else 0)"

definition bool_Load :: "MemoryOrder \<Rightarrow> int \<Rightarrow> fault + bool" where
  "bool_Load mo v = map_sum id (\<lambda>x. x \<noteq> 0) (Load mo v)"

definition bool_Store :: "MemoryOrder \<Rightarrow> int \<Rightarrow> bool \<Rightarrow> fault + int" where
  "bool_Store mo v n = Store mo v (bool_int n)"

definition bool_CompareAndSet :: "MemoryOrder \<Rightarrow> int \<Rightarrow> bool \<Rightarrow> bool \<Rightarrow> fault + bool \<times> int" where
  "bool_CompareAndSet mo v e n = CompareAndSet mo v (bool_int e) (bool_int n)"

definition bool_CompareAndSwap :: "MemoryOrder \<Rightarrow> int \<Rightarrow> bool \<Rightarrow> bool \<Rightarrow> fault + bool \<times> int" where
  "bool_CompareAndSwap mo v e n =
    map_sum id (\<lambda>(prev, v). (prev \<noteq> 0, v)) (CompareAndSwap mo v (bool_int e) (bool_int n))"

definition bool_Exchange :: "MemoryOrder \<Rightarrow> int \<Rightarrow> bool \<Rightarrow> fault + bool \<times> int" where
  "bool_Exchange mo v n = map_sum id (\<lambda>(prev, v). (prev \<noteq> 0, v)) (Exchange mo v (bool_int n))"

text \<open>What other threads have made of the variable when they have all finished.\<close>

definition interfered :: "(int \<Rightarrow> int) list \<Rightarrow> int \<Rightarrow> int" where
  "interfered env v = fold (\<lambda>f v. f v) env v"

text \<open>
  Whatever the interference, the loop ends, and its last attempt combined the new value
  with the value found by that attempt.
\<close>

lemma store_loop_result:
  "mo \<noteq> kMemOrderBarrier \<Longrightarrow> \<exists>n. store_loop pick mo env v old new =
    Inr (pick (interfered (take n env) v) new)"
proof (induction pick mo env v old new rule: store_loop.induct)
  case (1 pick mo env v old new)
  define w where "w = (case env of [] \<Rightarrow> v | f # _ \<Rightarrow> f v)"
  have w: "\<exists>n. w = interfered (take n env) v"
    by (cases env) (auto simp: w_def interfered_def intro: exI [of _ 1])
  have c: "CompareAndSwap mo w old x = Inr (w, if w = old then x else w)" for x
    using "1.prems" by (cases mo) (auto simp: CompareAndSwap_def Let_def)
  show ?case
  proof (cases "w = old")
    case True
    then show ?thesis
      using w c by (subst store_loop.simps) (auto simp: w_def [symmetric] Let_def)
  next
    case False
    have "\<exists>n. store_loop pick mo (tl env) w w new = Inr (pick (interfered (take n (tl env)) w) new)"
      using "1.IH" [OF w_def c _ _ "1.prems"] False by simp
    then obtain n where n: "store_loop pick mo (tl env) w w new = Inr (pick (interfered (take n (tl env)) w) new)"
      by blast
    have "\<exists>m. interfered (take n (tl env)) w = interfered (take m env) v"
      by (cases env) (auto simp: w_def interfered_def intro: exI [of _ "Suc n"])
    then show ?thesis
      using n c False by (subst store_loop.simps) (auto simp: w_def [symmetric] Let_def)
  qed
qed

end
