(* ===== verification/WaterMark.thy ===== *)
theory WaterMark
  imports Atomic
begin

text \<open>
  The counter that remembers its highest value, \<^verbatim>\<open>base/high_water_mark.h\<close>: first its
  operations as functions, with a list of what other threads do between the attempts of the
  compare-and-swap loop, then the counter shared by any number of threads as a transition
  system in which every access to one of the two atomic variables is a step.
\<close>

section \<open>Operations\<close>

record HighWaterMark =
  current_value :: int
  max_value :: int

definition hwm_new :: "int \<Rightarrow> HighWaterMark" where
  "hwm_new v = \<lparr>current_value = v, max_value = v\<rparr>"

definition UpdateMax :: "HighWaterMark \<Rightarrow> int \<Rightarrow> fault + HighWaterMark" where
  "UpdateMax h v =
    map_sum id (\<lambda>m. h\<lparr>max_value := m\<rparr>) (StoreMax kMemOrderNoBarrier [] (max_value h) v)"

function TryIncrementBy ::
    "(HighWaterMark \<Rightarrow> HighWaterMark) list \<Rightarrow> HighWaterMark \<Rightarrow> int \<Rightarrow> int \<Rightarrow> fault + bool \<times> HighWaterMark" where
  "TryIncrementBy env h delta mx =
    (let old_val = current_value h; new_val = wrap64 (old_val + delta) in
     if new_val > mx then Inr (False, h)
     else
       let h = (case env of [] \<Rightarrow> h | f # _ \<Rightarrow> f h) in
       bindE (CompareAndSet kMemOrderNoBarrier (current_value h) old_val new_val) (\<lambda>(swapped, v).
       let h = h\<lparr>current_value := v\<rparr> in
       if swapped then map_sum id (Pair True) (UpdateMax h new_val)
       else TryIncrementBy (tl env) h delta mx))"
  by pat_completeness auto
termination
  by (relation "measure (\<lambda>(env, h, delta, mx). length env)")
    (auto simp: CompareAndSet_def CompareAndSwap_def Let_def split: list.splits)

declare TryIncrementBy.simps [simp del]

definition hwm_IncrementBy :: "HighWaterMark \<Rightarrow> int \<Rightarrow> fault + HighWaterMark" where
  "hwm_IncrementBy h amount =
    bindE (IncrementBy kMemOrderNoBarrier (current_value h) amount) (\<lambda>(n, v).
    UpdateMax (h\<lparr>current_value := v\<rparr>) n)"

definition set_value :: "HighWaterMark \<Rightarrow> int \<Rightarrow> fault + HighWaterMark" where
  "set_value h v =
    bindE (Store kMemOrderNoBarrier (current_value h) v) (\<lambda>c.
    UpdateMax (h\<lparr>current_value := c\<rparr>) v)"

section \<open>The operations of one thread\<close>

definition raise_to :: "HighWaterMark \<Rightarrow> int \<Rightarrow> HighWaterMark" where
  "raise_to h v = \<lparr>current_value = v, max_value = max (max_value h) v\<rparr>"

lemma StoreMax_alone: "mo \<noteq> kMemOrderBarrier \<Longrightarrow> StoreMax mo [] v n = Inr (max v n)"
  by (cases mo; simp add: StoreMax_def Load_def) (subst store_loop.simps; simp add: CompareAndSwap_def)+

lemma UpdateMax_alone: "UpdateMax h v = Inr (h\<lparr>max_value := max (max_value h) v\<rparr>)"
  by (simp add: UpdateMax_def StoreMax_alone)

lemma hwm_IncrementBy_alone [simp]:
  "hwm_IncrementBy h a = Inr (raise_to h (wrap64 (current_value h + a)))"
  by (simp add: hwm_IncrementBy_def IncrementBy_def UpdateMax_alone raise_to_def Let_def)

lemma set_value_alone [simp]: "set_value h v = Inr (raise_to h v)"
  by (simp add: set_value_def Store_def UpdateMax_alone raise_to_def)

lemma TryIncrementBy_alone [simp]:
  "TryIncrementBy [] h d m = Inr (if wrap64 (current_value h + d) > m then (False, h)
    else (True, raise_to h (wrap64 (current_value h + d))))"
  by (subst TryIncrementBy.simps)
    (simp add: CompareAndSet_def CompareAndSwap_def UpdateMax_alone raise_to_def Let_def)

lemma raise_to_simps [simp]:
  "current_value (raise_to h v) = v" "max_value (raise_to h v) = max (max_value h) v"
  by (simp_all add: raise_to_def)

section \<open>The counter shared by threads\<close>

text \<open>
  Where a thread is inside an operation: before the load and before the compare-and-swap of
  \<^verbatim>\<open>TryIncrementBy\<close>, and before the load and the compare-and-swap of the \<^verbatim>\<open>StoreMax\<close> that
  publishes the new value \<open>v\<close>.
\<close>

datatype pc = Idle | TryLoad int int | TryCas int int int int | MaxLoad int | MaxCas int int

text \<open>
  \<open>highest\<close> is not in the program: it records the highest value the counter has
  held.
\<close>

record Shared =
  cur :: int
  mxv :: int
  highest :: int
  pcs :: "nat \<Rightarrow> pc"

definition shared_new :: "int \<Rightarrow> Shared" where
  "shared_new v = \<lparr>cur = v, mxv = v, highest = v, pcs = (\<lambda>_. Idle)\<rparr>"

definition goto :: "nat \<Rightarrow> pc \<Rightarrow> Shared \<Rightarrow> Shared" where
  "goto t p s = s\<lparr>pcs := (pcs s)(t := p)\<rparr>"

definition put_cur :: "int \<Rightarrow> Shared \<Rightarrow> Shared" where
  "put_cur v s = s\<lparr>cur := v, highest := max (highest s) v\<rparr>"

text \<open>
  With \<open>Some l\<close> the threads keep to the discipline of a limit: they only try to
  increment up to limits that are at most \<open>l\<close>, and change the value otherwise only
  downwards.
\<close>

fun try_allowed :: "int option \<Rightarrow> int \<Rightarrow> bool" where
  "try_allowed None m \<longleftrightarrow> True"
| "try_allowed (Some l) m \<longleftrightarrow> m \<le> l"

fun put_allowed :: "int option \<Rightarrow> int \<Rightarrow> int \<Rightarrow> bool" where
  "put_allowed None c v \<longleftrightarrow> True"
| "put_allowed (Some l) c v \<longleftrightarrow> v \<le> c"

inductive hwm_step :: "int option \<Rightarrow> Shared \<Rightarrow> Shared \<Rightarrow> bool" for l :: "int option" where
  try_begin: "pcs s t = Idle \<Longrightarrow> try_allowed l m \<Longrightarrow> hwm_step l s (goto t (TryLoad d m) s)"
| try_over: "pcs s t = TryLoad d m \<Longrightarrow> wrap64 (cur s + d) > m \<Longrightarrow> hwm_step l s (goto t Idle s)"
| try_load: "pcs s t = TryLoad d m \<Longrightarrow> \<not> wrap64 (cur s + d) > m \<Longrightarrow>
    hwm_step l s (goto t (TryCas (cur s) (wrap64 (cur s + d)) d m) s)"
| try_swap: "pcs s t = TryCas old new d m \<Longrightarrow> cur s = old \<Longrightarrow>
    hwm_step l s (goto t (MaxLoad new) (put_cur new s))"
| try_again: "pcs s t = TryCas old new d m \<Longrightarrow> cur s \<noteq> old \<Longrightarrow> hwm_step l s (goto t (TryLoad d m) s)"
| increment: "pcs s t = Idle \<Longrightarrow> put_allowed l (cur s) (wrap64 (cur s + a)) \<Longrightarrow>
    hwm_step l s (goto t (MaxLoad (wrap64 (cur s + a))) (put_cur (wrap64 (cur s + a)) s))"
| set_cur: "pcs s t = Idle \<Longrightarrow> put_allowed l (cur s) v \<Longrightarrow>
    hwm_step l s (goto t (MaxLoad v) (put_cur v s))"
| max_load: "pcs s t = MaxLoad v \<Longrightarrow> hwm_step l s (goto t (MaxCas (mxv s) v) s)"
| max_swap: "pcs s t = MaxCas old v \<Longrightarrow> mxv s = old \<Longrightarrow>
    hwm_step l s (goto t Idle (s\<lparr>mxv := max old v\<rparr>))"
| max_again: "pcs s t = MaxCas old v \<Longrightarrow> mxv s \<noteq> old \<Longrightarrow> hwm_step l s (goto t (MaxCas (mxv s) v) s)"

inductive hwm_reach :: "int option \<Rightarrow> int \<Rightarrow> Shared \<Rightarrow> bool" for l :: "int option" and v :: int where
  start: "hwm_reach l v (shared_new v)"
| step: "hwm_reach l v s \<Longrightarrow> hwm_step l s s' \<Longrightarrow> hwm_reach l v s'"

text \<open>The value a thread still has to publish.\<close>

fun pending :: "pc \<Rightarrow> int option" where
  "pending (MaxLoad v) = Some v"
| "pending (MaxCas old v) = Some v"
| "pending _ = None"

definition hwm_inv :: "Shared \<Rightarrow> bool" where
  "hwm_inv s \<longleftrightarrow> cur s \<le> highest s \<and> mxv s \<le> highest s
    \<and> (\<forall>t v. pending (pcs s t) = Some v \<longrightarrow> v \<le> highest s)
    \<and> (mxv s = highest s \<or> (\<exists>t. pending (pcs s t) = Some (highest s)))"

lemma goto_simps [simp]:
  "cur (goto t p s) = cur s" "mxv (goto t p s) = mxv s" "highest (goto t p s) = highest s"
  "pcs (goto t p s) = (pcs s)(t := p)"
  by (simp_all add: goto_def)

lemma put_cur_simps [simp]:
  "cur (put_cur v s) = v" "mxv (put_cur v s) = mxv s" "highest (put_cur v s) = max (highest s) v"
  "pcs (put_cur v s) = pcs s"
  by (simp_all add: put_cur_def)

text \<open>A thread that moves without publishing or gaining a pending value.\<close>

lemma hwm_inv_goto:
  "hwm_inv s \<Longrightarrow> pending p = pending (pcs s t) \<Longrightarrow> hwm_inv (goto t p s)"
  unfolding hwm_inv_def by (auto; metis)

text \<open>A thread that stores a new value and is to publish it.\<close>

lemma hwm_inv_put:
  "hwm_inv s \<Longrightarrow> pending (pcs s t) = None \<Longrightarrow> hwm_inv (goto t (MaxLoad v) (put_cur v s))"
  unfolding hwm_inv_def
  by (simp, intro conjI allI impI) (force simp: max_def)+

lemma hwm_inv_publish:
  assumes i: "hwm_inv s" and p: "pending (pcs s t) = Some v"
  shows "hwm_inv (goto t Idle (s\<lparr>mxv := max (mxv s) v\<rparr>))"
proof -
  have v: "v \<le> highest s" using assms by (auto simp: hwm_inv_def)
  have "max (mxv s) v = highest s \<or> (\<exists>u. u \<noteq> t \<and> pending (pcs s u) = Some (highest s))"
  proof (cases "mxv s = highest s")
    case False
    then obtain u where u: "pending (pcs s u) = Some (highest s)" using i by (auto simp: hwm_inv_def)
    show ?thesis
    proof (cases "u = t")
      case True
      then show ?thesis using u p i by (auto simp: hwm_inv_def max_def)
    qed (use u in blast)
  qed (use v in auto)
  then show ?thesis using i v by (auto simp: hwm_inv_def)
qed

lemma hwm_step_inv: "hwm_step l s s' \<Longrightarrow> hwm_inv s \<Longrightarrow> hwm_inv s'"
  by (induction rule: hwm_step.induct) (auto intro: hwm_inv_goto hwm_inv_put hwm_inv_publish)

lemma hwm_reach_inv: "hwm_reach l v s \<Longrightarrow> hwm_inv s"
proof (induction rule: hwm_reach.induct)
  case start
  then show ?case by (simp add: hwm_inv_def shared_new_def)
qed (rule hwm_step_inv)

text \<open>Under the limit discipline, so is every value a thread is about to store.\<close>

definition within :: "int \<Rightarrow> Shared \<Rightarrow> bool" where
  "within l s \<longleftrightarrow> cur s \<le> l \<and> (\<forall>t d m. pcs s t = TryLoad d m \<longrightarrow> m \<le> l)
    \<and> (\<forall>t old new d m. pcs s t = TryCas old new d m \<longrightarrow> new \<le> l \<and> m \<le> l)"

lemma hwm_step_within: "hwm_step (Some l) s s' \<Longrightarrow> within l s \<Longrightarrow> within l s'"
proof (induction rule: hwm_step.induct)
  case (try_load s t d m)
  then have m: "m \<le> l" by (auto simp: within_def)
  have w: "wrap64 (cur s + d) \<le> l" using try_load(2) m by (rule order_trans [OF leI])
  have s: "cur s \<le> l" "\<And>u d m. pcs s u = TryLoad d m \<Longrightarrow> m \<le> l"
    "\<And>u old new d m. pcs s u = TryCas old new d m \<Longrightarrow> new \<le> l \<and> m \<le> l"
    using try_load(3) by (simp_all add: within_def)
  show ?case
    unfolding within_def goto_simps fun_upd_apply
    by (intro conjI allI impI; (split if_split_asm)?) (use s w m in \<open>auto dest: s(2,3)\<close>)
qed (auto simp: within_def intro: order_trans)

lemma hwm_reach_within: "hwm_reach (Some l) v s \<Longrightarrow> v \<le> l \<Longrightarrow> within l s"
proof (induction rule: hwm_reach.induct)
  case start
  then show ?case by (simp add: within_def shared_new_def)
qed (auto intro: hwm_step_within)

section \<open>Properties\<close>

text \<open>
  However the steps of the threads interleave, once no operation is under way the
  recorded maximum is the highest value the counter has ever held, and at any time the
  maximum is at most that and the current value at most that as well.
\<close>

theorem high_water_mark_exact:
  assumes "hwm_reach None v s"
  shows "mxv s \<le> highest s \<and> cur s \<le> highest s \<and> ((\<forall>t. pcs s t = Idle) \<longrightarrow> mxv s = highest s)"
  using hwm_reach_inv [OF assms] by (auto simp: hwm_inv_def)

lemma high_water_mark_exact_witness:
  "mxv (shared_new 5) \<le> highest (shared_new 5) \<and> cur (shared_new 5) \<le> highest (shared_new 5)
    \<and> mxv (shared_new 5) = highest (shared_new 5)"
  using high_water_mark_exact [OF hwm_reach.start [of None 5]] by (simp add: shared_new_def)

text \<open>
  A limit that every thread passes to \<^verbatim>\<open>TryIncrementBy\<close> is never exceeded, although a
  thread checks it before the compare-and-swap and others run in between: with the other
  operations only lowering the value, the counter stays at or below the limit in every
  reachable state.
\<close>

theorem try_increment_keeps_limit:
  assumes "hwm_reach (Some l) v s" "v \<le> l"
  shows "cur s \<le> l"
  using hwm_reach_within [OF assms] by (simp add: within_def)

lemma try_increment_keeps_limit_witness:
  "cur (goto 0 (MaxLoad 7) (put_cur 7 (goto 0 (TryCas 5 7 2 7) (goto 0 (TryLoad 2 7) (shared_new 5))))) \<le> 7"
proof (rule try_increment_keeps_limit)
  let ?a = "goto 0 (TryLoad 2 7) (shared_new 5)"
  let ?b = "goto 0 (TryCas (cur ?a) (wrap64 (cur ?a + 2)) 2 7) ?a"
  have w: "wrap64 7 = 7" by (simp add: wrap64_def)
  have "hwm_reach (Some 7) 5 ?a"
    by (rule hwm_reach.step [OF hwm_reach.start hwm_step.try_begin]) (simp_all add: shared_new_def)
  then have "hwm_reach (Some 7) 5 ?b"
    by (rule hwm_reach.step [OF _ hwm_step.try_load]) (simp_all add: shared_new_def w)
  then have "hwm_reach (Some 7) 5 (goto 0 (MaxLoad (wrap64 (cur ?a + 2))) (put_cur (wrap64 (cur ?a + 2)) ?b))"
    by (rule hwm_reach.step [OF _ hwm_step.try_swap]) simp_all
  then show "hwm_reach (Some 7) 5
      (goto 0 (MaxLoad 7) (put_cur 7 (goto 0 (TryCas 5 7 2 7) (goto 0 (TryLoad 2 7) (shared_new 5)))))"
    by (simp add: shared_new_def w)
qed simp

end
