(* ===== verification/MemTrackers.thy ===== *)
theory MemTrackers
  imports WaterMark RandomGen
begin

text \<open>
  The tree of memory trackers, \<^verbatim>\<open>base/mem_tracker.cc\<close> and \<^verbatim>\<open>base/mem_tracker.h\<close>.  The shared
  objects live in a store that maps references to trackers; a weak pointer is a reference
  that may no longer be in the store.  The functions a client attaches are arguments of
  the model, an environment of what calling the \<open>f\<close>-th consumption function
  returns and what calling the \<open>f\<close>-th garbage collection function does to the
  store.  The build does not enable tcmalloc, so \<^verbatim>\<open>GcTcmalloc\<close> does nothing.  Left out are the
  log messages, the textual reports and the percentage written through
  \<^verbatim>\<open>current_capacity_pct\<close>.  Locks protect single operations and have no effect here.
\<close>

section \<open>State\<close>

record MemTracker =
  limit :: int
  soft_limit :: int
  tid :: bytes
  parent :: "nat option"
  consumption_ctr :: HighWaterMark
  consumption_func :: "nat option"
  all_trackers :: "nat list"
  limit_trackers :: "nat list"
  child_trackers :: "nat list"
  gc_functions :: "nat list"
  rand :: Random

record Mem =
  trackers :: "nat \<Rightarrow> MemTracker option"
  next_ref :: nat
  root_tracker :: "nat option"
  released_memory_since_gc :: int

record Env =
  call_consumption :: "nat \<Rightarrow> Mem \<Rightarrow> int"
  call_gc :: "nat \<Rightarrow> Mem \<Rightarrow> Mem"

definition get :: "Mem \<Rightarrow> nat \<Rightarrow> fault + MemTracker" where
  "get m t = (case trackers m t of None \<Rightarrow> Inl OutOfBounds | Some T \<Rightarrow> Inr T)"

definition put :: "Mem \<Rightarrow> nat \<Rightarrow> MemTracker \<Rightarrow> Mem" where
  "put m t T = m\<lparr>trackers := (trackers m)(t := Some T)\<rparr>"

text \<open>An operation of the counter of a tracker, with its result.\<close>

definition on_counter ::
    "Mem \<Rightarrow> nat \<Rightarrow> (HighWaterMark \<Rightarrow> fault + 'a \<times> HighWaterMark) \<Rightarrow> fault + 'a \<times> Mem" where
  "on_counter m t f =
    bindE (get m t) (\<lambda>T. bindE (f (consumption_ctr T)) (\<lambda>(x, h).
    Inr (x, put m t (T\<lparr>consumption_ctr := h\<rparr>))))"

definition increment :: "Mem \<Rightarrow> nat \<Rightarrow> int \<Rightarrow> fault + Mem" where
  "increment m t a =
    map_sum id snd (on_counter m t (\<lambda>h. map_sum id (Pair ()) (hwm_IncrementBy h a)))"

definition try_increment :: "Mem \<Rightarrow> nat \<Rightarrow> int \<Rightarrow> int \<Rightarrow> fault + bool \<times> Mem" where
  "try_increment m t a mx = on_counter m t (\<lambda>h. TryIncrementBy [] h a mx)"

section \<open>Accessors\<close>

definition has_limit :: "MemTracker \<Rightarrow> bool" where
  "has_limit T \<longleftrightarrow> limit T \<ge> 0"

definition consumption :: "MemTracker \<Rightarrow> int" where
  "consumption T = current_value (consumption_ctr T)"

definition peak_consumption :: "MemTracker \<Rightarrow> int" where
  "peak_consumption T = max_value (consumption_ctr T)"

definition CheckLimitExceeded :: "MemTracker \<Rightarrow> bool" where
  "CheckLimitExceeded T \<longleftrightarrow> limit T \<ge> 0 \<and> limit T < consumption T"

definition ExpandLimit :: "int \<Rightarrow> bool" where
  "ExpandLimit bytes = False"

definition AddGcFunction :: "Mem \<Rightarrow> nat \<Rightarrow> nat \<Rightarrow> fault + Mem" where
  "AddGcFunction m t f =
    bindE (get m t) (\<lambda>T. Inr (put m t (T\<lparr>gc_functions := gc_functions T @ [f]\<rparr>)))"

section \<open>Construction and search\<close>

definition FLAGS_memory_limit_soft_percentage :: int where
  "FLAGS_memory_limit_soft_percentage = 60"

definition ValidatePercentage :: "int \<Rightarrow> bool" where
  "ValidatePercentage v \<longleftrightarrow> v \<ge> 0 \<and> v \<le> 100"

definition UpdateConsumption :: "Env \<Rightarrow> Mem \<Rightarrow> nat \<Rightarrow> fault + Mem" where
  "UpdateConsumption e m t =
    bindE (get m t) (\<lambda>T.
    case consumption_func T of
      None \<Rightarrow> Inl CheckFailed
    | Some f \<Rightarrow>
        if parent T \<noteq> None then Inl CheckFailed
        else map_sum id snd (on_counter m t (\<lambda>h.
               map_sum id (Pair ()) (set_value h (wrap64 (call_consumption e f m))))))"

text \<open>\<^verbatim>\<open>if (consumption_func_) UpdateConsumption();\<close>\<close>

definition sync :: "Env \<Rightarrow> Mem \<Rightarrow> nat \<Rightarrow> fault + Mem" where
  "sync e m t =
    bindE (get m t) (\<lambda>T. if consumption_func T \<noteq> None then UpdateConsumption e m t else Inr m)"

text \<open>The constructor; \<open>sd\<close> is the seed the program draws for the tracker.\<close>

definition new_tracker ::
    "Env \<Rightarrow> Mem \<Rightarrow> nat option \<Rightarrow> int \<Rightarrow> bytes \<Rightarrow> nat option \<Rightarrow> u32 \<Rightarrow> fault + nat \<times> Mem" where
  "new_tracker e m func byte_limit ident par sd =
    (let t = next_ref m;
         T = \<lparr>limit = byte_limit, soft_limit = 0, tid = ident, parent = par,
              consumption_ctr = hwm_new 0, consumption_func = func, all_trackers = [],
              limit_trackers = [], child_trackers = [], gc_functions = [], rand = Reset sd\<rparr>;
         m = (put m t T)\<lparr>next_ref := t + 1\<rparr>
     in bindE (sync e m t) (\<lambda>m. bindE (get m t) (\<lambda>T.
        Inr (t, put m t (T\<lparr>soft_limit := (if limit T = -1 then -1
          else c_div (wrap64 (limit T * FLAGS_memory_limit_soft_percentage)) 100)\<rparr>)))))"

text \<open>
  The walk of \<^verbatim>\<open>Init\<close> up the parents.  References grow with time, so a parent's is smaller
  and the reference itself is enough fuel.
\<close>

fun ancestors :: "nat \<Rightarrow> Mem \<Rightarrow> nat \<Rightarrow> fault + nat list" where
  "ancestors 0 m t = Inl Unreachable"
| "ancestors (Suc n) m t =
    bindE (get m t) (\<lambda>T.
    case parent T of None \<Rightarrow> Inr [t] | Some p \<Rightarrow> map_sum id (Cons t) (ancestors n m p))"

fun with_limits :: "Mem \<Rightarrow> nat list \<Rightarrow> fault + nat list" where
  "with_limits m [] = Inr []"
| "with_limits m (t # ts) =
    bindE (get m t) (\<lambda>T. bindE (with_limits m ts) (\<lambda>us.
    Inr (if has_limit T then t # us else us)))"

definition Init :: "Mem \<Rightarrow> nat \<Rightarrow> fault + Mem" where
  "Init m t =
    bindE (ancestors (t + 1) m t) (\<lambda>ts. bindE (with_limits m ts) (\<lambda>ls. bindE (get m t) (\<lambda>T.
    let T = T\<lparr>all_trackers := all_trackers T @ ts, limit_trackers := limit_trackers T @ ls\<rparr> in
    if \<not> length (all_trackers T) > 0 then Inl CheckFailed
    else if \<not> all_trackers T ! 0 = t then Inl CheckFailed
    else Inr (put m t T))))"

definition AddChildTracker :: "Mem \<Rightarrow> nat \<Rightarrow> nat \<Rightarrow> fault + Mem" where
  "AddChildTracker m p t =
    bindE (get m p) (\<lambda>P. Inr (put m p (P\<lparr>child_trackers := child_trackers P @ [t]\<rparr>)))"

text \<open>
  \<open>hard\<close> is the flag with the hard limit and \<open>ram\<close> what the operating system
  reports as total memory.
\<close>

definition CreateRootTracker :: "Env \<Rightarrow> int \<Rightarrow> int option \<Rightarrow> u32 \<Rightarrow> Mem \<Rightarrow> fault + Mem" where
  "CreateRootTracker e hard ram sd m =
    bindE (if hard = 0 then
             (case ram of None \<Rightarrow> Inl CheckFailed | Some r \<Rightarrow> Inr (c_div (wrap64 (r * 4)) 5))
           else Inr hard) (\<lambda>lim.
    bindE (new_tracker e m None lim (str ''root'') None sd) (\<lambda>(t, m).
    Init (m\<lparr>root_tracker := Some t\<rparr>) t))"

definition GetRootTracker :: "Env \<Rightarrow> int \<Rightarrow> int option \<Rightarrow> u32 \<Rightarrow> Mem \<Rightarrow> fault + nat \<times> Mem" where
  "GetRootTracker e hard ram sd m =
    bindE (if root_tracker m = None then CreateRootTracker e hard ram sd m else Inr m) (\<lambda>m.
    case root_tracker m of None \<Rightarrow> Inl OutOfBounds | Some r \<Rightarrow> Inr (r, m))"

text \<open>\<open>par\<close> is the parent given or else the root.\<close>

definition CreateTracker :: "Env \<Rightarrow> int \<Rightarrow> bytes \<Rightarrow> nat \<Rightarrow> u32 \<Rightarrow> Mem \<Rightarrow> fault + nat \<times> Mem" where
  "CreateTracker e byte_limit ident par sd m =
    bindE (new_tracker e m None byte_limit ident (Some par) sd) (\<lambda>(t, m).
    bindE (AddChildTracker m par t) (\<lambda>m. bindE (Init m t) (\<lambda>m. Inr (t, m))))"

definition FindTrackerInternal :: "Mem \<Rightarrow> bytes \<Rightarrow> nat \<Rightarrow> fault + nat option" where
  "FindTrackerInternal m ident par =
    bindE (get m par) (\<lambda>P.
    let found = filter (\<lambda>c. case trackers m c of None \<Rightarrow> False | Some C \<Rightarrow> tid C = ident) (child_trackers P)
    in if length found = 1 then Inr (Some (found ! 0))
       else if length found > 1 then Inl CheckFailed else Inr None)"

definition FindOrCreateGlobalTracker ::
    "Env \<Rightarrow> int \<Rightarrow> bytes \<Rightarrow> nat \<Rightarrow> u32 \<Rightarrow> Mem \<Rightarrow> fault + nat \<times> Mem" where
  "FindOrCreateGlobalTracker e byte_limit ident root sd m =
    bindE (FindTrackerInternal m ident root) (\<lambda>found.
    case found of Some t \<Rightarrow> Inr (t, m) | None \<Rightarrow> CreateTracker e byte_limit ident root sd m)"

text \<open>The loop of \<^verbatim>\<open>ListTrackers\<close>: the work list is a stack whose top is its last element.\<close>

fun list_trackers :: "nat \<Rightarrow> Mem \<Rightarrow> nat list \<Rightarrow> nat list \<Rightarrow> fault + nat list" where
  "list_trackers 0 m todo out = (if todo = [] then Inr out else Inl Unreachable)"
| "list_trackers (Suc n) m todo out =
    (if todo = [] then Inr out
     else
       bindE (get m (last todo)) (\<lambda>T.
       list_trackers n m
         (butlast todo @ filter (\<lambda>c. trackers m c \<noteq> None) (child_trackers T))
         (out @ [last todo])))"

text \<open>The path of names from a tracker to the root.\<close>

definition tracker_ToString :: "Mem \<Rightarrow> nat \<Rightarrow> fault + bytes" where
  "tracker_ToString m t =
    bindE (ancestors (t + 1) m t) (\<lambda>ts.
    Inr (foldl (\<lambda>s u. (if s \<noteq> [] then s @ str ''->'' else s)
       @ (case trackers m u of None \<Rightarrow> [] | Some U \<Rightarrow> tid U)) [] ts))"

section \<open>Garbage collection\<close>

definition GcTcmalloc :: "Mem \<Rightarrow> Mem" where
  "GcTcmalloc m = m"

fun gc_loop :: "Env \<Rightarrow> nat \<Rightarrow> int \<Rightarrow> nat list \<Rightarrow> Mem \<Rightarrow> fault + Mem" where
  "gc_loop e t mx [] m = Inr m"
| "gc_loop e t mx (f # fs) m =
    bindE (sync e (call_gc e f m) t) (\<lambda>m. bindE (get m t) (\<lambda>T.
    if consumption T \<le> mx then Inr m else gc_loop e t mx fs m))"

text \<open>The consumption is read into an unsigned variable before it is compared.\<close>

definition GcMemory :: "Env \<Rightarrow> Mem \<Rightarrow> nat \<Rightarrow> int \<Rightarrow> fault + bool \<times> Mem" where
  "GcMemory e m t max_consumption =
    (if max_consumption < 0 then Inr (True, m)
     else
       bindE (sync e m t) (\<lambda>m. bindE (get m t) (\<lambda>T.
       if consumption T mod 2 ^ 64 < max_consumption then Inr (False, m)
       else
         bindE (gc_loop e t max_consumption (gc_functions T) m) (\<lambda>m. bindE (get m t) (\<lambda>T.
         Inr (consumption T > max_consumption, m))))))"

section \<open>Consumption\<close>

fun bump :: "int \<Rightarrow> nat list \<Rightarrow> Mem \<Rightarrow> fault + Mem" where
  "bump a [] m = Inr m"
| "bump a (t # ts) m =
    bindE (increment m t a) (\<lambda>m. bindE (get m t) (\<lambda>T.
    if consumption_func T \<noteq> None \<and> \<not> consumption T \<ge> 0 then Inl CheckFailed else bump a ts m))"

definition GC_RELEASE_SIZE :: int where "GC_RELEASE_SIZE = 128 * 1024 * 1024"

text \<open>The bodies for a number of bytes that is not negative.\<close>

definition consume_body :: "Env \<Rightarrow> Mem \<Rightarrow> nat \<Rightarrow> int \<Rightarrow> fault + Mem" where
  "consume_body e m t bytes =
    bindE (get m t) (\<lambda>T.
    if consumption_func T \<noteq> None then UpdateConsumption e m t
    else if bytes = 0 then Inr m
    else bump bytes (all_trackers T) m)"

definition release_body :: "Env \<Rightarrow> Mem \<Rightarrow> nat \<Rightarrow> int \<Rightarrow> fault + Mem" where
  "release_body e m t bytes =
    (let r = wrap64 (released_memory_since_gc m + bytes);
         m = m\<lparr>released_memory_since_gc := r\<rparr>;
         m = (if r > GC_RELEASE_SIZE then GcTcmalloc m else m)
     in
     bindE (get m t) (\<lambda>T.
     if consumption_func T \<noteq> None then UpdateConsumption e m t
     else if bytes = 0 then Inr m
     else bump (- bytes) (all_trackers T) m))"

text \<open>
  Each of the two calls the other for a negative number.  The negation of the smallest
  64-bit number is undefined.
\<close>

definition Consume :: "Env \<Rightarrow> Mem \<Rightarrow> nat \<Rightarrow> int \<Rightarrow> fault + Mem" where
  "Consume e m t bytes =
    (if bytes = int64_min then Inl Unreachable
     else if bytes < 0 then release_body e m t (- bytes) else consume_body e m t bytes)"

definition Release :: "Env \<Rightarrow> Mem \<Rightarrow> nat \<Rightarrow> int \<Rightarrow> fault + Mem" where
  "Release e m t bytes =
    (if bytes = int64_min then Inl Unreachable
     else if bytes < 0 then consume_body e m t (- bytes) else release_body e m t bytes)"

text \<open>
  The loop of \<^verbatim>\<open>TryConsume\<close> from the root down.  The result says whether all succeeded and
  which trackers did, in the order they were updated.
\<close>

fun try_loop :: "Env \<Rightarrow> int \<Rightarrow> nat list \<Rightarrow> Mem \<Rightarrow> fault + bool \<times> nat list \<times> Mem" where
  "try_loop e bytes [] m = Inr (True, [], m)"
| "try_loop e bytes (t # ts) m =
    (let continue = (\<lambda>m. map_sum id (\<lambda>(b, ds, m). (b, t # ds, m)) (try_loop e bytes ts m)) in
     bindE (get m t) (\<lambda>T.
     if limit T < 0 then bindE (increment m t bytes) continue
     else
       bindE (try_increment m t bytes (limit T)) (\<lambda>(done, m).
       if done then continue m
       else
         bindE (GcMemory e m t (wrap64 (limit T - bytes))) (\<lambda>(over, m).
         if \<not> over \<or> ExpandLimit bytes then
           bindE (get m t) (\<lambda>T.
           bindE (try_increment m t bytes (limit T)) (\<lambda>(done, m).
           if done then continue m else Inr (False, [], m)))
         else Inr (False, [], m)))))"

fun roll_back :: "int \<Rightarrow> nat list \<Rightarrow> Mem \<Rightarrow> fault + Mem" where
  "roll_back bytes [] m = Inr m"
| "roll_back bytes (t # ts) m = bindE (increment m t (- bytes)) (roll_back bytes ts)"

definition TryConsume :: "Env \<Rightarrow> Mem \<Rightarrow> nat \<Rightarrow> int \<Rightarrow> fault + bool \<times> Mem" where
  "TryConsume e m t bytes =
    bindE (sync e m t) (\<lambda>m.
    if bytes \<le> 0 then Inr (True, m)
    else
      bindE (get m t) (\<lambda>T.
      bindE (try_loop e bytes (rev (all_trackers T)) m) (\<lambda>(succeeded, updated, m).
      if succeeded then Inr (True, m)
      else map_sum id (Pair False) (roll_back bytes updated m))))"

section \<open>Limits\<close>

definition LimitExceeded :: "Env \<Rightarrow> Mem \<Rightarrow> nat \<Rightarrow> fault + bool \<times> Mem" where
  "LimitExceeded e m t =
    bindE (get m t) (\<lambda>T. if CheckLimitExceeded T then GcMemory e m t (limit T) else Inr (False, m))"

text \<open>The loop of the operations that ask every tracker with a limit in turn.\<close>

fun any_tracker :: "(Mem \<Rightarrow> nat \<Rightarrow> fault + bool \<times> Mem) \<Rightarrow> nat list \<Rightarrow> Mem \<Rightarrow> fault + bool \<times> Mem" where
  "any_tracker f [] m = Inr (False, m)"
| "any_tracker f (t # ts) m =
    bindE (f m t) (\<lambda>(b, m). if b then Inr (True, m) else any_tracker f ts m)"

definition AnyLimitExceeded :: "Env \<Rightarrow> Mem \<Rightarrow> nat \<Rightarrow> fault + bool \<times> Mem" where
  "AnyLimitExceeded e m t =
    bindE (get m t) (\<lambda>T. any_tracker (LimitExceeded e) (limit_trackers T) m)"

text \<open>The sum with the random number is computed in unsigned 64-bit arithmetic.\<close>

definition SoftLimitExceeded :: "Env \<Rightarrow> Mem \<Rightarrow> nat \<Rightarrow> fault + bool \<times> Mem" where
  "SoftLimitExceeded e m t =
    bindE (LimitExceeded e m t) (\<lambda>(exceeded, m).
    if exceeded then Inr (True, m)
    else
      bindE (get m t) (\<lambda>T.
      if \<not> has_limit T \<or> limit T = soft_limit T then Inr (False, m)
      else
        let usage = consumption T in
        if usage < soft_limit T then Inr (False, m)
        else
          let (x, r) = Uniform64 (rand T) (word_of_int (limit T - soft_limit T));
              m = put m t (T\<lparr>rand := r\<rparr>)
          in if (usage + uint x) mod 2 ^ 64 > limit T mod 2 ^ 64 then GcMemory e m t (soft_limit T)
             else Inr (False, m)))"

definition AnySoftLimitExceeded :: "Env \<Rightarrow> Mem \<Rightarrow> nat \<Rightarrow> fault + bool \<times> Mem" where
  "AnySoftLimitExceeded e m t =
    bindE (get m t) (\<lambda>T. any_tracker (SoftLimitExceeded e) (limit_trackers T) m)"

fun spare_loop :: "Mem \<Rightarrow> nat list \<Rightarrow> int \<Rightarrow> fault + int" where
  "spare_loop m [] res = Inr res"
| "spare_loop m (t # ts) res =
    bindE (get m t) (\<lambda>T. spare_loop m ts (min res (wrap64 (limit T - consumption T))))"

definition SpareCapacity :: "Mem \<Rightarrow> nat \<Rightarrow> fault + int" where
  "SpareCapacity m t = bindE (get m t) (\<lambda>T. spare_loop m (limit_trackers T) int64_max)"

section \<open>Destruction, allocators and scopes\<close>

definition destroy :: "Env \<Rightarrow> Mem \<Rightarrow> nat \<Rightarrow> fault + Mem" where
  "destroy e m t =
    bindE (get m t) (\<lambda>T.
    bindE (case parent T of
        None \<Rightarrow> Inr m
      | Some p \<Rightarrow>
          if \<not> consumption T = 0 then Inl CheckFailed
          else
            bindE (Release e m p (consumption T)) (\<lambda>m. bindE (get m p) (\<lambda>P.
            Inr (put m p (P\<lparr>child_trackers := remove1 t (child_trackers P)\<rparr>))))) (\<lambda>m.
    Inr (m\<lparr>trackers := (trackers m)(t := None)\<rparr>)))"

text \<open>
  The allocator charges \<open>n\<close> objects of \<open>sz\<close> bytes; \<^verbatim>\<open>n * sizeof(T)\<close> is unsigned
  and becomes the signed argument.
\<close>

definition alloc_charge :: "Env \<Rightarrow> Mem \<Rightarrow> nat \<Rightarrow> nat \<Rightarrow> nat \<Rightarrow> fault + Mem" where
  "alloc_charge e m t n sz = Consume e m t (wrap64 (int (n * sz)))"

definition dealloc_charge :: "Env \<Rightarrow> Mem \<Rightarrow> nat \<Rightarrow> nat \<Rightarrow> nat \<Rightarrow> fault + Mem" where
  "dealloc_charge e m t n sz = Release e m t (wrap64 (int (n * sz)))"

record Scoped =
  scoped_tracker :: nat
  scoped_consumption :: int

definition scoped_new :: "Env \<Rightarrow> Mem \<Rightarrow> nat \<Rightarrow> int \<Rightarrow> fault + Scoped \<times> Mem" where
  "scoped_new e m t n =
    map_sum id (Pair \<lparr>scoped_tracker = t, scoped_consumption = n\<rparr>) (Consume e m t n)"

definition scoped_Reset :: "Env \<Rightarrow> Mem \<Rightarrow> Scoped \<Rightarrow> int \<Rightarrow> fault + Scoped \<times> Mem" where
  "scoped_Reset e m s n =
    map_sum id (Pair (s\<lparr>scoped_consumption := n\<rparr>))
      (Consume e m (scoped_tracker s) (wrap64 (n - scoped_consumption s)))"

definition scoped_end :: "Env \<Rightarrow> Mem \<Rightarrow> Scoped \<Rightarrow> fault + Mem" where
  "scoped_end e m s = Release e m (scoped_tracker s) (scoped_consumption s)"

section \<open>What the operations keep\<close>

text \<open>Everything about a tracker but its counter and its random generator.\<close>

definition shape :: "MemTracker \<Rightarrow> MemTracker" where
  "shape T = T\<lparr>consumption_ctr := hwm_new 0, rand := Reset 0\<rparr>"

definition same_shape :: "Mem \<Rightarrow> Mem \<Rightarrow> bool" where
  "same_shape m m' \<longleftrightarrow> (\<forall>t. map_option shape (trackers m t) = map_option shape (trackers m' t))
    \<and> next_ref m = next_ref m' \<and> root_tracker m = root_tracker m'"

lemma same_shape_refl [simp]: "same_shape m m"
  by (simp add: same_shape_def)

lemma same_shape_trans [trans]: "same_shape a b \<Longrightarrow> same_shape b c \<Longrightarrow> same_shape a c"
  by (simp add: same_shape_def)

text \<open>The fields read through a reference; a dead reference reads as a tracker without any.\<close>

definition alive :: "Mem \<Rightarrow> nat \<Rightarrow> bool" where
  "alive m t \<longleftrightarrow> trackers m t \<noteq> None"

definition field :: "(MemTracker \<Rightarrow> 'a) \<Rightarrow> 'a \<Rightarrow> Mem \<Rightarrow> nat \<Rightarrow> 'a" where
  "field f z m t = (case trackers m t of None \<Rightarrow> z | Some T \<Rightarrow> f T)"

abbreviation cons :: "Mem \<Rightarrow> nat \<Rightarrow> int" where "cons \<equiv> field consumption 0"
abbreviation path :: "Mem \<Rightarrow> nat \<Rightarrow> nat list" where "path \<equiv> field all_trackers []"
abbreviation lim :: "Mem \<Rightarrow> nat \<Rightarrow> int" where "lim \<equiv> field limit (-1)"
abbreviation gcs :: "Mem \<Rightarrow> nat \<Rightarrow> nat list" where "gcs \<equiv> field gc_functions []"

lemma same_shape_field:
  assumes "same_shape m m'" "\<And>T. f (shape T) = f T"
  shows "field f z m' t = field f z m t"
proof -
  have "map_option shape (trackers m t) = map_option shape (trackers m' t)"
    using assms(1) by (simp add: same_shape_def)
  then show ?thesis
    by (cases "trackers m t"; cases "trackers m' t") (auto simp: field_def, metis assms(2))
qed

lemma same_shape_fields:
  assumes "same_shape m m'"
  shows "path m' t = path m t" "lim m' t = lim m t" "gcs m' t = gcs m t"
    "field limit_trackers [] m' t = field limit_trackers [] m t"
    "field consumption_func None m' t = field consumption_func None m t"
  by (rule same_shape_field [OF assms]; simp add: shape_def)+

lemma same_shape_alive: "same_shape m m' \<Longrightarrow> alive m' t \<longleftrightarrow> alive m t"
  unfolding same_shape_def alive_def by (metis map_option_is_None)

definition no_gauge :: "Mem \<Rightarrow> bool" where
  "no_gauge m \<longleftrightarrow> (\<forall>t. field consumption_func None m t = None)"

lemma no_gauge_shape: "same_shape m m' \<Longrightarrow> no_gauge m \<Longrightarrow> no_gauge m'"
  by (simp add: no_gauge_def same_shape_fields)

lemma no_gaugeD: "no_gauge m \<Longrightarrow> trackers m t = Some T \<Longrightarrow> consumption_func T = None"
  by (auto simp: no_gauge_def field_def dest: spec [of _ t])

lemma aliveE: "alive m t \<Longrightarrow> (\<And>T. trackers m t = Some T \<Longrightarrow> get m t = Inr T \<Longrightarrow> P) \<Longrightarrow> P"
  by (auto simp: alive_def get_def)

lemma sync_no_gauge: "no_gauge m \<Longrightarrow> alive m t \<Longrightarrow> sync e m t = Inr m"
  by (erule aliveE) (simp add: sync_def no_gaugeD)

text \<open>An operation that moves counters.\<close>

definition moved :: "Mem \<Rightarrow> Mem \<Rightarrow> (nat \<Rightarrow> int) \<Rightarrow> bool" where
  "moved m m' c \<longleftrightarrow> same_shape m m' \<and> cons m' = c \<and> released_memory_since_gc m' = released_memory_since_gc m"

lemma put_counter_moved:
  "trackers m t = Some T \<Longrightarrow>
    moved m (put m t (T\<lparr>consumption_ctr := h\<rparr>)) ((cons m)(t := current_value h))"
  by (auto simp: moved_def same_shape_def put_def shape_def field_def consumption_def)

lemma increment_moved:
  "alive m t \<Longrightarrow> \<exists>m'. increment m t a = Inr m' \<and> moved m m' ((cons m)(t := wrap64 (cons m t + a)))"
proof (erule aliveE)
  fix T assume T: "trackers m t = Some T" "get m t = Inr T"
  then show ?thesis
    using put_counter_moved [OF T(1), of "raise_to (consumption_ctr T) (wrap64 (cons m t + a))"]
    by (auto simp: increment_def on_counter_def field_def consumption_def)
qed

lemma try_increment_moved:
  "alive m t \<Longrightarrow> \<exists>m'. try_increment m t a mx = Inr (\<not> wrap64 (cons m t + a) > mx, m')
    \<and> moved m m' (if wrap64 (cons m t + a) > mx then cons m else (cons m)(t := wrap64 (cons m t + a)))"
proof (erule aliveE)
  fix T assume T: "trackers m t = Some T" "get m t = Inr T"
  have "(cons m)(t := current_value (consumption_ctr T)) = cons m"
    using T by (auto simp: field_def consumption_def)
  then show ?thesis
    using T put_counter_moved [OF T(1), of "consumption_ctr T"]
      put_counter_moved [OF T(1), of "raise_to (consumption_ctr T) (wrap64 (cons m t + a))"]
    by (auto simp: try_increment_def on_counter_def field_def consumption_def)
qed

text \<open>Several counters moved by the same amount.\<close>

definition plus_on :: "nat set \<Rightarrow> int \<Rightarrow> (nat \<Rightarrow> int) \<Rightarrow> nat \<Rightarrow> int" where
  "plus_on S a c = (\<lambda>t. if t \<in> S then wrap64 (c t + a) else c t)"

lemma moved_trans: "moved m m' c \<Longrightarrow> moved m' m'' c' \<Longrightarrow> moved m m'' c'"
  by (auto simp: moved_def intro: same_shape_trans)

lemma moved_shape: "moved m m' c \<Longrightarrow> same_shape m m'"
  by (simp add: moved_def)

lemma moved_cons: "moved m m' c \<Longrightarrow> cons m' = c"
  by (simp add: moved_def)

lemma plus_on_insert:
  "t \<notin> S \<Longrightarrow> plus_on S a (c(t := wrap64 (c t + a))) = plus_on (insert t S) a c"
  by (auto simp: plus_on_def)

lemma bump_moved:
  "no_gauge m \<Longrightarrow> (\<forall>t\<in>set ts. alive m t) \<Longrightarrow> distinct ts \<Longrightarrow>
    \<exists>m'. bump a ts m = Inr m' \<and> moved m m' (plus_on (set ts) a (cons m))"
proof (induction ts arbitrary: m)
  case Nil
  then show ?case by (simp add: moved_def plus_on_def)
next
  case (Cons t ts)
  obtain m1 where m1: "increment m t a = Inr m1" "moved m m1 ((cons m)(t := wrap64 (cons m t + a)))"
    using increment_moved [of m t a] Cons.prems(2) by auto
  have al: "\<forall>u\<in>set (t # ts). alive m1 u"
    using Cons.prems(2) same_shape_alive [OF moved_shape [OF m1(2)]] by blast
  have ng: "no_gauge m1" using no_gauge_shape [OF moved_shape [OF m1(2)] Cons.prems(1)] .
  obtain m' where m': "bump a ts m1 = Inr m'" "moved m1 m' (plus_on (set ts) a (cons m1))"
    using Cons.IH [OF ng] al Cons.prems(3) by auto
  have "moved m m' (plus_on (insert t (set ts)) a (cons m))"
    using moved_trans [OF m1(2) m'(2)] Cons.prems(3) plus_on_insert [of t "set ts" a "cons m"]
    by (simp add: moved_cons [OF m1(2)])
  moreover have "get m1 t = Inr T \<Longrightarrow> consumption_func T = None" for T
    using ng by (auto simp: get_def no_gaugeD split: option.splits)
  ultimately show ?case
    using m1(1) m'(1) al by (auto elim: aliveE)
qed

lemma roll_back_moved:
  "(\<forall>t\<in>set ts. alive m t) \<Longrightarrow> distinct ts \<Longrightarrow>
    \<exists>m'. roll_back a ts m = Inr m' \<and> moved m m' (plus_on (set ts) (- a) (cons m))"
proof (induction ts arbitrary: m)
  case Nil
  then show ?case by (simp add: moved_def plus_on_def)
next
  case (Cons t ts)
  obtain m1 where m1: "increment m t (- a) = Inr m1" "moved m m1 ((cons m)(t := wrap64 (cons m t + - a)))"
    using increment_moved [of m t "- a"] Cons.prems(1) by auto
  have al: "\<forall>u\<in>set (t # ts). alive m1 u"
    using Cons.prems(1) same_shape_alive [OF moved_shape [OF m1(2)]] by blast
  obtain m' where m': "roll_back a ts m1 = Inr m'" "moved m1 m' (plus_on (set ts) (- a) (cons m1))"
    using Cons.IH [of m1] al Cons.prems(2) by auto
  have "moved m m' (plus_on (insert t (set ts)) (- a) (cons m))"
    using moved_trans [OF m1(2) m'(2)] Cons.prems(2) plus_on_insert [of t "set ts" "- a" "cons m"]
    by (simp add: moved_cons [OF m1(2)])
  then show ?case using m1(1) m'(1) by simp
qed

lemma wrap64_undo: "in64 x \<Longrightarrow> wrap64 (wrap64 (x + a) + - a) = x"
  unfolding wrap64_add_wrap64 by (simp add: wrap64_id)

section \<open>All or nothing\<close>

text \<open>Whether a tracker has room.\<close>

definition fits :: "Mem \<Rightarrow> int \<Rightarrow> nat \<Rightarrow> bool" where
  "fits m bytes t \<longleftrightarrow> lim m t < 0 \<or> wrap64 (cons m t + bytes) \<le> lim m t"

lemma GcMemory_nothing:
  assumes "no_gauge m" "alive m t" "gcs m t = []"
  shows "\<exists>b. GcMemory e m t mx = Inr (b, m)"
  using assms by (auto simp: GcMemory_def sync_no_gauge field_def elim!: aliveE)

lemma try_loop_all_or_prefix:
  "no_gauge m \<Longrightarrow> (\<forall>t\<in>set ts. alive m t \<and> gcs m t = []) \<Longrightarrow> distinct ts \<Longrightarrow>
    \<exists>m'. try_loop e bytes ts m = Inr (list_all (fits m bytes) ts, takeWhile (fits m bytes) ts, m')
      \<and> moved m m' (plus_on (set (takeWhile (fits m bytes) ts)) bytes (cons m))"
proof (induction ts arbitrary: m)
  case Nil
  then show ?case by (simp add: moved_def plus_on_def)
next
  case (Cons t ts)
  let ?c = "(cons m)(t := wrap64 (cons m t + bytes))"
  have t: "alive m t" using Cons.prems(2) by simp
  then obtain T where T: "trackers m t = Some T" "get m t = Inr T" by (rule aliveE)
  have l: "lim m t = limit T" using T by (simp add: field_def)
  have go: "\<exists>m'. map_sum id (\<lambda>(b, ds, m). (b, t # ds, m)) (try_loop e bytes ts m1)
        = Inr (list_all (fits m bytes) ts, t # takeWhile (fits m bytes) ts, m')
      \<and> moved m m' (plus_on (insert t (set (takeWhile (fits m bytes) ts))) bytes (cons m))"
    if m1: "moved m m1 ?c" for m1
  proof -
    have sh: "same_shape m m1" and c: "cons m1 = ?c" using m1 by (simp_all add: moved_def)
    have f: "fits m1 bytes u = fits m bytes u" if "u \<in> set ts" for u
      using that Cons.prems(3) by (auto simp: fits_def same_shape_fields [OF sh] c)
    have "\<exists>m'. try_loop e bytes ts m1 = Inr (list_all (fits m1 bytes) ts, takeWhile (fits m1 bytes) ts, m')
        \<and> moved m1 m' (plus_on (set (takeWhile (fits m1 bytes) ts)) bytes (cons m1))"
      using Cons.prems no_gauge_shape [OF sh] same_shape_alive [OF sh]
      by (intro Cons.IH) (auto simp: same_shape_fields [OF sh])
    moreover have "list_all (fits m1 bytes) ts = list_all (fits m bytes) ts"
      using f by (simp add: list_all_iff)
    moreover have "takeWhile (fits m1 bytes) ts = takeWhile (fits m bytes) ts"
      using f by (auto intro: takeWhile_cong)
    moreover have "t \<notin> set (takeWhile (fits m bytes) ts)"
      using Cons.prems(3) by (auto dest: set_takeWhileD)
    ultimately show ?thesis
      using moved_trans [OF m1] plus_on_insert [of t _ bytes "cons m"] by (auto simp: c)
  qed
  show ?case
  proof (cases "fits m bytes t")
    case True
    then show ?thesis
    proof (cases "limit T < 0")
      case True
      obtain m1 where "increment m t bytes = Inr m1" "moved m m1 ?c"
        using increment_moved [OF t] by blast
      with go [of m1] T True \<open>fits m bytes t\<close> show ?thesis by simp
    next
      case False
      then have r: "\<not> wrap64 (cons m t + bytes) > limit T" using True by (simp add: fits_def l)
      obtain m1 where "try_increment m t bytes (limit T) = Inr (True, m1)" "moved m m1 ?c"
        using try_increment_moved [OF t, of bytes "limit T"] r by auto
      with go [of m1] T False \<open>fits m bytes t\<close> show ?thesis by simp
    qed
  next
    case False
    then have r: "wrap64 (cons m t + bytes) > limit T" "\<not> limit T < 0" by (auto simp: fits_def l)
    obtain m1 where m1: "try_increment m t bytes (limit T) = Inr (False, m1)" "moved m m1 (cons m)"
      using try_increment_moved [OF t, of bytes "limit T"] r by auto
    note sh = moved_shape [OF m1(2)]
    have t1: "alive m1 t" using t same_shape_alive [OF sh] by simp
    have "gcs m1 t = []" using Cons.prems(2) by (simp add: same_shape_fields [OF sh])
    from GcMemory_nothing [OF no_gauge_shape [OF sh Cons.prems(1)] t1 this]
    obtain b where b: "GcMemory e m1 t (wrap64 (limit T - bytes)) = Inr (b, m1)" by blast
    obtain T1 where T1: "get m1 t = Inr T1" "trackers m1 t = Some T1" using t1 by (rule aliveE)
    have "limit T1 = limit T" using T1(2) same_shape_fields(2) [OF sh, of t] l by (simp add: field_def)
    then obtain m2 where m2: "try_increment m1 t bytes (limit T1) = Inr (False, m2)" "moved m1 m2 (cons m1)"
      using try_increment_moved [OF t1, of bytes "limit T"] r by (auto simp: moved_cons [OF m1(2)])
    have "moved m m2 (cons m)" using moved_trans [OF m1(2) m2(2)] by (simp add: moved_cons [OF m1(2)])
    then show ?thesis
      using m1 b m2(1) T T1 r False by (simp add: ExpandLimit_def plus_on_def)
  qed
qed

section \<open>The tree\<close>

text \<open>
  Parents are older than their children, the path of a tracker is the tracker and the path
  of its parent, and its list of limits are the trackers of its path that have one.
\<close>

definition wf_mem :: "Mem \<Rightarrow> bool" where
  "wf_mem m \<longleftrightarrow> (\<forall>t T. trackers m t = Some T \<longrightarrow> t < next_ref m
    \<and> (case parent T of None \<Rightarrow> all_trackers T = [t]
        | Some p \<Rightarrow> p < t \<and> alive m p \<and> all_trackers T = t # path m p)
    \<and> limit_trackers T = filter (\<lambda>u. lim m u \<ge> 0) (all_trackers T))"

lemma wf_at:
  "wf_mem m \<Longrightarrow> trackers m t = Some T \<Longrightarrow> t < next_ref m
    \<and> (case parent T of None \<Rightarrow> all_trackers T = [t]
        | Some p \<Rightarrow> p < t \<and> alive m p \<and> all_trackers T = t # path m p)
    \<and> limit_trackers T = filter (\<lambda>u. lim m u \<ge> 0) (all_trackers T)"
  unfolding wf_mem_def by blast

lemma wf_path:
  "wf_mem m \<Longrightarrow> alive m t \<Longrightarrow> distinct (path m t) \<and> (\<forall>u\<in>set (path m t). u \<le> t \<and> alive m u)"
proof (induction t rule: less_induct)
  case (less t)
  from less.prems(2) obtain T where T: "trackers m t = Some T" by (auto simp: alive_def)
  show ?case
  proof (cases "parent T")
    case None
    then have "path m t = [t]" using wf_at [OF less.prems(1) T] T by (simp add: field_def)
    then show ?thesis using less.prems(2) by simp
  next
    case (Some p)
    then have p: "p < t" "alive m p" "path m t = t # path m p"
      using wf_at [OF less.prems(1) T] T by (simp_all add: field_def)
    then show ?thesis using less.IH [OF p(1) less.prems(1) p(2)] less.prems(2) by fastforce
  qed
qed

lemma wf_limits:
  "wf_mem m \<Longrightarrow> alive m t \<Longrightarrow> field limit_trackers [] m t = filter (\<lambda>u. lim m u \<ge> 0) (path m t)"
  by (erule aliveE) (simp add: wf_at field_def)

lemma TryConsume_all_or_nothing:
  assumes "wf_mem m" "no_gauge m" "alive m t" "\<forall>u\<in>set (path m t). gcs m u = []" "0 < bytes"
    and "\<forall>u. in64 (cons m u)"
  shows "\<exists>m'. TryConsume e m t bytes = Inr (list_all (fits m bytes) (path m t), m') \<and>
    moved m m' (if list_all (fits m bytes) (path m t) then plus_on (set (path m t)) bytes (cons m) else cons m)"
proof -
  let ?ts = "rev (path m t)"
  obtain T where T: "trackers m t = Some T" "get m t = Inr T" using assms(3) by (rule aliveE)
  have p: "all_trackers T = path m t" using T by (simp add: field_def)
  have ts: "distinct ?ts" "\<forall>u\<in>set ?ts. alive m u \<and> gcs m u = []"
    using wf_path [OF assms(1,3)] assms(4) by auto
  let ?up = "takeWhile (fits m bytes) ?ts"
  obtain m1 where m1: "try_loop e bytes ?ts m = Inr (list_all (fits m bytes) ?ts, ?up, m1)"
    "moved m m1 (plus_on (set ?up) bytes (cons m))"
    using try_loop_all_or_prefix [OF assms(2) ts(2,1)] by blast
  have up: "distinct ?up" "\<forall>u\<in>set ?up. alive m1 u"
    using ts same_shape_alive [OF moved_shape [OF m1(2)]] by (auto dest: set_takeWhileD intro: distinct_takeWhile)
  obtain m2 where m2: "roll_back bytes ?up m1 = Inr m2" "moved m1 m2 (plus_on (set ?up) (- bytes) (cons m1))"
    using roll_back_moved [OF up(2,1)] by blast
  have "plus_on (set ?up) (- bytes) (cons m1) = cons m"
    unfolding moved_cons [OF m1(2)] plus_on_def
    by (rule ext) (simp only: wrap64_undo [OF assms(6) [rule_format]] split: if_split, simp)
  then have b: "moved m m2 (cons m)" using moved_trans [OF m1(2) m2(2)] by simp
  show ?thesis
  proof (cases "list_all (fits m bytes) (path m t)")
    case True
    then have "set ?up = set (path m t)"
      by (subst takeWhile_eq_all_conv [THEN iffD2]) (auto simp: list_all_iff)
    then show ?thesis
      using True m1 T p assms(5) by (simp add: TryConsume_def sync_no_gauge [OF assms(2,3)])
  next
    case False
    then show ?thesis
      using m1(1) m2(1) b T p assms(5) by (simp add: TryConsume_def sync_no_gauge [OF assms(2,3)])
  qed
qed

text \<open>\<^verbatim>\<open>SpareCapacity\<close> is the least room on the path.\<close>

lemma spare_loop_min:
  "(\<forall>u\<in>set ts. alive m u) \<Longrightarrow>
    \<exists>r. spare_loop m ts res = Inr r \<and> (\<forall>b. b \<le> r \<longleftrightarrow> b \<le> res \<and> (\<forall>u\<in>set ts. b \<le> wrap64 (lim m u - cons m u)))"
proof (induction ts arbitrary: res)
  case (Cons u ts)
  obtain U where U: "trackers m u = Some U" "get m u = Inr U" using Cons.prems by (auto elim: aliveE)
  have f: "lim m u = limit U" "cons m u = consumption U" using U by (simp_all add: field_def)
  from Cons.IH [of "min res (wrap64 (limit U - consumption U))"] Cons.prems
  show ?case by (auto simp: U f)
qed simp

lemma SpareCapacity_fits:
  assumes "wf_mem m" "no_gauge m" "alive m t" "0 < bytes" "bytes \<le> int64_max"
    and small: "\<forall>u\<in>set (path m t). 0 \<le> cons m u \<and> cons m u \<le> int64_max - bytes \<and> lim m u \<le> int64_max"
  shows "\<exists>r. SpareCapacity m t = Inr r \<and> (bytes \<le> r \<longleftrightarrow> list_all (fits m bytes) (path m t))"
proof -
  obtain T where T: "trackers m t = Some T" "get m t = Inr T" using assms(3) by (rule aliveE)
  have l: "limit_trackers T = filter (\<lambda>u. lim m u \<ge> 0) (path m t)"
    using wf_limits [OF assms(1,3)] T by (simp add: field_def)
  have al: "\<forall>u\<in>set (limit_trackers T). alive m u" using wf_path [OF assms(1,3)] by (auto simp: l)
  obtain r where r: "spare_loop m (limit_trackers T) int64_max = Inr r"
    "bytes \<le> r \<longleftrightarrow> bytes \<le> int64_max \<and> (\<forall>u\<in>set (limit_trackers T). bytes \<le> wrap64 (lim m u - cons m u))"
    using spare_loop_min [OF al, of int64_max] by blast
  have room: "(bytes \<le> wrap64 (lim m u - cons m u)) = fits m bytes u" if "u \<in> set (path m t)" "lim m u \<ge> 0" for u
  proof -
    have "in64 (lim m u - cons m u)" "in64 (cons m u + bytes)"
      using small that assms(4) by (auto simp: in64_def int64_min_def int64_max_def)
    then show ?thesis using that by (auto simp: fits_def wrap64_id)
  qed
  have "(\<forall>u\<in>set (limit_trackers T). bytes \<le> wrap64 (lim m u - cons m u)) \<longleftrightarrow> list_all (fits m bytes) (path m t)"
    unfolding list_all_iff l using room by (auto simp: fits_def)
  then show ?thesis using r assms(5) T by (simp add: SpareCapacity_def)
qed

section \<open>The ledger\<close>

text \<open>
  The abstract state is a ledger of what was consumed directly at each tracker.  A store is
  balanced when every counter holds the sum over the trackers below it, in 64-bit
  arithmetic, plus the increments \<open>o\<close> of an operation still under way.
\<close>

definition subtree :: "Mem \<Rightarrow> nat \<Rightarrow> nat set" where
  "subtree m t = {u. t \<in> set (path m u)}"

definition balanced :: "Mem \<Rightarrow> (nat \<Rightarrow> int) \<Rightarrow> (nat \<Rightarrow> int) \<Rightarrow> bool" where
  "balanced m d off \<longleftrightarrow> (\<forall>t. alive m t \<longrightarrow> cons m t = wrap64 (sum d (subtree m t) + off t))"

definition charge :: "nat \<Rightarrow> int \<Rightarrow> (nat \<Rightarrow> int) \<Rightarrow> nat \<Rightarrow> int" where
  "charge t a d = d(t := d t + a)"

definition off_on :: "nat set \<Rightarrow> int \<Rightarrow> (nat \<Rightarrow> int) \<Rightarrow> nat \<Rightarrow> int" where
  "off_on S a off = (\<lambda>t. if t \<in> S then off t + a else off t)"

lemma subtree_shape: "same_shape m m' \<Longrightarrow> subtree m' t = subtree m t"
  by (simp add: subtree_def same_shape_fields)

lemma finite_subtree: "wf_mem m \<Longrightarrow> finite (subtree m t)"
proof -
  assume wf: "wf_mem m"
  have "subtree m t \<subseteq> {..< next_ref m}"
  proof
    fix x assume "x \<in> subtree m t"
    then obtain X where "trackers m x = Some X"
      by (cases "trackers m x") (auto simp: subtree_def field_def)
    then show "x \<in> {..< next_ref m}" using wf_at [OF wf] by simp
  qed
  then show ?thesis using finite_subset by blast
qed

lemma balanced_moved:
  assumes "balanced m d off" "moved m m' (plus_on S a (cons m))"
  shows "balanced m' d (off_on S a off)"
proof -
  have sh: "same_shape m m'" and c: "cons m' = plus_on S a (cons m)" using assms(2) by (simp_all add: moved_def)
  show ?thesis
    using assms(1)
    by (auto simp: balanced_def same_shape_alive [OF sh] subtree_shape [OF sh] c plus_on_def off_on_def
        wrap64_add_wrap64 add.assoc)
qed

text \<open>Increments made on the whole path of a tracker are a charge to it.\<close>

lemma balanced_charge:
  assumes "wf_mem m" "alive m u" "balanced m d (off_on (set (path m u)) a off)"
  shows "balanced m (charge u a d) off"
proof -
  have s: "sum (charge u a d) (subtree m t) = (if t \<in> set (path m u) then a else 0) + sum d (subtree m t)" for t
  proof (cases "t \<in> set (path m u)")
    case True
    then have u: "u \<in> subtree m t" by (simp add: subtree_def)
    have "sum (charge u a d) (subtree m t) = charge u a d u + sum (charge u a d) (subtree m t - {u})"
      by (rule sum.remove [OF finite_subtree [OF assms(1)] u])
    also have "sum (charge u a d) (subtree m t - {u}) = sum d (subtree m t - {u})"
      by (rule sum.cong) (auto simp: charge_def)
    also have "charge u a d u + sum d (subtree m t - {u}) = a + sum d (subtree m t)"
      using sum.remove [OF finite_subtree [OF assms(1)] u, of d] by (simp add: charge_def)
    finally show ?thesis using True by simp
  next
    case False
    then have "sum (charge u a d) (subtree m t) = sum d (subtree m t)"
      by (intro sum.cong) (auto simp: charge_def subtree_def)
    then show ?thesis using False by simp
  qed
  show ?thesis
    using assms(3) by (auto simp: balanced_def off_on_def s ac_simps)
qed

lemma wf_mem_shape: "same_shape m m' \<Longrightarrow> wf_mem m \<Longrightarrow> wf_mem m'"
proof -
  assume sh: "same_shape m m'" and wf: "wf_mem m"
  have "t < next_ref m' \<and> (case parent T' of None \<Rightarrow> all_trackers T' = [t]
        | Some p \<Rightarrow> p < t \<and> alive m' p \<and> all_trackers T' = t # path m' p)
    \<and> limit_trackers T' = filter (\<lambda>u. lim m' u \<ge> 0) (all_trackers T')" if T': "trackers m' t = Some T'" for t T'
  proof -
    have "map_option shape (trackers m t) = Some (shape T')" using sh T' by (simp add: same_shape_def)
    then obtain T where T: "trackers m t = Some T" "shape T = shape T'" by auto
    have f: "parent T' = parent T" "all_trackers T' = all_trackers T" "limit_trackers T' = limit_trackers T"
      using arg_cong [OF T(2), of parent] arg_cong [OF T(2), of all_trackers] arg_cong [OF T(2), of limit_trackers]
      by (simp_all add: shape_def)
    show ?thesis
      using wf_at [OF wf T(1)] sh same_shape_alive [OF sh]
      by (simp add: f same_shape_fields [OF sh] same_shape_def cong: option.case_cong)
  qed
  then show ?thesis unfolding wf_mem_def by blast
qed

lemma bump_path:
  assumes "wf_mem m" "no_gauge m" "alive m t" "balanced m d off"
  shows "\<exists>m'. bump a (path m t) m = Inr m' \<and> same_shape m m' \<and> balanced m' (charge t a d) off"
proof -
  obtain m' where m': "bump a (path m t) m = Inr m'" "moved m m' (plus_on (set (path m t)) a (cons m))"
    using bump_moved [OF assms(2)] wf_path [OF assms(1,3)] by blast
  note sh = moved_shape [OF m'(2)]
  have b: "balanced m' d (off_on (set (path m' t)) a off)"
    using balanced_moved [OF assms(4) m'(2)] by (simp add: same_shape_fields [OF sh])
  have "balanced m' (charge t a d) off"
    by (rule balanced_charge [OF wf_mem_shape [OF sh assms(1)] _ b]) (simp add: same_shape_alive [OF sh] assms(3))
  then show ?thesis using m'(1) sh by blast
qed

lemma charge_0 [simp]: "charge t 0 d = d"
  by (auto simp: charge_def)

lemma consume_body_ledger:
  assumes "wf_mem m" "no_gauge m" "alive m t" "balanced m d off"
  shows "\<exists>m'. consume_body e m t a = Inr m' \<and> same_shape m m' \<and> balanced m' (charge t a d) off"
proof -
  obtain T where T: "trackers m t = Some T" "get m t = Inr T" using assms(3) by (rule aliveE)
  then have "all_trackers T = path m t" by (simp add: field_def)
  then show ?thesis
    using bump_path [OF assms, of a] T assms(4)
    by (cases "a = 0") (auto simp: consume_body_def no_gaugeD [OF assms(2) T(1)])
qed

lemma release_body_ledger:
  assumes "wf_mem m" "no_gauge m" "alive m t" "balanced m d off"
  shows "\<exists>m'. release_body e m t a = Inr m' \<and> same_shape m m' \<and> balanced m' (charge t (- a) d) off"
proof -
  define m0 where "m0 = m\<lparr>released_memory_since_gc := wrap64 (released_memory_since_gc m + a)\<rparr>"
  have g: "trackers m0 = trackers m" "next_ref m0 = next_ref m" "root_tracker m0 = root_tracker m"
    by (simp_all add: m0_def)
  have sh: "same_shape m m0" by (simp add: same_shape_def g)
  have f: "field h z m0 u = field h z m u" for h and z :: 'z and u by (simp add: field_def g)
  have m0: "wf_mem m0" "no_gauge m0" "alive m0 t" "balanced m0 d off"
    using assms wf_mem_shape [OF sh] no_gauge_shape [OF sh] same_shape_alive [OF sh]
    by (simp_all add: balanced_def f subtree_shape [OF sh])
  obtain T where T: "trackers m0 t = Some T" "get m0 t = Inr T" using m0(3) by (rule aliveE)
  then have p: "all_trackers T = path m0 t" by (simp add: field_def)
  obtain m' where m': "bump (- a) (path m0 t) m0 = Inr m'" "same_shape m0 m'" "balanced m' (charge t (- a) d) off"
    using bump_path [OF m0, of "- a"] by blast
  have r: "release_body e m t a = (if a = 0 then Inr m0 else bump (- a) (path m0 t) m0)"
    unfolding release_body_def Let_def GcTcmalloc_def m0_def [symmetric] if_cancel
    using T p by (simp add: no_gaugeD [OF m0(2) T(1)])
  show ?thesis
  proof (cases "a = 0")
    case True
    then show ?thesis using r sh m0(4) by simp
  next
    case False
    then show ?thesis using r m' same_shape_trans [OF sh m'(2)] by simp
  qed
qed

lemma Consume_ledger:
  assumes "wf_mem m" "no_gauge m" "alive m t" "balanced m d off" "a \<noteq> int64_min"
  shows "\<exists>m'. Consume e m t a = Inr m' \<and> same_shape m m' \<and> balanced m' (charge t a d) off"
  using consume_body_ledger [OF assms(1-4), of e a] release_body_ledger [OF assms(1-4), of e "- a"] assms(5)
  by (auto simp: Consume_def)

lemma Release_ledger:
  assumes "wf_mem m" "no_gauge m" "alive m t" "balanced m d off" "a \<noteq> int64_min"
  shows "\<exists>m'. Release e m t a = Inr m' \<and> same_shape m m' \<and> balanced m' (charge t (- a) d) off"
  using consume_body_ledger [OF assms(1-4), of e "- a"] release_body_ledger [OF assms(1-4), of e a] assms(5)
  by (auto simp: Release_def)

section \<open>The interface of a garbage collection function\<close>

text \<open>
  What a tracker may expect of the functions attached to it: called on a balanced store they
  leave the tree as it is and a balanced store behind, with the same increments under way,
  and only ever release memory.
\<close>

definition releases :: "(nat \<Rightarrow> int) \<Rightarrow> (nat \<Rightarrow> int) \<Rightarrow> bool" where
  "releases d d' \<longleftrightarrow> (\<forall>t. d' t \<le> d t)"

lemma releases_refl [simp]: "releases d d"
  by (simp add: releases_def)

lemma releases_trans: "releases a b \<Longrightarrow> releases b c \<Longrightarrow> releases a c"
  by (auto simp: releases_def intro: order_trans)

definition gc_law :: "Env \<Rightarrow> bool" where
  "gc_law e \<longleftrightarrow> (\<forall>f m d off. wf_mem m \<and> no_gauge m \<and> balanced m d off \<longrightarrow>
    same_shape m (call_gc e f m) \<and> (\<exists>d'. releases d d' \<and> balanced (call_gc e f m) d' off))"

text \<open>
  The contract every operation on a store keeps: it returns, the tree stays as it is, and the
  ledger it ends with is reached from the one it began with by releases.
\<close>

definition keeps :: "Mem \<Rightarrow> (nat \<Rightarrow> int) \<Rightarrow> (nat \<Rightarrow> int) \<Rightarrow> Mem \<Rightarrow> bool" where
  "keeps m d off m' \<longleftrightarrow> same_shape m m' \<and> (\<exists>d'. releases d d' \<and> balanced m' d' off)"

lemma keepsI: "same_shape m m' \<Longrightarrow> balanced m' d off \<Longrightarrow> keeps m d off m'"
  unfolding keeps_def using releases_refl by blast

lemma keepsE:
  "keeps m d off m' \<Longrightarrow> (\<And>d'. same_shape m m' \<Longrightarrow> releases d d' \<Longrightarrow> balanced m' d' off \<Longrightarrow> P) \<Longrightarrow> P"
  unfolding keeps_def by blast

lemma keeps_after:
  "same_shape m m' \<Longrightarrow> releases d d' \<Longrightarrow> keeps m' d' off m'' \<Longrightarrow> keeps m d off m''"
  unfolding keeps_def by (meson releases_trans same_shape_trans)

definition good_mem :: "Mem \<Rightarrow> bool" where
  "good_mem m \<longleftrightarrow> wf_mem m \<and> no_gauge m"

lemma good_mem_shape: "same_shape m m' \<Longrightarrow> good_mem m \<Longrightarrow> good_mem m'"
  by (simp add: good_mem_def wf_mem_shape no_gauge_shape)

locale gc_env =
  fixes e :: Env
  assumes law: "gc_law e"
begin

lemma gc_loop_keeps:
  "good_mem m \<Longrightarrow> alive m t \<Longrightarrow> balanced m d off \<Longrightarrow>
    \<exists>m'. gc_loop e t mx fs m = Inr m' \<and> keeps m d off m'"
proof (induction fs arbitrary: m d)
  case Nil
  then show ?case by (auto intro: keepsI)
next
  case (Cons f fs)
  let ?m = "call_gc e f m"
  obtain d' where sh: "same_shape m ?m" and d': "releases d d'" "balanced ?m d' off"
    using law Cons.prems unfolding gc_law_def good_mem_def by blast
  have g: "good_mem ?m" using good_mem_shape [OF sh Cons.prems(1)] .
  have a: "alive ?m t" using Cons.prems(2) same_shape_alive [OF sh] by simp
  obtain T where T: "get ?m t = Inr T" using a by (rule aliveE)
  have s: "sync e ?m t = Inr ?m" using g a by (simp add: good_mem_def sync_no_gauge)
  have k: "keeps m d off ?m" using sh d' by (auto simp: keeps_def)
  obtain m' where m': "gc_loop e t mx fs ?m = Inr m'" "keeps ?m d' off m'"
    using Cons.IH [OF g a d'(2)] by blast
  have "keeps m d off m'" by (rule keeps_after [OF sh d'(1) m'(2)])
  then show ?case using k m'(1) by (auto simp: s T)
qed

lemma GcMemory_keeps:
  assumes "good_mem m" "alive m t" "balanced m d off"
  shows "\<exists>b m'. GcMemory e m t mx = Inr (b, m') \<and> keeps m d off m'"
proof -
  obtain T where T: "get m t = Inr T" using assms(2) by (rule aliveE)
  obtain m' where m': "gc_loop e t mx (gc_functions T) m = Inr m'" "keeps m d off m'"
    using gc_loop_keeps [OF assms] by blast
  have "alive m' t" using m'(2) assms(2) by (auto simp: keeps_def same_shape_alive)
  then obtain T' where T': "get m' t = Inr T'" by (rule aliveE)
  have s: "sync e m t = Inr m" using assms(1,2) by (simp add: good_mem_def sync_no_gauge)
  have k: "keeps m d off m" using assms(3) by (auto intro: keepsI)
  show ?thesis
    using k m' T' by (auto simp: GcMemory_def s T)
qed

end

lemma off_on_insert: "t \<notin> S \<Longrightarrow> off_on S a (off_on {t} a off) = off_on (insert t S) a off"
  by (auto simp: off_on_def)

lemma moved_one:
  "moved m m' ((cons m)(t := wrap64 (cons m t + a))) \<Longrightarrow> moved m m' (plus_on {t} a (cons m))"
  by (simp add: moved_def plus_on_def fun_eq_iff)

lemma keeps_one:
  assumes "balanced m d off" "moved m m' ((cons m)(t := wrap64 (cons m t + a)))"
  shows "keeps m d (off_on {t} a off) m'"
  using balanced_moved [OF assms(1) moved_one [OF assms(2)]] moved_shape [OF assms(2)]
  by (auto intro: keepsI)

lemma try_increment_keeps:
  assumes "alive m t" "balanced m d off"
  shows "\<exists>b m'. try_increment m t a mx = Inr (b, m') \<and> keeps m d (if b then off_on {t} a off else off) m'"
proof -
  obtain m' where m': "try_increment m t a mx = Inr (\<not> wrap64 (cons m t + a) > mx, m')"
    "moved m m' (if wrap64 (cons m t + a) > mx then cons m else (cons m)(t := wrap64 (cons m t + a)))"
    using try_increment_moved [OF assms(1)] by blast
  show ?thesis
  proof (cases "wrap64 (cons m t + a) > mx")
    case True
    then have "balanced m' d off" "same_shape m m'"
      using m'(2) assms(2) by (auto simp: moved_def balanced_def same_shape_alive subtree_shape)
    then show ?thesis using m'(1) True by (auto intro: keepsI)
  next
    case False
    then show ?thesis using m' keeps_one [OF assms(2)] by auto
  qed
qed

context gc_env
begin

lemma try_loop_keeps:
  "good_mem m \<Longrightarrow> (\<forall>t\<in>set ts. alive m t) \<Longrightarrow> distinct ts \<Longrightarrow> balanced m d off \<Longrightarrow>
    \<exists>b ds m'. try_loop e bytes ts m = Inr (b, ds, m') \<and> distinct ds \<and> set ds \<subseteq> set ts
      \<and> (b \<longrightarrow> set ds = set ts) \<and> keeps m d (off_on (set ds) bytes off) m'"
proof (induction ts arbitrary: m d off)
  case Nil
  have "off_on {} bytes off = off" by (simp add: off_on_def)
  then show ?case using Nil.prems by (auto intro: keepsI)
next
  case (Cons t ts)
  have t: "alive m t" using Cons.prems(2) by simp
  then obtain T where T: "trackers m t = Some T" "get m t = Inr T" by (rule aliveE)
  let ?goal = "\<lambda>r. \<exists>b ds m'. r = Inr (b, ds, m') \<and> distinct ds \<and> set ds \<subseteq> set (t # ts)
      \<and> (b \<longrightarrow> set ds = set (t # ts)) \<and> keeps m d (off_on (set ds) bytes off) m'"
  have go: "?goal (map_sum id (\<lambda>(b, ds, m). (b, t # ds, m)) (try_loop e bytes ts m1))"
    if k: "keeps m d (off_on {t} bytes off) m1" for m1
    using k
  proof (rule keepsE)
    fix d1 assume 1: "same_shape m m1" "releases d d1" "balanced m1 d1 (off_on {t} bytes off)"
    obtain b ds m' where 2: "try_loop e bytes ts m1 = Inr (b, ds, m')" "distinct ds" "set ds \<subseteq> set ts"
      "b \<longrightarrow> set ds = set ts" "keeps m1 d1 (off_on (set ds) bytes (off_on {t} bytes off)) m'"
      using Cons.IH [OF good_mem_shape [OF 1(1) Cons.prems(1)] _ _ 1(3)] Cons.prems(2,3)
        same_shape_alive [OF 1(1)] by auto
    have "t \<notin> set ds" using 2(3) Cons.prems(3) by auto
    then have "keeps m1 d1 (off_on (set (t # ds)) bytes off) m'" using 2(5) by (simp add: off_on_insert)
    then have "keeps m d (off_on (set (t # ds)) bytes off) m'" by (rule keeps_after [OF 1(1,2)])
    then show ?thesis
      using 2(1-4) \<open>t \<notin> set ds\<close> by (intro exI [of _ b] exI [of _ "t # ds"] exI [of _ m']) auto
  qed
  have stop: "?goal (Inr (False, [], m1))" if "keeps m d off m1" for m1
  proof -
    have "off_on (set []) bytes off = off" by (simp add: off_on_def)
    with that show ?thesis by auto
  qed
  show ?case
  proof (cases "limit T < 0")
    case True
    obtain m1 where "increment m t bytes = Inr m1" "keeps m d (off_on {t} bytes off) m1"
      using increment_moved [OF t, of bytes] keeps_one [OF Cons.prems(4)] by blast
    with go [of m1] True T show ?thesis by simp
  next
    case False
    obtain b1 m1 where 1: "try_increment m t bytes (limit T) = Inr (b1, m1)"
      "keeps m d (if b1 then off_on {t} bytes off else off) m1"
      using try_increment_keeps [OF t Cons.prems(4)] by blast
    show ?thesis
    proof (cases b1)
      case True
      with go [of m1] 1 False T show ?thesis by simp
    next
      case b1: False
      then have "keeps m d off m1" using 1(2) by simp
      then obtain d1 where d1: "same_shape m m1" "releases d d1" "balanced m1 d1 off" by (rule keepsE)
      have t1: "alive m1 t" using t same_shape_alive [OF d1(1)] by simp
      obtain b2 m2 where 2: "GcMemory e m1 t (wrap64 (limit T - bytes)) = Inr (b2, m2)" "keeps m1 d1 off m2"
        using GcMemory_keeps [OF good_mem_shape [OF d1(1) Cons.prems(1)] t1 d1(3)] by blast
      have k2: "keeps m d off m2" by (rule keeps_after [OF d1(1,2) 2(2)])
      then obtain d2 where d2: "same_shape m m2" "releases d d2" "balanced m2 d2 off" by (rule keepsE)
      have t2: "alive m2 t" using t same_shape_alive [OF d2(1)] by simp
      then obtain T2 where T2: "get m2 t = Inr T2" by (rule aliveE)
      obtain b3 m3 where 3: "try_increment m2 t bytes (limit T2) = Inr (b3, m3)"
        "keeps m2 d2 (if b3 then off_on {t} bytes off else off) m3"
        using try_increment_keeps [OF t2 d2(3)] by blast
      have k3: "keeps m d (if b3 then off_on {t} bytes off else off) m3" by (rule keeps_after [OF d2(1,2) 3(2)])
      show ?thesis
        using False b1 1(1) 2(1) 3(1) T T2 go [of m3] stop [of m2] stop [of m3] k2 k3
        by (cases b2; cases b3) (simp_all add: ExpandLimit_def)
    qed
  qed
qed

text \<open>
  A successful \<^verbatim>\<open>TryConsume\<close> is one charge at the tracker, a failed one none: apart from
  what the collection functions released, the roll-back leaves no trace.
\<close>

lemma TryConsume_keeps:
  assumes "good_mem m" "alive m t" "balanced m d off" "0 < bytes"
  shows "\<exists>b m' d'. TryConsume e m t bytes = Inr (b, m') \<and> same_shape m m' \<and> releases d d'
    \<and> balanced m' (if b then charge t bytes d' else d') off"
proof -
  obtain T where T: "trackers m t = Some T" "get m t = Inr T" using assms(2) by (rule aliveE)
  have p: "all_trackers T = path m t" using T by (simp add: field_def)
  have wf: "wf_mem m" "no_gauge m" using assms(1) by (simp_all add: good_mem_def)
  obtain b ds m1 where 1: "try_loop e bytes (rev (path m t)) m = Inr (b, ds, m1)" "distinct ds"
    "set ds \<subseteq> set (path m t)" "b \<longrightarrow> set ds = set (path m t)" "keeps m d (off_on (set ds) bytes off) m1"
    using try_loop_keeps [OF assms(1) _ _ assms(3), of "rev (path m t)" bytes] wf_path [OF wf(1) assms(2)] by auto
  obtain d1 where d1: "same_shape m m1" "releases d d1" "balanced m1 d1 (off_on (set ds) bytes off)"
    using 1(5) by (rule keepsE)
  have t1: "alive m1 t" using assms(2) same_shape_alive [OF d1(1)] by simp
  show ?thesis
  proof (cases b)
    case True
    then have "balanced m1 (charge t bytes d1) off"
      using balanced_charge [OF wf_mem_shape [OF d1(1) wf(1)] t1, of d1 bytes off] d1(3) 1(4)
      by (simp add: same_shape_fields [OF d1(1)])
    then show ?thesis
      using True 1(1) T p assms(4) d1 by (auto simp: TryConsume_def sync_no_gauge [OF wf(2) assms(2)])
  next
    case False
    obtain m2 where m2: "roll_back bytes ds m1 = Inr m2" "moved m1 m2 (plus_on (set ds) (- bytes) (cons m1))"
      using roll_back_moved [OF _ 1(2), of m1 bytes] 1(3) wf_path [OF wf(1) assms(2)] same_shape_alive [OF d1(1)]
      by blast
    have "off_on (set ds) (- bytes) (off_on (set ds) bytes off) = off" by (auto simp: off_on_def)
    then have "balanced m2 d1 off" using balanced_moved [OF d1(3) m2(2)] by simp
    then show ?thesis
      using False 1(1) m2(1) T p assms(4) d1 same_shape_trans [OF d1(1) moved_shape [OF m2(2)]]
      by (auto simp: TryConsume_def sync_no_gauge [OF wf(2) assms(2)])
  qed
qed

end

text \<open>
  An environment of the kind the program uses: the \<open>f\<close>-th collection function gives
  4096 bytes back at tracker \<open>f\<close>.
\<close>

definition idle_env :: Env where
  "idle_env = \<lparr>call_consumption = (\<lambda>f m. 0), call_gc = (\<lambda>f m. m)\<rparr>"

definition cache_env :: Env where
  "cache_env = \<lparr>call_consumption = (\<lambda>f m. 0),
     call_gc = (\<lambda>f m. case Release idle_env m f 4096 of Inl _ \<Rightarrow> m | Inr m' \<Rightarrow> m')\<rparr>"

lemma cache_env_law: "gc_law cache_env"
  unfolding gc_law_def
proof (intro allI impI)
  fix f m d off
  assume a: "wf_mem m \<and> no_gauge m \<and> balanced m d off"
  show "same_shape m (call_gc cache_env f m) \<and> (\<exists>d'. releases d d' \<and> balanced (call_gc cache_env f m) d' off)"
  proof (cases "alive m f")
    case True
    obtain m' where m': "Release idle_env m f 4096 = Inr m'" "same_shape m m'" "balanced m' (charge f (- 4096) d) off"
      using Release_ledger [of m f d off 4096 idle_env] True a by (auto simp: int64_min_def)
    have "releases d (charge f (- 4096) d)" by (simp add: releases_def charge_def)
    then show ?thesis using m' by (auto simp: cache_env_def)
  next
    case False
    then have "call_gc cache_env f m = m"
      by (auto simp: cache_env_def Release_def release_body_def Let_def get_def alive_def GcTcmalloc_def int64_min_def)
    then show ?thesis using a releases_refl [of d] by (metis same_shape_refl)
  qed
qed

interpretation cache: gc_env cache_env
  by unfold_locales (rule cache_env_law)

section \<open>Creating trackers\<close>

lemma ancestors_path:
  "wf_mem m \<Longrightarrow> alive m u \<Longrightarrow> u < n \<Longrightarrow>
    (\<forall>v\<le>u. map_option parent (trackers m' v) = map_option parent (trackers m v)) \<Longrightarrow>
    ancestors n m' u = Inr (path m u)"
proof (induction n arbitrary: u)
  case (Suc n)
  from Suc.prems(2) obtain U where U: "trackers m u = Some U" by (auto simp: alive_def)
  then obtain U' where U': "trackers m' u = Some U'" "parent U' = parent U"
    using Suc.prems(4) by (metis le_refl map_option_eq_Some option.sel option.simps(9))
  show ?case
  proof (cases "parent U")
    case None
    then show ?thesis using wf_at [OF Suc.prems(1) U] U U' by (simp add: field_def get_def)
  next
    case (Some p)
    then have p: "p < u" "alive m p" "path m u = u # path m p"
      using wf_at [OF Suc.prems(1) U] U by (simp_all add: field_def)
    have "ancestors n m' p = Inr (path m p)"
      using Suc.prems p by (intro Suc.IH) auto
    then show ?thesis using U' p Some by (simp add: get_def)
  qed
qed simp

lemma with_limits_filter:
  "(\<forall>u\<in>set ts. alive m u) \<Longrightarrow> with_limits m ts = Inr (filter (\<lambda>u. lim m u \<ge> 0) ts)"
  by (induction ts) (auto simp: has_limit_def field_def elim!: aliveE)

lemma alive_below: "wf_mem m \<Longrightarrow> alive m t \<Longrightarrow> t < next_ref m"
  by (auto simp: alive_def dest: wf_at)

lemma CreateTracker_result:
  assumes "good_mem m" "alive m p"
  shows "\<exists>m' P T. CreateTracker e lm ident p sd m = Inr (next_ref m, m')
    \<and> trackers m p = Some P
    \<and> trackers m' = (trackers m)(p := Some (P\<lparr>child_trackers := child_trackers P @ [next_ref m]\<rparr>), next_ref m := Some T)
    \<and> next_ref m' = next_ref m + 1 \<and> root_tracker m' = root_tracker m
    \<and> parent T = Some p \<and> limit T = lm \<and> tid T = ident \<and> consumption T = 0 \<and> consumption_func T = None
    \<and> gc_functions T = [] \<and> child_trackers T = [] \<and> all_trackers T = next_ref m # path m p
    \<and> limit_trackers T = filter (\<lambda>u. field limit lm m u \<ge> 0) (next_ref m # path m p)"
proof -
  let ?t = "next_ref m"
  have wf: "wf_mem m" using assms(1) by (simp add: good_mem_def)
  have pt: "p < ?t" using alive_below [OF wf assms(2)] .
  from assms(2) obtain P where P: "trackers m p = Some P" by (auto simp: alive_def)
  define T0 where "T0 = \<lparr>limit = lm, soft_limit = (if lm = -1 then -1
      else c_div (wrap64 (lm * FLAGS_memory_limit_soft_percentage)) 100), tid = ident, parent = Some p,
      consumption_ctr = hwm_new 0, consumption_func = None, all_trackers = [],
      limit_trackers = [], child_trackers = [], gc_functions = [], rand = Reset sd\<rparr>"
  define m1 where "m1 = m\<lparr>trackers := (trackers m)(?t := Some T0), next_ref := ?t + 1\<rparr>"
  have 1: "new_tracker e m None lm ident (Some p) sd = Inr (?t, m1)"
    by (simp add: new_tracker_def Let_def sync_def get_def put_def m1_def T0_def)
  define m2 where "m2 = put m1 p (P\<lparr>child_trackers := child_trackers P @ [?t]\<rparr>)"
  have 2: "AddChildTracker m1 p ?t = Inr m2"
    using P pt by (simp add: AddChildTracker_def get_def m1_def m2_def)
  have t2: "trackers m2 = (trackers m)(p := Some (P\<lparr>child_trackers := child_trackers P @ [?t]\<rparr>), ?t := Some T0)"
    using pt by (auto simp: m2_def m1_def put_def)
  have a: "ancestors ?t m2 p = Inr (path m p)"
    by (rule ancestors_path [OF wf assms(2) pt]) (use pt P in \<open>auto simp: t2\<close>)
  have al: "\<forall>u\<in>set (?t # path m p). alive m2 u"
    using wf_path [OF wf assms(2)] by (auto simp: alive_def t2)
  have l: "lim m2 u = field limit lm m u" if "u \<in> set (?t # path m p)" for u
  proof (cases "u = ?t")
    case True
    have "\<not> alive m ?t" using alive_below [OF wf, of ?t] by auto
    then show ?thesis using True by (simp add: field_def t2 T0_def alive_def)
  next
    case False
    then have "alive m u" using that wf_path [OF wf assms(2)] by auto
    then show ?thesis using False P by (auto simp: field_def t2 alive_def split: option.splits)
  qed
  have "with_limits m2 (?t # path m p) = Inr (filter (\<lambda>u. field limit lm m u \<ge> 0) (?t # path m p))"
    unfolding with_limits_filter [OF al] using l by (metis (mono_tags, lifting) filter_cong)
  moreover have "ancestors (?t + 1) m2 ?t = Inr (?t # path m p)"
    using a by (simp add: get_def t2 T0_def)
  moreover define T where "T = T0\<lparr>all_trackers := ?t # path m p,
      limit_trackers := filter (\<lambda>u. field limit lm m u \<ge> 0) (?t # path m p)\<rparr>"
  ultimately have "Init m2 ?t = Inr (put m2 ?t T)"
    unfolding Init_def by (simp add: get_def t2 T0_def Let_def del: filter.simps with_limits.simps ancestors.simps)
  then have c: "CreateTracker e lm ident p sd m = Inr (?t, put m2 ?t T)"
    by (simp add: CreateTracker_def 1 2)
  have T: "parent T = Some p \<and> limit T = lm \<and> tid T = ident \<and> consumption T = 0 \<and> consumption_func T = None
    \<and> gc_functions T = [] \<and> child_trackers T = [] \<and> all_trackers T = next_ref m # path m p
    \<and> limit_trackers T = filter (\<lambda>u. field limit lm m u \<ge> 0) (next_ref m # path m p)"
    by (simp add: T_def T0_def consumption_def hwm_new_def)
  have m': "trackers (put m2 ?t T)
      = (trackers m)(p := Some (P\<lparr>child_trackers := child_trackers P @ [next_ref m]\<rparr>), next_ref m := Some T)"
    "next_ref (put m2 ?t T) = next_ref m + 1" "root_tracker (put m2 ?t T) = root_tracker m"
    by (simp_all add: put_def t2) (simp_all add: m2_def m1_def put_def)
  show ?thesis using c P T m' by blast
qed

lemma CreateTracker_good:
  assumes "good_mem m" "alive m p" "CreateTracker e lm ident p sd m = Inr (t, m')"
  shows "good_mem m' \<and> alive m' t \<and> \<not> alive m t \<and> path m' t = t # path m p \<and> lim m' t = lm
    \<and> (\<forall>u. alive m u \<longrightarrow> alive m' u \<and> path m' u = path m u \<and> lim m' u = lim m u \<and> cons m' u = cons m u)
    \<and> cons m' t = 0"
proof -
  have wf: "wf_mem m" and ng: "no_gauge m" using assms(1) by (simp_all add: good_mem_def)
  obtain P T where t: "t = next_ref m" and P: "trackers m p = Some P"
    and tr: "trackers m' = (trackers m)(p := Some (P\<lparr>child_trackers := child_trackers P @ [t]\<rparr>), t := Some T)"
    and nx: "next_ref m' = t + 1" "root_tracker m' = root_tracker m"
    and T: "parent T = Some p \<and> limit T = lm \<and> tid T = ident \<and> consumption T = 0 \<and> consumption_func T = None
    \<and> gc_functions T = [] \<and> child_trackers T = [] \<and> all_trackers T = t # path m p
    \<and> limit_trackers T = filter (\<lambda>u. field limit lm m u \<ge> 0) (t # path m p)"
    using CreateTracker_result [OF assms(1,2), of e lm ident sd] assms(3) by auto
  have pt: "p < t" using alive_below [OF wf assms(2)] t by simp
  have dead: "\<not> alive m t" using alive_below [OF wf, of t] t by auto
  have old: "field f z m' u = field f z m u" if "alive m u" "\<And>X cs. f (X\<lparr>child_trackers := cs\<rparr>) = f X" for f :: "MemTracker \<Rightarrow> 'z" and z u
    using that P dead by (auto simp: field_def tr alive_def)
  have al: "alive m' u \<longleftrightarrow> alive m u \<or> u = t" for u using P by (auto simp: alive_def tr)
  have new: "field f z m' t = f T" for f :: "MemTracker \<Rightarrow> 'z" and z by (simp add: field_def tr)
  have lims: "lim m' u = field limit lm m u" if "u = t \<or> alive m u" for u
    using that dead T old [of u limit] by (auto simp: new) (auto simp: field_def alive_def)
  have "wf_mem m'"
    unfolding wf_mem_def
  proof (intro allI impI)
    fix u U assume U: "trackers m' u = Some U"
    show "u < next_ref m' \<and> (case parent U of None \<Rightarrow> all_trackers U = [u]
        | Some q \<Rightarrow> q < u \<and> alive m' q \<and> all_trackers U = u # path m' q)
      \<and> limit_trackers U = filter (\<lambda>v. lim m' v \<ge> 0) (all_trackers U)"
    proof (cases "u = t")
      case True
      then have "U = T" using U by (simp add: tr)
      moreover have "filter (\<lambda>v. lim m' v \<ge> 0) (t # path m p) = filter (\<lambda>v. field limit lm m v \<ge> 0) (t # path m p)"
        using lims wf_path [OF wf assms(2)] by (intro filter_cong) auto
      ultimately show ?thesis
        using True T pt assms(2) by (simp add: nx al old [OF assms(2)])
    next
      case False
      then obtain U0 where U0: "trackers m u = Some U0" "U = U0 \<or> (\<exists>cs. U = U0\<lparr>child_trackers := cs\<rparr>)"
        using U P by (auto simp: tr split: if_splits)
      then have f: "parent U = parent U0" "all_trackers U = all_trackers U0" "limit_trackers U = limit_trackers U0"
        by auto
      have u: "alive m u" using U0 by (simp add: alive_def)
      have pa: "all_trackers U0 = path m u" using U0 by (simp add: field_def)
      have "filter (\<lambda>v. lim m' v \<ge> 0) (path m u) = filter (\<lambda>v. lim m v \<ge> 0) (path m u)"
        using wf_path [OF wf u] by (intro filter_cong) (auto simp: old)
      then show ?thesis
        using wf_at [OF wf U0(1)] t by (auto simp: f nx al old pa split: option.splits)
    qed
  qed
  moreover have "no_gauge m'"
    unfolding no_gauge_def
  proof
    fix u
    consider "alive m u" | "u = t" | "\<not> alive m' u" using al by blast
    then show "field consumption_func None m' u = None"
    proof cases
      case 1
      then show ?thesis using ng by (simp add: old no_gauge_def)
    next
      case 2
      then show ?thesis using T by (simp add: new)
    next
      case 3
      then show ?thesis by (simp add: alive_def field_def)
    qed
  qed
  ultimately show ?thesis
    using T dead by (auto simp: good_mem_def al old new consumption_def)
qed

lemma subtree_create:
  assumes "good_mem m" "alive m p" "CreateTracker e lm ident p sd m = Inr (t, m')"
  shows "subtree m' u = (if u = t \<or> u \<in> set (path m p) then insert t (subtree m u) else subtree m u)"
proof -
  note c = CreateTracker_good [OF assms]
  have "u \<in> set (path m' v) \<longleftrightarrow> u \<in> set (path m v) \<or> v = t \<and> (u = t \<or> u \<in> set (path m p))" for v
  proof -
    consider "v = t" | "alive m v" | "v \<noteq> t" "\<not> alive m v" by blast
    then show ?thesis
    proof cases
      case 1
      then have "path m v = []" using c by (auto simp: field_def alive_def)
      then show ?thesis using 1 c by simp
    next
      case 2
      then show ?thesis using c by auto
    next
      case 3
      obtain P T where "trackers m p = Some P" "t = next_ref m"
        "trackers m' = (trackers m)(p := Some (P\<lparr>child_trackers := child_trackers P @ [next_ref m]\<rparr>), next_ref m := Some T)"
        using CreateTracker_result [OF assms(1,2), of e lm ident sd] assms(3) by auto
      then have "path m' v = path m v" using 3 by (auto simp: field_def alive_def)
      then show ?thesis using 3 by simp
    qed
  qed
  then show ?thesis by (auto simp: subtree_def)
qed

lemma CreateTracker_balanced:
  assumes "good_mem m" "alive m p" "CreateTracker e lm ident p sd m = Inr (t, m')"
    and "balanced m d (\<lambda>_. 0)"
  shows "balanced m' (d(t := 0)) (\<lambda>_. 0)"
  unfolding balanced_def
proof (intro allI impI)
  fix u assume "alive m' u"
  note c = CreateTracker_good [OF assms(1-3)]
  have wf: "wf_mem m" using assms(1) by (simp add: good_mem_def)
  have out: "t \<notin> subtree m v" for v
    using c by (auto simp: subtree_def field_def alive_def)
  have "sum (d(t := 0)) (subtree m' u) = sum (d(t := 0)) (subtree m u)"
    using out finite_subtree [OF wf] by (simp add: subtree_create [OF assms(1-3)])
  also have "\<dots> = sum d (subtree m u)" using out by (intro sum.cong) auto
  finally have s: "sum (d(t := 0)) (subtree m' u) = sum d (subtree m u)" .
  show "cons m' u = wrap64 (sum (d(t := 0)) (subtree m' u) + 0)"
  proof (cases "alive m u")
    case True
    then show ?thesis using assms(4) c s by (simp add: balanced_def)
  next
    case False
    then have "u = t" using \<open>alive m' u\<close> CreateTracker_result [OF assms(1,2), of e lm ident sd] assms(3)
      by (auto simp: alive_def split: if_splits)
    moreover have "t \<notin> set (path m v)" for v
    proof (cases "alive m v")
      case True
      then show ?thesis using c wf_path [OF wf True] by blast
    next
      case False
      then show ?thesis by (simp add: field_def alive_def)
    qed
    then have "subtree m t = {}" by (simp add: subtree_def)
    ultimately show ?thesis using c s by (simp add: wrap64_id in64_iff)
  qed
qed

section \<open>Finding trackers\<close>

lemma FindOrCreate_finds:
  assumes "good_mem m" "alive m p" "\<forall>c\<in>set (field child_trackers [] m p). c < next_ref m"
    and "FindTrackerInternal m ident p = Inr None"
    and "FindOrCreateGlobalTracker e lm ident p sd m = Inr (t, m')"
  shows "FindOrCreateGlobalTracker e lm' ident p sd' m' = Inr (t, m')"
proof -
  have c: "CreateTracker e lm ident p sd m = Inr (t, m')"
    using assms(4,5) by (simp add: FindOrCreateGlobalTracker_def)
  obtain P T where t: "t = next_ref m" and P: "trackers m p = Some P" and T: "tid T = ident"
    and tr: "trackers m' = (trackers m)(p := Some (P\<lparr>child_trackers := child_trackers P @ [t]\<rparr>), t := Some T)"
    using CreateTracker_result [OF assms(1,2), of e lm ident sd] c by auto
  have wf: "wf_mem m" using assms(1) by (simp add: good_mem_def)
  have pt: "p < t" using alive_below [OF wf assms(2)] t by simp
  let ?ok = "\<lambda>m c. case trackers m c of None \<Rightarrow> False | Some C \<Rightarrow> tid C = ident"
  have n: "filter (?ok m) (child_trackers P) = []"
  proof -
    have "\<not> length (filter (?ok m) (child_trackers P)) > 1 \<and> length (filter (?ok m) (child_trackers P)) \<noteq> 1"
      using assms(4) P by (auto simp: FindTrackerInternal_def get_def Let_def split: if_splits)
    then have "length (filter (?ok m) (child_trackers P)) = 0" by linarith
    then show ?thesis by (simp only: length_0_conv)
  qed
  have out: "t \<notin> set (child_trackers P)" using assms(3) P t by (auto simp: field_def)
  have "filter (?ok m') (child_trackers P) = filter (?ok m) (child_trackers P)"
    using out P by (intro filter_cong) (auto simp: tr)
  then have "filter (?ok m') (child_trackers P @ [t]) = [t]" using n T by (simp add: tr)
  then show ?thesis
    using pt by (simp add: FindOrCreateGlobalTracker_def FindTrackerInternal_def get_def tr Let_def)
qed

section \<open>A small tree\<close>

text \<open>A root with a limit of 100 bytes, a child with a limit of 60 and a grandchild without.\<close>

definition example_tree :: Mem where
  "example_tree =
    (let tr = \<lambda>l s p c ts ls cs. \<lparr>limit = l, soft_limit = s, tid = [], parent = p, consumption_ctr = hwm_new c,
           consumption_func = None, all_trackers = ts, limit_trackers = ls, child_trackers = cs,
           gc_functions = [], rand = Reset 1\<rparr>
     in \<lparr>trackers = (\<lambda>_. None)(0 := Some (tr 100 60 None 50 [0] [0] [1]),
           1 := Some (tr 60 36 (Some 0) 30 [1, 0] [1, 0] [2]),
           2 := Some (tr (-1) (-1) (Some 1) 10 [2, 1, 0] [1, 0] [])),
         next_ref = 3, root_tracker = Some 0, released_memory_since_gc = 0\<rparr>)"

lemma example_tree_good: "good_mem example_tree"
  by (auto simp: good_mem_def wf_mem_def no_gauge_def example_tree_def Let_def field_def alive_def split: if_splits)

lemma example_tree_fields:
  "alive example_tree t \<longleftrightarrow> t \<le> 2" "path example_tree t = (if t = 0 then [0] else if t = 1 then [1, 0] else if t = 2 then [2, 1, 0] else [])"
  "cons example_tree t = (if t = 0 then 50 else if t = 1 then 30 else if t = 2 then 10 else 0)"
  "lim example_tree t = (if t = 0 then 100 else if t = 1 then 60 else - 1)"
  "gcs example_tree t = []"
  by (auto simp: example_tree_def Let_def field_def alive_def consumption_def hwm_new_def)

lemma example_tree_balanced: "balanced example_tree ((\<lambda>_. 0)(0 := 20, 1 := 20, 2 := 10)) (\<lambda>_. 0)"
proof -
  have "subtree example_tree 0 = {0, 1, 2}" "subtree example_tree 1 = {1, 2}" "subtree example_tree 2 = {2}"
    by (auto simp: subtree_def example_tree_fields split: if_splits)
  then show ?thesis
    by (auto simp: balanced_def example_tree_fields wrap64_def le_Suc_eq numeral_2_eq_2)
qed

section \<open>Properties\<close>

text \<open>
  C26: \<^verbatim>\<open>TryConsume\<close> is all or nothing.  Without collection functions on the way it succeeds
  exactly when every tracker with a limit on the path to the root has room; then every
  counter of the path grows by the bytes, and otherwise, after the roll-back, every counter
  holds what it held before, as do the limits and the tree.
\<close>

theorem TryConsume_atomic:
  assumes "good_mem m" "alive m t" "\<forall>u\<in>set (path m t). gcs m u = []" "0 < bytes"
    and "\<forall>u. in64 (cons m u)"
  shows "\<exists>m'. TryConsume e m t bytes = Inr (list_all (fits m bytes) (path m t), m') \<and> same_shape m m' \<and>
    cons m' = (if list_all (fits m bytes) (path m t) then plus_on (set (path m t)) bytes (cons m) else cons m)"
proof -
  have "wf_mem m" "no_gauge m" using assms(1) by (simp_all add: good_mem_def)
  from TryConsume_all_or_nothing [OF this assms(2-5), of e]
  show ?thesis unfolding moved_def by blast
qed

lemma TryConsume_atomic_witness:
  "\<exists>m'. TryConsume idle_env example_tree 2 40
      = Inr (list_all (fits example_tree 40) (path example_tree 2), m') \<and> same_shape example_tree m' \<and>
    cons m' = (if list_all (fits example_tree 40) (path example_tree 2)
      then plus_on (set (path example_tree 2)) 40 (cons example_tree) else cons example_tree)"
  by (rule TryConsume_atomic [OF example_tree_good])
    (auto simp: example_tree_fields in64_iff)

text \<open>
  C27: The counters are a ledger.  If every counter holds what was consumed directly at the
  trackers below it, then \<^verbatim>\<open>Consume\<close> charges its tracker, \<^verbatim>\<open>Release\<close> takes back, and
  \<^verbatim>\<open>TryConsume\<close> charges the tracker when it succeeds and nothing when it fails, although
  collection functions may run in the middle of it; apart from what those release, nobody
  else's entry changes.  None of the three aborts.
\<close>

theorem tracker_ledger:
  assumes "gc_law e" "good_mem m" "alive m t" "balanced m d (\<lambda>_. 0)" "0 < bytes"
  shows "(\<exists>m'. Consume e m t bytes = Inr m' \<and> same_shape m m' \<and> balanced m' (charge t bytes d) (\<lambda>_. 0))
    \<and> (\<exists>m'. Release e m t bytes = Inr m' \<and> same_shape m m' \<and> balanced m' (charge t (- bytes) d) (\<lambda>_. 0))
    \<and> (\<exists>b m' d'. TryConsume e m t bytes = Inr (b, m') \<and> same_shape m m' \<and> releases d d'
        \<and> balanced m' (if b then charge t bytes d' else d') (\<lambda>_. 0))"
proof -
  have "wf_mem m" "no_gauge m" "bytes \<noteq> int64_min" using assms(2,5) by (auto simp: good_mem_def int64_min_def)
  then show ?thesis
    using Consume_ledger [OF _ _ assms(3,4), of bytes e] Release_ledger [OF _ _ assms(3,4), of bytes e]
      gc_env.TryConsume_keeps [OF gc_env.intro [OF assms(1)] assms(2-5)]
    by blast
qed

lemma tracker_ledger_witness:
  "(\<exists>m'. Consume cache_env example_tree 2 25 = Inr m' \<and> same_shape example_tree m'
      \<and> balanced m' (charge 2 25 ((\<lambda>_. 0)(0 := 20, 1 := 20, 2 := 10))) (\<lambda>_. 0))
    \<and> (\<exists>m'. Release cache_env example_tree 2 25 = Inr m' \<and> same_shape example_tree m'
      \<and> balanced m' (charge 2 (- 25) ((\<lambda>_. 0)(0 := 20, 1 := 20, 2 := 10))) (\<lambda>_. 0))
    \<and> (\<exists>b m' d'. TryConsume cache_env example_tree 2 25 = Inr (b, m') \<and> same_shape example_tree m'
      \<and> releases ((\<lambda>_. 0)(0 := 20, 1 := 20, 2 := 10)) d'
      \<and> balanced m' (if b then charge 2 25 d' else d') (\<lambda>_. 0))"
  by (rule tracker_ledger [OF cache_env_law example_tree_good _ example_tree_balanced])
    (simp_all add: example_tree_fields)

text \<open>
  \<^verbatim>\<open>SpareCapacity\<close> is exactly the largest request \<^verbatim>\<open>TryConsume\<close> grants: where nothing
  overflows and no collection function can help, a request succeeds if and only if it is at
  most the spare capacity.
\<close>

theorem SpareCapacity_exact:
  assumes "good_mem m" "alive m t" "\<forall>u\<in>set (path m t). gcs m u = []" "0 < bytes" "bytes \<le> int64_max"
    and "\<forall>u. 0 \<le> cons m u \<and> cons m u \<le> int64_max - bytes \<and> lim m u \<le> int64_max"
  shows "\<exists>r m'. SpareCapacity m t = Inr r \<and> TryConsume e m t bytes = Inr (bytes \<le> r, m')"
proof -
  have g: "wf_mem m" "no_gauge m" using assms(1) by (simp_all add: good_mem_def)
  have i: "\<forall>u. in64 (cons m u)"
  proof
    fix u
    have "0 \<le> cons m u" "cons m u \<le> int64_max - bytes" using assms(6) by auto
    then show "in64 (cons m u)" using assms(4) by (simp add: in64_def int64_min_def)
  qed
  obtain r where "SpareCapacity m t = Inr r" "bytes \<le> r \<longleftrightarrow> list_all (fits m bytes) (path m t)"
    using SpareCapacity_fits [OF g assms(2,4,5)] assms(6) by blast
  then show ?thesis using TryConsume_all_or_nothing [OF g assms(2-4) i, of e] by auto
qed

lemma SpareCapacity_exact_witness:
  "\<exists>r m'. SpareCapacity example_tree 2 = Inr r \<and> TryConsume idle_env example_tree 2 30 = Inr (30 \<le> r, m')"
  by (rule SpareCapacity_exact [OF example_tree_good])
    (auto simp: example_tree_fields int64_max_def)

text \<open>
  Creating a tracker keeps the tree well formed and the ledger balanced: the new tracker
  has its own limit, an empty counter and the path of its parent behind itself, every other
  tracker keeps its path, limit and counter.
\<close>

theorem CreateTracker_keeps:
  assumes "good_mem m" "alive m p" "balanced m d (\<lambda>_. 0)"
  shows "\<exists>t m'. CreateTracker e lm ident p sd m = Inr (t, m') \<and> good_mem m' \<and> \<not> alive m t
    \<and> path m' t = t # path m p \<and> lim m' t = lm \<and> balanced m' (d(t := 0)) (\<lambda>_. 0)
    \<and> (\<forall>u. alive m u \<longrightarrow> alive m' u \<and> path m' u = path m u \<and> lim m' u = lim m u \<and> cons m' u = cons m u)"
proof -
  obtain t m' where c: "CreateTracker e lm ident p sd m = Inr (t, m')"
    using CreateTracker_result [OF assms(1,2)] by blast
  then show ?thesis
    using CreateTracker_good [OF assms(1,2) c] CreateTracker_balanced [OF assms(1,2) c assms(3)] by blast
qed

lemma CreateTracker_keeps_witness:
  "\<exists>t m'. CreateTracker idle_env 5 (str ''x'') 2 7 example_tree = Inr (t, m') \<and> good_mem m' \<and> \<not> alive example_tree t
    \<and> path m' t = t # path example_tree 2 \<and> lim m' t = 5
    \<and> balanced m' (((\<lambda>_. 0)(0 := 20, 1 := 20, 2 := 10))(t := 0)) (\<lambda>_. 0)
    \<and> alive m' 1 \<and> path m' 1 = path example_tree 1 \<and> cons m' 1 = cons example_tree 1"
  using CreateTracker_keeps [OF example_tree_good _ example_tree_balanced, of 2 idle_env 5 "str ''x''" 7]
  by (auto simp: example_tree_fields)

text \<open>
  The comment in \<^verbatim>\<open>Release\<close> says that a tracker fed by a consumption function may go
  negative without harm; the check that follows aborts for exactly these trackers.
\<close>

lemma bump_aborts_gauge:
  assumes "trackers m t = Some T" "consumption_func T = Some f" "wrap64 (consumption T + a) < 0"
  shows "bump a (t # ts) m = Inl CheckFailed"
  using assms by (simp add: increment_def on_counter_def get_def put_def consumption_def)

end
