(* ===== verification/BlockingQueues.thy ===== *)
theory BlockingQueues
  imports Prelude
begin

text \<open>
  The bounded queue between threads, \<^verbatim>\<open>base/sync/blocking_queue.h\<close>.  Every operation holds
  the lock of the queue from its start to its end or to the point where it waits, so an
  attempt of an operation is one step: it ends, or it blocks on one of the two conditions
  and is attempted again after a wake-up.  Each attempt also reports the wake-ups it sends.
  \<open>ls\<close> is the logical size of an element, 1 for the default of the template.  The
  size is kept in unsigned 64-bit arithmetic.
\<close>

section \<open>State and attempts\<close>

datatype QueueStatus = QUEUE_SUCCESS | QUEUE_SHUTDOWN | QUEUE_FULL

fun QueueStatus_value :: "QueueStatus \<Rightarrow> int" where
  "QueueStatus_value QUEUE_SUCCESS = 0"
| "QueueStatus_value QUEUE_SHUTDOWN = 1"
| "QueueStatus_value QUEUE_FULL = 2"

record 'a BlockingQueue =
  shutdown :: bool
  qsize :: nat
  max_size :: nat
  elements :: "'a list"

datatype wakeup = NotEmptySignal | NotFullSignal | NotFullBroadcast | NotEmptyBroadcast

datatype 'r attempt = Returns 'r | WaitNotEmpty | WaitNotFull

definition DefaultLogicalSize :: "'a \<Rightarrow> nat" where
  "DefaultLogicalSize x = 1"

definition queue_new :: "nat \<Rightarrow> 'a BlockingQueue" where
  "queue_new n = \<lparr>shutdown = False, qsize = 0, max_size = n, elements = []\<rparr>"

definition increment_size :: "('a \<Rightarrow> nat) \<Rightarrow> 'a \<Rightarrow> 'a BlockingQueue \<Rightarrow> 'a BlockingQueue" where
  "increment_size ls x q = q\<lparr>qsize := (qsize q + ls x) mod 2 ^ 64\<rparr>"

definition decrement_size :: "('a \<Rightarrow> nat) \<Rightarrow> 'a \<Rightarrow> 'a BlockingQueue \<Rightarrow> 'a BlockingQueue" where
  "decrement_size ls x q = q\<lparr>qsize := nat ((int (qsize q) - int (ls x)) mod 2 ^ 64)\<rparr>"

type_synonym ('a, 'r) step = "'r attempt \<times> wakeup list \<times> 'a BlockingQueue"

definition BlockingGet :: "('a \<Rightarrow> nat) \<Rightarrow> 'a BlockingQueue \<Rightarrow> ('a, 'a option) step" where
  "BlockingGet ls q =
    (case elements q of
       x # xs \<Rightarrow> (Returns (Some x), [NotFullSignal], decrement_size ls x (q\<lparr>elements := xs\<rparr>))
     | [] \<Rightarrow> if shutdown q then (Returns None, [], q) else (WaitNotEmpty, [], q))"

definition BlockingDrainTo :: "('a \<Rightarrow> nat) \<Rightarrow> 'a BlockingQueue \<Rightarrow> ('a, 'a list option) step" where
  "BlockingDrainTo ls q =
    (if elements q \<noteq> [] then
       (Returns (Some (elements q)), [NotFullSignal],
        (foldl (\<lambda>q x. decrement_size ls x q) q (elements q))\<lparr>elements := []\<rparr>)
     else if shutdown q then (Returns None, [], q) else (WaitNotEmpty, [], q))"

definition push_element :: "('a \<Rightarrow> nat) \<Rightarrow> 'a \<Rightarrow> 'a BlockingQueue \<Rightarrow> 'a BlockingQueue" where
  "push_element ls x q = increment_size ls x (q\<lparr>elements := elements q @ [x]\<rparr>)"

definition Put :: "('a \<Rightarrow> nat) \<Rightarrow> 'a \<Rightarrow> 'a BlockingQueue \<Rightarrow> ('a, QueueStatus) step" where
  "Put ls x q =
    (if qsize q \<ge> max_size q then (Returns QUEUE_FULL, [], q)
     else if shutdown q then (Returns QUEUE_SHUTDOWN, [], q)
     else (Returns QUEUE_SUCCESS, [NotEmptySignal], push_element ls x q))"

text \<open>The second component says whether the scoped pointer gave up the element.\<close>

definition Put_scoped :: "('a \<Rightarrow> nat) \<Rightarrow> 'a \<Rightarrow> 'a BlockingQueue \<Rightarrow> ('a, QueueStatus \<times> bool) step" where
  "Put_scoped ls x q =
    (case Put ls x q of
       (Returns s, w, q) \<Rightarrow> (Returns (s, s = QUEUE_SUCCESS), w, q)
     | (WaitNotEmpty, w, q) \<Rightarrow> (WaitNotEmpty, w, q)
     | (WaitNotFull, w, q) \<Rightarrow> (WaitNotFull, w, q))"

definition BlockingPut :: "('a \<Rightarrow> nat) \<Rightarrow> 'a \<Rightarrow> 'a BlockingQueue \<Rightarrow> ('a, bool) step" where
  "BlockingPut ls x q =
    (if shutdown q then (Returns False, [], q)
     else if qsize q < max_size q then (Returns True, [NotEmptySignal], push_element ls x q)
     else (WaitNotFull, [], q))"

text \<open>
  The overload for scoped pointers calls \<^verbatim>\<open>Put\<close> and converts its status to a truth value.
\<close>

definition BlockingPut_scoped :: "('a \<Rightarrow> nat) \<Rightarrow> 'a \<Rightarrow> 'a BlockingQueue \<Rightarrow> ('a, bool \<times> bool) step" where
  "BlockingPut_scoped ls x q =
    (case Put ls x q of
       (Returns s, w, q) \<Rightarrow> (let ret = (QueueStatus_value s \<noteq> 0) in (Returns (ret, ret), w, q))
     | (WaitNotEmpty, w, q) \<Rightarrow> (WaitNotEmpty, w, q)
     | (WaitNotFull, w, q) \<Rightarrow> (WaitNotFull, w, q))"

definition Shutdown :: "'a BlockingQueue \<Rightarrow> ('a, unit) step" where
  "Shutdown q = (Returns (), [NotFullBroadcast, NotEmptyBroadcast], q\<lparr>shutdown := True\<rparr>)"

definition queue_empty :: "'a BlockingQueue \<Rightarrow> bool" where
  "queue_empty q \<longleftrightarrow> elements q = []"

text \<open>The destructor of a queue of bare pointers (\<open>ptr\<close>) checks that it is empty.\<close>

definition queue_destroy :: "bool \<Rightarrow> 'a BlockingQueue \<Rightarrow> fault + unit" where
  "queue_destroy ptr q = (if elements q = [] \<or> \<not> ptr then Inr () else Inl CheckFailed)"

section \<open>Runs\<close>

text \<open>One attempt of some thread, and what it hands over.\<close>

datatype 'a op = OpGet | OpDrain | OpPut 'a | OpBlockingPut 'a | OpShutdown

datatype 'a event = Taken "'a list" | Accepted 'a | Other

definition attempt_op :: "('a \<Rightarrow> nat) \<Rightarrow> 'a op \<Rightarrow> 'a BlockingQueue \<Rightarrow> 'a event \<times> wakeup list \<times> 'a BlockingQueue" where
  "attempt_op ls oper q =
    (case oper of
       OpGet \<Rightarrow> (case BlockingGet ls q of (Returns (Some x), w, q) \<Rightarrow> (Taken [x], w, q) | (_, w, q) \<Rightarrow> (Other, w, q))
     | OpDrain \<Rightarrow> (case BlockingDrainTo ls q of (Returns (Some xs), w, q) \<Rightarrow> (Taken xs, w, q) | (_, w, q) \<Rightarrow> (Other, w, q))
     | OpPut x \<Rightarrow> (case Put ls x q of (Returns QUEUE_SUCCESS, w, q) \<Rightarrow> (Accepted x, w, q) | (_, w, q) \<Rightarrow> (Other, w, q))
     | OpBlockingPut x \<Rightarrow> (case BlockingPut ls x q of (Returns True, w, q) \<Rightarrow> (Accepted x, w, q) | (_, w, q) \<Rightarrow> (Other, w, q))
     | OpShutdown \<Rightarrow> (case Shutdown q of (_, w, q) \<Rightarrow> (Other, w, q)))"

fun run_ops :: "('a \<Rightarrow> nat) \<Rightarrow> 'a op list \<Rightarrow> 'a BlockingQueue \<Rightarrow> 'a event list \<times> 'a BlockingQueue" where
  "run_ops ls [] q = ([], q)"
| "run_ops ls (oper # os) q =
    (let (ev, _, q) = attempt_op ls oper q; (evs, q) = run_ops ls os q in (ev # evs, q))"

fun taken :: "'a event list \<Rightarrow> 'a list" where
  "taken [] = []"
| "taken (Taken xs # evs) = xs @ taken evs"
| "taken (_ # evs) = taken evs"

fun accepted :: "'a event list \<Rightarrow> 'a list" where
  "accepted [] = []"
| "accepted (Accepted x # evs) = x # accepted evs"
| "accepted (_ # evs) = accepted evs"

section \<open>The interface of a queue\<close>

text \<open>
  A step of a first-in first-out queue takes a front part of the content, or adds an element
  behind it, or leaves it.
\<close>

locale fifo =
  fixes content :: "'q \<Rightarrow> 'a list"
    and step_op :: "'o \<Rightarrow> 'q \<Rightarrow> 'a event \<times> 'q"
  assumes step_fifo: "step_op oper q = (ev, q') \<Longrightarrow>
    content q @ accepted [ev] = taken [ev] @ content q'"
begin

fun run_steps :: "'o list \<Rightarrow> 'q \<Rightarrow> 'a event list \<times> 'q" where
  "run_steps [] q = ([], q)"
| "run_steps (oper # os) q =
    (let (ev, q) = step_op oper q; (evs, q) = run_steps os q in (ev # evs, q))"

lemma accepted_Cons: "accepted (ev # evs) = accepted [ev] @ accepted evs"
  by (cases ev) simp_all

lemma taken_Cons: "taken (ev # evs) = taken [ev] @ taken evs"
  by (cases ev) simp_all

lemma run_fifo:
  "run_steps os q = (evs, q') \<Longrightarrow> content q @ accepted evs = taken evs @ content q'"
proof (induction os arbitrary: q evs)
  case (Cons oper os)
  obtain ev q1 evs1 where s: "step_op oper q = (ev, q1)" "run_steps os q1 = (evs1, q')" "evs = ev # evs1"
    using Cons.prems by (auto split: prod.splits)
  have "content q @ accepted evs = (content q @ accepted [ev]) @ accepted evs1"
    by (subst s(3), subst accepted_Cons) simp
  also have "\<dots> = taken [ev] @ content q1 @ accepted evs1" using step_fifo [OF s(1)] by simp
  also have "\<dots> = taken [ev] @ taken evs1 @ content q'" using Cons.IH [OF s(2)] by simp
  also have "\<dots> = taken evs @ content q'" by (subst s(3), subst taken_Cons [of ev evs1]) simp
  finally show ?case .
qed simp

end

lemmas queue_ops = BlockingGet_def BlockingDrainTo_def Put_def BlockingPut_def Shutdown_def attempt_op_def
  push_element_def increment_size_def

lemma decrement_size_other [simp]:
  "elements (decrement_size ls x q) = elements q" "shutdown (decrement_size ls x q) = shutdown q"
  "max_size (decrement_size ls x q) = max_size q"
  by (simp_all add: decrement_size_def)

lemma foldl_decrement_elements [simp]:
  "elements (foldl (\<lambda>q x. decrement_size ls x q) q xs) = elements q"
  "shutdown (foldl (\<lambda>q x. decrement_size ls x q) q xs) = shutdown q"
  "max_size (foldl (\<lambda>q x. decrement_size ls x q) q xs) = max_size q"
  by (induction xs arbitrary: q) (simp_all add: decrement_size_def)

interpretation bq: fifo elements "\<lambda>oper q. (fst (attempt_op ls oper q), snd (snd (attempt_op ls oper q)))" for ls
  by unfold_locales (auto simp: queue_ops split: op.splits list.splits if_splits)

lemma run_ops_run: "run_ops ls os q = bq.run_steps ls os q"
  by (induction os arbitrary: q) (auto simp: split: prod.splits)

section \<open>The size counter\<close>

definition total_size :: "('a \<Rightarrow> nat) \<Rightarrow> 'a list \<Rightarrow> nat" where
  "total_size ls xs = sum_list (map ls xs)"

definition queue_wf :: "('a \<Rightarrow> nat) \<Rightarrow> 'a BlockingQueue \<Rightarrow> bool" where
  "queue_wf ls q \<longleftrightarrow> qsize q = total_size ls (elements q) mod 2 ^ 64"

lemma nat_mod_diff: "a mod m = (b + c) mod m \<Longrightarrow> 0 < m \<Longrightarrow> nat ((int (a mod m) - int b) mod int m) = c mod m"
proof -
  assume a: "a mod m = (b + c) mod m" and m: "0 < m"
  have "(int (a mod m) - int b) mod int m = (int b + int c - int b) mod int m"
    by (simp add: a zmod_int mod_diff_left_eq)
  then show ?thesis using m by (simp add: zmod_int [symmetric])
qed

lemma decrement_front:
  "qsize q = total_size ls (x # xs) mod 2 ^ 64 \<Longrightarrow> qsize (decrement_size ls x q) = total_size ls xs mod 2 ^ 64"
  using nat_mod_diff [of "total_size ls (x # xs)" "2 ^ 64" "ls x" "total_size ls xs"]
  by (simp add: decrement_size_def total_size_def)

lemma decrement_all:
  "qsize q = total_size ls (xs @ ys) mod 2 ^ 64 \<Longrightarrow>
    qsize (foldl (\<lambda>q x. decrement_size ls x q) q xs) = total_size ls ys mod 2 ^ 64"
proof (induction xs arbitrary: q)
  case (Cons x xs)
  then have "qsize (decrement_size ls x q) = total_size ls (xs @ ys) mod 2 ^ 64"
    using decrement_front [of q ls x "xs @ ys"] by simp
  then show ?case using Cons.IH by simp
qed simp

lemma get_wf:
  "queue_wf ls q \<Longrightarrow> elements q = x # xs \<Longrightarrow> queue_wf ls (decrement_size ls x (q\<lparr>elements := xs\<rparr>))"
  using decrement_front [of "q\<lparr>elements := xs\<rparr>" ls x xs] by (simp add: queue_wf_def)

lemma drain_wf:
  "queue_wf ls q \<Longrightarrow> queue_wf ls ((foldl (\<lambda>q x. decrement_size ls x q) q (elements q))\<lparr>elements := []\<rparr>)"
  using decrement_all [of q ls "elements q" "[]"] by (simp add: queue_wf_def)

lemma push_wf: "queue_wf ls q \<Longrightarrow> queue_wf ls (push_element ls x q)"
  by (simp add: queue_wf_def push_element_def increment_size_def total_size_def mod_add_left_eq add.commute)
     (simp add: mod_simps)

lemma attempt_wf:
  "queue_wf ls q \<Longrightarrow> queue_wf ls (snd (snd (attempt_op ls oper q)))"
  by (cases oper)
    (auto simp: attempt_op_def BlockingGet_def BlockingDrainTo_def Put_def BlockingPut_def Shutdown_def
      get_wf drain_wf push_wf split: list.splits, simp_all add: queue_wf_def)

lemma run_wf: "queue_wf ls q \<Longrightarrow> queue_wf ls (snd (run_ops ls os q))"
proof (induction os arbitrary: q)
  case (Cons oper os)
  then show ?case using attempt_wf [OF Cons.prems, of oper] by (auto split: prod.splits) (metis snd_conv)
qed simp

text \<open>With the default logical size the bound on the size is a bound on the number of elements.\<close>

lemma attempt_bound:
  assumes "queue_wf DefaultLogicalSize q" "length (elements q) \<le> max_size q" "max_size q < 2 ^ 64"
  shows "length (elements (snd (snd (attempt_op DefaultLogicalSize oper q)))) \<le> max_size q
    \<and> max_size (snd (snd (attempt_op DefaultLogicalSize oper q))) = max_size q"
proof -
  have t: "total_size DefaultLogicalSize xs = length xs" for xs :: "'a list"
    by (induction xs) (simp_all add: total_size_def DefaultLogicalSize_def)
  have "qsize q = length (elements q)" using assms by (simp add: queue_wf_def t)
  then show ?thesis
    using assms(2) by (cases oper) (auto simp: queue_ops split: list.splits)
qed

lemma run_bound:
  assumes "queue_wf DefaultLogicalSize q" "length (elements q) \<le> max_size q" "max_size q < 2 ^ 64"
  shows "length (elements (snd (run_ops DefaultLogicalSize os q))) \<le> max_size q"
  using assms
proof (induction os arbitrary: q)
  case (Cons oper os)
  obtain ev w q1 where s: "attempt_op DefaultLogicalSize oper q = (ev, w, q1)" by (metis prod_cases3)
  have "length (elements q1) \<le> max_size q1" "max_size q1 = max_size q" "queue_wf DefaultLogicalSize q1"
    using attempt_bound [OF Cons.prems, of oper] attempt_wf [OF Cons.prems(1), of oper] s by simp_all
  then show ?case using Cons.IH [of q1] Cons.prems(3) s by (auto split: prod.splits)
qed simp

section \<open>Properties\<close>

text \<open>
  C28: The queue is first-in first-out across all threads: after any sequence of attempts on a
  new queue, the values accepted so far are the values handed out so far followed by the
  content, in this order; the size counter is the total size of the content in 64-bit
  arithmetic.
\<close>

theorem queue_fifo:
  "accepted (fst (run_ops ls os (queue_new n)))
      = taken (fst (run_ops ls os (queue_new n))) @ elements (snd (run_ops ls os (queue_new n)))
    \<and> qsize (snd (run_ops ls os (queue_new n))) = total_size ls (elements (snd (run_ops ls os (queue_new n)))) mod 2 ^ 64"
proof -
  have "queue_wf ls (queue_new n)" by (simp add: queue_wf_def queue_new_def total_size_def)
  then have "queue_wf ls (snd (run_ops ls os (queue_new n)))" by (rule run_wf)
  moreover have "elements (queue_new n) @ accepted (fst (run_ops ls os (queue_new n)))
      = taken (fst (run_ops ls os (queue_new n))) @ elements (snd (run_ops ls os (queue_new n)))"
    using bq.run_fifo [of ls os "queue_new n" "fst (run_ops ls os (queue_new n))" "snd (run_ops ls os (queue_new n))"]
    by (simp add: run_ops_run)
  ultimately show ?thesis by (simp add: queue_wf_def queue_new_def)
qed

text \<open>
  With the default logical size the queue never holds more than \<^verbatim>\<open>max_size\<close> elements,
  whatever the threads attempt.
\<close>

theorem queue_bounded:
  assumes "n < 2 ^ 64"
  shows "length (elements (snd (run_ops DefaultLogicalSize os (queue_new n)))) \<le> n"
  using run_bound [of "queue_new n" os] assms
  by (simp add: queue_new_def queue_wf_def total_size_def)

lemma queue_bounded_witness:
  "length (elements (snd (run_ops DefaultLogicalSize [OpPut (1 :: nat), OpPut 2, OpBlockingPut 3] (queue_new 2)))) \<le> 2"
  by (rule queue_bounded) simp

text \<open>
  No wake-up is forgotten: an attempt that ends an empty queue signals that it is not
  empty, one that makes room in a full queue signals that it is not full, and the shutdown,
  which ends both waits, broadcasts on both conditions.
\<close>

theorem wakeups_sent:
  "(elements q = [] \<and> elements (snd (snd (attempt_op ls oper q))) \<noteq> []
      \<longrightarrow> NotEmptySignal \<in> set (fst (snd (attempt_op ls oper q))))
    \<and> (qsize q \<ge> max_size q \<and> qsize (snd (snd (attempt_op ls oper q))) < max_size q
      \<longrightarrow> NotFullSignal \<in> set (fst (snd (attempt_op ls oper q))))
    \<and> (\<not> shutdown q \<and> shutdown (snd (snd (attempt_op ls oper q)))
      \<longrightarrow> {NotFullBroadcast, NotEmptyBroadcast} \<subseteq> set (fst (snd (attempt_op ls oper q))))"
  by (cases oper) (auto simp: queue_ops split: list.splits)

definition example_queue :: "nat BlockingQueue" where "example_queue = queue_new 1"

lemma wakeups_sent_witness:
  "NotEmptySignal \<in> set (fst (snd (attempt_op DefaultLogicalSize (OpPut (7 :: nat)) example_queue)))"
  using wakeups_sent [of example_queue DefaultLogicalSize "OpPut 7"]
  by (auto simp: example_queue_def queue_new_def queue_ops)

text \<open>
  The overload of \<^verbatim>\<open>BlockingPut\<close> for scoped pointers reads the status backwards and never
  blocks: an element that was queued is reported as not queued and kept by the pointer as
  well, so it has two owners, and an element turned away because the queue is full or shut
  down is reported as queued and given up, so it has none.
\<close>

theorem BlockingPut_scoped_inverted:
  "(case BlockingPut_scoped ls x q of (Returns (ret, released), w, q') \<Rightarrow>
      (elements q' = elements q @ [x] \<longleftrightarrow> \<not> ret) \<and> (released \<longleftrightarrow> elements q' = elements q)
    | _ \<Rightarrow> False)"
  by (auto simp: BlockingPut_scoped_def Put_def push_element_def increment_size_def Let_def)

text \<open>
  A queue that is both full and shut down answers \<^verbatim>\<open>QUEUE_FULL\<close>, where the comment on
  \<^verbatim>\<open>Shutdown\<close> promises \<^verbatim>\<open>QUEUE_SHUTDOWN\<close>.
\<close>

lemma full_before_shutdown:
  "fst (Put DefaultLogicalSize (2 :: nat) \<lparr>shutdown = True, qsize = 1, max_size = 1, elements = [1]\<rparr>) = Returns QUEUE_FULL"
  by (simp add: Put_def)

end
