(* ===== verification/Latches.thy ===== *)
theory Latches
  imports StatusCode MonoTime
begin

text \<open>
  One-shot and cyclic synchronisation: \<^verbatim>\<open>base/sync/countdown_latch.h\<close>,
  \<^verbatim>\<open>base/sync/barrier.h\<close>, \<^verbatim>\<open>base/promise.h\<close>, the synchronizer of \<^verbatim>\<open>base/async_util.h\<close>,
  \<^verbatim>\<open>base/scoped_cleanup.h\<close>, the scoped mutex lock of \<^verbatim>\<open>base/sync/mutex.h\<close> and the deadline
  computed by \<^verbatim>\<open>base/sync/condition_variable.cc\<close>.  Operations hold the lock of their object,
  so each is one step; a wait is an attempt that returns or blocks.
\<close>

section \<open>The latch\<close>

record CountDownLatch =
  latch_count :: nat

text \<open>The counter is unsigned and is initialised from an \<^verbatim>\<open>int\<close>.\<close>

definition latch_new :: "int \<Rightarrow> CountDownLatch" where
  "latch_new count = \<lparr>latch_count = nat (count mod 2 ^ 64)\<rparr>"

text \<open>The result says whether the waiters were woken.\<close>

definition CountDown :: "int \<Rightarrow> CountDownLatch \<Rightarrow> fault + bool \<times> CountDownLatch" where
  "CountDown amount l =
    (if \<not> amount \<ge> 0 then Inl CheckFailed
     else if latch_count l = 0 then Inr (False, l)
     else
       let l = (if nat amount \<ge> latch_count l then l\<lparr>latch_count := 0\<rparr>
                else l\<lparr>latch_count := latch_count l - nat amount\<rparr>)
       in Inr (latch_count l = 0, l))"

definition CountDown1 :: "CountDownLatch \<Rightarrow> fault + bool \<times> CountDownLatch" where
  "CountDown1 l = CountDown 1 l"

definition latch_Wait :: "CountDownLatch \<Rightarrow> bool" where
  "latch_Wait l \<longleftrightarrow> \<not> latch_count l > 0"

text \<open>
  \<^verbatim>\<open>WaitFor\<close> waits again after every wake-up that finds the counter above zero.  Each
  element of the list is one timed wait: whether it was woken rather than timed out, and the
  counter it found then.  With the list used up it still waits.
\<close>

fun latch_WaitFor :: "(bool \<times> nat) list \<Rightarrow> nat \<Rightarrow> bool option" where
  "latch_WaitFor waits count =
    (if count > 0 then
       (case waits of
          [] \<Rightarrow> None
        | (woken, c) # ws \<Rightarrow> if \<not> woken then Some False else latch_WaitFor ws c)
     else Some True)"

declare latch_WaitFor.simps [simp del]

definition latch_Reset :: "nat \<Rightarrow> CountDownLatch \<Rightarrow> bool \<times> CountDownLatch" where
  "latch_Reset count l = (let l = l\<lparr>latch_count := count\<rparr> in (latch_count l = 0, l))"

text \<open>The destructor of \<^verbatim>\<open>CountDownOnScopeExit\<close>.\<close>

definition CountDownOnScopeExit :: "CountDownLatch \<Rightarrow> fault + bool \<times> CountDownLatch" where
  "CountDownOnScopeExit l = CountDown1 l"

section \<open>The barrier\<close>

record Barrier =
  barrier_count :: int
  cycle_count :: u32
  initial_count :: int

definition barrier_new :: "int \<Rightarrow> fault + Barrier" where
  "barrier_new count =
    (if \<not> count > 0 then Inl CheckFailed
     else Inr \<lparr>barrier_count = count, cycle_count = 0, initial_count = count\<rparr>)"

text \<open>
  The arrival at \<^verbatim>\<open>Wait\<close>: \<open>None\<close> for the thread that completes the round, and
  otherwise the cycle the thread waits to see the end of.
\<close>

definition barrier_arrive :: "Barrier \<Rightarrow> u32 option \<times> Barrier" where
  "barrier_arrive b =
    (let b = b\<lparr>barrier_count := barrier_count b - 1\<rparr> in
     if barrier_count b = 0 then
       (None, b\<lparr>barrier_count := initial_count b, cycle_count := cycle_count b + 1\<rparr>)
     else (Some (cycle_count b), b))"

definition barrier_leave :: "u32 \<Rightarrow> Barrier \<Rightarrow> bool" where
  "barrier_leave initial_cycle b \<longleftrightarrow> cycle_count b \<noteq> initial_cycle"

section \<open>Promise, synchronizer, cleanup, scoped lock\<close>

record 'a Promise =
  promise_latch :: CountDownLatch
  promise_val :: 'a

definition promise_new :: "'a \<Rightarrow> 'a Promise" where
  "promise_new dflt = \<lparr>promise_latch = latch_new 1, promise_val = dflt\<rparr>"

definition promise_Reset :: "'a \<Rightarrow> 'a Promise \<Rightarrow> 'a Promise" where
  "promise_Reset dflt p =
    p\<lparr>promise_latch := snd (latch_Reset 1 (promise_latch p)), promise_val := dflt\<rparr>"

text \<open>\<open>None\<close> while the value is missing.\<close>

definition promise_Get :: "'a Promise \<Rightarrow> 'a option" where
  "promise_Get p = (if latch_Wait (promise_latch p) then Some (promise_val p) else None)"

definition promise_WaitFor :: "(bool \<times> nat) list \<Rightarrow> 'a Promise \<Rightarrow> 'a option option" where
  "promise_WaitFor waits p =
    map_option (\<lambda>ok. if ok then Some (promise_val p) else None)
      (latch_WaitFor waits (latch_count (promise_latch p)))"

definition promise_Set :: "'a \<Rightarrow> 'a Promise \<Rightarrow> fault + 'a Promise" where
  "promise_Set v p =
    (if \<not> latch_count (promise_latch p) = 1 then Inl CheckFailed
     else
       bindE (CountDown1 (promise_latch p)) (\<lambda>(_, l).
       Inr (p\<lparr>promise_val := v, promise_latch := l\<rparr>)))"

record Synchronizer =
  sync_status :: Status
  sync_latch :: CountDownLatch

definition synchronizer_new :: Synchronizer where
  "synchronizer_new = \<lparr>sync_status = status_OK, sync_latch = latch_new 1\<rparr>"

definition StatusCB :: "Status \<Rightarrow> Synchronizer \<Rightarrow> fault + Synchronizer" where
  "StatusCB st s =
    bindE (status_assign False (sync_status s) st) (\<lambda>t.
    bindE (CountDown1 (sync_latch s)) (\<lambda>(_, l).
    Inr (s\<lparr>sync_status := t, sync_latch := l\<rparr>)))"

definition synchronizer_Wait :: "Synchronizer \<Rightarrow> Status option" where
  "synchronizer_Wait s = (if latch_Wait (sync_latch s) then Some (sync_status s) else None)"

definition synchronizer_WaitFor :: "(bool \<times> nat) list \<Rightarrow> Synchronizer \<Rightarrow> (fault + Status) option" where
  "synchronizer_WaitFor waits s =
    map_option (\<lambda>ok. if \<not> ok
        then TimedOut (slice_of_string (str ''Timed out while waiting for the callback to be called.''))
          slice_empty (-1)
        else Inr (sync_status s))
      (latch_WaitFor waits (latch_count (sync_latch s)))"

definition synchronizer_Reset :: "Synchronizer \<Rightarrow> Synchronizer" where
  "synchronizer_Reset s = s\<lparr>sync_latch := snd (latch_Reset 1 (sync_latch s))\<rparr>"

text \<open>The state is a flag; the destructor runs the function \<open>f\<close> on the world.\<close>

record ScopedCleanup =
  cancelled :: bool

definition cleanup_new :: ScopedCleanup where "cleanup_new = \<lparr>cancelled = False\<rparr>"

definition cleanup_cancel :: "ScopedCleanup \<Rightarrow> ScopedCleanup" where
  "cleanup_cancel c = c\<lparr>cancelled := True\<rparr>"

definition cleanup_end :: "('w \<Rightarrow> 'w) \<Rightarrow> ScopedCleanup \<Rightarrow> 'w \<Rightarrow> 'w" where
  "cleanup_end f c w = (if \<not> cancelled c then f w else w)"

text \<open>
  The scoped lock: the flag says whether it owns the mutex; \<open>held\<close> is the state of the
  mutex, and an acquisition of a held mutex blocks (\<open>None\<close>).
\<close>

record MutexLock =
  owned :: bool

definition mutex_TryAcquire :: "bool \<Rightarrow> bool \<times> bool" where
  "mutex_TryAcquire held = (\<not> held, True)"

definition mutex_Acquire :: "bool \<Rightarrow> bool option" where
  "mutex_Acquire held = (if held then None else Some True)"

definition MutexLock_new :: "bool \<Rightarrow> (MutexLock \<times> bool) option" where
  "MutexLock_new held = map_option (\<lambda>h. (\<lparr>owned = True\<rparr>, h)) (mutex_Acquire held)"

definition MutexLock_Lock :: "MutexLock \<Rightarrow> bool \<Rightarrow> fault + (MutexLock \<times> bool) option" where
  "MutexLock_Lock l held =
    (if \<not> \<not> owned l then Inl CheckFailed
     else Inr (map_option (\<lambda>h. (l\<lparr>owned := True\<rparr>, h)) (mutex_Acquire held)))"

definition MutexLock_Unlock :: "MutexLock \<Rightarrow> bool \<Rightarrow> fault + MutexLock \<times> bool" where
  "MutexLock_Unlock l held =
    (if \<not> owned l then Inl CheckFailed else Inr (l\<lparr>owned := False\<rparr>, False))"

definition MutexLock_end :: "MutexLock \<Rightarrow> bool \<Rightarrow> fault + bool" where
  "MutexLock_end l held =
    (if owned l then map_sum id snd (MutexLock_Unlock l held) else Inr held)"

section \<open>The deadline of a timed wait\<close>

text \<open>\<open>None\<close> when the wait time is negative and the call returns at once.\<close>

definition TimedWait_deadline :: "MonoDelta \<Rightarrow> timespec \<Rightarrow> fault + timespec option" where
  "TimedWait_deadline wait_time now =
    bindE (ToNanoseconds wait_time) (\<lambda>nsecs.
    if nsecs < 0 then Inr None
    else
      bindE (ToTimeSpec wait_time) (\<lambda>rel.
      let sec = ts_sec now + ts_sec rel;
          nsec = ts_nsec now + ts_nsec rel;
          sec = sec + c_div nsec kNanosecondsPerSecond;
          nsec = c_mod nsec kNanosecondsPerSecond
      in if \<not> sec \<ge> ts_sec now then Inl CheckFailed else Inr (Some \<lparr>ts_sec = sec, ts_nsec = nsec\<rparr>)))"

section \<open>The interface of a latch\<close>

text \<open>
  What the promise and the synchronizer rely on: a new latch is closed, counting down opens
  it, and an open latch stays open.
\<close>

locale one_shot =
  fixes closed :: 'l
    and trigger :: "'l \<Rightarrow> fault + bool \<times> 'l"
    and is_open :: "'l \<Rightarrow> bool"
  assumes starts_closed: "\<not> is_open closed"
    and trigger_closed: "\<exists>l. trigger closed = Inr (True, l) \<and> is_open l"
    and trigger_open: "is_open l \<Longrightarrow> trigger l = Inr (False, l)"
begin

lemma open_forever:
  "is_open l \<Longrightarrow> foldl (\<lambda>r _. bindE r (\<lambda>(_, l). trigger l)) (Inr (b, l)) [0..<Suc n] = Inr (False, l)"
  by (induction n) (simp_all add: trigger_open)

lemma triggered_once:
  "\<exists>l. trigger closed = Inr (True, l) \<and> is_open l \<and> trigger l = Inr (False, l)"
  using trigger_closed trigger_open by blast

end

interpretation latch: one_shot "latch_new 1" CountDown1 latch_Wait
  by unfold_locales (auto simp: latch_Wait_def latch_new_def CountDown1_def CountDown_def Let_def)

section \<open>Counting\<close>

fun count_downs :: "int list \<Rightarrow> CountDownLatch \<Rightarrow> fault + bool list \<times> CountDownLatch" where
  "count_downs [] l = Inr ([], l)"
| "count_downs (a # as) l =
    bindE (CountDown a l) (\<lambda>(w, l). map_sum id (\<lambda>(ws, l). (w # ws, l)) (count_downs as l))"

lemma count_downs_result:
  "list_all (\<lambda>a. 0 \<le> a) as \<Longrightarrow> \<exists>ws. count_downs as l = Inr (ws, \<lparr>latch_count = latch_count l - nat (sum_list as)\<rparr>)
    \<and> count_list ws True = (if 0 < latch_count l \<and> latch_count l \<le> nat (sum_list as) then 1 else 0)"
proof (induction as arbitrary: l)
  case (Cons a as)
  have s: "0 \<le> sum_list as" using Cons.prems by (simp add: list_all_iff sum_list_nonneg)
  obtain w l1 where 1: "CountDown a l = Inr (w, l1)" "l1 = \<lparr>latch_count = latch_count l - nat a\<rparr>"
    "w \<longleftrightarrow> 0 < latch_count l \<and> latch_count l \<le> nat a"
    using Cons.prems by (auto simp: CountDown_def Let_def)
  obtain ws where 2: "count_downs as l1 = Inr (ws, \<lparr>latch_count = latch_count l1 - nat (sum_list as)\<rparr>)"
    "count_list ws True = (if 0 < latch_count l1 \<and> latch_count l1 \<le> nat (sum_list as) then 1 else 0)"
    using Cons by fastforce
  have "nat (a + sum_list as) = nat a + nat (sum_list as)" using Cons.prems s by (simp add: nat_add_distrib)
  then show ?case using 1 2 by auto
qed auto

fun arrivals :: "nat \<Rightarrow> Barrier \<Rightarrow> u32 option list \<times> Barrier" where
  "arrivals 0 b = ([], b)"
| "arrivals (Suc k) b =
    (let (rs, b) = arrivals k b; (r, b) = barrier_arrive b in (rs @ [r], b))"

lemma arrivals_state:
  assumes "0 < n"
  shows "snd (arrivals k \<lparr>barrier_count = int n, cycle_count = 0, initial_count = int n\<rparr>)
    = \<lparr>barrier_count = int n - int (k mod n), cycle_count = word_of_nat (k div n), initial_count = int n\<rparr>
    \<and> fst (arrivals k \<lparr>barrier_count = int n, cycle_count = 0, initial_count = int n\<rparr>)
    = map (\<lambda>i. if Suc i mod n = 0 then None else Some (word_of_nat (i div n))) [0..<k]"
proof (induction k)
  case (Suc k)
  let ?b = "\<lparr>barrier_count = int n, cycle_count = 0, initial_count = int n\<rparr>"
  obtain rs b where r: "arrivals k ?b = (rs, b)" by fastforce
  have b: "b = \<lparr>barrier_count = int n - int (k mod n), cycle_count = word_of_nat (k div n), initial_count = int n\<rparr>"
    "rs = map (\<lambda>i. if Suc i mod n = 0 then None else Some (word_of_nat (i div n))) [0..<k]"
    using Suc r by simp_all
  show ?case
  proof (cases "Suc (k mod n) = n")
    case True
    then have "Suc k mod n = 0" "Suc k div n = Suc (k div n)" by (simp_all add: mod_Suc div_Suc)
    moreover have "int n - int (k mod n) - 1 = 0" using True by linarith
    ultimately show ?thesis using r b by (simp add: barrier_arrive_def Let_def add.commute)
  next
    case False
    then have "Suc k mod n = Suc (k mod n)" "Suc k div n = k div n" by (simp_all add: mod_Suc div_Suc)
    moreover have "int n - int (k mod n) - 1 \<noteq> 0" using False by linarith
    ultimately show ?thesis using r b by (simp add: barrier_arrive_def Let_def)
  qed
qed (use assms in simp)

lemma word_32_inj: "a < b + 2 ^ 32 \<Longrightarrow> b \<le> a \<Longrightarrow> (word_of_nat a :: u32) = word_of_nat b \<longleftrightarrow> a = b"
proof
  assume a: "a < b + 2 ^ 32" "b \<le> a" and w: "(word_of_nat a :: u32) = word_of_nat b"
  obtain k where k: "a = b + k" using a(2) by (metis le_Suc_ex)
  have "(word_of_nat k :: u32) = 0" using w by (simp add: k)
  moreover have "k < 2 ^ 32" using a(1) k by simp
  ultimately have "k = 0" using unat_word_of_nat_32 [of k] by (metis unat_0)
  then show "a = b" using k by simp
qed simp

lemma NanosToTimeSpec_ns:
  "ts_sec (NanosToTimeSpec n) * 1000000000 + ts_nsec (NanosToTimeSpec n) = n"
  by (simp add: NanosToTimeSpec_floor)

section \<open>Properties\<close>

text \<open>
  The latch counts down to zero and never below: after counting down by amounts that are
  not negative the counter is the difference cut off at zero, and the waiters were woken
  exactly once if it has reached zero and was not zero before, and otherwise not at all.
\<close>

theorem latch_counts:
  assumes "list_all (\<lambda>a. 0 \<le> a) as"
  shows "\<exists>ws. count_downs as l = Inr (ws, \<lparr>latch_count = latch_count l - nat (sum_list as)\<rparr>)
    \<and> count_list ws True = (if 0 < latch_count l \<and> latch_count l \<le> nat (sum_list as) then 1 else 0)"
  using assms by (rule count_downs_result)

lemma latch_counts_witness:
  "\<exists>ws. count_downs [1, 0, 4, 2] (latch_new 3)
      = Inr (ws, \<lparr>latch_count = latch_count (latch_new 3) - nat (sum_list [1, 0, 4, 2])\<rparr>)
    \<and> count_list ws True
      = (if 0 < latch_count (latch_new 3) \<and> latch_count (latch_new 3) \<le> nat (sum_list [1, 0, 4, 2]) then 1 else 0)"
  by (rule latch_counts) simp

text \<open>
  A barrier for \<open>n\<close> threads lets them through in rounds of \<open>n\<close>: the
  \<open>i\<close>-th arrival (from 0) returns at once exactly when it completes a round, and a
  thread that waits can leave, after \<open>k\<close> arrivals, exactly when its own round is
  complete, as long as fewer than \<open>2^32\<close> rounds have passed.
\<close>

theorem barrier_rounds:
  assumes "0 < n" "barrier_new (int n) = Inr b" "i < k" "k div n < i div n + 2 ^ 32"
  shows "case fst (arrivals k b) ! i of None \<Rightarrow> Suc i mod n = 0
    | Some c \<Rightarrow> Suc i mod n \<noteq> 0 \<and> (barrier_leave c (snd (arrivals k b)) \<longleftrightarrow> (i div n + 1) * n \<le> k)"
proof -
  have b: "b = \<lparr>barrier_count = int n, cycle_count = 0, initial_count = int n\<rparr>"
    using assms(1,2) by (simp add: barrier_new_def)
  have d: "i div n \<le> k div n" using assms(3) by (simp add: div_le_mono)
  have "(k div n \<noteq> i div n) \<longleftrightarrow> (i div n + 1) * n \<le> k"
    using d assms(1) by (metis Suc_eq_plus1 div_less_iff_less_mult le_antisym not_less not_less_eq_eq)
  then show ?thesis
    using assms(3) arrivals_state [OF assms(1), of k] word_32_inj [OF assms(4) d]
    by (auto simp: b barrier_leave_def)
qed

lemma barrier_rounds_witness:
  "case fst (arrivals 7 \<lparr>barrier_count = 3, cycle_count = 0, initial_count = 3\<rparr>) ! 3 of None \<Rightarrow> Suc 3 mod (3 :: nat) = 0
    | Some c \<Rightarrow> Suc 3 mod 3 \<noteq> 0
      \<and> (barrier_leave c (snd (arrivals 7 \<lparr>barrier_count = 3, cycle_count = 0, initial_count = 3\<rparr>))
          \<longleftrightarrow> (3 div 3 + 1) * 3 \<le> (7 :: nat))"
  by (rule barrier_rounds) (simp_all add: barrier_new_def)

text \<open>
  A promise delivers the value it was given once: before that a reader blocks, after it
  every reader gets the value, a second value aborts the process, and a reset makes it as
  new.
\<close>

theorem promise_delivers:
  "promise_Get (promise_new x) = None
    \<and> (\<exists>p. promise_Set v (promise_new x) = Inr p \<and> promise_Get p = Some v
        \<and> promise_Set w p = Inl CheckFailed \<and> promise_Reset x p = promise_new x)"
proof -
  obtain l where l: "CountDown1 (latch_new 1) = Inr (True, l)" "latch_Wait l"
    using latch.triggered_once by blast
  have "latch_count l = 0" using l(2) by (simp add: latch_Wait_def)
  then show ?thesis
    using l latch.starts_closed
    by (auto simp: promise_Get_def promise_Set_def promise_new_def promise_Reset_def latch_Reset_def Let_def latch_new_def)
qed

text \<open>
  A timed wait for a span that is not negative waits until exactly that much later: the
  deadline is a normalised time specification, and its distance to the current time is the
  span to the nanosecond.
\<close>

theorem TimedWait_exact:
  assumes "delta_Initialized d" "0 \<le> nano_delta d" "normal_timespec now" "0 \<le> ts_sec now"
  shows "\<exists>ts. TimedWait_deadline d now = Inr (Some ts) \<and> normal_timespec ts
    \<and> ts_sec ts * 1000000000 + ts_nsec ts = ts_sec now * 1000000000 + ts_nsec now + nano_delta d"
proof -
  obtain s r where sr: "NanosToTimeSpec (nano_delta d) = \<lparr>ts_sec = s, ts_nsec = r\<rparr>" by (metis timespec.cases)
  have t: "s * 1000000000 + r = nano_delta d" using NanosToTimeSpec_ns [of "nano_delta d"] sr by simp
  have r: "0 \<le> r" "r < 1000000000" "0 \<le> s"
    using sr assms(2) by (auto simp: NanosToTimeSpec_floor pos_imp_zdiv_nonneg_iff)
  obtain q where q: "ts_nsec now + r = q" "0 \<le> q" using r assms(3) by (simp add: normal_timespec_def)
  obtain h m where h: "q div 1000000000 = h" "q mod 1000000000 = m" by simp
  have hm: "q = h * 1000000000 + m" "0 \<le> m" "m < 1000000000" "0 \<le> h"
    using q(2) unfolding h [symmetric] by (simp_all add: pos_imp_zdiv_nonneg_iff)
  have "TimedWait_deadline d now = Inr (Some \<lparr>ts_sec = ts_sec now + s + h, ts_nsec = m\<rparr>)"
    using assms(1,2) r hm(4)
    by (simp add: TimedWait_deadline_def ToNanoseconds_def ToTimeSpec_def sr Let_def q(1) time_consts
        c_div_nonneg c_mod_nonneg q(2) h)
  then show ?thesis using hm t q(1) by (simp add: normal_timespec_def time_consts)
qed

lemma TimedWait_exact_witness:
  "\<exists>ts. TimedWait_deadline (MonoDelta 1500000000) \<lparr>ts_sec = 9, ts_nsec = 999999999\<rparr> = Inr (Some ts) \<and> normal_timespec ts
    \<and> ts_sec ts * 1000000000 + ts_nsec ts
      = ts_sec \<lparr>ts_sec = 9, ts_nsec = 999999999\<rparr> * 1000000000 + ts_nsec \<lparr>ts_sec = 9, ts_nsec = 999999999\<rparr>
        + nano_delta (MonoDelta 1500000000)"
  by (rule TimedWait_exact)
    (simp_all add: delta_Initialized_def kUninitialized_def int64_min_def normal_timespec_def time_consts)

end
