(* ===== verification/RWSemaphore.thy ===== *)
theory RWSemaphore
  imports Prelude
begin

text \<open>
  The reader-writer lock \<^verbatim>\<open>base/sync/rw_semaphore.h\<close>: a 32-bit word whose low 31 bits count
  the readers and whose top bit is the writer, changed by compare-and-swap only.  The lock
  is a transition system of any number of threads in which every access to the word is a
  step; a thread between two accesses is at a program point with the value it expects.  The
  spin-lock wrapper and the per-CPU lock of \<^verbatim>\<open>base/sync/locks.h\<close> follow as functions of the
  words of their locks, for a thread that nobody disturbs.
\<close>

definition kNumReadersMask :: u32 where "kNumReadersMask = 0x7fffffff"
definition kWriteFlag :: u32 where "kWriteFlag = push_bit 31 1"

section \<open>Program points and steps\<close>

text \<open>
  A thread at a point ending in \<open>Cas\<close> is before the swap of its loop with the value it
  expects; one at \<open>WaitReaders\<close> is in \<^verbatim>\<open>WaitPendingReaders\<close>.
\<close>

datatype pc =
    Idle
  | SharedCas u32
  | SharedHeld
  | UnshareCas u32
  | LockCas u32
  | TryCas u32
  | WaitReaders
  | WriteHeld

record Sem =
  word_state :: u32
  at :: "nat \<Rightarrow> pc"

definition sem_new :: Sem where
  "sem_new = \<lparr>word_state = 0, at = (\<lambda>_. Idle)\<rparr>"

definition goto :: "nat \<Rightarrow> pc \<Rightarrow> Sem \<Rightarrow> Sem" where
  "goto t p s = s\<lparr>at := (at s)(t := p)\<rparr>"

text \<open>Each loop of the code, as the point it goes to with the value just read.\<close>

definition lock_shared_next :: "u32 \<Rightarrow> pc" where
  "lock_shared_next cur_state = SharedCas (cur_state AND kNumReadersMask)"

definition unlock_shared_check :: "u32 \<Rightarrow> bool" where
  "unlock_shared_check cur_state \<longleftrightarrow> uint (cur_state AND kNumReadersMask) > 0"

definition unlock_shared_next :: "u32 \<Rightarrow> pc" where
  "unlock_shared_next cur_state = UnshareCas cur_state"

definition lock_next :: "u32 \<Rightarrow> pc" where
  "lock_next cur_state = LockCas (cur_state AND kNumReadersMask)"

definition try_lock_next :: "u32 \<Rightarrow> pc" where
  "try_lock_next cur_state =
    (if cur_state AND kWriteFlag \<noteq> 0 then Idle else TryCas (cur_state AND kNumReadersMask))"

definition readers_gone :: "u32 \<Rightarrow> bool" where
  "readers_gone cur_state \<longleftrightarrow> \<not> uint (cur_state AND kNumReadersMask) > 0"

definition unlock_check :: "u32 \<Rightarrow> bool" where
  "unlock_check cur_state \<longleftrightarrow> cur_state = kWriteFlag"

inductive sem_step :: "nat \<Rightarrow> Sem \<Rightarrow> Sem \<Rightarrow> bool" for n :: nat where
  shared_begin: "t < n \<Longrightarrow> at s t = Idle \<Longrightarrow> sem_step n s (goto t (lock_shared_next (word_state s)) s)"
| shared_swap: "at s t = SharedCas e \<Longrightarrow> word_state s = e \<Longrightarrow>
    sem_step n s (goto t SharedHeld (s\<lparr>word_state := e + 1\<rparr>))"
| shared_retry: "at s t = SharedCas e \<Longrightarrow> word_state s \<noteq> e \<Longrightarrow>
    sem_step n s (goto t (lock_shared_next (word_state s)) s)"
| unshare_begin: "at s t = SharedHeld \<Longrightarrow> unlock_shared_check (word_state s) \<Longrightarrow>
    sem_step n s (goto t (unlock_shared_next (word_state s)) s)"
| unshare_swap: "at s t = UnshareCas e \<Longrightarrow> word_state s = e \<Longrightarrow>
    sem_step n s (goto t Idle (s\<lparr>word_state := e - 1\<rparr>))"
| unshare_retry: "at s t = UnshareCas e \<Longrightarrow> word_state s \<noteq> e \<Longrightarrow> unlock_shared_check (word_state s) \<Longrightarrow>
    sem_step n s (goto t (unlock_shared_next (word_state s)) s)"
| lock_begin: "t < n \<Longrightarrow> at s t = Idle \<Longrightarrow> sem_step n s (goto t (lock_next (word_state s)) s)"
| lock_swap: "at s t = LockCas e \<Longrightarrow> word_state s = e \<Longrightarrow>
    sem_step n s (goto t WaitReaders (s\<lparr>word_state := kWriteFlag OR e\<rparr>))"
| lock_retry: "at s t = LockCas e \<Longrightarrow> word_state s \<noteq> e \<Longrightarrow> sem_step n s (goto t (lock_next (word_state s)) s)"
| try_begin: "t < n \<Longrightarrow> at s t = Idle \<Longrightarrow> sem_step n s (goto t (try_lock_next (word_state s)) s)"
| try_swap: "at s t = TryCas e \<Longrightarrow> word_state s = e \<Longrightarrow>
    sem_step n s (goto t WaitReaders (s\<lparr>word_state := kWriteFlag OR e\<rparr>))"
| try_retry: "at s t = TryCas e \<Longrightarrow> word_state s \<noteq> e \<Longrightarrow> sem_step n s (goto t (try_lock_next (word_state s)) s)"
| wait_done: "at s t = WaitReaders \<Longrightarrow> readers_gone (word_state s) \<Longrightarrow> sem_step n s (goto t WriteHeld s)"
| unlock: "at s t = WriteHeld \<Longrightarrow> unlock_check (word_state s) \<Longrightarrow>
    sem_step n s (goto t Idle (s\<lparr>word_state := 0\<rparr>))"

text \<open>A thread is about to fail one of the two checks.\<close>

definition sem_aborts :: "Sem \<Rightarrow> nat \<Rightarrow> bool" where
  "sem_aborts s t \<longleftrightarrow>
    (case at s t of
       SharedHeld \<Rightarrow> \<not> unlock_shared_check (word_state s)
     | UnshareCas e \<Rightarrow> word_state s \<noteq> e \<and> \<not> unlock_shared_check (word_state s)
     | WriteHeld \<Rightarrow> \<not> unlock_check (word_state s)
     | _ \<Rightarrow> False)"

inductive sem_reach :: "nat \<Rightarrow> Sem \<Rightarrow> bool" for n :: nat where
  start: "sem_reach n sem_new"
| step: "sem_reach n s \<Longrightarrow> sem_step n s s' \<Longrightarrow> sem_reach n s'"

definition is_write_locked :: "u32 \<Rightarrow> bool" where
  "is_write_locked st \<longleftrightarrow> st AND kWriteFlag \<noteq> 0"

definition is_locked :: "u32 \<Rightarrow> bool" where
  "is_locked st \<longleftrightarrow> st \<noteq> 0"

section \<open>The word\<close>

text \<open>The word holds \<open>r\<close> readers and, if \<open>w\<close>, a writer.\<close>

definition holds :: "nat \<Rightarrow> bool \<Rightarrow> u32 \<Rightarrow> bool" where
  "holds r w st \<longleftrightarrow> r < 2 ^ 31 \<and> unat st = r + (if w then 2 ^ 31 else 0)"

lemma readers_mask: "st AND kNumReadersMask = take_bit 31 st"
proof -
  have "kNumReadersMask = mask 31" by (simp add: kNumReadersMask_def mask_eq_exp_minus_1)
  then show ?thesis by (simp add: take_bit_eq_mask)
qed

lemma unat_readers: "unat (st AND kNumReadersMask) = unat st mod 2 ^ 31"
  by (simp only: readers_mask unsigned_take_bit_eq) (simp only: take_bit_eq_mod)

lemma holds_readers: "holds r w st \<Longrightarrow> unat (st AND kNumReadersMask) = r"
  by (simp add: holds_def unat_readers)

lemma holds_inject: "holds r w st \<Longrightarrow> holds r w st' \<Longrightarrow> st = st'"
  by (simp add: holds_def word_unat_eq_iff)

lemma holds_masked: "holds r w st \<Longrightarrow> holds r False (st AND kNumReadersMask)"
  using holds_readers [of r w st] by (simp add: holds_def)

lemma holds_masked_eq: "holds r w st \<Longrightarrow> st = st' AND kNumReadersMask \<Longrightarrow> \<not> w"
proof -
  assume h: "holds r w st" and e: "st = st' AND kNumReadersMask"
  have "unat st < 2 ^ 31"
    unfolding e by (simp add: unat_readers)
  then show "\<not> w" using h by (auto simp: holds_def)
qed

lemma holds_flag: "holds r w st \<Longrightarrow> st AND kWriteFlag \<noteq> 0 \<longleftrightarrow> w"
proof -
  assume h: "holds r w st"
  have f: "kWriteFlag = 2 ^ 31" by (simp add: kWriteFlag_def push_bit_eq_mult)
  have "st AND kWriteFlag \<noteq> 0 \<longleftrightarrow> bit st 31"
    unfolding f by (simp only: and_exp_eq_0_iff_not_bit not_not)
  also have "\<dots> \<longleftrightarrow> bit (unat st) 31" by (simp only: bit_unsigned_iff) simp
  also have "\<dots> \<longleftrightarrow> odd (unat st div 2 ^ 31)" by (rule bit_iff_odd)
  also have "\<dots> \<longleftrightarrow> w"
  proof (cases w)
    case True
    then have "unat st div 2 ^ 31 = 1" using h unfolding holds_def by (simp add: div_nat_eqI)
    then show ?thesis using True by simp
  next
    case False
    then have "unat st div 2 ^ 31 = 0" using h unfolding holds_def by (simp add: div_nat_eqI)
    then show ?thesis using False by simp
  qed
  finally show ?thesis .
qed

lemma flag_32: "kWriteFlag = 2 ^ 31" by (simp add: kWriteFlag_def push_bit_eq_mult)

lemma unat_flag: "unat kWriteFlag = 2 ^ 31"
  by (simp add: kWriteFlag_def)

lemma holds_new: "holds 0 False 0"
  by (simp add: holds_def)

lemma holds_add: "holds r w st \<Longrightarrow> Suc r < 2 ^ 31 \<Longrightarrow> holds (Suc r) w (st + 1)"
proof -
  assume h: "holds r w st" and b: "Suc r < 2 ^ 31"
  have lt: "unat st + 1 < 2 ^ 32" using h b by (simp add: holds_def split: if_splits)
  then have "unat (st + 1) = unat st + 1" by (simp add: unat_word_ariths)
  then show ?thesis using h b by (simp add: holds_def)
qed

lemma holds_sub: "holds (Suc r) w st \<Longrightarrow> holds r w (st - 1)"
proof -
  assume h: "holds (Suc r) w st"
  then have ne: "unat st \<noteq> 0" by (simp add: holds_def)
  have "unat (st - 1) = unat st - 1"
    using ne by (metis One_nat_def unat_0 unat_minus_one)
  then show ?thesis using h by (simp add: holds_def)
qed

lemma holds_or_flag: "holds r False st \<Longrightarrow> holds r True (kWriteFlag OR st)"
proof -
  assume h: "holds r False st"
  have z: "kWriteFlag AND st = 0" using holds_flag [OF h] by (simp add: and.commute)
  have "kWriteFlag OR st = kWriteFlag + st"
    using z by (simp add: disjunctive_add_eq_or)
  moreover have "unat kWriteFlag + unat st < 2 ^ LENGTH(32)"
    using h by (simp add: holds_def unat_flag)
  ultimately have "unat (kWriteFlag OR st) = 2 ^ 31 + unat st"
    by (simp add: unat_word_ariths unat_flag)
  then show ?thesis using h by (simp add: holds_def)
qed

lemma holds_only_flag: "holds 0 True st \<longleftrightarrow> st = kWriteFlag"
  by (simp add: holds_def word_unat_eq_iff unat_flag)

section \<open>The invariant\<close>

fun reading :: "pc \<Rightarrow> bool" where
  "reading SharedHeld = True"
| "reading (UnshareCas e) = True"
| "reading _ = False"

fun writing :: "pc \<Rightarrow> bool" where
  "writing WaitReaders = True"
| "writing WriteHeld = True"
| "writing _ = False"

fun expects :: "pc \<Rightarrow> u32 option" where
  "expects (SharedCas e) = Some e"
| "expects (LockCas e) = Some e"
| "expects (TryCas e) = Some e"
| "expects _ = None"

definition readers :: "Sem \<Rightarrow> nat set" where "readers s = {t. reading (at s t)}"
definition writers :: "Sem \<Rightarrow> nat set" where "writers s = {t. writing (at s t)}"

definition masked :: "u32 \<Rightarrow> bool" where
  "masked e \<longleftrightarrow> (\<exists>x. e = x AND kNumReadersMask)"

lemma masked_forms [simp]: "masked (x AND kNumReadersMask)"
  unfolding masked_def by blast

definition sem_inv :: "nat \<Rightarrow> Sem \<Rightarrow> bool" where
  "sem_inv n s \<longleftrightarrow>
     readers s \<subseteq> {..<n} \<and>
     holds (card (readers s)) (writers s \<noteq> {}) (word_state s) \<and>
     (\<forall>t u. t \<in> writers s \<longrightarrow> u \<in> writers s \<longrightarrow> t = u) \<and>
     (\<forall>t. at s t = WriteHeld \<longrightarrow> readers s = {}) \<and>
     (\<forall>t e. expects (at s t) = Some e \<longrightarrow> masked e) \<and>
     (\<forall>t. n \<le> t \<longrightarrow> at s t = Idle)"

lemma sem_goto_simps [simp]:
  "word_state (goto t p s) = word_state s"
  "at (goto t p s) = (at s)(t := p)"
  "readers (goto t p s) = (if reading p then insert t (readers s) else readers s - {t})"
  "writers (goto t p s) = (if writing p then insert t (writers s) else writers s - {t})"
  by (auto simp: goto_def readers_def writers_def split: if_splits)

lemma word_state_readers [simp]:
  "readers (s\<lparr>word_state := v\<rparr>) = readers s" "writers (s\<lparr>word_state := v\<rparr>) = writers s"
  by (simp_all add: readers_def writers_def)

lemma in_readers: "t \<in> readers s \<longleftrightarrow> reading (at s t)" by (simp add: readers_def)
lemma in_writers: "t \<in> writers s \<longleftrightarrow> writing (at s t)" by (simp add: writers_def)

lemma sem_inv_new: "sem_inv n sem_new"
  by (auto simp: sem_inv_def sem_new_def readers_def writers_def holds_new)

lemma sem_inv_goto:
  assumes i: "sem_inv n s" and t: "t < n"
    and r: "reading p = reading (at s t)" and w: "writing p = writing (at s t)"
    and e: "\<And>e. expects p = Some e \<Longrightarrow> masked e"
    and h: "p = WriteHeld \<Longrightarrow> readers s = {}"
  shows "sem_inv n (goto t p s)"
proof -
  have R: "readers (goto t p s) = readers s" using r by (auto simp: in_readers)
  have W: "writers (goto t p s) = writers s" using w by (auto simp: in_writers)
  show ?thesis
    unfolding sem_inv_def R W using i t e h by (auto simp: sem_inv_def)
qed

lemma sem_inv_active: "sem_inv n s \<Longrightarrow> at s t \<noteq> Idle \<Longrightarrow> t < n"
  by (auto simp: sem_inv_def not_less [symmetric])

lemma sem_inv_reader_bound:
  assumes "sem_inv n s" "t < n" "\<not> reading (at s t)"
  shows "card (readers s) < n"
proof -
  have "readers s \<subset> {..<n}" using assms by (auto simp: sem_inv_def in_readers)
  then have "card (readers s) < card {..<n}" by (intro psubset_card_mono) auto
  then show ?thesis by simp
qed

lemma sem_inv_goto_active:
  assumes "sem_inv n s" "at s t \<noteq> Idle"
    and "reading p = reading (at s t)" "writing p = writing (at s t)"
    and "\<And>e. expects p = Some e \<Longrightarrow> masked e" "p \<noteq> WriteHeld"
  shows "sem_inv n (goto t p s)"
  using assms by (intro sem_inv_goto) (auto intro: sem_inv_active)

lemma sem_inv_finite: "sem_inv n s \<Longrightarrow> finite (readers s)"
  by (auto simp: sem_inv_def intro: finite_subset)

lemma no_writer_when_swapped:
  assumes i: "sem_inv n s" and e: "expects (at s t) = Some (word_state s)"
  shows "writers s = {}"
proof -
  obtain x where "word_state s = x AND kNumReadersMask" using i e unfolding sem_inv_def masked_def by blast
  moreover have "holds (card (readers s)) (writers s \<noteq> {}) (word_state s)"
    using i by (simp add: sem_inv_def)
  ultimately show ?thesis using holds_masked_eq by blast
qed

lemma sem_inv_share:
  assumes i: "sem_inv n s" and n: "n < 2 ^ 31" and a: "at s t = SharedCas (word_state s)"
  shows "sem_inv n (goto t SharedHeld (s\<lparr>word_state := word_state s + 1\<rparr>))"
proof -
  have t: "t < n" using sem_inv_active [OF i, of t] a by simp
  have w: "writers s = {}" using no_writer_when_swapped [OF i, of t] a by simp
  have nt: "t \<notin> readers s" using a by (simp add: in_readers)
  have c: "card (readers s) < n" using sem_inv_reader_bound [OF i t] a by simp
  have "holds (card (readers s)) False (word_state s)" using i w by (simp add: sem_inv_def)
  then have h: "holds (Suc (card (readers s))) False (word_state s + 1)"
    using holds_add c n by auto
  have no: "at s u \<noteq> WriteHeld" for u using w in_writers [of u s] by auto
  show ?thesis
    using i t w h nt no sem_inv_finite [OF i] by (auto simp: sem_inv_def)
qed

lemma sem_inv_unshare:
  assumes i: "sem_inv n s" and a: "at s t = UnshareCas (word_state s)"
  shows "sem_inv n (goto t Idle (s\<lparr>word_state := word_state s - 1\<rparr>))"
proof -
  have t: "t \<in> readers s" using a by (simp add: in_readers)
  have tw: "t \<notin> writers s" using a by (simp add: in_writers)
  have card: "card (readers s) = Suc (card (readers s - {t}))"
    by (rule card.remove [OF sem_inv_finite [OF i] t])
  have "holds (card (readers s)) (writers s \<noteq> {}) (word_state s)" using i by (simp add: sem_inv_def)
  then have h: "holds (card (readers s - {t})) (writers s \<noteq> {}) (word_state s - 1)"
    using holds_sub card by metis
  have ww: "writers s - {t} = writers s" using tw by auto
  have no: "at s u \<noteq> WriteHeld" for u using t i unfolding sem_inv_def by blast
  have sub: "readers s \<subseteq> {..<n}" using i by (simp add: sem_inv_def)
  have one: "\<forall>t u. t \<in> writers s \<longrightarrow> u \<in> writers s \<longrightarrow> t = u"
    and ex: "\<forall>t e. expects (at s t) = Some e \<longrightarrow> masked e"
    and idle: "\<forall>t. n \<le> t \<longrightarrow> at s t = Idle"
    using i unfolding sem_inv_def by blast+
  let ?s = "goto t Idle (s\<lparr>word_state := word_state s - 1\<rparr>)"
  have R: "readers ?s = readers s - {t}" and W: "writers ?s = writers s" using ww by simp_all
  have c0: "readers ?s \<subseteq> {..<n}" using sub unfolding R by blast
  have c1: "holds (card (readers ?s)) (writers ?s \<noteq> {}) (word_state ?s)"
    using h unfolding R W by simp
  have c2: "\<forall>u v. u \<in> writers ?s \<longrightarrow> v \<in> writers ?s \<longrightarrow> u = v" using one unfolding W .
  have c3: "\<forall>u. at ?s u = WriteHeld \<longrightarrow> readers ?s = {}" using no by simp
  have c4: "\<forall>u e. expects (at ?s u) = Some e \<longrightarrow> masked e" using ex by simp
  have c5: "\<forall>u. n \<le> u \<longrightarrow> at ?s u = Idle" using idle by simp
  show ?thesis unfolding sem_inv_def by (intro conjI c0 c1 c2 c3 c4 c5)
qed

lemma sem_inv_acquire:
  assumes i: "sem_inv n s" and e: "expects (at s t) = Some (word_state s)"
  shows "sem_inv n (goto t WaitReaders (s\<lparr>word_state := kWriteFlag OR word_state s\<rparr>))"
proof -
  have w: "writers s = {}" by (rule no_writer_when_swapped [OF i e])
  have nt: "t \<notin> readers s" using e by (cases "at s t") (auto simp: in_readers)
  have t: "t < n" by (rule sem_inv_active [OF i, of t]) (use e in auto)
  have "holds (card (readers s)) False (word_state s)" using i w by (simp add: sem_inv_def)
  then have h: "holds (card (readers s)) True (kWriteFlag OR word_state s)" by (rule holds_or_flag)
  show ?thesis
    using i t w h nt unfolding sem_inv_def by (auto simp: writers_def)
qed

lemma readers_gone_iff: "sem_inv n s \<Longrightarrow> readers_gone (word_state s) \<longleftrightarrow> readers s = {}"
proof -
  assume i: "sem_inv n s"
  then have "holds (card (readers s)) (writers s \<noteq> {}) (word_state s)" by (simp add: sem_inv_def)
  from holds_readers [OF this] have "unat (word_state s AND kNumReadersMask) = card (readers s)" .
  then show ?thesis
    using sem_inv_finite [OF i] by (simp add: readers_gone_def word_less_nat_alt uint_nat)
qed

lemma sem_inv_release:
  assumes i: "sem_inv n s" and a: "at s t = WriteHeld"
  shows "sem_inv n (goto t Idle (s\<lparr>word_state := 0\<rparr>))"
proof -
  have r: "readers s = {}" using i a unfolding sem_inv_def by blast
  have t: "t \<in> writers s" using a by (simp add: in_writers)
  then have w: "writers s = {t}" using i unfolding sem_inv_def by blast
  have ex: "\<forall>t e. expects (at s t) = Some e \<longrightarrow> masked e"
    and idle: "\<forall>t. n \<le> t \<longrightarrow> at s t = Idle"
    using i unfolding sem_inv_def by blast+
  show ?thesis using ex idle r w by (simp add: sem_inv_def holds_new)
qed

lemmas next_points =
  lock_shared_next_def unlock_shared_next_def lock_next_def try_lock_next_def

lemma sem_inv_step: "sem_step n s s' \<Longrightarrow> n < 2 ^ 31 \<Longrightarrow> sem_inv n s \<Longrightarrow> sem_inv n s'"
proof (induction rule: sem_step.induct)
  case (shared_begin t s)
  then show ?case by (intro sem_inv_goto) (auto simp: next_points)
next
  case (shared_swap s t e)
  from sem_inv_share [OF shared_swap(4) shared_swap(3)] shared_swap(1,2) show ?case by simp
next
  case (shared_retry s t e)
  then show ?case by (intro sem_inv_goto_active) (auto simp: next_points)
next
  case (unshare_begin s t)
  then show ?case by (intro sem_inv_goto_active) (auto simp: next_points)
next
  case (unshare_swap s t e)
  from sem_inv_unshare [OF unshare_swap(4)] unshare_swap(1,2) show ?case by simp
next
  case (unshare_retry s t e)
  then show ?case by (intro sem_inv_goto_active) (auto simp: next_points)
next
  case (lock_begin t s)
  then show ?case by (intro sem_inv_goto) (auto simp: next_points)
next
  case (lock_swap s t e)
  from sem_inv_acquire [OF lock_swap(4), of t] lock_swap(1,2) show ?case by simp
next
  case (lock_retry s t e)
  then show ?case by (intro sem_inv_goto_active) (auto simp: next_points)
next
  case (try_begin t s)
  then show ?case by (intro sem_inv_goto) (auto simp: next_points split: if_splits)
next
  case (try_swap s t e)
  from sem_inv_acquire [OF try_swap(4), of t] try_swap(1,2) show ?case by simp
next
  case (try_retry s t e)
  show ?case
  proof (cases "word_state s AND kWriteFlag = 0")
    case True
    then show ?thesis using try_retry by (intro sem_inv_goto_active) (auto simp: next_points)
  next
    case False
    then show ?thesis using try_retry by (intro sem_inv_goto_active) (auto simp: next_points)
  qed
next
  case (wait_done s t)
  have "t < n" by (rule sem_inv_active [OF wait_done(4)]) (simp add: wait_done)
  then show ?case
    using wait_done readers_gone_iff [OF wait_done(4)] by (intro sem_inv_goto) auto
next
  case (unlock s t)
  from sem_inv_release [OF unlock(4) unlock(1)] show ?case .
qed

lemma sem_inv_reach: "sem_reach n s \<Longrightarrow> n < 2 ^ 31 \<Longrightarrow> sem_inv n s"
  by (induction rule: sem_reach.induct) (auto intro: sem_inv_new sem_inv_step)

section \<open>What the lock guarantees\<close>

text \<open>
  C14: In every reachable state of the lock shared by fewer than 2^31 threads, the word
  counts the threads that hold a shared lock and its flag tells whether a thread owns the
  writer's side; at most one thread does, no reader holds the lock while a writer has it,
  and no thread is about to fail a check of \<^verbatim>\<open>unlock_shared\<close> or \<^verbatim>\<open>unlock\<close>.
\<close>

theorem rw_semaphore_excludes:
  assumes "sem_reach n s" and "n < 2 ^ 31"
  shows "unat (word_state s AND kNumReadersMask) = card (readers s)
    \<and> (is_write_locked (word_state s) \<longleftrightarrow> writers s \<noteq> {})
    \<and> (is_locked (word_state s) \<longleftrightarrow> readers s \<noteq> {} \<or> writers s \<noteq> {})
    \<and> (\<forall>t u. t \<in> writers s \<longrightarrow> u \<in> writers s \<longrightarrow> t = u)
    \<and> (\<forall>t. at s t = WriteHeld \<longrightarrow> readers s = {} \<and> writers s = {t})
    \<and> (\<forall>t. \<not> sem_aborts s t)"
proof -
  have i: "sem_inv n s" by (rule sem_inv_reach [OF assms])
  have h: "holds (card (readers s)) (writers s \<noteq> {}) (word_state s)"
    and one: "\<forall>t u. t \<in> writers s \<longrightarrow> u \<in> writers s \<longrightarrow> t = u"
    and ex: "\<forall>t. at s t = WriteHeld \<longrightarrow> readers s = {}"
    using i unfolding sem_inv_def by blast+
  have w: "at s t = WriteHeld \<Longrightarrow> readers s = {} \<and> writers s = {t}" for t
    using ex one in_writers [of t s] by auto
  have some: "unlock_shared_check (word_state s)" if "t \<in> readers s" for t
    using readers_gone_iff [OF i] that by (auto simp: readers_gone_def unlock_shared_check_def)
  have "\<not> sem_aborts s t" for t
  proof (cases "at s t")
    case WriteHeld
    then have "holds 0 True (word_state s)" using h w [OF WriteHeld] by simp
    then show ?thesis using WriteHeld by (simp add: sem_aborts_def unlock_check_def holds_only_flag)
  qed (use some [of t] in \<open>auto simp: sem_aborts_def in_readers\<close>)
  moreover have "is_locked (word_state s) \<longleftrightarrow> readers s \<noteq> {} \<or> writers s \<noteq> {}"
    using h sem_inv_finite [OF i] by (auto simp: is_locked_def holds_def word_unat_eq_iff)
  moreover have "is_write_locked (word_state s) \<longleftrightarrow> writers s \<noteq> {}"
    using holds_flag [OF h] by (simp add: is_write_locked_def)
  ultimately show ?thesis using holds_readers [OF h] one w by blast
qed

text \<open>A run of two threads: a reader holds the lock while a writer waits for it.\<close>

lemma reader_then_writer:
  "sem_reach 2 \<lparr>word_state = kWriteFlag OR 1,
     at = (\<lambda>_. Idle)(0 := SharedHeld, 1 := WaitReaders)\<rparr>"
proof -
  let ?a = "goto 0 (SharedCas 0) sem_new"
  let ?b = "goto 0 SharedHeld (?a\<lparr>word_state := 0 + 1\<rparr>)"
  let ?c = "goto 1 (LockCas 1) ?b"
  let ?d = "goto 1 WaitReaders (?c\<lparr>word_state := kWriteFlag OR 1\<rparr>)"
  have a: "sem_step 2 sem_new ?a"
    using sem_step.shared_begin [of 0 2 sem_new] by (simp add: lock_shared_next_def sem_new_def)
  have b: "sem_step 2 ?a ?b"
    by (rule sem_step.shared_swap) (simp_all add: sem_new_def)
  have "(1 :: u32) AND kNumReadersMask = 1" by (simp add: kNumReadersMask_def)
  then have c: "sem_step 2 ?b ?c"
    using sem_step.lock_begin [of 1 2 ?b] by (simp add: lock_next_def sem_new_def)
  have d: "sem_step 2 ?c ?d"
    by (rule sem_step.lock_swap) (simp_all add: sem_new_def)
  have "sem_reach 2 ?d"
    by (rule sem_reach.step [OF _ d], rule sem_reach.step [OF _ c],
        rule sem_reach.step [OF _ b], rule sem_reach.step [OF _ a], rule sem_reach.start)
  moreover have "?d = \<lparr>word_state = kWriteFlag OR 1,
     at = (\<lambda>_. Idle)(0 := SharedHeld, 1 := WaitReaders)\<rparr>"
    by (simp add: goto_def sem_new_def fun_upd_def fun_eq_iff)
  ultimately show ?thesis by simp
qed

lemma rw_semaphore_excludes_witness:
  "\<not> sem_aborts \<lparr>word_state = kWriteFlag OR 1,
      at = (\<lambda>_. Idle)(0 := SharedHeld, 1 := WaitReaders)\<rparr> 0"
  using rw_semaphore_excludes [OF reader_then_writer] by simp

end
