(* ===== verification/ThreadPools.thy ===== *)
theory ThreadPools
  imports StatusCode MonoTime
begin

text \<open>
  The thread pool, \<^verbatim>\<open>base/thread/threadpool.h\<close> and \<^verbatim>\<open>threadpool.cc\<close>: the builder, the
  operations of the pool, and the loop of its worker threads.  Every operation runs under
  the lock of the pool, so it is one function from the fields to the fields with the
  wake-ups it sends; the pool with its threads is the transition system below.  Creating a
  thread is a call outside the model: it gives the identity of the new thread or a status.
\<close>

section \<open>The builder\<close>

record ThreadPoolBuilder =
  b_name :: bytes
  b_min_threads :: int
  b_max_threads :: int
  b_max_queue_size :: int
  b_idle_timeout :: MonoDelta

definition builder_new :: "bytes \<Rightarrow> int \<Rightarrow> ThreadPoolBuilder" where
  "builder_new nm num_cpus =
    \<lparr>b_name = nm, b_min_threads = 0, b_max_threads = num_cpus, b_max_queue_size = 2 ^ 31 - 1,
     b_idle_timeout = FromMilliseconds 500\<rparr>"

definition set_min_threads :: "int \<Rightarrow> ThreadPoolBuilder \<Rightarrow> fault + ThreadPoolBuilder" where
  "set_min_threads n b = (if \<not> n \<ge> 0 then Inl CheckFailed else Inr (b\<lparr>b_min_threads := n\<rparr>))"

definition set_max_threads :: "int \<Rightarrow> ThreadPoolBuilder \<Rightarrow> fault + ThreadPoolBuilder" where
  "set_max_threads n b = (if \<not> n > 0 then Inl CheckFailed else Inr (b\<lparr>b_max_threads := n\<rparr>))"

definition set_max_queue_size :: "int \<Rightarrow> ThreadPoolBuilder \<Rightarrow> ThreadPoolBuilder" where
  "set_max_queue_size n b = b\<lparr>b_max_queue_size := n\<rparr>"

definition set_idle_timeout :: "MonoDelta \<Rightarrow> ThreadPoolBuilder \<Rightarrow> ThreadPoolBuilder" where
  "set_idle_timeout d b = b\<lparr>b_idle_timeout := d\<rparr>"

section \<open>The pool\<close>

record 'a QueueEntry =
  runnable :: 'a
  submit_time :: MonoTime

record 'a ThreadPool =
  pool_name :: bytes
  min_threads :: int
  max_threads :: int
  max_queue_size :: int
  idle_timeout :: MonoDelta
  pool_status :: Status
  num_threads :: int
  active_threads :: int
  queue_size :: int
  queue :: "'a QueueEntry list"
  threads :: "nat set"

datatype wake = NotEmptySignal | NotEmptyBroadcast | IdleBroadcast | NoThreadsBroadcast

definition message_status :: "(Slice \<Rightarrow> Slice \<Rightarrow> int \<Rightarrow> fault + Status) \<Rightarrow> bytes \<Rightarrow> fault + Status" where
  "message_status mk m = mk (slice_of_string m) slice_empty (-1)"

definition pool_new :: "ThreadPoolBuilder \<Rightarrow> fault + 'a ThreadPool" where
  "pool_new b =
    bindE (message_status Uninitialized (str ''The pool was not initialized.'')) (\<lambda>st.
    Inr \<lparr>pool_name = b_name b, min_threads = b_min_threads b, max_threads = b_max_threads b,
         max_queue_size = b_max_queue_size b, idle_timeout = b_idle_timeout b, pool_status = st,
         num_threads = 0, active_threads = 0, queue_size = 0, queue = [], threads = {}\<rparr>)"

text \<open>A call from a thread of the pool is fatal.\<close>

definition CheckNotPoolThread :: "nat \<Rightarrow> 'a ThreadPool \<Rightarrow> fault + unit" where
  "CheckNotPoolThread current p = (if current \<in> threads p then Inl CheckFailed else Inr ())"

text \<open>The thread started, if any, comes with its \<^verbatim>\<open>permanent\<close> argument.\<close>

definition CreateThreadUnlocked ::
    "Status + nat \<Rightarrow> 'a ThreadPool \<Rightarrow> fault + Status \<times> (nat \<times> bool) option \<times> 'a ThreadPool" where
  "CreateThreadUnlocked created p =
    (let permanent = num_threads p < min_threads p in
     case created of
       Inl s \<Rightarrow> Inr (status_OK, None, p)
     | Inr t \<Rightarrow>
         if t \<in> threads p then Inl CheckFailed
         else Inr (status_OK, Some (t, permanent),
                p\<lparr>threads := insert t (threads p), num_threads := num_threads p + 1\<rparr>))"

text \<open>
  \<^verbatim>\<open>Init\<close> creates the minimum of threads.  Were a creation to fail it would call
  \<^verbatim>\<open>Shutdown\<close> with the lock held, and block itself.
\<close>

datatype init_result = InitReturns Status | InitBlocks

fun init_loop ::
    "nat \<Rightarrow> (Status + nat) list \<Rightarrow> (nat \<times> bool) list \<Rightarrow> 'a ThreadPool \<Rightarrow>
      fault + init_result \<times> (nat \<times> bool) list \<times> 'a ThreadPool" where
  "init_loop 0 cs started p = Inr (InitReturns status_OK, started, p)"
| "init_loop (Suc n) cs started p =
    (case cs of
       [] \<Rightarrow> Inl Unreachable
     | c # cs \<Rightarrow>
         bindE (CreateThreadUnlocked c p) (\<lambda>(s, t, p).
         if \<not> ok s then Inr (InitBlocks, started, p)
         else init_loop n cs (started @ (case t of None \<Rightarrow> [] | Some t \<Rightarrow> [t])) p))"

definition pool_Init ::
    "(Status + nat) list \<Rightarrow> 'a ThreadPool \<Rightarrow> fault + init_result \<times> (nat \<times> bool) list \<times> 'a ThreadPool" where
  "pool_Init cs p =
    bindE (IsUninitialized (pool_status p)) (\<lambda>u.
    if \<not> u then
      bindE (message_status NotSupported (str ''The thread pool is already initialized'')) (\<lambda>s.
      Inr (InitReturns s, [], p))
    else init_loop (nat (min_threads p)) cs [] (p\<lparr>pool_status := status_OK\<rparr>))"

definition builder_Build ::
    "(Status + nat) list \<Rightarrow> ThreadPoolBuilder \<Rightarrow>
      fault + init_result \<times> (nat \<times> bool) list \<times> 'a ThreadPool" where
  "builder_Build cs b = bindE (pool_new b) (\<lambda>p. pool_Init cs p)"

text \<open>\<^verbatim>\<open>Shutdown\<close> up to its wait, and the condition on which the wait ends.\<close>

definition Shutdown_begin :: "nat \<Rightarrow> 'a ThreadPool \<Rightarrow> fault + wake list \<times> 'a ThreadPool" where
  "Shutdown_begin current p =
    bindE (CheckNotPoolThread current p) (\<lambda>_.
    bindE (message_status ServiceUnavailable (str ''The pool has been shut down.'')) (\<lambda>s.
    Inr ([NotEmptyBroadcast], p\<lparr>pool_status := s, queue := [], queue_size := 0\<rparr>)))"

definition Shutdown_done :: "'a ThreadPool \<Rightarrow> bool" where
  "Shutdown_done p \<longleftrightarrow> \<not> num_threads p > 0"

definition capacity_message :: "'a ThreadPool \<Rightarrow> bytes" where
  "capacity_message p =
    str ''Thread pool is at capacity ('' @ dec_int (num_threads p) @ str ''/'' @ dec_int (max_threads p)
      @ str '' tasks running, '' @ dec_int (queue_size p) @ str ''/'' @ dec_int (max_queue_size p)
      @ str '' tasks queued)''"

definition Submit ::
    "MonoTime \<Rightarrow> Status + nat \<Rightarrow> 'a \<Rightarrow> 'a ThreadPool \<Rightarrow>
      fault + Status \<times> (nat \<times> bool) option \<times> wake list \<times> 'a ThreadPool" where
  "Submit now created task p =
    (if \<not> ok (pool_status p) then Inr (pool_status p, None, [], p)
     else
       let capacity_remaining = max_threads p - active_threads p + max_queue_size p - queue_size p in
       if capacity_remaining < 1 then
         bindE (message_status ServiceUnavailable (capacity_message p)) (\<lambda>s. Inr (s, None, [], p))
       else
         let inactive_threads = wrap32 (num_threads p - active_threads p);
             additional_threads = wrap32 (wrap32 (queue_size p + 1) - inactive_threads);
             enqueue = (\<lambda>t p. Inr (status_OK, t, [NotEmptySignal],
               p\<lparr>queue := queue p @ [\<lparr>runnable = task, submit_time = now\<rparr>],
                 queue_size := wrap32 (queue_size p + 1)\<rparr>))
         in
         if additional_threads > 0 \<and> num_threads p < max_threads p then
           bindE (CreateThreadUnlocked created p) (\<lambda>(s, t, p).
           if \<not> ok s \<and> num_threads p = 0 then Inr (s, t, [], p) else enqueue t p)
         else enqueue None p)"

text \<open>An attempt of \<^verbatim>\<open>Wait\<close>: whether it returns; otherwise it waits for the idle condition.\<close>

definition pool_Wait :: "nat \<Rightarrow> 'a ThreadPool \<Rightarrow> fault + bool" where
  "pool_Wait current p =
    bindE (CheckNotPoolThread current p) (\<lambda>_.
    Inr (\<not> (queue p \<noteq> [] \<or> active_threads p > 0)))"

text \<open>
  \<^verbatim>\<open>WaitFor\<close> attempts again after every wake-up: each element of the list is one timed wait,
  whether it was woken rather than timed out, and the pool it found then.
\<close>

fun wait_for_loop :: "(bool \<times> 'a ThreadPool) list \<Rightarrow> 'a ThreadPool \<Rightarrow> bool option" where
  "wait_for_loop ws p =
    (if queue p \<noteq> [] \<or> active_threads p > 0 then
       (case ws of
          [] \<Rightarrow> None
        | (woken, p) # ws \<Rightarrow> if \<not> woken then Some False else wait_for_loop ws p)
     else Some True)"

declare wait_for_loop.simps [simp del]

definition pool_WaitFor :: "nat \<Rightarrow> (bool \<times> 'a ThreadPool) list \<Rightarrow> 'a ThreadPool \<Rightarrow> fault + bool option" where
  "pool_WaitFor current ws p =
    bindE (CheckNotPoolThread current p) (\<lambda>_. Inr (wait_for_loop ws p))"

section \<open>The loop of a worker\<close>

datatype 'a pass = Leave | AwaitTask | RunTask "'a QueueEntry"

definition dispatch_pass :: "'a ThreadPool \<Rightarrow> 'a pass \<times> 'a ThreadPool" where
  "dispatch_pass p =
    (if \<not> ok (pool_status p) then (Leave, p)
     else
       case queue p of
         [] \<Rightarrow> (AwaitTask, p)
       | e # es \<Rightarrow>
           (RunTask e,
            p\<lparr>queue := es, queue_size := queue_size p - 1, active_threads := active_threads p + 1\<rparr>))"

text \<open>After a timed wait that ran out the worker leaves if there is still nothing to do.\<close>

definition dispatch_timeout :: "'a ThreadPool \<Rightarrow> 'a pass \<times> 'a ThreadPool" where
  "dispatch_timeout p = (if queue p = [] then (Leave, p) else dispatch_pass p)"

definition dispatch_done :: "'a ThreadPool \<Rightarrow> wake list \<times> 'a ThreadPool" where
  "dispatch_done p =
    (let p = p\<lparr>active_threads := active_threads p - 1\<rparr>
     in (if active_threads p = 0 then [IdleBroadcast] else [], p))"

definition dispatch_leave :: "nat \<Rightarrow> 'a ThreadPool \<Rightarrow> fault + wake list \<times> 'a ThreadPool" where
  "dispatch_leave current p =
    (if current \<notin> threads p then Inl CheckFailed
     else
       let p = p\<lparr>threads := threads p - {current}, num_threads := num_threads p - 1\<rparr> in
       if num_threads p = 0 then
         (if queue p \<noteq> [] then Inl CheckFailed
          else if \<not> queue_size p = 0 then Inl CheckFailed
          else Inr ([NoThreadsBroadcast], p))
       else Inr ([], p))"

section \<open>The pool with its threads\<close>

text \<open>
  A worker is about to look at the queue with the lock, asleep on the condition for tasks, or
  running a task.  The clients in \<open>waiting\<close> are blocked in \<^verbatim>\<open>Wait\<close>; they go on when
  the pool broadcasts that it is idle.  \<open>accepted\<close>, \<open>started\<close> and
  \<open>dropped\<close> record the tasks the pool took, handed to a worker, and discarded.
\<close>

datatype 'a worker = Ready bool | Asleep bool | Running bool "'a QueueEntry"

record 'a System =
  pool :: "'a ThreadPool"
  worker :: "nat \<Rightarrow> 'a worker option"
  waiting :: "nat set"
  accepted :: "'a list"
  started :: "'a list"
  dropped :: "'a list"

definition start_worker :: "(nat \<times> bool) option \<Rightarrow> (nat \<Rightarrow> 'a worker option) \<Rightarrow> nat \<Rightarrow> 'a worker option" where
  "start_worker t w = (case t of None \<Rightarrow> w | Some (t, permanent) \<Rightarrow> w(t \<mapsto> Ready permanent))"

definition asleep :: "(nat \<Rightarrow> 'a worker option) \<Rightarrow> nat \<Rightarrow> bool" where
  "asleep w t \<longleftrightarrow> (\<exists>permanent. w t = Some (Asleep permanent))"

fun wake_up :: "'a worker \<Rightarrow> 'a worker" where
  "wake_up (Asleep permanent) = Ready permanent"
| "wake_up x = x"

text \<open>A signal wakes one sleeping worker where there is one; a broadcast wakes all.\<close>

definition signalled :: "(nat \<Rightarrow> 'a worker option) \<Rightarrow> (nat \<Rightarrow> 'a worker option) \<Rightarrow> bool" where
  "signalled w w' \<longleftrightarrow>
    (\<exists>t. asleep w t \<and> w' = w(t := map_option wake_up (w t))) \<or> (\<forall>t. \<not> asleep w t) \<and> w' = w"

definition woken_all :: "(nat \<Rightarrow> 'a worker option) \<Rightarrow> nat \<Rightarrow> 'a worker option" where
  "woken_all w t = map_option wake_up (w t)"

text \<open>What a worker does with the result of a pass: it leaves, sleeps or runs the task.\<close>

definition settle :: "nat \<Rightarrow> bool \<Rightarrow> 'a pass \<times> 'a ThreadPool \<Rightarrow> 'a System \<Rightarrow> fault + 'a System" where
  "settle t permanent r s =
    (case r of
       (Leave, p) \<Rightarrow>
         bindE (dispatch_leave t p) (\<lambda>(_, p). Inr (s\<lparr>pool := p, worker := (worker s)(t := None)\<rparr>))
     | (AwaitTask, p) \<Rightarrow> Inr (s\<lparr>pool := p, worker := (worker s)(t \<mapsto> Asleep permanent)\<rparr>)
     | (RunTask e, p) \<Rightarrow>
         Inr (s\<lparr>pool := p, worker := (worker s)(t \<mapsto> Running permanent e),
                started := started s @ [runnable e]\<rparr>))"

text \<open>The end of a task: the worker counts itself out, and its next pass follows with the lock held.\<close>

definition finish :: "nat \<Rightarrow> bool \<Rightarrow> 'a System \<Rightarrow> fault + 'a System" where
  "finish t permanent s =
    (let (w, p) = dispatch_done (pool s);
         s = s\<lparr>pool := p, waiting := (if IdleBroadcast \<in> set w then {} else waiting s)\<rparr>
     in settle t permanent (dispatch_pass p) s)"

inductive pool_step :: "'a System \<Rightarrow> fault + 'a System \<Rightarrow> bool" where
  submit: "Submit now created task (pool s) = Inr (st, t, w, p) \<Longrightarrow>
    (\<forall>u. created = Inr u \<longrightarrow> worker s u = None) \<Longrightarrow>
    (if NotEmptySignal \<in> set w then signalled (worker s) ws else ws = worker s) \<Longrightarrow>
    pool_step s (Inr (s\<lparr>pool := p, worker := start_worker t ws,
      accepted := accepted s @ (if ok st then [task] else [])\<rparr>))"
| submit_fault: "Submit now created task (pool s) = Inl f \<Longrightarrow>
    (\<forall>u. created = Inr u \<longrightarrow> worker s u = None) \<Longrightarrow> pool_step s (Inl f)"
| shutdown: "c \<notin> threads (pool s) \<Longrightarrow> Shutdown_begin c (pool s) = Inr (w, p) \<Longrightarrow>
    pool_step s (Inr (s\<lparr>pool := p, worker := woken_all (worker s),
      dropped := dropped s @ map runnable (queue (pool s))\<rparr>))"
| wait_blocks: "c \<notin> threads (pool s) \<Longrightarrow> pool_Wait c (pool s) = Inr False \<Longrightarrow>
    pool_step s (Inr (s\<lparr>waiting := insert c (waiting s)\<rparr>))"
| pass: "worker s t = Some (Ready permanent) \<Longrightarrow>
    pool_step s (settle t permanent (dispatch_pass (pool s)) s)"
| timeout: "worker s t = Some (Asleep False) \<Longrightarrow>
    pool_step s (settle t False (dispatch_timeout (pool s)) s)"
| spurious: "worker s t = Some (Asleep permanent) \<Longrightarrow>
    pool_step s (Inr (s\<lparr>worker := (worker s)(t \<mapsto> Ready permanent)\<rparr>))"
| task_end: "worker s t = Some (Running permanent e) \<Longrightarrow> pool_step s (finish t permanent s)"

text \<open>
  The system a builder starts: the pool after \<^verbatim>\<open>Init\<close> with the threads it created.  The
  runs considered are those in which the queue never holds 2^31 - 1 tasks, where
  its counter would overflow.
\<close>

definition system_of :: "(nat \<times> bool) list \<Rightarrow> 'a ThreadPool \<Rightarrow> 'a System" where
  "system_of ts p =
    \<lparr>pool = p, worker = (\<lambda>t. map_option Ready (map_of ts t)), waiting = {},
     accepted = [], started = [], dropped = []\<rparr>"

inductive pool_reach :: "ThreadPoolBuilder \<Rightarrow> 'a System \<Rightarrow> bool" for b :: ThreadPoolBuilder where
  start: "builder_Build cs b = Inr (InitReturns st, ts, p) \<Longrightarrow> pool_reach b (system_of ts p)"
| step: "pool_reach b s \<Longrightarrow> length (queue (pool s)) < 2 ^ 31 - 1 \<Longrightarrow> pool_step s (Inr s') \<Longrightarrow> pool_reach b s'"

section \<open>The invariant\<close>

definition running :: "(nat \<Rightarrow> 'a worker option) \<Rightarrow> nat set" where
  "running w = {t. \<exists>permanent e. w t = Some (Running permanent e)}"

definition inv_threads :: "'a ThreadPool \<Rightarrow> (nat \<Rightarrow> 'a worker option) \<Rightarrow> bool" where
  "inv_threads p w \<longleftrightarrow> dom w = threads p \<and> finite (threads p)
     \<and> num_threads p = int (card (threads p)) \<and> active_threads p = int (card (running w))"

definition inv_queue :: "ThreadPoolBuilder \<Rightarrow> 'a ThreadPool \<Rightarrow> bool" where
  "inv_queue b p \<longleftrightarrow> min_threads p = b_min_threads b \<and> max_threads p = b_max_threads b
     \<and> max_queue_size p = b_max_queue_size b
     \<and> num_threads p \<le> max (b_min_threads b) (b_max_threads b)
     \<and> queue_size p = int (length (queue p))
     \<and> active_threads p + queue_size p \<le> max_threads p + max_queue_size p
     \<and> (ok (pool_status p) \<or> queue p = [])"

definition inv_wake :: "'a ThreadPool \<Rightarrow> (nat \<Rightarrow> 'a worker option) \<Rightarrow> bool" where
  "inv_wake p w \<longleftrightarrow>
     (ok (pool_status p) \<and> queue p \<noteq> [] \<and> threads p \<noteq> {} \<longrightarrow> (\<exists>t\<in>threads p. \<not> asleep w t))
     \<and> (\<not> ok (pool_status p) \<longrightarrow> (\<forall>t. \<not> asleep w t))"

definition inv_log :: "'a System \<Rightarrow> bool" where
  "inv_log s \<longleftrightarrow> accepted s = started s @ map runnable (queue (pool s)) @ dropped s
     \<and> (ok (pool_status (pool s)) \<longrightarrow> dropped s = [])"

definition pool_inv :: "ThreadPoolBuilder \<Rightarrow> 'a System \<Rightarrow> bool" where
  "pool_inv b s \<longleftrightarrow> inv_threads (pool s) (worker s) \<and> inv_queue b (pool s)
     \<and> inv_wake (pool s) (worker s) \<and> inv_log s"

text \<open>Settings within the range of \<^verbatim>\<open>int\<close> that leave room for a task.\<close>

definition sane :: "ThreadPoolBuilder \<Rightarrow> bool" where
  "sane b \<longleftrightarrow> 0 \<le> b_min_threads b \<and> b_min_threads b < 2 ^ 31 \<and> 0 < b_max_threads b
     \<and> b_max_threads b < 2 ^ 31 \<and> 0 \<le> b_max_threads b + b_max_queue_size b \<and> b_max_queue_size b < 2 ^ 31"

lemma running_upd [simp]:
  "running (w(t := x)) =
    (case x of Some (Running permanent e) \<Rightarrow> insert t (running w) | _ \<Rightarrow> running w - {t})"
  by (auto simp: running_def split: option.splits worker.splits)

lemma asleep_upd [simp]:
  "asleep (w(t := x)) u \<longleftrightarrow> (if u = t then (\<exists>permanent. x = Some (Asleep permanent)) else asleep w u)"
  by (simp add: asleep_def)

lemma running_sub: "running w \<subseteq> dom w" by (auto simp: running_def)



lemma signalled_keeps:
  "signalled w w' \<Longrightarrow> dom w' = dom w \<and> running w' = running w
     \<and> ((\<exists>t. w t \<noteq> None) \<longrightarrow> (\<exists>t. w' t \<noteq> None \<and> \<not> asleep w' t))"
proof -
  assume s: "signalled w w'"
  consider (one) t permanent where "w t = Some (Asleep permanent)" "w' = w(t \<mapsto> Ready permanent)"
    | (none) "\<forall>t. \<not> asleep w t" "w' = w"
    using s by (auto simp: signalled_def asleep_def)
  then show ?thesis
  proof cases
    case one
    then have "t \<notin> running w" by (simp add: running_def)
    moreover have "w' t \<noteq> None \<and> \<not> asleep w' t" using one by simp
    ultimately show ?thesis using one by auto
  qed auto
qed

lemma woken_all_keeps [simp]:
  "dom (woken_all w) = dom w" "running (woken_all w) = running w" "\<not> asleep (woken_all w) t"
proof -
  have s: "wake_up x = Running p e \<longleftrightarrow> x = Running p e" "wake_up x \<noteq> Asleep p" for x :: "'a worker" and p e
    by (cases x; simp)+
  show "dom (woken_all w) = dom w" by (auto simp: woken_all_def dom_def)
  show "running (woken_all w) = running w" "\<not> asleep (woken_all w) t"
    using s by (auto simp: woken_all_def running_def asleep_def)
qed

lemma length_dec_nat: "0 < k \<Longrightarrow> n < 10 ^ k \<Longrightarrow> length (dec_nat n) \<le> k"
proof (induction k arbitrary: n)
  case (Suc k)
  show ?case
  proof (cases "n < 10")
    case False
    then have "k \<noteq> 0" using Suc.prems by (cases k) auto
    moreover have "n div 10 < 10 ^ k" using Suc.prems by (simp add: less_mult_imp_div_less mult.commute)
    ultimately show ?thesis using Suc.IH [of "n div 10"] False by (simp add: dec_nat.simps [of n])
  qed (simp add: dec_nat.simps)
qed simp

lemma length_dec_int: "- (10 ^ k) < i \<Longrightarrow> i < 10 ^ k \<Longrightarrow> 0 < k \<Longrightarrow> length (dec_int i) \<le> Suc k"
proof -
  assume a: "- (10 ^ k) < i" "i < 10 ^ k" and k: "0 < k"
  have "nat \<bar>i\<bar> < 10 ^ k" using a by (simp add: nat_less_iff abs_less_iff)
  then have "length (dec_nat (nat \<bar>i\<bar>)) \<le> k" by (rule length_dec_nat [OF k])
  then show ?thesis by (cases "i < 0") (simp_all add: dec_int_def)
qed

lemma message_status_make:
  "c \<noteq> kOk \<Longrightarrow> length m < 2 ^ 31 \<Longrightarrow>
    \<exists>s. message_status (status_make c) m = Inr s \<and> \<not> ok s \<and> code s = Inr c"
  using repr_make [of c "slice_of_string m" slice_empty "-1"]
  by (auto simp: message_status_def slice_of_string_def slice_of_def slice_wf_def slice_empty_def)

lemma factories:
  "message_status ServiceUnavailable = message_status (status_make kServiceUnavailable)"
  "message_status Uninitialized = message_status (status_make Code.kUninitialized)"
  "message_status NotSupported = message_status (status_make kNotSupported)"
  by (simp_all add: message_status_def fun_eq_iff ServiceUnavailable_def Uninitialized_def NotSupported_def)

lemma pass_ready:
  assumes i: "pool_inv b s" and w: "worker s t = Some (Ready permanent)"
    and r: "r = dispatch_pass (pool s) \<or> r = (Leave, pool s) \<and> queue (pool s) = []"
  shows "\<exists>s'. settle t permanent r s = Inr s' \<and> pool_inv b s'"
proof -
  define p where "p = pool s"
  have th: "dom (worker s) = threads p" "finite (threads p)" "num_threads p = int (card (threads p))"
      "active_threads p = int (card (running (worker s)))"
    and q: "queue_size p = int (length (queue p))" and em: "ok (pool_status p) \<or> queue p = []"
    using i unfolding pool_inv_def inv_threads_def inv_queue_def p_def by blast+
  have t: "t \<in> threads p" using th(1) w by blast
  have nr: "running (worker s) - {t} = running (worker s)" using w by (auto simp: running_def)
  have tr: "t \<notin> running (worker s)" using w by (simp add: running_def)
  have fr: "finite (running (worker s))" using running_sub [of "worker s"] th(1,2) by (metis finite_subset)
  have c1: "card (threads p - {t}) + 1 = card (threads p)"
    using t th(2) by (metis Suc_eq_plus1 card_Suc_Diff1)
  consider (leave) "r = (Leave, p)" "queue p = []"
    | (sleep) "r = (AwaitTask, p)" "queue p = []" "ok (pool_status p)"
    | (run) e es where "queue p = e # es" "ok (pool_status p)"
        "r = (RunTask e, p\<lparr>queue := es, queue_size := queue_size p - 1, active_threads := active_threads p + 1\<rparr>)"
    using r em unfolding p_def [symmetric] dispatch_pass_def by (auto split: list.splits if_splits)
  then show ?thesis
  proof cases
    case leave
    define p' where "p' = p\<lparr>threads := threads p - {t}, num_threads := num_threads p - 1\<rparr>"
    have d: "\<exists>w. dispatch_leave t p = Inr (w, p')"
      using t leave q by (auto simp: dispatch_leave_def p'_def Let_def)
    have "pool_inv b (s\<lparr>pool := p', worker := (worker s)(t := None)\<rparr>)"
      using i leave th c1 nr unfolding pool_inv_def p_def [symmetric]
      by (auto simp: inv_threads_def inv_queue_def inv_wake_def inv_log_def p'_def p_def [symmetric])
    then show ?thesis using d leave by (auto simp: settle_def)
  next
    case sleep
    have "pool_inv b (s\<lparr>pool := p, worker := (worker s)(t \<mapsto> Asleep permanent)\<rparr>)"
      using i sleep th t nr unfolding pool_inv_def p_def [symmetric]
      by (auto simp: inv_threads_def inv_wake_def inv_log_def p_def [symmetric])
    then show ?thesis using sleep by (simp add: settle_def)
  next
    case run
    have c2: "card (insert t (running (worker s))) = Suc (card (running (worker s)))"
      using tr fr by simp
    have "pool_inv b (s\<lparr>pool := snd r, worker := (worker s)(t \<mapsto> Running permanent e),
        started := started s @ [runnable e]\<rparr>)"
      using i run th t c2 unfolding pool_inv_def p_def [symmetric]
      by (auto simp: inv_threads_def inv_queue_def inv_wake_def inv_log_def p_def [symmetric])
    then show ?thesis using run by (simp add: settle_def)
  qed
qed

lemma settle_upd:
  "settle t permanent r (s\<lparr>worker := (worker s)(t := x)\<rparr>) = settle t permanent r s"
  by (simp add: settle_def split: prod.splits pass.splits)

lemma inv_wakes:
  assumes i: "pool_inv b s" and w: "worker s t = Some (Asleep permanent)"
  shows "pool_inv b (s\<lparr>worker := (worker s)(t \<mapsto> Ready permanent)\<rparr>)"
proof -
  have nr: "running (worker s) - {t} = running (worker s)" using w by (auto simp: running_def)
  show ?thesis
    using i w nr unfolding pool_inv_def by (auto simp: inv_threads_def inv_wake_def inv_log_def)
qed

lemma inv_done:
  assumes i: "pool_inv b s" and w: "worker s t = Some (Running permanent e)"
  shows "pool_inv b (s\<lparr>pool := snd (dispatch_done (pool s)), waiting := X,
    worker := (worker s)(t \<mapsto> Ready permanent)\<rparr>)"
proof -
  have t: "t \<in> running (worker s)" using w by (simp add: running_def)
  have "finite (running (worker s))"
    using i running_sub [of "worker s"] unfolding pool_inv_def inv_threads_def by (metis finite_subset)
  then have c: "card (running (worker s) - {t}) + 1 = card (running (worker s))"
    using t by (metis Suc_eq_plus1 card_Suc_Diff1)
  have "t \<in> threads (pool s)" using i w unfolding pool_inv_def inv_threads_def by blast
  then show ?thesis
    using i c unfolding pool_inv_def
    by (auto simp: inv_threads_def inv_queue_def inv_wake_def inv_log_def dispatch_done_def Let_def)
qed

lemma finish_good:
  assumes i: "pool_inv b s" and w: "worker s t = Some (Running permanent e)"
  shows "\<exists>s'. finish t permanent s = Inr s' \<and> pool_inv b s'"
proof -
  obtain ws p where d: "dispatch_done (pool s) = (ws, p)" by force
  define X where "X = (if IdleBroadcast \<in> set ws then {} else waiting s)"
  let ?s = "s\<lparr>pool := p, waiting := X\<rparr>"
  have "pool_inv b (?s\<lparr>worker := (worker ?s)(t \<mapsto> Ready permanent)\<rparr>)"
    using inv_done [OF i w, of X] d by simp
  from pass_ready [OF this, of t permanent "dispatch_pass p"]
  have "\<exists>s'. settle t permanent (dispatch_pass p) ?s = Inr s' \<and> pool_inv b s'"
    using settle_upd [of t permanent "dispatch_pass p" ?s "Some (Ready permanent)"] by simp
  then show ?thesis by (simp add: finish_def d X_def)
qed

lemma inv_enqueue:
  assumes i: "pool_inv b s" and k: "ok (pool_status (pool s))" and sb: "sane b"
    and cap: "\<not> max_threads (pool s) - active_threads (pool s) + max_queue_size (pool s) - queue_size (pool s) < 1"
    and sg: "signalled (worker s) ws" and few: "length (queue (pool s)) < 2 ^ 31 - 1"
    and new: "case t of None \<Rightarrow> p = pool s
       | Some (u, permanent) \<Rightarrow> worker s u = None \<and> num_threads (pool s) < max_threads (pool s)
           \<and> p = (pool s)\<lparr>threads := insert u (threads (pool s)), num_threads := num_threads (pool s) + 1\<rparr>"
  shows "pool_inv b (s\<lparr>pool := p\<lparr>queue := queue p @ [\<lparr>runnable = task, submit_time = now\<rparr>],
      queue_size := wrap32 (queue_size p + 1)\<rparr>, worker := start_worker t ws, accepted := accepted s @ [task]\<rparr>)"
proof -
  have dom: "dom (worker s) = threads (pool s)" and fin: "finite (threads (pool s))"
    and num: "num_threads (pool s) = int (card (threads (pool s)))"
    and act: "active_threads (pool s) = int (card (running (worker s)))"
    using i unfolding pool_inv_def inv_threads_def by blast+
  have q: "queue_size (pool s) = int (length (queue (pool s)))"
    and lims: "max_threads (pool s) = b_max_threads b" "max_queue_size (pool s) = b_max_queue_size b"
    using i unfolding pool_inv_def inv_queue_def by blast+
  have lg: "accepted s = started s @ map runnable (queue (pool s))" "dropped s = []"
    using i k unfolding pool_inv_def inv_log_def by auto
  have wr: "wrap32 (queue_size (pool s) + 1) = queue_size (pool s) + 1"
    using q few by (simp add: wrap32_id)
  note sk = signalled_keeps [OF sg]
  have iq: "inv_queue b (pool s)" using i unfolding pool_inv_def by blast
  define p' where "p' = p\<lparr>queue := queue p @ [\<lparr>runnable = task, submit_time = now\<rparr>],
      queue_size := wrap32 (queue_size p + 1)\<rparr>"
  show ?thesis
  proof (cases t)
    case None
    then have p: "p = pool s" using new by simp
    have "\<exists>t\<in>threads (pool s). \<not> asleep ws t" if "threads (pool s) \<noteq> {}"
    proof -
      have "\<exists>t. worker s t \<noteq> None" using that dom by blast
      then obtain t where "ws t \<noteq> None" "\<not> asleep ws t" using sk by blast
      moreover have "t \<in> threads (pool s)" using sk dom \<open>ws t \<noteq> None\<close> by blast
      ultimately show ?thesis by blast
    qed
    then have "inv_wake p' ws" using k by (simp add: inv_wake_def p'_def p)
    moreover have "inv_threads p' ws"
      using dom fin num act sk by (simp add: inv_threads_def p'_def p)
    moreover have "inv_queue b p'" using iq cap wr by (simp add: inv_queue_def p'_def p q k)
    ultimately show ?thesis
      using None lg k p unfolding pool_inv_def p'_def [symmetric]
      by (simp add: inv_log_def start_worker_def) (simp add: p'_def)
  next
    case (Some up)
    then obtain u permanent where t: "t = Some (u, permanent)" by (cases up) auto
    then have u: "worker s u = None" "num_threads (pool s) < max_threads (pool s)"
      and p: "p = (pool s)\<lparr>threads := insert u (threads (pool s)), num_threads := num_threads (pool s) + 1\<rparr>"
      using new by auto
    have un: "u \<notin> threads (pool s)" using u dom by auto
    have "u \<notin> running (worker s)" using u by (simp add: running_def)
    then have ur: "running ws - {u} = running (worker s)" using sk by blast
    have "inv_wake p' (ws(u \<mapsto> Ready permanent))" using k by (simp add: inv_wake_def p'_def p)
    moreover have "inv_threads p' (ws(u \<mapsto> Ready permanent))"
      using dom fin num act sk un ur by (simp add: inv_threads_def p'_def p)
    moreover have "inv_queue b p'" using iq cap wr u lims by (simp add: inv_queue_def p'_def p q k)
    ultimately show ?thesis
      using t lg k p unfolding pool_inv_def p'_def [symmetric]
      by (simp add: inv_log_def start_worker_def) (simp add: p'_def)
  qed
qed

lemma capacity_message_length:
  assumes "pool_inv b s" "sane b"
  shows "length (capacity_message (pool s)) < 2 ^ 31"
proof -
  have n: "0 \<le> num_threads (pool s)" "num_threads (pool s) < 2 ^ 31"
    using assms by (auto simp: pool_inv_def inv_threads_def inv_queue_def sane_def)
  have m: "0 < max_threads (pool s)" "max_threads (pool s) < 2 ^ 31"
      "- (2 ^ 31) < max_queue_size (pool s)" "max_queue_size (pool s) < 2 ^ 31"
    using assms by (auto simp: pool_inv_def inv_queue_def sane_def)
  have q: "0 \<le> queue_size (pool s)" "queue_size (pool s) < 2 ^ 32"
    using assms by (auto simp: pool_inv_def inv_queue_def inv_threads_def sane_def)
  have l: "length (dec_int i) \<le> 11" if "- (2 ^ 32) < i" "i < 2 ^ 32" for i :: int
    using length_dec_int [of 10 i] that by simp
  show ?thesis
    using l [of "num_threads (pool s)"] l [of "max_threads (pool s)"] l [of "queue_size (pool s)"]
      l [of "max_queue_size (pool s)"] n m q
    by (simp add: capacity_message_def)
qed

lemma submit_good:
  assumes i: "pool_inv b s" and sb: "sane b" and few: "length (queue (pool s)) < 2 ^ 31 - 1" and fresh: "\<forall>u. created = Inr u \<longrightarrow> worker s u = None"
  shows "\<exists>st t w p. Submit now created task (pool s) = Inr (st, t, w, p)
    \<and> (\<forall>ws. (if NotEmptySignal \<in> set w then signalled (worker s) ws else ws = worker s) \<longrightarrow>
        pool_inv b (s\<lparr>pool := p, worker := start_worker t ws,
          accepted := accepted s @ (if ok st then [task] else [])\<rparr>))"
proof -
  let ?p = "pool s"
  have fr: "u \<notin> threads ?p" if "created = Inr u" for u
    using i fresh that unfolding pool_inv_def inv_threads_def by auto
  have oks: "ok status_OK" by (simp add: ok_def status_OK_def)
  have same: "pool_inv b (s\<lparr>pool := pool s, worker := start_worker None (worker s), accepted := accepted s @ []\<rparr>)"
    using i by (simp add: start_worker_def)
  consider (bad) "\<not> ok (pool_status ?p)"
    | (full) "ok (pool_status ?p)" "max_threads ?p - active_threads ?p + max_queue_size ?p - queue_size ?p < 1"
    | (room) "ok (pool_status ?p)" "\<not> max_threads ?p - active_threads ?p + max_queue_size ?p - queue_size ?p < 1"
    by blast
  then show ?thesis
  proof cases
    case bad
    then show ?thesis using same by (simp add: Submit_def)
  next
    case full
    obtain st where "message_status ServiceUnavailable (capacity_message ?p) = Inr st" "\<not> ok st"
      using message_status_make [of kServiceUnavailable, OF _ capacity_message_length [OF i sb]] factories
      by auto
    then show ?thesis using same full by (simp add: Submit_def Let_def)
  next
    case room
    note enq = inv_enqueue [OF i room(1) sb room(2) _ few]
    show ?thesis
    proof (cases "wrap32 (wrap32 (queue_size ?p + 1) - wrap32 (num_threads ?p - active_threads ?p)) > 0
        \<and> num_threads ?p < max_threads ?p")
      case True
      show ?thesis
      proof (cases created)
        case (Inl e)
        show ?thesis
          using True room Inl enq [where t = None and p = ?p and task = task and now = now] oks
          by (simp add: Submit_def Let_def CreateThreadUnlocked_def)
      next
        case (Inr u)
        show ?thesis
          using True room Inr fr fresh oks
            enq [where t = "Some (u, num_threads ?p < min_threads ?p)"
              and p = "?p\<lparr>threads := insert u (threads ?p), num_threads := num_threads ?p + 1\<rparr>"
              and task = task and now = now]
          by (simp add: Submit_def Let_def CreateThreadUnlocked_def)
      qed
    next
      case False
      then show ?thesis
        using room enq [where t = None and p = ?p and task = task and now = now] oks
        by (auto simp: Submit_def Let_def)
    qed
  qed
qed

lemma shutdown_good:
  assumes i: "pool_inv b s" and sb: "sane b" and s: "Shutdown_begin c (pool s) = Inr (w, p)"
  shows "pool_inv b (s\<lparr>pool := p, worker := woken_all (worker s),
      dropped := dropped s @ map runnable (queue (pool s))\<rparr>)"
proof -
  obtain st where st: "message_status ServiceUnavailable (str ''The pool has been shut down.'') = Inr st" "\<not> ok st"
    using message_status_make [of kServiceUnavailable "str ''The pool has been shut down.''"] factories by auto
  have p: "p = (pool s)\<lparr>pool_status := st, queue := [], queue_size := 0\<rparr>"
    using s st by (auto simp: Shutdown_begin_def CheckNotPoolThread_def split: if_splits)
  have i1: "inv_threads (pool s) (worker s)" and i2: "inv_queue b (pool s)" and i4: "inv_log s"
    using i unfolding pool_inv_def by blast+
  have "inv_threads p (woken_all (worker s))" using i1 by (simp add: p inv_threads_def)
  moreover have "inv_queue b p" using i2 by (simp add: p inv_queue_def)
  moreover have "inv_wake p (woken_all (worker s))" using st by (simp add: p inv_wake_def)
  moreover have "inv_log (s\<lparr>pool := p, worker := woken_all (worker s),
      dropped := dropped s @ map runnable (queue (pool s))\<rparr>)"
  proof (cases "ok (pool_status (pool s))")
    case True
    then show ?thesis using i4 st by (simp add: p inv_log_def)
  next
    case False
    then have "queue (pool s) = []" using i2 by (simp add: inv_queue_def)
    then show ?thesis using i4 st by (simp add: p inv_log_def)
  qed
  ultimately show ?thesis unfolding pool_inv_def by simp
qed

lemma timeout_good:
  assumes i: "pool_inv b s" and w: "worker s t = Some (Asleep permanent)"
  shows "\<exists>s'. settle t permanent (dispatch_timeout (pool s)) s = Inr s' \<and> pool_inv b s'"
proof -
  let ?s = "s\<lparr>worker := (worker s)(t \<mapsto> Ready permanent)\<rparr>"
  have "\<exists>s'. settle t permanent (dispatch_timeout (pool s)) ?s = Inr s' \<and> pool_inv b s'"
    by (rule pass_ready [OF inv_wakes [OF i w]]) (simp_all add: dispatch_timeout_def)
  then show ?thesis by (simp only: settle_upd)
qed

lemma step_good: "pool_step s r \<Longrightarrow> length (queue (pool s)) < 2 ^ 31 - 1 \<Longrightarrow> sane b \<Longrightarrow> pool_inv b s \<Longrightarrow> \<exists>s'. r = Inr s' \<and> pool_inv b s'"
proof (induction rule: pool_step.induct)
  case (submit now created task s st t w p ws)
  show ?case using submit_good [OF submit(6,5,4,2), of now task] submit(1,3) by auto
next
  case (submit_fault now created task s f)
  then show ?case using submit_good [of b s created now task] by auto
next
  case (shutdown c s w p)
  then show ?case using shutdown_good by blast
next
  case (wait_blocks c s)
  then show ?case by (simp add: pool_inv_def inv_log_def)
next
  case (pass s t permanent)
  then show ?case using pass_ready by blast
next
  case (timeout s t)
  then show ?case using timeout_good by blast
next
  case (spurious s t permanent)
  then show ?case using inv_wakes by blast
next
  case (task_end s t permanent e)
  then show ?case using finish_good by blast
qed

lemma init_loop_good:
  assumes "init_loop n cs st p = Inr (InitReturns r, ts, p')"
    and "dom (map_of st) = threads p" "num_threads p = int (card (threads p))"
    and "num_threads p + int n \<le> m"
  shows "dom (map_of ts) = threads p' \<and> num_threads p' = int (card (threads p'))
    \<and> num_threads p' \<le> m
    \<and> p' = p\<lparr>threads := threads p', num_threads := num_threads p'\<rparr>"
  using assms
proof (induction n arbitrary: cs st p)
  case (Suc n)
  obtain c cs' where cs: "cs = c # cs'" using Suc.prems(1) by (cases cs) auto
  have fin: "finite (threads p)" using Suc.prems(2) finite_dom_map_of by metis
  show ?case
  proof (cases c)
    case (Inl e)
    then have l: "init_loop n cs' st p = Inr (InitReturns r, ts, p')"
      using Suc.prems(1) cs by (simp add: CreateThreadUnlocked_def ok_def status_OK_def)
    show ?thesis by (rule Suc.IH [OF l Suc.prems(2,3)]) (use Suc.prems(4) in simp)
  next
    case (Inr u)
    then have u: "u \<notin> threads p" using Suc.prems(1) cs by (auto simp: CreateThreadUnlocked_def)
    let ?p = "p\<lparr>threads := insert u (threads p), num_threads := num_threads p + 1\<rparr>"
    have l: "init_loop n cs' (st @ [(u, num_threads p < min_threads p)]) ?p = Inr (InitReturns r, ts, p')"
      using Suc.prems(1) cs Inr u by (simp add: CreateThreadUnlocked_def ok_def status_OK_def)
    show ?thesis
      using Suc.IH [OF l] Suc.prems u fin by auto
  qed
qed auto

lemma reach_good: "pool_reach b s \<Longrightarrow> sane b \<Longrightarrow> pool_inv b s"
proof (induction rule: pool_reach.induct)
  case (start cs st ts p)
  obtain s0 where s0: "message_status Uninitialized (str ''The pool was not initialized.'') = Inr s0"
      "code s0 = Inr Code.kUninitialized"
    using message_status_make [of Code.kUninitialized "str ''The pool was not initialized.''"] factories by auto
  define q :: "'a ThreadPool" where "q = \<lparr>pool_name = b_name b, min_threads = b_min_threads b,
      max_threads = b_max_threads b, max_queue_size = b_max_queue_size b, idle_timeout = b_idle_timeout b,
      pool_status = status_OK, num_threads = 0, active_threads = 0, queue_size = 0, queue = [], threads = {}\<rparr>"
  have "init_loop (nat (b_min_threads b)) cs [] q = Inr (InitReturns st, ts, p)"
    using start(1) s0 by (simp add: builder_Build_def pool_new_def pool_Init_def IsUninitialized_def q_def)
  from init_loop_good [OF this, of "b_min_threads b"]
  have g: "dom (map_of ts) = threads p" "num_threads p = int (card (threads p))"
      "num_threads p \<le> b_min_threads b" "p = q\<lparr>threads := threads p, num_threads := num_threads p\<rparr>"
    using start(2) by (auto simp: q_def sane_def)
  have fin: "finite (threads p)" using g(1) finite_dom_map_of by metis
  have f: "pool_status p = status_OK" "active_threads p = 0" "queue_size p = 0" "queue p = []"
      "min_threads p = b_min_threads b" "max_threads p = b_max_threads b" "max_queue_size p = b_max_queue_size b"
    by (subst g(4), simp add: q_def)+
  define w :: "nat \<Rightarrow> 'a worker option" where "w = (\<lambda>t. map_option Ready (map_of ts t))"
  have "running w = {}" by (auto simp: running_def w_def)
  moreover have "dom w = dom (map_of ts)" by (auto simp: dom_def w_def)
  moreover have "ok status_OK" by (simp add: ok_def status_OK_def)
  ultimately have "inv_threads p w" "inv_queue b p"
      "inv_wake p w" "inv_log (system_of ts p)"
    using g(1-3) fin f start(2)
    by (auto simp: system_of_def inv_threads_def inv_queue_def inv_wake_def inv_log_def sane_def)
  then show ?case by (simp add: pool_inv_def system_of_def w_def)
next
  case (step s s')
  then show ?case using step_good by blast
qed

section \<open>What the pool guarantees\<close>

abbreviation pool_moves :: "'a System \<Rightarrow> 'a System \<Rightarrow> bool" where
  "pool_moves \<equiv> (\<lambda>s s'. pool_step s (Inr s'))\<^sup>*\<^sup>*"

lemma leaves_when_shut:
  assumes i: "pool_inv b s" and k: "\<not> ok (pool_status (pool s))" and w: "worker s t \<noteq> None"
  shows "\<exists>s'. pool_step s (Inr s') \<and> pool_inv b s' \<and> \<not> ok (pool_status (pool s'))
    \<and> card (threads (pool s')) < card (threads (pool s))"
proof -
  have th: "t \<in> threads (pool s)" "finite (threads (pool s))"
    using i w unfolding pool_inv_def inv_threads_def by auto
  then have c: "card (threads (pool s) - {t}) < card (threads (pool s))" by (intro card_Diff1_less)
  have leave: "pool_status p' = pool_status p \<and> threads p' = threads p - {t}"
    if "dispatch_leave t p = Inr (w, p')" for w and p p' :: "'a ThreadPool"
    using that by (auto simp: dispatch_leave_def Let_def split: if_splits)
  have "\<not> asleep (worker s) t" using i k unfolding pool_inv_def inv_wake_def by blast
  then consider (ready) permanent where "worker s t = Some (Ready permanent)"
    | (run) permanent e where "worker s t = Some (Running permanent e)"
    using w by (cases "worker s t"; cases "the (worker s t)") (auto simp: asleep_def)
  then show ?thesis
  proof cases
    case ready
    obtain s' where s': "settle t permanent (dispatch_pass (pool s)) s = Inr s'" "pool_inv b s'"
      using pass_ready [OF i ready] by blast
    have "pool_status (pool s') = pool_status (pool s) \<and> threads (pool s') = threads (pool s) - {t}"
      using s'(1) k leave by (auto simp: settle_def dispatch_pass_def bindE_Inr_iff)
    then show ?thesis using s' pool_step.pass [OF ready] k c by auto
  next
    case run
    obtain s' where s': "finish t permanent s = Inr s'" "pool_inv b s'"
      using finish_good [OF i run] by blast
    have "pool_status (pool s') = pool_status (pool s) \<and> threads (pool s') = threads (pool s) - {t}"
      using s'(1) k leave
      by (auto simp: finish_def dispatch_done_def settle_def dispatch_pass_def Let_def bindE_Inr_iff)
    then show ?thesis using s' pool_step.task_end [OF run] k c by auto
  qed
qed

lemma drains:
  "card (threads (pool s)) = n \<Longrightarrow> pool_inv b s \<Longrightarrow> \<not> ok (pool_status (pool s)) \<Longrightarrow>
    \<exists>s'. pool_moves s s' \<and> pool_inv b s' \<and> threads (pool s') = {}"
proof (induction n arbitrary: s rule: less_induct)
  case (less n)
  show ?case
  proof (cases "threads (pool s) = {}")
    case False
    then obtain t where "worker s t \<noteq> None"
      using less.prems(2) unfolding pool_inv_def inv_threads_def by blast
    from leaves_when_shut [OF less.prems(2,3) this]
    obtain s1 where s1: "pool_step s (Inr s1)" "pool_inv b s1" "\<not> ok (pool_status (pool s1))"
        "card (threads (pool s1)) < n"
      using less.prems(1) by blast
    from less.IH [OF s1(4) refl s1(2,3)]
    obtain s' where "pool_moves s1 s'" "pool_inv b s'" "threads (pool s') = {}" by blast
    then show ?thesis using s1(1) by (meson converse_rtranclp_into_rtranclp)
  qed (use less.prems in blast)
qed

text \<open>
  C8: In every reachable state of a pool the counters count: the threads that live, the
  threads that run a task and the tasks that wait; the number of threads stays within the
  larger of the two limits, running and waiting tasks together within their capacity, and
  whatever step comes next no check of the pool fails.
\<close>

theorem pool_accounts:
  assumes "pool_reach b s" "sane b"
  shows "num_threads (pool s) = int (card (dom (worker s)))
    \<and> active_threads (pool s) = int (card (running (worker s)))
    \<and> queue_size (pool s) = int (length (queue (pool s)))
    \<and> num_threads (pool s) \<le> max (b_min_threads b) (b_max_threads b)
    \<and> active_threads (pool s) + queue_size (pool s) \<le> b_max_threads b + b_max_queue_size b
    \<and> (length (queue (pool s)) < 2 ^ 31 - 1 \<longrightarrow> (\<forall>f. \<not> pool_step s (Inl f)))"
proof -
  have i: "pool_inv b s" by (rule reach_good [OF assms])
  have "\<not> pool_step s (Inl f)" if "length (queue (pool s)) < 2 ^ 31 - 1" for f
    using step_good [OF _ that assms(2) i, of "Inl f"] by auto
  then show ?thesis
    using i unfolding pool_inv_def inv_threads_def inv_queue_def by auto
qed

text \<open>
  C9: Every task the pool accepts is started exactly once, in the order of acceptance, or
  waits in the queue behind those started, or was discarded by a shutdown; no task is
  discarded while the pool is open.
\<close>

theorem pool_tasks_in_order:
  assumes "pool_reach b s" "sane b"
  shows "accepted s = started s @ map runnable (queue (pool s)) @ dropped s
    \<and> (ok (pool_status (pool s)) \<longrightarrow> dropped s = [])
    \<and> (ok (pool_status (pool s)) \<or> queue (pool s) = [])"
  using reach_good [OF assms] by (simp add: pool_inv_def inv_log_def inv_queue_def)

text \<open>
  C10: No wake-up is lost: as long as an open pool has waiting tasks and a thread, one of its
  threads is not asleep.  After a shutdown all threads are awake, and the pool can always run
  on until no thread is left, which is what \<^verbatim>\<open>Shutdown\<close> waits for.
\<close>

theorem pool_progress:
  assumes "pool_reach b s" "sane b"
  shows "(ok (pool_status (pool s)) \<and> queue (pool s) \<noteq> [] \<and> threads (pool s) \<noteq> {}
      \<longrightarrow> (\<exists>t\<in>threads (pool s). \<not> asleep (worker s) t))
    \<and> (\<not> ok (pool_status (pool s))
      \<longrightarrow> (\<forall>t. \<not> asleep (worker s) t) \<and> (\<exists>s'. pool_moves s s' \<and> Shutdown_done (pool s')))"
proof -
  have i: "pool_inv b s" by (rule reach_good [OF assms])
  have "\<exists>s'. pool_moves s s' \<and> Shutdown_done (pool s')" if k: "\<not> ok (pool_status (pool s))"
  proof -
    obtain s' where "pool_moves s s'" "pool_inv b s'" "threads (pool s') = {}"
      using drains [OF refl i k] by blast
    then show ?thesis by (auto simp: Shutdown_done_def pool_inv_def inv_threads_def)
  qed
  then show ?thesis using i unfolding pool_inv_def inv_wake_def by blast
qed

text \<open>
  \<^verbatim>\<open>Shutdown\<close> forgets the clients that wait for the pool to become idle.  It empties the
  queue but broadcasts only to the workers, who leave without a broadcast when none of them
  runs a task: a client blocked in \<^verbatim>\<open>Wait\<close> at that time stays blocked in everything the
  program can do afterwards, although the condition it waits for holds.
\<close>

theorem Shutdown_forgets_waiters:
  fixes s :: "'a System"
  assumes r: "pool_reach b s" "sane b" and c: "c \<in> waiting s"
    and k: "\<not> ok (pool_status (pool s))" and n: "running (worker s) = {}"
    and m: "pool_moves s s'"
  shows "c \<in> waiting s' \<and> queue (pool s') = [] \<and> active_threads (pool s') = 0"
proof -
  define J where "J = (\<lambda>s :: 'a System. pool_inv b s \<and> c \<in> waiting s \<and> \<not> ok (pool_status (pool s)) \<and> running (worker s) = {})"
  have step: "J u'" if J: "J u" and st: "pool_step u (Inr u')" for u u' :: "'a System"
  proof -
    have i: "pool_inv b u" and cu: "c \<in> waiting u" and ku: "\<not> ok (pool_status (pool u))"
      and nu: "running (worker u) = {}"
      using J unfolding J_def by blast+
    have "queue (pool u) = []" using i ku by (auto simp: pool_inv_def inv_queue_def)
    then have "pool_inv b u'" using step_good [OF st _ r(2) i] by auto
    moreover have "c \<in> waiting u' \<and> \<not> ok (pool_status (pool u')) \<and> running (worker u') = {}"
      using st
    proof cases
      case (submit now created task st t w p ws)
      then show ?thesis using ku nu cu by (auto simp: Submit_def start_worker_def)
    next
      case (shutdown d w p)
      obtain st where "message_status ServiceUnavailable (str ''The pool has been shut down.'') = Inr st" "\<not> ok st"
        using message_status_make [of kServiceUnavailable "str ''The pool has been shut down.''"] factories by auto
      then show ?thesis
        using shutdown nu cu by (auto simp: Shutdown_begin_def CheckNotPoolThread_def split: if_splits)
    next
      case (pass t permanent)
      then show ?thesis using ku nu cu
        by (auto simp: settle_def dispatch_pass_def dispatch_leave_def Let_def bindE_Inr_iff split: if_splits)
    next
      case (timeout t)
      then show ?thesis using ku nu cu
        by (auto simp: settle_def dispatch_timeout_def dispatch_pass_def dispatch_leave_def Let_def
            bindE_Inr_iff split: if_splits)
    next
      case (task_end t permanent e)
      then have "t \<in> running (worker u)" by (simp add: running_def)
      then show ?thesis using nu by simp
    qed (use ku nu cu in auto)
    ultimately show ?thesis by (simp add: J_def)
  qed
  have "J s" using reach_good [OF r] c k n by (simp add: J_def)
  with m have "J s'" by (induction rule: rtranclp_induct) (auto intro: step)
  then show ?thesis
    unfolding J_def pool_inv_def inv_queue_def inv_threads_def by auto
qed

text \<open>
  The status of a failed thread creation never reaches the caller: \<^verbatim>\<open>CreateThreadUnlocked\<close>
  always returns success.  \<^verbatim>\<open>Submit\<close> on a pool without threads then accepts and queues a
  task that no thread is there to run, and \<^verbatim>\<open>Build\<close> reports a pool with no threads as
  initialised.
\<close>

theorem creation_failure_swallowed:
  assumes "pool_inv b s" "ok (pool_status (pool s))" "threads (pool s) = {}"
    and "int (length (queue (pool s))) < max_threads (pool s) + max_queue_size (pool s)"
  shows "\<exists>p. Submit now (Inl failure) task (pool s) = Inr (status_OK, None, [NotEmptySignal], p)
    \<and> queue p = queue (pool s) @ [\<lparr>runnable = task, submit_time = now\<rparr>] \<and> threads p = {}"
proof -
  have w: "worker s = (\<lambda>_. None)"
    using assms(1,3) unfolding pool_inv_def inv_threads_def by (auto simp: fun_eq_iff dom_def)
  then have "active_threads (pool s) = 0"
    using assms(1) unfolding pool_inv_def inv_threads_def by (simp add: running_def)
  then show ?thesis
    using assms by (auto simp: Submit_def Let_def CreateThreadUnlocked_def pool_inv_def inv_queue_def
        ok_def status_OK_def)
qed

section \<open>Runs of a small pool\<close>

definition small_builder :: ThreadPoolBuilder where "small_builder = builder_new [] 1"

definition small_pool :: "nat ThreadPool" where
  "small_pool = \<lparr>pool_name = [], min_threads = 0, max_threads = 1, max_queue_size = 2 ^ 31 - 1,
     idle_timeout = FromMilliseconds 500, pool_status = status_OK, num_threads = 0,
     active_threads = 0, queue_size = 0, queue = [], threads = {}\<rparr>"

definition small_time :: MonoTime where "small_time = MonoTime 5"

lemma small_sane: "sane small_builder"
  by (simp add: sane_def small_builder_def builder_new_def)

lemma small_start: "pool_reach small_builder (system_of [] small_pool)"
proof -
  obtain s0 where s0: "message_status Uninitialized (str ''The pool was not initialized.'') = Inr s0"
      "code s0 = Inr Code.kUninitialized"
    using message_status_make [of Code.kUninitialized "str ''The pool was not initialized.''"] factories by auto
  have "builder_Build [] small_builder = Inr (InitReturns status_OK, [], small_pool)"
    using s0 by (simp add: builder_Build_def pool_new_def pool_Init_def IsUninitialized_def
        small_builder_def builder_new_def small_pool_def)
  then show ?thesis by (rule pool_reach.start)
qed

definition small_busy :: "nat System" where
  "small_busy = \<lparr>pool = small_pool\<lparr>threads := {7}, num_threads := 1,
       queue := [\<lparr>runnable = 42, submit_time = small_time\<rparr>], queue_size := 1\<rparr>,
     worker = [7 \<mapsto> Ready False], waiting = {}, accepted = [42], started = [], dropped = []\<rparr>"

lemma small_submit: "pool_reach small_builder small_busy"
proof -
  let ?s = "system_of [] small_pool :: nat System"
  let ?p = "pool small_busy"
  have "Submit small_time (Inr 7) 42 (pool ?s) = Inr (status_OK, Some (7, False), [NotEmptySignal], ?p)"
    by (simp add: Submit_def CreateThreadUnlocked_def system_of_def small_pool_def small_busy_def
        ok_def status_OK_def wrap32_def)
  moreover have "signalled (worker ?s) (worker ?s)"
    by (simp add: signalled_def asleep_def system_of_def)
  ultimately have "pool_step ?s (Inr (?s\<lparr>pool := ?p, worker := start_worker (Some (7, False)) (worker ?s),
      accepted := accepted ?s @ (if ok status_OK then [42] else [])\<rparr>))"
    by (intro pool_step.submit) (auto simp: system_of_def)
  moreover have "?s\<lparr>pool := ?p, worker := start_worker (Some (7, False)) (worker ?s),
      accepted := accepted ?s @ (if ok status_OK then [42] else [])\<rparr> = small_busy"
    by (simp add: system_of_def small_busy_def start_worker_def ok_def status_OK_def)
  moreover have "length (queue (pool ?s)) < 2 ^ 31 - 1" by (simp add: system_of_def small_pool_def)
  ultimately show ?thesis using pool_reach.step [OF small_start] by metis
qed

lemma small_shut:
  "\<exists>s :: nat System. pool_reach small_builder s \<and> 1 \<in> waiting s \<and> \<not> ok (pool_status (pool s)) \<and> running (worker s) = {}
     \<and> num_threads (pool s) = 1"
proof -
  obtain st where st: "message_status ServiceUnavailable (str ''The pool has been shut down.'') = Inr st" "\<not> ok st"
    using message_status_make [of kServiceUnavailable "str ''The pool has been shut down.''"] factories by auto
  let ?s = "small_busy\<lparr>waiting := insert 1 (waiting small_busy)\<rparr>"
  have "pool_step small_busy (Inr ?s)"
    by (rule pool_step.wait_blocks)
      (auto simp: pool_Wait_def CheckNotPoolThread_def small_busy_def)
  moreover have few: "length (queue (pool small_busy)) < 2 ^ 31 - 1"
    by (simp add: small_busy_def)
  ultimately have r: "pool_reach small_builder ?s" using pool_reach.step [OF small_submit] by blast
  let ?p = "(pool ?s)\<lparr>pool_status := st, queue := [], queue_size := 0\<rparr>"
  let ?t = "?s\<lparr>pool := ?p, worker := woken_all (worker ?s),
      dropped := dropped ?s @ map runnable (queue (pool ?s))\<rparr>"
  have "pool_step ?s (Inr ?t)"
    by (rule pool_step.shutdown [of 1 _ "[NotEmptyBroadcast]"])
      (auto simp: Shutdown_begin_def CheckNotPoolThread_def small_busy_def st)
  moreover have "length (queue (pool ?s)) < 2 ^ 31 - 1" using few by simp
  ultimately have "pool_reach small_builder ?t" using pool_reach.step [OF r] by blast
  moreover have "running (worker ?t) = {}" by (simp add: small_busy_def) (simp add: running_def)
  ultimately show ?thesis
    using st by (intro exI [of _ ?t]) (simp add: small_busy_def)
qed

lemma pool_accounts_witness:
  "num_threads (pool small_busy) = int (card (dom (worker small_busy)))
    \<and> active_threads (pool small_busy) + queue_size (pool small_busy) \<le> 2 ^ 31
    \<and> \<not> pool_step small_busy (Inl CheckFailed)"
  using pool_accounts [OF small_submit small_sane]
  by (auto simp: small_busy_def small_builder_def builder_new_def)

lemma pool_tasks_in_order_witness:
  "accepted small_busy = started small_busy @ map runnable (queue (pool small_busy)) @ dropped small_busy"
  using pool_tasks_in_order [OF small_submit small_sane] by blast

lemma pool_progress_witness: "\<exists>(s :: nat System) s'. pool_reach small_builder s \<and> \<not> Shutdown_done (pool s)
    \<and> pool_moves s s' \<and> Shutdown_done (pool s')"
proof -
  obtain s :: "nat System" where s: "pool_reach small_builder s" "\<not> ok (pool_status (pool s))" "num_threads (pool s) = 1"
    using small_shut by blast
  then show ?thesis using pool_progress [OF s(1) small_sane] by (auto simp: Shutdown_done_def)
qed

lemma Shutdown_forgets_waiters_witness: "\<exists>(s :: nat System) s'. pool_reach small_builder s \<and> pool_moves s s'
    \<and> Shutdown_done (pool s') \<and> 1 \<in> waiting s' \<and> queue (pool s') = [] \<and> active_threads (pool s') = 0"
proof -
  obtain s :: "nat System" where s: "pool_reach small_builder s" "1 \<in> waiting s" "\<not> ok (pool_status (pool s))"
      "running (worker s) = {}"
    using small_shut by blast
  obtain s' where m: "pool_moves s s'" "pool_inv small_builder s'" "threads (pool s') = {}"
    using drains [OF refl reach_good [OF s(1) small_sane] s(3)] by blast
  have "Shutdown_done (pool s')" using m by (simp add: Shutdown_done_def pool_inv_def inv_threads_def)
  then show ?thesis using Shutdown_forgets_waiters [OF s(1) small_sane s(2-4) m(1)] s(1) m(1) by blast
qed

lemma creation_failure_swallowed_witness:
  "\<exists>p. Submit small_time (Inl (Status (Some []))) 42 (pool (system_of [] small_pool)) =
      Inr (status_OK, None, [NotEmptySignal], p) \<and> threads p = {}"
proof -
  let ?s = "system_of [] small_pool :: nat System"
  have i: "pool_inv small_builder ?s" by (rule reach_good [OF small_start small_sane])
  have "ok (pool_status (pool ?s))" "threads (pool ?s) = {}"
      "int (length (queue (pool ?s))) < max_threads (pool ?s) + max_queue_size (pool ?s)"
    by (simp_all add: system_of_def small_pool_def ok_def status_OK_def)
  from creation_failure_swallowed [OF i this, of small_time "Status (Some [])" 42]
  show ?thesis by blast
qed

end
