(* ===== verification/OrderedMap.thy ===== *)
theory OrderedMap
  imports Prelude
begin

text \<open>
  The sorted map of the C++ standard library as the program uses it: a list of pairs with
  strictly increasing keys, with \<^verbatim>\<open>find\<close>, \<^verbatim>\<open>emplace\<close> (which keeps a binding that exists),
  \<^verbatim>\<open>operator[]\<close> assignment (which replaces it) and \<^verbatim>\<open>upper_bound\<close>.  The interface is a locale
  with two extensions, for the two ways to insert.
\<close>

fun om_find :: "'k::linorder \<Rightarrow> ('k \<times> 'v) list \<Rightarrow> 'v option" where
  "om_find k [] = None"
| "om_find k ((j, v) # m) = (if k = j then Some v else om_find k m)"

fun om_emplace :: "'k::linorder \<Rightarrow> 'v \<Rightarrow> ('k \<times> 'v) list \<Rightarrow> ('k \<times> 'v) list" where
  "om_emplace k v [] = [(k, v)]"
| "om_emplace k v ((j, w) # m) =
    (if k < j then (k, v) # (j, w) # m else if k = j then (j, w) # m else (j, w) # om_emplace k v m)"

fun om_put :: "'k::linorder \<Rightarrow> 'v \<Rightarrow> ('k \<times> 'v) list \<Rightarrow> ('k \<times> 'v) list" where
  "om_put k v [] = [(k, v)]"
| "om_put k v ((j, w) # m) =
    (if k < j then (k, v) # (j, w) # m else if k = j then (k, v) # m else (j, w) # om_put k v m)"

text \<open>The bindings behind \<^verbatim>\<open>upper_bound\<close>, in order.\<close>

definition om_above :: "'k::linorder \<Rightarrow> ('k \<times> 'v) list \<Rightarrow> ('k \<times> 'v) list" where
  "om_above k m = filter (\<lambda>(j, _). k < j) m"

definition om_sorted :: "('k::linorder \<times> 'v) list \<Rightarrow> bool" where
  "om_sorted m \<longleftrightarrow> sorted_wrt (<) (map fst m)"

section \<open>The interface\<close>

locale key_store =
  fixes lookup :: "'k \<Rightarrow> 'm \<Rightarrow> 'v option"
    and insert_key :: "'k \<Rightarrow> 'v \<Rightarrow> 'm \<Rightarrow> 'm"
    and inv :: "'m \<Rightarrow> bool"
  assumes inv_insert: "inv m \<Longrightarrow> inv (insert_key k v m)"
    and lookup_other: "inv m \<Longrightarrow> j \<noteq> k \<Longrightarrow> lookup j (insert_key k v m) = lookup j m"
begin

definition insert_all :: "('k \<times> 'v) list \<Rightarrow> 'm \<Rightarrow> 'm" where
  "insert_all kvs m = foldl (\<lambda>m (k, v). insert_key k v m) m kvs"

lemma insert_all_simps [simp]:
  "insert_all [] m = m" "insert_all (kv # kvs) m = insert_all kvs (insert_key (fst kv) (snd kv) m)"
  by (simp_all add: insert_all_def case_prod_beta)

lemma inv_insert_all: "inv m \<Longrightarrow> inv (insert_all kvs m)"
  by (induction kvs arbitrary: m) (simp_all add: inv_insert)

lemma lookup_insert_all_other:
  "inv m \<Longrightarrow> j \<notin> fst ` set kvs \<Longrightarrow> lookup j (insert_all kvs m) = lookup j m"
  by (induction kvs arbitrary: m) (auto simp: inv_insert lookup_other)

end

locale keeping_store = key_store +
  assumes lookup_kept: "inv m \<Longrightarrow>
    lookup k (insert_key k v m) = (case lookup k m of None \<Rightarrow> Some v | Some w \<Rightarrow> Some w)"
begin

lemma insert_all_keeps: "inv m \<Longrightarrow> lookup k m = Some v \<Longrightarrow> lookup k (insert_all kvs m) = Some v"
proof (induction kvs arbitrary: m)
  case (Cons kv kvs)
  have "lookup k (insert_key (fst kv) (snd kv) m) = Some v"
    using Cons.prems lookup_kept lookup_other by (cases "k = fst kv") auto
  then show ?case using Cons.IH Cons.prems(1) inv_insert by simp
qed simp

lemma insert_all_first:
  "inv m \<Longrightarrow> lookup k m = None \<Longrightarrow> lookup k (insert_all kvs m) = map_of kvs k"
proof (induction kvs arbitrary: m)
  case (Cons kv kvs)
  obtain j v where kv: "kv = (j, v)" by force
  show ?case
  proof (cases "k = j")
    case True
    then have "lookup k (insert_key j v m) = Some v" using Cons.prems lookup_kept by simp
    then show ?thesis using insert_all_keeps [OF inv_insert [OF Cons.prems(1)]] True kv by simp
  next
    case False
    then show ?thesis using Cons kv lookup_other inv_insert by simp
  qed
qed simp

end

locale replacing_store = key_store +
  assumes lookup_new: "inv m \<Longrightarrow> lookup k (insert_key k v m) = Some v"

section \<open>The sorted list is such a store\<close>

lemma om_sorted_Cons: "om_sorted ((j, w) # m) \<longleftrightarrow> (\<forall>k\<in>fst ` set m. j < k) \<and> om_sorted m"
  by (auto simp: om_sorted_def)

lemma keys_emplace [simp]: "fst ` set (om_emplace k v m) = insert k (fst ` set m)"
  by (induction k v m rule: om_emplace.induct) auto

lemma keys_put [simp]: "fst ` set (om_put k v m) = insert k (fst ` set m)"
  by (induction k v m rule: om_put.induct) auto

lemma set_emplace: "set (om_emplace k v m) \<subseteq> insert (k, v) (set m)"
  by (induction k v m rule: om_emplace.induct) auto

lemma find_absent: "k \<notin> fst ` set m \<Longrightarrow> om_find k m = None"
  by (induction k m rule: om_find.induct) auto

lemma find_None_iff: "om_find k m = None \<longleftrightarrow> k \<notin> fst ` set m"
  by (induction k m rule: om_find.induct) auto

lemma find_map_of: "om_find k m = map_of m k"
  by (induction k m rule: om_find.induct) auto

lemma sorted_emplace: "om_sorted m \<Longrightarrow> om_sorted (om_emplace k v m)"
proof (induction m)
  case (Cons e m)
  obtain j w where e: "e = (j, w)" by force
  show ?case using Cons unfolding e by (auto simp: om_sorted_Cons ball_Un)
qed (simp add: om_sorted_def)

lemma sorted_put: "om_sorted m \<Longrightarrow> om_sorted (om_put k v m)"
proof (induction m)
  case (Cons e m)
  obtain j w where e: "e = (j, w)" by force
  show ?case using Cons unfolding e by (auto simp: om_sorted_Cons ball_Un)
qed (simp add: om_sorted_def)

lemma find_emplace:
  "om_sorted m \<Longrightarrow> om_find j (om_emplace k v m) =
    (if j = k then (case om_find k m of None \<Rightarrow> Some v | Some w \<Rightarrow> Some w) else om_find j m)"
proof (induction m)
  case (Cons e m)
  obtain i w where e: "e = (i, w)" by force
  have s: "\<forall>k\<in>fst ` set m. i < k" "om_sorted m" using Cons.prems by (auto simp: e om_sorted_Cons)
  have "k < i \<Longrightarrow> om_find k m = None" using s(1) by (intro find_absent) auto
  then show ?case using Cons.IH [OF s(2)] by (auto simp: e)
qed simp

lemma find_put: "om_sorted m \<Longrightarrow> om_find j (om_put k v m) = (if j = k then Some v else om_find j m)"
proof (induction m)
  case (Cons e m)
  obtain i w where e: "e = (i, w)" by force
  have s: "om_sorted m" using Cons.prems by (auto simp: e om_sorted_Cons)
  show ?case using Cons.IH [OF s] by (auto simp: e)
qed simp

interpretation emplacing: keeping_store om_find om_emplace om_sorted
  by unfold_locales (simp_all add: sorted_emplace find_emplace)

interpretation putting: replacing_store om_find om_put om_sorted
  by unfold_locales (simp_all add: sorted_put find_put)

lemma sorted_above: "om_sorted m \<Longrightarrow> om_sorted (om_above k m)"
  by (induction m) (auto simp: om_sorted_def om_above_def)

lemma find_above: "om_find j (om_above k m) = (if k < j then om_find j m else None)"
  by (induction m) (auto simp: om_above_def)

lemma last_is_greatest: "om_sorted m \<Longrightarrow> k \<in> fst ` set m \<Longrightarrow> k \<le> fst (last m)"
proof (induction m)
  case (Cons e m)
  show ?case
  proof (cases "m = []")
    case False
    then have "last m \<in> set m" by simp
    moreover have "\<forall>x\<in>set m. fst e < fst x" "om_sorted m" using Cons.prems(1) by (auto simp: om_sorted_def)
    ultimately have "fst e < fst (last m)" "om_sorted m" by blast+
    then show ?thesis using Cons.IH Cons.prems(2) False by (auto simp: order.strict_implies_order)
  qed (use Cons.prems in simp)
qed simp

lemma sorted_distinct: "om_sorted m \<Longrightarrow> distinct (map fst m)"
  by (induction m) (auto simp: om_sorted_def)

end
