(* ===== verification/Tokens.thy ===== *)
theory Tokens
  imports StatusCode OrderedMap
begin

text \<open>
  Authentication tokens: the messages of \<^verbatim>\<open>security/token.proto\<close>, the signing keys
  (\<^verbatim>\<open>token_signing_key.cc\<close>), the verifier (\<^verbatim>\<open>token_verifier.cc\<close>) and the signer with its
  key rotation (\<^verbatim>\<open>token_signer.cc\<close>).  Cryptography (OpenSSL) and the wire format of the
  messages (protobuf) are outside the repository: they are the record \<open>Crypto\<close>, an argument
  of the operations that call them, and what is documented of them is \<open>good_crypto\<close>.
  The current time is an argument, in seconds.
\<close>

section \<open>Messages and cryptography\<close>

text \<open>Optional fields are options; a missing field reads as 0 or the empty string.\<close>

datatype TokenBody = NoBody | Authn "bytes option" | Authz

record TokenPB =
  token_expire :: "int option"
  incompatible_features :: "int list"
  token_body :: TokenBody

record SignedTokenPB =
  token_data :: "bytes option"
  signature :: "bytes option"
  signing_key_seq_num :: "int option"

record KeyPB =
  pb_seq_num :: "int option"
  pb_rsa_key_der :: "bytes option"
  pb_expire :: "int option"

definition int_of_field :: "int option \<Rightarrow> int" where
  "int_of_field f = (case f of None \<Rightarrow> 0 | Some i \<Rightarrow> i)"

definition bytes_of_field :: "bytes option \<Rightarrow> bytes" where
  "bytes_of_field f = (case f of None \<Rightarrow> [] | Some b \<Rightarrow> b)"

text \<open>A call that fails gives the status it failed with.\<close>

record ('k, 'p) Crypto =
  key_of_der :: "bytes \<Rightarrow> Status + 'k"
  pub_of_der :: "bytes \<Rightarrow> Status + 'p"
  der_of_key :: "'k \<Rightarrow> Status + bytes"
  der_of_pub :: "'p \<Rightarrow> Status + bytes"
  pub_of_key :: "'k \<Rightarrow> Status + 'p"
  MakeSignature :: "'k \<Rightarrow> bytes \<Rightarrow> Status + bytes"
  signature_ok :: "'p \<Rightarrow> bytes \<Rightarrow> bytes \<Rightarrow> bool"
  SerializeToString :: "TokenPB \<Rightarrow> bytes option"
  ParseFromString :: "bytes \<Rightarrow> TokenPB option"

text \<open>\<^verbatim>\<open>CHECK_OK\<close> on such a call.\<close>

fun checked :: "Status + 'a \<Rightarrow> fault + 'a" where
  "checked (Inl s) = Inl CheckFailed"
| "checked (Inr x) = Inr x"

definition error_status :: "Code \<Rightarrow> string \<Rightarrow> fault + Status" where
  "error_status c m = status_make c (slice_of_string (str m)) slice_empty (-1)"

section \<open>Signing keys\<close>

record 'p PublicTSK =
  pub_pb :: KeyPB
  pub_key :: "'p option"

definition public_new :: "KeyPB \<Rightarrow> 'p PublicTSK" where
  "public_new pb = \<lparr>pub_pb = pb, pub_key = None\<rparr>"

definition public_Init :: "('k, 'p) Crypto \<Rightarrow> 'p PublicTSK \<Rightarrow> fault + Status \<times> 'p PublicTSK" where
  "public_Init c t =
    (if \<not> pub_key t = None then Inl CheckFailed
     else if pb_rsa_key_der (pub_pb t) = None then
       map_sum id (\<lambda>s. (s, t)) (error_status kRuntimeError ''no key for token signing helper'')
     else
       case pub_of_der c (bytes_of_field (pb_rsa_key_der (pub_pb t))) of
         Inl s \<Rightarrow> Inr (s, t)
       | Inr p \<Rightarrow> Inr (status_OK, t\<lparr>pub_key := Some p\<rparr>))"

text \<open>A key object that was not initialised has no key to verify with.\<close>

definition public_VerifySignature :: "('k, 'p) Crypto \<Rightarrow> 'p PublicTSK \<Rightarrow> SignedTokenPB \<Rightarrow> bool" where
  "public_VerifySignature c t tok =
    (case pub_key t of None \<Rightarrow> False
     | Some p \<Rightarrow> signature_ok c p (bytes_of_field (token_data tok)) (bytes_of_field (signature tok)))"

record 'k PrivateTSK =
  priv_key :: 'k
  private_key_der :: bytes
  public_key_der :: bytes
  key_seq_num :: int
  expire_time :: int

definition private_of_pb :: "('k, 'p) Crypto \<Rightarrow> KeyPB \<Rightarrow> fault + 'k PrivateTSK" where
  "private_of_pb c pb =
    bindE (checked (key_of_der c (bytes_of_field (pb_rsa_key_der pb)))) (\<lambda>k.
    bindE (checked (pub_of_key c k)) (\<lambda>p.
    bindE (checked (der_of_pub c p)) (\<lambda>d.
    Inr \<lparr>priv_key = k, private_key_der = bytes_of_field (pb_rsa_key_der pb), public_key_der = d,
         key_seq_num = int_of_field (pb_seq_num pb), expire_time = int_of_field (pb_expire pb)\<rparr>)))"

definition private_new :: "('k, 'p) Crypto \<Rightarrow> int \<Rightarrow> int \<Rightarrow> 'k \<Rightarrow> fault + 'k PrivateTSK" where
  "private_new c seq expire k =
    bindE (checked (der_of_key c k)) (\<lambda>e.
    bindE (checked (pub_of_key c k)) (\<lambda>p.
    bindE (checked (der_of_pub c p)) (\<lambda>d.
    Inr \<lparr>priv_key = k, private_key_der = e, public_key_der = d,
         key_seq_num = seq, expire_time = expire\<rparr>)))"

definition private_Sign :: "('k, 'p) Crypto \<Rightarrow> 'k PrivateTSK \<Rightarrow> SignedTokenPB \<Rightarrow> Status \<times> SignedTokenPB" where
  "private_Sign c t tok =
    (case MakeSignature c (priv_key t) (bytes_of_field (token_data tok)) of
       Inl s \<Rightarrow> (s, tok)
     | Inr sig \<Rightarrow>
         (status_OK, tok\<lparr>signature := Some sig, signing_key_seq_num := Some (key_seq_num t)\<rparr>))"

definition ExportPB :: "'k PrivateTSK \<Rightarrow> KeyPB" where
  "ExportPB t = \<lparr>pb_seq_num = Some (key_seq_num t), pb_rsa_key_der = Some (private_key_der t),
     pb_expire = Some (expire_time t)\<rparr>"

definition ExportPublicKeyPB :: "'k PrivateTSK \<Rightarrow> KeyPB" where
  "ExportPublicKeyPB t = \<lparr>pb_seq_num = Some (key_seq_num t), pb_rsa_key_der = Some (public_key_der t),
     pb_expire = Some (expire_time t)\<rparr>"

section \<open>The verifier\<close>

datatype VerificationResult =
  VALID | INVALID_TOKEN | INVALID_SIGNATURE | EXPIRED_TOKEN | EXPIRED_SIGNING_KEY
| UNKNOWN_SIGNING_KEY | INCOMPATIBLE_FEATURE

type_synonym 'p Verifier = "(int \<times> 'p PublicTSK) list"

definition verifier_new :: "'p Verifier" where "verifier_new = []"

definition GetMaxKnownKeySequenceNumber :: "'p Verifier \<Rightarrow> int" where
  "GetMaxKnownKeySequenceNumber v = (if v = [] then -1 else fst (last v))"

text \<open>The keys are built and checked one after the other before any of them is stored.\<close>

fun build_keys :: "('k, 'p) Crypto \<Rightarrow> KeyPB list \<Rightarrow> fault + Status \<times> 'p PublicTSK list" where
  "build_keys c [] = Inr (status_OK, [])"
| "build_keys c (pb # pbs) =
    (if pb_rsa_key_der pb = None then
       map_sum id (\<lambda>s. (s, []))
         (error_status kRuntimeError ''token-signing public key message must include the signing key'')
     else if pb_seq_num pb = None then
       map_sum id (\<lambda>s. (s, []))
         (error_status kRuntimeError
            ''token-signing public key message must include the signing key sequence number'')
     else if pb_expire pb = None then
       map_sum id (\<lambda>s. (s, []))
         (error_status kRuntimeError ''token-signing public key message must include an expiration time'')
     else
       bindE (public_Init c (public_new pb)) (\<lambda>(s, t).
       if \<not> ok s then Inr (s, [])
       else bindE (build_keys c pbs) (\<lambda>(s, ts). Inr (s, t # ts))))"

definition verifier_ImportKeys ::
    "('k, 'p) Crypto \<Rightarrow> KeyPB list \<Rightarrow> 'p Verifier \<Rightarrow> fault + Status \<times> 'p Verifier" where
  "verifier_ImportKeys c keys v =
    bindE (build_keys c keys) (\<lambda>(s, tsks).
    if \<not> ok s then Inr (s, v)
    else Inr (status_OK,
      foldl (\<lambda>v t. om_emplace (int_of_field (pb_seq_num (pub_pb t))) t v) v tsks))"

definition ExportKeys :: "int \<Rightarrow> 'p Verifier \<Rightarrow> KeyPB list" where
  "ExportKeys after_sequence_number v = map (\<lambda>e. pub_pb (snd e)) (om_above after_sequence_number v)"

definition Feature_IsValid :: "int \<Rightarrow> bool" where "Feature_IsValid f \<longleftrightarrow> f = 999"

text \<open>The second component is the message \<^verbatim>\<open>token\<close> as parsed, where it was parsed.\<close>

definition VerifyTokenSignature ::
    "('k, 'p) Crypto \<Rightarrow> int \<Rightarrow> SignedTokenPB \<Rightarrow> 'p Verifier \<Rightarrow> VerificationResult \<times> TokenPB option" where
  "VerifyTokenSignature c now st v =
    (if signature st = None \<or> signing_key_seq_num st = None \<or> token_data st = None then (INVALID_TOKEN, None)
     else
       case ParseFromString c (bytes_of_field (token_data st)) of
         None \<Rightarrow> (INVALID_TOKEN, None)
       | Some tok \<Rightarrow>
           (if token_expire tok = None then INVALID_TOKEN
            else if int_of_field (token_expire tok) < now then EXPIRED_TOKEN
            else if \<not> list_all Feature_IsValid (incompatible_features tok) then INCOMPATIBLE_FEATURE
            else
              case om_find (int_of_field (signing_key_seq_num st)) v of
                None \<Rightarrow> UNKNOWN_SIGNING_KEY
              | Some tsk \<Rightarrow>
                  if int_of_field (pb_expire (pub_pb tsk)) < now then EXPIRED_SIGNING_KEY
                  else if \<not> public_VerifySignature c tsk st then INVALID_SIGNATURE
                  else VALID, Some tok))"

fun VerificationResultToString :: "VerificationResult \<Rightarrow> bytes" where
  "VerificationResultToString VALID = str ''valid''"
| "VerificationResultToString INVALID_TOKEN = str ''invalid authentication token''"
| "VerificationResultToString INVALID_SIGNATURE = str ''invalid authentication token signature''"
| "VerificationResultToString EXPIRED_TOKEN = str ''authentication token expired''"
| "VerificationResultToString EXPIRED_SIGNING_KEY = str ''authentication token signing key expired''"
| "VerificationResultToString UNKNOWN_SIGNING_KEY = str ''authentication token signed with unknown key''"
| "VerificationResultToString INCOMPATIBLE_FEATURE = str ''authentication token uses incompatible feature''"

section \<open>The signer\<close>

record ('k, 'p) Signer =
  verifier :: "'p Verifier"
  authn_token_validity_seconds :: int
  key_rotation_seconds :: int
  key_validity_seconds :: int
  next_key_seq_num :: int
  tsk_deque :: "'k PrivateTSK list"

definition signer_new :: "int \<Rightarrow> int \<Rightarrow> 'p Verifier option \<Rightarrow> fault + ('k, 'p) Signer" where
  "signer_new validity rotation v =
    (if \<not> rotation \<ge> 0 then Inl CheckFailed
     else if \<not> validity \<ge> 0 then Inl CheckFailed
     else Inr \<lparr>verifier = (case v of None \<Rightarrow> verifier_new | Some v \<Rightarrow> v),
               authn_token_validity_seconds = validity, key_rotation_seconds = rotation,
               key_validity_seconds = wrap64 (rotation + validity), next_key_seq_num = 0, tsk_deque = []\<rparr>)"

text \<open>
  The loop of \<^verbatim>\<open>ImportKeys\<close>: the next sequence number, the keys by sequence number (the two
  largest are kept) and the public parts for the verifier.
\<close>

fun import_loop ::
    "('k, 'p) Crypto \<Rightarrow> int \<Rightarrow> KeyPB list \<Rightarrow> int \<times> (int \<times> 'k PrivateTSK) list \<times> KeyPB list \<Rightarrow>
      fault + int \<times> (int \<times> 'k PrivateTSK) list \<times> KeyPB list" where
  "import_loop c now [] r = Inr r"
| "import_loop c now (key # keys) (next, by_seq, pubs) =
    (if pb_seq_num key = None \<or> pb_expire key = None \<or> pb_rsa_key_der key = None then Inl CheckFailed
     else
       bindE (private_of_pb c key) (\<lambda>tsk.
       let seq = int_of_field (pb_seq_num key);
           next = max next (wrap64 (seq + 1))
       in
       if expire_time tsk \<le> now then import_loop c now keys (next, by_seq, pubs)
       else
         let m = om_put seq tsk by_seq
         in import_loop c now keys
              (next, if length m > 2 then tl m else m, pubs @ [ExportPublicKeyPB tsk])))"

definition keep_last_two :: "'a list \<Rightarrow> 'a list" where
  "keep_last_two xs = drop (length xs - 2) xs"

definition signer_ImportKeys ::
    "('k, 'p) Crypto \<Rightarrow> int \<Rightarrow> KeyPB list \<Rightarrow> ('k, 'p) Signer \<Rightarrow> fault + Status \<times> ('k, 'p) Signer" where
  "signer_ImportKeys c now keys s =
    bindE (import_loop c now keys (next_key_seq_num s, [], [])) (\<lambda>(next, by_seq, pubs).
    let s = s\<lparr>next_key_seq_num := next\<rparr> in
    bindE (verifier_ImportKeys c pubs (verifier s)) (\<lambda>(st, v).
    let s = s\<lparr>verifier := v\<rparr> in
    if \<not> ok st then Inr (st, s)
    else
      let by_seq = foldl (\<lambda>m e. om_put (key_seq_num e) e m) by_seq (tsk_deque s)
      in Inr (status_OK, s\<lparr>tsk_deque := keep_last_two (map snd by_seq)\<rparr>)))"

definition SignToken ::
    "('k, 'p) Crypto \<Rightarrow> SignedTokenPB \<Rightarrow> ('k, 'p) Signer \<Rightarrow> fault + Status \<times> SignedTokenPB" where
  "SignToken c tok s =
    (case tsk_deque s of
       [] \<Rightarrow> map_sum id (\<lambda>st. (st, tok)) (error_status kIllegalState ''no token signing key'')
     | key # _ \<Rightarrow>
         let (st, tok') = private_Sign c key tok in
         if \<not> ok st then
           map_sum id (\<lambda>st. (st, tok')) (CloneAndPrepend st (slice_of_string (str ''could not sign authn token'')))
         else Inr (status_OK, tok'))"

definition empty_signed :: SignedTokenPB where
  "empty_signed = \<lparr>token_data = None, signature = None, signing_key_seq_num = None\<rparr>"

text \<open>The caller's token is replaced only on success.\<close>

definition GenerateAuthnToken ::
    "('k, 'p) Crypto \<Rightarrow> int \<Rightarrow> bytes \<Rightarrow> SignedTokenPB \<Rightarrow> ('k, 'p) Signer \<Rightarrow> fault + Status \<times> SignedTokenPB" where
  "GenerateAuthnToken c now username out s =
    (if username = [] then
       map_sum id (\<lambda>st. (st, out)) (error_status kInvalidArgument ''no username provided for authn token'')
     else
       let tok = \<lparr>token_expire = Some (wrap64 (now + authn_token_validity_seconds s)),
                  incompatible_features = [], token_body = Authn (Some username)\<rparr>
       in
       case SerializeToString c tok of
         None \<Rightarrow> map_sum id (\<lambda>st. (st, out)) (error_status kRuntimeError ''could not serialize authn token'')
       | Some d \<Rightarrow>
           bindE (SignToken c (empty_signed\<lparr>token_data := Some d\<rparr>) s) (\<lambda>(st, ret).
           if \<not> ok st then Inr (st, out) else Inr (status_OK, ret)))"

text \<open>\<open>generated\<close> is the key OpenSSL generates, or the status it fails with.\<close>

definition GenerateSigningKey ::
    "('k, 'p) Crypto \<Rightarrow> Status + 'k \<Rightarrow> int \<Rightarrow> int \<Rightarrow> fault + Status \<times> 'k PrivateTSK option" where
  "GenerateSigningKey c generated seq expiration =
    (case generated of
       Inl st \<Rightarrow>
         map_sum id (\<lambda>st. (st, None))
           (CloneAndPrepend st (slice_of_string (str ''could not generate new RSA token-signing key'')))
     | Inr k \<Rightarrow> map_sum id (\<lambda>t. (status_OK, Some t)) (private_new c seq expiration k))"

definition CheckNeedKey ::
    "('k, 'p) Crypto \<Rightarrow> int \<Rightarrow> Status + 'k \<Rightarrow> ('k, 'p) Signer \<Rightarrow>
      fault + (Status \<times> 'k PrivateTSK option) \<times> ('k, 'p) Signer" where
  "CheckNeedKey c now generated s =
    (let generate = (\<lambda>_ :: unit.
           bindE (GenerateSigningKey c generated (next_key_seq_num s) (wrap64 (now + key_validity_seconds s))) (\<lambda>r.
           Inr (r, s\<lparr>next_key_seq_num := wrap64 (next_key_seq_num s + 1)\<rparr>)))
     in
     case tsk_deque s of
       [] \<Rightarrow> generate ()
     | key # rest \<Rightarrow>
         if length (tsk_deque s) \<ge> 2 then Inr ((status_OK, None), s)
         else
           let key_creation_time = wrap64 (expire_time key - key_validity_seconds s) in
           if wrap64 (key_creation_time + key_rotation_seconds s) \<le> now then generate ()
           else Inr ((status_OK, None), s))"

definition AddKey ::
    "('k, 'p) Crypto \<Rightarrow> int \<Rightarrow> 'k PrivateTSK \<Rightarrow> ('k, 'p) Signer \<Rightarrow> fault + Status \<times> ('k, 'p) Signer" where
  "AddKey c now tsk s =
    (let seq_num = key_seq_num tsk in
     if seq_num < 0 then map_sum id (\<lambda>st. (st, s)) (error_status kInvalidArgument ''invalid key sequence number'')
     else if expire_time tsk \<le> now then
       map_sum id (\<lambda>st. (st, s)) (error_status kInvalidArgument ''key has already expired'')
     else
       let s = s\<lparr>next_key_seq_num := max (next_key_seq_num s) (wrap64 (seq_num + 1))\<rparr> in
       bindE (verifier_ImportKeys c [ExportPublicKeyPB tsk] (verifier s)) (\<lambda>(st, v).
       let s = s\<lparr>verifier := v\<rparr> in
       if \<not> ok st then Inr (st, s)
       else Inr (status_OK, s\<lparr>tsk_deque := tsk_deque s @ [tsk]\<rparr>)))"

definition TryRotateKey :: "int \<Rightarrow> ('k, 'p) Signer \<Rightarrow> (Status \<times> bool) \<times> ('k, 'p) Signer" where
  "TryRotateKey now s =
    (case tsk_deque s of
       key # next # rest \<Rightarrow>
         let key_creation_time = wrap64 (expire_time key - key_validity_seconds s) in
         if wrap64 (key_creation_time + wrap64 (2 * key_rotation_seconds s)) \<le> now then
           ((status_OK, True), s\<lparr>tsk_deque := next # rest\<rparr>)
         else ((status_OK, False), s)
     | _ \<Rightarrow> ((status_OK, False), s))"

section \<open>What is relied on\<close>

text \<open>
  Documented behaviour of OpenSSL and protobuf: a public key survives its DER form, a
  signature verifies with the public half of the key that made it, a call that fails gives a
  failed status, and a serialized message parses to itself.
\<close>

definition good_crypto :: "('k, 'p) Crypto \<Rightarrow> bool" where
  "good_crypto c \<longleftrightarrow>
     (\<forall>p d. der_of_pub c p = Inr d \<longrightarrow> pub_of_der c d = Inr p)
     \<and> (\<forall>k p m sg. pub_of_key c k = Inr p \<and> MakeSignature c k m = Inr sg \<longrightarrow> signature_ok c p m sg)
     \<and> (\<forall>k m s. MakeSignature c k m = Inl s \<longrightarrow> \<not> ok s)
     \<and> (\<forall>t d. SerializeToString c t = Some d \<longrightarrow> ParseFromString c d = Some t)"

definition key_ok :: "('k, 'p) Crypto \<Rightarrow> 'k PrivateTSK \<Rightarrow> bool" where
  "key_ok c t \<longleftrightarrow> (\<exists>p. pub_of_key c (priv_key t) = Inr p \<and> der_of_pub c p = Inr (public_key_der t))"

text \<open>The verifier knows the public half of the key under its sequence number.\<close>

definition public_half :: "('k, 'p) Crypto \<Rightarrow> 'k PrivateTSK \<Rightarrow> 'p PublicTSK \<Rightarrow> bool" where
  "public_half c t u \<longleftrightarrow>
     (\<exists>p. pub_of_key c (priv_key t) = Inr p \<and> u = \<lparr>pub_pb = ExportPublicKeyPB t, pub_key = Some p\<rparr>)"

definition registered :: "('k, 'p) Crypto \<Rightarrow> 'p Verifier \<Rightarrow> 'k PrivateTSK \<Rightarrow> bool" where
  "registered c v t \<longleftrightarrow> (\<exists>u. om_find (key_seq_num t) v = Some u \<and> public_half c t u)"

definition verifier_inv :: "'p Verifier \<Rightarrow> bool" where
  "verifier_inv v \<longleftrightarrow> om_sorted v \<and> (\<forall>(k, u)\<in>set v. pb_seq_num (pub_pb u) = Some k)"

definition signer_inv :: "('k, 'p) Crypto \<Rightarrow> ('k, 'p) Signer \<Rightarrow> bool" where
  "signer_inv c s \<longleftrightarrow> verifier_inv (verifier s)
     \<and> (\<forall>k\<in>fst ` set (verifier s). k < next_key_seq_num s)
     \<and> (\<forall>t\<in>set (tsk_deque s). registered c (verifier s) t)
     \<and> sorted_wrt (<) (map key_seq_num (tsk_deque s))
     \<and> length (tsk_deque s) \<le> 2
     \<and> 0 \<le> next_key_seq_num s"

lemma ok_status_OK [simp]: "ok status_OK" by (simp add: ok_def status_OK_def)

lemma checked_Inr [simp]: "checked x = Inr y \<longleftrightarrow> x = Inr y"
  by (cases x) auto

lemma private_new_ok: "private_new c seq e k = Inr t \<Longrightarrow>
    key_ok c t \<and> key_seq_num t = seq \<and> expire_time t = e \<and> priv_key t = k"
  by (auto simp: private_new_def key_ok_def bindE_Inr_iff)

lemma public_Init_export:
  assumes "good_crypto c" "key_ok c t"
  shows "\<exists>u. public_Init c (public_new (ExportPublicKeyPB t)) = Inr (status_OK, u) \<and> public_half c t u"
proof -
  obtain p where "pub_of_key c (priv_key t) = Inr p" "der_of_pub c p = Inr (public_key_der t)"
    using assms(2) by (auto simp: key_ok_def)
  moreover from this have "pub_of_der c (public_key_der t) = Inr p"
    using assms(1) by (auto simp: good_crypto_def)
  ultimately show ?thesis
    by (auto simp: public_Init_def public_new_def ExportPublicKeyPB_def bytes_of_field_def public_half_def)
qed

text \<open>Importing the public half of one key.\<close>

lemma import_one:
  assumes g: "good_crypto c" and k: "key_ok c t" and v: "verifier_inv v"
  shows "\<exists>u. verifier_ImportKeys c [ExportPublicKeyPB t] v = Inr (status_OK, om_emplace (key_seq_num t) u v)
    \<and> public_half c t u \<and> verifier_inv (om_emplace (key_seq_num t) u v)"
proof -
  obtain u where u: "public_Init c (public_new (ExportPublicKeyPB t)) = Inr (status_OK, u)" "public_half c t u"
    using public_Init_export [OF g k] by blast
  have pb: "pb_seq_num (pub_pb u) = Some (key_seq_num t)"
    using u(2) by (auto simp: public_half_def ExportPublicKeyPB_def)
  have "build_keys c [ExportPublicKeyPB t] = Inr (status_OK, [u])"
    using u(1) by (simp add: ExportPublicKeyPB_def)
  then have "verifier_ImportKeys c [ExportPublicKeyPB t] v = Inr (status_OK, om_emplace (key_seq_num t) u v)"
    using pb by (simp add: verifier_ImportKeys_def int_of_field_def)
  moreover have sub: "set (om_emplace (key_seq_num t) u v) \<subseteq> insert (key_seq_num t, u) (set v)"
    by (rule set_emplace)
  have "verifier_inv (om_emplace (key_seq_num t) u v)"
    unfolding verifier_inv_def
  proof
    show "om_sorted (om_emplace (key_seq_num t) u v)" using v by (simp add: verifier_inv_def sorted_emplace)
    show "\<forall>(k, u)\<in>set (om_emplace (key_seq_num t) u v). pb_seq_num (pub_pb u) = Some k"
      using sub v pb by (auto simp: verifier_inv_def)
  qed
  ultimately show ?thesis using u(2) by blast
qed

lemma registered_emplace:
  "verifier_inv v \<Longrightarrow> registered c v t \<Longrightarrow> registered c (om_emplace k u v) t"
  using emplacing.insert_all_keeps [of v "key_seq_num t" _ "[(k, u)]"]
  by (auto simp: registered_def verifier_inv_def)

section \<open>The usage cycle\<close>

text \<open>
  The cycle the class comment prescribes: check whether a key is needed, add the one
  generated, and try to rotate.
\<close>

definition refresh_keys ::
    "('k, 'p) Crypto \<Rightarrow> int \<Rightarrow> Status + 'k \<Rightarrow> ('k, 'p) Signer \<Rightarrow> fault + Status \<times> ('k, 'p) Signer" where
  "refresh_keys c now generated s =
    bindE (CheckNeedKey c now generated s) (\<lambda>((st, tsk), s).
    if \<not> ok st then Inr (st, s)
    else
      bindE (case tsk of None \<Rightarrow> Inr (status_OK, s) | Some t \<Rightarrow> AddKey c now t s) (\<lambda>(st, s).
      if \<not> ok st then Inr (st, s)
      else let ((st, rotated), s) = TryRotateKey now s in Inr (st, s)))"

definition encodable :: "('k, 'p) Crypto \<Rightarrow> 'k \<Rightarrow> bool" where
  "encodable c k \<longleftrightarrow>
    (\<exists>e p d. der_of_key c k = Inr e \<and> pub_of_key c k = Inr p \<and> der_of_pub c p = Inr d)"

lemma private_new_encodable: "encodable c k \<Longrightarrow> \<exists>t. private_new c seq e k = Inr t"
  by (auto simp: encodable_def private_new_def)

lemma rotate_keeps: "signer_inv c s \<Longrightarrow> signer_inv c (snd (TryRotateKey now s))
    \<and> (tsk_deque s \<noteq> [] \<longrightarrow> tsk_deque (snd (TryRotateKey now s)) \<noteq> [])
    \<and> ok (fst (fst (TryRotateKey now s))) \<and> verifier (snd (TryRotateKey now s)) = verifier s
    \<and> next_key_seq_num (snd (TryRotateKey now s)) = next_key_seq_num s"
  by (auto simp: TryRotateKey_def signer_inv_def Let_def split: list.splits)

lemma add_fresh:
  assumes g: "good_crypto c" and i: "signer_inv c s" and k: "key_ok c t"
    and seq: "key_seq_num t + 1 = next_key_seq_num s" "\<forall>k\<in>fst ` set (verifier s). k < key_seq_num t"
      "\<forall>u\<in>set (tsk_deque s). key_seq_num u < key_seq_num t" "0 \<le> key_seq_num t"
    and e: "now < expire_time t" and len: "length (tsk_deque s) \<le> 1" and r: "in64 (next_key_seq_num s)"
  shows "\<exists>s'. AddKey c now t s = Inr (status_OK, s') \<and> signer_inv c s' \<and> tsk_deque s' = tsk_deque s @ [t]
    \<and> next_key_seq_num s' = next_key_seq_num s"
proof -
  have v: "verifier_inv (verifier s)" using i by (simp add: signer_inv_def)
  obtain u where u: "verifier_ImportKeys c [ExportPublicKeyPB t] (verifier s) =
      Inr (status_OK, om_emplace (key_seq_num t) u (verifier s))" "public_half c t u"
      "verifier_inv (om_emplace (key_seq_num t) u (verifier s))"
    using import_one [OF g k v] by blast
  have "om_find (key_seq_num t) (verifier s) = None"
    using seq(2) by (intro find_absent) auto
  then have new: "registered c (om_emplace (key_seq_num t) u (verifier s)) t"
    using v u(2) by (simp add: registered_def find_emplace verifier_inv_def)
  define s' where "s' = s\<lparr>verifier := om_emplace (key_seq_num t) u (verifier s), tsk_deque := tsk_deque s @ [t]\<rparr>"
  have "AddKey c now t s = Inr (status_OK, s')"
    using e seq r u(1) by (simp add: AddKey_def s'_def wrap64_id Let_def)
  moreover have "registered c (om_emplace (key_seq_num t) u (verifier s)) x" if "x \<in> set (tsk_deque s)" for x
    using i that by (intro registered_emplace [OF v]) (simp add: signer_inv_def)
  then have "signer_inv c s'"
    using i seq len new u(3) by (auto simp: signer_inv_def s'_def sorted_wrt_append)
  ultimately show ?thesis by (simp add: s'_def)
qed

lemma refresh_good:
  assumes g: "good_crypto c" and i: "signer_inv c s" and k: "encodable c k"
    and val: "0 < key_validity_seconds s" "in64 (now + key_validity_seconds s)"
    and r: "next_key_seq_num s < 2 ^ 62"
  shows "\<exists>s'. refresh_keys c now (Inr k) s = Inr (status_OK, s') \<and> signer_inv c s' \<and> tsk_deque s' \<noteq> []
    \<and> next_key_seq_num s \<le> next_key_seq_num s'"
proof -
  have nx: "0 \<le> next_key_seq_num s" using i by (simp add: signer_inv_def)
  have rot: "\<exists>s'. (let ((st, rotated), s) = TryRotateKey now u in Inr (st, s)) = (Inr (status_OK, s') :: fault + _)
      \<and> signer_inv c s' \<and> tsk_deque s' \<noteq> [] \<and> next_key_seq_num s' = next_key_seq_num u"
    if "signer_inv c u" "tsk_deque u \<noteq> []" for u :: "('a, 'b) Signer"
    using rotate_keeps [OF that(1), of now] that(2)
    by (cases "TryRotateKey now u"; cases "fst (TryRotateKey now u)")
      (auto simp: ok_def status_OK_def Status.expand)
  consider (need) "CheckNeedKey c now (Inr k) s =
        bindE (GenerateSigningKey c (Inr k) (next_key_seq_num s) (wrap64 (now + key_validity_seconds s))) (\<lambda>r.
           Inr (r, s\<lparr>next_key_seq_num := wrap64 (next_key_seq_num s + 1)\<rparr>))" "length (tsk_deque s) \<le> 1"
    | (no_need) "CheckNeedKey c now (Inr k) s = Inr ((status_OK, None), s)" "tsk_deque s \<noteq> []"
  proof (cases "tsk_deque s")
    case Nil
    then show ?thesis using that(1) by (simp add: CheckNeedKey_def)
  next
    case (Cons key rest)
    show ?thesis
    proof (cases "length (tsk_deque s) \<ge> 2 \<or> \<not> wrap64 (wrap64 (expire_time key - key_validity_seconds s)
        + key_rotation_seconds s) \<le> now")
      case True
      then show ?thesis using that(2) Cons by (auto simp: CheckNeedKey_def Let_def)
    next
      case False
      then have "rest = []" using Cons by (cases rest) auto
      then show ?thesis using that(1) Cons False by (auto simp: CheckNeedKey_def Let_def)
    qed
  qed
  then show ?thesis
  proof cases
    case need
    let ?s = "s\<lparr>next_key_seq_num := next_key_seq_num s + 1\<rparr>"
    obtain t where t: "private_new c (next_key_seq_num s) (now + key_validity_seconds s) k = Inr t"
      using private_new_encodable [OF k] by blast
    note tk = private_new_ok [OF t]
    have w: "wrap64 (next_key_seq_num s + 1) = next_key_seq_num s + 1"
      using r nx by (intro wrap64_id) (simp add: in64_iff)
    have c1: "CheckNeedKey c now (Inr k) s = Inr ((status_OK, Some t), ?s)"
      using need(1) t val(2) w by (simp add: GenerateSigningKey_def wrap64_id)
    have old: "\<forall>u\<in>set (tsk_deque s). key_seq_num u < next_key_seq_num s"
    proof
      fix u assume "u \<in> set (tsk_deque s)"
      then obtain x where "om_find (key_seq_num u) (verifier s) = Some x"
        using i by (auto simp: signer_inv_def registered_def)
      then have "key_seq_num u \<in> fst ` set (verifier s)"
        using find_None_iff [of "key_seq_num u" "verifier s"] by auto
      then show "key_seq_num u < next_key_seq_num s" using i by (auto simp: signer_inv_def)
    qed
    have "signer_inv c ?s" using i by (auto simp: signer_inv_def)
    then obtain s' where s': "AddKey c now t ?s = Inr (status_OK, s')" "signer_inv c s'"
        "tsk_deque s' = tsk_deque s @ [t]" "next_key_seq_num s' = next_key_seq_num s + 1"
      using add_fresh [OF g, of ?s t now] tk i val need(2) old nx r
      by (auto simp: signer_inv_def in64_iff)
    show ?thesis
      using rot [OF s'(2)] s' c1 by (auto simp: refresh_keys_def)
  next
    case no_need
    then show ?thesis using rot [OF i no_need(2)] by (auto simp: refresh_keys_def)
  qed
qed

section \<open>What tokens guarantee\<close>

lemma generated_token:
  assumes "GenerateAuthnToken c t1 user out s = Inr (st, tok)" "ok st" "good_crypto c"
  obtains key rest d sg where "tsk_deque s = key # rest" "user \<noteq> []"
    "SerializeToString c \<lparr>token_expire = Some (wrap64 (t1 + authn_token_validity_seconds s)),
        incompatible_features = [], token_body = Authn (Some user)\<rparr> = Some d"
    "MakeSignature c (priv_key key) d = Inr sg"
    "tok = \<lparr>token_data = Some d, signature = Some sg, signing_key_seq_num = Some (key_seq_num key)\<rparr>"
proof -
  have bad: "\<not> ok x" if "error_status co m = Inr x" for co m x
    using that unfolding error_status_def status_make_def
    by (auto simp: Let_def bindE_Inr_iff ok_def split: if_splits)
  have u: "user \<noteq> []" using assms bad by (auto simp: GenerateAuthnToken_def map_sum_Inr_iff)
  obtain d where d: "SerializeToString c \<lparr>token_expire = Some (wrap64 (t1 + authn_token_validity_seconds s)),
        incompatible_features = [], token_body = Authn (Some user)\<rparr> = Some d"
    using assms bad u by (auto simp: GenerateAuthnToken_def Let_def map_sum_Inr_iff split: option.splits)
  define e where "e = empty_signed\<lparr>token_data := Some d\<rparr>"
  have data: "bytes_of_field (token_data e) = d" by (simp add: e_def bytes_of_field_def)
  obtain st' where sg: "SignToken c e s = Inr (st', tok)" "ok st'"
    using assms d u by (auto simp: GenerateAuthnToken_def Let_def bindE_Inr_iff e_def split: if_splits)
  then obtain key rest where k: "tsk_deque s = key # rest"
    using bad by (auto simp: SignToken_def map_sum_Inr_iff split: list.splits)
  have cl: "\<not> ok x" if "\<not> ok y" "CloneAndPrepend y m = Inr x" for x y m
    using that unfolding CloneAndPrepend_def status_make_def
    by (auto simp: Let_def bindE_Inr_iff ok_def split: if_splits)
  obtain sig where "MakeSignature c (priv_key key) d = Inr sig"
  proof (cases "MakeSignature c (priv_key key) d")
    case (Inl x)
    then have "\<not> ok x" using assms(3) unfolding good_crypto_def by blast
    then obtain m where "CloneAndPrepend x m = Inr st'"
      using sg(1) k data Inl by (auto simp: SignToken_def private_Sign_def map_sum_Inr_iff)
    then show ?thesis using cl [OF \<open>\<not> ok x\<close>] sg(2) by blast
  qed
  then show ?thesis
    using that [OF k u d] sg k data
    by (auto simp: SignToken_def private_Sign_def Let_def e_def empty_signed_def)
qed

lemma token_verdict:
  assumes g: "good_crypto c" and t: "GenerateAuthnToken c t1 user out s = Inr (st, tok)" "ok st"
    and k: "tsk_deque s = key # rest" "registered c v key"
    and r: "in64 (t1 + authn_token_validity_seconds s)"
  shows "VerifyTokenSignature c t2 tok v =
    (if t1 + authn_token_validity_seconds s < t2 then EXPIRED_TOKEN
     else if expire_time key < t2 then EXPIRED_SIGNING_KEY
     else VALID,
     Some \<lparr>token_expire = Some (t1 + authn_token_validity_seconds s), incompatible_features = [],
           token_body = Authn (Some user)\<rparr>)"
proof -
  obtain key' rest' d sg where k': "tsk_deque s = key' # rest'"
    and d': "SerializeToString c \<lparr>token_expire = Some (wrap64 (t1 + authn_token_validity_seconds s)),
        incompatible_features = [], token_body = Authn (Some user)\<rparr> = Some d"
    and sg: "MakeSignature c (priv_key key') d = Inr sg"
    and tok: "tok = \<lparr>token_data = Some d, signature = Some sg, signing_key_seq_num = Some (key_seq_num key')\<rparr>"
    by (rule generated_token [OF t g])
  have e: "key' = key" using k' k(1) by simp
  note d = d' [unfolded wrap64_id [OF r]] and sg = sg [unfolded e] and tok = tok [unfolded e]
  obtain p where p: "pub_of_key c (priv_key key) = Inr p"
      "om_find (key_seq_num key) v = Some \<lparr>pub_pb = ExportPublicKeyPB key, pub_key = Some p\<rparr>"
    using k(2) by (auto simp: registered_def public_half_def)
  have parse: "ParseFromString c d = Some \<lparr>token_expire = Some (t1 + authn_token_validity_seconds s),
        incompatible_features = [], token_body = Authn (Some user)\<rparr>"
    using g d unfolding good_crypto_def by blast
  have "signature_ok c p d sg" using g sg p(1) unfolding good_crypto_def by blast
  then show ?thesis
    using p(2) parse
    by (simp add: VerifyTokenSignature_def tok bytes_of_field_def int_of_field_def ExportPublicKeyPB_def
        public_VerifySignature_def)
qed

text \<open>
  C1: The life of a token, at any verifier that knows the key it was signed with: a token the
  signer generates carries the user name it was asked for, is valid until the earlier of its
  own expiration and that of its key, and after that is rejected as expired, or for its
  expired key where only the key has expired.
\<close>

theorem token_lifetime:
  assumes g: "good_crypto c" and t: "GenerateAuthnToken c t1 user out s = Inr (st, tok)" "ok st"
    and k: "tsk_deque s = key # rest" "registered c v key"
    and r: "in64 (t1 + authn_token_validity_seconds s)"
  shows "VerifyTokenSignature c t2 tok v =
    (if t1 + authn_token_validity_seconds s < t2 then EXPIRED_TOKEN
     else if expire_time key < t2 then EXPIRED_SIGNING_KEY
     else VALID,
     Some \<lparr>token_expire = Some (t1 + authn_token_validity_seconds s), incompatible_features = [],
           token_body = Authn (Some user)\<rparr>)"
  using assms by (rule token_verdict)

text \<open>
  C2: The prescribed cycle of checking, adding and rotating keys always succeeds when keys can
  be generated, and leaves the signer with one or two keys in increasing order of their
  sequence numbers, each registered at its verifier, and with a next sequence number beyond
  every number known.
\<close>

theorem refresh_keeps_signer:
  assumes "good_crypto c" "signer_inv c s" "encodable c k" "0 < key_validity_seconds s"
    and "in64 (now + key_validity_seconds s)" "next_key_seq_num s < 2 ^ 62"
  shows "\<exists>s'. refresh_keys c now (Inr k) s = Inr (status_OK, s') \<and> signer_inv c s' \<and> tsk_deque s' \<noteq> []
    \<and> next_key_seq_num s \<le> next_key_seq_num s'"
  using assms by (rule refresh_good)

text \<open>
  C4: Tokens outlive their keys.  The class comment asks for tokens that expire before the key
  that signed them, but a key signs for two rotation periods after its creation while it
  lives for one period and one token validity: a token generated in the last of the two
  periods is rejected, for its expired key, before it expires itself.
\<close>

theorem token_outlives_key:
  assumes g: "good_crypto c" and i: "signer_inv c s" and k: "tsk_deque s = key # rest"
    and v: "key_validity_seconds s = key_rotation_seconds s + authn_token_validity_seconds s"
    and e: "expire_time key = created + key_validity_seconds s"
    and p: "0 \<le> authn_token_validity_seconds s" "0 \<le> key_rotation_seconds s"
      "authn_token_validity_seconds s < 2 ^ 60" "key_rotation_seconds s < 2 ^ 60"
      "0 \<le> created" "created < 2 ^ 60"
    and t1: "created + key_rotation_seconds s < t1" "t1 < created + 2 * key_rotation_seconds s"
    and t: "GenerateAuthnToken c t1 user out s = Inr (st, tok)" "ok st"
  shows "TryRotateKey t1 s = ((status_OK, False), s)
    \<and> expire_time key < t1 + authn_token_validity_seconds s
    \<and> fst (VerifyTokenSignature c (expire_time key + 1) tok (verifier s)) = EXPIRED_SIGNING_KEY"
proof -
  have w: "wrap64 (expire_time key - key_validity_seconds s) = created"
      "wrap64 (2 * key_rotation_seconds s) = 2 * key_rotation_seconds s"
      "wrap64 (created + 2 * key_rotation_seconds s) = created + 2 * key_rotation_seconds s"
    using e p by (auto intro!: wrap64_id simp: in64_iff)
  have "TryRotateKey t1 s = ((status_OK, False), s)"
    using k w t1 by (auto simp: TryRotateKey_def Let_def split: list.splits)
  moreover have lt: "expire_time key < t1 + authn_token_validity_seconds s" using e v t1 by simp
  moreover have "registered c (verifier s) key" using i k by (simp add: signer_inv_def)
  moreover have "in64 (t1 + authn_token_validity_seconds s)" using p t1 by (simp add: in64_iff)
  ultimately show ?thesis
    using token_verdict [OF g t k, of "verifier s" "expire_time key + 1"] by auto
qed

definition sound_keys :: "('k, 'p) Crypto \<Rightarrow> 'p Verifier \<Rightarrow> bool" where
  "sound_keys c v \<longleftrightarrow> om_sorted v \<and>
     (\<forall>(k, u)\<in>set v. pb_seq_num (pub_pb u) = Some k \<and> pb_expire (pub_pb u) \<noteq> None
        \<and> pb_rsa_key_der (pub_pb u) \<noteq> None
        \<and> public_Init c (public_new (pub_pb u)) = Inr (status_OK, u))"

lemma build_exported:
  "\<forall>(k, u)\<in>set v. pb_seq_num (pub_pb u) = Some k \<and> pb_expire (pub_pb u) \<noteq> None
        \<and> pb_rsa_key_der (pub_pb u) \<noteq> None \<and> public_Init c (public_new (pub_pb u)) = Inr (status_OK, u)
    \<Longrightarrow> build_keys c (map (\<lambda>e. pub_pb (snd e)) v) = Inr (status_OK, map snd v)"
  by (induction v) auto

lemma import_exported:
  assumes "sound_keys c v1"
  shows "verifier_ImportKeys c (ExportKeys n v1) v2 =
    Inr (status_OK, emplacing.insert_all (om_above n v1) v2)"
proof -
  let ?v = "om_above n v1"
  have s: "\<forall>(k, u)\<in>set ?v. pb_seq_num (pub_pb u) = Some k \<and> pb_expire (pub_pb u) \<noteq> None
        \<and> pb_rsa_key_der (pub_pb u) \<noteq> None \<and> public_Init c (public_new (pub_pb u)) = Inr (status_OK, u)"
    using assms by (auto simp: sound_keys_def om_above_def)
  have "foldl (\<lambda>v t. om_emplace (int_of_field (pb_seq_num (pub_pb t))) t v) v2 (map snd ?v)
      = emplacing.insert_all ?v v2"
    using s by (induction ?v arbitrary: v2 rule: rev_induct)
      (auto simp: emplacing.insert_all_def int_of_field_def foldl_map case_prod_beta intro!: foldl_cong)
  then show ?thesis
    by (simp add: verifier_ImportKeys_def ExportKeys_def build_exported [OF s])
qed

text \<open>
  C3: Keys propagate: a verifier that imports what another exports beyond the greatest number it
  knows itself gives, on a token signed with a greater number, the verdict of the other, and on
  any other token the verdict it gave before.  So it agrees with the exporter on every token if
  it had the exporter's keys up to its greatest number, and no others.
\<close>

theorem keys_propagate:
  assumes s: "sound_keys c v1" and o: "om_sorted v2"
  shows "\<exists>v. verifier_ImportKeys c (ExportKeys (GetMaxKnownKeySequenceNumber v2) v1) v2 = Inr (status_OK, v)
    \<and> (\<forall>now st. VerifyTokenSignature c now st v =
         (if GetMaxKnownKeySequenceNumber v2 < int_of_field (signing_key_seq_num st)
          then VerifyTokenSignature c now st v1 else VerifyTokenSignature c now st v2))
    \<and> ((\<forall>k \<le> GetMaxKnownKeySequenceNumber v2. om_find k v2 = om_find k v1) \<longrightarrow>
         (\<forall>now st. VerifyTokenSignature c now st v = VerifyTokenSignature c now st v1))"
proof -
  let ?n = "GetMaxKnownKeySequenceNumber v2"
  let ?v = "emplacing.insert_all (om_above ?n v1) v2"
  have found: "om_find k ?v = (if ?n < k then om_find k v1 else om_find k v2)" for k
  proof (cases "?n < k")
    case True
    have "om_find k v2 = None"
      using last_is_greatest [OF o, of k] True
      by (cases "v2 = []") (auto simp: find_None_iff GetMaxKnownKeySequenceNumber_def)
    then have "om_find k ?v = map_of (om_above ?n v1) k" by (rule emplacing.insert_all_first [OF o])
    then show ?thesis using True by (simp add: find_map_of [symmetric] find_above)
  next
    case False
    show ?thesis
    proof (cases "om_find k v2")
      case None
      then have "om_find k ?v = map_of (om_above ?n v1) k" by (rule emplacing.insert_all_first [OF o])
      then show ?thesis using None False by (simp add: find_map_of [symmetric] find_above)
    next
      case (Some u)
      then show ?thesis using emplacing.insert_all_keeps [OF o] False by simp
    qed
  qed
  have verdict: "VerifyTokenSignature c now st ?v =
      (if ?n < int_of_field (signing_key_seq_num st)
       then VerifyTokenSignature c now st v1 else VerifyTokenSignature c now st v2)" for now st
    by (cases "?n < int_of_field (signing_key_seq_num st)") (simp_all only: VerifyTokenSignature_def found if_True if_False)
  have "VerifyTokenSignature c now st v2 = VerifyTokenSignature c now st v1"
    if "om_find (int_of_field (signing_key_seq_num st)) v2 = om_find (int_of_field (signing_key_seq_num st)) v1" for now st
    by (simp only: VerifyTokenSignature_def that)
  then show ?thesis
    using import_exported [OF s] verdict by (intro exI [of _ ?v]) (simp add: not_less)
qed

text \<open>
  Importing never replaces a key: a verifier keeps the key it has for a sequence number,
  whatever is imported under that number, although the header says the old key is replaced.
\<close>

theorem import_keeps_old_key:
  assumes "om_sorted v" "om_find k v = Some u" "verifier_ImportKeys c keys v = Inr (st, v')"
  shows "om_find k v' = Some u"
proof -
  have keep: "om_find k (foldl (\<lambda>v t. om_emplace (f t) t v) v ts) = Some u \<and>
      om_sorted (foldl (\<lambda>v t. om_emplace (f t) t v) v ts)" for ts and f :: "'a PublicTSK \<Rightarrow> int"
  proof -
    have one: "om_find k (om_emplace j x v) = Some u" if "om_sorted v" "om_find k v = Some u" for j x v
      using that find_emplace [OF that(1), of k j x] by auto
    show ?thesis
      using assms(1,2) by (induction ts arbitrary: v) (simp_all add: one sorted_emplace)
  qed
  show ?thesis
    using assms(2,3) keep by (auto simp: verifier_ImportKeys_def bindE_Inr_iff split: if_splits)
qed

section \<open>A small signer\<close>

text \<open>
  An instance of what is relied on: keys are numbers, a signature is the key and the message,
  and a message is its expiration in eight bytes and its user.
\<close>

definition demo_parse :: "bytes \<Rightarrow> TokenPB option" where
  "demo_parse d = (if length d < 8 then None else
     Some \<lparr>token_expire = Some (le_value (take 8 d)), incompatible_features = [],
           token_body = Authn (Some (drop 8 d))\<rparr>)"

fun demo_serialize :: "TokenPB \<Rightarrow> bytes option" where
  "demo_serialize t =
    (case (token_expire t, incompatible_features t, token_body t) of
       (Some e, [], Authn (Some u)) \<Rightarrow> if 0 \<le> e \<and> e < 256 ^ 8 then Some (le_bytes 8 e @ u) else None
     | _ \<Rightarrow> None)"

definition demo_crypto :: "(nat, nat) Crypto" where
  "demo_crypto = \<lparr>key_of_der = (\<lambda>d. Inr (length d)), pub_of_der = (\<lambda>d. Inr (length d)),
     der_of_key = (\<lambda>k. Inr (replicate k 0)), der_of_pub = (\<lambda>p. Inr (replicate p 0)), pub_of_key = Inr,
     MakeSignature = (\<lambda>k m. Inr (of_nat k # m)), signature_ok = (\<lambda>p m s. s = of_nat p # m),
     SerializeToString = demo_serialize, ParseFromString = demo_parse\<rparr>"

lemma demo_good: "good_crypto demo_crypto"
proof -
  have "demo_parse d = Some t" if s: "demo_serialize t = Some d" for t d
  proof -
    obtain e u where t: "token_expire t = Some e" "incompatible_features t = []"
        "token_body t = Authn (Some u)" "0 \<le> e" "e < 256 ^ 8" "d = le_bytes 8 e @ u"
      using s by (auto split: option.splits list.splits TokenBody.splits if_splits)
    then have "le_value (le_bytes 8 e) = e" by (simp add: le_value_le_bytes)
    then show ?thesis using t by (cases t) (simp add: demo_parse_def)
  qed
  then show ?thesis by (auto simp: good_crypto_def demo_crypto_def)
qed

definition demo_key :: "nat PrivateTSK" where
  "demo_key = \<lparr>priv_key = 3, private_key_der = [0, 0, 0], public_key_der = [0, 0, 0],
     key_seq_num = 0, expire_time = 130\<rparr>"

definition demo_verifier :: "nat Verifier" where
  "demo_verifier = [(0, \<lparr>pub_pb = ExportPublicKeyPB demo_key, pub_key = Some 3\<rparr>)]"

definition demo_signer :: "(nat, nat) Signer" where
  "demo_signer = \<lparr>verifier = demo_verifier, authn_token_validity_seconds = 20, key_rotation_seconds = 10,
     key_validity_seconds = 30, next_key_seq_num = 1, tsk_deque = [demo_key]\<rparr>"

lemma demo_registered: "registered demo_crypto demo_verifier demo_key"
  by (simp add: registered_def public_half_def demo_verifier_def demo_key_def demo_crypto_def)

lemma demo_inv: "signer_inv demo_crypto demo_signer"
  using demo_registered
  by (simp add: signer_inv_def demo_signer_def verifier_inv_def)
    (simp add: demo_verifier_def om_sorted_def ExportPublicKeyPB_def demo_key_def)

lemma demo_generate:
  "\<exists>tok. GenerateAuthnToken demo_crypto 115 [65] empty_signed demo_signer = Inr (status_OK, tok)"
  by (simp add: GenerateAuthnToken_def demo_signer_def demo_crypto_def SignToken_def private_Sign_def
      wrap64_def Let_def)

lemma token_lifetime_witness:
  "\<exists>tok. GenerateAuthnToken demo_crypto 115 [65] empty_signed demo_signer = Inr (status_OK, tok)
    \<and> fst (VerifyTokenSignature demo_crypto 120 tok demo_verifier) = VALID
    \<and> fst (VerifyTokenSignature demo_crypto 132 tok demo_verifier) = EXPIRED_SIGNING_KEY
    \<and> fst (VerifyTokenSignature demo_crypto 136 tok demo_verifier) = EXPIRED_TOKEN"
proof -
  obtain tok where t: "GenerateAuthnToken demo_crypto 115 [65] empty_signed demo_signer = Inr (status_OK, tok)"
    using demo_generate by blast
  have k: "tsk_deque demo_signer = demo_key # []" and r: "in64 (115 + authn_token_validity_seconds demo_signer)"
    by (simp_all add: demo_signer_def in64_iff)
  show ?thesis
    using token_lifetime [OF demo_good t _ k demo_registered r] t
    by (auto simp: demo_signer_def demo_key_def)
qed

lemma refresh_keeps_signer_witness:
  "\<exists>s'. refresh_keys demo_crypto 115 (Inr 4) demo_signer = Inr (status_OK, s')
    \<and> signer_inv demo_crypto s' \<and> tsk_deque s' \<noteq> [] \<and> 1 \<le> next_key_seq_num s'"
  using refresh_keeps_signer [OF demo_good demo_inv, of 4 115]
  by (auto simp: encodable_def demo_crypto_def demo_signer_def in64_iff)

lemma token_outlives_key_witness:
  "\<exists>tok. GenerateAuthnToken demo_crypto 115 [65] empty_signed demo_signer = Inr (status_OK, tok)
    \<and> fst (VerifyTokenSignature demo_crypto 131 tok demo_verifier) = EXPIRED_SIGNING_KEY"
proof -
  obtain tok where t: "GenerateAuthnToken demo_crypto 115 [65] empty_signed demo_signer = Inr (status_OK, tok)"
    using demo_generate by blast
  have k: "tsk_deque demo_signer = demo_key # []" by (simp add: demo_signer_def)
  show ?thesis
    using token_outlives_key [OF demo_good demo_inv k, of 100 115 "[65]" empty_signed status_OK tok] t
    by (auto simp: demo_signer_def demo_key_def)
qed

lemma keys_propagate_witness:
  "\<exists>v. verifier_ImportKeys demo_crypto (ExportKeys (-1) demo_verifier) [] = Inr (status_OK, v)
    \<and> VerifyTokenSignature demo_crypto 9 (empty_signed\<lparr>signing_key_seq_num := Some 0\<rparr>) v
      = VerifyTokenSignature demo_crypto 9 (empty_signed\<lparr>signing_key_seq_num := Some 0\<rparr>) demo_verifier"
proof -
  have "sound_keys demo_crypto demo_verifier"
    by (simp add: sound_keys_def demo_verifier_def om_sorted_def public_Init_def public_new_def
        ExportPublicKeyPB_def demo_key_def demo_crypto_def bytes_of_field_def)
  then show ?thesis
    using keys_propagate [of demo_crypto demo_verifier "[]"]
    by (auto simp: GetMaxKnownKeySequenceNumber_def om_sorted_def int_of_field_def)
qed

lemma import_keeps_old_key_witness:
  "\<exists>v. verifier_ImportKeys demo_crypto [\<lparr>pb_seq_num = Some 0, pb_rsa_key_der = Some [1], pb_expire = Some 500\<rparr>]
      demo_verifier = Inr (status_OK, v)
    \<and> om_find 0 v = Some \<lparr>pub_pb = ExportPublicKeyPB demo_key, pub_key = Some 3\<rparr>"
proof -
  have f: "om_find 0 demo_verifier = Some \<lparr>pub_pb = ExportPublicKeyPB demo_key, pub_key = Some 3\<rparr>"
    and s: "om_sorted demo_verifier"
    by (simp_all add: demo_verifier_def om_sorted_def)
  have "\<exists>v. verifier_ImportKeys demo_crypto
      [\<lparr>pb_seq_num = Some 0, pb_rsa_key_der = Some [1], pb_expire = Some 500\<rparr>] demo_verifier = Inr (status_OK, v)"
    by (simp add: verifier_ImportKeys_def public_Init_def public_new_def demo_crypto_def bytes_of_field_def)
  then show ?thesis using import_keeps_old_key [OF s f] by blast
qed

end
