(* ===== verification/X509Host.thy ===== *)
theory X509Host
  imports Prelude
begin

text \<open>
  Matching of a host name against a certificate (\<^verbatim>\<open>security/x509_check_host.cc\<close>), ported by
  the program from OpenSSL.  A pointer with its length is the list of the bytes it covers;
  the flags are the 32-bit word of the code.  What the code asks of OpenSSL about a
  certificate is the record \<open>X509Lib\<close>, a parameter of the definitions.
\<close>

unbundle bit_operations_syntax

section \<open>Flags\<close>

definition X509_CHECK_FLAG_ALWAYS_CHECK_SUBJECT :: u32 where
  "X509_CHECK_FLAG_ALWAYS_CHECK_SUBJECT = 0x1"

definition X509_CHECK_FLAG_NO_WILDCARDS :: u32 where
  "X509_CHECK_FLAG_NO_WILDCARDS = 0x2"

definition X509_CHECK_FLAG_NO_PARTIAL_WILDCARDS :: u32 where
  "X509_CHECK_FLAG_NO_PARTIAL_WILDCARDS = 0x4"

definition X509_CHECK_FLAG_MULTI_LABEL_WILDCARDS :: u32 where
  "X509_CHECK_FLAG_MULTI_LABEL_WILDCARDS = 0x8"

definition X509_CHECK_FLAG_SINGLE_LABEL_SUBDOMAINS :: u32 where
  "X509_CHECK_FLAG_SINGLE_LABEL_SUBDOMAINS = 0x10"

definition X509_CHECK_FLAG_NEVER_CHECK_SUBJECT :: u32 where
  "X509_CHECK_FLAG_NEVER_CHECK_SUBJECT = 0x20"

definition X509_CHECK_FLAG_DOT_SUBDOMAINS :: u32 where
  "X509_CHECK_FLAG_DOT_SUBDOMAINS = 0x8000"

definition has_flag :: "u32 \<Rightarrow> u32 \<Rightarrow> bool" where
  "has_flag flags f \<longleftrightarrow> flags AND f \<noteq> 0"

lemmas flag_defs = X509_CHECK_FLAG_ALWAYS_CHECK_SUBJECT_def X509_CHECK_FLAG_NO_WILDCARDS_def
  X509_CHECK_FLAG_NO_PARTIAL_WILDCARDS_def X509_CHECK_FLAG_MULTI_LABEL_WILDCARDS_def
  X509_CHECK_FLAG_SINGLE_LABEL_SUBDOMAINS_def X509_CHECK_FLAG_NEVER_CHECK_SUBJECT_def
  X509_CHECK_FLAG_DOT_SUBDOMAINS_def has_flag_def

section \<open>Comparison of names\<close>

text \<open>\<^verbatim>\<open>.\<close>, \<^verbatim>\<open>*\<close>, \<^verbatim>\<open>-\<close> and \<^verbatim>\<open>@\<close>\<close>

abbreviation DOT :: byte where "DOT \<equiv> 46"
abbreviation STAR :: byte where "STAR \<equiv> 42"
abbreviation HYPHEN :: byte where "HYPHEN \<equiv> 45"
abbreviation AT :: byte where "AT \<equiv> 64"

text \<open>The loop of \<^verbatim>\<open>skip_prefix\<close>: \<open>n\<close> is the length of the subject.\<close>

fun skip_loop :: "u32 \<Rightarrow> nat \<Rightarrow> bytes \<Rightarrow> bytes" where
  "skip_loop flags n [] = []"
| "skip_loop flags n (c # cs) =
     (if length (c # cs) > n \<and> c \<noteq> 0
      then if has_flag flags X509_CHECK_FLAG_SINGLE_LABEL_SUBDOMAINS \<and> c = DOT
           then c # cs else skip_loop flags n cs
      else c # cs)"

definition skip_prefix :: "u32 \<Rightarrow> nat \<Rightarrow> bytes \<Rightarrow> bytes" where
  "skip_prefix flags n pattern =
     (if \<not> has_flag flags X509_CHECK_FLAG_DOT_SUBDOMAINS then pattern
      else let p = skip_loop flags n pattern in if length p = n then p else pattern)"

definition fold_case :: "byte \<Rightarrow> byte" where
  "fold_case l = (if 65 \<le> l \<and> l \<le> 90 then (l - 65) + 97 else l)"

fun nocase_loop :: "bytes \<Rightarrow> bytes \<Rightarrow> bool" where
  "nocase_loop (l # ls) (r # rs) =
     (if l = 0 then False
      else if l \<noteq> r \<and> fold_case l \<noteq> fold_case r then False
      else nocase_loop ls rs)"
| "nocase_loop _ _ = True"

definition equal_nocase :: "u32 \<Rightarrow> bytes \<Rightarrow> bytes \<Rightarrow> bool" where
  "equal_nocase flags pattern subject =
     (let p = skip_prefix flags (length subject) pattern
      in if length p \<noteq> length subject then False else nocase_loop p subject)"

definition equal_case :: "u32 \<Rightarrow> bytes \<Rightarrow> bytes \<Rightarrow> bool" where
  "equal_case flags pattern subject =
     (let p = skip_prefix flags (length subject) pattern
      in if length p \<noteq> length subject then False else p = subject)"

text \<open>
  The backward search of \<^verbatim>\<open>equal_email\<close> for \<^verbatim>\<open>@\<close>: the result is the value of \<^verbatim>\<open>i\<close> after the loop,
  or \<open>None\<close> for the early return.
\<close>

fun email_loop :: "bytes \<Rightarrow> bytes \<Rightarrow> nat \<Rightarrow> nat option" where
  "email_loop a b 0 = Some 0"
| "email_loop a b (Suc i) =
     (if a ! i = AT \<or> b ! i = AT
      then if \<not> equal_nocase 0 (drop i a) (drop i b) then None else Some i
      else email_loop a b i)"

definition equal_email :: "u32 \<Rightarrow> bytes \<Rightarrow> bytes \<Rightarrow> bool" where
  "equal_email unused_flags a b =
     (if length a \<noteq> length b then False
      else case email_loop a b (length a) of
          None \<Rightarrow> False
        | Some i \<Rightarrow> let i = (if i = 0 then length a else i) in equal_case 0 (take i a) (take i b))"

section \<open>Wildcards\<close>

definition is_lower :: "byte \<Rightarrow> bool" where
  "is_lower c \<longleftrightarrow> 97 \<le> c \<and> c \<le> 122"

definition is_upper :: "byte \<Rightarrow> bool" where
  "is_upper c \<longleftrightarrow> 65 \<le> c \<and> c \<le> 90"

definition is_digit :: "byte \<Rightarrow> bool" where
  "is_digit c \<longleftrightarrow> 48 \<le> c \<and> c \<le> 57"

text \<open>\<^verbatim>\<open>len >= 4 && strncasecmp(p, "xn--", 4) == 0\<close>\<close>

definition idna_prefix :: "bytes \<Rightarrow> bool" where
  "idna_prefix p \<longleftrightarrow> length p \<ge> 4 \<and> map fold_case (take 4 p) = str ''xn--''"

definition wildcard_char :: "bool \<Rightarrow> byte \<Rightarrow> bool" where
  "wildcard_char allow_multi c \<longleftrightarrow>
     is_digit c \<or> is_upper c \<or> is_lower c \<or> c = HYPHEN \<or> (allow_multi \<and> c = DOT)"

definition wildcard_match :: "u32 \<Rightarrow> bytes \<Rightarrow> bytes \<Rightarrow> bytes \<Rightarrow> fault + bool" where
  "wildcard_match flags prefx suffx subject =
     (if length subject < length prefx + length suffx then Inr False
      else if \<not> equal_nocase flags prefx (take (length prefx) subject) then Inr False
      else
        let wildcard_start = length prefx;
            wildcard_end = length subject - length suffx;
            wild = take (wildcard_end - wildcard_start) (drop wildcard_start subject)
        in if \<not> equal_nocase flags (drop wildcard_end subject) suffx then Inr False
        else bindE (if prefx = [] then map_sum id (\<lambda>c. c = int 46) (rd suffx 0) else Inr False)
          (\<lambda>whole_label.
            if whole_label \<and> wildcard_start = wildcard_end then Inr False
            else
              let allow_idna = whole_label;
                  allow_multi = (whole_label \<and> has_flag flags X509_CHECK_FLAG_MULTI_LABEL_WILDCARDS)
              in if \<not> allow_idna \<and> idna_prefix subject then Inr False
              else if wildcard_end = wildcard_start + 1 \<and> wild = [STAR] then Inr True
              else Inr (list_all (wildcard_char allow_multi) wild)))"

record label_state =
  LABEL_START :: bool
  LABEL_HYPHEN :: bool
  LABEL_IDNA :: bool
  dots :: nat
  star :: "nat option"

definition star_init :: label_state where
  "star_init = \<lparr>LABEL_START = True, LABEL_HYPHEN = False, LABEL_IDNA = False, dots = 0, star = None\<rparr>"

text \<open>
  One iteration of \<^verbatim>\<open>valid_star\<close> at index \<open>i\<close>; \<open>None\<close> is the early \<^verbatim>\<open>return NULL\<close>.  \<open>rest\<close>
  is the pattern from the current character on.
\<close>

definition star_step :: "u32 \<Rightarrow> nat \<Rightarrow> byte \<Rightarrow> bytes \<Rightarrow> label_state \<Rightarrow> label_state option" where
  "star_step flags i c rest s =
     (if c = STAR then
        let atstart = LABEL_START s;
            atend = (tl rest = [] \<or> hd (tl rest) = DOT)
        in if star s \<noteq> None \<or> LABEL_IDNA s \<or> dots s \<noteq> 0 then None
           else if has_flag flags X509_CHECK_FLAG_NO_PARTIAL_WILDCARDS \<and> (\<not> atstart \<or> \<not> atend)
           then None
           else if \<not> atstart \<and> \<not> atend then None
           else Some (s\<lparr>star := Some i, LABEL_START := False\<rparr>)
      else if is_lower c \<or> is_upper c \<or> is_digit c then
        Some (s\<lparr>LABEL_IDNA := LABEL_IDNA s \<or> (LABEL_START s \<and> idna_prefix rest),
                LABEL_HYPHEN := False, LABEL_START := False\<rparr>)
      else if c = DOT then
        if LABEL_HYPHEN s \<or> LABEL_START s then None
        else Some (s\<lparr>LABEL_START := True, LABEL_HYPHEN := False, LABEL_IDNA := False,
                     dots := dots s + 1\<rparr>)
      else if c = HYPHEN then
        if LABEL_START s then None else Some (s\<lparr>LABEL_HYPHEN := True\<rparr>)
      else None)"

fun star_loop :: "u32 \<Rightarrow> nat \<Rightarrow> bytes \<Rightarrow> label_state \<Rightarrow> label_state option" where
  "star_loop flags i [] s = Some s"
| "star_loop flags i (c # cs) s =
     (case star_step flags i c (c # cs) s of
        None \<Rightarrow> None
      | Some s' \<Rightarrow> star_loop flags (i + 1) cs s')"

definition valid_star :: "u32 \<Rightarrow> bytes \<Rightarrow> nat option" where
  "valid_star flags p =
     (case star_loop flags 0 p star_init of
        None \<Rightarrow> None
      | Some s \<Rightarrow> if (LABEL_START s \<or> LABEL_HYPHEN s) \<or> dots s < 2 then None else star s)"

definition equal_wildcard :: "u32 \<Rightarrow> bytes \<Rightarrow> bytes \<Rightarrow> fault + bool" where
  "equal_wildcard flags pattern subject =
     (case (if \<not> (length subject > 1 \<and> hd subject = DOT) then valid_star flags pattern else None) of
        None \<Rightarrow> Inr (equal_nocase flags pattern subject)
      | Some i \<Rightarrow> wildcard_match flags (take i pattern) (drop (i + 1) pattern) subject)"

section \<open>What the comparisons decide\<close>

lemma nocase_loop_iff:
  "length p = length s \<Longrightarrow> nocase_loop p s \<longleftrightarrow> map fold_case p = map fold_case s \<and> 0 \<notin> set p"
  by (induction p s rule: nocase_loop.induct) auto

lemma skip_loop_short: "length p \<le> n \<Longrightarrow> skip_loop flags n p = p"
  by (cases p) auto

lemma skip_prefix_short [simp]: "length p \<le> n \<Longrightarrow> skip_prefix flags n p = p"
  by (simp add: skip_prefix_def skip_loop_short)

lemma skip_prefix_plain [simp]:
  "\<not> has_flag flags X509_CHECK_FLAG_DOT_SUBDOMAINS \<Longrightarrow> skip_prefix flags n p = p"
  by (simp add: skip_prefix_def)

lemma equal_nocase_same_length:
  "length p = length s \<Longrightarrow> equal_nocase flags p s \<longleftrightarrow> map fold_case p = map fold_case s \<and> 0 \<notin> set p"
  by (simp add: equal_nocase_def nocase_loop_iff)

lemma map_eq_lengthD: "map f p = map f s \<Longrightarrow> length p = length s"
  by (metis length_map)

lemma equal_nocase_plain:
  "\<not> has_flag flags X509_CHECK_FLAG_DOT_SUBDOMAINS \<Longrightarrow>
   equal_nocase flags p s \<longleftrightarrow> map fold_case p = map fold_case s \<and> 0 \<notin> set p"
  by (auto simp: equal_nocase_def nocase_loop_iff dest: map_eq_lengthD)

lemma skip_loop_suffix: "\<exists>pre. p = pre @ skip_loop flags n p \<and> 0 \<notin> set pre"
proof (induction p)
  case (Cons c cs)
  then obtain pre where "cs = pre @ skip_loop flags n cs" "0 \<notin> set pre" by blast
  then show ?case
    by (auto intro: exI [of _ "c # pre"] exI [of _ "[]"])
qed simp

lemma skip_loop_labels:
  "has_flag flags X509_CHECK_FLAG_SINGLE_LABEL_SUBDOMAINS \<Longrightarrow>
   \<exists>pre. p = pre @ skip_loop flags n p \<and> 0 \<notin> set pre \<and> DOT \<notin> set pre"
proof (induction p)
  case (Cons c cs)
  then obtain pre where "cs = pre @ skip_loop flags n cs" "0 \<notin> set pre" "DOT \<notin> set pre" by blast
  then show ?case
    using Cons.prems by (auto intro: exI [of _ "c # pre"] exI [of _ "[]"])
qed simp

text \<open>A reference name that starts with a dot stands for any subdomain.\<close>

lemma equal_nocase_suffix:
  assumes "equal_nocase flags p s"
  obtains pre suf where "p = pre @ suf" "0 \<notin> set pre" "map fold_case suf = map fold_case s"
    "has_flag flags X509_CHECK_FLAG_SINGLE_LABEL_SUBDOMAINS \<Longrightarrow> DOT \<notin> set pre"
proof -
  let ?q = "skip_prefix flags (length s) p"
  have q: "length ?q = length s" "nocase_loop ?q s"
    using assms by (auto simp: equal_nocase_def Let_def split: if_splits)
  have fold: "map fold_case ?q = map fold_case s"
    using nocase_loop_iff [OF q(1)] q(2) by simp
  show thesis
  proof (cases "?q = p")
    case True
    then show thesis using that [of "[]" p] fold by simp
  next
    case False
    then have q': "?q = skip_loop flags (length s) p"
      by (auto simp: skip_prefix_def Let_def split: if_splits)
    show thesis
    proof (cases "has_flag flags X509_CHECK_FLAG_SINGLE_LABEL_SUBDOMAINS")
      case True
      then show thesis
        using skip_loop_labels [OF True, of p "length s"] that fold q' by metis
    next
      case False
      then show thesis
        using skip_loop_suffix [of p flags "length s"] that fold q' by metis
    qed
  qed
qed

section \<open>The patterns that hold a wildcard\<close>

text \<open>What \<^verbatim>\<open>valid_star\<close> knows after the characters \<open>pre\<close>.\<close>

definition label_char :: "byte \<Rightarrow> bool" where
  "label_char c \<longleftrightarrow> is_lower c \<or> is_upper c \<or> is_digit c \<or> c = HYPHEN"

definition star_inv :: "bytes \<Rightarrow> label_state \<Rightarrow> bool" where
  "star_inv pre s \<longleftrightarrow>
     dots s = count_list pre DOT \<and>
     (\<forall>c \<in> set pre. label_char c \<or> c = DOT \<or> c = STAR) \<and>
     (case star s of
        None \<Rightarrow> STAR \<notin> set pre
      | Some k \<Rightarrow> \<exists>l r. pre = l @ STAR # r \<and> length l = k \<and> STAR \<notin> set l \<and> STAR \<notin> set r
                     \<and> DOT \<notin> set l)"

lemma star_inv_init: "star_inv [] star_init"
  by (simp add: star_inv_def star_init_def)

lemma char_classes [simp]:
  "\<not> is_lower STAR" "\<not> is_upper STAR" "\<not> is_digit STAR"
  "\<not> is_lower DOT" "\<not> is_upper DOT" "\<not> is_digit DOT"
  "\<not> label_char DOT" "\<not> label_char STAR" "\<not> label_char 0"
  "\<not> wildcard_char m STAR" "wildcard_char m DOT \<longleftrightarrow> m"
  by (simp_all add: is_lower_def is_upper_def is_digit_def label_char_def wildcard_char_def)

lemma count_list_zero: "count_list xs x = 0 \<longleftrightarrow> x \<notin> set xs"
  by (simp add: count_list_0_iff)

lemma star_inv_step:
  assumes step: "star_step flags i c rest s = Some s'" and inv: "star_inv pre s"
    and i: "i = length pre"
  shows "star_inv (pre @ [c]) s'"
proof (cases "c = STAR")
  case True
  then have s: "star s = None" "dots s = 0" "star s' = Some i" "dots s' = dots s"
    using step by (auto simp: star_step_def Let_def split: if_splits)
  then show ?thesis
    using inv True
    by (fastforce simp: star_inv_def count_list_zero i)
next
  case False
  then have s: "star s' = star s" "dots s' = dots s + (if c = DOT then 1 else 0)"
    "label_char c \<or> c = DOT"
    using step by (auto simp: star_step_def label_char_def split: if_splits)
  show ?thesis
  proof (cases "star s")
    case None
    then show ?thesis using inv s False by (auto simp: star_inv_def)
  next
    case (Some k)
    then obtain l r where "pre = l @ STAR # r" "length l = k" "STAR \<notin> set l" "STAR \<notin> set r"
      "DOT \<notin> set l"
      using inv by (auto simp: star_inv_def)
    then have "pre @ [c] = l @ STAR # (r @ [c]) \<and> length l = k \<and> STAR \<notin> set l
        \<and> STAR \<notin> set (r @ [c]) \<and> DOT \<notin> set l"
      using False by simp
    then have split: "\<exists>l r. pre @ [c] = l @ STAR # r \<and> length l = k \<and> STAR \<notin> set l
        \<and> STAR \<notin> set r \<and> DOT \<notin> set l"
      by blast
    have "dots s' = count_list (pre @ [c]) DOT"
      "\<forall>c \<in> set (pre @ [c]). label_char c \<or> c = DOT \<or> c = STAR"
      using inv s by (auto simp: star_inv_def)
    with split show ?thesis
      unfolding star_inv_def s(1) Some option.case by blast
  qed
qed

lemma star_inv_loop:
  "star_loop flags i cs s = Some s' \<Longrightarrow> star_inv pre s \<Longrightarrow> i = length pre \<Longrightarrow> star_inv (pre @ cs) s'"
proof (induction cs arbitrary: i s pre)
  case (Cons c cs)
  then obtain s1 where s1: "star_step flags i c (c # cs) s = Some s1"
    "star_loop flags (i + 1) cs s1 = Some s'"
    by (auto split: option.splits)
  have "star_inv (pre @ [c]) s1" by (rule star_inv_step [OF s1(1) Cons.prems(2,3)])
  from Cons.IH [OF s1(2) this] show ?case using Cons.prems(3) by simp
qed simp

text \<open>
  A pattern with a wildcard: one star, in the first label, with at least two dots behind it,
  and nothing but letters, digits, hyphens and dots around it.
\<close>

lemma valid_star_shape:
  assumes "valid_star flags p = Some i"
  obtains l r where "p = l @ STAR # r" "length l = i" "STAR \<notin> set l" "STAR \<notin> set r" "DOT \<notin> set l"
    "2 \<le> count_list r DOT" "\<forall>c \<in> set l \<union> set r. label_char c \<or> c = DOT"
proof -
  obtain s where s: "star_loop flags 0 p star_init = Some s" "2 \<le> dots s" "star s = Some i"
    using assms by (auto simp: valid_star_def split: option.splits if_splits)
  have inv: "star_inv p s" using star_inv_loop [OF s(1) star_inv_init] by simp
  obtain l r where lr: "p = l @ STAR # r" "length l = i" "STAR \<notin> set l" "STAR \<notin> set r" "DOT \<notin> set l"
    using inv s(3) by (auto simp: star_inv_def)
  have "count_list l DOT = 0" using lr(5) by (simp add: count_list_zero)
  then have "2 \<le> count_list r DOT" using inv s(2) lr(1) by (simp add: star_inv_def)
  moreover have "\<forall>c \<in> set l \<union> set r. label_char c \<or> c = DOT"
    using inv lr unfolding star_inv_def by auto
  ultimately show thesis using that lr by blast
qed

section \<open>A wildcard stands for part of one label\<close>

lemma ex_split3:
  assumes "s = L @ W @ R" "length L = n" "length R = k"
  shows "(\<exists>l w r. s = l @ w @ r \<and> length l = n \<and> length r = k \<and> P l w r) \<longleftrightarrow> P L W R"
proof
  assume "\<exists>l w r. s = l @ w @ r \<and> length l = n \<and> length r = k \<and> P l w r"
  then obtain l w r where "s = l @ w @ r" "length l = n" "length r = k" "P l w r" by blast
  moreover from this assms have "l = L \<and> w = W \<and> r = R"
    by (metis append_eq_append_conv append_assoc)
  ultimately show "P L W R" by simp
qed (use assms in blast)

lemma wildcard_match_iff:
  assumes "suffx \<noteq> []"
  shows "wildcard_match flags prefx suffx subject =
    Inr (\<exists>l w r. subject = l @ w @ r \<and> length l = length prefx \<and> length r = length suffx
       \<and> map fold_case prefx = map fold_case l \<and> 0 \<notin> set prefx
       \<and> map fold_case r = map fold_case suffx \<and> 0 \<notin> set r
       \<and> (prefx = [] \<and> hd suffx = DOT \<longrightarrow> w \<noteq> [])
       \<and> (prefx = [] \<and> hd suffx = DOT \<or> \<not> idna_prefix subject)
       \<and> (w = [STAR] \<or> list_all (wildcard_char (prefx = [] \<and> hd suffx = DOT
             \<and> has_flag flags X509_CHECK_FLAG_MULTI_LABEL_WILDCARDS)) w))"
proof (cases "length subject < length prefx + length suffx")
  case True
  then show ?thesis by (auto simp: wildcard_match_def)
next
  case False
  define n where "n = length prefx"
  define m where "m = length subject - length suffx"
  define L where "L = take n subject"
  define W where "W = take (m - n) (drop n subject)"
  define R where "R = drop m subject"
  have nm: "n \<le> m" "m \<le> length subject" "length subject - m = length suffx"
    using False by (auto simp: n_def m_def)
  have subj: "subject = L @ W @ R"
    using nm unfolding L_def W_def R_def
    by (metis append_take_drop_id drop_drop le_add_diff_inverse2)
  have len: "length L = length prefx" "length R = length suffx" "length W = m - n"
    using nm by (auto simp: L_def R_def W_def n_def)
  have hd: "rd suffx 0 = Inr (uint (hd suffx))"
    using assms by (cases suffx) simp_all
  have dot: "uint (hd suffx) = 46 \<longleftrightarrow> hd suffx = DOT"
    by (simp add: word_uint_eq_iff)
  have one: "m = n + 1 \<and> W = [STAR] \<longleftrightarrow> W = [STAR]" using len(3) nm(1) by (cases "m = n + 1") auto
  have emp: "n = m \<longleftrightarrow> W = []" using len(3) nm(1) by auto
  have e1: "equal_nocase flags prefx L \<longleftrightarrow> map fold_case prefx = map fold_case L \<and> 0 \<notin> set prefx"
    using equal_nocase_same_length len(1) by metis
  have e2: "equal_nocase flags R suffx \<longleftrightarrow> map fold_case R = map fold_case suffx \<and> 0 \<notin> set R"
    using equal_nocase_same_length len(2) by metis
  show ?thesis
    unfolding ex_split3 [OF subj len(1,2)] wildcard_match_def Let_def
    unfolding n_def [symmetric] m_def [symmetric]
    unfolding L_def [symmetric] W_def [symmetric] R_def [symmetric] e1 e2 hd
    using False one emp dot len by (auto simp: n_def)
qed

definition wildcard_spec :: "u32 \<Rightarrow> bytes \<Rightarrow> bytes \<Rightarrow> bool" where
  "wildcard_spec flags pattern subject \<longleftrightarrow>
     (\<exists>pl pr l w r. pattern = pl @ STAR # pr \<and> DOT \<notin> set pl \<and> 2 \<le> count_list pr DOT
        \<and> subject = l @ w @ r
        \<and> map fold_case l = map fold_case pl \<and> map fold_case r = map fold_case pr
        \<and> (w = [STAR] \<or> (\<forall>c \<in> set w. label_char c)
           \<or> has_flag flags X509_CHECK_FLAG_MULTI_LABEL_WILDCARDS \<and> pl = [] \<and> hd pr = DOT)
        \<and> (pl = [] \<and> hd pr = DOT \<longrightarrow> w \<noteq> []))"

lemma equal_wildcard_spec:
  assumes "equal_wildcard flags pattern subject = Inr True"
  shows "equal_nocase flags pattern subject \<or> wildcard_spec flags pattern subject"
proof (cases "if \<not> (length subject > 1 \<and> hd subject = DOT) then valid_star flags pattern else None")
  case None
  then show ?thesis using assms by (simp add: equal_wildcard_def split: if_splits)
next
  case (Some i)
  then have v: "valid_star flags pattern = Some i" by (simp split: if_splits)
  obtain pl pr where p: "pattern = pl @ STAR # pr" "length pl = i" "DOT \<notin> set pl"
    "2 \<le> count_list pr DOT" by (rule valid_star_shape [OF v]) blast
  have pr: "pr \<noteq> []" using p(4) by auto
  have wm: "wildcard_match flags pl pr subject = Inr True"
    using assms Some p(1,2) by (simp add: equal_wildcard_def split: if_splits)
  obtain l w r where s: "subject = l @ w @ r" "map fold_case pl = map fold_case l"
    "map fold_case r = map fold_case pr" "pl = [] \<and> hd pr = DOT \<longrightarrow> w \<noteq> []"
    "w = [STAR] \<or> list_all (wildcard_char (pl = [] \<and> hd pr = DOT
             \<and> has_flag flags X509_CHECK_FLAG_MULTI_LABEL_WILDCARDS)) w"
    using wm unfolding wildcard_match_iff [OF pr] sum.inject simp_thms by blast
  have w: "w = [STAR] \<or> (\<forall>c \<in> set w. label_char c)
           \<or> has_flag flags X509_CHECK_FLAG_MULTI_LABEL_WILDCARDS \<and> pl = [] \<and> hd pr = DOT"
    using s(5) by (auto simp: list_all_iff wildcard_char_def label_char_def)
  show ?thesis
    unfolding wildcard_spec_def using p s(1) s(2) [symmetric] s(3,4) w by blast
qed

text \<open>The read of the first byte behind the star is always inside the pattern.\<close>

lemma equal_wildcard_total: "\<exists>b. equal_wildcard flags pattern subject = Inr b"
proof (cases "if \<not> (length subject > 1 \<and> hd subject = DOT) then valid_star flags pattern else None")
  case None
  then show ?thesis by (simp add: equal_wildcard_def split: if_splits)
next
  case (Some i)
  then have v: "valid_star flags pattern = Some i" by (simp split: if_splits)
  obtain pl pr where p: "pattern = pl @ STAR # pr" "length pl = i" 
    "2 \<le> count_list pr DOT" by (rule valid_star_shape [OF v]) blast
  then have "pr \<noteq> []" by auto
  then show ?thesis
    using Some p(1,2) wildcard_match_iff [of pr flags pl subject]
    by (simp add: equal_wildcard_def split: if_splits)
qed

section \<open>Names of a certificate\<close>

text \<open>OpenSSL's string types and name attributes, as its headers number them.\<close>

definition V_ASN1_OCTET_STRING :: int where "V_ASN1_OCTET_STRING = 4"
definition V_ASN1_IA5STRING :: int where "V_ASN1_IA5STRING = 22"
definition NID_undef :: int where "NID_undef = 0"
definition NID_commonName :: int where "NID_commonName = 13"
definition NID_pkcs9_emailAddress :: int where "NID_pkcs9_emailAddress = 48"

text \<open>An \<^verbatim>\<open>ASN1_STRING\<close>; \<open>None\<close> is a null data pointer.\<close>

record ASN1_STRING =
  data :: "bytes option"
  asn1_type :: int

datatype GENERAL_NAME = rfc822Name ASN1_STRING | dNSName ASN1_STRING | iPAddress ASN1_STRING
  | otherName

datatype check_kind = GEN_EMAIL | GEN_DNS | GEN_IPADD

text \<open>
  What the code asks of OpenSSL: the decoded subjectAltName extension (\<open>None\<close> when there is
  none), the next subject entry of an attribute behind a position, the string of an entry, the
  UTF-8 form of a string (\<open>None\<close> when it cannot be decoded), and whether an allocation of a
  number of bytes succeeds.
\<close>

record 'x X509Lib =
  X509_get_ext_d2i :: "'x \<Rightarrow> GENERAL_NAME list option"
  X509_NAME_get_index_by_NID :: "'x \<Rightarrow> int \<Rightarrow> int \<Rightarrow> int"
  X509_NAME_ENTRY_get_data :: "'x \<Rightarrow> int \<Rightarrow> ASN1_STRING"
  ASN1_STRING_to_UTF8 :: "ASN1_STRING \<Rightarrow> bytes option"
  CRYPTO_malloc :: "nat \<Rightarrow> bool"

text \<open>\<^verbatim>\<open>CRYPTO_strndup\<close>: the copy ends before the first zero byte; \<open>None\<close> when there is no memory.\<close>

definition CRYPTO_strndup :: "'x X509Lib \<Rightarrow> bytes option \<Rightarrow> nat \<Rightarrow> bytes option" where
  "CRYPTO_strndup lib s n =
     (case s of
        None \<Rightarrow> None
      | Some p \<Rightarrow>
          let maxlen = length (takeWhile (\<lambda>c. c \<noteq> 0) (take n p))
          in if CRYPTO_malloc lib (maxlen + 1) then Some (take maxlen p) else None)"

text \<open>
  \<^verbatim>\<open>do_check_string\<close>: the result and, where the code stores one, the new \<^verbatim>\<open>*peername\<close>.  The
  comparison of the binary case reads \<open>length b\<close> bytes of the certificate's string.
\<close>

definition do_check_string ::
  "'x X509Lib \<Rightarrow> ASN1_STRING \<Rightarrow> int \<Rightarrow> (bytes \<Rightarrow> bytes \<Rightarrow> fault + bool) \<Rightarrow> bytes
   \<Rightarrow> fault + int \<times> bytes option option" where
  "do_check_string lib a cmp_type equal b =
     (case data a of
        None \<Rightarrow> Inr (0, None)
      | Some d \<Rightarrow>
          if d = [] then Inr (0, None)
          else if cmp_type > 0 then
            if cmp_type \<noteq> asn1_type a then Inr (0, None)
            else bindE (if cmp_type = V_ASN1_IA5STRING then equal d b
                        else if int (length d) = wrap32 (int (length b))
                        then if length d < length b then Inl OutOfBounds else Inr (d = b)
                        else Inr False)
              (\<lambda>rv. Inr (if rv then (1, Some (CRYPTO_strndup lib (Some d) (length d))) else (0, None)))
          else
            case ASN1_STRING_to_UTF8 lib a of
              None \<Rightarrow> Inr (-1, None)
            | Some astr \<Rightarrow>
                bindE (equal astr b)
                  (\<lambda>rv. Inr (if rv then (1, Some (CRYPTO_strndup lib (Some astr) (length astr)))
                             else (0, None))))"

fun name_of_kind :: "check_kind \<Rightarrow> GENERAL_NAME \<Rightarrow> ASN1_STRING option" where
  "name_of_kind GEN_EMAIL (rfc822Name s) = Some s"
| "name_of_kind GEN_DNS (dNSName s) = Some s"
| "name_of_kind GEN_IPADD (iPAddress s) = Some s"
| "name_of_kind _ _ = None"

text \<open>The loop over the alternative names; the first component of the result is \<^verbatim>\<open>san_present\<close>.\<close>

fun san_loop ::
  "'x X509Lib \<Rightarrow> check_kind \<Rightarrow> int \<Rightarrow> (bytes \<Rightarrow> bytes \<Rightarrow> fault + bool) \<Rightarrow> bytes
   \<Rightarrow> GENERAL_NAME list \<Rightarrow> bool \<Rightarrow> fault + bool \<times> int \<times> bytes option option" where
  "san_loop lib k alt_type equal chk [] present = Inr (present, 0, None)"
| "san_loop lib k alt_type equal chk (gen # gens) present =
     (case name_of_kind k gen of
        None \<Rightarrow> san_loop lib k alt_type equal chk gens present
      | Some cstr \<Rightarrow>
          bindE (do_check_string lib cstr alt_type equal chk)
            (\<lambda>(rv, peer). if rv \<noteq> 0 then Inr (True, rv, peer)
                          else san_loop lib k alt_type equal chk gens True))"

text \<open>
  The loop over the subject's entries: \<open>None\<close> when the fuel is spent, which
  \<open>subject_loop_returns\<close> excludes under the library's contract.
\<close>

fun subject_loop ::
  "nat \<Rightarrow> 'x X509Lib \<Rightarrow> 'x \<Rightarrow> int \<Rightarrow> (bytes \<Rightarrow> bytes \<Rightarrow> fault + bool) \<Rightarrow> bytes \<Rightarrow> int
   \<Rightarrow> (fault + int \<times> bytes option option) option" where
  "subject_loop 0 lib x cnid equal chk i = None"
| "subject_loop (Suc fuel) lib x cnid equal chk i =
     (let i' = X509_NAME_get_index_by_NID lib x cnid i
      in if i' < 0 then Some (Inr (0, None))
         else case do_check_string lib (X509_NAME_ENTRY_get_data lib x i') (-1) equal chk of
             Inl e \<Rightarrow> Some (Inl e)
           | Inr (rv, peer) \<Rightarrow> if rv \<noteq> 0 then Some (Inr (rv, peer))
                               else subject_loop fuel lib x cnid equal chk i')"

text \<open>\<^verbatim>\<open>strlen\<close> and \<^verbatim>\<open>memchr(p, 0, n) != NULL\<close> on a buffer: both stop at the first zero byte.\<close>

definition strlen :: "bytes \<Rightarrow> fault + nat" where
  "strlen p = (if 0 \<in> set p then Inr (length (takeWhile (\<lambda>c. c \<noteq> 0) p)) else Inl OutOfBounds)"

definition memchr0 :: "bytes \<Rightarrow> nat \<Rightarrow> fault + bool" where
  "memchr0 p n =
     (if 0 \<in> set (take n p) then Inr True else if length p < n then Inl OutOfBounds else Inr False)"

definition equal_of :: "check_kind \<Rightarrow> u32 \<Rightarrow> bytes \<Rightarrow> bytes \<Rightarrow> fault + bool" where
  "equal_of k flags p s =
     (case k of
        GEN_EMAIL \<Rightarrow> Inr (equal_email flags p s)
      | GEN_DNS \<Rightarrow> if has_flag flags X509_CHECK_FLAG_NO_WILDCARDS then Inr (equal_nocase flags p s)
                    else equal_wildcard flags p s
      | GEN_IPADD \<Rightarrow> Inr (equal_case flags p s))"

text \<open>\<^verbatim>\<open>do_x509_check\<close> on the buffer \<open>buf\<close> of which the first \<open>chklen\<close> bytes are the reference.\<close>

definition do_x509_check ::
  "nat \<Rightarrow> 'x X509Lib \<Rightarrow> 'x \<Rightarrow> bytes \<Rightarrow> nat \<Rightarrow> u32 \<Rightarrow> check_kind
   \<Rightarrow> (fault + int \<times> bytes option option) option" where
  "do_x509_check fuel lib x buf chklen flags k =
     (let flags = flags AND NOT X509_CHECK_FLAG_DOT_SUBDOMAINS;
          cnid = (case k of GEN_EMAIL \<Rightarrow> NID_pkcs9_emailAddress | GEN_DNS \<Rightarrow> NID_commonName
                          | GEN_IPADD \<Rightarrow> NID_undef);
          alt_type = (case k of GEN_IPADD \<Rightarrow> V_ASN1_OCTET_STRING | _ \<Rightarrow> V_ASN1_IA5STRING);
          flags = (if k = GEN_DNS \<and> chklen > 1 \<and> buf ! 0 = DOT
                   then flags OR X509_CHECK_FLAG_DOT_SUBDOMAINS else flags)
      in case (if chklen = 0 then strlen buf else Inr chklen) of
           Inl e \<Rightarrow> Some (Inl e)
         | Inr n \<Rightarrow>
             let chk = take n buf;
                 sans = (case X509_get_ext_d2i lib x of
                           None \<Rightarrow> Inr (False, 0, None)
                         | Some gens \<Rightarrow> san_loop lib k alt_type (equal_of k flags) chk gens False)
             in case sans of
                  Inl e \<Rightarrow> Some (Inl e)
                | Inr (san_present, rv, peer) \<Rightarrow>
                    if rv \<noteq> 0 then Some (Inr (rv, peer))
                    else if san_present \<and> \<not> has_flag flags X509_CHECK_FLAG_ALWAYS_CHECK_SUBJECT
                    then Some (Inr (0, None))
                    else if cnid = NID_undef \<or> has_flag flags X509_CHECK_FLAG_NEVER_CHECK_SUBJECT
                    then Some (Inr (0, None))
                    else subject_loop fuel lib x cnid (equal_of k flags) chk (-1))"

definition X509_check_host ::
  "nat \<Rightarrow> 'x X509Lib \<Rightarrow> 'x \<Rightarrow> bytes option \<Rightarrow> nat \<Rightarrow> u32
   \<Rightarrow> (fault + int \<times> bytes option option) option" where
  "X509_check_host fuel lib x chk chklen flags =
     (case chk of
        None \<Rightarrow> Some (Inr (-2, None))
      | Some buf \<Rightarrow>
          let checked =
            (if chklen = 0 then map_sum id (\<lambda>n. (n, False)) (strlen buf)
             else map_sum id (\<lambda>nul. (chklen, nul))
                    (memchr0 buf (if chklen > 1 then chklen - 1 else chklen)))
          in case checked of
               Inl e \<Rightarrow> Some (Inl e)
             | Inr (n, nul) \<Rightarrow>
                 if nul then Some (Inr (-2, None))
                 else if length buf < n then Some (Inl OutOfBounds)
                 else let n = (if n > 1 \<and> buf ! (n - 1) = 0 then n - 1 else n)
                      in do_x509_check fuel lib x buf n flags GEN_DNS)"

section \<open>Theorems on wildcards\<close>

lemma fold_case_dot: "fold_case c = DOT \<longleftrightarrow> c = DOT"
proof -
  have "c - 65 + 97 \<noteq> DOT" if "65 \<le> c" "c \<le> 90"
  proof
    assume "c - 65 + 97 = DOT"
    then have "c = DOT - 97 + 65" by (simp add: algebra_simps)
    then have "c = 14" by simp
    with that show False by simp
  qed
  then show ?thesis by (auto simp: fold_case_def)
qed

lemma fold_case_zero: "fold_case c = 0 \<longleftrightarrow> c = 0"
proof -
  have "c - 65 + 97 \<noteq> 0" if "65 \<le> c" "c \<le> 90"
  proof
    assume "c - 65 + 97 = 0"
    then have "c + 32 = 0" by (simp add: algebra_simps)
    then have "c = - 32" by (simp add: eq_neg_iff_add_eq_0)
    then have "c = 224" by simp
    with that show False by simp
  qed
  then show ?thesis by (auto simp: fold_case_def)
qed

lemma zero_fold: "0 \<in> set p \<longleftrightarrow> 0 \<in> set (map fold_case p)"
  by (induction p) (simp_all add: fold_case_zero eq_commute [of "0 :: byte" "fold_case _"])

lemma count_dots_fold: "count_list (map fold_case p) DOT = count_list p DOT"
  by (induction p) (auto simp: fold_case_dot)

text \<open>
  C7: wildcards are label-wise.  A pattern \<open>*.rest\<close> that the code accepts as a wildcard
  pattern matches exactly the host names that put one non-empty label of letters, digits and
  hyphens (or a literal star) in front of \<open>.rest\<close>, compared without case; no other name, of
  whatever length or content, is accepted and no memory outside the two names is read.
\<close>

theorem wildcard_exact:
  assumes pat: "valid_star flags (STAR # DOT # rest) = Some 0"
    and flags: "\<not> has_flag flags X509_CHECK_FLAG_DOT_SUBDOMAINS"
      "\<not> has_flag flags X509_CHECK_FLAG_MULTI_LABEL_WILDCARDS"
  shows "equal_wildcard flags (STAR # DOT # rest) subject =
    Inr (\<exists>w r. subject = w @ DOT # r \<and> map fold_case r = map fold_case rest
           \<and> w \<noteq> [] \<and> (w = [STAR] \<or> (\<forall>c \<in> set w. label_char c)))"
proof -
  define Q where "Q w r \<longleftrightarrow> subject = w @ DOT # r \<and> map fold_case r = map fold_case rest
           \<and> w \<noteq> [] \<and> (w = [STAR] \<or> (\<forall>c \<in> set w. label_char c))" for w r
  have "0 \<notin> set (DOT # rest)"
    by (rule valid_star_shape [OF pat]) (auto simp: label_char_def is_lower_def is_upper_def is_digit_def)
  then have z: "0 \<notin> set r" if "map fold_case r = map fold_case (DOT # rest)" for r
    using that zero_fold by metis
  have multi: "wildcard_char False c = label_char c" for c
    by (auto simp: wildcard_char_def label_char_def)
  have dot: "map fold_case r = map fold_case (DOT # rest) \<longleftrightarrow>
      (\<exists>r'. r = DOT # r' \<and> map fold_case r' = map fold_case rest)" for r
    by (cases r) (auto simp: fold_case_dot fold_case_def)
  have len: "map fold_case r = map fold_case s \<Longrightarrow> length r = length s" for r s
    by (rule map_eq_lengthD)
  have "wildcard_match flags [] (DOT # rest) subject = Inr (\<exists>w r. Q w r)"
    unfolding wildcard_match_iff [OF list.distinct(2)] Q_def sum.inject
  proof (rule iffI, goal_cases)
    case 1
    then obtain l w r where lwr: "subject = l @ w @ r" "length l = length ([] :: bytes)"
      "map fold_case r = map fold_case (DOT # rest)"
      "[] = ([] :: bytes) \<and> hd (DOT # rest) = DOT \<longrightarrow> w \<noteq> []"
      "w = [STAR] \<or> list_all (wildcard_char ([] = ([] :: bytes) \<and> hd (DOT # rest) = DOT
         \<and> has_flag flags X509_CHECK_FLAG_MULTI_LABEL_WILDCARDS)) w"
      by (elim exE conjE)
    then have "subject = w @ r" "w \<noteq> []" "w = [STAR] \<or> list_all (wildcard_char False) w"
      using flags(2) by simp_all
    with lwr(3) show ?case using dot multi by (auto simp: list_all_iff)
  next
    case 2
    then obtain w r where w: "subject = w @ DOT # r" "map fold_case r = map fold_case rest"
      "w \<noteq> []" "w = [STAR] \<or> (\<forall>c \<in> set w. label_char c)" by blast
    have "map fold_case (DOT # r) = map fold_case (DOT # rest)" using w(2) by simp
    then show ?case
      using w z [of "DOT # r"] flags(2) multi len [OF w(2)]
      by (intro exI [of _ "[]"] exI [of _ w] exI [of _ "DOT # r"]) (auto simp: list_all_iff)
  qed
  moreover have "\<not> Q w r" if "hd subject = DOT" for w r
    using that by (cases w) (auto simp: Q_def)
  moreover have "\<not> equal_nocase flags (STAR # DOT # rest) subject" if "hd subject = DOT"
    using that equal_nocase_plain [OF flags(1)]
    by (cases subject) (auto simp: fold_case_def)
  ultimately show ?thesis
    using pat unfolding equal_wildcard_def Q_def by auto
qed

theorem wildcard_exact_witness:
  "equal_wildcard 0 (str ''*.example.com'') (str ''WWW.Example.com'') = Inr True \<and>
   equal_wildcard 0 (str ''*.example.com'') (str ''a.b.example.com'') = Inr False"
proof -
  have s: "str ''*.example.com'' = STAR # DOT # str ''example.com''" by (simp add: str_def)
  have v: "valid_star 0 (STAR # DOT # str ''example.com'') = Some 0" by code_simp
  have f: "\<not> has_flag 0 X509_CHECK_FLAG_DOT_SUBDOMAINS" "\<not> has_flag 0 X509_CHECK_FLAG_MULTI_LABEL_WILDCARDS"
    by (simp_all add: flag_defs)
  note eq = wildcard_exact [OF v f]
  have "\<exists>w r. str ''WWW.Example.com'' = w @ DOT # r \<and> map fold_case r = map fold_case (str ''example.com'')
           \<and> w \<noteq> [] \<and> (w = [STAR] \<or> (\<forall>c \<in> set w. label_char c))"
    by (rule exI [of _ "str ''WWW''"], rule exI [of _ "str ''Example.com''"]) code_simp
  moreover have "equal_wildcard 0 (STAR # DOT # str ''example.com'') (str ''a.b.example.com'') = Inr False"
    by code_simp
  ultimately show ?thesis unfolding s using eq by simp
qed

section \<open>Theorems on certificates\<close>

definition name_matches :: "u32 \<Rightarrow> bytes \<Rightarrow> bytes \<Rightarrow> bool" where
  "name_matches flags name host \<longleftrightarrow>
     (\<exists>pre suf. name = pre @ suf \<and> map fold_case suf = map fold_case host
        \<and> (pre \<noteq> [] \<longrightarrow> 1 < length host \<and> hd host = DOT))
     \<or> (\<not> has_flag flags X509_CHECK_FLAG_NO_WILDCARDS \<and> wildcard_spec flags name host)"

text \<open>
  The names of a certificate that a host name may match: its DNS alternative names, and the
  entries of its subject that OpenSSL finds under the attribute of common names.
\<close>

inductive host_name :: "'x X509Lib \<Rightarrow> 'x \<Rightarrow> u32 \<Rightarrow> bytes \<Rightarrow> bool" for lib x flags where
  san: "X509_get_ext_d2i lib x = Some gens \<Longrightarrow> dNSName s \<in> set gens \<Longrightarrow> data s = Some name \<Longrightarrow>
        asn1_type s = V_ASN1_IA5STRING \<Longrightarrow> host_name lib x flags name"
| cn: "\<forall>gens s. X509_get_ext_d2i lib x = Some gens \<longrightarrow> dNSName s \<in> set gens
          \<longrightarrow> has_flag flags X509_CHECK_FLAG_ALWAYS_CHECK_SUBJECT \<Longrightarrow>
       \<not> has_flag flags X509_CHECK_FLAG_NEVER_CHECK_SUBJECT \<Longrightarrow>
       X509_NAME_get_index_by_NID lib x NID_commonName before = i \<Longrightarrow> 0 \<le> i \<Longrightarrow>
       ASN1_STRING_to_UTF8 lib (X509_NAME_ENTRY_get_data lib x i) = Some name \<Longrightarrow>
       host_name lib x flags name"

text \<open>The contract of \<^verbatim>\<open>X509_NAME_get_index_by_NID\<close>: indices grow and stay below the entry count.\<close>

definition index_contract :: "'x X509Lib \<Rightarrow> 'x \<Rightarrow> nat \<Rightarrow> bool" where
  "index_contract lib x n \<longleftrightarrow>
     (\<forall>nid i. X509_NAME_get_index_by_NID lib x nid i < 0
        \<or> (i < X509_NAME_get_index_by_NID lib x nid i \<and> X509_NAME_get_index_by_NID lib x nid i < int n))"

lemma do_check_string_IA5:
  assumes "do_check_string lib a V_ASN1_IA5STRING eq b = Inr (rv, peer)" "rv \<noteq> 0"
  obtains d where "rv = 1" "data a = Some d" "asn1_type a = V_ASN1_IA5STRING" "eq d b = Inr True"
    "peer = Some (CRYPTO_strndup lib (Some d) (length d))"
  using assms
  by (auto simp: do_check_string_def bindE_Inr_iff V_ASN1_IA5STRING_def split: option.splits if_splits)

lemma do_check_string_any:
  assumes "do_check_string lib a (-1) eq b = Inr (rv, peer)" "rv \<noteq> 0"
  obtains "rv = -1" | d where "rv = 1" "ASN1_STRING_to_UTF8 lib a = Some d" "eq d b = Inr True"
    "peer = Some (CRYPTO_strndup lib (Some d) (length d))"
  using assms
  by (auto simp: do_check_string_def bindE_Inr_iff split: option.splits if_splits)

lemma do_check_string_total:
  assumes "\<And>d. \<exists>r. eq d b = Inr r" "t = V_ASN1_IA5STRING \<or> t = -1"
  obtains rv peer where "do_check_string lib a t eq b = Inr (rv, peer)" "rv \<in> {-1, 0, 1}"
proof (cases "data a")
  case None
  then show thesis using that by (simp add: do_check_string_def)
next
  case (Some d)
  obtain r where r: "eq d b = Inr r" using assms(1) by blast
  show thesis
  proof (cases "ASN1_STRING_to_UTF8 lib a")
    case None
    then show thesis using that assms(2) Some r
      by (cases "d = []"; cases "t = V_ASN1_IA5STRING"; cases r; cases "t = asn1_type a")
         (auto simp: do_check_string_def V_ASN1_IA5STRING_def)
  next
    case (Some d')
    obtain r' where r': "eq d' b = Inr r'" using assms(1) by blast
    show thesis using that assms(2) \<open>data a = Some d\<close> Some r r'
      by (cases "d = []"; cases "t = V_ASN1_IA5STRING"; cases r; cases r'; cases "t = asn1_type a")
         (auto simp: do_check_string_def V_ASN1_IA5STRING_def)
  qed
qed

definition san_hit ::
  "'x X509Lib \<Rightarrow> (bytes \<Rightarrow> bytes \<Rightarrow> fault + bool) \<Rightarrow> bytes \<Rightarrow> GENERAL_NAME list \<Rightarrow> bytes option option \<Rightarrow> bool" where
  "san_hit lib eq b gens peer \<longleftrightarrow>
     (\<exists>s d. dNSName s \<in> set gens \<and> data s = Some d \<and> asn1_type s = V_ASN1_IA5STRING
        \<and> eq d b = Inr True \<and> peer = Some (CRYPTO_strndup lib (Some d) (length d)))"

lemma san_hit_Cons: "san_hit lib eq b gens peer \<Longrightarrow> san_hit lib eq b (g # gens) peer"
  by (fastforce simp: san_hit_def)

lemma san_loop_result:
  assumes "\<And>d. \<exists>r. eq d b = Inr r"
  shows "\<exists>p rv peer. san_loop lib GEN_DNS V_ASN1_IA5STRING eq b gens present = Inr (p, rv, peer)
     \<and> p = (present \<or> (\<exists>s. dNSName s \<in> set gens)) \<and> rv \<in> {0, 1, -1}
     \<and> (rv \<noteq> 0 \<longrightarrow> rv = 1 \<and> san_hit lib eq b gens peer)"
proof (induction gens arbitrary: present)
  case (Cons g gens)
  show ?case
  proof (cases "name_of_kind GEN_DNS g")
    case None
    obtain p rv peer where IH: "san_loop lib GEN_DNS V_ASN1_IA5STRING eq b gens present = Inr (p, rv, peer)"
      "p = (present \<or> (\<exists>s. dNSName s \<in> set gens))" "rv \<in> {0, 1, -1}"
      "rv \<noteq> 0 \<longrightarrow> rv = 1 \<and> san_hit lib eq b gens peer"
      using Cons.IH [of present] by blast
    show ?thesis
      using None IH(1,3,4) unfolding IH(2)
      by (cases g) (auto intro: san_hit_Cons)
  next
    case (Some s)
    then have g: "g = dNSName s" by (cases g) auto
    obtain rv peer where c: "do_check_string lib s V_ASN1_IA5STRING eq b = Inr (rv, peer)"
      by (rule do_check_string_total [of eq b V_ASN1_IA5STRING lib s, OF assms]) auto
    show ?thesis
    proof (cases "rv = 0")
      case True
      then show ?thesis using Cons.IH [of True] c g by (auto intro: san_hit_Cons)
    next
      case False
      have "rv = 1 \<and> san_hit lib eq b (g # gens) peer"
        by (rule do_check_string_IA5 [OF c False]) (auto simp: san_hit_def g)
      then show ?thesis using c g False by auto
    qed
  qed
qed simp

lemma subject_loop_result:
  assumes "\<And>d. \<exists>r. eq d b = Inr r" "index_contract lib x n" "-1 \<le> i" "int n - i < int fuel" "0 < fuel"
  shows "\<exists>rv peer. subject_loop fuel lib x nid eq b i = Some (Inr (rv, peer)) \<and> rv \<in> {0, 1, -1}
     \<and> (rv = 1 \<longrightarrow> (\<exists>j d. 0 \<le> j \<and> ASN1_STRING_to_UTF8 lib (X509_NAME_ENTRY_get_data lib x j) = Some d
           \<and> eq d b = Inr True \<and> peer = Some (CRYPTO_strndup lib (Some d) (length d))))"
  using assms(3-5)
proof (induction fuel arbitrary: i)
  case (Suc fuel)
  define j where "j = X509_NAME_get_index_by_NID lib x nid i"
  show ?case
  proof (cases "j < 0")
    case True
    then show ?thesis by (simp add: j_def)
  next
    case False
    then have j: "i < j" "j < int n"
      using assms(2) unfolding index_contract_def j_def by (meson)+
    obtain rv peer where c: "do_check_string lib (X509_NAME_ENTRY_get_data lib x j) (-1) eq b = Inr (rv, peer)"
      by (rule do_check_string_total [of eq b "-1" lib "X509_NAME_ENTRY_get_data lib x j", OF assms(1)]) auto
    show ?thesis
    proof (cases "rv = 0")
      case True
      have "subject_loop (Suc fuel) lib x nid eq b i = subject_loop fuel lib x nid eq b j"
        using False True c by (simp add: Let_def j_def)
      then show ?thesis using Suc.IH [of j] j False Suc.prems by simp
    next
      case rv: False
      have s: "subject_loop (Suc fuel) lib x nid eq b i = Some (Inr (rv, peer))"
        using False rv c by (simp add: Let_def j_def)
      show ?thesis
      proof (rule do_check_string_any [OF c rv], goal_cases)
        case 1
        then show ?case unfolding s by simp
      next
        case (2 d)
        moreover have "0 \<le> j" using False by simp
        ultimately show ?case
          by (intro exI [of _ rv] exI [of _ peer] conjI s impI exI [of _ j] exI [of _ d]) simp_all
      qed
    qed
  qed
qed simp

definition host_of :: "bytes \<Rightarrow> nat \<Rightarrow> bytes" where
  "host_of buf n = takeWhile (\<lambda>c. c \<noteq> 0) (if n = 0 then buf else take n buf)"

definition dns_flags :: "u32 \<Rightarrow> bytes \<Rightarrow> u32" where
  "dns_flags flags host =
     (let flags = flags AND NOT X509_CHECK_FLAG_DOT_SUBDOMAINS
      in if length host > 1 \<and> hd host = DOT then flags OR X509_CHECK_FLAG_DOT_SUBDOMAINS else flags)"

lemma dns_flags_dot:
  "has_flag (dns_flags flags host) X509_CHECK_FLAG_DOT_SUBDOMAINS \<longleftrightarrow> length host > 1 \<and> hd host = DOT"
proof -
  let ?D = "X509_CHECK_FLAG_DOT_SUBDOMAINS"
  have "(flags AND NOT ?D) AND ?D = 0" "(flags AND NOT ?D OR ?D) AND ?D = ?D"
    by (rule bit_word_eqI; auto simp: bit_and_iff bit_not_iff bit_or_iff)+
  moreover have "?D \<noteq> 0" by (simp add: X509_CHECK_FLAG_DOT_SUBDOMAINS_def)
  ultimately show ?thesis by (simp add: dns_flags_def has_flag_def Let_def)
qed

lemma has_flag_dns:
  assumes "f AND X509_CHECK_FLAG_DOT_SUBDOMAINS = 0"
  shows "has_flag (dns_flags flags host) f = has_flag flags f"
proof -
  have "(flags AND NOT X509_CHECK_FLAG_DOT_SUBDOMAINS) AND f = flags AND f" (is ?a)
    "(flags AND NOT X509_CHECK_FLAG_DOT_SUBDOMAINS OR X509_CHECK_FLAG_DOT_SUBDOMAINS) AND f = flags AND f" (is ?b)
  proof -
    have no: "\<not> (bit f k \<and> bit X509_CHECK_FLAG_DOT_SUBDOMAINS k)" for k
      using arg_cong [OF assms, of "\<lambda>w. bit w k"] by (simp add: bit_and_iff)
    show ?a by (rule bit_word_eqI) (use no in \<open>auto simp: bit_and_iff bit_not_iff\<close>)
    show ?b by (rule bit_word_eqI) (use no in \<open>auto simp: bit_and_iff bit_not_iff bit_or_iff\<close>)
  qed
  then show ?thesis by (simp add: has_flag_def dns_flags_def Let_def)
qed

lemma has_flag_dns_simps [simp]:
  "has_flag (dns_flags flags host) X509_CHECK_FLAG_ALWAYS_CHECK_SUBJECT
     = has_flag flags X509_CHECK_FLAG_ALWAYS_CHECK_SUBJECT"
  "has_flag (dns_flags flags host) X509_CHECK_FLAG_NEVER_CHECK_SUBJECT
     = has_flag flags X509_CHECK_FLAG_NEVER_CHECK_SUBJECT"
  "has_flag (dns_flags flags host) X509_CHECK_FLAG_NO_WILDCARDS
     = has_flag flags X509_CHECK_FLAG_NO_WILDCARDS"
  "has_flag (dns_flags flags host) X509_CHECK_FLAG_MULTI_LABEL_WILDCARDS
     = has_flag flags X509_CHECK_FLAG_MULTI_LABEL_WILDCARDS"
  by (rule has_flag_dns; simp add: flag_defs)+

lemma equal_nocase_dns:
  assumes "equal_nocase (dns_flags flags host) name host"
  shows "\<exists>pre suf. name = pre @ suf \<and> map fold_case suf = map fold_case host
        \<and> (pre \<noteq> [] \<longrightarrow> 1 < length host \<and> hd host = DOT)"
proof (cases "length host > 1 \<and> hd host = DOT")
  case True
  then show ?thesis by (rule_tac equal_nocase_suffix [OF assms]) auto
next
  case False
  then have "map fold_case name = map fold_case host"
    using assms equal_nocase_plain [of "dns_flags flags host" name host] dns_flags_dot by simp
  then show ?thesis by (intro exI [of _ "[]"] exI [of _ name]) simp
qed

lemma equal_of_dns:
  assumes "equal_of GEN_DNS (dns_flags flags host) name host = Inr True"
  shows "name_matches flags name host"
proof (cases "has_flag flags X509_CHECK_FLAG_NO_WILDCARDS")
  case True
  then show ?thesis
    using assms equal_nocase_dns by (simp add: equal_of_def name_matches_def)
next
  case False
  then have "equal_wildcard (dns_flags flags host) name host = Inr True"
    using assms by (simp add: equal_of_def)
  from equal_wildcard_spec [OF this] show ?thesis
  proof
    assume "equal_nocase (dns_flags flags host) name host"
    then show ?thesis unfolding name_matches_def using equal_nocase_dns by blast
  next
    assume "wildcard_spec (dns_flags flags host) name host"
    then have "wildcard_spec flags name host" by (simp add: wildcard_spec_def)
    with False show ?thesis by (simp add: name_matches_def)
  qed
qed

lemma equal_of_total: "\<exists>b. equal_of k flags p s = Inr b"
  using equal_wildcard_total by (cases k) (auto simp: equal_of_def)

lemma takeWhile_take_last:
  assumes "0 \<notin> set (take (n - 1) buf)" "n \<le> length buf" "buf ! (n - 1) = (0 :: byte)" "0 < n"
  shows "takeWhile (\<lambda>c. c \<noteq> 0) (take n buf) = take (n - 1) buf"
proof -
  have "take n buf = take (n - 1) buf @ [0]"
    using assms by (metis Suc_diff_1 Suc_le_lessD take_Suc_conv_app_nth)
  moreover have "takeWhile (\<lambda>c. c \<noteq> 0) (take (n - 1) buf) = take (n - 1) buf"
    using assms(1) by (auto simp: takeWhile_eq_all_conv)
  ultimately show ?thesis by (simp add: takeWhile_append)
qed

text \<open>
  The call that \<^verbatim>\<open>X509_check_host\<close> ends in, with the reference name cut out of the buffer.
\<close>

definition check_dns ::
  "nat \<Rightarrow> 'x X509Lib \<Rightarrow> 'x \<Rightarrow> bytes \<Rightarrow> u32 \<Rightarrow> (fault + int \<times> bytes option option) option" where
  "check_dns fuel lib x host flags =
     (let eq = equal_of GEN_DNS (dns_flags flags host);
          sans = (case X509_get_ext_d2i lib x of
                    None \<Rightarrow> Inr (False, 0, None)
                  | Some gens \<Rightarrow> san_loop lib GEN_DNS V_ASN1_IA5STRING eq host gens False)
      in case sans of
           Inl e \<Rightarrow> Some (Inl e)
         | Inr (san_present, rv, peer) \<Rightarrow>
             if rv \<noteq> 0 then Some (Inr (rv, peer))
             else if san_present \<and> \<not> has_flag flags X509_CHECK_FLAG_ALWAYS_CHECK_SUBJECT
             then Some (Inr (0, None))
             else if has_flag flags X509_CHECK_FLAG_NEVER_CHECK_SUBJECT then Some (Inr (0, None))
             else subject_loop fuel lib x NID_commonName eq host (-1))"

lemma do_x509_check_dns:
  assumes "n \<le> length buf" "n = 0 \<Longrightarrow> buf \<noteq> [] \<and> hd buf = 0" 
  shows "do_x509_check fuel lib x buf n flags GEN_DNS = check_dns fuel lib x (take n buf) flags"
proof -
  have len: "(if n = 0 then strlen buf else Inr n) = Inr n"
    using assms(2) by (cases buf) (auto simp: strlen_def)
  have fl: "(if GEN_DNS = GEN_DNS \<and> n > 1 \<and> buf ! 0 = DOT
             then (flags AND NOT X509_CHECK_FLAG_DOT_SUBDOMAINS) OR X509_CHECK_FLAG_DOT_SUBDOMAINS
             else flags AND NOT X509_CHECK_FLAG_DOT_SUBDOMAINS) = dns_flags flags (take n buf)"
    using assms(1) by (cases buf) (auto simp: dns_flags_def Let_def min_def take_Cons')
  show ?thesis
    unfolding do_x509_check_def check_dns_def Let_def check_kind.case len fl sum.case
      has_flag_dns_simps
    by (simp add: NID_commonName_def NID_undef_def cong: if_cong)
qed

definition embedded_nul :: "bytes \<Rightarrow> nat \<Rightarrow> bool" where
  "embedded_nul buf n \<longleftrightarrow> n \<noteq> 0 \<and> 0 \<in> set (take (if n > 1 then n - 1 else n) buf)"

lemma takeWhile_short: "0 \<in> set (buf :: bytes) \<Longrightarrow> length (takeWhile (\<lambda>c. c \<noteq> 0) buf) < length buf"
  by (induction buf) auto

lemma X509_check_host_dns:
  assumes "if n = 0 then 0 \<in> set buf else n \<le> length buf"
    and "\<not> embedded_nul buf n"
  shows "X509_check_host fuel lib x (Some buf) n flags = check_dns fuel lib x (host_of buf n) flags"
  using assms unfolding embedded_nul_def
proof (cases "n = 0")
  case True
  define m where "m = length (takeWhile (\<lambda>c. c \<noteq> 0) buf)"
  have m: "m < length buf" "buf ! m = 0"
    using assms(1) True takeWhile_short nth_length_takeWhile unfolding m_def by auto
  have "buf ! (m - 1) \<noteq> 0" if "m > 1"
  proof -
    have m1: "m - 1 < length (takeWhile (\<lambda>c. c \<noteq> 0) buf)" using that by (simp add: m_def)
    then have "takeWhile (\<lambda>c. c \<noteq> 0) buf ! (m - 1) \<noteq> 0"
      using set_takeWhileD [OF nth_mem [OF m1]] by simp
    then show ?thesis using takeWhile_nth [OF m1] by simp
  qed
  moreover have "strlen buf = Inr m" using assms(1) True by (simp add: strlen_def m_def)
  moreover have "take m buf = takeWhile (\<lambda>c. c \<noteq> 0) buf" unfolding m_def by (rule takeWhile_eq_take [symmetric])
  moreover have "buf \<noteq> [] \<and> hd buf = 0" if "m = 0" using m that by (cases buf) auto
  ultimately show ?thesis
    using True m do_x509_check_dns [of m buf fuel lib x flags]
    by (auto simp: X509_check_host_def host_of_def)
next
  case False
  have nul: "memchr0 buf (if n > 1 then n - 1 else n) = Inr False"
    using assms False by (auto simp: memchr0_def embedded_nul_def)
  show ?thesis
  proof (cases "n > 1 \<and> buf ! (n - 1) = 0")
    case True
    then have "host_of buf n = take (n - 1) buf"
      using assms by (simp add: host_of_def takeWhile_take_last embedded_nul_def)
    then show ?thesis
      using True nul assms(1) do_x509_check_dns [of "n - 1" buf fuel lib x flags]
      by (simp add: X509_check_host_def)
  next
    case no: False
    have "0 \<notin> set (take n buf)"
    proof (cases "n > 1")
      case True
      have "take n buf = take (n - 1) buf @ [buf ! (n - 1)]"
        using assms(1) False by (metis Suc_diff_1 Suc_le_lessD take_Suc_conv_app_nth not_gr0)
      then show ?thesis using assms(2) True False no by (auto simp: embedded_nul_def)
    qed (use assms(2) False in \<open>simp add: embedded_nul_def\<close>)
    then have "host_of buf n = take n buf"
      using False by (auto simp: host_of_def takeWhile_eq_all_conv)
    then show ?thesis
      using no nul assms(1) False do_x509_check_dns [of n buf fuel lib x flags]
      by (auto simp: X509_check_host_def)
  qed
qed



lemma san_part:
  fixes flags :: u32
  defines "eq host \<equiv> equal_of GEN_DNS (dns_flags flags host)"
  obtains (hit) gens peer where "X509_get_ext_d2i lib x = Some gens" "san_hit lib (eq host) host gens peer"
      "check_dns fuel lib x host flags = Some (Inr (1, peer))"
  | (hidden) "check_dns fuel lib x host flags = Some (Inr (0, None))"
  | (subject) "\<forall>gens s. X509_get_ext_d2i lib x = Some gens \<longrightarrow> dNSName s \<in> set gens
          \<longrightarrow> has_flag flags X509_CHECK_FLAG_ALWAYS_CHECK_SUBJECT"
      "\<not> has_flag flags X509_CHECK_FLAG_NEVER_CHECK_SUBJECT"
      "check_dns fuel lib x host flags = subject_loop fuel lib x NID_commonName (eq host) host (-1)"
proof (cases "X509_get_ext_d2i lib x")
  case None
  then show thesis
    using hidden subject
    by (cases "has_flag flags X509_CHECK_FLAG_NEVER_CHECK_SUBJECT")
       (auto simp: check_dns_def Let_def eq_def)
next
  case (Some gens)
  obtain rv peer where s: "san_loop lib GEN_DNS V_ASN1_IA5STRING (eq host) host gens False
      = Inr (\<exists>s. dNSName s \<in> set gens, rv, peer)" "rv \<noteq> 0 \<longrightarrow> rv = 1 \<and> san_hit lib (eq host) host gens peer"
    using san_loop_result [of "eq host" host lib gens False, unfolded eq_def, OF equal_of_total]
    unfolding eq_def by auto
  show thesis
  proof (cases "rv = 0")
    case False
    then show thesis using hit [OF Some, of peer] s Some by (auto simp: check_dns_def Let_def eq_def)
  next
    case True
    show thesis
    proof (cases "(\<exists>s. dNSName s \<in> set gens) \<and> \<not> has_flag flags X509_CHECK_FLAG_ALWAYS_CHECK_SUBJECT
        \<or> has_flag flags X509_CHECK_FLAG_NEVER_CHECK_SUBJECT")
      case True
      then have "check_dns fuel lib x host flags = Some (Inr (0, None))"
        using s(1) Some \<open>rv = 0\<close> by (auto simp: check_dns_def Let_def eq_def)
      then show thesis by (rule hidden)
    next
      case False
      then have "check_dns fuel lib x host flags = subject_loop fuel lib x NID_commonName (eq host) host (-1)"
        using s(1) Some \<open>rv = 0\<close> by (auto simp: check_dns_def Let_def eq_def)
      then show thesis using subject False Some by auto
    qed
  qed
qed

lemma subject_loop_hit:
  assumes "\<And>d. \<exists>r. eq d b = Inr r" "subject_loop fuel lib x nid eq b i = Some (Inr (1, peer))"
  shows "\<exists>before j d. X509_NAME_get_index_by_NID lib x nid before = j \<and> 0 \<le> j
           \<and> ASN1_STRING_to_UTF8 lib (X509_NAME_ENTRY_get_data lib x j) = Some d
           \<and> eq d b = Inr True \<and> peer = Some (CRYPTO_strndup lib (Some d) (length d))"
  using assms(2)
proof (induction fuel arbitrary: i)
  case (Suc fuel)
  define j where "j = X509_NAME_get_index_by_NID lib x nid i"
  obtain rv p where c: "do_check_string lib (X509_NAME_ENTRY_get_data lib x j) (-1) eq b = Inr (rv, p)"
    by (rule do_check_string_total [of eq b "-1" lib "X509_NAME_ENTRY_get_data lib x j", OF assms(1)]) auto
  show ?case
  proof (cases "j < 0")
    case True
    then show ?thesis using Suc.prems by (simp add: j_def)
  next
    case False
    show ?thesis
    proof (cases "rv = 0")
      case True
      then show ?thesis using Suc False c by (simp add: Let_def j_def)
    next
      case rv: False
      then have "rv = 1" "p = peer" using Suc.prems False c by (simp_all add: Let_def j_def)
      then show ?thesis using do_check_string_any [OF c rv] False j_def
        by (metis numeral_One one_neq_neg_numeral not_less)
    qed
  qed
qed simp

text \<open>
  C5: no host name is accepted that the certificate does not carry.  When the check succeeds,
  some name of the certificate matches the reference name (equal without case, a subdomain
  when the reference starts with a dot, or a wildcard that covers part of one label), and
  that name is the one handed back as \<^verbatim>\<open>*peername\<close>.  Of the subject only the common names count,
  only when there is no DNS alternative name or the caller asked for it, and never under
  \<^verbatim>\<open>X509_CHECK_FLAG_NEVER_CHECK_SUBJECT\<close>.
\<close>

theorem host_accepted:
  assumes "X509_check_host fuel lib x (Some buf) n flags = Some (Inr (1, peer))"
    and "if n = 0 then 0 \<in> set buf else n \<le> length buf"
  shows "\<exists>name. host_name lib x flags name \<and> name_matches flags name (host_of buf n)
           \<and> peer = Some (CRYPTO_strndup lib (Some name) (length name))"
proof -
  let ?host = "host_of buf n"
  let ?eq = "equal_of GEN_DNS (dns_flags flags ?host)"
  have "\<not> embedded_nul buf n"
    using assms(1) by (auto simp: X509_check_host_def memchr0_def embedded_nul_def split: if_splits)
  then have c: "check_dns fuel lib x ?host flags = Some (Inr (1, peer))"
    using X509_check_host_dns [OF assms(2), of fuel lib x flags] assms(1) by simp
  show ?thesis
  proof (rule san_part [of lib x flags ?host fuel], goal_cases)
    case (1 gens p)
    then obtain s d where "dNSName s \<in> set gens" "data s = Some d" "asn1_type s = V_ASN1_IA5STRING"
      "?eq d ?host = Inr True" "p = Some (CRYPTO_strndup lib (Some d) (length d))"
      unfolding san_hit_def by blast
    moreover have "p = peer" using 1(3) c by simp
    ultimately show ?case
      using host_name.san [OF 1(1)] equal_of_dns by blast
  next
    case 2
    then show ?case using c by simp
  next
    case 3
    then have "subject_loop fuel lib x NID_commonName ?eq ?host (-1) = Some (Inr (1, peer))"
      using c by simp
    from subject_loop_hit [OF equal_of_total this] show ?case
      using host_name.cn [OF 3(1,2) refl] equal_of_dns by blast
  qed
qed

text \<open>
  C6: the check always answers: 1 (match), 0 (no match), -1 (a name that cannot be decoded) or
  -2 (a null or NUL-carrying reference name), without reading outside the reference buffer,
  whatever the certificate holds; a zero byte inside the reference always gives -2.
\<close>

theorem host_check_answers:
  assumes "index_contract lib x count"
    and "if n = 0 then 0 \<in> set buf else n \<le> length buf"
  shows "\<exists>rv peer. X509_check_host (count + 2) lib x (Some buf) n flags = Some (Inr (rv, peer))
           \<and> rv \<in> {-2, -1, 0, 1}
           \<and> (embedded_nul buf n \<longleftrightarrow> rv = -2)"
proof (cases "embedded_nul buf n")
  case True
  then have "X509_check_host (count + 2) lib x (Some buf) n flags = Some (Inr (-2, None))"
    by (simp add: X509_check_host_def memchr0_def embedded_nul_def)
  then show ?thesis using True by blast
next
  case False
  let ?host = "host_of buf n"
  let ?eq = "equal_of GEN_DNS (dns_flags flags ?host)"
  have c: "X509_check_host (count + 2) lib x (Some buf) n flags = check_dns (count + 2) lib x ?host flags"
    by (rule X509_check_host_dns [OF assms(2) False])
  have "\<exists>rv peer. check_dns (count + 2) lib x ?host flags = Some (Inr (rv, peer)) \<and> rv \<in> {-1, 0, 1}"
  proof (rule san_part [of lib x flags ?host "count + 2"], goal_cases)
    case 3
    then show ?case
      using subject_loop_result [of ?eq ?host lib x count "-1" "count + 2" NID_commonName,
          OF equal_of_total assms(1)] by auto
  qed auto
  then obtain rv peer where "check_dns (count + 2) lib x ?host flags = Some (Inr (rv, peer))"
    "rv \<in> {-1, 0, 1}" by blast
  then show ?thesis unfolding c using False by (intro exI [of _ rv] exI [of _ peer]) auto
qed

definition demo_x509 :: "unit X509Lib" where
  "demo_x509 = \<lparr>
     X509_get_ext_d2i = (\<lambda>_. Some [rfc822Name \<lparr>data = Some (str ''a@b''), asn1_type = 22\<rparr>,
                                   dNSName \<lparr>data = Some (str ''*.b.org''), asn1_type = 22\<rparr>]),
     X509_NAME_get_index_by_NID = (\<lambda>_ nid i. if i < 0 \<and> nid = 13 then 0 else -1),
     X509_NAME_ENTRY_get_data = (\<lambda>_ _. \<lparr>data = Some (str ''c.org''), asn1_type = 12\<rparr>),
     ASN1_STRING_to_UTF8 = data, CRYPTO_malloc = (\<lambda>_. True)\<rparr>"

theorem host_accepted_witness:
  "\<exists>name. host_name demo_x509 () 0 name \<and> name_matches 0 name (str ''A.b.org'')
     \<and> Some (Some (str ''*.b.org'')) = Some (CRYPTO_strndup demo_x509 (Some name) (length name))"
proof -
  have "X509_check_host 3 demo_x509 () (Some (str ''A.b.org'')) 7 0 = Some (Inr (1, Some (Some (str ''*.b.org''))))"
    by code_simp
  moreover have "host_of (str ''A.b.org'') 7 = str ''A.b.org''" by code_simp
  ultimately show ?thesis using host_accepted [of 3 demo_x509 "()" "str ''A.b.org''" 7 0] by simp
qed

theorem host_check_answers_witness:
  "X509_check_host 3 demo_x509 () (Some (str ''c.org'')) 5 0 = Some (Inr (0, None)) \<and>
   (\<exists>rv peer. X509_check_host 3 demo_x509 () (Some (str ''c.org'')) 5 1 = Some (Inr (rv, peer)) \<and> rv \<noteq> -2)"
proof
  show "X509_check_host 3 demo_x509 () (Some (str ''c.org'')) 5 0 = Some (Inr (0, None))" by code_simp
  have i: "index_contract demo_x509 () 1" by (simp add: index_contract_def demo_x509_def)
  have "\<not> embedded_nul (str ''c.org'') 5" by code_simp
  then show "\<exists>rv peer. X509_check_host 3 demo_x509 () (Some (str ''c.org'')) 5 1 = Some (Inr (rv, peer)) \<and> rv \<noteq> -2"
    using host_check_answers [OF i, of 5 "str ''c.org''" 1] by (auto simp: numeral_eq_Suc)
qed

end
