(* ===== verification/RWCLocks.thy ===== *)
theory RWCLocks
  imports Prelude
begin

text \<open>
  The read-write-commit lock (\<^verbatim>\<open>base/sync/rwc_lock.h\<close>, \<^verbatim>\<open>rwc_lock.cc\<close>).  Every method
  runs under the lock's mutex, and a thread in commit mode keeps the mutex: a method is one
  step, which other threads can take only while no thread is in commit mode.  A wait on a
  condition variable ends the step with the thread asleep; a signal wakes one sleeper, a
  broadcast all, and a woken thread takes the step of its loop again.
\<close>

section \<open>The lock\<close>

record RWCLock =
  reader_count :: int
  write_locked :: bool

definition RWCLock_new :: RWCLock where
  "RWCLock_new = \<lparr>reader_count = 0, write_locked = False\<rparr>"

definition RWCLock_destroy :: "RWCLock \<Rightarrow> fault + unit" where
  "RWCLock_destroy l = assertE CheckFailed (reader_count l = 0)"

datatype rwc_wake = NoReadersSignal | NoMutatorsSignal | NoMutatorsBroadcast

definition ReadLock :: "RWCLock \<Rightarrow> RWCLock" where
  "ReadLock l = l\<lparr>reader_count := wrap32 (reader_count l + 1)\<rparr>"

definition ReadUnlock :: "RWCLock \<Rightarrow> fault + rwc_wake list \<times> RWCLock" where
  "ReadUnlock l =
     (if \<not> reader_count l > 0 then Inl CheckFailed
      else let l = l\<lparr>reader_count := reader_count l - 1\<rparr>
           in Inr (if reader_count l = 0 then [NoReadersSignal] else [], l))"

definition HasReaders :: "RWCLock \<Rightarrow> bool" where
  "HasReaders l \<longleftrightarrow> reader_count l > 0"

definition HasWriteLock :: "RWCLock \<Rightarrow> bool" where
  "HasWriteLock l \<longleftrightarrow> write_locked l"

text \<open>One round of the loop of \<^verbatim>\<open>WriteLock\<close>: \<open>None\<close> is a wait on \<^verbatim>\<open>no_mutators_\<close>.\<close>

definition WriteLock :: "RWCLock \<Rightarrow> RWCLock option" where
  "WriteLock l = (if write_locked l then None else Some (l\<lparr>write_locked := True\<rparr>))"

definition WriteUnlock :: "RWCLock \<Rightarrow> fault + rwc_wake list \<times> RWCLock" where
  "WriteUnlock l =
     (if \<not> write_locked l then Inl CheckFailed
      else Inr ([NoMutatorsSignal], l\<lparr>write_locked := False\<rparr>))"

text \<open>
  \<^verbatim>\<open>UpgradeToCommitLock\<close> from its entry on, or from the return of a wait on: the result tells
  whether it waits on \<^verbatim>\<open>no_readers_\<close> or returns with the mutex held.
\<close>

datatype upgrade = AwaitReaders | Committed

definition UpgradeToCommitLock :: "bool \<Rightarrow> RWCLock \<Rightarrow> fault + upgrade" where
  "UpgradeToCommitLock entry l =
     (if entry \<and> \<not> write_locked l then Inl CheckFailed
      else if reader_count l > 0 then Inr AwaitReaders
      else if \<not> write_locked l then Inl CheckFailed
      else Inr Committed)"

definition CommitUnlock :: "RWCLock \<Rightarrow> fault + rwc_wake list \<times> RWCLock" where
  "CommitUnlock l =
     (if reader_count l \<noteq> 0 then Inl CheckFailed
      else Inr ([NoMutatorsBroadcast], l\<lparr>write_locked := False\<rparr>))"

section \<open>Threads\<close>

text \<open>Where a thread stands; the flag of a wait tells whether the thread has been woken.\<close>

datatype stand = Out | ReadHeld | WriteWait bool | WriteHeld | CommitWait bool | CommitHeld

record RWCSystem =
  rwc :: RWCLock
  stands :: "nat \<Rightarrow> stand"

definition mutex_free :: "RWCSystem \<Rightarrow> bool" where
  "mutex_free s \<longleftrightarrow> (\<forall>t. stands s t \<noteq> CommitHeld)"

text \<open>The effect of a signal or broadcast on the threads asleep.\<close>

inductive wakes :: "rwc_wake \<Rightarrow> (nat \<Rightarrow> stand) \<Rightarrow> (nat \<Rightarrow> stand) \<Rightarrow> bool" where
  wake_upgrader: "f t = CommitWait False \<Longrightarrow> wakes NoReadersSignal f (f(t := CommitWait True))"
| no_upgrader: "\<forall>t. f t \<noteq> CommitWait False \<Longrightarrow> wakes NoReadersSignal f f"
| wake_writer: "f t = WriteWait False \<Longrightarrow> wakes NoMutatorsSignal f (f(t := WriteWait True))"
| no_writer: "\<forall>t. f t \<noteq> WriteWait False \<Longrightarrow> wakes NoMutatorsSignal f f"
| wake_writers: "wakes NoMutatorsBroadcast f
     (\<lambda>t. if f t = WriteWait False then WriteWait True else f t)"

fun all_wakes :: "rwc_wake list \<Rightarrow> (nat \<Rightarrow> stand) \<Rightarrow> (nat \<Rightarrow> stand) \<Rightarrow> bool" where
  "all_wakes [] f g \<longleftrightarrow> f = g"
| "all_wakes (w # ws) f g \<longleftrightarrow> (\<exists>h. wakes w f h \<and> all_wakes ws h g)"

text \<open>
  The steps of thread \<open>t\<close>.  A thread calls only what its stand allows: it unlocks what it
  holds, and upgrades from write mode.  \<open>Inl\<close> is a failed check.
\<close>

inductive rwc_step :: "nat \<Rightarrow> RWCSystem \<Rightarrow> fault + RWCSystem \<Rightarrow> bool" where
  read_lock: "mutex_free s \<Longrightarrow> stands s t = Out \<Longrightarrow>
    rwc_step t s (Inr \<lparr>rwc = ReadLock (rwc s), stands = (stands s)(t := ReadHeld)\<rparr>)"
| read_unlock: "mutex_free s \<Longrightarrow> stands s t = ReadHeld \<Longrightarrow> ReadUnlock (rwc s) = Inr (ws, l) \<Longrightarrow>
    all_wakes ws ((stands s)(t := Out)) f \<Longrightarrow> rwc_step t s (Inr \<lparr>rwc = l, stands = f\<rparr>)"
| read_unlock_fails: "mutex_free s \<Longrightarrow> stands s t = ReadHeld \<Longrightarrow> ReadUnlock (rwc s) = Inl e \<Longrightarrow>
    rwc_step t s (Inl e)"
| write_lock: "mutex_free s \<Longrightarrow> stands s t \<in> {Out, WriteWait True} \<Longrightarrow> WriteLock (rwc s) = Some l \<Longrightarrow>
    rwc_step t s (Inr \<lparr>rwc = l, stands = (stands s)(t := WriteHeld)\<rparr>)"
| write_wait: "mutex_free s \<Longrightarrow> stands s t \<in> {Out, WriteWait True} \<Longrightarrow> WriteLock (rwc s) = None \<Longrightarrow>
    rwc_step t s (Inr (s\<lparr>stands := (stands s)(t := WriteWait False)\<rparr>))"
| write_unlock: "mutex_free s \<Longrightarrow> stands s t = WriteHeld \<Longrightarrow> WriteUnlock (rwc s) = Inr (ws, l) \<Longrightarrow>
    all_wakes ws ((stands s)(t := Out)) f \<Longrightarrow> rwc_step t s (Inr \<lparr>rwc = l, stands = f\<rparr>)"
| write_unlock_fails: "mutex_free s \<Longrightarrow> stands s t = WriteHeld \<Longrightarrow> WriteUnlock (rwc s) = Inl e \<Longrightarrow>
    rwc_step t s (Inl e)"
| upgrade: "mutex_free s \<Longrightarrow> stands s t \<in> {WriteHeld, CommitWait True} \<Longrightarrow>
    UpgradeToCommitLock (stands s t = WriteHeld) (rwc s) = Inr r \<Longrightarrow>
    rwc_step t s (Inr (s\<lparr>stands :=
      (stands s)(t := (case r of AwaitReaders \<Rightarrow> CommitWait False | Committed \<Rightarrow> CommitHeld))\<rparr>))"
| upgrade_fails: "mutex_free s \<Longrightarrow> stands s t \<in> {WriteHeld, CommitWait True} \<Longrightarrow>
    UpgradeToCommitLock (stands s t = WriteHeld) (rwc s) = Inl e \<Longrightarrow> rwc_step t s (Inl e)"
| commit_unlock: "stands s t = CommitHeld \<Longrightarrow> CommitUnlock (rwc s) = Inr (ws, l) \<Longrightarrow>
    all_wakes ws ((stands s)(t := Out)) f \<Longrightarrow> rwc_step t s (Inr \<lparr>rwc = l, stands = f\<rparr>)"
| commit_unlock_fails: "stands s t = CommitHeld \<Longrightarrow> CommitUnlock (rwc s) = Inl e \<Longrightarrow>
    rwc_step t s (Inl e)"
| spurious: "stands s t = WriteWait False \<Longrightarrow>
    rwc_step t s (Inr (s\<lparr>stands := (stands s)(t := WriteWait True)\<rparr>))"
| spurious_upgrade: "stands s t = CommitWait False \<Longrightarrow>
    rwc_step t s (Inr (s\<lparr>stands := (stands s)(t := CommitWait True)\<rparr>))"

text \<open>Runs of \<open>n\<close> threads from a new lock.\<close>

inductive rwc_reach :: "nat \<Rightarrow> RWCSystem \<Rightarrow> bool" for n where
  start: "rwc_reach n \<lparr>rwc = RWCLock_new, stands = (\<lambda>_. Out)\<rparr>"
| more: "rwc_reach n s \<Longrightarrow> t < n \<Longrightarrow> rwc_step t s (Inr s') \<Longrightarrow> rwc_reach n s'"

section \<open>The invariant\<close>

text \<open>The threads that hold the lock for write or commit, on their way from one to the other included.\<close>

definition mutator :: "stand \<Rightarrow> bool" where
  "mutator p \<longleftrightarrow> p = WriteHeld \<or> p = CommitHeld \<or> (\<exists>b. p = CommitWait b)"

lemma all_wakes_one [simp]: "all_wakes [w] f g \<longleftrightarrow> wakes w f g"
  by simp

lemma mutator_simps [simp]:
  "\<not> mutator Out" "\<not> mutator ReadHeld" "\<not> mutator (WriteWait b)" "mutator WriteHeld"
  "mutator CommitHeld" "mutator (CommitWait b)"
  by (simp_all add: mutator_def)

definition one_mutator :: "(nat \<Rightarrow> stand) \<Rightarrow> bool" where
  "one_mutator f \<longleftrightarrow> (\<forall>t u. mutator (f t) \<longrightarrow> mutator (f u) \<longrightarrow> t = u)"

lemma one_mutatorD: "one_mutator f \<Longrightarrow> mutator (f t) \<Longrightarrow> mutator (f u) \<Longrightarrow> t = u"
  by (simp add: one_mutator_def)

lemma one_mutator_cong: "(\<And>t. mutator (g t) = mutator (f t)) \<Longrightarrow> one_mutator g = one_mutator f"
  by (simp add: one_mutator_def)

text \<open>A wake-up changes nothing but the flags of threads that wait.\<close>

definition nudged :: "(nat \<Rightarrow> stand) \<Rightarrow> (nat \<Rightarrow> stand) \<Rightarrow> bool" where
  "nudged f g \<longleftrightarrow> (\<forall>t. g t = f t \<or> f t = WriteWait False \<and> g t = WriteWait True
     \<or> f t = CommitWait False \<and> g t = CommitWait True)"

lemma nudged_trans:
  assumes "nudged f g" "nudged g h"
  shows "nudged f h"
  unfolding nudged_def
proof
  fix t
  show "h t = f t \<or> f t = WriteWait False \<and> h t = WriteWait True
     \<or> f t = CommitWait False \<and> h t = CommitWait True"
    using assms [unfolded nudged_def, THEN spec, of t] by auto
qed

lemma wakes_nudged: "wakes w f g \<Longrightarrow> nudged f g"
  by (induction rule: wakes.induct) (auto simp: nudged_def)

lemma all_wakes_nudged: "all_wakes ws f g \<Longrightarrow> nudged f g"
proof (induction ws arbitrary: f)
  case Nil
  then show ?case by (simp add: nudged_def)
next
  case (Cons w ws)
  then obtain h where "wakes w f h" "all_wakes ws h g" by auto
  then show ?case using Cons.IH wakes_nudged nudged_trans by blast
qed

lemma nudged_keeps:
  assumes "nudged f g"
  shows "mutator (g t) = mutator (f t)" "g t = Out \<longleftrightarrow> f t = Out" "g t = ReadHeld \<longleftrightarrow> f t = ReadHeld"
    "g t = CommitHeld \<longleftrightarrow> f t = CommitHeld"
    "g t = CommitWait False \<Longrightarrow> f t = CommitWait False"
    "g t = WriteWait False \<Longrightarrow> f t = WriteWait False"
    "f t = WriteWait True \<Longrightarrow> g t = WriteWait True"
  using assms [unfolded nudged_def, THEN spec, of t] by auto

lemmas all_wakes_keeps = nudged_keeps [OF all_wakes_nudged]

lemma wakes_upgrader:
  assumes "wakes NoReadersSignal f g" "one_mutator f"
  shows "g t \<noteq> CommitWait False"
  using assms(1)
proof (cases rule: wakes.cases)
  case (wake_upgrader u)
  then show ?thesis
    using one_mutatorD [OF assms(2), of u t] by (auto split: if_splits)
qed auto

lemma wakes_a_writer:
  assumes "wakes w f g" "w = NoMutatorsSignal \<or> w = NoMutatorsBroadcast" "g t = WriteWait False"
  shows "\<exists>u. g u = WriteWait True"
  using assms by (cases rule: wakes.cases) (auto split: if_splits)

definition stand_readers :: "(nat \<Rightarrow> stand) \<Rightarrow> nat set" where
  "stand_readers f = {t. f t = ReadHeld}"

text \<open>The invariant of a lock \<open>l\<close> and the stands \<open>f\<close>, without the parts on waits.\<close>

definition rwc_core :: "nat \<Rightarrow> RWCLock \<Rightarrow> (nat \<Rightarrow> stand) \<Rightarrow> bool" where
  "rwc_core n l f \<longleftrightarrow>
     (\<forall>t\<ge>n. f t = Out) \<and>
     reader_count l = int (card {t. f t = ReadHeld}) \<and>
     (write_locked l \<longleftrightarrow> (\<exists>t. mutator (f t))) \<and>
     one_mutator f \<and>
     (\<forall>t u. f t = CommitHeld \<longrightarrow> f u \<noteq> ReadHeld)"

lemma rwc_core_wakes:
  assumes "all_wakes ws f g"
  shows "rwc_core n l g = rwc_core n l f"
  unfolding rwc_core_def by (simp only: all_wakes_keeps(1-4) [OF assms] one_mutator_def)

lemma rwc_core_finite: "rwc_core n l f \<Longrightarrow> finite {t. f t = ReadHeld}"
  by (rule finite_subset [of _ "{..<n}"]) (auto simp: rwc_core_def not_le [symmetric])

lemma card_upd_in: "finite A \<Longrightarrow> t \<notin> A \<Longrightarrow> card (insert t A) = Suc (card A)"
  by simp

lemma readers_upd:
  "{u. (f(t := p)) u = ReadHeld} = (if p = ReadHeld then insert t {u. f u = ReadHeld} else {u. f u = ReadHeld} - {t})"
  by auto

lemma core_read_lock:
  assumes "rwc_core n l f" "f t = Out" "t < n" "n < 2 ^ 31" "\<forall>u. f u \<noteq> CommitHeld"
  shows "rwc_core n (ReadLock l) (f(t := ReadHeld))"
proof -
  let ?R = "{u. f u = ReadHeld}"
  have fin: "finite ?R" by (rule rwc_core_finite [OF assms(1)])
  have "?R \<subseteq> {..<n} - {t}" using assms(1,2) by (auto simp: rwc_core_def not_le [symmetric])
  then have "card ?R \<le> n - 1" using card_mono [of "{..<n} - {t}" ?R] assms(3) by simp
  then have "reader_count l + 1 < 2 ^ 31" "0 \<le> reader_count l"
    using assms(1,3,4) by (auto simp: rwc_core_def)
  then have rc: "wrap32 (reader_count l + 1) = reader_count l + 1"
    by (simp add: wrap32_def)
  have "card (insert t ?R) = Suc (card ?R)" using fin assms(2) by simp
  moreover have "mutator ((f(t := ReadHeld)) u) = mutator (f u)" for u using assms(2) by simp
  ultimately show ?thesis
    using assms one_mutator_cong [of "f(t := ReadHeld)" f]
    unfolding rwc_core_def readers_upd ReadLock_def rc by auto
qed

lemma core_read_unlock:
  assumes "rwc_core n l f" "f t = ReadHeld"
  shows "rwc_core n (l\<lparr>reader_count := reader_count l - 1\<rparr>) (f(t := Out))" "reader_count l > 0"
proof -
  let ?R = "{u. f u = ReadHeld}"
  have fin: "finite ?R" by (rule rwc_core_finite [OF assms(1)])
  have "card ?R = Suc (card (?R - {t}))" by (rule card.remove [OF fin]) (use assms(2) in simp)
  moreover have "mutator ((f(t := Out)) u) = mutator (f u)" for u using assms(2) by simp
  ultimately show "rwc_core n (l\<lparr>reader_count := reader_count l - 1\<rparr>) (f(t := Out))" "reader_count l > 0"
    using assms one_mutator_cong [of "f(t := Out)" f] unfolding rwc_core_def readers_upd by auto
qed

text \<open>Steps that leave the readers alone.\<close>

lemma core_move:
  assumes "rwc_core n l f" "f t \<noteq> ReadHeld" "p \<noteq> ReadHeld" "t < n"
    and "mutator p = mutator (f t)" "p = CommitHeld \<Longrightarrow> reader_count l = 0"
  shows "rwc_core n l (f(t := p))"
proof -
  have "{u. (f(t := p)) u = ReadHeld} = {u. f u = ReadHeld}" using assms(2,3) by auto
  moreover have "mutator ((f(t := p)) u) = mutator (f u)" for u using assms(5) by simp
  moreover have "(f(t := p)) u \<noteq> ReadHeld" if "(f(t := p)) v = CommitHeld" for u v
  proof (cases "p = CommitHeld")
    case True
    then have "{u. f u = ReadHeld} = {}"
      using assms(1) assms(6) rwc_core_finite [OF assms(1)] by (simp add: rwc_core_def)
    then show ?thesis using assms(3) by auto
  next
    case False
    then have "f v = CommitHeld" using that by (auto split: if_splits)
    then show ?thesis using assms(1,3) by (auto simp: rwc_core_def)
  qed
  ultimately show ?thesis
    using assms(1,4) one_mutator_cong [of "f(t := p)" f] unfolding rwc_core_def by auto
qed

lemma core_take:
  assumes "rwc_core n l f" "f t \<noteq> ReadHeld" "t < n" "\<not> write_locked l"
  shows "rwc_core n (l\<lparr>write_locked := True\<rparr>) (f(t := WriteHeld))"
proof -
  have none: "\<not> mutator (f u)" for u using assms(1,4) by (auto simp: rwc_core_def)
  have "{u. (f(t := WriteHeld)) u = ReadHeld} = {u. f u = ReadHeld}" using assms(2) by auto
  moreover have "f u \<noteq> CommitHeld" for u using none [of u] by auto
  ultimately show ?thesis
    using assms none unfolding rwc_core_def one_mutator_def by auto
qed

lemma core_give:
  assumes "rwc_core n l f" "mutator (f t)"
  shows "rwc_core n (l\<lparr>write_locked := False\<rparr>) (f(t := Out))"
proof -
  have one: "mutator (f u) \<Longrightarrow> u = t" for u
    using assms one_mutatorD [of f u t] by (simp add: rwc_core_def)
  have "f t \<noteq> ReadHeld" using assms(2) by auto
  then have "{u. (f(t := Out)) u = ReadHeld} = {u. f u = ReadHeld}" by auto
  moreover have "f u = CommitHeld \<Longrightarrow> u = t" for u using one [of u] by auto
  moreover have "\<not> mutator ((f(t := Out)) u)" for u using one by auto
  ultimately show ?thesis
    using assms unfolding rwc_core_def one_mutator_def by auto
qed

definition rwc_waits :: "RWCLock \<Rightarrow> (nat \<Rightarrow> stand) \<Rightarrow> bool" where
  "rwc_waits l f \<longleftrightarrow>
     (\<forall>t. f t = CommitWait False \<longrightarrow> reader_count l > 0) \<and>
     (\<not> write_locked l \<longrightarrow> (\<exists>t. f t = WriteWait False) \<longrightarrow> (\<exists>t. f t = WriteWait True))"

definition rwc_inv :: "nat \<Rightarrow> RWCSystem \<Rightarrow> bool" where
  "rwc_inv n s \<longleftrightarrow> rwc_core n (rwc s) (stands s) \<and> rwc_waits (rwc s) (stands s)"

lemma rwc_waits_locked:
  assumes "write_locked l'" "rwc_waits l f" "reader_count l' = reader_count l"
    and "p = CommitWait False \<Longrightarrow> reader_count l > 0"
  shows "rwc_waits l' (f(t := p))"
  using assms unfolding rwc_waits_def by (auto split: if_splits)

lemma core_locked: "rwc_core n l f \<Longrightarrow> mutator (f t) \<Longrightarrow> write_locked l"
  by (auto simp: rwc_core_def)

lemma core_committed: "rwc_core n l f \<Longrightarrow> f t = CommitHeld \<Longrightarrow> reader_count l = 0"
proof -
  assume core: "rwc_core n l f" and t: "f t = CommitHeld"
  then have "{u. f u = ReadHeld} = {}" by (auto simp: rwc_core_def)
  then show "reader_count l = 0" using core by (simp add: rwc_core_def)
qed

text \<open>No check fails.\<close>

lemma rwc_no_fault:
  assumes "rwc_inv n s"
  shows "\<not> rwc_step t s (Inl e)"
proof
  have core: "rwc_core n (rwc s) (stands s)" using assms by (simp add: rwc_inv_def)
  assume "rwc_step t s (Inl e)"
  then show False
  proof cases
    case read_unlock_fails
    then show False using core_read_unlock(2) [OF core] by (simp add: ReadUnlock_def Let_def split: if_splits)
  next
    case write_unlock_fails
    then show False using core_locked [OF core, of t] by (simp add: WriteUnlock_def)
  next
    case upgrade_fails
    then have "mutator (stands s t)" by auto
    then show False using upgrade_fails core_locked [OF core, of t]
      by (simp add: UpgradeToCommitLock_def split: if_splits)
  next
    case commit_unlock_fails
    then show False using core_committed [OF core, of t]
      by (simp add: CommitUnlock_def split: if_splits)
  qed
qed

lemma waits_after_signal:
  assumes "all_wakes ws f g" "ws = [NoMutatorsSignal] \<or> ws = [NoMutatorsBroadcast]"
    and "\<forall>t. f t \<noteq> CommitWait False"
  shows "rwc_waits l g"
  using wakes_a_writer [of _ f g] assms all_wakes_keeps(5) [OF assms(1)]
  unfolding rwc_waits_def by auto

lemma rwc_inv_step:
  assumes "rwc_inv n s" "rwc_step t s (Inr s')" "t < n" "n < 2 ^ 31"
  shows "rwc_inv n s'"
proof -
  have core: "rwc_core n (rwc s) (stands s)" and waits: "rwc_waits (rwc s) (stands s)"
    using assms(1) by (simp_all add: rwc_inv_def)
  have one: "one_mutator (stands s)" using core by (simp add: rwc_core_def)
  have release: "rwc_core n (rwc s\<lparr>write_locked := False\<rparr>) f \<and> rwc_waits (rwc s\<lparr>write_locked := False\<rparr>) f"
    if w: "all_wakes ws ((stands s)(t := Out)) f" "ws = [NoMutatorsSignal] \<or> ws = [NoMutatorsBroadcast]"
      and m: "mutator (stands s t)" for ws f
  proof
    show "rwc_core n (rwc s\<lparr>write_locked := False\<rparr>) f"
      unfolding rwc_core_wakes [OF w(1)] by (rule core_give [OF core m])
    have "((stands s)(t := Out)) u \<noteq> CommitWait False" for u
      using one_mutatorD [OF one m, of u] by auto
    then show "rwc_waits (rwc s\<lparr>write_locked := False\<rparr>) f"
      using waits_after_signal [OF w(1,2)] by blast
  qed
  from assms(2) show ?thesis
  proof cases
    case read_lock
    have "\<forall>u. stands s u \<noteq> CommitHeld" using read_lock(2) by (simp add: mutex_free_def)
    then have "rwc_core n (ReadLock (rwc s)) ((stands s)(t := ReadHeld))"
      by (rule core_read_lock [OF core read_lock(3) assms(3,4)])
    moreover from this have pos: "reader_count (ReadLock (rwc s)) > 0"
      by (rule core_read_unlock(2) [where t = t]) simp
    have "rwc_waits (ReadLock (rwc s)) ((stands s)(t := ReadHeld))"
      unfolding rwc_waits_def
    proof (intro conjI allI impI pos)
      assume w: "\<not> write_locked (ReadLock (rwc s))" "\<exists>u. ((stands s)(t := ReadHeld)) u = WriteWait False"
      have "\<exists>u. stands s u = WriteWait False" using w(2) by (auto split: if_splits)
      then obtain u where "stands s u = WriteWait True"
        using w(1) waits by (auto simp: rwc_waits_def ReadLock_def)
      then show "\<exists>u. ((stands s)(t := ReadHeld)) u = WriteWait True"
        using read_lock(3) by (intro exI [of _ u]) auto
    qed
    ultimately show ?thesis using read_lock(1) by (simp add: rwc_inv_def)
  next
    case (read_unlock ws l f)
    have l: "l = rwc s\<lparr>reader_count := reader_count (rwc s) - 1\<rparr>"
      "ws = (if reader_count l = 0 then [NoReadersSignal] else [])"
      using read_unlock(4) by (auto simp: ReadUnlock_def Let_def split: if_splits)
    have g: "rwc_core n l ((stands s)(t := Out))"
      unfolding l(1) by (rule core_read_unlock(1) [OF core read_unlock(3)])
    have up: "f u \<noteq> CommitWait False" if "reader_count l = 0" for u
      using wakes_upgrader [of "(stands s)(t := Out)" f u] read_unlock(5) l(2) that g
      by (simp add: rwc_core_def)
    have nonneg: "0 \<le> reader_count l" using g by (simp add: rwc_core_def)
    have wr: "\<exists>u. f u = WriteWait True" if "\<not> write_locked l" "f v = WriteWait False" for v
    proof -
      have "((stands s)(t := Out)) v = WriteWait False"
        using all_wakes_keeps(6) [OF read_unlock(5) that(2)] .
      then have "stands s v = WriteWait False" by (auto split: if_splits)
      moreover have "\<not> write_locked (rwc s)" using that(1) l(1) by simp
      ultimately obtain u where "stands s u = WriteWait True"
        using waits unfolding rwc_waits_def by blast
      then show ?thesis
        using all_wakes_keeps(7) [OF read_unlock(5), of u] read_unlock(3)
        by (intro exI [of _ u]) (cases "u = t"; simp)
    qed
    have "rwc_waits l f"
      unfolding rwc_waits_def
    proof (intro conjI allI impI)
      fix u
      assume "f u = CommitWait False"
      then have "reader_count l \<noteq> 0" using up by blast
      then show "reader_count l > 0" using nonneg by simp
    qed (use wr in blast)
    then show ?thesis
      using g read_unlock(1) rwc_core_wakes [OF read_unlock(5)] by (simp add: rwc_inv_def)
  next
    case (write_lock l)
    then have "rwc_core n l ((stands s)(t := WriteHeld))"
      using core_take [OF core _ assms(3)] by (auto simp: WriteLock_def split: if_splits)
    moreover have "rwc_waits l ((stands s)(t := WriteHeld))"
      by (rule rwc_waits_locked [OF _ waits]) (use write_lock in \<open>auto simp: WriteLock_def split: if_splits\<close>)
    ultimately show ?thesis using write_lock by (simp add: rwc_inv_def)
  next
    case write_wait
    then have "rwc_core n (rwc s) ((stands s)(t := WriteWait False))"
      by (intro core_move [OF core]) (use assms(3) in auto)
    moreover have "rwc_waits (rwc s) ((stands s)(t := WriteWait False))"
      by (rule rwc_waits_locked [OF _ waits]) (use write_wait in \<open>auto simp: WriteLock_def split: if_splits\<close>)
    ultimately show ?thesis using write_wait by (simp add: rwc_inv_def)
  next
    case (write_unlock ws l f)
    then have "l = rwc s\<lparr>write_locked := False\<rparr>" "ws = [NoMutatorsSignal]"
      by (auto simp: WriteUnlock_def split: if_splits)
    then show ?thesis using release [OF write_unlock(5)] write_unlock by (simp add: rwc_inv_def)
  next
    case (upgrade r)
    have m: "mutator (stands s t)" "stands s t \<noteq> ReadHeld" using upgrade(3) by auto
    have r: "r = (if reader_count (rwc s) > 0 then AwaitReaders else Committed)"
      "0 \<le> reader_count (rwc s)"
      using upgrade(4) core by (auto simp: UpgradeToCommitLock_def rwc_core_def split: if_splits)
    let ?p = "case r of AwaitReaders \<Rightarrow> CommitWait False | Committed \<Rightarrow> CommitHeld"
    have "rwc_core n (rwc s) ((stands s)(t := ?p))"
      by (rule core_move [OF core m(2) _ assms(3)]) (use m r in \<open>auto split: if_splits\<close>)
    moreover have "rwc_waits (rwc s) ((stands s)(t := ?p))"
      by (rule rwc_waits_locked [OF core_locked [OF core m(1)] waits]) (use r in \<open>simp_all split: if_splits\<close>)
    ultimately show ?thesis using upgrade(1) by (simp add: rwc_inv_def)
  next
    case (commit_unlock ws l f)
    then have "l = rwc s\<lparr>write_locked := False\<rparr>" "ws = [NoMutatorsBroadcast]"
      by (auto simp: CommitUnlock_def split: if_splits)
    then show ?thesis using release [OF commit_unlock(4)] commit_unlock by (simp add: rwc_inv_def)
  next
    case spurious
    then have "rwc_core n (rwc s) ((stands s)(t := WriteWait True))"
      by (intro core_move [OF core]) (use assms(3) in auto)
    moreover have "rwc_waits (rwc s) ((stands s)(t := WriteWait True))"
      using spurious waits unfolding rwc_waits_def by (intro conjI allI impI exI [of _ t]) (auto split: if_splits)
    ultimately show ?thesis using spurious by (simp add: rwc_inv_def)
  next
    case spurious_upgrade
    then have "rwc_core n (rwc s) ((stands s)(t := CommitWait True))"
      by (intro core_move [OF core]) (use assms(3) in auto)
    moreover have "rwc_waits (rwc s) ((stands s)(t := CommitWait True))"
      by (rule rwc_waits_locked [OF _ waits]) (use core_locked [OF core, of t] spurious_upgrade in simp_all)
    ultimately show ?thesis using spurious_upgrade by (simp add: rwc_inv_def)
  qed
qed

lemma rwc_inv_reach:
  assumes "rwc_reach n s" "n < 2 ^ 31"
  shows "rwc_inv n s"
  using assms(1)
proof induction
  case start
  show ?case
    by (simp add: rwc_inv_def rwc_core_def rwc_waits_def RWCLock_new_def one_mutator_def)
next
  case (more s t s')
  then show ?case using rwc_inv_step assms(2) by blast
qed

section \<open>Theorems\<close>

text \<open>
  C18: The compatibility matrix of the read-write-commit lock holds in every reachable state of
  fewer than 2^31 threads: any number of readers may hold the lock beside one writer, at most
  one thread is in write or commit mode (or on its way from one to the other), and a thread
  in commit mode is alone with the lock.  The reader count and the write flag are exact, and no
  check of the lock can fail next.
\<close>

theorem rwc_lock_matrix:
  assumes "rwc_reach n s" "n < 2 ^ 31"
  shows "reader_count (rwc s) = int (card {t. stands s t = ReadHeld})
    \<and> (HasWriteLock (rwc s) \<longleftrightarrow> (\<exists>t. mutator (stands s t)))
    \<and> (\<forall>t u. mutator (stands s t) \<longrightarrow> mutator (stands s u) \<longrightarrow> t = u)
    \<and> (\<forall>t u. stands s t = CommitHeld \<longrightarrow> u \<noteq> t \<longrightarrow> stands s u \<notin> {ReadHeld, WriteHeld, CommitHeld})
    \<and> (\<forall>t e. \<not> rwc_step t s (Inl e))"
proof -
  have inv: "rwc_inv n s" by (rule rwc_inv_reach [OF assms])
  then have core: "rwc_core n (rwc s) (stands s)" by (simp add: rwc_inv_def)
  then have one: "one_mutator (stands s)" by (simp add: rwc_core_def)
  have "stands s u \<notin> {ReadHeld, WriteHeld, CommitHeld}" if "stands s t = CommitHeld" "u \<noteq> t" for t u
  proof -
    have "stands s u \<noteq> ReadHeld" using core that(1) by (auto simp: rwc_core_def)
    moreover have "\<not> mutator (stands s u)" using one_mutatorD [OF one, of t u] that by auto
    ultimately show ?thesis by auto
  qed
  then show ?thesis
    using core one rwc_no_fault [OF inv] unfolding rwc_core_def HasWriteLock_def one_mutator_def
    by blast
qed

text \<open>
  C19: No wake-up of the read-write-commit lock is lost: a writer that sleeps while the lock
  has no mutator is not alone, another writer is awake to take it; and an upgrade sleeps only
  while there are readers, the last of whom wakes it.
\<close>

theorem rwc_wakeups:
  assumes "rwc_reach n s" "n < 2 ^ 31"
  shows "(stands s t = WriteWait False \<and> \<not> write_locked (rwc s) \<longrightarrow> (\<exists>u. stands s u = WriteWait True))
    \<and> (stands s t = CommitWait False \<longrightarrow> (\<exists>u. stands s u = ReadHeld))"
proof -
  have inv: "rwc_core n (rwc s) (stands s)" "rwc_waits (rwc s) (stands s)"
    using rwc_inv_reach [OF assms] by (simp_all add: rwc_inv_def)
  have "\<exists>u. stands s u = ReadHeld" if "stands s t = CommitWait False"
  proof -
    have "reader_count (rwc s) > 0" using inv(2) that by (auto simp: rwc_waits_def)
    then have "{u. stands s u = ReadHeld} \<noteq> {}" using inv(1) unfolding rwc_core_def by auto
    then show ?thesis by blast
  qed
  then show ?thesis using inv(2) unfolding rwc_waits_def by blast
qed

text \<open>Three threads: one reads, one writes and waits to commit, one waits to write.\<close>

definition busy_stands :: "nat \<Rightarrow> stand" where
  "busy_stands = (\<lambda>_. Out)(0 := ReadHeld, 1 := WriteHeld, 1 := CommitWait False, 2 := WriteWait False)"

definition busy :: RWCSystem where
  "busy = \<lparr>rwc = \<lparr>reader_count = 1, write_locked = True\<rparr>, stands = busy_stands\<rparr>"

lemma busy_reach: "rwc_reach 3 busy"
proof -
  define s0 :: RWCSystem where "s0 = \<lparr>rwc = RWCLock_new, stands = (\<lambda>_. Out)\<rparr>"
  define s1 :: RWCSystem where "s1 = \<lparr>rwc = ReadLock (rwc s0), stands = (stands s0)(0 := ReadHeld)\<rparr>"
  define s2 :: RWCSystem where
    "s2 = \<lparr>rwc = (rwc s1)\<lparr>write_locked := True\<rparr>, stands = (stands s1)(1 := WriteHeld)\<rparr>"
  define s3 :: RWCSystem where "s3 = s2\<lparr>stands := (stands s2)(1 := CommitWait False)\<rparr>"
  have rc: "reader_count (rwc s1) = 1" by (simp add: s1_def s0_def RWCLock_new_def ReadLock_def wrap32_def)
  have wl: "\<not> write_locked (rwc s1)" by (simp add: s1_def s0_def RWCLock_new_def ReadLock_def)
  have r0: "rwc_reach 3 s0" unfolding s0_def by (rule rwc_reach.start)
  have r1: "rwc_reach 3 s1"
    unfolding s1_def by (rule rwc_reach.more [OF r0, of 0], simp, rule read_lock)
      (simp_all add: s0_def mutex_free_def)
  have r2: "rwc_reach 3 s2"
    unfolding s2_def by (rule rwc_reach.more [OF r1, of 1], simp, rule write_lock)
      (use wl in \<open>simp_all add: mutex_free_def WriteLock_def s1_def s0_def\<close>)
  have "rwc_step 1 s2 (Inr (s2\<lparr>stands := (stands s2)(1 := (case AwaitReaders of
      AwaitReaders \<Rightarrow> CommitWait False | Committed \<Rightarrow> CommitHeld))\<rparr>))"
    by (rule upgrade) (use rc in \<open>simp_all add: mutex_free_def UpgradeToCommitLock_def s2_def s1_def s0_def\<close>)
  then have r3: "rwc_reach 3 s3"
    unfolding s3_def by (intro rwc_reach.more [OF r2, of 1]) simp_all
  have b: "busy = s3\<lparr>stands := (stands s3)(2 := WriteWait False)\<rparr>"
    using rc by (simp add: busy_def busy_stands_def s3_def s2_def s1_def s0_def RWCLock_new_def
        ReadLock_def fun_upd_twist)
  show ?thesis
    unfolding b by (rule rwc_reach.more [OF r3, of 2], simp, rule write_wait)
      (simp_all add: mutex_free_def WriteLock_def s3_def s2_def s1_def s0_def)
qed

theorem rwc_lock_matrix_witness:
  "HasWriteLock (rwc busy) \<and> reader_count (rwc busy) = int (card {t. stands busy t = ReadHeld})
    \<and> \<not> (\<exists>t e. rwc_step t busy (Inl e))"
  using rwc_lock_matrix [OF busy_reach] by (simp add: HasWriteLock_def) (simp add: busy_def)

theorem rwc_wakeups_witness:
  "stands busy 1 = CommitWait False \<and> (\<exists>u. stands busy u = ReadHeld)"
proof -
  have s: "stands busy 1 = CommitWait False" by (simp add: busy_def busy_stands_def)
  then show ?thesis using rwc_wakeups [OF busy_reach, of 1] by simp
qed

end
