(* ===== verification/AsciiCtype.thy ===== *)
theory AsciiCtype
  imports Prelude
begin

text \<open>
  \<^verbatim>\<open>gbase/strings/ascii_ctype.{h,cc}\<close>: the locale-independent character classes.  The
  three tables are written out as the source has them (character constants as their
  codes); an initialiser shorter than the array leaves the remaining entries zero, which
  is how \<^verbatim>\<open>kAsciiPropertyBits\<close> covers the upper half.  The lemmas say that every class is
  the intended set of characters and that the case tables move exactly the letters.
\<close>

section \<open>The type \<^verbatim>\<open>char\<close>\<close>

text \<open>The two ways \<^verbatim>\<open>gbase\<close> is built.\<close>

datatype build = UnsignedChar | SignedChar

fun char_value :: "build \<Rightarrow> byte \<Rightarrow> int" where
  "char_value UnsignedChar c = uint c"
| "char_value SignedChar c = sint c"

lemma char_value_ascii: "c < 128 \<Longrightarrow> char_value b c = uint c"
proof -
  assume "c < 128"
  then have "uint c < 128" by (simp add: word_less_def)
  moreover have "- 128 \<le> uint c" using uint_byte_bounds(1) [of c] by linarith
  ultimately have "- (2 ^ (LENGTH(8) - Suc 0)) \<le> uint c" "uint c < 2 ^ (LENGTH(8) - Suc 0)" by simp_all
  then have "sint c = uint c"
    unfolding sint_uint by (rule signed_take_bit_int_eq_self)
  then show ?thesis by (cases b) simp_all
qed

section \<open>Tables\<close>

definition kAsciiPropertyBits :: "nat list" where
  "kAsciiPropertyBits = [
    0x40, 0x40, 0x40, 0x40, 0x40, 0x40, 0x40, 0x40,
    0x40, 0x68, 0x48, 0x48, 0x48, 0x48, 0x40, 0x40,
    0x40, 0x40, 0x40, 0x40, 0x40, 0x40, 0x40, 0x40,
    0x40, 0x40, 0x40, 0x40, 0x40, 0x40, 0x40, 0x40,
    0x28, 0x10, 0x10, 0x10, 0x10, 0x10, 0x10, 0x10,
    0x10, 0x10, 0x10, 0x10, 0x10, 0x10, 0x10, 0x10,
    0x84, 0x84, 0x84, 0x84, 0x84, 0x84, 0x84, 0x84,
    0x84, 0x84, 0x10, 0x10, 0x10, 0x10, 0x10, 0x10,
    0x10, 0x85, 0x85, 0x85, 0x85, 0x85, 0x85, 0x05,
    0x05, 0x05, 0x05, 0x05, 0x05, 0x05, 0x05, 0x05,
    0x05, 0x05, 0x05, 0x05, 0x05, 0x05, 0x05, 0x05,
    0x05, 0x05, 0x05, 0x10, 0x10, 0x10, 0x10, 0x10,
    0x10, 0x85, 0x85, 0x85, 0x85, 0x85, 0x85, 0x05,
    0x05, 0x05, 0x05, 0x05, 0x05, 0x05, 0x05, 0x05,
    0x05, 0x05, 0x05, 0x05, 0x05, 0x05, 0x05, 0x05,
    0x05, 0x05, 0x05, 0x10, 0x10, 0x10, 0x10, 0x40] @ replicate 128 0"

definition kAsciiToLower :: "nat list" where
  "kAsciiToLower = [
    0, 1, 2, 3, 4, 5, 6, 7, 8, 9,
    10, 11, 12, 13, 14, 15, 16, 17, 18, 19,
    20, 21, 22, 23, 24, 25, 26, 27, 28, 29,
    30, 31, 32, 33, 34, 35, 36, 37, 38, 39,
    40, 41, 42, 43, 44, 45, 46, 47, 48, 49,
    50, 51, 52, 53, 54, 55, 56, 57, 58, 59,
    60, 61, 62, 63, 64, 97, 98, 99, 100, 101,
    102, 103, 104, 105, 106, 107, 108, 109, 110, 111,
    112, 113, 114, 115, 116, 117, 118, 119, 120, 121,
    122, 91, 92, 93, 94, 95, 96, 97, 98, 99,
    100, 101, 102, 103, 104, 105, 106, 107, 108, 109,
    110, 111, 112, 113, 114, 115, 116, 117, 118, 119,
    120, 121, 122, 123, 124, 125, 126, 127, 128, 129,
    130, 131, 132, 133, 134, 135, 136, 137, 138, 139,
    140, 141, 142, 143, 144, 145, 146, 147, 148, 149,
    150, 151, 152, 153, 154, 155, 156, 157, 158, 159,
    160, 161, 162, 163, 164, 165, 166, 167, 168, 169,
    170, 171, 172, 173, 174, 175, 176, 177, 178, 179,
    180, 181, 182, 183, 184, 185, 186, 187, 188, 189,
    190, 191, 192, 193, 194, 195, 196, 197, 198, 199,
    200, 201, 202, 203, 204, 205, 206, 207, 208, 209,
    210, 211, 212, 213, 214, 215, 216, 217, 218, 219,
    220, 221, 222, 223, 224, 225, 226, 227, 228, 229,
    230, 231, 232, 233, 234, 235, 236, 237, 238, 239,
    240, 241, 242, 243, 244, 245, 246, 247, 248, 249,
    250, 251, 252, 253, 254, 255]"

definition kAsciiToUpper :: "nat list" where
  "kAsciiToUpper = [
    0, 1, 2, 3, 4, 5, 6, 7, 8, 9,
    10, 11, 12, 13, 14, 15, 16, 17, 18, 19,
    20, 21, 22, 23, 24, 25, 26, 27, 28, 29,
    30, 31, 32, 33, 34, 35, 36, 37, 38, 39,
    40, 41, 42, 43, 44, 45, 46, 47, 48, 49,
    50, 51, 52, 53, 54, 55, 56, 57, 58, 59,
    60, 61, 62, 63, 64, 65, 66, 67, 68, 69,
    70, 71, 72, 73, 74, 75, 76, 77, 78, 79,
    80, 81, 82, 83, 84, 85, 86, 87, 88, 89,
    90, 91, 92, 93, 94, 95, 96, 65, 66, 67,
    68, 69, 70, 71, 72, 73, 74, 75, 76, 77,
    78, 79, 80, 81, 82, 83, 84, 85, 86, 87,
    88, 89, 90, 123, 124, 125, 126, 127, 128, 129,
    130, 131, 132, 133, 134, 135, 136, 137, 138, 139,
    140, 141, 142, 143, 144, 145, 146, 147, 148, 149,
    150, 151, 152, 153, 154, 155, 156, 157, 158, 159,
    160, 161, 162, 163, 164, 165, 166, 167, 168, 169,
    170, 171, 172, 173, 174, 175, 176, 177, 178, 179,
    180, 181, 182, 183, 184, 185, 186, 187, 188, 189,
    190, 191, 192, 193, 194, 195, 196, 197, 198, 199,
    200, 201, 202, 203, 204, 205, 206, 207, 208, 209,
    210, 211, 212, 213, 214, 215, 216, 217, 218, 219,
    220, 221, 222, 223, 224, 225, 226, 227, 228, 229,
    230, 231, 232, 233, 234, 235, 236, 237, 238, 239,
    240, 241, 242, 243, 244, 245, 246, 247, 248, 249,
    250, 251, 252, 253, 254, 255]"

section \<open>Classification\<close>

definition ascii_isalpha :: "byte \<Rightarrow> bool" where
  "ascii_isalpha c \<longleftrightarrow> kAsciiPropertyBits ! unat c AND 0x01 \<noteq> 0"

definition ascii_isalnum :: "byte \<Rightarrow> bool" where
  "ascii_isalnum c \<longleftrightarrow> kAsciiPropertyBits ! unat c AND 0x04 \<noteq> 0"

definition ascii_isspace :: "byte \<Rightarrow> bool" where
  "ascii_isspace c \<longleftrightarrow> kAsciiPropertyBits ! unat c AND 0x08 \<noteq> 0"

definition ascii_ispunct :: "byte \<Rightarrow> bool" where
  "ascii_ispunct c \<longleftrightarrow> kAsciiPropertyBits ! unat c AND 0x10 \<noteq> 0"

definition ascii_isblank :: "byte \<Rightarrow> bool" where
  "ascii_isblank c \<longleftrightarrow> kAsciiPropertyBits ! unat c AND 0x20 \<noteq> 0"

definition ascii_iscntrl :: "byte \<Rightarrow> bool" where
  "ascii_iscntrl c \<longleftrightarrow> kAsciiPropertyBits ! unat c AND 0x40 \<noteq> 0"

definition ascii_isxdigit :: "byte \<Rightarrow> bool" where
  "ascii_isxdigit c \<longleftrightarrow> kAsciiPropertyBits ! unat c AND 0x80 \<noteq> 0"

definition ascii_isdigit :: "byte \<Rightarrow> bool" where
  "ascii_isdigit c \<longleftrightarrow> 48 \<le> c \<and> c \<le> 57"

definition ascii_isprint :: "byte \<Rightarrow> bool" where
  "ascii_isprint c \<longleftrightarrow> 32 \<le> c \<and> c < 127"

definition ascii_isgraph :: "byte \<Rightarrow> bool" where
  "ascii_isgraph c \<longleftrightarrow> 32 < c \<and> c < 127"

definition ascii_isupper :: "byte \<Rightarrow> bool" where
  "ascii_isupper c \<longleftrightarrow> 65 \<le> c \<and> c \<le> 90"

definition ascii_islower :: "byte \<Rightarrow> bool" where
  "ascii_islower c \<longleftrightarrow> 97 \<le> c \<and> c \<le> 122"

definition ascii_isascii :: "byte \<Rightarrow> bool" where
  "ascii_isascii c \<longleftrightarrow> c < 128"

definition ascii_tolower :: "byte \<Rightarrow> byte" where
  "ascii_tolower c = word_of_nat (kAsciiToLower ! unat c)"

definition ascii_toupper :: "byte \<Rightarrow> byte" where
  "ascii_toupper c = word_of_nat (kAsciiToUpper ! unat c)"

section \<open>What the tables hold\<close>

lemma all_bytes: "(\<forall>c :: byte. P (unat c)) \<longleftrightarrow> list_all P [0..<256]"
proof
  assume "\<forall>c :: byte. P (unat c)"
  then have "P (unat (word_of_nat n :: byte))" for n
    by blast
  then show "list_all P [0..<256]"
    by (auto simp: list_all_iff unat_of_nat take_bit_nat_eq_self) (metis mod_less)
next
  assume P: "list_all P [0..<256]"
  have "unat c < 256" for c :: byte
    using unsigned_less [of c, where ?'a = nat] by simp
  with P show "\<forall>c :: byte. P (unat c)"
    by (auto simp: list_all_iff)
qed

lemma byte_le_unat: "(a :: byte) \<le> b \<longleftrightarrow> unat a \<le> unat b" "(a :: byte) < b \<longleftrightarrow> unat a < unat b"
  by (simp_all add: word_le_nat_alt word_less_nat_alt)

lemma unat_byte_lt: "unat (c :: byte) < 256"
  using unsigned_less [of c, where ?'a = nat] by simp

text \<open>
  One evaluation per bit: each bit of \<^verbatim>\<open>kAsciiPropertyBits\<close> is a set of codes below 128.
\<close>

lemma class_table:
  assumes low: "map (\<lambda>b. b AND m \<noteq> 0) (take 128 kAsciiPropertyBits) = map P [0..<128]"
    and high: "\<And>n. 128 \<le> n \<Longrightarrow> \<not> P n"
  shows "kAsciiPropertyBits ! unat (c :: byte) AND m \<noteq> 0 \<longleftrightarrow> P (unat c)"
proof (cases "unat c < 128")
  case True
  have len: "length (take 128 kAsciiPropertyBits) = 128"
    by (simp add: kAsciiPropertyBits_def)
  have "map (\<lambda>b. b AND m \<noteq> 0) (take 128 kAsciiPropertyBits) ! unat c = map P [0..<128] ! unat c"
    by (simp only: low)
  with True len show ?thesis
    by simp
next
  case False
  have "length (take 128 kAsciiPropertyBits) = 128" "drop 128 kAsciiPropertyBits = replicate 128 0"
    by (simp_all add: kAsciiPropertyBits_def)
  with False unat_byte_lt [of c] have "kAsciiPropertyBits ! unat c = 0"
    by (subst append_take_drop_id [of 128 kAsciiPropertyBits, symmetric]) (simp only: nth_append nth_replicate, simp)
  with high [of "unat c"] False show ?thesis
    by simp
qed

lemma isalpha_table:
  "kAsciiPropertyBits ! unat (c :: byte) AND 0x01 \<noteq> 0 \<longleftrightarrow> (\<lambda>n. 65 \<le> n \<and> n \<le> 90 \<or> 97 \<le> n \<and> n \<le> 122) (unat c)"
  by (rule class_table) (simp_all add: kAsciiPropertyBits_def upt_rec)

lemma isalnum_table:
  "kAsciiPropertyBits ! unat (c :: byte) AND 0x04 \<noteq> 0 \<longleftrightarrow> (\<lambda>n. 48 \<le> n \<and> n \<le> 57 \<or> 65 \<le> n \<and> n \<le> 90 \<or> 97 \<le> n \<and> n \<le> 122) (unat c)"
  by (rule class_table) (simp_all add: kAsciiPropertyBits_def upt_rec)

lemma isspace_table:
  "kAsciiPropertyBits ! unat (c :: byte) AND 0x08 \<noteq> 0 \<longleftrightarrow> (\<lambda>n. 9 \<le> n \<and> n \<le> 13 \<or> n = 32) (unat c)"
  by (rule class_table) (simp_all add: kAsciiPropertyBits_def upt_rec)

lemma ispunct_table:
  "kAsciiPropertyBits ! unat (c :: byte) AND 0x10 \<noteq> 0 \<longleftrightarrow> (\<lambda>n. 33 \<le> n \<and> n \<le> 47 \<or> 58 \<le> n \<and> n \<le> 64 \<or> 91 \<le> n \<and> n \<le> 96 \<or> 123 \<le> n \<and> n \<le> 126) (unat c)"
  by (rule class_table) (simp_all add: kAsciiPropertyBits_def upt_rec)

lemma isblank_table:
  "kAsciiPropertyBits ! unat (c :: byte) AND 0x20 \<noteq> 0 \<longleftrightarrow> (\<lambda>n. n = 9 \<or> n = 32) (unat c)"
  by (rule class_table) (simp_all add: kAsciiPropertyBits_def upt_rec)

lemma iscntrl_table:
  "kAsciiPropertyBits ! unat (c :: byte) AND 0x40 \<noteq> 0 \<longleftrightarrow> (\<lambda>n. n < 32 \<or> n = 127) (unat c)"
  by (rule class_table) (simp_all add: kAsciiPropertyBits_def upt_rec)

lemma isxdigit_table:
  "kAsciiPropertyBits ! unat (c :: byte) AND 0x80 \<noteq> 0 \<longleftrightarrow> (\<lambda>n. 48 \<le> n \<and> n \<le> 57 \<or> 65 \<le> n \<and> n \<le> 70 \<or> 97 \<le> n \<and> n \<le> 102) (unat c)"
  by (rule class_table) (simp_all add: kAsciiPropertyBits_def upt_rec)

lemma tolower_table: "kAsciiToLower = map (\<lambda>n. if 65 \<le> n \<and> n \<le> 90 then n + 32 else n) [0..<256]"
  by (simp add: kAsciiToLower_def upt_rec)

lemma toupper_table: "kAsciiToUpper = map (\<lambda>n. if 97 \<le> n \<and> n \<le> 122 then n - 32 else n) [0..<256]"
  by (simp add: kAsciiToUpper_def upt_rec)

lemma ascii_isspace_unat: "ascii_isspace c \<longleftrightarrow> 9 \<le> unat c \<and> unat c \<le> 13 \<or> unat c = 32"
  unfolding ascii_isspace_def by (rule isspace_table)

lemma ascii_isspace_iff [code]: "ascii_isspace c \<longleftrightarrow> (9 \<le> c \<and> c \<le> 13) \<or> c = 32"
  by (simp add: ascii_isspace_unat byte_le_unat word_unat_eq_iff)

lemma ascii_isalpha_iff [code]: "ascii_isalpha c \<longleftrightarrow> ascii_isupper c \<or> ascii_islower c"
  unfolding ascii_isalpha_def isalpha_table
  by (simp add: ascii_isupper_def ascii_islower_def byte_le_unat)

lemma ascii_isalnum_iff [code]: "ascii_isalnum c \<longleftrightarrow> ascii_isalpha c \<or> ascii_isdigit c"
  unfolding ascii_isalnum_def isalnum_table ascii_isalpha_iff
  by (auto simp: ascii_isupper_def ascii_islower_def ascii_isdigit_def byte_le_unat)

lemma ascii_ispunct_iff:
  "ascii_ispunct c \<longleftrightarrow> ascii_isprint c \<and> \<not> ascii_isspace c \<and> \<not> ascii_isalnum c"
proof -
  have "list_all (\<lambda>n. (33 \<le> n \<and> n \<le> 47 \<or> 58 \<le> n \<and> n \<le> 64 \<or> 91 \<le> n \<and> n \<le> 96 \<or> 123 \<le> n \<and> n \<le> 126)
      = (32 \<le> n \<and> n < 127 \<and> \<not> (9 \<le> n \<and> n \<le> 13 \<or> n = 32)
         \<and> \<not> (48 \<le> n \<and> n \<le> 57 \<or> 65 \<le> n \<and> n \<le> 90 \<or> 97 \<le> n \<and> n \<le> 122))) [0..<256]"
    by code_simp
  then show ?thesis
    unfolding all_bytes [symmetric] ascii_isspace_unat ascii_isprint_def byte_le_unat
      ascii_ispunct_def ispunct_table
      ascii_isalnum_def isalnum_table
    by simp
qed

lemma ascii_isblank_iff: "ascii_isblank c \<longleftrightarrow> c = 9 \<or> c = 32"
  unfolding ascii_isblank_def isblank_table by (simp add: word_unat_eq_iff)

lemma ascii_iscntrl_iff: "ascii_iscntrl c \<longleftrightarrow> ascii_isascii c \<and> \<not> ascii_isprint c"
  unfolding ascii_iscntrl_def iscntrl_table
  by (auto simp: ascii_isascii_def ascii_isprint_def byte_le_unat)

lemma ascii_isxdigit_iff [code]:
  "ascii_isxdigit c \<longleftrightarrow> ascii_isdigit c \<or> (65 \<le> c \<and> c \<le> 70) \<or> (97 \<le> c \<and> c \<le> 102)"
  unfolding ascii_isxdigit_def isxdigit_table
  by (simp add: ascii_isdigit_def byte_le_unat)

lemma ascii_isgraph_iff: "ascii_isgraph c \<longleftrightarrow> ascii_isalnum c \<or> ascii_ispunct c"
proof -
  have "ascii_isalnum c \<longrightarrow> ascii_isgraph c"
    unfolding ascii_isalnum_def isalnum_table ascii_isgraph_def byte_le_unat by auto
  moreover have "ascii_isgraph c \<longleftrightarrow> ascii_isprint c \<and> unat c \<noteq> 32"
    by (auto simp: ascii_isgraph_def ascii_isprint_def byte_le_unat)
  moreover have "ascii_isprint c \<longrightarrow> (ascii_isspace c \<longleftrightarrow> unat c = 32)"
    by (auto simp: ascii_isprint_def ascii_isspace_unat byte_le_unat)
  ultimately show ?thesis
    unfolding ascii_ispunct_iff by blast
qed

lemma unat_tolower: "unat (ascii_tolower c) = (if 65 \<le> unat c \<and> unat c \<le> 90 then unat c + 32 else unat c)"
  using unat_byte_lt [of c]
  by (simp add: ascii_tolower_def tolower_table unat_of_nat)

lemma unat_toupper: "unat (ascii_toupper c) = (if 97 \<le> unat c \<and> unat c \<le> 122 then unat c - 32 else unat c)"
  using unat_byte_lt [of c]
  by (simp add: ascii_toupper_def toupper_table unat_of_nat)

lemma toupper_tolower: "ascii_toupper (ascii_tolower c) = ascii_toupper c"
  by (simp add: word_unat_eq_iff unat_tolower unat_toupper)

lemma tolower_toupper: "ascii_tolower (ascii_toupper c) = ascii_tolower c"
  by (auto simp: word_unat_eq_iff unat_tolower unat_toupper)

lemma tolower_idem: "ascii_tolower (ascii_tolower c) = ascii_tolower c"
  by (simp add: word_unat_eq_iff unat_tolower)

end
