(* ===== verification/Base64.thy ===== *)
theory Base64
  imports AsciiCtype
begin

text \<open>
  The Base64 coders of \<^verbatim>\<open>gbase/strings/escaping.cc\<close>, for all four variants (standard or
  web-safe alphabet, with or without padding).  The code indexes its tables with values of
  type \<^verbatim>\<open>char\<close>: whether these are signed depends on the build, so it is a parameter of the
  decoder.  The \<^verbatim>\<open>CMakeLists.txt\<close> of \<^verbatim>\<open>gbase\<close> compiles with \<^verbatim>\<open>-funsigned-char\<close>; its \<^verbatim>\<open>Makefile\<close>
  does not.  A source with its length is the list of its bytes.
\<close>

unbundle bit_operations_syntax

section \<open>Characters\<close>

text \<open>A \<^verbatim>\<open>char\<close> converted to \<^verbatim>\<open>unsigned int\<close>.\<close>

definition char_uint :: "build \<Rightarrow> byte \<Rightarrow> u32" where
  "char_uint b c = word_of_int (char_value b c)"

text \<open>An access \<^verbatim>\<open>table[i]\<close>; an index outside the table is a fault.\<close>

definition table_at :: "int list \<Rightarrow> int \<Rightarrow> fault + int" where
  "table_at t i = (if 0 \<le> i \<and> i < int (length t) then Inr (t ! nat i) else Inl OutOfBounds)"

abbreviation PAD :: byte where "PAD \<equiv> 61"

section \<open>Tables\<close>

definition kUnBase64 :: "int list" where
  "kUnBase64 = [
    -1, -1, -1, -1, -1, -1, -1, -1, -1, -1, -1, -1, -1, -1, -1, -1,
    -1, -1, -1, -1, -1, -1, -1, -1, -1, -1, -1, -1, -1, -1, -1, -1,
    -1, -1, -1, -1, -1, -1, -1, -1, -1, -1, -1, 62, -1, -1, -1, 63,
    52, 53, 54, 55, 56, 57, 58, 59, 60, 61, -1, -1, -1, -1, -1, -1,
    -1,  0,  1,  2,  3,  4,  5,  6,  7,  8,  9, 10, 11, 12, 13, 14,
    15, 16, 17, 18, 19, 20, 21, 22, 23, 24, 25, -1, -1, -1, -1, -1,
    -1, 26, 27, 28, 29, 30, 31, 32, 33, 34, 35, 36, 37, 38, 39, 40,
    41, 42, 43, 44, 45, 46, 47, 48, 49, 50, 51, -1, -1, -1, -1, -1,
    -1, -1, -1, -1, -1, -1, -1, -1, -1, -1, -1, -1, -1, -1, -1, -1,
    -1, -1, -1, -1, -1, -1, -1, -1, -1, -1, -1, -1, -1, -1, -1, -1,
    -1, -1, -1, -1, -1, -1, -1, -1, -1, -1, -1, -1, -1, -1, -1, -1,
    -1, -1, -1, -1, -1, -1, -1, -1, -1, -1, -1, -1, -1, -1, -1, -1,
    -1, -1, -1, -1, -1, -1, -1, -1, -1, -1, -1, -1, -1, -1, -1, -1,
    -1, -1, -1, -1, -1, -1, -1, -1, -1, -1, -1, -1, -1, -1, -1, -1,
    -1, -1, -1, -1, -1, -1, -1, -1, -1, -1, -1, -1, -1, -1, -1, -1,
    -1, -1, -1, -1, -1, -1, -1, -1, -1, -1, -1, -1, -1, -1, -1, -1]"

definition kUnWebSafeBase64 :: "int list" where
  "kUnWebSafeBase64 = [
    -1, -1, -1, -1, -1, -1, -1, -1, -1, -1, -1, -1, -1, -1, -1, -1,
    -1, -1, -1, -1, -1, -1, -1, -1, -1, -1, -1, -1, -1, -1, -1, -1,
    -1, -1, -1, -1, -1, -1, -1, -1, -1, -1, -1, -1, -1, 62, -1, -1,
    52, 53, 54, 55, 56, 57, 58, 59, 60, 61, -1, -1, -1, -1, -1, -1,
    -1,  0,  1,  2,  3,  4,  5,  6,  7,  8,  9, 10, 11, 12, 13, 14,
    15, 16, 17, 18, 19, 20, 21, 22, 23, 24, 25, -1, -1, -1, -1, 63,
    -1, 26, 27, 28, 29, 30, 31, 32, 33, 34, 35, 36, 37, 38, 39, 40,
    41, 42, 43, 44, 45, 46, 47, 48, 49, 50, 51, -1, -1, -1, -1, -1,
    -1, -1, -1, -1, -1, -1, -1, -1, -1, -1, -1, -1, -1, -1, -1, -1,
    -1, -1, -1, -1, -1, -1, -1, -1, -1, -1, -1, -1, -1, -1, -1, -1,
    -1, -1, -1, -1, -1, -1, -1, -1, -1, -1, -1, -1, -1, -1, -1, -1,
    -1, -1, -1, -1, -1, -1, -1, -1, -1, -1, -1, -1, -1, -1, -1, -1,
    -1, -1, -1, -1, -1, -1, -1, -1, -1, -1, -1, -1, -1, -1, -1, -1,
    -1, -1, -1, -1, -1, -1, -1, -1, -1, -1, -1, -1, -1, -1, -1, -1,
    -1, -1, -1, -1, -1, -1, -1, -1, -1, -1, -1, -1, -1, -1, -1, -1,
    -1, -1, -1, -1, -1, -1, -1, -1, -1, -1, -1, -1, -1, -1, -1, -1]"

definition kBase64Chars :: bytes where
  "kBase64Chars = str ''ABCDEFGHIJKLMNOPQRSTUVWXYZabcdefghijklmnopqrstuvwxyz0123456789+/''"

definition kWebSafeBase64Chars :: bytes where
  "kWebSafeBase64Chars = str ''ABCDEFGHIJKLMNOPQRSTUVWXYZabcdefghijklmnopqrstuvwxyz0123456789-_''"

section \<open>Encoder\<close>

definition CalculateBase64EscapedLen :: "int \<Rightarrow> bool \<Rightarrow> fault + int" where
  "CalculateBase64EscapedLen input_len do_padding =
    (let len = wrap32 (c_div input_len 3 * 4);
         len = (if c_mod input_len 3 = 0 then len
                else if c_mod input_len 3 = 1
                then (let len = wrap32 (len + 2) in if do_padding then wrap32 (len + 2) else len)
                else (let len = wrap32 (len + 3) in if do_padding then wrap32 (len + 1) else len))
     in if len \<ge> input_len then Inr len else Inl CheckFailed)"

definition digit :: "bytes \<Rightarrow> byte \<Rightarrow> byte" where
  "digit base64 i = base64 ! unat i"

text \<open>
  The loop over blocks of three bytes and the switch on the tail.  \<open>szdest\<close> is the room left;
  the result is the characters written, or \<open>None\<close> for a destination that is too small, where
  the code returns 0.
\<close>

fun escape_loop :: "bytes \<Rightarrow> bool \<Rightarrow> bytes \<Rightarrow> int \<Rightarrow> bytes option" where
  "escape_loop base64 do_padding (a # b # c # src) szdest =
     (if szdest - 4 < 0 then None
      else map_option (append
        [digit base64 (drop_bit 2 a),
         digit base64 (push_bit 4 (a AND 0x03) + drop_bit 4 b),
         digit base64 (push_bit 2 (b AND 0x0f) + drop_bit 6 c),
         digit base64 (c AND 0x3f)])
        (escape_loop base64 do_padding src (szdest - 4)))"
| "escape_loop base64 do_padding [] szdest = Some []"
| "escape_loop base64 do_padding [a] szdest =
     (if szdest - 2 < 0 then None
      else let out = [digit base64 (drop_bit 2 a), digit base64 (push_bit 4 (a AND 0x03))]
           in if do_padding then if szdest - 2 - 2 < 0 then None else Some (out @ [PAD, PAD])
              else Some out)"
| "escape_loop base64 do_padding [a, b] szdest =
     (if szdest - 3 < 0 then None
      else let out = [digit base64 (drop_bit 2 a),
                      digit base64 (push_bit 4 (a AND 0x03) + drop_bit 4 b),
                      digit base64 (push_bit 2 (b AND 0x0f))]
           in if do_padding then if szdest - 3 - 1 < 0 then None else Some (out @ [PAD])
              else Some out)"

text \<open>\<^verbatim>\<open>Base64EscapeInternal\<close> on buffers: the returned count and the characters in front of it.\<close>

definition Base64EscapeBuffer :: "bytes \<Rightarrow> int \<Rightarrow> int \<Rightarrow> bytes \<Rightarrow> bool \<Rightarrow> int \<times> bytes" where
  "Base64EscapeBuffer src szsrc szdest base64 do_padding =
     (if szsrc \<le> 0 then (0, [])
      else case escape_loop base64 do_padding (take (nat szsrc) src) szdest of
          None \<Rightarrow> (0, [])
        | Some out \<Rightarrow> (int (length out), out))"

text \<open>The same into a string, which is first filled with zero bytes.\<close>

definition Base64EscapeInternal :: "bytes \<Rightarrow> bool \<Rightarrow> bytes \<Rightarrow> fault + bytes" where
  "Base64EscapeInternal src do_padding base64_chars =
     bindE (CalculateBase64EscapedLen (wrap32 (int (length src))) do_padding) (\<lambda>calc_escaped_size.
     let (escaped_len, out) =
           Base64EscapeBuffer src (wrap32 (int (length src))) calc_escaped_size base64_chars do_padding
     in if calc_escaped_size = escaped_len
        then Inr (out @ replicate (nat calc_escaped_size - length out) 0)
        else Inl CheckFailed)"

definition Base64Escape :: "bytes \<Rightarrow> fault + bytes" where
  "Base64Escape src = Base64EscapeInternal src True kBase64Chars"

definition WebSafeBase64Escape :: "bytes \<Rightarrow> fault + bytes" where
  "WebSafeBase64Escape src = Base64EscapeInternal src False kWebSafeBase64Chars"

definition WebSafeBase64EscapeWithPadding :: "bytes \<Rightarrow> fault + bytes" where
  "WebSafeBase64EscapeWithPadding src = Base64EscapeInternal src True kWebSafeBase64Chars"

section \<open>Decoder\<close>

text \<open>
  The variables of the decoder: the rest of the source, the last character read and its code,
  the number of characters of the unfinished group, the bits collected, and the bytes
  produced so far; \<open>room\<close> is \<open>None\<close> for a null destination, where only the count is kept.
\<close>

record decoder =
  src :: bytes
  ch :: u32
  decode :: int
  state :: nat
  temp :: u32
  destidx :: nat
  dest :: bytes
  room :: "nat option"

text \<open>
  \<^verbatim>\<open>GET_INPUT\<close>: reads characters until one has a code, passing over white space while more than
  \<open>remain\<close> are left; the flag of the result tells whether the loop is left.
\<close>

fun get_input :: "build \<Rightarrow> int list \<Rightarrow> nat \<Rightarrow> bytes \<Rightarrow> fault + bytes \<times> u32 \<times> int \<times> bool" where
  "get_input b tab remain [] = Inl OutOfBounds"
| "get_input b tab remain (c # cs) =
     bindE (table_at tab (uint (char_uint b c))) (\<lambda>d.
     if d < 0 then
       if ascii_isspace (ucast (char_uint b c)) \<and> length cs \<ge> remain then get_input b tab remain cs
       else Inr (cs, char_uint b c, d, True)
     else Inr (cs, char_uint b c, d, False))"

text \<open>\<^verbatim>\<open>temp = (temp << 6) | decode\<close>\<close>

definition add_code :: "u32 \<Rightarrow> int \<Rightarrow> u32" where
  "add_code t d = push_bit 6 t OR word_of_int d"

text \<open>Writing the 24 bits of \<^verbatim>\<open>temp\<close>; \<open>None\<close> when there is no room.\<close>

definition put3 :: "decoder \<Rightarrow> decoder option" where
  "put3 s =
     (case room s of
        None \<Rightarrow> Some (s\<lparr>destidx := destidx s + 3\<rparr>)
      | Some n \<Rightarrow>
          if destidx s + 3 > n then None
          else Some (s\<lparr>dest := dest s @ [ucast (drop_bit 16 (temp s)), ucast (drop_bit 8 (temp s)), ucast (temp s)],
                       temp := drop_bit 16 (temp s), destidx := destidx s + 3\<rparr>))"

text \<open>How a pass of the first loop ends: in the next one, behind the loop, or in \<^verbatim>\<open>return -1\<close>.\<close>

datatype exit = Again | Break | Reject

text \<open>The four \<^verbatim>\<open>GET_INPUT\<close> of a pass; without a destination the bits are not collected.\<close>

fun get_codes :: "build \<Rightarrow> int list \<Rightarrow> nat \<Rightarrow> decoder \<Rightarrow> fault + decoder \<times> bool" where
  "get_codes b tab 0 s = Inr (s, False)"
| "get_codes b tab (Suc k) s =
     bindE (get_input b tab (Suc k) (src s)) (\<lambda>(rest, c, d, stop).
     let s = s\<lparr>src := rest, ch := c, decode := d\<rparr>
     in if stop then Inr (s\<lparr>state := 4 - Suc k\<rparr>, True)
        else get_codes b tab k
          (if room s = None then s
           else s\<lparr>temp := (if Suc k = 4 then word_of_int d else add_code (temp s) d)\<rparr>))"

text \<open>
  The test of the next four characters, with the value of \<^verbatim>\<open>temp\<close> if it was assigned; \<open>True\<close>
  when they have to be read one by one.
\<close>

definition probe :: "build \<Rightarrow> int list \<Rightarrow> bytes \<Rightarrow> u32 \<Rightarrow> fault + bool \<times> u32" where
  "probe b tab p t =
     (if p ! 0 = 0 \<or> p ! 1 = 0 \<or> p ! 2 = 0 then Inr (True, t)
      else
        bindE (table_at tab (char_value b (p ! 0))) (\<lambda>d0.
        bindE (table_at tab (char_value b (p ! 1))) (\<lambda>d1.
        bindE (table_at tab (char_value b (p ! 2))) (\<lambda>d2.
        bindE (table_at tab (char_value b (p ! 3))) (\<lambda>d3.
        let t = push_bit 18 (word_of_int d0) OR push_bit 12 (word_of_int d1)
                OR push_bit 6 (word_of_int d2) OR word_of_int d3
        in Inr (t AND 0x80000000 \<noteq> 0, t))))))"

definition quad_pass :: "build \<Rightarrow> int list \<Rightarrow> decoder \<Rightarrow> fault + decoder \<times> exit" where
  "quad_pass b tab s =
     bindE (probe b tab (src s) (temp s)) (\<lambda>(slow, t).
     let s = s\<lparr>temp := t\<rparr>
     in bindE (if slow then get_codes b tab 4 s
               else Inr (s\<lparr>src := drop 4 (src s), decode := -1, ch := 0\<rparr>, False)) (\<lambda>(s, stop).
        if stop then Inr (s, Break)
        else case put3 s of None \<Rightarrow> Inr (s, Reject) | Some s \<Rightarrow> Inr (s, Again)))"

text \<open>The first loop, which consumes at least a character a pass: the length of the source is fuel enough.\<close>

fun quad_loop :: "nat \<Rightarrow> build \<Rightarrow> int list \<Rightarrow> decoder \<Rightarrow> fault + decoder option" where
  "quad_loop fuel b tab s =
     (if length (src s) < 4 then Inr (Some s)
      else case fuel of
          0 \<Rightarrow> Inl Unreachable
        | Suc fuel \<Rightarrow>
            bindE (quad_pass b tab s) (\<lambda>(s, e).
            case e of Again \<Rightarrow> quad_loop fuel b tab s | Break \<Rightarrow> Inr (Some s) | Reject \<Rightarrow> Inr None))"

declare quad_loop.simps [simp del]

text \<open>The second loop, one character at a time.\<close>

fun single_loop :: "build \<Rightarrow> int list \<Rightarrow> bytes \<Rightarrow> decoder \<Rightarrow> fault + decoder option" where
  "single_loop b tab [] s = Inr (Some (s\<lparr>src := []\<rparr>))"
| "single_loop b tab (c # cs) s =
     (let s = s\<lparr>ch := char_uint b c\<rparr> in
      bindE (table_at tab (uint (ch s))) (\<lambda>d.
      let s = s\<lparr>decode := d\<rparr> in
      if d < 0 then
        if ascii_isspace (ucast (ch s)) then single_loop b tab cs s
        else if ch s = 0 then Inr (Some (s\<lparr>src := cs\<rparr>))
        else if ch s = ucast PAD then Inr (Some (s\<lparr>src := c # cs\<rparr>))
        else Inr None
      else
        let s = s\<lparr>temp := add_code (temp s) d, state := state s + 1\<rparr>
        in if state s = 4 then
             case put3 s of
               None \<Rightarrow> Inr None
             | Some s \<Rightarrow> single_loop b tab cs (s\<lparr>state := 0, temp := 0\<rparr>)
           else single_loop b tab cs s))"

text \<open>The count of padding in what is left; \<open>None\<close> for a character that may not stand there.\<close>

fun count_equals :: "bytes \<Rightarrow> nat \<Rightarrow> nat option" where
  "count_equals [] n = Some n"
| "count_equals (c # cs) n =
     (if c = 0 then Some n
      else if c = PAD then count_equals cs (n + 1)
      else if \<not> ascii_isspace c then None
      else count_equals cs n)"

text \<open>The switch on \<^verbatim>\<open>state\<close>: the decoder and the number of pads expected.\<close>

definition leftover :: "decoder \<Rightarrow> fault + (decoder \<times> nat) option" where
  "leftover s =
     (if state s = 0 then Inr (Some (s, 0))
      else if state s = 1 then Inr None
      else if state s = 2 then
        case room s of
          None \<Rightarrow> Inr (Some (s\<lparr>destidx := destidx s + 1\<rparr>, 2))
        | Some n \<Rightarrow>
            if destidx s + 1 > n then Inr None
            else Inr (Some (s\<lparr>dest := dest s @ [ucast (drop_bit 4 (temp s))], destidx := destidx s + 1\<rparr>, 2))
      else if state s = 3 then
        case room s of
          None \<Rightarrow> Inr (Some (s\<lparr>destidx := destidx s + 2\<rparr>, 1))
        | Some n \<Rightarrow>
            if destidx s + 2 > n then Inr None
            else Inr (Some (s\<lparr>dest := dest s @ [ucast (drop_bit 10 (temp s)), ucast (drop_bit 2 (temp s))],
                              destidx := destidx s + 2\<rparr>, 1))
      else Inl CheckFailed)"

text \<open>What follows the first loop.\<close>

definition finish :: "build \<Rightarrow> int list \<Rightarrow> decoder \<Rightarrow> fault + int \<times> bytes" where
  "finish b unbase64 s =
     (if decode s < 0 \<and> ch s \<noteq> 0 \<and> ch s \<noteq> ucast PAD \<and> \<not> ascii_isspace (ucast (ch s)) then Inr (-1, [])
      else
        bindE (if ch s = ucast PAD then Inr (Some (s\<lparr>src := PAD # src s\<rparr>))
               else single_loop b unbase64 (src s) s) (\<lambda>r.
        case r of None \<Rightarrow> Inr (-1, [])
        | Some s \<Rightarrow>
          bindE (leftover s) (\<lambda>r.
          case r of None \<Rightarrow> Inr (-1, [])
          | Some (s, expected_equals) \<Rightarrow>
            case count_equals (src s) 0 of
              None \<Rightarrow> Inr (-1, [])
            | Some equals \<Rightarrow>
                Inr (if equals = 0 \<or> equals = expected_equals then (int (destidx s), dest s) else (-1, [])))))"

text \<open>
  \<^verbatim>\<open>Base64UnescapeInternal\<close> on buffers: the result, -1 for bad input or a destination that is too
  small, and the bytes written.
\<close>

definition start :: "bytes \<Rightarrow> nat option \<Rightarrow> decoder" where
  "start p szdest = \<lparr>src = p, ch = 0, decode = 0, state = 0, temp = 0, destidx = 0, dest = [], room = szdest\<rparr>"

definition Base64UnescapeBuffer :: "build \<Rightarrow> bytes \<Rightarrow> nat option \<Rightarrow> int list \<Rightarrow> fault + int \<times> bytes" where
  "Base64UnescapeBuffer b p szdest unbase64 =
     bindE (quad_loop (length p) b unbase64 (start p szdest)) (\<lambda>r.
       case r of None \<Rightarrow> Inr (-1, []) | Some s \<Rightarrow> finish b unbase64 s)"

text \<open>The same into a string: whether the source is good, and the string.\<close>

definition Base64UnescapeInternal :: "build \<Rightarrow> bytes \<Rightarrow> int list \<Rightarrow> fault + bool \<times> bytes" where
  "Base64UnescapeInternal b p unbase64 =
     (let dest_len = 3 * (length p div 4) + length p mod 4
      in bindE (Base64UnescapeBuffer b p (if dest_len = 0 then None else Some dest_len) unbase64) (\<lambda>(len, out).
         if len < 0 then Inr (False, [])
         else if \<not> len \<le> int dest_len then Inl CheckFailed
         else Inr (True, take (nat len) (out @ replicate (dest_len - length out) 0))))"

definition Base64Unescape :: "build \<Rightarrow> bytes \<Rightarrow> fault + bool \<times> bytes" where
  "Base64Unescape b p = Base64UnescapeInternal b p kUnBase64"

definition WebSafeBase64Unescape :: "build \<Rightarrow> bytes \<Rightarrow> fault + bool \<times> bytes" where
  "WebSafeBase64Unescape b p = Base64UnescapeInternal b p kUnWebSafeBase64"

section \<open>Alphabets\<close>

definition code_ok :: "bytes \<Rightarrow> int list \<Rightarrow> nat \<Rightarrow> bool" where
  "code_ok base64 tab i \<longleftrightarrow>
     (let c = base64 ! i in 0 < c \<and> c < 128 \<and> c \<noteq> PAD \<and> \<not> ascii_isspace c \<and> tab ! unat c = int i)"

locale base64_alphabet =
  fixes base64 :: bytes and tab :: "int list"
  assumes inverse: "list_all (code_ok base64 tab) [0..<64]"
    and size: "length tab = 256"
    and pad: "tab ! 61 = -1"

interpretation standard: base64_alphabet kBase64Chars kUnBase64
  by unfold_locales code_simp+

interpretation web_safe: base64_alphabet kWebSafeBase64Chars kUnWebSafeBase64
  by unfold_locales code_simp+

lemma masks64: "(0x03 :: byte) = mask 2" "(0x0f :: byte) = mask 4" "(0x3f :: byte) = mask 6"
  by (simp_all add: mask_eq_exp_minus_1)

lemma take_bit_6: "take_bit 6 x = x \<longleftrightarrow> (\<forall>n\<ge>6. \<not> bit x n)" for x :: byte
proof
  assume e: "take_bit 6 x = x"
  have "\<not> bit (take_bit 6 x) n" if "n \<ge> 6" for n using that by (simp add: bit_take_bit_iff)
  then show "\<forall>n\<ge>6. \<not> bit x n" unfolding e by blast
next
  assume "\<forall>n\<ge>6. \<not> bit x n"
  then show "take_bit 6 x = x"
    by (intro bit_word_eqI) (auto simp: bit_take_bit_iff not_le [symmetric])
qed

lemma less_64_bits: "x < 64 \<longleftrightarrow> (\<forall>n\<ge>6. \<not> bit x n)" for x :: byte
proof -
  have "x < 64 \<longleftrightarrow> unat x mod 64 = unat x"
    by (simp add: word_less_nat_alt mod_eq_self_iff_div_eq_0 div_eq_0_iff)
  also have "\<dots> \<longleftrightarrow> take_bit 6 x = x"
    by (simp add: take_bit_eq_mod word_unat_eq_iff unat_mod)
  finally show ?thesis by (simp only: take_bit_6)
qed

lemma no_high_bit [simp]: "8 \<le> n \<Longrightarrow> \<not> bit (b :: byte) n"
  using bit_imp_le_length [of b n] by auto

definition four :: "byte \<Rightarrow> byte \<Rightarrow> byte \<Rightarrow> byte \<Rightarrow> u32" where
  "four x0 x1 x2 x3 = push_bit 18 (ucast x0) OR push_bit 12 (ucast x1) OR push_bit 6 (ucast x2) OR ucast x3"

lemma disjoint_sum: "push_bit 4 (a AND 0x03) + drop_bit 4 b = push_bit 4 (a AND 0x03) OR drop_bit 4 (b :: byte)"
  by (rule disjunctive_add) (auto simp: bit_simps masks64 dest: bit_imp_le_length)

lemma disjoint_sum': "push_bit 2 (b AND 0x0f) + drop_bit 6 c = push_bit 2 (b AND 0x0f) OR drop_bit 6 (c :: byte)"
  by (rule disjunctive_add) (auto simp: bit_simps masks64 dest: bit_imp_le_length)

lemma digits_small:
  "drop_bit 2 (a :: byte) < 64" "push_bit 4 (a AND 0x03) + drop_bit 4 b < 64"
  "push_bit 2 (b AND 0x0f) + drop_bit 6 c < 64" "(c :: byte) AND 0x3f < 64"
  "push_bit 4 (a AND 0x03) < 64" "push_bit 2 (b AND 0x0f) < 64"
  unfolding less_64_bits disjoint_sum disjoint_sum'
  by (auto simp: bit_simps masks64 dest: bit_imp_le_length)

lemma byte_bitI:
  assumes "bit x 0 = bit y 0" "bit x 1 = bit y 1" "bit x 2 = bit y 2" "bit x 3 = bit y 3"
    "bit x 4 = bit y 4" "bit x 5 = bit y 5" "bit x 6 = bit y 6" "bit x 7 = bit (y :: byte) 7"
  shows "x = y"
proof (rule bit_word_eqI)
  fix n :: nat
  assume "n < LENGTH(8)"
  then have "n \<in> {0, 1, 2, 3, 4, 5, 6, 7}" by auto
  then show "bit x n = bit y n" using assms by auto
qed

lemma four_bytes:
  shows "y < 64 \<Longrightarrow> z < 64 \<Longrightarrow>
    ucast (drop_bit 16 (four (drop_bit 2 a) (push_bit 4 (a AND 0x03) + drop_bit 4 b) y z)) = (a :: byte)"
  and "x < 64 \<Longrightarrow> z < 64 \<Longrightarrow>
    ucast (drop_bit 8 (four x (push_bit 4 (a AND 0x03) + drop_bit 4 b)
      (push_bit 2 (b AND 0x0f) + drop_bit 6 c) z)) = (b :: byte)"
  and "ucast (four x y (push_bit 2 (b AND 0x0f) + drop_bit 6 c) (c AND 0x3f)) = (c :: byte)"
  unfolding disjoint_sum disjoint_sum' four_def less_64_bits
  by (intro byte_bitI; simp add: bit_simps masks64)+

lemma four_no_sign: "x0 < 64 \<Longrightarrow> x1 < 64 \<Longrightarrow> x2 < 64 \<Longrightarrow> x3 < 64 \<Longrightarrow> four x0 x1 x2 x3 AND 0x80000000 = 0"
proof -
  assume "x0 < 64" "x1 < 64" "x2 < 64" "x3 < 64"
  then have "\<not> bit (four x0 x1 x2 x3) 31"
    unfolding less_64_bits four_def by (simp add: bit_simps)
  moreover have "(0x80000000 :: u32) = 2 ^ 31" by simp
  ultimately show ?thesis
    by (metis and_exp_eq_0_iff_not_bit)
qed

section \<open>What the encoder writes\<close>

fun esc :: "bytes \<Rightarrow> bool \<Rightarrow> bytes \<Rightarrow> bytes" where
  "esc base64 do_padding (a # b # c # xs) =
     [digit base64 (drop_bit 2 a), digit base64 (push_bit 4 (a AND 0x03) + drop_bit 4 b),
      digit base64 (push_bit 2 (b AND 0x0f) + drop_bit 6 c), digit base64 (c AND 0x3f)]
     @ esc base64 do_padding xs"
| "esc base64 do_padding [] = []"
| "esc base64 do_padding [a] =
     [digit base64 (drop_bit 2 a), digit base64 (push_bit 4 (a AND 0x03))] @ (if do_padding then [PAD, PAD] else [])"
| "esc base64 do_padding [a, b] =
     [digit base64 (drop_bit 2 a), digit base64 (push_bit 4 (a AND 0x03) + drop_bit 4 b),
      digit base64 (push_bit 2 (b AND 0x0f))] @ (if do_padding then [PAD] else [])"

lemma escape_loop_esc:
  "0 \<le> n \<Longrightarrow> escape_loop base64 do_padding xs n =
     (if int (length (esc base64 do_padding xs)) \<le> n then Some (esc base64 do_padding xs) else None)"
  by (induction base64 do_padding xs n rule: escape_loop.induct) (auto simp: Let_def)

lemma div_3: "(3 + n) div 3 = Suc (n div 3)" for n :: nat
  by (simp add: div_add_self1)

lemma length_esc:
  "length (esc base64 do_padding xs) =
     4 * (length xs div 3) + (if length xs mod 3 = 0 then 0 else if do_padding then 4 else length xs mod 3 + 1)"
  by (induction base64 do_padding xs rule: esc.induct) (auto simp: div_3)

lemma CalculateBase64EscapedLen_esc:
  assumes "4 * int (length xs) + 12 < 3 * 2 ^ 31"
  shows "CalculateBase64EscapedLen (int (length xs)) do_padding = Inr (int (length (esc base64 do_padding xs)))"
proof -
  define n where "n = length xs"
  define q r where "q = n div 3" and "r = n mod 3"
  have n: "n = 3 * q + r" "r < 3" by (simp_all add: q_def r_def)
  have w: "wrap32 x = x" if "0 \<le> x" "x < 2 ^ 31" for x using that by (simp add: wrap32_def)
  have small: "4 * int q + 4 < 2 ^ 31" using assms n(1) unfolding n_def by simp
  have d: "c_div (int n) 3 = int q" "c_mod (int n) 3 = int r"
    by (simp_all add: c_div_nonneg c_mod_nonneg q_def r_def zdiv_int zmod_int)
  have len: "length (esc base64 do_padding xs) = 4 * q + (if r = 0 then 0 else if do_padding then 4 else r + 1)"
    unfolding length_esc n_def [symmetric] by (simp add: q_def r_def)
  consider "r = 0" | "r = 1" | "r = 2" using n(2) by linarith
  then show ?thesis
    unfolding len unfolding n_def [symmetric] CalculateBase64EscapedLen_def Let_def d
    using small n by cases (simp_all add: w)
qed

section \<open>Decoding what the encoder writes\<close>

lemma ucast_code: "word_of_int (uint x) = (ucast x :: u32)" for x :: byte
  by (rule ucast_eq [symmetric])

lemma char_uint_ascii: "c < 128 \<Longrightarrow> char_uint b c = ucast c"
  unfolding char_uint_def by (simp only: char_value_ascii ucast_code)

lemma uint_ucast_u32: "uint (ucast (c :: byte) :: u32) = uint c"
  by (rule uint_up_ucast) (simp add: is_up)

lemma ucast_u32_eq: "(ucast c :: u32) = ucast d \<longleftrightarrow> c = d" for c d :: byte
  by (metis uint_ucast_u32 word_uint_eq_iff)

lemma ucast_ucast_byte: "ucast (ucast c :: u32) = c" for c :: byte
  by (rule bit_word_eqI) (simp add: bit_simps)

definition one_code :: "build \<Rightarrow> int list \<Rightarrow> byte \<Rightarrow> byte \<Rightarrow> bool" where
  "one_code b tab c x \<longleftrightarrow> c \<noteq> 0 \<and> c \<noteq> PAD \<and> c < 128 \<and> \<not> ascii_isspace c \<and>
     table_at tab (uint c) = Inr (uint x) \<and> x < 64"

context base64_alphabet
begin

lemma digit_code:
  assumes "x < 64"
  shows "one_code b tab (digit base64 x) x"
proof -
  have "unat x < 64" using assms by (simp add: word_less_nat_alt)
  then have "code_ok base64 tab (unat x)" using inverse by (auto simp: list_all_iff)
  then have c: "0 < digit base64 x" "digit base64 x < 128" "digit base64 x \<noteq> PAD"
    "\<not> ascii_isspace (digit base64 x)" "tab ! unat (digit base64 x) = int (unat x)"
    by (auto simp: code_ok_def digit_def Let_def)
  have "table_at tab (uint (digit base64 x)) = Inr (uint x)"
    using c(5) size by (simp add: table_at_def)
  then show ?thesis using c assms by (auto simp: one_code_def)
qed

lemma pad_code: "table_at tab 61 = Inr (-1)"
  using size pad by (simp add: table_at_def)

end

lemma get_input_code:
  assumes "one_code b tab c x"
  shows "get_input b tab k (c # cs) = Inr (cs, ucast c, uint x, False)"
  using assms uint_byte_bounds(1) [of x]
  by (simp add: one_code_def char_uint_ascii uint_ucast_u32)

lemma get_input_pad:
  assumes "table_at tab 61 = Inr (-1)"
  shows "get_input b tab k (PAD # cs) = Inr (cs, ucast PAD, -1, True)"
  using assms by (simp add: char_uint_ascii uint_ucast_u32 ucast_ucast_byte ascii_isspace_iff)

lemma single_code:
  assumes "one_code b tab c x" "state s + 1 \<noteq> 4"
  shows "single_loop b tab (c # cs) s = single_loop b tab cs
    (s\<lparr>ch := ucast c, decode := uint x, temp := add_code (temp s) (uint x), state := state s + 1\<rparr>)"
  using assms uint_byte_bounds(1) [of x]
  by (simp add: one_code_def char_uint_ascii uint_ucast_u32 Let_def)

lemma probe_codes:
  assumes "one_code b tab c0 x0" "one_code b tab c1 x1" "one_code b tab c2 x2" "one_code b tab c3 x3"
  shows "probe b tab (c0 # c1 # c2 # c3 # cs) t = Inr (False, four x0 x1 x2 x3)"
  using assms four_no_sign [of x0 x1 x2 x3]
  by (simp add: probe_def one_code_def char_value_ascii Let_def four_def ucast_code)

lemma quad_codes:
  assumes "one_code b tab c0 x0" "one_code b tab c1 x1" "one_code b tab c2 x2" "one_code b tab c3 x3"
    and "src s = c0 # c1 # c2 # c3 # cs" "room s = Some n" "destidx s + 3 \<le> n"
  shows "quad_pass b tab s = Inr (s\<lparr>src := cs, decode := -1, ch := 0,
     temp := drop_bit 16 (four x0 x1 x2 x3),
     dest := dest s @ [ucast (drop_bit 16 (four x0 x1 x2 x3)), ucast (drop_bit 8 (four x0 x1 x2 x3)),
                       ucast (four x0 x1 x2 x3)],
     destidx := destidx s + 3\<rparr>, Again)"
  using assms(5-7) probe_codes [OF assms(1-4)]
  by (simp add: quad_pass_def Let_def put3_def)

lemma or_sign: "(x :: u32) AND 0x80000000 \<noteq> 0 \<longleftrightarrow> bit x 31"
  using and_exp_eq_0_iff_not_bit [of x 31] by simp

lemma bit_minus_1: "bit (push_bit k (- 1 :: u32)) 31 \<longleftrightarrow> k \<le> 31"
  by (auto simp: bit_simps)

text \<open>A group that ends in padding is read character by character.\<close>

lemma quad_padded:
  assumes "table_at tab 61 = Inr (-1)" "one_code b tab c0 x0" "one_code b tab c1 x1" "room s = Some n"
  shows "src s = [c0, c1, PAD, PAD] \<Longrightarrow>
      \<exists>s'. quad_pass b tab s = Inr (s', Break) \<and> src s' = [PAD] \<and> ch s' = ucast PAD \<and> decode s' = -1
        \<and> state s' = 2 \<and> temp s' = add_code (ucast x0) (uint x1) \<and> dest s' = dest s \<and> destidx s' = destidx s
        \<and> room s' = room s"
    and "src s = [c0, c1, c2, PAD] \<Longrightarrow> one_code b tab c2 x2 \<Longrightarrow>
      \<exists>s'. quad_pass b tab s = Inr (s', Break) \<and> src s' = [] \<and> ch s' = ucast PAD \<and> decode s' = -1
        \<and> state s' = 3 \<and> temp s' = add_code (add_code (ucast x0) (uint x1)) (uint x2)
        \<and> dest s' = dest s \<and> destidx s' = destidx s \<and> room s' = room s"
proof -
  have pad: "char_value b PAD = 61" by (simp add: char_value_ascii)
  note codes = get_input_code [OF assms(2)] get_input_code [OF assms(3)] get_input_pad [OF assms(1)]
  {
    assume s: "src s = [c0, c1, PAD, PAD]"
    obtain t where "probe b tab (src s) (temp s) = Inr (True, t)"
      using assms s pad by (auto simp: probe_def one_code_def char_value_ascii Let_def or_sign bit_or_iff bit_minus_1)
    then show "\<exists>s'. quad_pass b tab s = Inr (s', Break) \<and> src s' = [PAD] \<and> ch s' = ucast PAD \<and> decode s' = -1
        \<and> state s' = 2 \<and> temp s' = add_code (ucast x0) (uint x1) \<and> dest s' = dest s \<and> destidx s' = destidx s
        \<and> room s' = room s"
      using s assms(4) codes ucast_code by (simp add: quad_pass_def numeral_eq_Suc Let_def)
  }
  {
    assume s: "src s = [c0, c1, c2, PAD]" and c2: "one_code b tab c2 x2"
    obtain t where "probe b tab (src s) (temp s) = Inr (True, t)"
      using assms s c2 pad by (auto simp: probe_def one_code_def char_value_ascii Let_def or_sign bit_or_iff)
    then show "\<exists>s'. quad_pass b tab s = Inr (s', Break) \<and> src s' = [] \<and> ch s' = ucast PAD \<and> decode s' = -1
        \<and> state s' = 3 \<and> temp s' = add_code (add_code (ucast x0) (uint x1)) (uint x2)
        \<and> dest s' = dest s \<and> destidx s' = destidx s \<and> room s' = room s"
      using s assms(4) codes get_input_code [OF c2] ucast_code
      by (simp add: quad_pass_def numeral_eq_Suc Let_def)
  }
qed

lemma last_bytes:
  "ucast (drop_bit 4 (add_code (add_code t (uint (drop_bit 2 a))) (uint (push_bit 4 (a AND 0x03))))) = (a :: byte)"
  "ucast (drop_bit 10 (add_code (add_code (add_code t (uint (drop_bit 2 a)))
      (uint (push_bit 4 (a AND 0x03) + drop_bit 4 b))) (uint (push_bit 2 (b AND 0x0f))))) = a"
  "ucast (drop_bit 2 (add_code (add_code (add_code t (uint x))
      (uint (push_bit 4 (a AND 0x03) + drop_bit 4 b))) (uint (push_bit 2 (b AND 0x0f))))) = (b :: byte)"
  unfolding disjoint_sum add_code_def ucast_code
  by (intro byte_bitI; simp add: bit_simps masks64)+

lemma last_bytes_first:
  "ucast (drop_bit 4 (add_code (ucast (drop_bit 2 a)) (uint (push_bit 4 (a AND 0x03))))) = (a :: byte)"
  "ucast (drop_bit 10 (add_code (add_code (ucast (drop_bit 2 a))
      (uint (push_bit 4 (a AND 0x03) + drop_bit 4 b))) (uint (push_bit 2 (b AND 0x0f))))) = a"
  "ucast (drop_bit 2 (add_code (add_code (ucast x)
      (uint (push_bit 4 (a AND 0x03) + drop_bit 4 b))) (uint (push_bit 2 (b AND 0x0f))))) = (b :: byte)"
  unfolding disjoint_sum add_code_def ucast_code
  by (intro byte_bitI; simp add: bit_simps masks64)+

definition decode_from :: "nat \<Rightarrow> build \<Rightarrow> int list \<Rightarrow> decoder \<Rightarrow> fault + int \<times> bytes" where
  "decode_from fuel b tab s =
     bindE (quad_loop fuel b tab s) (\<lambda>r. case r of None \<Rightarrow> Inr (-1, []) | Some s \<Rightarrow> finish b tab s)"

lemma decode_from_again:
  assumes "quad_pass b tab s = Inr (s', Again)" "4 \<le> length (src s)"
  shows "decode_from (Suc fuel) b tab s = decode_from fuel b tab s'"
  using assms by (simp add: decode_from_def quad_loop.simps [of "Suc fuel"])

lemma decode_from_break:
  assumes "quad_pass b tab s = Inr (s', Break)" "4 \<le> length (src s)"
  shows "decode_from (Suc fuel) b tab s = finish b tab s'"
  using assms by (simp add: decode_from_def quad_loop.simps [of "Suc fuel"])

lemma decode_from_short: "length (src s) < 4 \<Longrightarrow> decode_from fuel b tab s = finish b tab s"
  by (simp add: decode_from_def quad_loop.simps [of fuel])

lemma finish_pad:
  assumes "ch s = ucast PAD" "room s = Some n"
  shows "finish b tab s = bindE (leftover (s\<lparr>src := PAD # src s\<rparr>)) (\<lambda>r.
          case r of None \<Rightarrow> Inr (-1, [])
          | Some (s, expected_equals) \<Rightarrow>
            case count_equals (src s) 0 of
              None \<Rightarrow> Inr (-1, [])
            | Some equals \<Rightarrow>
                Inr (if equals = 0 \<or> equals = expected_equals then (int (destidx s), dest s) else (-1, [])))"
  using assms by (simp add: finish_def)

lemma finish_single:
  assumes "ch s = 0"
  shows "finish b tab s = bindE (single_loop b tab (src s) s) (\<lambda>r.
        case r of None \<Rightarrow> Inr (-1, [])
        | Some s \<Rightarrow>
          bindE (leftover s) (\<lambda>r.
          case r of None \<Rightarrow> Inr (-1, [])
          | Some (s, expected_equals) \<Rightarrow>
            case count_equals (src s) 0 of
              None \<Rightarrow> Inr (-1, [])
            | Some equals \<Rightarrow>
                Inr (if equals = 0 \<or> equals = expected_equals then (int (destidx s), dest s) else (-1, []))))"
proof -
  have "(0 :: u32) \<noteq> ucast PAD" using ucast_u32_eq [of 0 PAD] by simp
  then show ?thesis using assms by (simp add: finish_def)
qed

lemma list3_induct [case_names nil one two three]:
  assumes "P []" "\<And>x. P [x]" "\<And>x y. P [x, y]" "\<And>x y z xs. P xs \<Longrightarrow> P (x # y # z # xs)"
  shows "P (xs :: 'a list)"
proof (induction xs rule: length_induct)
  case (1 xs)
  show ?case
  proof (cases "length xs < 3")
    case True
    then show ?thesis using assms(1-3) by (cases xs; cases "tl xs"; cases "tl (tl xs)") auto
  next
    case False
    then obtain x y z ys where "xs = x # y # z # ys"
      by (cases xs; cases "tl xs"; cases "tl (tl xs)") auto
    then show ?thesis using 1 assms(4) by simp
  qed
qed

context base64_alphabet
begin

lemmas codes_of = digit_code [OF digits_small(1)] digit_code [OF digits_small(2)]
  digit_code [OF digits_small(3)] digit_code [OF digits_small(4)] digit_code [OF digits_small(5)]
  digit_code [OF digits_small(6)]

lemma decode_esc:
  "src s = esc base64 do_padding xs \<Longrightarrow> ch s = 0 \<Longrightarrow> state s = 0 \<Longrightarrow> room s = Some n \<Longrightarrow>
   destidx s + length xs \<le> n \<Longrightarrow> length (esc base64 do_padding xs) \<le> fuel \<Longrightarrow>
   decode_from fuel b tab s = Inr (int (destidx s + length xs), dest s @ xs)"
proof (induction xs arbitrary: s fuel rule: list3_induct)
  case (three x y z xs)
  obtain fuel' where fuel: "fuel = Suc fuel'" using three.prems(6) by (cases fuel) auto
  let ?t = "four (drop_bit 2 x) (push_bit 4 (x AND 0x03) + drop_bit 4 y)
      (push_bit 2 (y AND 0x0f) + drop_bit 6 z) (z AND 0x3f)"
  let ?s = "s\<lparr>src := esc base64 do_padding xs, decode := -1, ch := 0, temp := drop_bit 16 ?t,
      dest := dest s @ [x, y, z], destidx := destidx s + 3\<rparr>"
  have "quad_pass b tab s = Inr (?s, Again)"
    using quad_codes [OF codes_of(1) [of b x] codes_of(2) [of b x y] codes_of(3) [of b y z]
        codes_of(4) [of b z], where s = s and cs = "esc base64 do_padding xs" and n = n]
      three.prems four_bytes digits_small by simp
  then have "decode_from fuel b tab s = decode_from fuel' b tab ?s"
    unfolding fuel by (rule decode_from_again) (use three.prems in simp)
  also have "\<dots> = Inr (int (destidx ?s + length xs), dest ?s @ xs)"
    by (rule three.IH) (use three.prems fuel in auto)
  finally show ?case by simp
next
  case nil
  then show ?case by (simp add: decode_from_short finish_single leftover_def)
next
  case (one x)
  let ?c0 = "digit base64 (drop_bit 2 x)" and ?c1 = "digit base64 (push_bit 4 (x AND 0x03))"
  show ?case
  proof (cases do_padding)
    case True
    obtain fuel' where fuel: "fuel = Suc fuel'" using one.prems(6) True by (cases fuel) auto
    obtain s' where s': "quad_pass b tab s = Inr (s', Break)" "src s' = [PAD]" "ch s' = ucast PAD"
      "state s' = 2" "temp s' = add_code (ucast (drop_bit 2 x)) (uint (push_bit 4 (x AND 0x03)))"
      "dest s' = dest s" "destidx s' = destidx s" "room s' = room s"
      using quad_padded(1) [OF pad_code codes_of(1) [of b x] codes_of(5) [of b x] one.prems(4)] one.prems(1) True
      by auto
    have "decode_from fuel b tab s = finish b tab s'"
      unfolding fuel by (rule decode_from_break [OF s'(1)]) (use one.prems True in simp)
    then show ?thesis
      using s' one.prems by (simp add: finish_pad leftover_def last_bytes_first [simplified])
  next
    case False
    then have "decode_from fuel b tab s = finish b tab s" using one.prems by (simp add: decode_from_short)
    then show ?thesis
      using False one.prems single_code [OF codes_of(1) [of b x]] single_code [OF codes_of(5) [of b x]]
      by (simp add: finish_single leftover_def last_bytes [simplified])
  qed
next
  case (two x y)
  show ?case
  proof (cases do_padding)
    case True
    obtain fuel' where fuel: "fuel = Suc fuel'" using two.prems(6) True by (cases fuel) auto
    obtain s' where s': "quad_pass b tab s = Inr (s', Break)" "src s' = []" "ch s' = ucast PAD"
      "state s' = 3" "temp s' = add_code (add_code (ucast (drop_bit 2 x))
          (uint (push_bit 4 (x AND 0x03) + drop_bit 4 y))) (uint (push_bit 2 (y AND 0x0f)))"
      "dest s' = dest s" "destidx s' = destidx s" "room s' = room s"
      using quad_padded(2) [OF pad_code codes_of(1) [of b x] codes_of(2) [of b x y] two.prems(4) _ codes_of(6) [of b y]]
        two.prems(1) True by auto
    have "decode_from fuel b tab s = finish b tab s'"
      unfolding fuel by (rule decode_from_break [OF s'(1)]) (use two.prems True in simp)
    then show ?thesis
      using s' two.prems by (simp add: finish_pad leftover_def last_bytes_first [simplified])
  next
    case False
    then have "decode_from fuel b tab s = finish b tab s" using two.prems by (simp add: decode_from_short)
    then show ?thesis
      using False two.prems single_code [OF codes_of(1) [of b x]] single_code [OF codes_of(2) [of b x y]]
        single_code [OF codes_of(6) [of b y]]
      by (simp add: finish_single leftover_def last_bytes [simplified])
  qed
qed

end

section \<open>The decoder on any input\<close>

text \<open>The characters whose value is an index of the tables.\<close>

definition plain :: "build \<Rightarrow> byte \<Rightarrow> bool" where
  "plain b c \<longleftrightarrow> 0 \<le> char_value b c"

lemma sint_high:
  assumes "128 \<le> c"
  shows "sint (c :: byte) < 0"
proof -
  have "128 \<le> uint c" using assms by (simp add: word_le_def)
  then have "uint c div 128 = 1" using uint_byte_bounds(2) [of c] by linarith
  then have "bit (uint c) 7" by (simp add: bit_iff_odd)
  then have "sint c = take_bit 7 (uint c) OR NOT (mask 7)"
    by (simp add: sint_uint signed_take_bit_eq_if_negative)
  then show ?thesis by (simp add: or_negative_int_iff)
qed

lemma plain_iff: "plain b c \<longleftrightarrow> b = UnsignedChar \<or> c < 128"
proof (cases "c < 128")
  case True
  then show ?thesis by (simp add: plain_def char_value_ascii)
next
  case False
  then show ?thesis using sint_high [of c] by (cases b) (simp_all add: plain_def not_less)
qed

lemma plain_value: "plain b c \<Longrightarrow> char_value b c = uint c"
  using char_value_ascii [of c b] by (auto simp: plain_iff)

lemma plain_uint: "plain b c \<Longrightarrow> uint (char_uint b c) = uint c"
  by (simp add: char_uint_def plain_value ucast_code uint_ucast_u32 del: word_of_int_uint)

definition decoder_inv :: "build \<Rightarrow> nat option \<Rightarrow> decoder \<Rightarrow> bool" where
  "decoder_inv b n s \<longleftrightarrow> state s < 4 \<and> room s = n \<and> (\<forall>k. n = Some k \<longrightarrow> destidx s \<le> k) \<and>
     list_all (plain b) (src s)"

context base64_alphabet
begin

lemma table_total [simp]: "table_at tab (uint (c :: byte)) = Inr (tab ! unat c)"
  using size uint_byte_bounds [of c] by (simp add: table_at_def)

lemma get_input_total:
  assumes "list_all (plain b) cs" "0 < k" "k \<le> length cs"
  shows "\<exists>rest c d stop. get_input b tab k cs = Inr (rest, c, d, stop) \<and> list_all (plain b) rest
     \<and> k - 1 \<le> length rest \<and> length rest < length cs"
  using assms
proof (induction cs)
  case (Cons c cs)
  have t: "table_at tab (uint (char_uint b c)) = Inr (tab ! unat c)"
    using Cons.prems by (simp add: plain_uint)
  show ?case
  proof (cases "tab ! unat c < 0 \<and> ascii_isspace (ucast (char_uint b c)) \<and> k \<le> length cs")
    case True
    then show ?thesis using Cons t by (auto intro: less_SucI)
  next
    case False
    then show ?thesis using Cons.prems t by (auto simp: not_le)
  qed
qed simp

lemma get_codes_total:
  assumes "list_all (plain b) (src s)" "k \<le> 4" "k \<le> length (src s)"
  shows "\<exists>s' stop. get_codes b tab k s = Inr (s', stop) \<and> list_all (plain b) (src s') \<and> room s' = room s
     \<and> destidx s' = destidx s \<and> (if stop then state s' < 4 else state s' = state s)
     \<and> length (src s') + (if k = 0 then 0 else 1) \<le> length (src s)"
  using assms
proof (induction k arbitrary: s)
  case (Suc k)
  obtain rest c d stop where g: "get_input b tab (Suc k) (src s) = Inr (rest, c, d, stop)"
    "list_all (plain b) rest" "k \<le> length rest" "length rest < length (src s)"
    using get_input_total [OF Suc.prems(1) _ Suc.prems(3)] by auto
  show ?case
  proof (cases stop)
    case True
    then show ?thesis
      using g by (intro exI [of _ "s\<lparr>src := rest, ch := c, decode := d, state := 4 - Suc k\<rparr>"] exI [of _ True])
        (simp add: Let_def)
  next
    case False
    let ?s = "s\<lparr>src := rest, ch := c, decode := d\<rparr>"
    let ?s2 = "if room ?s = None then ?s
           else ?s\<lparr>temp := (if Suc k = 4 then word_of_int d else add_code (temp ?s) d)\<rparr>"
    have e: "get_codes b tab (Suc k) s = get_codes b tab k ?s2"
      unfolding get_codes.simps g(1) using False by (simp add: Let_def)
    have s2: "src ?s2 = rest" "room ?s2 = room s" "destidx ?s2 = destidx s" "state ?s2 = state s" by auto
    have "list_all (plain b) (src ?s2)" "k \<le> 4" "k \<le> length (src ?s2)"
      using s2(1) Suc.prems(2) g by simp_all
    from Suc.IH [OF this] obtain s' stop' where IH: "get_codes b tab k ?s2 = Inr (s', stop')"
      "list_all (plain b) (src s')" "room s' = room ?s2" "destidx s' = destidx ?s2"
      "if stop' then state s' < 4 else state s' = state ?s2"
      "length (src s') + (if k = 0 then 0 else 1) \<le> length (src ?s2)"
      by blast
    have "length (src s') + 1 \<le> length (src s)"
      using IH(6) g(4) unfolding s2(1) by (simp split: if_splits)
    then show ?thesis
      unfolding e IH(1) using IH(2-5) unfolding s2(2-4) by simp
  qed
qed auto

lemma probe_total:
  assumes "list_all (plain b) p" "4 \<le> length p"
  shows "\<exists>slow t. probe b tab p u = Inr (slow, t)"
proof -
  obtain c0 c1 c2 c3 rest where p: "p = c0 # c1 # c2 # c3 # rest"
    using assms(2) by (auto simp: numeral_eq_Suc Suc_le_length_iff)
  then show ?thesis using assms(1) by (auto simp: probe_def plain_value Let_def)
qed

lemma put3_total:
  assumes "put3 s = Some s'" "\<forall>k. room s = Some k \<longrightarrow> destidx s \<le> k"
  shows "room s' = room s \<and> src s' = src s \<and> state s' = state s \<and> (\<forall>k. room s = Some k \<longrightarrow> destidx s' \<le> k)"
  using assms by (auto simp: put3_def split: option.splits if_splits)

lemma quad_pass_total:
  assumes "decoder_inv b n s" "4 \<le> length (src s)"
  shows "\<exists>s' e. quad_pass b tab s = Inr (s', e) \<and> (e \<noteq> Reject \<longrightarrow> decoder_inv b n s')
     \<and> length (src s') < length (src s)"
proof -
  have plain: "list_all (plain b) (src s)" using assms(1) by (simp add: decoder_inv_def)
  obtain slow t where p: "probe b tab (src s) (temp s) = Inr (slow, t)"
    using probe_total [OF plain assms(2)] by blast
  let ?s = "s\<lparr>temp := t\<rparr>"
  let ?m = "if slow then get_codes b tab 4 ?s
               else Inr (?s\<lparr>src := drop 4 (src ?s), decode := -1, ch := 0\<rparr>, False)"
  obtain s1 stop where m: "?m = Inr (s1, stop)" "list_all (plain b) (src s1)" "room s1 = room s"
      "destidx s1 = destidx s" "if stop then state s1 < 4 else state s1 = state s"
      "length (src s1) < length (src s)"
  proof (cases slow)
    case True
    then show ?thesis using get_codes_total [of b ?s 4] plain assms(2) that by fastforce
  next
    case False
    have "list_all (plain b) (drop 4 (src s))"
      using plain by (auto simp: list_all_iff dest: in_set_dropD)
    then show ?thesis using False that assms(2) by simp
  qed
  have q: "quad_pass b tab s = (if stop then Inr (s1, Break)
        else case put3 s1 of None \<Rightarrow> Inr (s1, Reject) | Some s \<Rightarrow> Inr (s, Again))"
    unfolding quad_pass_def p Let_def using m(1) by simp
  have inv: "decoder_inv b n s1" using assms(1) m by (auto simp: decoder_inv_def split: if_splits)
  show ?thesis
  proof (cases "put3 s1")
    case None
    then show ?thesis unfolding q using inv m(6) by auto
  next
    case (Some s2)
    have room: "\<forall>k. room s1 = Some k \<longrightarrow> destidx s1 \<le> k" using inv by (simp add: decoder_inv_def)
    have s2: "decoder_inv b n s2" "src s2 = src s1"
      using put3_total [OF Some room] inv by (simp_all add: decoder_inv_def)
    show ?thesis
    proof (cases stop)
      case True
      then show ?thesis unfolding q using inv m(6) by simp
    next
      case False
      then show ?thesis unfolding q using s2 Some m(6) by simp
    qed
  qed
qed

lemma quad_loop_total:
  assumes "decoder_inv b n s" "length (src s) \<le> fuel"
  shows "\<exists>r. quad_loop fuel b tab s = Inr r \<and> (\<forall>s'. r = Some s' \<longrightarrow> decoder_inv b n s')"
  using assms
proof (induction fuel arbitrary: s)
  case 0
  then show ?case by (simp add: quad_loop.simps [of 0])
next
  case (Suc fuel)
  show ?case
  proof (cases "length (src s) < 4")
    case True
    then show ?thesis using Suc.prems by (simp add: quad_loop.simps [of "Suc fuel"])
  next
    case False
    obtain s' e where q: "quad_pass b tab s = Inr (s', e)" "e \<noteq> Reject \<longrightarrow> decoder_inv b n s'"
      "length (src s') < length (src s)"
      using quad_pass_total [OF Suc.prems(1)] False by auto
    then show ?thesis
      using Suc.IH [of s'] Suc.prems(2) False by (cases e) (simp_all add: quad_loop.simps [of "Suc fuel"])
  qed
qed

lemma single_loop_total:
  assumes "decoder_inv b n s" "list_all (plain b) cs"
  shows "\<exists>r. single_loop b tab cs s = Inr r \<and> (\<forall>s'. r = Some s' \<longrightarrow> decoder_inv b n s')"
  using assms
proof (induction cs arbitrary: s)
  case Nil
  then show ?case by (simp add: decoder_inv_def)
next
  case (Cons c cs)
  define d where "d = tab ! unat c"
  define s1 where "s1 = s\<lparr>ch := char_uint b c, decode := d\<rparr>"
  define s2 where "s2 = s1\<lparr>temp := add_code (temp s1) d, state := state s1 + 1\<rparr>"
  have t: "table_at tab (uint (char_uint b c)) = Inr d"
    using Cons.prems by (simp add: plain_uint d_def)
  have inv1: "decoder_inv b n s1" using Cons.prems by (simp add: decoder_inv_def s1_def)
  have inv2: "decoder_inv b n s2" if "state s2 \<noteq> 4"
    using inv1 that by (simp add: decoder_inv_def s2_def)
  have step: "single_loop b tab (c # cs) s =
     (if d < 0 then
        if ascii_isspace (ucast (ch s1)) then single_loop b tab cs s1
        else if ch s1 = 0 then Inr (Some (s1\<lparr>src := cs\<rparr>))
        else if ch s1 = ucast PAD then Inr (Some (s1\<lparr>src := c # cs\<rparr>))
        else Inr None
      else if state s2 = 4 then
             case put3 s2 of
               None \<Rightarrow> Inr None
             | Some s \<Rightarrow> single_loop b tab cs (s\<lparr>state := 0, temp := 0\<rparr>)
           else single_loop b tab cs s2)"
    unfolding single_loop.simps Let_def s2_def s1_def using t by simp
  show ?case
  proof (cases "d < 0")
    case True
    have "decoder_inv b n (s1\<lparr>src := cs\<rparr>)" "decoder_inv b n (s1\<lparr>src := c # cs\<rparr>)"
      using inv1 Cons.prems by (auto simp: decoder_inv_def)
    then show ?thesis unfolding step using True Cons.IH [OF inv1] Cons.prems by simp
  next
    case False
    show ?thesis
    proof (cases "state s2 = 4")
      case True
      show ?thesis
      proof (cases "put3 s2")
        case None
        then show ?thesis unfolding step using True False by simp
      next
        case (Some s3)
        have "decoder_inv b n (s3\<lparr>state := 0, temp := 0\<rparr>)"
          using put3_total [OF Some] inv1 by (auto simp: decoder_inv_def s2_def)
        then show ?thesis unfolding step using True False Some Cons by simp
      qed
    next
      case no: False
      then show ?thesis unfolding step using False Cons.IH [OF inv2] Cons.prems by simp
    qed
  qed
qed

lemma leftover_total:
  assumes "decoder_inv b n s"
  shows "\<exists>l. leftover s = Inr l \<and> (\<forall>s2 e k. l = Some (s2, e) \<longrightarrow> n = Some k \<longrightarrow> destidx s2 \<le> k)"
proof -
  have "state s = 0 \<or> state s = 1 \<or> state s = 2 \<or> state s = 3"
    using assms by (auto simp: decoder_inv_def)
  then show ?thesis
    using assms unfolding decoder_inv_def by (cases n) (auto simp: leftover_def)
qed

lemma finish_total:
  assumes "decoder_inv b n s"
  shows "\<exists>len out. finish b tab s = Inr (len, out) \<and> (\<forall>k. n = Some k \<longrightarrow> len \<le> int k)"
proof -
  let ?rest = "if ch s = ucast PAD then Inr (Some (s\<lparr>src := PAD # src s\<rparr>)) else single_loop b tab (src s) s"
  have plain: "plain b PAD" by (simp add: plain_iff)
  have src: "list_all (plain b) (src s)" using assms by (simp add: decoder_inv_def)
  obtain r where r: "?rest = Inr r" "\<forall>s'. r = Some s' \<longrightarrow> decoder_inv b n s'"
  proof (cases "ch s = ucast PAD")
    case True
    moreover have "decoder_inv b n (s\<lparr>src := PAD # src s\<rparr>)"
      using assms plain by (simp add: decoder_inv_def)
    ultimately show thesis using that by simp
  next
    case False
    then show thesis using single_loop_total [OF assms src] that by auto
  qed
  show ?thesis
  proof (cases r)
    case None
    then show ?thesis using r(1) by (auto simp: finish_def)
  next
    case (Some s')
    then have inv: "decoder_inv b n s'" using r(2) by blast
    obtain l where l: "leftover s' = Inr l"
      "\<forall>s2 e k. l = Some (s2, e) \<longrightarrow> n = Some k \<longrightarrow> destidx s2 \<le> k"
      using leftover_total [OF inv] by blast
    then show ?thesis
      using r(1) Some unfolding finish_def
      by (auto split: option.splits)
  qed
qed

lemma decoder_total:
  assumes "list_all (plain b) p"
  shows "\<exists>ok out. Base64UnescapeInternal b p tab = Inr (ok, out)"
proof -
  define m where "m = 3 * (length p div 4) + length p mod 4"
  define room where "room = (if m = 0 then None else Some m)"
  have "decoder_inv b room (start p room)"
    using assms by (simp add: decoder_inv_def start_def)
  then obtain r where r: "quad_loop (length p) b tab (start p room) = Inr r"
    "\<forall>s'. r = Some s' \<longrightarrow> decoder_inv b room s'"
    using quad_loop_total [of b room "start p room" "length p"] by (auto simp: start_def)
  obtain len out where o: "Base64UnescapeBuffer b p room tab = Inr (len, out)" "\<forall>k. room = Some k \<longrightarrow> len \<le> int k"
  proof (cases r)
    case None
    then show ?thesis using r(1) that by (simp add: Base64UnescapeBuffer_def)
  next
    case (Some s)
    then show ?thesis
      using finish_total [of b room s] r that by (auto simp: Base64UnescapeBuffer_def)
  qed
  show ?thesis
  proof (cases "m = 0")
    case True
    then have "p = []" unfolding m_def by (cases p) (auto simp: mod_eq_0_iff_dvd)
    then show ?thesis
      by (auto simp: Base64UnescapeInternal_def Base64UnescapeBuffer_def start_def quad_loop.simps
          finish_def leftover_def)
  next
    case False
    then show ?thesis
      using o unfolding Base64UnescapeInternal_def Let_def m_def [symmetric] room_def by auto
  qed
qed

end

section \<open>Theorems\<close>

context base64_alphabet
begin

lemma escapes:
  assumes "4 * int (length xs) + 12 < 3 * 2 ^ 31"
  shows "Base64EscapeInternal xs do_padding base64 = Inr (esc base64 do_padding xs)"
proof -
  have w: "wrap32 (int (length xs)) = int (length xs)" using assms by (simp add: wrap32_def)
  show ?thesis
    using CalculateBase64EscapedLen_esc [OF assms, of do_padding base64]
    unfolding Base64EscapeInternal_def Base64EscapeBuffer_def w
    by (cases "xs = []") (simp_all add: escape_loop_esc)
qed

lemma unescapes: "Base64UnescapeInternal b (esc base64 do_padding xs) tab = Inr (True, xs)"
proof (cases "xs = []")
  case True
  then show ?thesis
    by (simp add: Base64UnescapeInternal_def Base64UnescapeBuffer_def start_def quad_loop.simps
        finish_def leftover_def)
next
  case False
  let ?e = "esc base64 do_padding xs"
  define m where "m = 3 * (length ?e div 4) + length ?e mod 4"
  have m: "length xs \<le> m"
  proof -
    define q r where "q = length xs div 3" and "r = length xs mod 3"
    have "length xs = 3 * q + r" "r < 3" by (simp_all add: q_def r_def)
    moreover have "length ?e = 4 * q + (if r = 0 then 0 else if do_padding then 4 else r + 1)"
      by (simp add: length_esc q_def r_def)
    moreover have "(4 * q + 4) div 4 = q + 1" "(4 * q + 4) mod 4 = 0" by simp_all
    moreover have "(4 * q + k) div 4 = q \<and> (4 * q + k) mod 4 = k" if "k < 4" for k using that by simp
    ultimately show ?thesis unfolding m_def by (cases "r = 0"; cases do_padding) auto
  qed
  then have "m \<noteq> 0" using False by (cases xs) auto
  moreover have "decode_from (length ?e) b tab (start ?e (Some m)) = Inr (int (length xs), xs)"
    using decode_esc [of "start ?e (Some m)" do_padding xs m "length ?e" b] m by (simp add: start_def)
  then have "Base64UnescapeBuffer b ?e (Some m) tab = Inr (int (length xs), xs)"
    by (simp add: Base64UnescapeBuffer_def decode_from_def)
  ultimately show ?thesis
    using m unfolding Base64UnescapeInternal_def m_def [symmetric] Let_def by simp
qed

end

text \<open>
  C32: What \<^verbatim>\<open>Base64Escape\<close>, \<^verbatim>\<open>WebSafeBase64Escape\<close> or its padding variant writes, the
  corresponding decoder reads back exactly, whatever the bytes and their number (below
  1.6 GB, where the computed size fits an \<^verbatim>\<open>int\<close>), and in both builds.  The encoder passes its
  own size check.
\<close>

theorem base64_roundtrip:
  assumes "4 * int (length xs) + 12 < 3 * 2 ^ 31"
  shows "bindE (Base64Escape xs) (Base64Unescape b) = Inr (True, xs)
    \<and> bindE (WebSafeBase64Escape xs) (WebSafeBase64Unescape b) = Inr (True, xs)
    \<and> bindE (WebSafeBase64EscapeWithPadding xs) (WebSafeBase64Unescape b) = Inr (True, xs)"
  using standard.escapes [OF assms] standard.unescapes web_safe.escapes [OF assms] web_safe.unescapes
  by (simp add: Base64Escape_def WebSafeBase64Escape_def WebSafeBase64EscapeWithPadding_def
      Base64Unescape_def WebSafeBase64Unescape_def)

theorem base64_roundtrip_witness:
  "Base64Escape (str ''any carnal'') = Inr (str ''YW55IGNhcm5hbA=='')
    \<and> Base64Unescape SignedChar (str ''YW55IGNhcm5hbA=='') = Inr (True, str ''any carnal'')"
proof -
  have "4 * int (length (str ''any carnal'')) + 12 < 3 * 2 ^ 31" by simp
  note r = base64_roundtrip [OF this, of SignedChar]
  have e: "Base64Escape (str ''any carnal'') = Inr (str ''YW55IGNhcm5hbA=='')" by code_simp
  then show ?thesis using r by simp
qed

text \<open>
  The decoder needs \<^verbatim>\<open>char\<close> to be unsigned.  In the build with unsigned characters it
  answers for every input, without an access outside its tables or buffers; in the build
  with signed characters, which is the one the \<^verbatim>\<open>Makefile\<close> of \<^verbatim>\<open>gbase\<close> makes, the same holds
  for ASCII input, but every input that begins with a byte of 128 or more reads the table
  outside its bounds.
\<close>

theorem base64_signed_index:
  shows "(b = UnsignedChar \<or> list_all (\<lambda>c. c < 128) p \<longrightarrow>
      (\<exists>ok out. Base64Unescape b p = Inr (ok, out)) \<and> (\<exists>ok out. WebSafeBase64Unescape b p = Inr (ok, out)))
    \<and> (128 \<le> c \<longrightarrow> Base64Unescape SignedChar (c # p) = Inl OutOfBounds)"
proof (intro conjI impI)
  assume "b = UnsignedChar \<or> list_all (\<lambda>c. c < 128) p"
  then have "list_all (plain b) p" by (auto simp: plain_iff list_all_iff)
  then show "\<exists>ok out. Base64Unescape b p = Inr (ok, out)" "\<exists>ok out. WebSafeBase64Unescape b p = Inr (ok, out)"
    using standard.decoder_total web_safe.decoder_total
    by (simp_all add: Base64Unescape_def WebSafeBase64Unescape_def)
next
  assume "128 \<le> c"
  then have neg: "sint c < 0" by (rule sint_high)
  have "256 \<le> uint (char_uint SignedChar c)"
  proof -
    have "- 128 \<le> sint c" using sint_greater_eq [of c] by simp
    then have "(sint c + 2 ^ 32) mod 2 ^ 32 = sint c + 2 ^ 32"
      using neg by (intro mod_pos_pos_trivial) simp_all
    then have "uint (char_uint SignedChar c) = sint c + 2 ^ 32"
      unfolding char_uint_def char_value.simps uint_word_of_int by simp
    then show ?thesis using \<open>- 128 \<le> sint c\<close> by simp
  qed
  then have high: "table_at kUnBase64 (uint (char_uint SignedChar c)) = Inl OutOfBounds"
    using standard.size by (simp add: table_at_def)
  have low: "table_at kUnBase64 (char_value SignedChar c) = Inl OutOfBounds"
    using neg by (simp add: table_at_def)
  have c0: "c \<noteq> 0" using neg by auto
  define m where "m = 3 * (length (c # p) div 4) + length (c # p) mod 4"
  define s where "s = start (c # p) (if m = 0 then None else Some m)"
  have src: "src s = c # p" by (simp add: s_def start_def)
  have "quad_loop (length (c # p)) SignedChar kUnBase64 s = Inl OutOfBounds
    \<or> quad_loop (length (c # p)) SignedChar kUnBase64 s = Inr (Some s) \<and> length (c # p) < 4"
  proof (cases "length (c # p) < 4")
    case True
    then show ?thesis using src by (simp add: quad_loop.simps)
  next
    case False
    have "get_input SignedChar kUnBase64 4 (c # p) = Inl OutOfBounds" using high by simp
    then have codes: "get_codes SignedChar kUnBase64 4 (s\<lparr>temp := t\<rparr>) = Inl OutOfBounds" for t
      using src by (simp add: numeral_eq_Suc)
    have "probe SignedChar kUnBase64 (c # p) (temp s) \<in> {Inl OutOfBounds, Inr (True, temp s)}"
      using low c0 by (simp add: probe_def)
    then have "quad_pass SignedChar kUnBase64 s = Inl OutOfBounds"
      using codes src by (auto simp: quad_pass_def Let_def)
    then show ?thesis using False src by (simp add: quad_loop.simps)
  qed
  moreover have "finish SignedChar kUnBase64 s = Inl OutOfBounds"
  proof -
    have "(0 :: u32) \<noteq> ucast PAD" using ucast_u32_eq [of 0 PAD] by simp
    then show ?thesis using high src by (simp add: finish_def s_def start_def Let_def)
  qed
  ultimately have "Base64UnescapeBuffer SignedChar (c # p) (room s) kUnBase64 = Inl OutOfBounds"
    by (auto simp: Base64UnescapeBuffer_def s_def start_def)
  then show "Base64Unescape SignedChar (c # p) = Inl OutOfBounds"
    unfolding Base64Unescape_def Base64UnescapeInternal_def Let_def m_def [symmetric]
    by (simp add: s_def start_def)
qed

theorem base64_signed_index_witness:
  "(\<exists>ok out. Base64Unescape UnsignedChar [0xE4, 65] = Inr (ok, out))
    \<and> Base64Unescape SignedChar [0xE4, 65] = Inl OutOfBounds"
  using base64_signed_index [where b = UnsignedChar and p = "[0xE4, 65]"]
    base64_signed_index [where p = "[65]" and c = "0xE4"]
  by simp

text \<open>
  The comment in the decoder promises never to read past a zero byte, however long the source
  is said to be.  The first loop does stop there, but the second goes on behind it.
\<close>

lemma reads_past_nul:
  "Base64Unescape UnsignedChar (str ''QU'' @ [0] @ str ''JD'') = Base64Unescape UnsignedChar (str ''QUJD'')
    \<and> Base64Unescape UnsignedChar (str ''QUJD'') = Inr (True, str ''ABC'')"
  by code_simp

end
