(* ===== verification/SysStatus.thy ===== *)
theory SysStatus
  imports StatusCode MonoTime
begin

text \<open>
  Statuses made from the error numbers of system calls, as the sockets and the files of
  \<^verbatim>\<open>base/net\<close>, \<^verbatim>\<open>security/tls_socket.cc\<close> and \<^verbatim>\<open>base/env_posix.cc\<close> make them.
\<close>

section \<open>Statuses\<close>

definition failure :: "Code \<Rightarrow> bytes \<Rightarrow> bytes \<Rightarrow> int \<Rightarrow> outcome" where
  "failure c m m2 p = Failure c (join m m2) (wrap16 p)"

lemma failure_repr:
  "c \<noteq> kOk \<Longrightarrow> length m + length m2 + 9 < 2 ^ 32 \<Longrightarrow>
   status_make c (slice_of m (length m)) (slice_of m2 (length m2)) p = Inr (repr (failure c m m2 p))"
  using status_make_repr [of c "slice_of m (length m)" "slice_of m2 (length m2)" p]
  by (simp add: failure_def layout_def le_bytes_2_wrap16)

fun posix_of :: "outcome \<Rightarrow> int" where
  "posix_of Success = 0"
| "posix_of (Failure c m p) = p"

text \<open>Error numbers of Linux and error codes of OpenSSL.\<close>

definition EINTR :: int where "EINTR = 4"
definition EAGAIN :: int where "EAGAIN = 11"
definition EINVAL :: int where "EINVAL = 22"
definition ECONNRESET :: int where "ECONNRESET = 104"
definition ESHUTDOWN :: int where "ESHUTDOWN = 108"
definition SSL_ERROR_WANT_READ :: int where "SSL_ERROR_WANT_READ = 2"
definition SSL_ERROR_WANT_WRITE :: int where "SSL_ERROR_WANT_WRITE = 3"
definition SSL_ERROR_SYSCALL :: int where "SSL_ERROR_SYSCALL = 5"

lemmas errno_defs = EINTR_def EAGAIN_def EINVAL_def ECONNRESET_def ESHUTDOWN_def
  SSL_ERROR_WANT_READ_def SSL_ERROR_WANT_WRITE_def SSL_ERROR_SYSCALL_def

text \<open>The texts of \<^verbatim>\<open>ErrnoToString\<close>, \<^verbatim>\<open>GetSSLErrorDescription\<close> and \<^verbatim>\<open>MonoDelta::ToString\<close>.\<close>

record texts =
  errno_text :: "int \<Rightarrow> bytes"
  ssl_text :: "int \<Rightarrow> bytes"
  delta_text :: "MonoDelta \<Rightarrow> bytes"

lemma failure_neq [simp]: "failure c m m2 p \<noteq> Success" "Success \<noteq> failure c m m2 p"
  by (simp_all add: failure_def)

lemma posix_of_failure [simp]: "posix_of (failure c m m2 p) = wrap16 p"
  by (simp add: failure_def)

lemma wrap16_small: "0 \<le> p \<Longrightarrow> p < 2 ^ 15 \<Longrightarrow> wrap16 p = p"
  by (rule wrap16_id) simp_all

lemma wrap16_minus_1: "wrap16 (-1) = -1"
  by (rule wrap16_id) simp_all

lemma prepend_failure: "s \<noteq> Success \<Longrightarrow> \<exists>s'. prepend_outcome m s = Inr s' \<and> s' \<noteq> Success"
  by (cases s) simp_all

text \<open>Empty texts, for concrete runs.\<close>

definition no_texts :: texts where
  "no_texts = \<lparr>errno_text = \<lambda>_. [], ssl_text = \<lambda>_. [], delta_text = \<lambda>_. []\<rparr>"

end
