(* ===== verification/Sockets.thy ===== *)
theory Sockets
  imports SysStatus
begin

text \<open>
  Reading and writing of sockets (\<^verbatim>\<open>base/net/socket.cc\<close>) and of TLS sockets
  (\<^verbatim>\<open>security/tls_socket.cc\<close>).  What the system and OpenSSL answer to one round of calls is
  an \<open>io_event\<close>, an argument of the definitions; a loop consumes one event a round.  Statuses
  are the outcomes of \<open>StatusCode\<close>, which the packed objects represent (\<open>failure_repr\<close>).
\<close>

text \<open>
  One round: the clock, the error of setting the timeout (0 for none), the result and \<^verbatim>\<open>errno\<close> of
  the transfer, and for OpenSSL the error code, whether the peer has shut down, and whether the
  error queue is empty.
\<close>

record io_event =
  clock :: MonoTime
  setopt_errno :: int
  res :: int
  err :: int
  ssl_error :: int
  ssl_shutdown_received :: bool
  ssl_queue_empty :: bool

text \<open>A transfer of \<open>amt\<close> bytes moves at most that many.\<close>

definition answer :: "nat \<Rightarrow> io_event \<Rightarrow> int" where
  "answer amt e = min (res e) (int amt)"

section \<open>Plain sockets\<close>

text \<open>\<^verbatim>\<open>Write\<close> and \<^verbatim>\<open>Read\<close>: the status and the count, when it is assigned.\<close>

definition Socket_Write :: "texts \<Rightarrow> int \<Rightarrow> nat \<Rightarrow> io_event \<Rightarrow> fault + outcome \<times> nat option" where
  "Socket_Write tx sockfd amt e =
     (if amt \<le> 0 then
        Inr (failure kNetworkError (str ''invalid send of '' @ dec_nat amt @ str '' bytes'') [] EINVAL, None)
      else if \<not> sockfd \<ge> 0 then Inl CheckFailed
      else if answer amt e < 0 then
        Inr (failure kNetworkError (str ''write error: '' @ errno_text tx (err e)) [] (err e), None)
      else Inr (Success, Some (nat (answer amt e))))"

definition Socket_Read :: "texts \<Rightarrow> int \<Rightarrow> nat \<Rightarrow> io_event \<Rightarrow> fault + outcome \<times> nat option" where
  "Socket_Read tx sockfd amt e =
     (if amt \<le> 0 then
        Inr (failure kNetworkError (str ''invalid recv of '' @ dec_nat amt @ str '' bytes'') [] EINVAL, None)
      else if \<not> sockfd \<ge> 0 then Inl CheckFailed
      else if answer amt e \<le> 0 then
        if answer amt e = 0 then Inr (failure kNetworkError (str ''Recv() got EOF from remote'') [] ESHUTDOWN, None)
        else Inr (failure kNetworkError (str ''recv error: '' @ errno_text tx (err e)) [] (err e), None)
      else Inr (Success, Some (nat (answer amt e))))"

definition SetTimeout :: "texts \<Rightarrow> bytes \<Rightarrow> MonoDelta \<Rightarrow> int \<Rightarrow> fault + outcome" where
  "SetTimeout tx optname timeout errno =
     bindE (ToNanoseconds timeout) (\<lambda>ns.
     if ns < 0 then
       Inr (failure kInvalidArgument (str ''Timeout specified as negative to SetTimeout'') (delta_text tx timeout) (-1))
     else
       bindE (ToTimeVal timeout) (\<lambda>tv.
       if errno \<noteq> 0 then
         Inr (failure kNetworkError
           (str ''Failed to set '' @ optname @ str '' to '' @ delta_text tx timeout) (errno_text tx errno) errno)
       else Inr Success))"

section \<open>TLS sockets\<close>

text \<open>\<open>ssl\<close> tells whether the SSL handle is there.\<close>

definition TlsSocket_Write :: "texts \<Rightarrow> bool \<Rightarrow> nat \<Rightarrow> io_event \<Rightarrow> fault + outcome \<times> nat option" where
  "TlsSocket_Write tx ssl amt e =
     (if \<not> ssl then Inl CheckFailed
      else if amt = 0 then Inr (Success, Some 0)
      else if answer amt e \<le> 0 then
        if ssl_error e = SSL_ERROR_WANT_WRITE then Inr (Success, Some 0)
        else Inr (failure kNetworkError (str ''failed to write to TLS socket'') (ssl_text tx (ssl_error e)) (-1), None)
      else Inr (Success, Some (nat (answer amt e))))"

definition TlsSocket_Read :: "texts \<Rightarrow> bool \<Rightarrow> nat \<Rightarrow> io_event \<Rightarrow> fault + outcome \<times> nat option" where
  "TlsSocket_Read tx ssl amt e =
     (let kErrString = str ''failed to read from TLS socket'' in
      if \<not> ssl then Inl CheckFailed
      else if answer amt e \<le> 0 then
        if answer amt e = 0 \<and> ssl_shutdown_received e then
          Inr (failure kNetworkError kErrString (errno_text tx ESHUTDOWN) ESHUTDOWN, None)
        else if ssl_error e = SSL_ERROR_WANT_READ then Inr (Success, Some 0)
        else if ssl_error e = SSL_ERROR_SYSCALL \<and> ssl_queue_empty e then
          if answer amt e = 0 then Inr (failure kNetworkError kErrString (errno_text tx ECONNRESET) ECONNRESET, None)
          else if answer amt e = -1 \<and> err e \<noteq> 0 then
            Inr (failure kNetworkError kErrString (errno_text tx (err e)) (err e), None)
          else Inr (failure kNetworkError kErrString (str ''unknown ERROR_SYSCALL'') (-1), None)
        else Inr (failure kNetworkError kErrString (ssl_text tx (ssl_error e)) (-1), None)
      else Inr (Success, Some (nat (answer amt e))))"

text \<open>
  The loop of \<^verbatim>\<open>TlsSocket::Writev\<close> over the buffers, each with the answer to its write.  \<open>nw\<close> is
  the variable behind \<^verbatim>\<open>nwritten\<close>, which a failing \<^verbatim>\<open>Write\<close> leaves as it was; \<open>wire\<close> are the bytes
  handed to the connection so far.
\<close>

fun writev_loop ::
  "texts \<Rightarrow> bool \<Rightarrow> (bytes \<times> io_event) list \<Rightarrow> int \<Rightarrow> int \<Rightarrow> bytes \<Rightarrow> outcome
   \<Rightarrow> fault + outcome \<times> int \<times> int \<times> bytes" where
  "writev_loop tx ssl [] nw total_written wire st = Inr (st, nw, total_written, wire)"
| "writev_loop tx ssl ((frame, e) # frames) nw total_written wire st =
     (let frame_size = wrap32 (int (length frame)) in
      bindE (TlsSocket_Write tx ssl (nat (frame_size mod 2 ^ 64)) e) (\<lambda>(st, n).
      let nw = (case n of None \<Rightarrow> nw | Some k \<Rightarrow> int k);
          total_written = wrap32 (total_written + nw);
          wire = wire @ (case n of None \<Rightarrow> [] | Some k \<Rightarrow> take k frame)
      in if nw < frame_size mod 2 ^ 64 then Inr (st, nw, total_written, wire)
         else writev_loop tx ssl frames nw total_written wire st))"

definition SetTcpCork :: "texts \<Rightarrow> int \<Rightarrow> outcome" where
  "SetTcpCork tx errno =
     (if errno \<noteq> 0
      then failure kNetworkError (str ''failed to set TCP_CORK: '' @ errno_text tx errno) [] errno
      else Success)"

definition TlsSocket_Writev ::
  "texts \<Rightarrow> bool \<Rightarrow> (bytes \<times> io_event) list \<Rightarrow> int \<Rightarrow> int \<Rightarrow> int \<Rightarrow> fault + outcome \<times> int \<times> bytes" where
  "TlsSocket_Writev tx ssl frames nw cork_errno uncork_errno =
     (if \<not> ssl then Inl CheckFailed
      else if SetTcpCork tx cork_errno \<noteq> Success then Inr (SetTcpCork tx cork_errno, nw, [])
      else
        bindE (writev_loop tx ssl frames nw 0 [] Success) (\<lambda>(st, nw, total_written, wire).
        if SetTcpCork tx uncork_errno \<noteq> Success then Inr (SetTcpCork tx uncork_errno, nw, wire)
        else Inr (st, total_written, wire)))"

section \<open>Who owns the descriptor\<close>

text \<open>
  A socket object: its descriptor, and for a TLS socket whether the SSL handle is still there.
  Beside it, the descriptors the system has open for it, those handed out by \<^verbatim>\<open>Release\<close>, and
  whether it has asked the system to close one that was not open.
\<close>

record sock =
  fd :: int
  tls :: "bool option"
  opened :: "int list"
  released :: "int list"
  bad_close :: bool

text \<open>\<^verbatim>\<open>Socket(int fd)\<close> and \<^verbatim>\<open>TlsSocket(int fd, ssl)\<close>.\<close>

definition Socket :: "int \<Rightarrow> sock" where
  "Socket n = \<lparr>fd = n, tls = None, opened = (if n < 0 then [] else [n]), released = [], bad_close = False\<rparr>"

definition TlsSocket :: "int \<Rightarrow> sock" where
  "TlsSocket n = \<lparr>fd = n, tls = Some True, opened = (if n < 0 then [] else [n]), released = [], bad_close = False\<rparr>"

text \<open>\<open>errno\<close> is the error of \<^verbatim>\<open>close\<close>, 0 for none; the descriptor is free in either case.\<close>

definition Socket_Close :: "texts \<Rightarrow> int \<Rightarrow> sock \<Rightarrow> outcome \<times> sock" where
  "Socket_Close tx errno s =
     (if fd s < 0 then (Success, s)
      else let n = fd s;
          s = s\<lparr>fd := -1, opened := remove1 n (opened s), bad_close := (bad_close s \<or> n \<notin> set (opened s))\<rparr> in
        if errno \<noteq> 0 then (failure kNetworkError (str ''close error: '' @ errno_text tx errno) [] errno, s)
        else (Success, s))"

text \<open>\<open>ssl_err\<close> is the error code of \<^verbatim>\<open>SSL_shutdown\<close>, \<open>None\<close> when it succeeds.\<close>

definition TlsSocket_Close :: "texts \<Rightarrow> int option \<Rightarrow> int \<Rightarrow> sock \<Rightarrow> outcome \<times> sock" where
  "TlsSocket_Close tx ssl_err errno s =
     (if tls s \<noteq> Some True then (Success, s)
      else
        let ssl_shutdown = (case ssl_err of None \<Rightarrow> Success
              | Some c \<Rightarrow> failure kNetworkError (str ''TlsSocket::Close'') (ssl_text tx c) (-1));
            (st, s) = Socket_Close tx errno (s\<lparr>tls := Some False\<rparr>)
        in (if st \<noteq> Success then st else ssl_shutdown, s))"

definition sock_Close :: "texts \<Rightarrow> int option \<Rightarrow> int \<Rightarrow> sock \<Rightarrow> outcome \<times> sock" where
  "sock_Close tx ssl_err errno s =
     (if tls s = None then Socket_Close tx errno s else TlsSocket_Close tx ssl_err errno s)"

definition sock_Reset :: "texts \<Rightarrow> int option \<Rightarrow> int \<Rightarrow> int \<Rightarrow> sock \<Rightarrow> sock" where
  "sock_Reset tx ssl_err errno n s = snd (sock_Close tx ssl_err errno s)\<lparr>fd := n\<rparr>"

definition sock_Release :: "sock \<Rightarrow> int \<times> sock" where
  "sock_Release s = (fd s, s\<lparr>fd := -1\<rparr>)"

text \<open>\<^verbatim>\<open>Shutdown\<close>: the flag it passes, and the status.\<close>

definition SHUT_RD :: int where "SHUT_RD = 0"
definition SHUT_WR :: int where "SHUT_WR = 1"
definition SHUT_RDWR :: int where "SHUT_RDWR = 2"

definition Socket_Shutdown :: "texts \<Rightarrow> bool \<Rightarrow> bool \<Rightarrow> int \<Rightarrow> sock \<Rightarrow> fault + int \<times> outcome" where
  "Socket_Shutdown tx shut_read shut_write errno s =
     (if \<not> fd s \<ge> 0 then Inl CheckFailed
      else
        let flags =
          (if shut_read \<and> shut_write then or 0 SHUT_RDWR
           else if shut_read then or 0 SHUT_RD
           else if shut_write then or 0 SHUT_WR else 0)
        in Inr (flags,
          if errno \<noteq> 0 then failure kNetworkError (str ''shutdown error: '' @ errno_text tx errno) [] errno
          else Success))"

text \<open>\<^verbatim>\<open>Init\<close> and \<^verbatim>\<open>Accept\<close> take a descriptor from the system, a negative one on error.\<close>

definition adopt :: "bytes \<Rightarrow> texts \<Rightarrow> int option \<Rightarrow> int \<Rightarrow> int \<Rightarrow> int \<Rightarrow> sock \<Rightarrow> outcome \<times> sock" where
  "adopt what tx ssl_err cerrno n errno s =
     (let s = sock_Reset tx ssl_err cerrno n (if n < 0 then s else s\<lparr>opened := n # opened s\<rparr>) in
      if fd s < 0 then (failure kNetworkError (what @ errno_text tx errno) [] errno, s)
      else (Success, s))"

definition Socket_Init :: "texts \<Rightarrow> int option \<Rightarrow> int \<Rightarrow> int \<Rightarrow> int \<Rightarrow> sock \<Rightarrow> outcome \<times> sock" where
  "Socket_Init tx ssl_err cerrno n errno s = adopt (str ''error opening socket: '') tx ssl_err cerrno n errno s"

definition Socket_Accept ::
  "texts \<Rightarrow> int option \<Rightarrow> int \<Rightarrow> int \<Rightarrow> int \<Rightarrow> sock \<Rightarrow> sock \<Rightarrow> fault + outcome \<times> sock" where
  "Socket_Accept tx ssl_err cerrno n errno listener new_conn =
     (if \<not> fd listener \<ge> 0 then Inl CheckFailed
      else Inr (adopt (str ''accept4(2) error: '') tx ssl_err cerrno n errno new_conn))"

text \<open>
  What a caller does with the object, each call with what the system answers; \<open>Reset\<close> is called
  with a descriptor the caller has just opened.
\<close>

datatype sock_op =
    OClose "int option" int
  | OReset "int option" int int
  | OInit "int option" int int int
  | ORelease

fun sock_step :: "texts \<Rightarrow> sock_op \<Rightarrow> sock \<Rightarrow> sock" where
  "sock_step tx (OClose se ce) s = snd (sock_Close tx se ce s)"
| "sock_step tx (OReset se ce n) s = sock_Reset tx se ce n (if n < 0 then s else s\<lparr>opened := n # opened s\<rparr>)"
| "sock_step tx (OInit se ce n e) s = snd (Socket_Init tx se ce n e s)"
| "sock_step tx ORelease s =
     (let (n, s) = sock_Release s in if n < 0 then s else s\<lparr>released := n # released s\<rparr>)"

text \<open>The system never opens a descriptor that is open.\<close>

fun fresh_fd :: "sock_op \<Rightarrow> sock \<Rightarrow> bool" where
  "fresh_fd (OReset se ce n) s = (n \<notin> set (opened s))"
| "fresh_fd (OInit se ce n e) s = (n \<notin> set (opened s))"
| "fresh_fd op s = True"

fun run_sock :: "texts \<Rightarrow> sock_op list \<Rightarrow> sock \<Rightarrow> sock option" where
  "run_sock tx [] s = Some s"
| "run_sock tx (op # ops) s = (if fresh_fd op s then run_sock tx ops (sock_step tx op s) else None)"

text \<open>What the object holds: its descriptor is open, and every open one is its own or handed out.\<close>

definition owns :: "sock \<Rightarrow> bool" where
  "owns s \<longleftrightarrow> \<not> bad_close s \<and> distinct (opened s)
     \<and> set (opened s) = set (released s) \<union> (if fd s < 0 then {} else {fd s})
     \<and> (0 \<le> fd s \<longrightarrow> fd s \<notin> set (released s))"

lemma Socket_owns: "owns (Socket n)"
  by (simp add: owns_def Socket_def)

lemma plain_close:
  assumes "owns s" "tls s = None"
  shows "owns (snd (sock_Close tx se ce s))" "tls (snd (sock_Close tx se ce s)) = None"
    "fd (snd (sock_Close tx se ce s)) < 0"
    "set (opened (snd (sock_Close tx se ce s))) = set (released s)"
    "released (snd (sock_Close tx se ce s)) = released s"
  using assms by (auto simp: owns_def sock_Close_def Socket_Close_def Let_def)

lemma plain_reset:
  assumes "owns s" "tls s = None" "n \<notin> set (opened s)"
  shows "owns (sock_Reset tx se ce n (if n < 0 then s else s\<lparr>opened := n # opened s\<rparr>))
    \<and> tls (sock_Reset tx se ce n (if n < 0 then s else s\<lparr>opened := n # opened s\<rparr>)) = None"
  using assms by (auto simp: owns_def sock_Reset_def sock_Close_def Socket_Close_def Let_def)

lemma plain_step:
  assumes "owns s" "tls s = None" "fresh_fd op s"
  shows "owns (sock_step tx op s) \<and> tls (sock_step tx op s) = None"
proof (cases op)
  case (OClose se ce)
  then show ?thesis using plain_close [OF assms(1,2)] by simp
next
  case (OReset se ce n)
  then show ?thesis using plain_reset [OF assms(1,2)] assms(3) by simp
next
  case (OInit se ce n e)
  then show ?thesis
    using plain_reset [OF assms(1,2), of n tx se ce] assms(3)
    by (simp add: Socket_Init_def adopt_def Let_def split: if_splits)
next
  case ORelease
  then show ?thesis using assms by (auto simp: owns_def sock_Release_def)
qed

lemma plain_run: "owns s \<Longrightarrow> tls s = None \<Longrightarrow> run_sock tx ops s = Some s' \<Longrightarrow> owns s' \<and> tls s' = None"
proof (induction ops arbitrary: s)
  case (Cons op ops)
  from Cons.prems(3) have ok: "fresh_fd op s" "run_sock tx ops (sock_step tx op s) = Some s'"
    by (simp_all split: if_splits)
  have "owns (sock_step tx op s) \<and> tls (sock_step tx op s) = None"
    by (rule plain_step [OF Cons.prems(1,2) ok(1)])
  then show ?case using Cons.IH [OF _ _ ok(2)] by simp
qed simp

section \<open>Blocking transfers\<close>

text \<open>
  \<^verbatim>\<open>BlockingWrite\<close> and \<^verbatim>\<open>BlockingRead\<close> run on the virtual \<^verbatim>\<open>Write\<close> and \<^verbatim>\<open>Read\<close> of their object, an
  argument here.  A run is \<open>None\<close> while it has not returned when the events end.
\<close>

type_synonym transfer = "nat \<Rightarrow> io_event \<Rightarrow> fault + outcome \<times> nat option"

fun stepO :: "fault + 'a \<Rightarrow> ('a \<Rightarrow> (fault + 'b) option) \<Rightarrow> (fault + 'b) option" where
  "stepO (Inl f) k = Some (Inl f)"
| "stepO (Inr x) k = k x"

lemma stepO_cong [fundef_cong]:
  "m = m' \<Longrightarrow> (\<And>x. m' = Inr x \<Longrightarrow> k x = k' x) \<Longrightarrow> stepO m k = stepO m' k'"
  by (cases m') simp_all

text \<open>
  The head of a round: the time left until the deadline and the socket option set to it.  The
  result is the status to return, or \<open>None\<close> to go on.
\<close>

definition arm_timeout :: "texts \<Rightarrow> bytes \<Rightarrow> bytes \<Rightarrow> MonoTime \<Rightarrow> io_event \<Rightarrow> fault + outcome option" where
  "arm_timeout tx optname msg deadline e =
     bindE (time_diff deadline (clock e)) (\<lambda>timeout.
     bindE (ToNanoseconds timeout) (\<lambda>ns.
     if ns \<le> 0 then Inr (Some (failure kTimedOut msg [] (-1)))
     else
       bindE (SetTimeout tx optname timeout (setopt_errno e)) (\<lambda>s.
       Inr (if s \<noteq> Success then Some s else None))))"

definition zero_bytes :: "bytes \<Rightarrow> nat \<Rightarrow> nat \<Rightarrow> outcome" where
  "zero_bytes msg k n =
     failure kIOError msg
       (str ''Transferred '' @ dec_nat k @ str '' of '' @ dec_nat n @ str '' bytes'') (-1)"

text \<open>The status, the variable behind \<^verbatim>\<open>nwritten\<close> once it is assigned, and the bytes on the wire.\<close>

fun write_loop ::
  "texts \<Rightarrow> transfer \<Rightarrow> MonoTime \<Rightarrow> bytes \<Rightarrow> io_event list \<Rightarrow> nat \<Rightarrow> nat option \<Rightarrow> bytes
   \<Rightarrow> (fault + outcome \<times> nat option \<times> bytes) option" where
  "write_loop tx wr deadline buf es tot nw wire =
     (if \<not> tot < length buf then Some (Inr (Success, nw, wire))
      else case es of
          [] \<Rightarrow> None
        | e # es \<Rightarrow>
            stepO (arm_timeout tx (str ''SO_SNDTIMEO'') (str ''BlockingWrite timed out'') deadline e) (\<lambda>r.
            case r of Some s \<Rightarrow> Some (Inr (s, nw, wire))
            | None \<Rightarrow>
              stepO (wr (length buf - tot) e) (\<lambda>(s, n).
              let inc = (case n of None \<Rightarrow> 0 | Some k \<Rightarrow> k);
                  wire = wire @ take inc (drop tot buf);
                  tot = tot + inc; nw = Some tot
              in
              if s \<noteq> Success then
                if posix_of s = EINTR then write_loop tx wr deadline buf es tot nw wire
                else if posix_of s = EAGAIN then Some (Inr (failure kTimedOut [] [] (-1), nw, wire))
                else stepO (prepend_outcome (str ''BlockingWrite error'') s) (\<lambda>s. Some (Inr (s, nw, wire)))
              else if inc = 0 then
                Some (Inr (if tot < length buf
                  then zero_bytes (str ''Wrote zero bytes on a BlockingWrite() call'') tot (length buf)
                  else Success, nw, wire))
              else write_loop tx wr deadline buf es tot nw wire)))"

declare write_loop.simps [simp del]

definition BlockingWrite ::
  "texts \<Rightarrow> transfer \<Rightarrow> MonoTime \<Rightarrow> bytes \<Rightarrow> io_event list
   \<Rightarrow> (fault + outcome \<times> nat option \<times> bytes) option" where
  "BlockingWrite tx wr deadline buf es =
     (if \<not> length buf \<le> 2 ^ 31 - 1 then Some (Inl CheckFailed)
      else write_loop tx wr deadline buf es 0 None [])"

text \<open>
  The same for reading: \<open>inp\<close> are the bytes the peer sends and this side has not read yet, \<open>got\<close>
  the part of the buffer filled so far.
\<close>

fun read_loop ::
  "texts \<Rightarrow> transfer \<Rightarrow> MonoTime \<Rightarrow> nat \<Rightarrow> io_event list \<Rightarrow> bytes \<Rightarrow> nat \<Rightarrow> nat option \<Rightarrow> bytes
   \<Rightarrow> (fault + outcome \<times> nat option \<times> bytes) option" where
  "read_loop tx rcv deadline amt es inp tot nr got =
     (if \<not> tot < amt then Some (Inr (Success, nr, got))
      else case es of
          [] \<Rightarrow> None
        | e # es \<Rightarrow>
            stepO (arm_timeout tx (str ''SO_RCVTIMEO'') [] deadline e) (\<lambda>r.
            case r of Some s \<Rightarrow> Some (Inr (s, nr, got))
            | None \<Rightarrow>
              stepO (rcv (amt - tot) e) (\<lambda>(s, n).
              let inc = (case n of None \<Rightarrow> 0 | Some k \<Rightarrow> k);
                  got = got @ take inc inp;
                  inp = drop inc inp;
                  tot = tot + inc; nr = Some tot
              in
              if s \<noteq> Success then
                if posix_of s = EINTR then read_loop tx rcv deadline amt es inp tot nr got
                else if posix_of s = EAGAIN then Some (Inr (failure kTimedOut [] [] (-1), nr, got))
                else stepO (prepend_outcome (str ''BlockingRecv error'') s) (\<lambda>s. Some (Inr (s, nr, got)))
              else if inc = 0 then
                Some (Inr (if tot < amt
                  then zero_bytes (str ''Read zero bytes on a blocking Recv() call'') tot amt
                  else Success, nr, got))
              else read_loop tx rcv deadline amt es inp tot nr got)))"

declare read_loop.simps [simp del]

definition BlockingRead ::
  "texts \<Rightarrow> transfer \<Rightarrow> MonoTime \<Rightarrow> nat \<Rightarrow> io_event list \<Rightarrow> bytes
   \<Rightarrow> (fault + outcome \<times> nat option \<times> bytes) option" where
  "BlockingRead tx rcv deadline amt es inp =
     (if \<not> amt \<le> 2 ^ 31 - 1 then Some (Inl CheckFailed)
      else read_loop tx rcv deadline amt es inp 0 None [])"

section \<open>What a transfer promises\<close>

text \<open>
  The contract of the system calls: an error number is a small number, and the monotonic clock
  is positive and fits 64 bits.
\<close>

definition good_time :: "MonoTime \<Rightarrow> bool" where
  "good_time t \<longleftrightarrow> 0 < nanos t \<and> nanos t < 2 ^ 63"

definition good_event :: "io_event \<Rightarrow> bool" where
  "good_event e \<longleftrightarrow> 0 \<le> err e \<and> err e < 2 ^ 15 \<and> good_time (clock e)"

text \<open>A round before the deadline in which the option is set and at least one byte moves.\<close>

definition moving :: "MonoTime \<Rightarrow> io_event \<Rightarrow> bool" where
  "moving deadline e \<longleftrightarrow> nanos (clock e) < nanos deadline \<and> setopt_errno e = 0 \<and> 0 < res e"

text \<open>
  The contract of the virtual functions where there is something to transfer: no check fails, a
  count is assigned exactly on success and is the result of the call, a call that moves bytes
  succeeds, and an interruption comes from the system.
\<close>

locale io_transfer =
  fixes call :: transfer
  assumes total: "0 < amt \<Longrightarrow> \<exists>s n. call amt e = Inr (s, n)"
    and success: "call amt e = Inr (s, n) \<Longrightarrow> s = Success \<longleftrightarrow> n \<noteq> None"
    and counted: "0 < amt \<Longrightarrow> call amt e = Inr (s, Some k) \<Longrightarrow> k = nat (answer amt e)"
    and moves: "0 < amt \<Longrightarrow> 0 < res e \<Longrightarrow> call amt e = Inr (Success, Some (nat (answer amt e)))"
    and interrupted: "good_event e \<Longrightarrow> call amt e = Inr (s, n) \<Longrightarrow> posix_of s = EINTR \<Longrightarrow> err e = EINTR"

lemma answer_pos [simp]: "0 < amt \<Longrightarrow> 0 < res e \<Longrightarrow> \<not> answer amt e \<le> 0" "0 < amt \<Longrightarrow> 0 < res e \<Longrightarrow> \<not> answer amt e < 0"
  by (simp_all add: answer_def)

text \<open>The plain socket with its descriptor, and the TLS socket with its SSL handle.\<close>

interpretation plain_write: io_transfer "Socket_Write tx (int sockfd)" for tx sockfd
  by unfold_locales
    (auto simp: Socket_Write_def good_event_def errno_defs wrap16_small nat_le_iff split: if_splits)

interpretation plain_read: io_transfer "Socket_Read tx (int sockfd)" for tx sockfd
  by unfold_locales
    (auto simp: Socket_Read_def good_event_def errno_defs wrap16_small nat_le_iff split: if_splits)

interpretation tls_write: io_transfer "TlsSocket_Write tx True" for tx
  by unfold_locales
    (auto simp: TlsSocket_Write_def good_event_def errno_defs wrap16_minus_1 nat_le_iff split: if_splits)

interpretation tls_read: io_transfer "TlsSocket_Read tx True" for tx
  by unfold_locales
    (auto simp: TlsSocket_Read_def good_event_def errno_defs wrap16_small wrap16_minus_1 nat_le_iff Let_def
      split: if_splits)

definition interrupts :: "io_event list \<Rightarrow> nat" where
  "interrupts es = length (filter (\<lambda>e. err e = EINTR) es)"

lemma time_left:
  assumes "good_time t" "good_time u"
  shows "time_diff t u = Inr (MonoDelta (nanos t - nanos u))" "delta_Initialized (MonoDelta (nanos t - nanos u))"
proof -
  have "in64 (nanos t - nanos u)" "nanos t - nanos u \<noteq> int64_min"
    using assms by (auto simp: good_time_def in64_iff int64_min_def)
  then show "time_diff t u = Inr (MonoDelta (nanos t - nanos u))" "delta_Initialized (MonoDelta (nanos t - nanos u))"
    using assms
    by (simp_all add: time_diff_def GetDeltaSince_def time_Initialized_def good_time_def delta_Initialized_def
        kUninitialized_def wrap64_id)
qed

lemma arm_timeout_total:
  assumes "good_time deadline" "good_time (clock e)"
  obtains (ready) "arm_timeout tx opt m deadline e = Inr None"
  | (stop) s where "arm_timeout tx opt m deadline e = Inr (Some s)" "s \<noteq> Success"
      "\<not> (nanos (clock e) < nanos deadline \<and> setopt_errno e = 0)"
proof -
  obtain tv where "ToTimeVal (MonoDelta (nanos deadline - nanos (clock e))) = Inr tv"
    using ToTimeVal_total [OF time_left(2) [OF assms]] by blast
  then show thesis
    using ready stop assms
    by (cases "nanos deadline - nanos (clock e) \<le> 0"; cases "setopt_errno e = 0")
      (auto simp: arm_timeout_def time_left ToNanoseconds_def SetTimeout_def)
qed

lemma zero_bytes_neq [simp]: "zero_bytes m k n \<noteq> Success"
  by (simp add: zero_bytes_def)

context io_transfer
begin

lemma bounded: "0 < amt \<Longrightarrow> call amt e = Inr (s, Some k) \<Longrightarrow> k \<le> amt"
  using counted [of amt e s k] by (simp add: answer_def)

text \<open>A call of the virtual function moves bytes or is an error, and an interruption is the system's.\<close>

lemma outcomes:
  assumes "0 < amt"
  obtains (moved) k where "call amt e = Inr (Success, Some k)" "k \<le> amt" "0 < res e \<longrightarrow> k \<noteq> 0"
  | (failed) s where "call amt e = Inr (s, None)" "s \<noteq> Success" "\<not> 0 < res e"
    "good_event e \<longrightarrow> posix_of s = EINTR \<longrightarrow> err e = EINTR"
proof -
  obtain s n where c: "call amt e = Inr (s, n)" using total [OF assms] by blast
  show thesis
  proof (cases n)
    case None
    then show thesis using failed success [OF c] c moves [OF assms, of e] interrupted [OF _ c] by auto
  next
    case (Some k)
    have "0 < res e \<longrightarrow> k \<noteq> 0" using counted [OF assms c [unfolded Some]] assms by (auto simp: answer_def)
    then show thesis using moved success [OF c] c Some bounded [OF assms] by auto
  qed
qed

text \<open>One round of each loop: it ends with an error, or goes on.\<close>

lemma write_round:
  assumes "tot < length buf" "good_event e" "good_time deadline"
  obtains (ends) s nw' where "write_loop tx call deadline buf (e # es) tot nw wire = Some (Inr (s, nw', wire))"
      "s \<noteq> Success" "nw' = nw \<or> nw' = Some tot" "\<not> moving deadline e"
  | (goes) inc where "write_loop tx call deadline buf (e # es) tot nw wire =
        write_loop tx call deadline buf es (tot + inc) (Some (tot + inc)) (wire @ take inc (drop tot buf))"
      "inc \<le> length buf - tot" "inc = 0 \<longrightarrow> err e = EINTR"
proof -
  note unf = write_loop.simps [of tx call deadline buf "e # es" tot nw wire]
  have pos: "0 < length buf - tot" using assms by simp
  have clock: "good_time (clock e)" using assms(2) by (simp add: good_event_def)
  show thesis
    using assms(3) clock
  proof (cases rule: arm_timeout_total [of deadline e tx "str ''SO_SNDTIMEO''" "str ''BlockingWrite timed out''"])
    case (stop s)
    then show thesis
      using assms ends [of s nw] by (auto simp: unf moving_def)
  next
    case ready
    show thesis
      using pos
    proof (cases rule: outcomes [of _ e])
      case (moved k)
      then show thesis
        using assms ready goes [of k] by (cases "k = 0") (auto simp: unf Let_def moving_def intro: ends)
    next
      case (failed s)
      obtain s' where s': "prepend_outcome (str ''BlockingWrite error'') s = Inr s'" "s' \<noteq> Success"
        using prepend_failure [OF failed(2)] by blast
      show thesis
      proof (cases "posix_of s = EINTR")
        case True
        then show thesis using failed assms ready by (intro goes [of 0]) (simp_all add: unf)
      next
        case False
        then show thesis
          using failed assms ready s' by (cases "posix_of s = EAGAIN") (auto simp: unf moving_def intro: ends)
      qed
    qed
  qed
qed

lemma read_round:
  assumes "tot < amt" "good_event e" "good_time deadline"
  obtains (ends) s nr' where "read_loop tx call deadline amt (e # es) inp tot nr got = Some (Inr (s, nr', got))"
      "s \<noteq> Success" "nr' = nr \<or> nr' = Some tot" "\<not> moving deadline e"
  | (goes) inc where "read_loop tx call deadline amt (e # es) inp tot nr got =
        read_loop tx call deadline amt es (drop inc inp) (tot + inc) (Some (tot + inc)) (got @ take inc inp)"
      "inc \<le> amt - tot" "inc = 0 \<longrightarrow> err e = EINTR"
proof -
  note unf = read_loop.simps [of tx call deadline amt "e # es" inp tot nr got]
  have pos: "0 < amt - tot" using assms by simp
  have clock: "good_time (clock e)" using assms(2) by (simp add: good_event_def)
  show thesis
    using assms(3) clock
  proof (cases rule: arm_timeout_total [of deadline e tx "str ''SO_RCVTIMEO''" "[]"])
    case (stop s)
    then show thesis
      using assms ends [of s nr] by (auto simp: unf moving_def)
  next
    case ready
    show thesis
      using pos
    proof (cases rule: outcomes [of _ e])
      case (moved k)
      then show thesis
        using assms ready goes [of k] by (cases "k = 0") (auto simp: unf Let_def moving_def intro: ends)
    next
      case (failed s)
      obtain s' where s': "prepend_outcome (str ''BlockingRecv error'') s = Inr s'" "s' \<noteq> Success"
        using prepend_failure [OF failed(2)] by blast
      show thesis
      proof (cases "posix_of s = EINTR")
        case True
        then show thesis using failed assms ready by (intro goes [of 0]) (simp_all add: unf)
      next
        case False
        then show thesis
          using failed assms ready s' by (cases "posix_of s = EAGAIN") (auto simp: unf moving_def intro: ends)
      qed
    qed
  qed
qed

text \<open>The whole of each loop.\<close>

lemma write_loop_exact:
  assumes "list_all good_event es" "good_time deadline" "length buf - tot + interrupts es < length es"
    and "wire = take tot buf" "tot \<le> length buf" "nw = Some tot \<or> nw = None \<and> tot = 0"
  shows "\<exists>s nw' k. write_loop tx call deadline buf es tot nw wire = Some (Inr (s, nw', take k buf))
    \<and> k \<le> length buf \<and> (nw' = Some k \<or> nw' = None \<and> k = 0) \<and> (s = Success \<longleftrightarrow> k = length buf)
    \<and> (list_all (moving deadline) es \<longrightarrow> s = Success)"
  using assms
proof (induction es arbitrary: tot nw wire)
  case (Cons e es)
  show ?case
  proof (cases "tot < length buf")
    case False
    then show ?thesis
      using Cons.prems by (auto simp: write_loop.simps [of tx call deadline buf "e # es"])
  next
    case True
    have good: "good_event e" using Cons.prems(1) by simp
    show ?thesis
      using True good Cons.prems(2)
    proof (cases rule: write_round [of tot buf e deadline tx es nw wire])
      case (ends s nw')
      then show ?thesis
        using Cons.prems(4-6) True by (intro exI [of _ s] exI [of _ nw'] exI [of _ tot]) auto
    next
      case (goes inc)
      have fuel: "length buf - (tot + inc) + interrupts es < length es"
        using Cons.prems(3) goes(3) True by (cases "inc = 0") (auto simp: interrupts_def split: if_splits)
      have "\<exists>s nw' k. write_loop tx call deadline buf es (tot + inc) (Some (tot + inc)) (wire @ take inc (drop tot buf))
          = Some (Inr (s, nw', take k buf)) \<and> k \<le> length buf \<and> (nw' = Some k \<or> nw' = None \<and> k = 0)
          \<and> (s = Success \<longleftrightarrow> k = length buf) \<and> (list_all (moving deadline) es \<longrightarrow> s = Success)"
        by (rule Cons.IH) (use Cons.prems goes fuel in \<open>simp_all add: take_add\<close>)
      then show ?thesis
        unfolding goes(1) by auto
    qed
  qed
qed simp

lemma read_loop_exact:
  assumes "list_all good_event es" "good_time deadline" "amt - tot + interrupts es < length es"
    and "got @ inp = whole" "length got = tot" "tot \<le> amt" "amt \<le> length whole" "nr = Some tot \<or> nr = None \<and> tot = 0"
  shows "\<exists>s nr' k. read_loop tx call deadline amt es inp tot nr got = Some (Inr (s, nr', take k whole))
    \<and> k \<le> amt \<and> (nr' = Some k \<or> nr' = None \<and> k = 0) \<and> (s = Success \<longleftrightarrow> k = amt)
    \<and> (list_all (moving deadline) es \<longrightarrow> s = Success)"
  using assms
proof (induction es arbitrary: inp tot nr got)
  case (Cons e es)
  have got: "got = take tot whole" using Cons.prems(4,5) by auto
  show ?case
  proof (cases "tot < amt")
    case False
    then show ?thesis
      using Cons.prems got by (auto simp: read_loop.simps [of tx call deadline amt "e # es"])
  next
    case True
    have good: "good_event e" using Cons.prems(1) by simp
    show ?thesis
      using True good Cons.prems(2)
    proof (cases rule: read_round [of tot amt e deadline tx es inp nr got])
      case (ends s nr')
      then show ?thesis
        using Cons.prems(5-8) True got by (intro exI [of _ s] exI [of _ nr'] exI [of _ tot]) auto
    next
      case (goes inc)
      have fuel: "amt - (tot + inc) + interrupts es < length es"
        using Cons.prems(3) goes(3) True by (cases "inc = 0") (auto simp: interrupts_def split: if_splits)
      have "\<exists>s nr' k. read_loop tx call deadline amt es (drop inc inp) (tot + inc) (Some (tot + inc)) (got @ take inc inp)
          = Some (Inr (s, nr', take k whole)) \<and> k \<le> amt \<and> (nr' = Some k \<or> nr' = None \<and> k = 0)
          \<and> (s = Success \<longleftrightarrow> k = amt) \<and> (list_all (moving deadline) es \<longrightarrow> s = Success)"
        by (rule Cons.IH) (use Cons.prems goes True fuel in auto)
      then show ?thesis
        unfolding goes(1) by auto
    qed
  qed
qed simp

end

section \<open>The properties\<close>

text \<open>The count the caller sees, and the loops over the virtual functions of both classes.\<close>

fun counts :: "nat option \<Rightarrow> nat" where
  "counts None = 0"
| "counts (Some k) = k"

definition blocking_writers :: "texts \<Rightarrow> transfer set" where
  "blocking_writers tx = insert (TlsSocket_Write tx True) (range (\<lambda>n. Socket_Write tx (int n)))"

definition blocking_readers :: "texts \<Rightarrow> transfer set" where
  "blocking_readers tx = insert (TlsSocket_Read tx True) (range (\<lambda>n. Socket_Read tx (int n)))"

lemma writers_transfer: "wr \<in> blocking_writers tx \<Longrightarrow> io_transfer wr"
  by (auto simp: blocking_writers_def intro: plain_write.io_transfer_axioms tls_write.io_transfer_axioms)

lemma readers_transfer: "rcv \<in> blocking_readers tx \<Longrightarrow> io_transfer rcv"
  by (auto simp: blocking_readers_def intro: plain_read.io_transfer_axioms tls_read.io_transfer_axioms)

text \<open>
  C11: a blocking write of less than 2 GiB on a plain socket that is open, or on a TLS socket
  with its SSL handle, returns a status once it has had more rounds than there are bytes and
  interruptions, and no check fails.  The wire then holds exactly the counted prefix of the
  buffer, and the status is success exactly when that is the whole buffer; which it is when each
  round moves a byte before the deadline.
\<close>

theorem blocking_write_exact:
  assumes "wr \<in> blocking_writers tx" "length buf < 2 ^ 31" "good_time deadline" "list_all good_event es"
    and "length buf + interrupts es < length es"
  shows "\<exists>s nw wire. BlockingWrite tx wr deadline buf es = Some (Inr (s, nw, wire))
    \<and> counts nw \<le> length buf \<and> wire = take (counts nw) buf \<and> (s = Success \<longleftrightarrow> wire = buf)
    \<and> (list_all (moving deadline) es \<longrightarrow> s = Success)"
proof -
  have run: "BlockingWrite tx wr deadline buf es = write_loop tx wr deadline buf es 0 None []"
    using assms(2) by (simp add: BlockingWrite_def)
  obtain s nw k where "write_loop tx wr deadline buf es 0 None [] = Some (Inr (s, nw, take k buf))"
    "k \<le> length buf" "nw = Some k \<or> nw = None \<and> k = 0" "s = Success \<longleftrightarrow> k = length buf"
    "list_all (moving deadline) es \<longrightarrow> s = Success"
    using io_transfer.write_loop_exact [OF writers_transfer [OF assms(1)] assms(4,3), of buf 0 "[]" None tx] assms(5)
    by auto
  then show ?thesis
    unfolding run by (intro exI [of _ s] exI [of _ nw] exI [of _ "take k buf"]) auto
qed

text \<open>
  C12: a blocking read of less than 2 GiB on a plain socket that is open, or on a TLS socket with
  its SSL handle, returns a status once it has had more rounds than bytes and interruptions, and
  no check fails.  It has filled the buffer with the bytes the peer sends, in their order and
  without a gap: the counted ones on any return, all that were asked for exactly on success; and
  it succeeds when each round moves a byte before the deadline.
\<close>

theorem blocking_read_exact:
  assumes "rcv \<in> blocking_readers tx" "amt < 2 ^ 31" "amt \<le> length inp" "good_time deadline"
    and "list_all good_event es" "amt + interrupts es < length es"
  shows "\<exists>s nr got. BlockingRead tx rcv deadline amt es inp = Some (Inr (s, nr, got))
    \<and> counts nr \<le> amt \<and> got = take (counts nr) inp \<and> (s = Success \<longleftrightarrow> got = take amt inp)
    \<and> (list_all (moving deadline) es \<longrightarrow> s = Success)"
proof -
  have run: "BlockingRead tx rcv deadline amt es inp = read_loop tx rcv deadline amt es inp 0 None []"
    using assms(2) by (simp add: BlockingRead_def)
  obtain s nr k where k: "read_loop tx rcv deadline amt es inp 0 None [] = Some (Inr (s, nr, take k inp))"
    "k \<le> amt" "nr = Some k \<or> nr = None \<and> k = 0" "s = Success \<longleftrightarrow> k = amt"
    "list_all (moving deadline) es \<longrightarrow> s = Success"
    using io_transfer.read_loop_exact [OF readers_transfer [OF assms(1)] assms(5,4), of amt 0 "[]" inp inp None tx] assms(3,6)
    by auto
  have "take k inp = take amt inp \<longleftrightarrow> k = amt"
    using k(2) assms(3) by (metis length_take min.absorb2 order_trans)
  then show ?thesis
    unfolding run using k by (intro exI [of _ s] exI [of _ nr] exI [of _ "take k inp"]) auto
qed

text \<open>
  C13: over any calls of \<open>Close\<close>, \<open>Reset\<close>, \<open>Init\<close> and \<open>Release\<close> a plain socket closes no descriptor
  that is not open, and once it is destroyed only those it released are open.
\<close>

theorem socket_owns_descriptor:
  assumes "run_sock tx ops (Socket n) = Some s"
  shows "\<not> bad_close s \<and> set (opened (snd (sock_Close tx None ce s))) = set (released s)"
  using plain_run [OF Socket_owns _ assms] plain_close(4) [of s tx None ce] by (auto simp: owns_def Socket_def)

text \<open>
  A TLS socket that is reset a second time leaves the first descriptor open: its \<open>Close\<close> does
  nothing once the SSL handle is gone.
\<close>

lemma tls_reset_leaks:
  "map_option opened (run_sock tx [OReset None 0 5, OReset None 0 6, OClose None 0] (TlsSocket 4))
     = Some [6, 5]"
  by (simp add: TlsSocket_def sock_Reset_def sock_Close_def TlsSocket_Close_def Socket_Close_def Let_def)

text \<open>\<open>Shutdown(false, false)\<close> shuts the reading side down: \<open>SHUT_RD\<close> is 0.\<close>

lemma shutdown_neither:
  "Socket_Shutdown tx False False e s = Socket_Shutdown tx True False e s"
  by (simp add: Socket_Shutdown_def SHUT_RD_def)

text \<open>Writing several buffers when every write succeeds: the count is what is on the wire.\<close>

definition accepted :: "bytes \<times> io_event \<Rightarrow> bool" where
  "accepted fe = (case fe of (frame, e) \<Rightarrow>
     length frame < 2 ^ 31 \<and> (0 < res e \<or> res e \<le> 0 \<and> ssl_error e = SSL_ERROR_WANT_WRITE))"

lemma accepted_write:
  assumes "accepted (frame, e)"
  shows "TlsSocket_Write tx True (length frame) e = Inr (Success, Some (nat (answer (length frame) e)))"
    "nat (answer (length frame) e) \<le> length frame"
  using assms by (auto simp: accepted_def TlsSocket_Write_def answer_def min_le_iff_disj)

lemma wrap32_small: "0 \<le> k \<Longrightarrow> k < 2 ^ 31 \<Longrightarrow> wrap32 k = k"
  by (rule wrap32_id) simp_all

lemma writev_loop_accepted:
  assumes "list_all accepted frames" "tw + length (concat (map fst frames)) < 2 ^ 31"
  shows "\<exists>nw' k. writev_loop tx True frames nw (int tw) wire Success
      = Inr (Success, nw', int (tw + k), wire @ take k (concat (map fst frames)))
    \<and> k \<le> length (concat (map fst frames))"
  using assms
proof (induction frames arbitrary: nw tw wire)
  case Nil
  then show ?case by (auto intro: exI [of _ 0])
next
  case (Cons fe frames)
  obtain f e where fe: "fe = (f, e)" by (cases fe)
  define k where "k = nat (answer (length f) e)"
  have acc: "accepted (f, e)" "list_all accepted frames" using Cons.prems(1) fe by simp_all
  have k: "TlsSocket_Write tx True (length f) e = Inr (Success, Some k)" "k \<le> length f"
    using accepted_write [OF acc(1)] by (simp_all add: k_def)
  have small: "wrap32 (int (length f)) = int (length f)" "int (length f) mod 2 ^ 64 = int (length f)"
      "wrap32 (int tw + int k) = int (tw + k)"
    using Cons.prems(2) k(2) fe by (simp_all add: wrap32_small)
  have unf: "writev_loop tx True (fe # frames) nw (int tw) wire Success =
      (if k < length f then Inr (Success, int k, int (tw + k), wire @ take k f)
       else writev_loop tx True frames (int k) (int (tw + k)) (wire @ take k f) Success)"
    using k small by (cases "k < length f") (simp_all add: fe Let_def)
  show ?case
  proof (cases "k < length f")
    case True
    then show ?thesis unfolding unf using k(2) fe by (auto intro!: exI [of _ k])
  next
    case False
    then have kf: "k = length f" using k(2) by simp
    from Cons.IH [OF acc(2), of "tw + k" "int k" "wire @ take k f"] Cons.prems(2)
    obtain nw' j where "writev_loop tx True frames (int k) (int (tw + k)) (wire @ take k f) Success
        = Inr (Success, nw', int (tw + k + j), (wire @ take k f) @ take j (concat (map fst frames)))"
        "j \<le> length (concat (map fst frames))"
      by (auto simp: fe kf)
    then show ?thesis
      unfolding unf using fe kf by (auto intro!: exI [of _ "k + j"] simp: add.assoc)
  qed
qed

text \<open>
  A TLS write of several buffers in which OpenSSL reports no error reports success and the
  number of bytes on the wire, which are a prefix of the buffers' contents.
\<close>

lemma tls_writev_counts:
  assumes "list_all accepted frames" "length (concat (map fst frames)) < 2 ^ 31"
  shows "\<exists>k. TlsSocket_Writev tx True frames nw 0 0
    = Inr (Success, int k, take k (concat (map fst frames))) \<and> k \<le> length (concat (map fst frames))"
  using writev_loop_accepted [OF assms(1), of 0 tx nw "[]"] assms(2)
  by (auto simp: TlsSocket_Writev_def SetTcpCork_def)

text \<open>
  a failing write in the middle is not noticed when its buffer is no longer than what was
  written before it: the count of the previous write is taken for its own, the next buffer is
  sent after the gap, and the result is success with a count of bytes that were never sent.
\<close>

theorem tls_writev_drops_frame:
  assumes "0 < length g" "length g \<le> length f" "2 * length f + length h < 2 ^ 31"
    and "int (length f) \<le> res e1" "res e2 \<le> 0" "ssl_error e2 \<noteq> SSL_ERROR_WANT_WRITE" "int (length h) \<le> res e3"
  shows "TlsSocket_Writev tx True [(f, e1), (g, e2), (h, e3)] nw 0 0
    = Inr (Success, 2 * int (length f) + int (length h), f @ h)"
proof -
  have f: "TlsSocket_Write tx True (length f) e1 = Inr (Success, Some (length f))"
    and h: "TlsSocket_Write tx True (length h) e3 = Inr (Success, Some (length h))"
    using assms by (auto simp: TlsSocket_Write_def answer_def)
  obtain st where g: "TlsSocket_Write tx True (length g) e2 = Inr (st, None)"
    using assms by (auto simp: TlsSocket_Write_def answer_def)
  have small: "wrap32 (int (length f)) = int (length f)" "wrap32 (int (length g)) = int (length g)"
      "wrap32 (int (length h)) = int (length h)" "wrap32 (int (length f) + int (length f)) = 2 * int (length f)"
      "wrap32 (2 * int (length f) + int (length h)) = 2 * int (length f) + int (length h)"
    using assms(2,3) by (simp_all add: wrap32_small)
  show ?thesis
    using assms(2,3) f g h small by (simp add: TlsSocket_Writev_def SetTcpCork_def Let_def)
qed

text \<open>Inputs of the witnesses: rounds that succeed or are interrupted.\<close>

definition round :: "int \<Rightarrow> int \<Rightarrow> io_event" where
  "round n errno = \<lparr>clock = MonoTime 100, setopt_errno = 0, res = n, err = errno,
     ssl_error = 0, ssl_shutdown_received = False, ssl_queue_empty = True\<rparr>"

definition rounds :: "io_event list" where
  "rounds = [round 2 0, round (-1) EINTR, round 1 0, round 1 0, round 1 0]"

lemma round_simps [simp]:
  "clock (round n e) = MonoTime 100" "setopt_errno (round n e) = 0" "res (round n e) = n"
  "err (round n e) = e" "ssl_error (round n e) = 0"
  by (simp_all add: round_def)

lemma good_rounds: "list_all good_event rounds" "interrupts rounds = 1" "length rounds = 5" "good_time (MonoTime 1000000)"
  by (simp_all add: rounds_def good_event_def good_time_def interrupts_def EINTR_def)

lemma sockets_in: "Socket_Write no_texts 7 \<in> blocking_writers no_texts"
    "TlsSocket_Read no_texts True \<in> blocking_readers no_texts"
  using rangeI [of "\<lambda>n. Socket_Write no_texts (int n)" 7] by (simp_all add: blocking_writers_def blocking_readers_def)

lemma arm_round: "arm_timeout no_texts opt m (MonoTime 1000000) (round n e) = Inr None"
  by (simp add: arm_timeout_def time_diff_def GetDeltaSince_def ToNanoseconds_def SetTimeout_def ToTimeVal_def
    wrap64_def delta_Initialized_def kUninitialized_def int64_min_def time_Initialized_def c_div_def Let_def
    kNanosecondsPerSecond_def kNanosecondsPerMicrosecond_def)

lemma run_rounds:
  "BlockingWrite no_texts (Socket_Write no_texts 7) (MonoTime 1000000) [1, 2, 3] rounds
     = Some (Inr (Success, Some 3, [1, 2, 3]))"
  by (simp add: BlockingWrite_def rounds_def write_loop.simps arm_round Socket_Write_def answer_def errno_defs Let_def wrap16_small)

theorem blocking_write_exact_witness:
  "BlockingWrite no_texts (Socket_Write no_texts 7) (MonoTime 1000000) [1, 2, 3] rounds
     = Some (Inr (Success, Some 3, [1, 2, 3]))
   \<and> [1, 2, 3] = take (counts (Some 3)) [1, 2, 3 :: byte]"
  using run_rounds
    blocking_write_exact [OF sockets_in(1) _ good_rounds(4,1), of "[1, 2, 3]"]
  by (simp add: good_rounds)

lemma read_rounds:
  "BlockingRead no_texts (TlsSocket_Read no_texts True) (MonoTime 1000000) 3 [round 2 0, round 4 0, round 1 0, round 1 0]
     [9, 8, 7, 6] = Some (Inr (Success, Some 3, [9, 8, 7]))"
  by (simp add: BlockingRead_def read_loop.simps arm_round TlsSocket_Read_def answer_def errno_defs Let_def)

theorem blocking_read_exact_witness:
  "BlockingRead no_texts (TlsSocket_Read no_texts True) (MonoTime 1000000) 3 [round 2 0, round 4 0, round 1 0, round 1 0]
     [9, 8, 7, 6] = Some (Inr (Success, Some 3, [9, 8, 7]))
   \<and> [9, 8, 7] = take (counts (Some 3)) [9, 8, 7, 6 :: byte]"
  using read_rounds
    blocking_read_exact [OF sockets_in(2) _ _ good_rounds(4), of 3 "[9, 8, 7, 6]" "[round 2 0, round 4 0, round 1 0, round 1 0]"]
  by (simp add: good_event_def good_time_def interrupts_def EINTR_def)

definition some_ops :: "sock_op list" where
  "some_ops = [OReset None 0 5, ORelease, OInit None 0 6 0, OClose None 9, OClose None 0, OReset None 0 7]"

lemma run_some_ops:
  "run_sock no_texts some_ops (Socket 4)
     = Some \<lparr>fd = 7, tls = None, opened = [7, 5], released = [5], bad_close = False\<rparr>"
  by (simp add: some_ops_def Socket_def sock_Reset_def sock_Close_def Socket_Close_def sock_Release_def
      Socket_Init_def adopt_def Let_def)

theorem socket_owns_descriptor_witness:
  "set (opened (snd (sock_Close no_texts None 0
     \<lparr>fd = 7, tls = None, opened = [7, 5], released = [5], bad_close = False\<rparr>))) = {5}"
  using socket_owns_descriptor [OF run_some_ops, of 0] by simp

theorem tls_writev_drops_frame_witness:
  "TlsSocket_Writev no_texts True [([1, 2], round 2 0), ([3], round (-1) 0), ([6], round 1 0)] 0 0 0
     = Inr (Success, 5, [1, 2, 6])"
  using tls_writev_drops_frame [of "[3]" "[1, 2]" "[6]" "round 2 0" "round (-1) 0" "round 1 0" no_texts 0]
  by (simp add: SSL_ERROR_WANT_WRITE_def)

end
