(* ===== verification/SpinLocks.thy ===== *)
theory SpinLocks
  imports Prelude
begin

text \<open>
  The spin lock of \<^verbatim>\<open>gbase/spinlock.*\<close> with its waiting primitives (\<^verbatim>\<open>spinlock_internal.cc\<close>,
  \<^verbatim>\<open>spinlock_linux-inl.h\<close>), and the one-time initialisation of \<^verbatim>\<open>gbase/once.*\<close> that waits with
  them.  Both are transition systems of any number of threads with one step for each access
  to the shared word; a thread between two accesses is at a program point with its local
  variables.  A futex wait falls asleep only while the word is the expected one, and ends with a
  wake-up, by its timeout, or for no reason.
\<close>

unbundle bit_operations_syntax

section \<open>The spin lock\<close>

definition kSpinLockFree :: int where "kSpinLockFree = 0"
definition kSpinLockHeld :: int where "kSpinLockHeld = 1"
definition kSpinLockSleeper :: int where "kSpinLockSleeper = 2"
definition PROFILE_TIMESTAMP_SHIFT :: nat where "PROFILE_TIMESTAMP_SHIFT = 7"

lemmas lockword_defs = kSpinLockFree_def kSpinLockHeld_def kSpinLockSleeper_def

definition CalculateWaitCycles :: "int \<Rightarrow> int \<Rightarrow> int" where
  "CalculateWaitCycles now wait_start_time =
     wrap32 (drop_bit PROFILE_TIMESTAMP_SHIFT (wrap64 (now - wait_start_time))) OR kSpinLockSleeper"

text \<open>
  Where a thread is: in the loop of \<^verbatim>\<open>SpinLoop\<close> with its counter, before the swap that ends
  \<^verbatim>\<open>SpinLoop\<close>, before either of the other swaps of \<^verbatim>\<open>SlowLock\<close>, before or in \<^verbatim>\<open>SpinLockDelay\<close>, in
  the critical section, or in \<^verbatim>\<open>SlowUnlock\<close>.  The last argument counts the calls of the delay.
\<close>

datatype spin_pc =
    SIdle
  | Spinning int int int
  | Trying int int
  | Marking int int int
  | Retrying int int int
  | Delaying int int int
  | Asleep int int
  | Held
  | Waking int

record SpinLock =
  lockword :: int
  spin_at :: "nat \<Rightarrow> spin_pc"

definition spin_new :: SpinLock where
  "spin_new = \<lparr>lockword = kSpinLockFree, spin_at = (\<lambda>_. SIdle)\<rparr>"

text \<open>Each operation on the word gives the new word and the point its thread goes to.\<close>

definition SpinLock_Lock :: "int \<Rightarrow> int \<Rightarrow> int \<Rightarrow> int \<times> spin_pc" where
  "SpinLock_Lock adaptive_spin_count now w =
     (if w = kSpinLockFree then (kSpinLockHeld, Held) else (w, Spinning now adaptive_spin_count 0))"

definition SpinLock_TryLock :: "int \<Rightarrow> int \<times> spin_pc" where
  "SpinLock_TryLock w = (if w = kSpinLockFree then (kSpinLockHeld, Held) else (w, SIdle))"

definition SpinLock_Unlock :: "int \<Rightarrow> int \<times> spin_pc" where
  "SpinLock_Unlock w = (kSpinLockFree, if w \<noteq> kSpinLockHeld then Waking w else SIdle)"

definition SpinLock_IsHeld :: "int \<Rightarrow> bool" where
  "SpinLock_IsHeld w \<longleftrightarrow> w \<noteq> kSpinLockFree"

text \<open>The head of the loop of \<^verbatim>\<open>SlowLock\<close>.\<close>

definition slow_head :: "int \<Rightarrow> int \<Rightarrow> int \<Rightarrow> int \<Rightarrow> spin_pc" where
  "slow_head lock_value wait_cycles start calls =
     (if lock_value = kSpinLockFree then Held
      else if lock_value = kSpinLockHeld then Marking wait_cycles start calls
      else Delaying lock_value start calls)"

text \<open>
  \<^verbatim>\<open>SuggestedDelayNS\<close> draws from a shared generator: the new state and the delay; and the
  nanoseconds of the timeout of the futex wait or of the sleep.
\<close>

definition SuggestedDelayNS :: "64 word \<Rightarrow> int \<Rightarrow> 64 word \<times> 64 word" where
  "SuggestedDelayNS rand loop =
     (let r = 0x5deece66d * rand + 0xb;
          loop = (if loop < 0 \<or> loop > 32 then 32 else loop)
      in (r, drop_bit (44 - nat (drop_bit 3 loop)) (push_bit 16 r)))"

definition delay_nsec :: "bool \<Rightarrow> 64 word \<Rightarrow> int \<Rightarrow> int" where
  "delay_nsec have_futex rand loop =
     (if have_futex then 16 * wrap32 (uint (snd (SuggestedDelayNS rand loop))) else 2000001)"

text \<open>\<^verbatim>\<open>SpinLockDelay\<close>: whether the thread sleeps on the word.\<close>

definition SpinLockDelay :: "bool \<Rightarrow> int \<Rightarrow> int \<Rightarrow> int \<Rightarrow> bool" where
  "SpinLockDelay have_futex w v loop \<longleftrightarrow> loop \<noteq> 0 \<and> have_futex \<and> w = v"

fun SlowLock_step :: "int \<Rightarrow> bool \<Rightarrow> int \<Rightarrow> int \<Rightarrow> spin_pc \<Rightarrow> int \<times> spin_pc" where
  "SlowLock_step adaptive_spin_count have_futex now w (Spinning start c calls) =
     (if w \<noteq> kSpinLockFree \<and> c - 1 > 0 then (w, Spinning start (c - 1) calls) else (w, Trying start calls))"
| "SlowLock_step adaptive_spin_count have_futex now w (Trying start calls) =
     (let wait_cycles = CalculateWaitCycles now start in
      (if w = kSpinLockFree then wait_cycles else w, slow_head w wait_cycles start calls))"
| "SlowLock_step adaptive_spin_count have_futex now w (Marking wait_cycles start calls) =
     (if w = kSpinLockHeld then (kSpinLockSleeper, Delaying kSpinLockSleeper start calls)
      else if w = kSpinLockFree then (w, Retrying wait_cycles start calls)
      else (w, Delaying w start calls))"
| "SlowLock_step adaptive_spin_count have_futex now w (Retrying wait_cycles start calls) =
     (if w = kSpinLockFree then wait_cycles else w, slow_head w wait_cycles start calls)"
| "SlowLock_step adaptive_spin_count have_futex now w (Delaying v start calls) =
     (let calls = wrap32 (calls + 1) in
      if SpinLockDelay have_futex w v calls then (w, Asleep start calls)
      else (w, Spinning start adaptive_spin_count calls))"
| "SlowLock_step adaptive_spin_count have_futex now w (Asleep start calls) =
     (w, Spinning start adaptive_spin_count calls)"
| "SlowLock_step adaptive_spin_count have_futex now w p = (w, p)"

text \<open>A thread in the slow path that is not asleep, and one that is.\<close>

fun in_slow :: "spin_pc \<Rightarrow> bool" where
  "in_slow (Spinning start c calls) = True"
| "in_slow (Trying start calls) = True"
| "in_slow (Marking wait_cycles start calls) = True"
| "in_slow (Retrying wait_cycles start calls) = True"
| "in_slow (Delaying v start calls) = True"
| "in_slow p = False"

fun asleep :: "spin_pc \<Rightarrow> bool" where
  "asleep (Asleep start calls) = True"
| "asleep p = False"

fun waking :: "spin_pc \<Rightarrow> bool" where
  "waking (Waking w) = True"
| "waking p = False"

definition move :: "nat \<Rightarrow> int \<times> spin_pc \<Rightarrow> SpinLock \<Rightarrow> SpinLock" where
  "move t wp s = \<lparr>lockword = fst wp, spin_at = (spin_at s)(t := snd wp)\<rparr>"

text \<open>
  The steps.  \<open>SlowUnlock\<close> wakes one sleeping thread when there is one and futexes are available.
\<close>

inductive spin_step :: "int \<Rightarrow> bool \<Rightarrow> SpinLock \<Rightarrow> SpinLock \<Rightarrow> bool" for cnt fx where
  lock: "spin_at s t = SIdle \<Longrightarrow> spin_step cnt fx s (move t (SpinLock_Lock cnt now (lockword s)) s)"
| try_lock: "spin_at s t = SIdle \<Longrightarrow> spin_step cnt fx s (move t (SpinLock_TryLock (lockword s)) s)"
| slow: "in_slow (spin_at s t) \<or> asleep (spin_at s t) \<Longrightarrow>
    spin_step cnt fx s (move t (SlowLock_step cnt fx now (lockword s) (spin_at s t)) s)"
| unlock: "spin_at s t = Held \<Longrightarrow> spin_step cnt fx s (move t (SpinLock_Unlock (lockword s)) s)"
| wake_one: "waking (spin_at s t) \<Longrightarrow> fx \<Longrightarrow> spin_at s u = Asleep start calls \<Longrightarrow>
    spin_step cnt fx s (move t (lockword s, SIdle) (move u (lockword s, Spinning start cnt calls) s))"
| wake_none: "waking (spin_at s t) \<Longrightarrow> \<not> fx \<or> (\<forall>u. \<not> asleep (spin_at s u)) \<Longrightarrow>
    spin_step cnt fx s (move t (lockword s, SIdle) s)"

inductive spin_reach :: "int \<Rightarrow> bool \<Rightarrow> SpinLock \<Rightarrow> bool" for cnt fx where
  start: "spin_reach cnt fx spin_new"
| step: "spin_reach cnt fx s \<Longrightarrow> spin_step cnt fx s s' \<Longrightarrow> spin_reach cnt fx s'"

section \<open>The values of the word\<close>

text \<open>The wait time is never taken for a free lock or for one without waiters.\<close>

definition contended :: "int \<Rightarrow> bool" where
  "contended w \<longleftrightarrow> w \<noteq> kSpinLockFree \<and> w \<noteq> kSpinLockHeld"

lemma contended_simps [simp]:
  "\<not> contended kSpinLockFree" "\<not> contended kSpinLockHeld" "contended kSpinLockSleeper"
  by (simp_all add: contended_def lockword_defs)

lemma or_sleeper_contended: "contended (w OR kSpinLockSleeper)"
proof -
  have "bit (w OR kSpinLockSleeper) 1" by (simp add: bit_or_iff kSpinLockSleeper_def bit_numeral_rec)
  moreover have "\<not> bit (0 :: int) 1" "\<not> bit (1 :: int) 1" by simp_all
  ultimately show ?thesis by (auto simp: contended_def kSpinLockFree_def kSpinLockHeld_def)
qed

lemma CalculateWaitCycles_contended [simp]: "contended (CalculateWaitCycles now start)"
  by (simp add: CalculateWaitCycles_def or_sleeper_contended)

text \<open>The local variables of the program points.\<close>

fun pc_ok :: "spin_pc \<Rightarrow> bool" where
  "pc_ok (Marking wait_cycles start calls) = contended wait_cycles"
| "pc_ok (Retrying wait_cycles start calls) = contended wait_cycles"
| "pc_ok (Delaying v start calls) = contended v"
| "pc_ok p = True"

lemma slow_head_cases:
  assumes "contended c"
  shows "w = kSpinLockFree \<and> slow_head w c start calls = Held
    \<or> w \<noteq> kSpinLockFree \<and> in_slow (slow_head w c start calls) \<and> pc_ok (slow_head w c start calls)"
  using assms by (simp add: slow_head_def contended_def)

text \<open>What one step of the slow path can do: take the free lock, mark the held one, or only move.\<close>

lemma SlowLock_step_cases:
  assumes "in_slow p \<or> asleep p" "pc_ok p" "SlowLock_step cnt fx now w p = (w', p')"
  obtains (takes) "w = kSpinLockFree" "contended w'" "p' = Held"
    | (marks) "w = kSpinLockHeld" "w' = kSpinLockSleeper" "in_slow p'" "pc_ok p'"
    | (moves) "w' = w" "in_slow p'" "pc_ok p'"
    | (sleeps) "w' = w" "contended w" "asleep p'" fx
proof (cases p)
  case (Trying start calls)
  then show thesis
    using assms(3) slow_head_cases [OF CalculateWaitCycles_contended [of now start], of w start calls]
      takes moves by (auto simp: Let_def split: if_splits)
next
  case (Marking c start calls)
  then show thesis
    using assms(2,3) marks moves by (auto simp: contended_def lockword_defs split: if_splits)
next
  case (Retrying c start calls)
  then show thesis
    using assms(2,3) slow_head_cases [of c w start calls] takes moves by (auto split: if_splits)
next
  case (Delaying v start calls)
  then show thesis
    using assms(2,3) sleeps moves by (auto simp: Let_def SpinLockDelay_def split: if_splits)
qed (use assms moves in \<open>auto split: if_splits\<close>)

section \<open>Mutual exclusion and wake-ups\<close>

definition holders :: "SpinLock \<Rightarrow> nat set" where
  "holders s = {t. spin_at s t = Held}"

definition lock_inv :: "SpinLock \<Rightarrow> bool" where
  "lock_inv s \<longleftrightarrow>
     (if lockword s = kSpinLockFree then holders s = {} else (\<exists>t. holders s = {t}))"

definition awake :: "SpinLock \<Rightarrow> nat \<Rightarrow> bool" where
  "awake s t \<longleftrightarrow> in_slow (spin_at s t) \<or> waking (spin_at s t)"

definition sleep_inv :: "bool \<Rightarrow> SpinLock \<Rightarrow> bool" where
  "sleep_inv fx s \<longleftrightarrow>
     ((\<exists>t. asleep (spin_at s t)) \<longrightarrow> fx \<and> (contended (lockword s) \<or> (\<exists>u. awake s u)))"

definition spin_inv :: "bool \<Rightarrow> SpinLock \<Rightarrow> bool" where
  "spin_inv fx s \<longleftrightarrow> lock_inv s \<and> (\<forall>t. pc_ok (spin_at s t)) \<and> sleep_inv fx s"

lemma move_simps [simp]:
  "lockword (move t (w, p) s) = w"
  "spin_at (move t (w, p) s) u = (if u = t then p else spin_at s u)"
  by (simp_all add: move_def)

lemma holders_move: "holders (move t (w, p) s) = (if p = Held then insert t (holders s) else holders s - {t})"
  by (auto simp: holders_def)

lemma in_holders: "t \<in> holders s \<longleftrightarrow> spin_at s t = Held"
  by (simp add: holders_def)

text \<open>A thread outside the critical section takes the free lock, or leaves the lock as it was held.\<close>

lemma lock_inv_take: "lock_inv s \<Longrightarrow> lockword s = kSpinLockFree \<Longrightarrow> w \<noteq> kSpinLockFree \<Longrightarrow> lock_inv (move t (w, Held) s)"
  by (simp add: lock_inv_def holders_move)

lemma lock_inv_other:
  "lock_inv s \<Longrightarrow> spin_at s t \<noteq> Held \<Longrightarrow> p \<noteq> Held \<Longrightarrow> (w = kSpinLockFree \<longleftrightarrow> lockword s = kSpinLockFree)
    \<Longrightarrow> lock_inv (move t (w, p) s)"
  by (auto simp: lock_inv_def holders_move in_holders [symmetric])

lemma lock_inv_release:
  "lock_inv s \<Longrightarrow> spin_at s t = Held \<Longrightarrow> p \<noteq> Held \<Longrightarrow> lock_inv (move t (kSpinLockFree, p) s)"
  by (auto simp: lock_inv_def holders_move in_holders [symmetric] split: if_splits)

text \<open>
  Sleepers stay safe when the moving thread stays awake, when the word is contended, or when
  neither the thread nor the word protected them.
\<close>

lemma asleep_excl: "in_slow p \<Longrightarrow> \<not> asleep p" "waking p \<Longrightarrow> \<not> asleep p" "waking p \<Longrightarrow> \<not> in_slow p"
  by (cases p; simp)+

lemma sleep_inv_awake:
  "sleep_inv fx s \<Longrightarrow> in_slow p \<or> waking p \<Longrightarrow> sleep_inv fx (move t (w, p) s)"
  using asleep_excl [of p] by (fastforce simp: sleep_inv_def awake_def split: if_splits)

lemma sleep_inv_contended:
  "sleep_inv fx s \<Longrightarrow> contended w \<Longrightarrow> asleep p \<longrightarrow> fx \<Longrightarrow> sleep_inv fx (move t (w, p) s)"
  by (auto simp: sleep_inv_def split: if_splits)

lemma sleep_inv_neutral:
  "sleep_inv fx s \<Longrightarrow> \<not> awake s t \<Longrightarrow> \<not> asleep p \<Longrightarrow> w = lockword s \<or> \<not> contended (lockword s)
    \<Longrightarrow> sleep_inv fx (move t (w, p) s)"
  by (fastforce simp: sleep_inv_def awake_def split: if_splits)

lemma spin_new_inv: "spin_inv fx spin_new"
  by (simp add: spin_inv_def lock_inv_def holders_def sleep_inv_def spin_new_def)

lemma outside_step:
  assumes inv: "spin_inv fx s" and out: "in_slow (spin_at s t) \<or> asleep (spin_at s t)"
  shows "spin_inv fx (move t (SlowLock_step cnt fx now (lockword s) (spin_at s t)) s)"
proof -
  have lk: "lock_inv s" and ok: "\<And>t. pc_ok (spin_at s t)" and sl: "sleep_inv fx s"
    using inv by (simp_all add: spin_inv_def)
  have nh: "spin_at s t \<noteq> Held" using out by auto
  obtain w' p' where step: "SlowLock_step cnt fx now (lockword s) (spin_at s t) = (w', p')" by fastforce
  have goal: "spin_inv fx (move t (w', p') s) \<Longrightarrow> ?thesis" by (simp only: step)
  from out ok [of t] step show ?thesis
  proof (cases rule: SlowLock_step_cases)
    case takes
    then show ?thesis
      using lock_inv_take [OF lk, of w' t] sleep_inv_contended [OF sl, of w' Held t] ok
      by (intro goal) (simp add: spin_inv_def contended_def)
  next
    case marks
    then have "p' \<noteq> Held" by auto
    then show ?thesis
      using marks lock_inv_other [OF lk nh, of p' w'] sleep_inv_awake [OF sl, of p' t w'] ok
      by (intro goal) (simp add: spin_inv_def lockword_defs)
  next
    case moves
    then have "p' \<noteq> Held" by auto
    then show ?thesis
      using moves lock_inv_other [OF lk nh, of p' w'] sleep_inv_awake [OF sl, of p' t w'] ok
      by (intro goal) (simp add: spin_inv_def)
  next
    case sleeps
    then have "p' \<noteq> Held" "pc_ok p'" by (cases p'; simp)+
    then show ?thesis
      using sleeps lock_inv_other [OF lk nh, of p' w'] sleep_inv_contended [OF sl, of w' p' t] ok
      by (intro goal) (simp add: spin_inv_def)
  qed
qed

lemma idle_step:
  assumes inv: "spin_inv fx s" and idle: "spin_at s t = SIdle"
  shows "spin_inv fx (move t (SpinLock_Lock cnt now (lockword s)) s)"
    "spin_inv fx (move t (SpinLock_TryLock (lockword s)) s)"
proof -
  have lk: "lock_inv s" and ok: "\<And>t. pc_ok (spin_at s t)" and sl: "sleep_inv fx s"
    using inv by (simp_all add: spin_inv_def)
  have na: "\<not> awake s t" using idle by (simp add: awake_def)
  show "spin_inv fx (move t (SpinLock_Lock cnt now (lockword s)) s)"
    using lock_inv_take [OF lk, of kSpinLockHeld t] lock_inv_other [OF lk, of t "Spinning now cnt 0" "lockword s"]
      sleep_inv_neutral [OF sl na, of Held kSpinLockHeld] sleep_inv_awake [OF sl, of "Spinning now cnt 0" t] ok idle
    by (simp add: SpinLock_Lock_def spin_inv_def) (simp add: lockword_defs contended_def)
  show "spin_inv fx (move t (SpinLock_TryLock (lockword s)) s)"
    using lock_inv_take [OF lk, of kSpinLockHeld t] lock_inv_other [OF lk, of t SIdle "lockword s"]
      sleep_inv_neutral [OF sl na, of Held kSpinLockHeld] sleep_inv_neutral [OF sl na, of SIdle "lockword s"] ok idle
    by (simp add: SpinLock_TryLock_def spin_inv_def) (simp add: lockword_defs contended_def)
qed

lemma unlock_step:
  assumes inv: "spin_inv fx s" and held: "spin_at s t = Held"
  shows "spin_inv fx (move t (SpinLock_Unlock (lockword s)) s)"
proof -
  have lk: "lock_inv s" and ok: "\<And>t. pc_ok (spin_at s t)" and sl: "sleep_inv fx s"
    using inv by (simp_all add: spin_inv_def)
  have na: "\<not> awake s t" using held by (simp add: awake_def)
  show ?thesis
    using lock_inv_release [OF lk held] sleep_inv_awake [OF sl, of "Waking (lockword s)" t]
      sleep_inv_neutral [OF sl na, of SIdle kSpinLockFree] ok
    by (simp add: SpinLock_Unlock_def spin_inv_def contended_def)
qed

lemma wake_one_step:
  assumes inv: "spin_inv fx s" and "waking (spin_at s t)" "spin_at s u = Asleep start calls"
  shows "spin_inv fx (move t (lockword s, SIdle) (move u (lockword s, Spinning start cnt calls) s))"
proof -
  have lk: "lock_inv s" and ok: "\<And>t. pc_ok (spin_at s t)" and sl: "sleep_inv fx s"
    using inv by (simp_all add: spin_inv_def)
  have ne: "t \<noteq> u" "spin_at s t \<noteq> Held" using assms(2,3) by auto
  let ?s = "move u (lockword s, Spinning start cnt calls) s"
  have lk': "lock_inv ?s" using lock_inv_other [OF lk, of u] assms(3) by simp
  have "sleep_inv fx (move t (lockword s, SIdle) ?s)"
    using sl ne by (auto simp: sleep_inv_def awake_def)
  then show ?thesis
    using lock_inv_other [OF lk', of t SIdle] ne ok by (simp add: spin_inv_def)
qed

lemma wake_none_step:
  assumes inv: "spin_inv fx s" and "waking (spin_at s t)" "\<not> fx \<or> (\<forall>u. \<not> asleep (spin_at s u))"
  shows "spin_inv fx (move t (lockword s, SIdle) s)"
proof -
  have lk: "lock_inv s" and ok: "\<And>t. pc_ok (spin_at s t)" and sl: "sleep_inv fx s"
    using inv by (simp_all add: spin_inv_def)
  have nh: "spin_at s t \<noteq> Held" using assms(2) by auto
  have "\<not> asleep (spin_at s u)" for u using assms(3) sl by (auto simp: sleep_inv_def)
  then have "sleep_inv fx (move t (lockword s, SIdle) s)" by (simp add: sleep_inv_def)
  then show ?thesis using lock_inv_other [OF lk nh, of SIdle] ok by (simp add: spin_inv_def)
qed

lemma spin_step_inv: "spin_step cnt fx s s' \<Longrightarrow> spin_inv fx s \<Longrightarrow> spin_inv fx s'"
  by (induction rule: spin_step.induct)
    (blast intro: idle_step outside_step unlock_step wake_one_step wake_none_step)+

lemma spin_reach_inv: "spin_reach cnt fx s \<Longrightarrow> spin_inv fx s"
  by (induction rule: spin_reach.induct) (blast intro: spin_new_inv spin_step_inv)+

text \<open>
  C15: at every moment at most one thread is in the critical section, and the lock reads as held
  exactly when one is, whatever values of the word the waiting threads have left.
\<close>

theorem spin_lock_excludes:
  assumes "spin_reach cnt fx s"
  shows "card (holders s) \<le> 1 \<and> (SpinLock_IsHeld (lockword s) \<longleftrightarrow> holders s \<noteq> {})"
  using spin_reach_inv [OF assms] by (auto simp: spin_inv_def lock_inv_def SpinLock_IsHeld_def split: if_splits)

text \<open>
  C16: no wake-up is lost.  While a thread sleeps on the word, some other thread is awake in the
  slow path or about to wake a sleeper, or the lock is held and its release will wake one.
\<close>

theorem spin_no_lost_wakeup:
  assumes "spin_reach cnt fx s" "asleep (spin_at s t)"
  shows "(\<exists>u. awake s u) \<or> (\<exists>h. holders s = {h} \<and> waking (snd (SpinLock_Unlock (lockword s))))"
  using spin_reach_inv [OF assms(1)] assms(2)
  by (auto simp: spin_inv_def lock_inv_def sleep_inv_def contended_def SpinLock_Unlock_def split: if_splits)

text \<open>A run in which thread 0 holds the lock and thread 1 sleeps on it.\<close>

definition sleeping :: SpinLock where
  "sleeping = \<lparr>lockword = 2, spin_at = (\<lambda>_. SIdle)(0 := Held, 1 := Asleep 5 1)\<rparr>"

lemma SpinLock_eqI:
  "lockword s = lockword s' \<Longrightarrow> (\<And>t. spin_at s t = spin_at s' t) \<Longrightarrow> s = (s' :: SpinLock)"
  by (cases s, cases s') (simp add: fun_eq_iff)

lemma sleeping_reached: "spin_reach 0 True sleeping"
proof -
  let ?s1 = "\<lparr>lockword = 1, spin_at = (\<lambda>_. SIdle)(0 := Held)\<rparr>"
  let ?s2 = "\<lparr>lockword = 1, spin_at = (\<lambda>_. SIdle)(0 := Held, 1 := Spinning 5 0 0)\<rparr>"
  let ?s3 = "\<lparr>lockword = 1, spin_at = (\<lambda>_. SIdle)(0 := Held, 1 := Trying 5 0)\<rparr>"
  let ?s4 = "\<lparr>lockword = 1, spin_at = (\<lambda>_. SIdle)(0 := Held, 1 := Marking (CalculateWaitCycles 9 5) 5 0)\<rparr>"
  let ?s5 = "\<lparr>lockword = 2, spin_at = (\<lambda>_. SIdle)(0 := Held, 1 := Delaying 2 5 0)\<rparr>"
  have 1: "spin_reach 0 True ?s1"
    using spin_step.lock [of spin_new 0 0 True 1] spin_reach.start [of 0 True]
    by (auto intro: spin_reach.step simp: spin_new_def move_def SpinLock_Lock_def lockword_defs)
  have 2: "spin_reach 0 True ?s2"
    using spin_step.lock [of ?s1 1 0 True 5] by (auto intro: spin_reach.step [OF 1]
      simp: move_def SpinLock_Lock_def lockword_defs)
  have 3: "spin_reach 0 True ?s3"
    using spin_step.slow [of ?s2 1 0 True 5] by (auto intro: spin_reach.step [OF 2]
      simp: move_def lockword_defs fun_upd_idem_iff)
  have 4: "spin_reach 0 True ?s4"
    using spin_step.slow [of ?s3 1 0 True 9] by (auto intro: spin_reach.step [OF 3]
      simp: move_def lockword_defs slow_head_def Let_def)
  have 5: "spin_reach 0 True ?s5"
    using spin_step.slow [of ?s4 1 0 True 9] by (auto intro: spin_reach.step [OF 4]
      simp: move_def lockword_defs)
  show ?thesis
    using spin_step.slow [of ?s5 1 0 True 9] by (auto intro: spin_reach.step [OF 5]
      simp: sleeping_def move_def SpinLockDelay_def Let_def wrap32_def)
qed

theorem spin_lock_excludes_witness:
  "card (holders sleeping) \<le> 1 \<and> holders sleeping \<noteq> {}"
  using spin_lock_excludes [OF sleeping_reached] by (simp add: sleeping_def SpinLock_IsHeld_def lockword_defs)

theorem spin_no_lost_wakeup_witness:
  "(\<exists>u. awake sleeping u) \<or> (\<exists>h. holders sleeping = {h} \<and> waking (snd (SpinLock_Unlock (lockword sleeping))))"
  using spin_no_lost_wakeup [OF sleeping_reached, of 1] by (simp add: sleeping_def)

section \<open>One-time initialisation\<close>

definition GOOGLE_ONCE_INTERNAL_INIT :: int where "GOOGLE_ONCE_INTERNAL_INIT = 0"
definition GOOGLE_ONCE_INTERNAL_RUNNING :: int where "GOOGLE_ONCE_INTERNAL_RUNNING = 0x65C2937B"
definition GOOGLE_ONCE_INTERNAL_WAITER :: int where "GOOGLE_ONCE_INTERNAL_WAITER = 0x05A308D2"
definition GOOGLE_ONCE_INTERNAL_DONE :: int where "GOOGLE_ONCE_INTERNAL_DONE = 0x3F2D8AB0"

lemmas once_defs = GOOGLE_ONCE_INTERNAL_INIT_def GOOGLE_ONCE_INTERNAL_RUNNING_def
  GOOGLE_ONCE_INTERNAL_WAITER_def GOOGLE_ONCE_INTERNAL_DONE_def

record SpinLockWaitTransition =
  tr_from :: int
  tr_to :: int
  tr_done :: bool

definition once_trans :: "SpinLockWaitTransition list" where
  "once_trans =
    [\<lparr>tr_from = GOOGLE_ONCE_INTERNAL_INIT, tr_to = GOOGLE_ONCE_INTERNAL_RUNNING, tr_done = True\<rparr>,
     \<lparr>tr_from = GOOGLE_ONCE_INTERNAL_RUNNING, tr_to = GOOGLE_ONCE_INTERNAL_WAITER, tr_done = False\<rparr>,
     \<lparr>tr_from = GOOGLE_ONCE_INTERNAL_DONE, tr_to = GOOGLE_ONCE_INTERNAL_DONE, tr_done = True\<rparr>]"

text \<open>
  A caller of \<^verbatim>\<open>GoogleOnceInit\<close>: before its first load, before the sanity check, before the first
  swap, in the loop of \<^verbatim>\<open>SpinLockWait\<close> (before the load, before the swap of a transition, before or
  in the delay), before the call of the function, before the load and the store that follow it,
  before the wake-up, or returned.
\<close>

datatype once_pc =
    Calling
  | Checking
  | Claiming
  | WaitLoad int
  | WaitSwap int SpinLockWaitTransition int
  | WaitDelay int int
  | WaitSleep int
  | RunFunc
  | LoadControl
  | StoreDone int
  | WakeAll
  | Returned

record Once =
  control :: int
  once_at :: "nat \<Rightarrow> once_pc"
  runs :: nat

definition once_new :: Once where
  "once_new = \<lparr>control = GOOGLE_ONCE_INTERNAL_INIT, once_at = (\<lambda>_. Calling), runs = 0\<rparr>"

text \<open>What \<^verbatim>\<open>GoogleOnceInternalInit\<close> does with the value \<^verbatim>\<open>SpinLockWait\<close> returns.\<close>

definition after_wait :: "int \<Rightarrow> once_pc" where
  "after_wait v = (if v = GOOGLE_ONCE_INTERNAL_INIT then RunFunc else Returned)"

text \<open>One access of \<^verbatim>\<open>SpinLockWait\<close> to the word.\<close>

fun SpinLockWait_step ::
  "SpinLockWaitTransition list \<Rightarrow> bool \<Rightarrow> int \<Rightarrow> once_pc \<Rightarrow> int \<times> once_pc" where
  "SpinLockWait_step trs have_futex w (WaitLoad loop) =
     (case List.find (\<lambda>tr. w = tr_from tr) trs of
        None \<Rightarrow> (w, WaitDelay w loop)
      | Some tr \<Rightarrow>
          if tr_to tr = w then (w, if tr_done tr then after_wait w else WaitLoad (wrap32 (loop + 1)))
          else (w, WaitSwap w tr loop))"
| "SpinLockWait_step trs have_futex w (WaitSwap v tr loop) =
     (if w = v then (tr_to tr, if tr_done tr then after_wait v else WaitLoad (wrap32 (loop + 1)))
      else (w, WaitLoad (wrap32 (loop + 1))))"
| "SpinLockWait_step trs have_futex w (WaitDelay v loop) =
     (w, if SpinLockDelay have_futex w v loop then WaitSleep loop else WaitLoad (wrap32 (loop + 1)))"
| "SpinLockWait_step trs have_futex w (WaitSleep loop) = (w, WaitLoad (wrap32 (loop + 1)))"
| "SpinLockWait_step trs have_futex w p = (w, p)"

fun once_wake :: "once_pc \<Rightarrow> once_pc" where
  "once_wake (WaitSleep loop) = WaitLoad (wrap32 (loop + 1))"
| "once_wake p = p"

text \<open>The next step of thread \<open>t\<close>; a sleeping thread's own step is the end of its timeout.\<close>

definition put :: "nat \<Rightarrow> int \<times> once_pc \<Rightarrow> Once \<Rightarrow> Once" where
  "put t wp s = s\<lparr>control := fst wp, once_at := (once_at s)(t := snd wp)\<rparr>"

definition once_next :: "bool \<Rightarrow> nat \<Rightarrow> Once \<Rightarrow> fault + Once" where
  "once_next have_futex t s =
    (let w = control s in
     case once_at s t of
       Calling \<Rightarrow> Inr (put t (w, if w \<noteq> GOOGLE_ONCE_INTERNAL_DONE then Checking else Returned) s)
     | Checking \<Rightarrow>
         if w \<noteq> GOOGLE_ONCE_INTERNAL_INIT \<and> w \<noteq> GOOGLE_ONCE_INTERNAL_RUNNING \<and>
            w \<noteq> GOOGLE_ONCE_INTERNAL_WAITER \<and> w \<noteq> GOOGLE_ONCE_INTERNAL_DONE
         then Inl CheckFailed else Inr (put t (w, Claiming) s)
     | Claiming \<Rightarrow>
         Inr (put t (if w = GOOGLE_ONCE_INTERNAL_INIT then (GOOGLE_ONCE_INTERNAL_RUNNING, RunFunc)
                     else (w, WaitLoad 0)) s)
     | RunFunc \<Rightarrow> Inr (put t (w, LoadControl) (s\<lparr>runs := runs s + 1\<rparr>))
     | LoadControl \<Rightarrow> Inr (put t (w, StoreDone w) s)
     | StoreDone old_control \<Rightarrow>
         Inr (put t (GOOGLE_ONCE_INTERNAL_DONE,
                     if old_control = GOOGLE_ONCE_INTERNAL_WAITER then WakeAll else Returned) s)
     | WakeAll \<Rightarrow> Inr (put t (w, Returned) (s\<lparr>once_at := once_wake \<circ> once_at s\<rparr>))
     | p \<Rightarrow> Inr (put t (SpinLockWait_step once_trans have_futex w p) s))"

fun run_once :: "bool \<Rightarrow> nat list \<Rightarrow> Once \<Rightarrow> fault + Once" where
  "run_once have_futex [] s = Inr s"
| "run_once have_futex (t # ts) s = bindE (once_next have_futex t s) (run_once have_futex ts)"

subsection \<open>The function runs once\<close>

text \<open>The thread that was elected is at one of these points until it has stored the final value.\<close>

fun elected :: "once_pc \<Rightarrow> bool" where
  "elected RunFunc = True"
| "elected LoadControl = True"
| "elected (StoreDone old) = True"
| "elected p = False"

text \<open>A swap of \<^verbatim>\<open>SpinLockWait\<close> is one of the two transitions that change the word.\<close>

fun once_pc_ok :: "once_pc \<Rightarrow> bool" where
  "once_pc_ok (WaitSwap v tr loop) = (tr \<in> set once_trans \<and> v = tr_from tr \<and> v \<noteq> tr_to tr)"
| "once_pc_ok p = True"

definition electees :: "Once \<Rightarrow> nat set" where
  "electees s = {t. elected (once_at s t)}"

text \<open>A thread past the store, or one that never had to wait.\<close>

fun past :: "once_pc \<Rightarrow> bool" where
  "past WakeAll = True"
| "past Returned = True"
| "past p = False"

definition finished :: "Once \<Rightarrow> nat set" where
  "finished s = {t. past (once_at s t)}"

definition once_inv :: "Once \<Rightarrow> bool" where
  "once_inv s \<longleftrightarrow> (\<forall>t. once_pc_ok (once_at s t)) \<and>
     (control s = GOOGLE_ONCE_INTERNAL_INIT \<and> electees s = {} \<and> runs s = 0 \<and> finished s = {}
      \<or> (control s = GOOGLE_ONCE_INTERNAL_RUNNING \<or> control s = GOOGLE_ONCE_INTERNAL_WAITER)
        \<and> (\<exists>t. electees s = {t} \<and> runs s = (if once_at s t = RunFunc then 0 else 1))
        \<and> finished s = {}
      \<or> control s = GOOGLE_ONCE_INTERNAL_DONE \<and> electees s = {} \<and> runs s = 1)"

lemma put_simps [simp]:
  "control (put t (w, p) s) = w" "runs (put t (w, p) s) = runs s"
  "once_at (put t (w, p) s) u = (if u = t then p else once_at s u)"
  by (simp_all add: put_def)

lemma electees_put: "electees (put t (w, p) s) = (if elected p then insert t (electees s) else electees s - {t})"
  by (auto simp: electees_def)

lemma runs_update [simp]: "electees (s\<lparr>runs := n\<rparr>) = electees s" "finished (s\<lparr>runs := n\<rparr>) = finished s"
  by (simp_all add: electees_def finished_def)

lemma not_elected: "\<not> elected (once_at s t) \<Longrightarrow> electees s - {t} = electees s"
  by (auto simp: electees_def)

lemma once_distinct [simp]:
  "GOOGLE_ONCE_INTERNAL_INIT \<noteq> GOOGLE_ONCE_INTERNAL_RUNNING"
  "GOOGLE_ONCE_INTERNAL_INIT \<noteq> GOOGLE_ONCE_INTERNAL_WAITER"
  "GOOGLE_ONCE_INTERNAL_INIT \<noteq> GOOGLE_ONCE_INTERNAL_DONE"
  "GOOGLE_ONCE_INTERNAL_RUNNING \<noteq> GOOGLE_ONCE_INTERNAL_INIT"
  "GOOGLE_ONCE_INTERNAL_RUNNING \<noteq> GOOGLE_ONCE_INTERNAL_WAITER"
  "GOOGLE_ONCE_INTERNAL_RUNNING \<noteq> GOOGLE_ONCE_INTERNAL_DONE"
  "GOOGLE_ONCE_INTERNAL_WAITER \<noteq> GOOGLE_ONCE_INTERNAL_INIT"
  "GOOGLE_ONCE_INTERNAL_WAITER \<noteq> GOOGLE_ONCE_INTERNAL_RUNNING"
  "GOOGLE_ONCE_INTERNAL_WAITER \<noteq> GOOGLE_ONCE_INTERNAL_DONE"
  "GOOGLE_ONCE_INTERNAL_DONE \<noteq> GOOGLE_ONCE_INTERNAL_INIT"
  "GOOGLE_ONCE_INTERNAL_DONE \<noteq> GOOGLE_ONCE_INTERNAL_RUNNING"
  "GOOGLE_ONCE_INTERNAL_DONE \<noteq> GOOGLE_ONCE_INTERNAL_WAITER"
  by (simp_all add: once_defs)

text \<open>The phases of the invariant.\<close>

lemma once_invE:
  assumes "once_inv s"
  obtains (fresh) "control s = GOOGLE_ONCE_INTERNAL_INIT" "electees s = {}" "runs s = 0" "finished s = {}"
    | (busy) e where "control s = GOOGLE_ONCE_INTERNAL_RUNNING \<or> control s = GOOGLE_ONCE_INTERNAL_WAITER"
      "electees s = {e}" "runs s = (if once_at s e = RunFunc then 0 else 1)" "finished s = {}"
    | (over) "control s = GOOGLE_ONCE_INTERNAL_DONE" "electees s = {}" "runs s = 1"
  using assms that unfolding once_inv_def by blast

lemma once_inv_ok: "once_inv s \<Longrightarrow> once_pc_ok (once_at s t)"
  by (simp add: once_inv_def)

lemma finished_put: "finished (put t (w, p) s) = (if past p then insert t (finished s) else finished s - {t})"
  by (auto simp: finished_def)

text \<open>A thread that is not the elected one moves, or marks that somebody waits.\<close>

lemma once_quiet:
  assumes inv: "once_inv s" and t: "\<not> elected (once_at s t)" and p: "\<not> elected p" "once_pc_ok p"
    and ret: "past p \<longrightarrow> control s = GOOGLE_ONCE_INTERNAL_DONE"
    and w: "w = control s \<or> control s = GOOGLE_ONCE_INTERNAL_RUNNING \<and> w = GOOGLE_ONCE_INTERNAL_WAITER"
  shows "once_inv (put t (w, p) s)"
proof -
  have ok: "\<forall>u. once_pc_ok (once_at (put t (w, p) s) u)" using p(2) once_inv_ok [OF inv] by simp
  have el: "electees (put t (v, p) s) = electees s" for v by (simp add: electees_put p not_elected [OF t])
  from inv show ?thesis
  proof (cases rule: once_invE)
    case fresh
    then show ?thesis using ok w ret by (simp add: once_inv_def el finished_put)
  next
    case (busy e)
    then have "e \<noteq> t" using t by (auto simp: electees_def)
    then show ?thesis using ok w ret busy by (auto simp: once_inv_def el finished_put)
  next
    case over
    then show ?thesis using ok w ret by (simp add: once_inv_def el)
  qed
qed

lemma once_elect:
  assumes inv: "once_inv s" and c: "control s = GOOGLE_ONCE_INTERNAL_INIT"
  shows "once_inv (put t (GOOGLE_ONCE_INTERNAL_RUNNING, RunFunc) s)"
  using inv
proof (cases rule: once_invE)
  case fresh
  then show ?thesis
    using once_inv_ok [OF inv] by (auto simp: once_inv_def electees_put finished_put)
qed (use c in auto)

lemma once_elected_busy:
  assumes "once_inv s" "elected (once_at s t)"
  shows "electees s = {t} \<and> runs s = (if once_at s t = RunFunc then 0 else 1)
    \<and> (control s = GOOGLE_ONCE_INTERNAL_RUNNING \<or> control s = GOOGLE_ONCE_INTERNAL_WAITER)
    \<and> finished s = {}"
proof -
  have t: "t \<in> electees s" using assms(2) by (simp add: electees_def)
  from assms(1) show ?thesis by (cases rule: once_invE) (use t in auto)
qed

lemma once_trans_find:
  "List.find (\<lambda>tr. w = tr_from tr) once_trans =
     (if w = GOOGLE_ONCE_INTERNAL_INIT then Some (once_trans ! 0)
      else if w = GOOGLE_ONCE_INTERNAL_RUNNING then Some (once_trans ! 1)
      else if w = GOOGLE_ONCE_INTERNAL_DONE then Some (once_trans ! 2) else None)"
  by (simp add: once_trans_def)

lemma once_trans_simps [simp]:
  "tr_from (once_trans ! 0) = GOOGLE_ONCE_INTERNAL_INIT" "tr_to (once_trans ! 0) = GOOGLE_ONCE_INTERNAL_RUNNING"
  "tr_from (once_trans ! Suc 0) = GOOGLE_ONCE_INTERNAL_RUNNING" "tr_to (once_trans ! Suc 0) = GOOGLE_ONCE_INTERNAL_WAITER"
  "tr_from (once_trans ! 2) = GOOGLE_ONCE_INTERNAL_DONE" "tr_to (once_trans ! 2) = GOOGLE_ONCE_INTERNAL_DONE"
  "tr_done (once_trans ! 2)" "tr_done (once_trans ! 0)" "\<not> tr_done (once_trans ! Suc 0)" "once_trans ! 0 \<in> set once_trans" "once_trans ! Suc 0 \<in> set once_trans"
  by (simp_all add: once_trans_def)

text \<open>A step of \<^verbatim>\<open>SpinLockWait\<close> on the table of the once.\<close>

lemma once_wait_step:
  assumes inv: "once_inv s" and pc: "once_at s t = p" "\<not> elected p" "p \<notin> {Calling, Checking, Claiming, WakeAll}"
  shows "once_inv (put t (SpinLockWait_step once_trans fx (control s) p) s)"
proof -
  have quiet: "once_inv (put t (w, p') s)"
    if "\<not> elected p'" "once_pc_ok p'" "past p' \<longrightarrow> control s = GOOGLE_ONCE_INTERNAL_DONE"
      "w = control s \<or> control s = GOOGLE_ONCE_INTERNAL_RUNNING \<and> w = GOOGLE_ONCE_INTERNAL_WAITER" for w p'
    using once_quiet [OF inv, of t p' w] that pc by simp
  have ok: "once_pc_ok p" using once_inv_ok [OF inv, of t] pc by simp
  show ?thesis
  proof (cases p)
    case (WaitLoad loop)
    then show ?thesis
      by (auto simp: once_trans_find after_wait_def intro!: quiet)
  next
    case (WaitSwap v tr loop)
    then have tr: "tr = once_trans ! 0 \<or> tr = once_trans ! Suc 0" and v: "v = tr_from tr"
      using ok by (auto simp: once_trans_def)
    show ?thesis
    proof (cases "control s = v")
      case False
      then show ?thesis using WaitSwap by (simp add: quiet)
    next
      case True
      from tr show ?thesis
      proof
        assume "tr = once_trans ! 0"
        then show ?thesis using WaitSwap v True once_elect [OF inv, of t] by (simp add: after_wait_def)
      next
        assume "tr = once_trans ! Suc 0"
        then show ?thesis using WaitSwap v True by (simp add: quiet)
      qed
    qed
  next
    case Returned
    then have "t \<in> finished s" using pc by (simp add: finished_def)
    then have "control s = GOOGLE_ONCE_INTERNAL_DONE" by (cases rule: once_invE [OF inv]) auto
    then show ?thesis using Returned by (simp add: quiet)
  qed (use pc in \<open>auto intro!: quiet\<close>)
qed

lemma once_wake_elected [simp]: "elected (once_wake p) = elected p" "past (once_wake p) = past p"
    "once_pc_ok p \<Longrightarrow> once_pc_ok (once_wake p)"
  by (cases p; simp)+

lemma once_next_inv:
  assumes inv: "once_inv s"
  shows "\<exists>s'. once_next fx t s = Inr s' \<and> once_inv s'"
proof (cases "once_at s t")
  case Calling
  then show ?thesis by (auto simp: once_next_def Let_def intro!: once_quiet [OF inv])
next
  case Checking
  from inv have "control s \<in> {GOOGLE_ONCE_INTERNAL_INIT, GOOGLE_ONCE_INTERNAL_RUNNING,
      GOOGLE_ONCE_INTERNAL_WAITER, GOOGLE_ONCE_INTERNAL_DONE}"
    by (cases rule: once_invE) auto
  then show ?thesis using Checking by (auto simp: once_next_def Let_def intro!: once_quiet [OF inv])
next
  case Claiming
  then show ?thesis
    using once_elect [OF inv, of t] by (auto simp: once_next_def Let_def intro!: once_quiet [OF inv])
next
  case RunFunc
  then show ?thesis
    using once_elected_busy [OF inv, of t] once_inv_ok [OF inv]
    by (auto simp: once_next_def Let_def once_inv_def electees_put finished_put)
next
  case LoadControl
  then show ?thesis
    using once_elected_busy [OF inv, of t] once_inv_ok [OF inv]
    by (auto simp: once_next_def Let_def once_inv_def electees_put finished_put)
next
  case (StoreDone old)
  then show ?thesis
    using once_elected_busy [OF inv, of t] once_inv_ok [OF inv]
    by (auto simp: once_next_def Let_def once_inv_def electees_put)
next
  case WakeAll
  let ?s = "s\<lparr>once_at := once_wake \<circ> once_at s\<rparr>"
  have "t \<in> finished s" using WakeAll by (simp add: finished_def)
  then have "control s = GOOGLE_ONCE_INTERNAL_DONE" "electees s = {}" "runs s = 1"
    by (cases rule: once_invE [OF inv]; simp)+
  then have "once_inv ?s" and c: "control ?s = GOOGLE_ONCE_INTERNAL_DONE"
    using once_inv_ok [OF inv] by (simp_all add: once_inv_def electees_def)
  then have "once_inv (put t (control ?s, Returned) ?s)"
    using WakeAll by (intro once_quiet) simp_all
  then show ?thesis using WakeAll by (simp add: once_next_def Let_def)
qed (use once_wait_step [OF inv refl, of t fx] in \<open>simp_all add: once_next_def Let_def\<close>)

lemma once_new_inv: "once_inv once_new"
  by (simp add: once_inv_def once_new_def electees_def finished_def)

lemma run_once_inv: "once_inv s \<Longrightarrow> \<exists>s'. run_once fx ts s = Inr s' \<and> once_inv s'"
proof (induction ts arbitrary: s)
  case (Cons t ts)
  from once_next_inv [OF Cons.prems, of fx t] Cons.IH show ?case by auto
qed simp

text \<open>
  C17: whatever the schedule of the callers, the sanity check never fails, the function is called
  at most once, and no caller returns before that call has ended.
\<close>

theorem once_runs_function:
  "\<exists>s. run_once fx ts once_new = Inr s \<and> runs s \<le> 1
    \<and> (\<forall>t. once_at s t = Returned \<longrightarrow> runs s = 1 \<and> control s = GOOGLE_ONCE_INTERNAL_DONE)"
proof -
  obtain s where run: "run_once fx ts once_new = Inr s" and inv: "once_inv s"
    using run_once_inv [OF once_new_inv] by blast
  have "once_at s t = Returned \<Longrightarrow> t \<in> finished s" for t by (simp add: finished_def)
  with inv have "runs s \<le> 1 \<and> (\<forall>t. once_at s t = Returned \<longrightarrow> runs s = 1 \<and> control s = GOOGLE_ONCE_INTERNAL_DONE)"
    by (cases rule: once_invE) auto
  with run show ?thesis by blast
qed

theorem once_runs_function_witness:
  "map_sum id (\<lambda>s. (once_at s 0, runs s)) (run_once True [0, 0, 0, 0, 0, 0] once_new) = Inr (Returned, 1)
   \<and> (\<exists>s. run_once True [0, 0, 0, 0, 0, 0] once_new = Inr s \<and> runs s \<le> 1)"
  using once_runs_function [of True "[0, 0, 0, 0, 0, 0]"]
  by (auto simp: once_next_def once_new_def put_def Let_def)

text \<open>
  a caller that marks the word after the elected thread has read it and before that thread
  has stored the final value sleeps on although everybody else has returned: nobody wakes it, and
  only the end of its timeout lets it go on.
\<close>

theorem once_lost_wakeup:
  "map_sum id (\<lambda>s. (control s, once_at s 0, once_at s 1))
     (run_once True [0, 0, 0, 1, 1, 1, 1, 0, 0, 1, 1, 1, 0] once_new)
   = Inr (GOOGLE_ONCE_INTERNAL_DONE, Returned, WaitSleep 1)"
  by (simp add: once_next_def once_new_def put_def Let_def once_trans_def SpinLockDelay_def wrap32_def)

text \<open>The timeout of a delay is a valid one: not negative, and less than a second.\<close>

lemma delay_nsec_valid: "0 \<le> delay_nsec fx rand loop \<and> delay_nsec fx rand loop < 10 ^ 9"
proof -
  define sh where "sh = 44 - nat (drop_bit 3 (if loop < 0 \<or> loop > 32 then 32 else loop))"
  define r where "r = push_bit 16 (0x5deece66d * rand + 0xb)"
  have "nat (drop_bit 3 (if loop < 0 \<or> loop > 32 then 32 else loop)) \<le> 4"
    by (auto simp: drop_bit_eq_div)
  then have "40 \<le> sh" by (simp add: sh_def)
  then have p: "(2 :: int) ^ 40 \<le> 2 ^ sh" by (intro power_increasing) simp_all
  have "uint (drop_bit sh r) = uint r div 2 ^ sh"
    using uint_lt2p [of r] by (simp only: unsigned_drop_bit_eq) (simp add: drop_bit_eq_div take_bit_int_eq_self)
  also have "\<dots> \<le> uint r div 2 ^ 40"
    using p by (intro zdiv_mono2) simp_all
  also have "\<dots> < 2 ^ 24" using uint_lt2p [of r] by simp
  finally have b: "uint (drop_bit sh r) < 2 ^ 24" .
  then have "wrap32 (uint (drop_bit sh r)) = uint (drop_bit sh r)" by (simp add: wrap32_def)
  moreover have "snd (SuggestedDelayNS rand loop) = drop_bit sh r"
    by (simp add: SuggestedDelayNS_def sh_def r_def Let_def)
  ultimately show ?thesis using b by (simp add: delay_nsec_def)
qed

end
