(* ===== verification/FileSys.thy ===== *)
theory FileSys
  imports SysStatus
begin

text \<open>
  The file-system side of \<^verbatim>\<open>base/env_posix.cc\<close>: what an open file holds, what the system answers
  to a call, the statuses made from its error numbers, and the helpers \<^verbatim>\<open>DoSync\<close> and \<^verbatim>\<open>DoOpen\<close>.
  A file has the contents that readers see and those that the last successful \<^verbatim>\<open>fsync\<close> has made
  durable.  A call consumes one answer of a list for each attempt; a call that is still being
  retried when the list ends is \<open>None\<close>.
\<close>

section \<open>Files and answers\<close>

record fnode =
  content :: bytes
  durable :: bytes

text \<open>What \<^verbatim>\<open>ftruncate\<close>, \<^verbatim>\<open>pwrite\<close> and \<^verbatim>\<open>fsync\<close> do to it; a gap reads as zeros.\<close>

definition resize :: "nat \<Rightarrow> bytes \<Rightarrow> bytes" where
  "resize n xs = take n xs @ replicate (n - length xs) 0"

definition write_at :: "nat \<Rightarrow> bytes \<Rightarrow> bytes \<Rightarrow> bytes" where
  "write_at off ys xs = (if ys = [] then xs else resize off xs @ ys @ drop (off + length ys) xs)"

definition fsync :: "fnode \<Rightarrow> fnode" where
  "fsync nd = nd\<lparr>durable := content nd\<rparr>"

text \<open>A call succeeds, a transfer with a count, or fails with an error number.\<close>

datatype reply = Done nat | Err int

fun RETRY_ON_EINTR :: "reply list \<Rightarrow> (reply \<times> reply list) option" where
  "RETRY_ON_EINTR [] = None"
| "RETRY_ON_EINTR (r # rs) = (if r = Err EINTR then RETRY_ON_EINTR rs else Some (r, rs))"

text \<open>A call that is not retried.\<close>

fun call_once :: "reply list \<Rightarrow> (reply \<times> reply list) option" where
  "call_once [] = None"
| "call_once (r # rs) = Some (r, rs)"

section \<open>Statuses\<close>

definition ENOENT :: int where "ENOENT = 2"
definition EIO :: int where "EIO = 5"
definition EEXIST :: int where "EEXIST = 17"
definition ENOSYS :: int where "ENOSYS = 38"
definition EOPNOTSUPP :: int where "EOPNOTSUPP = 95"

record io_flags =
  env_use_fsync :: bool
  suicide_on_eio :: bool
  never_fsync :: bool

definition IOError :: "texts \<Rightarrow> io_flags \<Rightarrow> bytes \<Rightarrow> int \<Rightarrow> fault + outcome" where
  "IOError tx fl ctxt err_number =
     (if err_number = ENOENT then Inr (failure kNotFound ctxt (errno_text tx err_number) err_number)
      else if err_number = EEXIST then Inr (failure kAlreadyPresent ctxt (errno_text tx err_number) err_number)
      else if err_number = EOPNOTSUPP then Inr (failure kNotSupported ctxt (errno_text tx err_number) err_number)
      else if err_number = EIO \<and> suicide_on_eio fl then Inl CheckFailed
      else Inr (failure kIOError ctxt (errno_text tx err_number) err_number))"

lemma IOError_fails: "IOError tx fl ctxt e = Inr s \<Longrightarrow> s \<noteq> Success"
  by (auto simp: IOError_def split: if_splits)

lemma IOError_not_Success [simp]: "IOError tx fl ctxt e \<noteq> Inr Success"
  using IOError_fails by blast

lemma IOError_returns:
  assumes "e \<noteq> EIO \<or> \<not> suicide_on_eio fl"
  obtains s where "IOError tx fl ctxt e = Inr s" "s \<noteq> Success"
  using assms IOError_fails [of tx fl ctxt e]
  by (cases "IOError tx fl ctxt e") (auto simp: IOError_def split: if_splits)

section \<open>Results\<close>

text \<open>
  A run of an operation: \<open>None\<close> when the answers have run out, a fault, or the result with the
  answers that are left.
\<close>

type_synonym 'a run = "reply list \<Rightarrow> (fault + 'a \<times> reply list) option"

definition returnR :: "'a \<Rightarrow> 'a run" where
  "returnR x = (\<lambda>rs. Some (Inr (x, rs)))"

definition bindR :: "'a run \<Rightarrow> ('a \<Rightarrow> 'b run) \<Rightarrow> 'b run" where
  "bindR m k = (\<lambda>rs. case m rs of None \<Rightarrow> None
     | Some (Inl f) \<Rightarrow> Some (Inl f) | Some (Inr (x, rs)) \<Rightarrow> k x rs)"

definition liftR :: "fault + 'a \<Rightarrow> 'a run" where
  "liftR v = (\<lambda>rs. Some (case v of Inl f \<Rightarrow> Inl f | Inr x \<Rightarrow> Inr (x, rs)))"

definition askR :: "(reply list \<Rightarrow> (reply \<times> reply list) option) \<Rightarrow> reply run" where
  "askR q = (\<lambda>rs. map_option Inr (q rs))"

text \<open>\<open>m\<close> returns \<open>x\<close> for some answers.\<close>

definition returns :: "'a run \<Rightarrow> 'a \<Rightarrow> bool" where
  "returns m x \<longleftrightarrow> (\<exists>rs rs'. m rs = Some (Inr (x, rs')))"

named_theorems run_defs
lemmas [run_defs] = returnR_def bindR_def liftR_def askR_def

lemma run_returnR [simp]: "returnR x rs = Some (Inr (y, rs')) \<longleftrightarrow> y = x \<and> rs' = rs"
  by (auto simp: returnR_def)

lemma run_bindR: "bindR m k rs = Some (Inr (y, rs')) \<longleftrightarrow>
    (\<exists>x rs1. m rs = Some (Inr (x, rs1)) \<and> k x rs1 = Some (Inr (y, rs')))"
  by (auto simp: bindR_def split: option.splits sum.splits)

lemma run_liftR [simp]: "liftR v rs = Some (Inr (y, rs')) \<longleftrightarrow> v = Inr y \<and> rs' = rs"
  by (auto simp: liftR_def split: sum.splits)

lemma run_askR [simp]: "askR q rs = Some (Inr (r, rs')) \<longleftrightarrow> q rs = Some (r, rs')"
  by (auto simp: askR_def)

lemma ex_reply [simp]: "(\<exists>r :: reply. P r) \<longleftrightarrow> (\<exists>n. P (Done n)) \<or> (\<exists>e. P (Err e))"
  by (metis reply.exhaust)

text \<open>The reply of a retried call is never an interruption.\<close>

lemma RETRY_not_EINTR: "RETRY_ON_EINTR rs = Some (r, rs') \<Longrightarrow> r \<noteq> Err EINTR"
  by (induction rs rule: RETRY_ON_EINTR.induct) (auto split: if_splits)

text \<open>A retried call returns once the system answers it with anything else.\<close>

lemma RETRY_returns: "list_ex (\<lambda>r. r \<noteq> Err EINTR) rs \<Longrightarrow> RETRY_ON_EINTR rs \<noteq> None"
  by (induction rs rule: RETRY_ON_EINTR.induct) (auto simp del: ex_reply)

section \<open>\<^verbatim>\<open>DoSync\<close> and \<^verbatim>\<open>DoOpen\<close>\<close>

text \<open>Both \<^verbatim>\<open>fsync\<close> and \<^verbatim>\<open>fdatasync\<close> make the contents durable; the flag picks one.\<close>

definition DoSync :: "texts \<Rightarrow> io_flags \<Rightarrow> bytes \<Rightarrow> fnode \<Rightarrow> (outcome \<times> fnode) run" where
  "DoSync tx fl filename nd =
     (if never_fsync fl then returnR (Success, nd)
      else bindR (askR call_once) (\<lambda>r. case r of
          Err e \<Rightarrow> bindR (liftR (IOError tx fl filename e)) (\<lambda>s. returnR (s, nd))
        | Done _ \<Rightarrow> returnR (Success, fsync nd)))"

lemma DoSync_result:
  "DoSync tx fl nm nd rs = Some (Inr ((s, nd'), rs')) \<Longrightarrow>
    content nd' = content nd \<and> (s = Success \<longrightarrow> never_fsync fl \<and> nd' = nd \<or> nd' = fsync nd) \<and> (s \<noteq> Success \<longrightarrow> nd' = nd)"
  by (auto simp: DoSync_def run_bindR fsync_def dest: IOError_fails split: if_splits)

text \<open>The files by their names.\<close>

type_synonym fs = "bytes \<Rightarrow> fnode option"

datatype CreateMode = CREATE_IF_NON_EXISTING_TRUNCATE | CREATE_NON_EXISTING | OPEN_EXISTING

record open_flags =
  O_CREAT :: bool
  O_TRUNC :: bool
  O_EXCL :: bool

definition empty_file :: fnode where
  "empty_file = \<lparr>content = [], durable = []\<rparr>"

text \<open>What \<^verbatim>\<open>open\<close> does when nothing else stops it: the error number or the files.\<close>

definition sys_open :: "fs \<Rightarrow> bytes \<Rightarrow> open_flags \<Rightarrow> int + fs" where
  "sys_open fs nm fl =
     (case fs nm of
        None \<Rightarrow> if O_CREAT fl then Inr (fs(nm \<mapsto> empty_file)) else Inl ENOENT
      | Some nd \<Rightarrow>
          if O_CREAT fl \<and> O_EXCL fl then Inl EEXIST
          else if O_TRUNC fl then Inr (fs(nm \<mapsto> nd\<lparr>content := []\<rparr>)) else Inr fs)"

definition mode_flags :: "CreateMode \<Rightarrow> open_flags" where
  "mode_flags mode =
     (case mode of
        CREATE_IF_NON_EXISTING_TRUNCATE \<Rightarrow> \<lparr>O_CREAT = True, O_TRUNC = True, O_EXCL = False\<rparr>
      | CREATE_NON_EXISTING \<Rightarrow> \<lparr>O_CREAT = True, O_TRUNC = False, O_EXCL = True\<rparr>
      | OPEN_EXISTING \<Rightarrow> \<lparr>O_CREAT = False, O_TRUNC = False, O_EXCL = False\<rparr>)"

text \<open>The status, the descriptor and the files; an answer \<open>Err\<close> is any other failure of \<^verbatim>\<open>open\<close>.\<close>

definition DoOpen :: "texts \<Rightarrow> io_flags \<Rightarrow> bytes \<Rightarrow> CreateMode \<Rightarrow> fs \<Rightarrow> (outcome \<times> int option \<times> fs) run" where
  "DoOpen tx fl filename mode fs =
     bindR (askR call_once) (\<lambda>r.
       case (case r of Err e \<Rightarrow> Inl e | Done f \<Rightarrow> map_sum id (Pair (int f)) (sys_open fs filename (mode_flags mode))) of
         Inl e \<Rightarrow> bindR (liftR (IOError tx fl filename e)) (\<lambda>s. returnR (s, None, fs))
       | Inr (f, fs) \<Rightarrow> returnR (Success, Some f, fs))"

lemma DoOpen_result:
  assumes "DoOpen tx fl nm mode fs rs = Some (Inr ((s, f, fs'), rs'))"
  shows "s = Success \<and> f \<noteq> None \<and> sys_open fs nm (mode_flags mode) = Inr fs' \<or> s \<noteq> Success \<and> f = None \<and> fs' = fs"
  using assms
  by (cases "sys_open fs nm (mode_flags mode)") (auto simp: DoOpen_def run_bindR dest: IOError_fails)

text \<open>
  a file is opened as the table of the create modes says: truncated or created, created only,
  or opened only; a failed open leaves the files as they were.
\<close>

theorem create_mode_table:
  assumes "DoOpen tx fl nm mode fs rs = Some (Inr ((s, f, fs'), rs'))"
  shows "if s = Success
    then fs' = fs(nm \<mapsto> case fs nm of None \<Rightarrow> empty_file
           | Some nd \<Rightarrow> if mode = OPEN_EXISTING then nd else nd\<lparr>content := []\<rparr>)
      \<and> (mode = CREATE_NON_EXISTING \<longrightarrow> fs nm = None) \<and> (mode = OPEN_EXISTING \<longrightarrow> fs nm \<noteq> None)
    else fs' = fs"
proof -
  have "sys_open fs nm (mode_flags mode) = Inr fs' \<Longrightarrow>
      fs' = fs(nm \<mapsto> case fs nm of None \<Rightarrow> empty_file
           | Some nd \<Rightarrow> if mode = OPEN_EXISTING then nd else nd\<lparr>content := []\<rparr>)
      \<and> (mode = CREATE_NON_EXISTING \<longrightarrow> fs nm = None) \<and> (mode = OPEN_EXISTING \<longrightarrow> fs nm \<noteq> None)"
    by (cases mode) (auto simp: sys_open_def mode_flags_def map_upd_triv split: option.splits)
  with DoOpen_result [OF assms] show ?thesis by auto
qed

definition test_flags :: io_flags where
  "test_flags = \<lparr>env_use_fsync = True, suicide_on_eio = True, never_fsync = False\<rparr>"

lemma open_new:
  "DoOpen no_texts test_flags [1] CREATE_NON_EXISTING Map.empty [Done 3]
     = Some (Inr ((Success, Some 3, [[1] \<mapsto> empty_file]), []))"
  by (simp add: DoOpen_def run_defs sys_open_def mode_flags_def)

theorem create_mode_table_witness:
  "DoOpen no_texts test_flags [1] CREATE_NON_EXISTING Map.empty [Done 3]
     = Some (Inr ((Success, Some 3, [[1] \<mapsto> empty_file]), [])) \<and> (Map.empty :: fs) [1] = None"
  using open_new create_mode_table [OF open_new] by (simp only: refl if_True simp_thms)

end
