(* ===== verification/WritableFiles.thy ===== *)
theory WritableFiles
  imports FileSys
begin

text \<open>
  \<^verbatim>\<open>PosixWritableFile\<close> of \<^verbatim>\<open>base/env_posix.cc\<close>: an append-only file that keeps its own size,
  may have space allocated beyond it, and remembers whether it has to be synchronised.  Each
  method takes the object and the file and gives a status with both; the abstraction is the
  sequence of bytes appended so far, which the methods extend or leave alone (\<open>log_step\<close>).
  Sizes are natural numbers: the system refuses files of more than \<open>2\<^sup>6\<^sup>3 - 1\<close> bytes.
\<close>

section \<open>The class\<close>

definition IOV_MAX :: nat where "IOV_MAX = 1024"

record PosixWritableFile =
  wf_filename :: bytes
  wf_fd :: int
  sync_on_close :: bool
  filesize :: nat
  pre_allocated_size :: nat
  pending_sync :: bool

definition PosixWritableFile :: "bytes \<Rightarrow> int \<Rightarrow> nat \<Rightarrow> bool \<Rightarrow> PosixWritableFile" where
  "PosixWritableFile fname f file_size sync_close =
     \<lparr>wf_filename = fname, wf_fd = f, sync_on_close = sync_close, filesize = file_size,
      pre_allocated_size = 0, pending_sync = False\<rparr>"

type_synonym wf_run = "(outcome \<times> PosixWritableFile \<times> fnode) run"

definition short_write :: "nat \<Rightarrow> nat \<Rightarrow> outcome" where
  "short_write nbytes written =
     failure kIOError (str ''pwritev error: expected to write '' @ dec_nat nbytes @ str '' bytes, wrote ''
       @ dec_nat written @ str '' bytes instead (perhaps the disk is out of space)'') [] (-1)"

definition DoWritev ::
  "texts \<Rightarrow> io_flags \<Rightarrow> bytes list \<Rightarrow> nat \<Rightarrow> nat \<Rightarrow> PosixWritableFile \<Rightarrow> fnode \<Rightarrow> wf_run" where
  "DoWritev tx fl data_vector offset n f nd =
     (if \<not> n \<le> IOV_MAX then liftR (Inl CheckFailed)
      else
        let iov = concat (take n (drop offset data_vector)); nbytes = length iov in
        bindR (askR RETRY_ON_EINTR) (\<lambda>r. case r of
            Err e \<Rightarrow> bindR (liftR (IOError tx fl (wf_filename f) e)) (\<lambda>s. returnR (s, f, nd))
          | Done k \<Rightarrow>
              let written = min k nbytes;
                  nd = nd\<lparr>content := write_at (filesize f) (take written iov) (content nd)\<rparr>;
                  f = f\<lparr>filesize := filesize f + written\<rparr>
              in returnR (if written \<noteq> nbytes then short_write nbytes written else Success, f, nd)))"

function append_loop ::
  "texts \<Rightarrow> io_flags \<Rightarrow> bytes list \<Rightarrow> nat \<Rightarrow> outcome \<Rightarrow> PosixWritableFile \<Rightarrow> fnode \<Rightarrow> wf_run" where
  "append_loop tx fl data_vector i s f nd =
     (if i < length data_vector \<and> s = Success then
        bindR (DoWritev tx fl data_vector i (min (length data_vector - i) IOV_MAX) f nd)
          (\<lambda>(s, f, nd). append_loop tx fl data_vector (i + IOV_MAX) s f nd)
      else returnR (s, f, nd))"
  by pat_completeness auto
termination
  by (relation "measure (\<lambda>(tx, fl, dv, i, s, f, nd). length dv - i)") (auto simp: IOV_MAX_def)

declare append_loop.simps [simp del]

definition AppendVector :: "texts \<Rightarrow> io_flags \<Rightarrow> bytes list \<Rightarrow> PosixWritableFile \<Rightarrow> fnode \<Rightarrow> wf_run" where
  "AppendVector tx fl data_vector f nd =
     bindR (append_loop tx fl data_vector 0 Success f nd)
       (\<lambda>(s, f, nd). returnR (s, f\<lparr>pending_sync := True\<rparr>, nd))"

definition Append :: "texts \<Rightarrow> io_flags \<Rightarrow> bytes \<Rightarrow> PosixWritableFile \<Rightarrow> fnode \<Rightarrow> wf_run" where
  "Append tx fl bs f nd = AppendVector tx fl [bs] f nd"

definition PreAllocate :: "texts \<Rightarrow> io_flags \<Rightarrow> nat \<Rightarrow> PosixWritableFile \<Rightarrow> fnode \<Rightarrow> wf_run" where
  "PreAllocate tx fl bytes_wanted f nd =
     (let offset = max (filesize f) (pre_allocated_size f) in
      bindR (askR call_once) (\<lambda>r. case r of
          Err e \<Rightarrow>
            if e = EOPNOTSUPP \<or> e = ENOSYS then returnR (Success, f\<lparr>pre_allocated_size := offset + bytes_wanted\<rparr>, nd)
            else bindR (liftR (IOError tx fl (wf_filename f) e)) (\<lambda>s. returnR (s, f, nd))
        | Done _ \<Rightarrow>
            returnR (Success, f\<lparr>pre_allocated_size := offset + bytes_wanted\<rparr>,
              nd\<lparr>content := resize (max (length (content nd)) (offset + bytes_wanted)) (content nd)\<rparr>)))"

definition wf_Sync :: "texts \<Rightarrow> io_flags \<Rightarrow> PosixWritableFile \<Rightarrow> fnode \<Rightarrow> wf_run" where
  "wf_Sync tx fl f nd =
     (if pending_sync f then
        bindR (DoSync tx fl (wf_filename f) nd) (\<lambda>(s, nd). returnR (s, f\<lparr>pending_sync := False\<rparr>, nd))
      else returnR (Success, f, nd))"

text \<open>The first part of \<^verbatim>\<open>Close\<close>, which gives back the space beyond the end.\<close>

definition close_truncate :: "texts \<Rightarrow> io_flags \<Rightarrow> PosixWritableFile \<Rightarrow> fnode \<Rightarrow> wf_run" where
  "close_truncate tx fl f nd =
     (if filesize f < pre_allocated_size f then
        bindR (askR RETRY_ON_EINTR) (\<lambda>r. case r of
            Err e \<Rightarrow> bindR (liftR (IOError tx fl (wf_filename f) e)) (\<lambda>s. returnR (s, f\<lparr>pending_sync := True\<rparr>, nd))
          | Done _ \<Rightarrow> returnR (Success, f, nd\<lparr>content := resize (filesize f) (content nd)\<rparr>))
      else returnR (Success, f, nd))"

definition close_sync :: "texts \<Rightarrow> io_flags \<Rightarrow> outcome \<Rightarrow> PosixWritableFile \<Rightarrow> fnode \<Rightarrow> wf_run" where
  "close_sync tx fl s f nd =
     (if sync_on_close f then
        bindR (wf_Sync tx fl f nd) (\<lambda>(sync_status, f, nd).
          returnR (if sync_status \<noteq> Success \<and> s = Success then sync_status else s, f, nd))
      else returnR (s, f, nd))"

definition wf_Close :: "texts \<Rightarrow> io_flags \<Rightarrow> PosixWritableFile \<Rightarrow> fnode \<Rightarrow> wf_run" where
  "wf_Close tx fl f nd =
     bindR (close_truncate tx fl f nd) (\<lambda>(s, f, nd).
     bindR (close_sync tx fl s f nd) (\<lambda>(s, f, nd).
     bindR (askR call_once) (\<lambda>r.
     bindR (case r of
         Done _ \<Rightarrow> returnR s
       | Err e \<Rightarrow> if s = Success then liftR (IOError tx fl (wf_filename f) e) else returnR s) (\<lambda>s.
     returnR (s, f\<lparr>wf_fd := -1\<rparr>, nd)))))"

text \<open>The destructor closes a file that is still open.\<close>

definition wf_destroy :: "texts \<Rightarrow> io_flags \<Rightarrow> PosixWritableFile \<Rightarrow> fnode \<Rightarrow> fnode run" where
  "wf_destroy tx fl f nd =
     (if wf_fd f \<ge> 0 then bindR (wf_Close tx fl f nd) (\<lambda>(s, f, nd). returnR nd) else returnR nd)"

definition wf_Size :: "PosixWritableFile \<Rightarrow> nat" where
  "wf_Size f = filesize f"

text \<open>\<^verbatim>\<open>Flush\<close> starts the writing of dirty pages and changes nothing a reader or a crash can see for sure.\<close>

datatype FlushMode = FLUSH_SYNC | FLUSH_ASYNC

definition SYNC_FILE_RANGE_WAIT_BEFORE :: int where "SYNC_FILE_RANGE_WAIT_BEFORE = 1"
definition SYNC_FILE_RANGE_WRITE :: int where "SYNC_FILE_RANGE_WRITE = 2"
definition SYNC_FILE_RANGE_WAIT_AFTER :: int where "SYNC_FILE_RANGE_WAIT_AFTER = 4"

definition flush_flags :: "FlushMode \<Rightarrow> int" where
  "flush_flags mode =
     (let flags = SYNC_FILE_RANGE_WRITE in
      if mode = FLUSH_SYNC then or (or flags SYNC_FILE_RANGE_WAIT_BEFORE) SYNC_FILE_RANGE_WAIT_AFTER else flags)"

definition wf_Flush :: "texts \<Rightarrow> io_flags \<Rightarrow> FlushMode \<Rightarrow> PosixWritableFile \<Rightarrow> outcome run" where
  "wf_Flush tx fl mode f =
     bindR (askR call_once) (\<lambda>r. case r of
         Err e \<Rightarrow> liftR (IOError tx fl (wf_filename f) e) | Done _ \<Rightarrow> returnR Success)"

section \<open>The representation\<close>

text \<open>
  The object's size is not beyond the file's; what the file has beyond it is zero and was
  allocated.
\<close>

definition wf_ok :: "PosixWritableFile \<Rightarrow> fnode \<Rightarrow> bool" where
  "wf_ok f nd \<longleftrightarrow> filesize f \<le> length (content nd)
     \<and> length (content nd) \<le> max (filesize f) (pre_allocated_size f)
     \<and> drop (filesize f) (content nd) = replicate (length (content nd) - filesize f) 0"

definition appended :: "PosixWritableFile \<Rightarrow> fnode \<Rightarrow> bytes" where
  "appended f nd = take (filesize f) (content nd)"

lemma resize_simps [simp]: "length (resize n xs) = n" "resize (length xs) xs = xs"
  by (simp_all add: resize_def)

lemma resize_take: "n \<le> length xs \<Longrightarrow> resize n xs = take n xs"
  by (simp add: resize_def)

lemma resize_grow: "length xs \<le> n \<Longrightarrow> resize n xs = xs @ replicate (n - length xs) 0"
  by (simp add: resize_def)

lemma new_file_ok:
  "wf_ok (PosixWritableFile nm f (length (content nd)) sc) nd"
  "appended (PosixWritableFile nm f (length (content nd)) sc) nd = content nd"
  by (simp_all add: wf_ok_def appended_def PosixWritableFile_def)

text \<open>A write at the end extends the appended bytes.\<close>

lemma write_end:
  assumes "wf_ok f nd"
  shows "wf_ok (f\<lparr>filesize := filesize f + length ys\<rparr>) (nd\<lparr>content := write_at (filesize f) ys (content nd)\<rparr>)"
    and "appended (f\<lparr>filesize := filesize f + length ys\<rparr>) (nd\<lparr>content := write_at (filesize f) ys (content nd)\<rparr>)
      = appended f nd @ ys"
proof -
  let ?n = "filesize f" and ?c = "content nd"
  have n: "?n \<le> length ?c" and z: "drop ?n ?c = replicate (length ?c - ?n) 0"
    and m: "length ?c \<le> max ?n (pre_allocated_size f)" using assms by (simp_all add: wf_ok_def)
  have "drop (?n + length ys) ?c = drop (length ys) (drop ?n ?c)" by (simp add: add.commute)
  then have d: "drop (?n + length ys) ?c = replicate (length ?c - (?n + length ys)) 0" by (simp add: z)
  have w: "write_at ?n ys ?c = take ?n ?c @ ys @ drop (?n + length ys) ?c"
    using n by (simp add: write_at_def resize_take)
  have len: "length (write_at ?n ys ?c) = ?n + length ys + (length ?c - (?n + length ys))"
    using n by (simp add: w)
  show "appended (f\<lparr>filesize := ?n + length ys\<rparr>) (nd\<lparr>content := write_at ?n ys ?c\<rparr>) = appended f nd @ ys"
    using n by (simp add: appended_def w)
  show "wf_ok (f\<lparr>filesize := ?n + length ys\<rparr>) (nd\<lparr>content := write_at ?n ys ?c\<rparr>)"
    using n m len by (simp add: wf_ok_def) (simp add: w d)
qed

lemma DoWritev_appends:
  assumes "wf_ok f nd" "DoWritev tx fl dv i n f nd rs = Some (Inr ((s, f', nd'), rs'))"
  obtains k where "k \<le> length (concat (take n (drop i dv)))"
    "appended f' nd' = appended f nd @ take k (concat (take n (drop i dv)))"
    "s = Success \<longrightarrow> k = length (concat (take n (drop i dv)))" "wf_ok f' nd'"
    "durable nd' = durable nd" "wf_fd f' = wf_fd f" "sync_on_close f' = sync_on_close f"
proof -
  define iov where "iov = concat (take n (drop i dv))"
  have n: "n \<le> IOV_MAX" using assms(2) by (cases "n \<le> IOV_MAX") (simp_all add: DoWritev_def)
  obtain r rs1 where r: "RETRY_ON_EINTR rs = Some (r, rs1)"
    using assms(2) n by (cases "RETRY_ON_EINTR rs") (auto simp: DoWritev_def Let_def bindR_def askR_def)
  note that = that [folded iov_def]
  show thesis
  proof (cases r)
    case (Done j)
    define k where "k = min j (length iov)"
    have k: "k \<le> length iov" "length (take k iov) = k" by (simp_all add: k_def)
    have res: "s = (if k \<noteq> length iov then short_write (length iov) k else Success)"
      "f' = f\<lparr>filesize := filesize f + k\<rparr>"
      "nd' = nd\<lparr>content := write_at (filesize f) (take k iov) (content nd)\<rparr>"
      using assms(2) n by (simp_all add: DoWritev_def Let_def bindR_def askR_def r Done iov_def k_def)
    have "s = Success \<longrightarrow> k = length iov" by (simp add: res(1) short_write_def)
    moreover have "durable nd' = durable nd" "wf_fd f' = wf_fd f" "sync_on_close f' = sync_on_close f"
      by (simp_all add: res)
    ultimately show thesis
      using that [OF k(1)] write_end [OF assms(1), of "take k iov", unfolded k(2)] unfolding res(2,3) by blast
  next
    case (Err e)
    then have "s \<noteq> Success" "f' = f" "nd' = nd"
      using assms(2) n by (auto simp: DoWritev_def Let_def bindR_def askR_def r liftR_def split: sum.splits)
    then show thesis using that [of 0] assms(1) by simp
  qed
qed

section \<open>The methods on the log\<close>

text \<open>
  The specification: a method adds a prefix of the given bytes to the log, all of them when it
  succeeds.
\<close>

definition log_step :: "bytes \<Rightarrow> outcome \<Rightarrow> bytes \<Rightarrow> bytes \<Rightarrow> bool" where
  "log_step bs s log log' \<longleftrightarrow> (\<exists>k \<le> length bs. log' = log @ take k bs \<and> (s = Success \<longrightarrow> k = length bs))"

lemma log_step_trans:
  assumes "log_step bs Success l l1" "log_step cs s l1 l2"
  shows "log_step (bs @ cs) s l l2"
proof -
  from assms(2) obtain k where "k \<le> length cs" "l2 = l1 @ take k cs" "s = Success \<longrightarrow> k = length cs"
    by (auto simp: log_step_def)
  then show ?thesis
    using assms(1) by (auto simp: log_step_def intro!: exI [of _ "length bs + k"])
qed

lemma log_step_more:
  assumes "log_step bs s l l'" "s \<noteq> Success"
  shows "log_step (bs @ cs) s l l'"
proof -
  from assms(1) obtain k where "k \<le> length bs" "l' = l @ take k bs" by (auto simp: log_step_def)
  then show ?thesis using assms(2) by (auto simp: log_step_def intro!: exI [of _ k])
qed

text \<open>
  What a method that writes keeps: the file stays well formed, the descriptor and the durable
  contents stay as they are.
\<close>

definition adds :: "bytes \<Rightarrow> PosixWritableFile \<Rightarrow> fnode \<Rightarrow> outcome \<Rightarrow> PosixWritableFile \<Rightarrow> fnode \<Rightarrow> bool" where
  "adds bs f nd s f' nd' \<longleftrightarrow> wf_ok f' nd' \<and> durable nd' = durable nd
     \<and> wf_fd f' = wf_fd f \<and> sync_on_close f' = sync_on_close f \<and> log_step bs s (appended f nd) (appended f' nd')"

lemma adds_trans: "adds bs f nd Success f1 nd1 \<Longrightarrow> adds cs f1 nd1 s f2 nd2 \<Longrightarrow> adds (bs @ cs) f nd s f2 nd2"
  by (auto simp: adds_def intro: log_step_trans)

lemma adds_more: "adds bs f nd s f' nd' \<Longrightarrow> s \<noteq> Success \<Longrightarrow> adds (bs @ cs) f nd s f' nd'"
  by (simp add: adds_def log_step_more)

lemma log_step_refl [simp]: "log_step [] s l l' \<longleftrightarrow> l' = l"
  by (auto simp: log_step_def)

lemma append_loop_adds:
  assumes "wf_ok f nd" "append_loop tx fl dv i Success f nd rs = Some (Inr ((s, f', nd'), rs'))"
  shows "adds (concat (drop i dv)) f nd s f' nd'"
  using assms
proof (induction "length dv - i" arbitrary: i f nd rs rule: less_induct)
  case less
  show ?case
  proof (cases "i < length dv")
    case False
    then show ?thesis
      using less.prems by (simp add: append_loop.simps [of tx fl dv i] adds_def)
  next
    case True
    let ?n = "min (length dv - i) IOV_MAX"
    obtain s1 f1 nd1 rs1 where wr: "DoWritev tx fl dv i ?n f nd rs = Some (Inr ((s1, f1, nd1), rs1))"
      and rest: "append_loop tx fl dv (i + IOV_MAX) s1 f1 nd1 rs1 = Some (Inr ((s, f', nd'), rs'))"
      using less.prems(2) True by (auto simp: append_loop.simps [of tx fl dv i] run_bindR)
    have one: "adds (concat (take ?n (drop i dv))) f nd s1 f1 nd1"
      using DoWritev_appends [OF less.prems(1) wr] unfolding adds_def log_step_def by metis
    have "take ?n (drop i dv) = take IOV_MAX (drop i dv)"
      by (simp add: min_def) 
    then have split: "concat (drop i dv) = concat (take ?n (drop i dv)) @ concat (drop (i + IOV_MAX) dv)"
      by (metis append_take_drop_id concat_append drop_drop add.commute)
    show ?thesis
    proof (cases "s1 = Success")
      case True
      have "adds (concat (drop (i + IOV_MAX) dv)) f1 nd1 s f' nd'"
        using less.hyps [of "i + IOV_MAX" f1 nd1 rs1] rest True one \<open>i < length dv\<close>
        by (simp add: adds_def IOV_MAX_def)
      then show ?thesis unfolding split using adds_trans one True by blast
    next
      case False
      then have "s = s1" "f' = f1" "nd' = nd1"
        using rest by (simp_all add: append_loop.simps [of tx fl dv "i + IOV_MAX"])
      then show ?thesis unfolding split using one False adds_more by blast
    qed
  qed
qed

lemma AppendVector_adds:
  assumes "wf_ok f nd" "AppendVector tx fl dv f nd rs = Some (Inr ((s, f', nd'), rs'))"
  shows "adds (concat dv) f nd s f' nd' \<and> pending_sync f'"
proof -
  obtain f1 where run: "append_loop tx fl dv 0 Success f nd rs = Some (Inr ((s, f1, nd'), rs'))"
    and f1: "f' = f1\<lparr>pending_sync := True\<rparr>"
    using assms(2) by (auto simp: AppendVector_def run_bindR)
  show ?thesis
    using append_loop_adds [OF assms(1) run] by (auto simp: f1 adds_def wf_ok_def appended_def)
qed

lemma grow_ok:
  assumes "wf_ok f nd" "max (filesize f) (pre_allocated_size f) \<le> n"
  shows "wf_ok (f\<lparr>pre_allocated_size := n\<rparr>) (nd\<lparr>content := resize (max (length (content nd)) n) (content nd)\<rparr>)"
    "appended (f\<lparr>pre_allocated_size := n\<rparr>) (nd\<lparr>content := resize (max (length (content nd)) n) (content nd)\<rparr>)
      = appended f nd"
proof -
  let ?c = "content nd"
  have n: "filesize f \<le> length ?c" and z: "drop (filesize f) ?c = replicate (length ?c - filesize f) 0"
    and m: "length ?c \<le> n" using assms by (auto simp: wf_ok_def)
  have r: "max (length ?c) n = n" "resize n ?c = ?c @ replicate (n - length ?c) 0"
    using m by (simp_all add: resize_grow max_absorb2)
  show "wf_ok (f\<lparr>pre_allocated_size := n\<rparr>) (nd\<lparr>content := resize (max (length ?c) n) ?c\<rparr>)"
    using n m z by (simp add: wf_ok_def r replicate_add [symmetric])
  show "appended (f\<lparr>pre_allocated_size := n\<rparr>) (nd\<lparr>content := resize (max (length ?c) n) ?c\<rparr>) = appended f nd"
    using n by (simp add: appended_def r)
qed

lemma PreAllocate_adds:
  assumes ok: "wf_ok f nd" and run: "PreAllocate tx fl n f nd rs = Some (Inr ((s, f', nd'), rs'))"
  shows "adds [] f nd s f' nd' \<and> pending_sync f' = pending_sync f \<and> filesize f' = filesize f
    \<and> pre_allocated_size f \<le> pre_allocated_size f'"
proof -
  define m where "m = max (filesize f) (pre_allocated_size f) + n"
  have m: "max (filesize f) (pre_allocated_size f) \<le> m" by (simp add: m_def)
  have keep: "wf_ok (f\<lparr>pre_allocated_size := m\<rparr>) nd"
    using ok m by (auto simp: wf_ok_def)
  obtain r rs1 where r: "call_once rs = Some (r, rs1)"
    using run by (cases "call_once rs") (auto simp: PreAllocate_def Let_def bindR_def askR_def)
  show ?thesis
  proof (cases r)
    case (Done j)
    then have "f' = f\<lparr>pre_allocated_size := m\<rparr>"
      "nd' = nd\<lparr>content := resize (max (length (content nd)) m) (content nd)\<rparr>"
      using run by (simp_all add: PreAllocate_def Let_def bindR_def askR_def r m_def)
    then show ?thesis using grow_ok [OF ok m] m by (simp add: adds_def)
  next
    case (Err e)
    then have "nd' = nd \<and> (f' = f \<or> f' = f\<lparr>pre_allocated_size := m\<rparr>)"
      using run by (auto simp: PreAllocate_def Let_def run_bindR r m_def liftR_def split: sum.splits if_split_asm)
    then show ?thesis using ok keep m by (auto simp: adds_def appended_def)
  qed
qed

lemma wf_Sync_result:
  assumes "wf_Sync tx fl f nd rs = Some (Inr ((s, f', nd'), rs'))"
  shows "content nd' = content nd \<and> f' = f\<lparr>pending_sync := False\<rparr>
    \<and> (s = Success \<longrightarrow> (if pending_sync f \<and> \<not> never_fsync fl then nd' = fsync nd else nd' = nd))
    \<and> (s \<noteq> Success \<longrightarrow> nd' = nd)"
proof (cases "pending_sync f")
  case True
  obtain rs1 where "DoSync tx fl (wf_filename f) nd rs = Some (Inr ((s, nd'), rs1))"
    and f': "f' = f\<lparr>pending_sync := False\<rparr>"
    using assms True by (auto simp: wf_Sync_def run_bindR)
  from DoSync_result [OF this(1)] this(1) show ?thesis
    by (auto simp: f' True fsync_def DoSync_def run_bindR)
next
  case False
  then show ?thesis using assms by (auto simp: wf_Sync_def)
qed

lemma DoWritev_keeps:
  "DoWritev tx fl dv i n f nd rs = Some (Inr ((s, f', nd'), rs')) \<Longrightarrow> pre_allocated_size f' = pre_allocated_size f"
  by (auto simp: DoWritev_def run_bindR Let_def split: if_splits)

lemma append_loop_keeps:
  "append_loop tx fl dv i s f nd rs = Some (Inr ((s', f', nd'), rs')) \<Longrightarrow> pre_allocated_size f' = pre_allocated_size f"
proof (induction "length dv - i" arbitrary: i s f nd rs rule: less_induct)
  case less
  show ?case
  proof (cases "i < length dv \<and> s = Success")
    case True
    then show ?thesis
      using less.prems less.hyps [of "i + IOV_MAX"] DoWritev_keeps
      by (auto simp: append_loop.simps [of tx fl dv i] run_bindR IOV_MAX_def)
  next
    case False
    then have "append_loop tx fl dv i s f nd = returnR (s, f, nd)"
      by (simp only: append_loop.simps [of tx fl dv i] if_False)
    then show ?thesis using less.prems by simp
  qed
qed

lemma AppendVector_keeps:
  "AppendVector tx fl dv f nd rs = Some (Inr ((s, f', nd'), rs')) \<Longrightarrow> pre_allocated_size f' = pre_allocated_size f"
  using append_loop_keeps by (auto simp: AppendVector_def run_bindR)

section \<open>The end of a file's life\<close>

lemma wf_Close_result:
  assumes "wf_Close tx fl f nd rs = Some (Inr ((s, f', nd'), rs'))"
  obtains s1 f1 nd1 rs1 s2 f2 rs2 where "close_truncate tx fl f nd rs = Some (Inr ((s1, f1, nd1), rs1))"
    "close_sync tx fl s1 f1 nd1 rs1 = Some (Inr ((s2, f2, nd'), rs2))" "f' = f2\<lparr>wf_fd := -1\<rparr>"
    "s = Success \<longrightarrow> s2 = Success"
proof -
  obtain s1 f1 nd1 rs1 s2 f2 nd2 rs2 r rs3 s3 rs4 where
    1: "close_truncate tx fl f nd rs = Some (Inr ((s1, f1, nd1), rs1))"
    and 2: "close_sync tx fl s1 f1 nd1 rs1 = Some (Inr ((s2, f2, nd2), rs2))"
    and 3: "call_once rs2 = Some (r, rs3)"
    and 4: "(case r of Done _ \<Rightarrow> returnR s2
       | Err e \<Rightarrow> if s2 = Success then liftR (IOError tx fl (wf_filename f2) e) else returnR s2) rs3 = Some (Inr (s3, rs4))"
    and 5: "s = s3" "f' = f2\<lparr>wf_fd := -1\<rparr>" "nd' = nd2"
    using assms unfolding wf_Close_def run_bindR run_askR run_returnR by (auto split: prod.splits simp: run_bindR simp del: ex_reply)
  have "s = Success \<longrightarrow> s2 = Success"
    using 4 5(1) by (cases r) (auto split: if_splits)
  then show thesis using that 1 2 5 by blast
qed

lemma close_truncate_keeps:
  assumes "wf_ok f nd" "close_truncate tx fl f nd rs = Some (Inr ((s, f', nd'), rs'))"
  shows "wf_ok f' nd' \<and> appended f' nd' = appended f nd \<and> durable nd' = durable nd
    \<and> (if s = Success then f' = f \<and> content nd' = appended f nd else f' = f\<lparr>pending_sync := True\<rparr>)"
  using assms by (auto simp: close_truncate_def run_bindR wf_ok_def appended_def resize_take split: if_splits)

lemma close_sync_keeps:
  assumes "close_sync tx fl s1 f nd rs = Some (Inr ((s, f', nd'), rs'))"
  shows "content nd' = content nd \<and> (nd' = nd \<or> nd' = fsync nd) \<and> (f' = f \<or> f' = f\<lparr>pending_sync := False\<rparr>)
    \<and> (s = Success \<longrightarrow> s1 = Success \<and>
         (if sync_on_close f then f' = f\<lparr>pending_sync := False\<rparr> \<and> (pending_sync f \<and> \<not> never_fsync fl \<longrightarrow> nd' = fsync nd)
          else f' = f \<and> nd' = nd))"
proof (cases "sync_on_close f")
  case True
  then obtain ss where run: "wf_Sync tx fl f nd rs = Some (Inr ((ss, f', nd'), rs'))"
    and s: "s = (if ss \<noteq> Success \<and> s1 = Success then ss else s1)"
    using assms by (auto simp: close_sync_def run_bindR)
  from wf_Sync_result [OF run] s show ?thesis by (cases "ss = Success") (auto simp: True split: if_splits)
next
  case False
  then show ?thesis using assms by (simp add: close_sync_def)
qed

text \<open>
  Whatever the system answers, \<^verbatim>\<open>Close\<close> leaves the appended bytes; when it succeeds, they are all
  the file holds.
\<close>

lemma wf_Close_keeps:
  assumes "wf_ok f nd" "wf_Close tx fl f nd rs = Some (Inr ((s, f', nd'), rs'))"
  shows "wf_ok f' nd' \<and> appended f' nd' = appended f nd \<and> (durable nd' = durable nd \<or> durable nd' = content nd')
    \<and> filesize f' = filesize f \<and> pre_allocated_size f' = pre_allocated_size f \<and> sync_on_close f' = sync_on_close f
    \<and> wf_fd f' = -1 \<and> (s = Success \<longrightarrow> content nd' = appended f nd
       \<and> (if sync_on_close f then pending_sync f \<and> \<not> never_fsync fl \<longrightarrow> durable nd' = content nd'
          else pending_sync f' = pending_sync f \<and> durable nd' = durable nd))"
proof -
  obtain s1 f1 nd1 rs1 s2 f2 rs2 where tr: "close_truncate tx fl f nd rs = Some (Inr ((s1, f1, nd1), rs1))"
    and sy: "close_sync tx fl s1 f1 nd1 rs1 = Some (Inr ((s2, f2, nd'), rs2))" and f': "f' = f2\<lparr>wf_fd := -1\<rparr>"
    and s: "s = Success \<longrightarrow> s2 = Success"
    by (rule wf_Close_result [OF assms(2)])
  note t = close_truncate_keeps [OF assms(1) tr] and c = close_sync_keeps [OF sy]
  have "filesize f1 = filesize f" "pre_allocated_size f1 = pre_allocated_size f" "sync_on_close f1 = sync_on_close f"
    using t by (auto split: if_splits)
  moreover have "filesize f2 = filesize f1" "pre_allocated_size f2 = pre_allocated_size f1"
      "sync_on_close f2 = sync_on_close f1"
    using c by auto
  moreover have "durable nd' = durable nd1 \<or> durable nd' = content nd'"
    using c by (auto simp: fsync_def)
  ultimately show ?thesis
    using t c s by (auto simp: f' wf_ok_def appended_def fsync_def split: if_splits)
qed

lemma wf_destroy_keeps:
  assumes "wf_ok f nd" "wf_destroy tx fl f nd rs = Some (Inr (nd', rs'))"
  shows "take (filesize f) (content nd') = appended f nd"
proof (cases "wf_fd f \<ge> 0")
  case True
  then obtain s f' where "wf_Close tx fl f nd rs = Some (Inr ((s, f', nd'), rs'))"
    using assms(2) by (auto simp: wf_destroy_def run_bindR)
  from wf_Close_keeps [OF assms(1) this] have "appended f' nd' = appended f nd" "filesize f' = filesize f" by simp_all
  then show ?thesis by (simp add: appended_def)
next
  case False
  then show ?thesis using assms(2) by (simp add: wf_destroy_def appended_def)
qed

section \<open>Runs of a writer\<close>

datatype wf_op = AppendOp "bytes list" | PreAllocateOp nat | SyncOp | FlushOp FlushMode | CloseOp

fun wf_exec :: "texts \<Rightarrow> io_flags \<Rightarrow> wf_op \<Rightarrow> PosixWritableFile \<Rightarrow> fnode \<Rightarrow> wf_run" where
  "wf_exec tx fl (AppendOp dv) f nd = AppendVector tx fl dv f nd"
| "wf_exec tx fl (PreAllocateOp n) f nd = PreAllocate tx fl n f nd"
| "wf_exec tx fl SyncOp f nd = wf_Sync tx fl f nd"
| "wf_exec tx fl (FlushOp mode) f nd = bindR (wf_Flush tx fl mode f) (\<lambda>s. returnR (s, f, nd))"
| "wf_exec tx fl CloseOp f nd = wf_Close tx fl f nd"

fun op_data :: "wf_op \<Rightarrow> bytes" where
  "op_data (AppendOp dv) = concat dv"
| "op_data _ = []"

text \<open>A run stops at the first method that fails.\<close>

fun run_wf :: "texts \<Rightarrow> io_flags \<Rightarrow> wf_op list \<Rightarrow> PosixWritableFile \<Rightarrow> fnode \<Rightarrow> wf_run" where
  "run_wf tx fl [] f nd = returnR (Success, f, nd)"
| "run_wf tx fl (op # ops) f nd = bindR (wf_exec tx fl op f nd) (\<lambda>(s, f, nd).
     if s = Success then run_wf tx fl ops f nd else returnR (s, f, nd))"

text \<open>What has been appended since the last synchronisation may not be durable, the rest is.\<close>

definition synced :: "PosixWritableFile \<Rightarrow> fnode \<Rightarrow> bool" where
  "synced f nd \<longleftrightarrow> take (filesize f) (durable nd) = appended f nd"

definition wf_inv :: "io_flags \<Rightarrow> PosixWritableFile \<Rightarrow> fnode \<Rightarrow> bool" where
  "wf_inv fl f nd \<longleftrightarrow> wf_ok f nd \<and> (never_fsync fl \<or> pending_sync f \<or> synced f nd)"

text \<open>What the durable file has beyond the size is allocated space.\<close>

definition durable_ok :: "PosixWritableFile \<Rightarrow> fnode \<Rightarrow> bool" where
  "durable_ok f nd \<longleftrightarrow> set (drop (filesize f) (durable nd)) \<subseteq> {0}
     \<and> length (durable nd) \<le> max (filesize f) (pre_allocated_size f)"

lemma durable_ok_grows:
  assumes "durable_ok f nd" "durable nd' = durable nd" "filesize f \<le> filesize f'" "pre_allocated_size f \<le> pre_allocated_size f'"
  shows "durable_ok f' nd'"
proof -
  have "set (drop (filesize f') (durable nd)) \<subseteq> set (drop (filesize f) (durable nd))"
    using assms(3) by (rule set_drop_subset_set_drop)
  then show ?thesis using assms by (auto simp: durable_ok_def)
qed

lemma durable_ok_synced: "wf_ok f nd \<Longrightarrow> durable nd = content nd \<Longrightarrow> durable_ok f nd"
  by (auto simp: wf_ok_def durable_ok_def)

lemma wf_Flush_keeps:
  "wf_exec tx fl (FlushOp mode) f nd rs = Some (Inr ((s, f', nd'), rs')) \<Longrightarrow> f' = f \<and> nd' = nd"
  by (auto simp: run_bindR)

lemma wf_exec_keeps:
  assumes ok: "wf_ok f nd" and run: "wf_exec tx fl op f nd rs = Some (Inr ((s, f', nd'), rs'))"
  shows "wf_ok f' nd' \<and> log_step (op_data op) s (appended f nd) (appended f' nd') \<and> sync_on_close f' = sync_on_close f"
proof (cases op)
  case (AppendOp dv)
  then show ?thesis using AppendVector_adds [OF ok, of tx fl dv] run by (simp add: adds_def)
next
  case (PreAllocateOp n)
  then show ?thesis using PreAllocate_adds [OF ok, of tx fl n] run by (simp add: adds_def)
next
  case SyncOp
  then have "content nd' = content nd \<and> f' = f\<lparr>pending_sync := False\<rparr>"
    using wf_Sync_result [of tx fl f nd rs s f' nd' rs'] run by simp
  then show ?thesis using SyncOp ok by (simp add: wf_ok_def appended_def)
next
  case (FlushOp mode)
  then show ?thesis using wf_Flush_keeps [OF run [unfolded FlushOp]] ok by simp
next
  case CloseOp
  then show ?thesis using wf_Close_keeps [OF ok] run by simp
qed

lemma filesize_appended: "wf_ok f nd \<Longrightarrow> filesize f = length (appended f nd)"
  by (simp add: wf_ok_def appended_def)

lemma wf_exec_durable:
  assumes ok: "wf_ok f nd" and d: "durable_ok f nd" and run: "wf_exec tx fl op f nd rs = Some (Inr ((s, f', nd'), rs'))"
  shows "durable_ok f' nd' \<and> ((\<forall>n. op \<noteq> PreAllocateOp n) \<longrightarrow> pre_allocated_size f' = pre_allocated_size f)"
proof -
  have ok': "wf_ok f' nd'" and log: "log_step (op_data op) s (appended f nd) (appended f' nd')"
    using wf_exec_keeps [OF ok run] by simp_all
  have size: "filesize f \<le> filesize f'"
    using log by (auto simp: log_step_def filesize_appended [OF ok] filesize_appended [OF ok'])
  show ?thesis
  proof (cases op)
    case (AppendOp dv)
    then have "durable nd' = durable nd" "pre_allocated_size f' = pre_allocated_size f"
      using AppendVector_adds [OF ok, of tx fl dv] AppendVector_keeps [of tx fl dv] run by (auto simp: adds_def)
    then show ?thesis using durable_ok_grows [OF d] size by simp
  next
    case (PreAllocateOp n)
    then have "durable nd' = durable nd" "pre_allocated_size f \<le> pre_allocated_size f'"
      using PreAllocate_adds [OF ok, of tx fl n] run by (auto simp: adds_def)
    then show ?thesis using durable_ok_grows [OF d] size PreAllocateOp by simp
  next
    case SyncOp
    then have "f' = f\<lparr>pending_sync := False\<rparr>" "durable nd' = durable nd \<or> durable nd' = content nd'"
      using wf_Sync_result [of tx fl f nd rs s f' nd' rs'] run by (auto simp: fsync_def split: if_splits)
    then show ?thesis using durable_ok_grows [OF d, of nd' f'] durable_ok_synced [OF ok'] by auto
  next
    case (FlushOp mode)
    then show ?thesis using wf_Flush_keeps [OF run [unfolded FlushOp]] d by simp
  next
    case CloseOp
    then show ?thesis
      using wf_Close_keeps [OF ok, of tx fl rs s f' nd' rs'] run durable_ok_grows [OF d, of nd' f'] durable_ok_synced [OF ok']
      by auto
  qed
qed

lemma wf_exec_inv:
  assumes inv: "wf_inv fl f nd" and run: "wf_exec tx fl op f nd rs = Some (Inr ((Success, f', nd'), rs'))"
  shows "wf_inv fl f' nd'"
proof -
  have ok: "wf_ok f nd" using inv by (simp add: wf_inv_def)
  have ok': "wf_ok f' nd'" using wf_exec_keeps [OF ok run] by simp
  show ?thesis
  proof (cases op)
    case (AppendOp dv)
    then show ?thesis using AppendVector_adds [OF ok, of tx fl dv] run ok' by (simp add: wf_inv_def)
  next
    case (PreAllocateOp n)
    then show ?thesis
      using PreAllocate_adds [OF ok, of tx fl n rs Success f' nd' rs'] run inv by (auto simp: wf_inv_def adds_def synced_def)
  next
    case SyncOp
    then show ?thesis
      using wf_Sync_result [of tx fl f nd rs Success f' nd' rs'] run inv ok'
      by (auto simp: wf_inv_def synced_def appended_def fsync_def split: if_splits)
  next
    case (FlushOp mode)
    then show ?thesis using wf_Flush_keeps [OF run [unfolded FlushOp]] inv by simp
  next
    case CloseOp
    then have c: "wf_Close tx fl f nd rs = Some (Inr ((Success, f', nd'), rs'))" using run by simp
    note k = wf_Close_keeps [OF ok c]
    have "synced f' nd'" if "durable nd' = content nd'"
      using that by (simp add: synced_def appended_def)
    moreover have "synced f' nd'" if "durable nd' = durable nd" "synced f nd"
      using that k by (simp add: synced_def)
    ultimately show ?thesis
      using k ok' inv by (auto simp: wf_inv_def split: if_splits)
  qed
qed

lemma run_wf_inv:
  assumes "wf_inv fl f nd" "run_wf tx fl ops f nd rs = Some (Inr ((Success, f', nd'), rs'))"
  shows "wf_inv fl f' nd' \<and> appended f' nd' = appended f nd @ concat (map op_data ops)
    \<and> sync_on_close f' = sync_on_close f \<and> (durable_ok f nd \<longrightarrow> durable_ok f' nd'
      \<and> ((\<forall>n. PreAllocateOp n \<notin> set ops) \<longrightarrow> pre_allocated_size f' = pre_allocated_size f))"
  using assms
proof (induction ops arbitrary: f nd rs)
  case (Cons op ops)
  obtain s1 f1 nd1 rs1 where one: "wf_exec tx fl op f nd rs = Some (Inr ((s1, f1, nd1), rs1))"
    and rest: "(if s1 = Success then run_wf tx fl ops f1 nd1 else returnR (s1, f1, nd1)) rs1
      = Some (Inr ((Success, f', nd'), rs'))"
    using Cons.prems(2) by (auto simp: run_bindR)
  then have s1: "s1 = Success" by (auto split: if_splits)
  have ok: "wf_ok f nd" using Cons.prems(1) by (simp add: wf_inv_def)
  have "appended f1 nd1 = appended f nd @ op_data op" "sync_on_close f1 = sync_on_close f"
    using wf_exec_keeps [OF ok one] s1 by (auto simp: log_step_def)
  with Cons.IH [OF wf_exec_inv [OF Cons.prems(1) one [unfolded s1]]] rest s1 wf_exec_durable [OF ok _ one]
  show ?case by auto
qed auto

section \<open>The properties\<close>

text \<open>
  C20: every method of a writable file (appending, allocating, synchronising, flushing and
  closing) is a step of the log: it adds a prefix of its data to the bytes appended so far, all
  of it when it reports success; the size it keeps is the length of the log, and a successful
  \<^verbatim>\<open>Close\<close> leaves nothing but the log in the file.  The destructor leaves the log as it is.
\<close>

theorem writable_file_refines:
  assumes "wf_ok f nd"
  shows "(\<forall>s f' nd' rs'. wf_exec tx fl op f nd rs = Some (Inr ((s, f', nd'), rs')) \<longrightarrow>
      wf_ok f' nd' \<and> log_step (op_data op) s (appended f nd) (appended f' nd')
      \<and> wf_Size f' = length (appended f' nd')
      \<and> (op = CloseOp \<and> s = Success \<longrightarrow> content nd' = appended f nd))
    \<and> (\<forall>nd' rs'. wf_destroy tx fl f nd rs = Some (Inr (nd', rs')) \<longrightarrow>
      take (wf_Size f) (content nd') = appended f nd)"
proof (intro conjI allI impI)
  fix s f' nd' rs'
  assume run: "wf_exec tx fl op f nd rs = Some (Inr ((s, f', nd'), rs'))"
  from wf_exec_keeps [OF assms run]
  show ok: "wf_ok f' nd'" and "log_step (op_data op) s (appended f nd) (appended f' nd')" by simp_all
  show "wf_Size f' = length (appended f' nd')" using filesize_appended [OF ok] by (simp add: wf_Size_def)
  show "content nd' = appended f nd" if "op = CloseOp \<and> s = Success"
    using wf_Close_keeps [OF assms] run that by simp
next
  show "take (wf_Size f) (content nd') = appended f nd" if "wf_destroy tx fl f nd rs = Some (Inr (nd', rs'))" for nd' rs'
    using wf_destroy_keeps [OF assms that] by (simp add: wf_Size_def)
qed

text \<open>
  C21: a new file that is written without an error and closed without an error holds exactly the
  data appended, whatever was allocated on the way.  If it is to be synchronised on closing, the
  durable file starts with all of it; of a file that had no durable contents before, the rest
  of the durable file is allocated zeros, and there is no rest when nothing was allocated.
\<close>

theorem closed_file_contents:
  assumes "run_wf tx fl ops (PosixWritableFile nm n 0 sc) nd0 rs = Some (Inr ((Success, f, nd), rs1))"
    and "content nd0 = []" "wf_Close tx fl f nd rs1 = Some (Inr ((Success, f', nd'), rs2))"
  shows "content nd' = concat (map op_data ops) \<and> wf_fd f' = -1
    \<and> (sc \<and> \<not> never_fsync fl \<longrightarrow> take (length (content nd')) (durable nd') = content nd'
         \<and> (durable nd0 = [] \<longrightarrow> set (drop (length (content nd')) (durable nd')) \<subseteq> {0}
              \<and> ((\<forall>k. PreAllocateOp k \<notin> set ops) \<longrightarrow> durable nd' = content nd')))"
proof -
  define f0 where "f0 = PosixWritableFile nm n 0 sc"
  have new: "wf_inv fl f0 nd0" "appended f0 nd0 = []" "sync_on_close f0 = sc" "pre_allocated_size f0 = 0"
      "durable nd0 = [] \<longrightarrow> durable_ok f0 nd0"
    using assms(2) by (simp_all add: f0_def wf_inv_def wf_ok_def synced_def appended_def PosixWritableFile_def durable_ok_def)
  note r = run_wf_inv [OF new(1) assms(1) [folded f0_def]]
  have inv: "wf_inv fl f nd" and app: "appended f nd = concat (map op_data ops)" and sc: "sync_on_close f = sc"
    using r new(2,3) by simp_all
  have ok: "wf_ok f nd" using inv by (simp add: wf_inv_def)
  note k = wf_Close_keeps [OF ok assms(3)]
  have c: "content nd' = concat (map op_data ops)" using k app by simp
  have len: "length (content nd') = filesize f" "filesize f' = filesize f" "pre_allocated_size f' = pre_allocated_size f"
    using k filesize_appended [OF ok] by simp_all
  have "wf_exec tx fl CloseOp f nd rs1 = Some (Inr ((Success, f', nd'), rs2))" using assms(3) by simp
  note d = wf_exec_durable [OF ok _ this]
  have dur: "take (filesize f) (durable nd') = content nd'" if "sc" "\<not> never_fsync fl"
  proof (cases "pending_sync f")
    case True
    then show ?thesis using k that sc len by simp
  next
    case False
    then have "take (filesize f) (durable nd) = appended f nd" using inv that by (simp add: wf_inv_def synced_def)
    then show ?thesis using k len by auto
  qed
  have zeros: "set (drop (filesize f) (durable nd')) \<subseteq> {0}" "length (durable nd') \<le> max (filesize f) (pre_allocated_size f)"
    if "durable nd0 = []"
    using d r new(5) that len by (simp_all add: durable_ok_def)
  have exact: "durable nd' = content nd'" if "sc" "\<not> never_fsync fl" "durable nd0 = []" "\<forall>k. PreAllocateOp k \<notin> set ops"
  proof -
    have "pre_allocated_size f = 0" using r new(4,5) that by simp
    then have "length (durable nd') \<le> filesize f" using zeros(2) that by simp
    then show ?thesis using dur that by simp
  qed
  show ?thesis
    using c k dur zeros(1) exact len by auto
qed

text \<open>
  a failed synchronisation is forgotten: the next one reports success without asking the
  system, although nothing has become durable.
\<close>

theorem sync_failure_forgotten:
  assumes "pending_sync f" "\<not> never_fsync fl" "e \<noteq> EIO \<or> \<not> suicide_on_eio fl"
  shows "\<exists>s f'. s \<noteq> Success \<and> wf_Sync tx fl f nd [Err e] = Some (Inr ((s, f', nd), []))
    \<and> wf_Sync tx fl f' nd [] = Some (Inr ((Success, f', nd), []))"
proof -
  obtain s where s: "IOError tx fl (wf_filename f) e = Inr s" "s \<noteq> Success"
    using IOError_returns [OF assms(3)] by blast
  show ?thesis
    using assms s by (simp add: wf_Sync_def DoSync_def run_defs)
qed

text \<open>A concrete run.\<close>

definition one_letter :: "wf_op list" where
  "one_letter = [PreAllocateOp 2, AppendOp [[97]], SyncOp]"

definition written_letter :: PosixWritableFile where
  "written_letter = \<lparr>wf_filename = [], wf_fd = 3, sync_on_close = True, filesize = 1,
     pre_allocated_size = 2, pending_sync = False\<rparr>"

lemma run_one_letter:
  "run_wf no_texts test_flags one_letter (PosixWritableFile [] 3 0 True) empty_file (replicate 5 (Done 1))
     = Some (Inr ((Success, written_letter, \<lparr>content = [97, 0], durable = [97, 0]\<rparr>), [Done 1, Done 1]))"
  by (simp add: one_letter_def PosixWritableFile_def PreAllocate_def AppendVector_def append_loop.simps
      DoWritev_def IOV_MAX_def wf_Sync_def DoSync_def fsync_def run_defs empty_file_def test_flags_def Let_def
      resize_def write_at_def written_letter_def EINTR_def numeral_eq_Suc)

lemma close_one_letter:
  "wf_Close no_texts test_flags written_letter \<lparr>content = [97, 0], durable = [97, 0]\<rparr> [Done 1, Done 1]
     = Some (Inr ((Success, written_letter\<lparr>wf_fd := -1\<rparr>, \<lparr>content = [97], durable = [97, 0]\<rparr>), []))"
  by (simp add: wf_Close_def close_truncate_def close_sync_def wf_Sync_def run_defs written_letter_def
      resize_def EINTR_def)

text \<open>
  the space that \<^verbatim>\<open>Close\<close> gives back is not synchronised: with synchronisation on closing and
  every call a success, the durable file keeps the zeros that were allocated beyond its end.
\<close>

theorem close_truncation_not_synced:
  "\<exists>rs1 f nd f'. run_wf no_texts test_flags one_letter (PosixWritableFile [] 3 0 True) empty_file (replicate 5 (Done 1))
       = Some (Inr ((Success, f, nd), rs1))
     \<and> wf_Close no_texts test_flags f nd rs1 = Some (Inr ((Success, f', \<lparr>content = [97], durable = [97, 0]\<rparr>), []))"
  using run_one_letter close_one_letter by blast

theorem closed_file_contents_witness:
  "run_wf no_texts test_flags one_letter (PosixWritableFile [] 3 0 True) empty_file (replicate 5 (Done 1))
     = Some (Inr ((Success, written_letter, \<lparr>content = [97, 0], durable = [97, 0]\<rparr>), [Done 1, Done 1]))
   \<and> content \<lparr>content = [97], durable = [97, 0]\<rparr> = concat (map op_data one_letter)
   \<and> take 1 (durable \<lparr>content = [97], durable = [97, 0]\<rparr>) = [97]"
  using run_one_letter closed_file_contents [OF run_one_letter _ close_one_letter]
  by (simp add: empty_file_def test_flags_def)

theorem writable_file_refines_witness:
  "wf_ok written_letter \<lparr>content = [97, 0], durable = [97, 0]\<rparr>
   \<and> (\<exists>f' nd'. wf_exec no_texts test_flags (AppendOp [[98]]) written_letter \<lparr>content = [97, 0], durable = [97, 0]\<rparr> [Done 1]
        = Some (Inr ((Success, f', nd'), [])) \<and> appended f' nd' = [97, 98])
   \<and> content \<lparr>content = [97], durable = [97, 0]\<rparr> = appended written_letter \<lparr>content = [97, 0], durable = [97, 0]\<rparr>"
proof -
  let ?nd = "\<lparr>content = [97, 0], durable = [97, 0]\<rparr>"
  have ok: "wf_ok written_letter ?nd" by (simp add: wf_ok_def written_letter_def)
  note refines = conjunct1 [OF writable_file_refines [OF ok], rule_format]
  obtain f' nd' where run: "wf_exec no_texts test_flags (AppendOp [[98]]) written_letter ?nd [Done 1]
      = Some (Inr ((Success, f', nd'), []))"
    by (simp add: AppendVector_def append_loop.simps DoWritev_def IOV_MAX_def run_defs Let_def EINTR_def)
  have "wf_exec no_texts test_flags CloseOp written_letter ?nd [Done 1, Done 1]
      = Some (Inr ((Success, written_letter\<lparr>wf_fd := -1\<rparr>, \<lparr>content = [97], durable = [97, 0]\<rparr>), []))"
    using close_one_letter by simp
  from refines [OF run] refines [OF this] run ok show ?thesis
    by (auto simp: log_step_def appended_def written_letter_def)
qed

theorem sync_failure_forgotten_witness:
  "\<exists>s f'. s \<noteq> Success
     \<and> wf_Sync no_texts test_flags (written_letter\<lparr>pending_sync := True\<rparr>) empty_file [Err 28] = Some (Inr ((s, f', empty_file), []))
     \<and> wf_Sync no_texts test_flags f' empty_file [] = Some (Inr ((Success, f', empty_file), []))"
  using sync_failure_forgotten [of "written_letter\<lparr>pending_sync := True\<rparr>" test_flags 28 no_texts empty_file]
  by (simp add: test_flags_def EIO_def)

end
