(* ===== verification/RWFiles.thy ===== *)
theory RWFiles
  imports FileSys
begin

text \<open>
  The files of \<^verbatim>\<open>base/env_posix.cc\<close> that are read and written at offsets: \<^verbatim>\<open>PosixRWFile\<close> with
  its reads that insist on all bytes and its record of unsynchronised writes, and
  \<^verbatim>\<open>PosixRandomAccessFile\<close>.
\<close>

section \<open>Reading\<close>

text \<open>What \<^verbatim>\<open>pread\<close> finds: at most what is asked for, and nothing beyond the end.\<close>

definition pread :: "bytes \<Rightarrow> nat \<Rightarrow> nat \<Rightarrow> nat \<Rightarrow> bytes" where
  "pread xs n off k = take (min k n) (drop off xs)"

lemma RETRY_shorter: "RETRY_ON_EINTR rs = Some (r, rs') \<Longrightarrow> length rs' < length rs"
  by (induction rs rule: RETRY_ON_EINTR.induct) (auto split: if_splits simp: less_Suc_eq)

text \<open>
  The loop of \<^verbatim>\<open>PosixRWFile::Read\<close>.  \<open>rem\<close> is the \<^verbatim>\<open>int\<close> that counts what is left, \<open>got\<close> what has been
  put into the scratch buffer; the slice that is returned has these bytes and a size.
\<close>

function read_rest ::
  "texts \<Rightarrow> io_flags \<Rightarrow> bytes \<Rightarrow> bytes \<Rightarrow> nat \<Rightarrow> int \<Rightarrow> nat \<Rightarrow> bytes \<Rightarrow> (outcome \<times> (bytes \<times> nat) option) run" where
  "read_rest tx fl nm xs sz rem off got rs =
     (if rem > 0 then
        case RETRY_ON_EINTR rs of None \<Rightarrow> None
        | Some (r, rs') \<Rightarrow>
          (case r of
             Err e \<Rightarrow> bindR (liftR (IOError tx fl nm e)) (\<lambda>s. returnR (s, None)) rs'
           | Done k \<Rightarrow>
               let this_result = pread xs (nat rem) off k in
               if length this_result = 0 then
                 returnR (failure kIOError (str ''EOF trying to read '' @ dec_nat sz
                   @ str '' bytes at offset '' @ dec_nat off) [] (-1), None) rs'
               else read_rest tx fl nm xs sz (rem - int (length this_result)) (off + length this_result)
                 (got @ this_result) rs')
      else if rem \<noteq> 0 then Some (Inl CheckFailed) else returnR (Success, Some (got, sz)) rs)"
  by pat_completeness auto
termination
  by (relation "measure (\<lambda>(tx, fl, nm, xs, sz, rem, off, got, rs). length rs)") (auto dest: RETRY_shorter)

declare read_rest.simps [simp del]

record PosixRWFile =
  rw_filename :: bytes
  rw_fd :: int
  rw_sync_on_close :: bool
  rw_pending_sync :: bool
  rw_closed :: bool

definition PosixRWFile :: "bytes \<Rightarrow> int \<Rightarrow> bool \<Rightarrow> PosixRWFile" where
  "PosixRWFile fname n sync_close =
     \<lparr>rw_filename = fname, rw_fd = n, rw_sync_on_close = sync_close, rw_pending_sync = False, rw_closed = False\<rparr>"

definition rw_Read ::
  "texts \<Rightarrow> io_flags \<Rightarrow> nat \<Rightarrow> nat \<Rightarrow> PosixRWFile \<Rightarrow> fnode \<Rightarrow> (outcome \<times> (bytes \<times> nat) option) run" where
  "rw_Read tx fl offset sz f nd = read_rest tx fl (rw_filename f) (content nd) sz (wrap32 (int sz)) offset []"

text \<open>
  One read of \<^verbatim>\<open>PosixRandomAccessFile\<close>: the slice is made of the result even when that is -1.
\<close>

definition ra_Read :: "texts \<Rightarrow> io_flags \<Rightarrow> bytes \<Rightarrow> nat \<Rightarrow> nat \<Rightarrow> fnode \<Rightarrow> (outcome \<times> bytes \<times> int) run" where
  "ra_Read tx fl filename offset n nd =
     bindR (askR RETRY_ON_EINTR) (\<lambda>r. case r of
         Err e \<Rightarrow> bindR (liftR (IOError tx fl filename e)) (\<lambda>s. returnR (s, [], (-1) mod 2 ^ 64))
       | Done k \<Rightarrow> let bs = pread (content nd) n offset k in returnR (Success, bs, int (length bs)))"

section \<open>Writing\<close>

type_synonym rw_run = "(outcome \<times> PosixRWFile \<times> fnode) run"

definition rw_Write :: "texts \<Rightarrow> io_flags \<Rightarrow> nat \<Rightarrow> bytes \<Rightarrow> PosixRWFile \<Rightarrow> fnode \<Rightarrow> rw_run" where
  "rw_Write tx fl offset bs f nd =
     bindR (askR RETRY_ON_EINTR) (\<lambda>r. case r of
         Err e \<Rightarrow> bindR (liftR (IOError tx fl (rw_filename f) e)) (\<lambda>s. returnR (s, f, nd))
       | Done k \<Rightarrow>
           let written = min k (length bs);
               nd = nd\<lparr>content := write_at offset (take written bs) (content nd)\<rparr>
           in if written \<noteq> length bs then
                returnR (failure kIOError (str ''pwrite error: expected to write '' @ dec_nat (length bs)
                  @ str '' bytes, wrote '' @ dec_nat written
                  @ str '' bytes instead (perhaps the disk is out of space)'') [] (-1), f, nd)
              else returnR (Success, f\<lparr>rw_pending_sync := True\<rparr>, nd))"

datatype PreAllocateMode = CHANGE_FILE_SIZE | DONT_CHANGE_FILE_SIZE

definition rw_PreAllocate ::
  "texts \<Rightarrow> io_flags \<Rightarrow> nat \<Rightarrow> nat \<Rightarrow> PreAllocateMode \<Rightarrow> PosixRWFile \<Rightarrow> fnode \<Rightarrow> rw_run" where
  "rw_PreAllocate tx fl offset sz mode f nd =
     bindR (askR call_once) (\<lambda>r. case r of
         Err e \<Rightarrow>
           if e = EOPNOTSUPP \<or> e = ENOSYS then returnR (Success, f, nd)
           else bindR (liftR (IOError tx fl (rw_filename f) e)) (\<lambda>s. returnR (s, f, nd))
       | Done _ \<Rightarrow>
           returnR (Success, f, if mode = DONT_CHANGE_FILE_SIZE then nd
             else nd\<lparr>content := resize (max (length (content nd)) (offset + sz)) (content nd)\<rparr>))"

definition rw_Truncate :: "texts \<Rightarrow> nat \<Rightarrow> PosixRWFile \<Rightarrow> fnode \<Rightarrow> rw_run" where
  "rw_Truncate tx sz f nd =
     bindR (askR RETRY_ON_EINTR) (\<lambda>r. case r of
         Err e \<Rightarrow> returnR (failure kIOError (str ''Unable to truncate file '' @ rw_filename f)
           (str ''ftruncate() failed: '' @ errno_text tx e) e, f, nd)
       | Done _ \<Rightarrow> returnR (Success, f, nd\<lparr>content := resize sz (content nd)\<rparr>))"

definition punch :: "nat \<Rightarrow> nat \<Rightarrow> bytes \<Rightarrow> bytes" where
  "punch off sz xs = take off xs @ replicate (min sz (length xs - off)) 0 @ drop (off + sz) xs"

definition rw_PunchHole :: "texts \<Rightarrow> io_flags \<Rightarrow> nat \<Rightarrow> nat \<Rightarrow> PosixRWFile \<Rightarrow> fnode \<Rightarrow> rw_run" where
  "rw_PunchHole tx fl offset sz f nd =
     bindR (askR call_once) (\<lambda>r. case r of
         Err e \<Rightarrow> bindR (liftR (IOError tx fl (rw_filename f) e)) (\<lambda>s. returnR (s, f, nd))
       | Done _ \<Rightarrow> returnR (Success, f, nd\<lparr>content := punch offset sz (content nd)\<rparr>))"

definition rw_Sync :: "texts \<Rightarrow> io_flags \<Rightarrow> PosixRWFile \<Rightarrow> fnode \<Rightarrow> rw_run" where
  "rw_Sync tx fl f nd =
     (if \<not> rw_pending_sync f then returnR (Success, f, nd)
      else bindR (DoSync tx fl (rw_filename f) nd) (\<lambda>(s, nd). returnR (s, f\<lparr>rw_pending_sync := False\<rparr>, nd)))"


definition rw_Size :: "texts \<Rightarrow> io_flags \<Rightarrow> PosixRWFile \<Rightarrow> fnode \<Rightarrow> (outcome \<times> nat option) run" where
  "rw_Size tx fl f nd =
     bindR (askR call_once) (\<lambda>r. case r of
         Err e \<Rightarrow> bindR (liftR (IOError tx fl (rw_filename f) e)) (\<lambda>s. returnR (s, None))
       | Done _ \<Rightarrow> returnR (Success, Some (length (content nd))))"

section \<open>Reads are exact\<close>

text \<open>Answers of a system that goes on: some bytes, or an interruption.\<close>

fun progress :: "reply \<Rightarrow> bool" where
  "progress (Done k) = (0 < k)"
| "progress (Err e) = (e = EINTR)"

fun bytes_moved :: "reply \<Rightarrow> nat" where
  "bytes_moved (Done k) = 1"
| "bytes_moved (Err e) = 0"

lemma RETRY_progress:
  "list_all progress rs \<Longrightarrow> 0 < sum_list (map bytes_moved rs) \<Longrightarrow>
    \<exists>k rs'. RETRY_ON_EINTR rs = Some (Done k, rs') \<and> 0 < k \<and> list_all progress rs'
      \<and> sum_list (map bytes_moved rs) = Suc (sum_list (map bytes_moved rs'))"
proof (induction rs rule: RETRY_ON_EINTR.induct)
  case (2 r rs)
  then show ?case by (cases r) auto
qed simp

lemma read_rest_exact:
  assumes "off + nat rem \<le> length xs" "0 \<le> rem" "list_all progress rs" "nat rem \<le> sum_list (map bytes_moved rs)"
  shows "\<exists>rs'. read_rest tx fl nm xs sz rem off got rs
    = Some (Inr ((Success, Some (got @ take (nat rem) (drop off xs), sz)), rs'))"
  using assms
proof (induction "nat rem" arbitrary: rem off got rs rule: less_induct)
  case less
  show ?case
  proof (cases "0 < rem")
    case False
    then show ?thesis using less.prems by (simp add: read_rest.simps returnR_def)
  next
    case True
    then have "0 < sum_list (map bytes_moved rs)" using less.prems(4) by linarith
    then obtain k rs' where r: "RETRY_ON_EINTR rs = Some (Done k, rs')" "0 < k" "list_all progress rs'"
        "sum_list (map bytes_moved rs) = Suc (sum_list (map bytes_moved rs'))"
      using RETRY_progress less.prems(3) by blast
    define j where "j = min k (nat rem)"
    have j: "pread xs (nat rem) off k = take j (drop off xs)" "0 < j" "j \<le> nat rem"
      using True r(2) by (simp_all add: pread_def j_def)
    have inside: "\<not> length xs \<le> off" using less.prems(1) True by linarith
    have len: "length (take j (drop off xs)) = j" using j(3) less.prems(1) by simp
    have step: "read_rest tx fl nm xs sz rem off got rs
        = read_rest tx fl nm xs sz (rem - int j) (off + j) (got @ take j (drop off xs)) rs'"
      using True j len inside by (simp add: read_rest.simps [of tx fl nm xs sz rem] r(1) Let_def)
    have lt: "nat (rem - int j) < nat rem" using True j by simp
    have pre: "off + j + nat (rem - int j) \<le> length xs" "0 \<le> rem - int j"
        "nat (rem - int j) \<le> sum_list (map bytes_moved rs')"
      using less.prems True j r(4) by auto
    obtain rs'' where "read_rest tx fl nm xs sz (rem - int j) (off + j) (got @ take j (drop off xs)) rs'
        = Some (Inr ((Success, Some ((got @ take j (drop off xs)) @ take (nat (rem - int j)) (drop (off + j) xs), sz)), rs''))"
      using less.hyps [OF lt pre(1,2) r(3) pre(3)] by blast
    moreover have "nat rem = j + nat (rem - int j)" using j True by simp
    then have "take (nat rem) (drop off xs) = take j (drop off xs) @ take (nat (rem - int j)) (drop (off + j) xs)"
      by (simp add: take_add add.commute)
    ultimately show ?thesis unfolding step by simp
  qed
qed

text \<open>Whatever the system answers, a read that succeeds has all the bytes.\<close>

lemma read_rest_success:
  assumes "read_rest tx fl nm xs sz rem off got rs = Some (Inr ((Success, res), rs'))" "0 \<le> rem"
  shows "res = Some (got @ take (nat rem) (drop off xs), sz) \<and> (rem = 0 \<or> off + nat rem \<le> length xs)"
  using assms
proof (induction tx fl nm xs sz rem off got rs rule: read_rest.induct)
  case (1 tx fl nm xs sz rem off got rs)
  show ?case
  proof (cases "0 < rem")
    case False
    then show ?thesis using "1.prems" by (simp add: read_rest.simps)
  next
    case True
    then obtain r rs1 where r: "RETRY_ON_EINTR rs = Some (r, rs1)"
      using "1.prems"(1) by (cases "RETRY_ON_EINTR rs") (auto simp: read_rest.simps [of tx fl nm xs sz rem])
    show ?thesis
    proof (cases r)
      case (Err e)
      then show ?thesis
        using "1.prems"(1) True r by (auto simp: read_rest.simps [of tx fl nm xs sz rem] run_bindR)
    next
      case (Done k)
      define ys where "ys = pread xs (nat rem) off k"
      have ys: "ys = take (length ys) (drop off xs)" "length ys \<le> nat rem" "length ys \<le> length xs - off"
        by (auto simp: ys_def pread_def min_def)
      have ne: "ys \<noteq> []" and run: "read_rest tx fl nm xs sz (rem - int (length ys)) (off + length ys) (got @ ys) rs1
          = Some (Inr ((Success, res), rs'))"
        using "1.prems"(1) True r Done
        by (auto simp: read_rest.simps [of tx fl nm xs sz rem] Let_def ys_def [symmetric] split: if_splits)
      have IH: "res = Some ((got @ ys) @ take (nat (rem - int (length ys))) (drop (off + length ys) xs), sz)
          \<and> (rem - int (length ys) = 0 \<or> off + length ys + nat (rem - int (length ys)) \<le> length xs)"
        using "1.IH" [OF True r _ Done ys_def] ne run ys(2) True by auto
      have "nat rem = length ys + nat (rem - int (length ys))" using ys(2) by simp
      then have "take (nat rem) (drop off xs) = ys @ take (nat (rem - int (length ys))) (drop (off + length ys) xs)"
        using ys(1) by (metis take_add drop_drop add.commute)
      then show ?thesis using IH ys(2,3) ne by (cases "ys = []") auto
    qed
  qed
qed

text \<open>
  C22: a read of less than 2 GiB that succeeds returns exactly the bytes of the file at its place,
  through interruptions and short reads; and it does succeed when they are there and the
  system goes on moving at least one byte for each answer.
\<close>

theorem rw_read_exact:
  assumes "sz < 2 ^ 31"
  shows "(\<forall>rs res rs'. rw_Read tx fl offset sz f nd rs = Some (Inr ((Success, res), rs')) \<longrightarrow>
        res = Some (take sz (drop offset (content nd)), sz) \<and> (sz = 0 \<or> offset + sz \<le> length (content nd)))
    \<and> (\<forall>rs. offset + sz \<le> length (content nd) \<and> list_all progress rs \<and> sz \<le> sum_list (map bytes_moved rs) \<longrightarrow>
        (\<exists>rs'. rw_Read tx fl offset sz f nd rs
          = Some (Inr ((Success, Some (take sz (drop offset (content nd)), sz)), rs'))))"
proof -
  have w: "wrap32 (int sz) = int sz" using assms by (simp add: wrap32_def)
  show ?thesis
  proof (intro conjI allI impI)
    fix rs res rs'
    assume "rw_Read tx fl offset sz f nd rs = Some (Inr ((Success, res), rs'))"
    from read_rest_success [OF this [unfolded rw_Read_def w]]
    show "res = Some (take sz (drop offset (content nd)), sz)" "sz = 0 \<or> offset + sz \<le> length (content nd)" by auto
  next
    fix rs
    assume "offset + sz \<le> length (content nd) \<and> list_all progress rs \<and> sz \<le> sum_list (map bytes_moved rs)"
    then show "\<exists>rs'. rw_Read tx fl offset sz f nd rs
        = Some (Inr ((Success, Some (take sz (drop offset (content nd)), sz)), rs'))"
      using read_rest_exact [of offset "int sz" "content nd" rs tx fl "rw_filename f" sz "[]"]
      by (simp add: rw_Read_def w)
  qed
qed

text \<open>
  a read of a multiple of 4 GiB reports success without reading anything: the slice it
  returns has the full size over a scratch buffer that was never written, and no call is made.
\<close>

theorem rw_read_int_truncation:
  "rw_Read tx fl offset (2 ^ 32 * m) f nd rs = Some (Inr ((Success, Some ([], 2 ^ 32 * m)), rs))"
proof -
  have "wrap32 (int (2 ^ 32 * m)) = 0" by (simp add: wrap32_def add.commute [of _ "2 ^ 31"])
  then show ?thesis by (simp add: rw_Read_def read_rest.simps returnR_def)
qed

text \<open>A failed read of a random access file leaves a slice of the largest size.\<close>

lemma random_read_error_slice:
  "ra_Read tx fl nm offset n nd rs = Some (Inr ((s, bs, size_of_slice), rs')) \<Longrightarrow> s \<noteq> Success \<Longrightarrow>
    size_of_slice = 2 ^ 64 - 1"
  by (auto simp: ra_Read_def run_bindR Let_def)

section \<open>Synchronisation\<close>

datatype rw_op =
    RWWrite nat bytes
  | RWSync
  | RWPreAllocate nat nat PreAllocateMode
  | RWTruncate nat
  | RWPunchHole nat nat

fun rw_exec :: "texts \<Rightarrow> io_flags \<Rightarrow> rw_op \<Rightarrow> PosixRWFile \<Rightarrow> fnode \<Rightarrow> rw_run" where
  "rw_exec tx fl (RWWrite off bs) f nd = rw_Write tx fl off bs f nd"
| "rw_exec tx fl RWSync f nd = rw_Sync tx fl f nd"
| "rw_exec tx fl (RWPreAllocate off n mode) f nd = rw_PreAllocate tx fl off n mode f nd"
| "rw_exec tx fl (RWTruncate n) f nd = rw_Truncate tx n f nd"
| "rw_exec tx fl (RWPunchHole off n) f nd = rw_PunchHole tx fl off n f nd"

fun run_rw :: "texts \<Rightarrow> io_flags \<Rightarrow> rw_op list \<Rightarrow> PosixRWFile \<Rightarrow> fnode \<Rightarrow> rw_run" where
  "run_rw tx fl [] f nd = returnR (Success, f, nd)"
| "run_rw tx fl (op # ops) f nd = bindR (rw_exec tx fl op f nd) (\<lambda>(s, f, nd).
     if s = Success then run_rw tx fl ops f nd else returnR (s, f, nd))"










text \<open>
  a truncation, like a hole, is not remembered: the synchronisation after it reports success
  and the durable file is still the old one.
\<close>

theorem rw_truncate_not_synced:
  "map_option (map_sum id (\<lambda>(r, _). (fst r, snd (snd r))))
     (run_rw no_texts test_flags [RWWrite 0 [1, 2], RWSync, RWTruncate 1, RWSync] (PosixRWFile [] 3 False)
       empty_file (replicate 4 (Done 2)))
   = Some (Inr (Success, \<lparr>content = [1], durable = [1, 2]\<rparr>))"
  by (simp add: PosixRWFile_def rw_Write_def rw_Sync_def DoSync_def rw_Truncate_def run_defs Let_def
      empty_file_def test_flags_def write_at_def resize_def fsync_def EINTR_def numeral_eq_Suc)

theorem rw_read_exact_witness:
  "\<exists>rs'. rw_Read no_texts test_flags 1 2 (PosixRWFile [] 3 False) \<lparr>content = [7, 8, 9], durable = []\<rparr>
      [Err EINTR, Done 1, Done 4] = Some (Inr ((Success, Some ([8, 9], 2)), rs'))"
  using conjunct2 [OF rw_read_exact [of 2 no_texts test_flags 1 "PosixRWFile [] 3 False"
      "\<lparr>content = [7, 8, 9], durable = []\<rparr>"], rule_format, of "[Err EINTR, Done 1, Done 4]"]
  by simp



end
