(* ===== verification/FileUtil.thy ===== *)
theory FileUtil
  imports WritableFiles
begin

text \<open>
  Whole files: opening and deleting by name in \<^verbatim>\<open>PosixEnv\<close>, sequential reading
  (\<^verbatim>\<open>PosixSequentialFile\<close>), and the routines of \<^verbatim>\<open>base/env.cc\<close> that write a string to a file and
  read one back.
\<close>

section \<open>Sequential files\<close>

text \<open>A stream is the position in its file.\<close>

record PosixSequentialFile =
  sf_filename :: bytes
  sf_pos :: nat

text \<open>
  What \<^verbatim>\<open>fread\<close> delivers: the bytes, and the error number of a stream error.  The stream delivers
  all that is asked for or all that is left (an answer that is large enough), or breaks down
  after some bytes (a smaller one, followed by the error number) or before the first.
\<close>

definition fread :: "bytes \<Rightarrow> nat \<Rightarrow> nat \<Rightarrow> (bytes \<times> int option) run" where
  "fread xs pos n =
     (let avail = drop pos xs in
      bindR (askR call_once) (\<lambda>r. case r of
          Err e \<Rightarrow> returnR ([], Some e)
        | Done k \<Rightarrow>
            if min n (length avail) \<le> k then returnR (take n avail, None)
            else bindR (askR call_once) (\<lambda>r. returnR (take k avail, Some (case r of Err e \<Rightarrow> e | Done _ \<Rightarrow> 0)))))"

text \<open>
  The condition of \<^verbatim>\<open>STREAM_RETRY_ON_EINTR\<close>: \<^verbatim>\<open>ferror\<close> tells whether the stream has an error, not
  which, so that the call is never repeated.
\<close>

definition ferror :: "int option \<Rightarrow> int" where
  "ferror err = (if err = None then 0 else 1)"

definition STREAM_RETRY :: "nat \<Rightarrow> int option \<Rightarrow> bool" where
  "STREAM_RETRY nread err \<longleftrightarrow> nread = 0 \<and> ferror err = EINTR"

lemma never_retried: "\<not> STREAM_RETRY nread err"
  by (simp add: STREAM_RETRY_def ferror_def EINTR_def)

definition sf_Read ::
  "texts \<Rightarrow> io_flags \<Rightarrow> nat \<Rightarrow> bytes \<Rightarrow> PosixSequentialFile \<Rightarrow> (outcome \<times> bytes \<times> PosixSequentialFile) run" where
  "sf_Read tx fl n xs f =
     bindR (fread xs (sf_pos f) n) (\<lambda>(bs, err).
       let f' = f\<lparr>sf_pos := sf_pos f + length bs\<rparr> in
       if length bs < n then
         case err of None \<Rightarrow> returnR (Success, bs, f')
         | Some e \<Rightarrow> bindR (liftR (IOError tx fl (sf_filename f) e)) (\<lambda>s. returnR (s, bs, f'))
       else returnR (Success, bs, f'))"

definition sf_Skip ::
  "texts \<Rightarrow> io_flags \<Rightarrow> nat \<Rightarrow> PosixSequentialFile \<Rightarrow> (outcome \<times> PosixSequentialFile) run" where
  "sf_Skip tx fl n f =
     bindR (askR call_once) (\<lambda>r. case r of
         Err e \<Rightarrow> bindR (liftR (IOError tx fl (sf_filename f) e)) (\<lambda>s. returnR (s, f))
       | Done _ \<Rightarrow> returnR (Success, f\<lparr>sf_pos := sf_pos f + n\<rparr>))"

section \<open>The environment\<close>

definition NewSequentialFile ::
  "texts \<Rightarrow> io_flags \<Rightarrow> bytes \<Rightarrow> fs \<Rightarrow> (outcome \<times> PosixSequentialFile option) run" where
  "NewSequentialFile tx fl fname fs =
     bindR (askR call_once) (\<lambda>r.
       case (case r of Err e \<Rightarrow> Some e | Done _ \<Rightarrow> if fs fname = None then Some ENOENT else None) of
         Some e \<Rightarrow> bindR (liftR (IOError tx fl fname e)) (\<lambda>s. returnR (s, None))
       | None \<Rightarrow> returnR (Success, Some \<lparr>sf_filename = fname, sf_pos = 0\<rparr>))"

definition GetFileSize :: "texts \<Rightarrow> io_flags \<Rightarrow> bytes \<Rightarrow> fs \<Rightarrow> (outcome \<times> nat) run" where
  "GetFileSize tx fl fname fs =
     bindR (askR call_once) (\<lambda>r.
       case (case r of Err e \<Rightarrow> Inl e | Done _ \<Rightarrow> (case fs fname of None \<Rightarrow> Inl ENOENT | Some nd \<Rightarrow> Inr nd)) of
         Inl e \<Rightarrow> bindR (liftR (IOError tx fl fname e)) (\<lambda>s. returnR (s, 0))
       | Inr nd \<Rightarrow> returnR (Success, length (content nd)))"

definition DeleteFile :: "texts \<Rightarrow> io_flags \<Rightarrow> bytes \<Rightarrow> fs \<Rightarrow> (outcome \<times> fs) run" where
  "DeleteFile tx fl fname fs =
     bindR (askR call_once) (\<lambda>r.
       case (case r of Err e \<Rightarrow> Some e | Done _ \<Rightarrow> if fs fname = None then Some ENOENT else None) of
         Some e \<Rightarrow> bindR (liftR (IOError tx fl fname e)) (\<lambda>s. returnR (s, fs))
       | None \<Rightarrow> returnR (Success, fs(fname := None)))"

record WritableFileOptions =
  opt_sync_on_close :: bool
  opt_mode :: CreateMode

definition default_options :: WritableFileOptions where
  "default_options = \<lparr>opt_sync_on_close = False, opt_mode = CREATE_IF_NON_EXISTING_TRUNCATE\<rparr>"

definition InstantiateNewWritableFile ::
  "texts \<Rightarrow> io_flags \<Rightarrow> bytes \<Rightarrow> int \<Rightarrow> WritableFileOptions \<Rightarrow> fs \<Rightarrow> (outcome \<times> PosixWritableFile option) run" where
  "InstantiateNewWritableFile tx fl fname n opts fs =
     bindR (if opt_mode opts = OPEN_EXISTING then GetFileSize tx fl fname fs else returnR (Success, 0))
       (\<lambda>(s, file_size). returnR (s,
          if s \<noteq> Success then None else Some (PosixWritableFile fname n file_size (opt_sync_on_close opts))))"

definition NewWritableFile ::
  "texts \<Rightarrow> io_flags \<Rightarrow> WritableFileOptions \<Rightarrow> bytes \<Rightarrow> fs \<Rightarrow> (outcome \<times> PosixWritableFile option \<times> fs) run" where
  "NewWritableFile tx fl opts fname fs =
     bindR (DoOpen tx fl fname (opt_mode opts) fs) (\<lambda>(s, n, fs).
       case n of None \<Rightarrow> returnR (s, None, fs)
       | Some n \<Rightarrow> bindR (InstantiateNewWritableFile tx fl fname n opts fs) (\<lambda>(s, f). returnR (s, f, fs)))"

section \<open>Writing and reading strings\<close>

definition DoWriteStringToFile :: "texts \<Rightarrow> io_flags \<Rightarrow> bytes \<Rightarrow> bytes \<Rightarrow> bool \<Rightarrow> fs \<Rightarrow> (outcome \<times> fs) run" where
  "DoWriteStringToFile tx fl bs fname should_sync fs =
     bindR (NewWritableFile tx fl default_options fname fs) (\<lambda>(s, fo, fs).
       case (fo, fs fname) of (Some f, Some nd) \<Rightarrow>
         bindR (Append tx fl bs f nd) (\<lambda>(s, f, nd).
         bindR (if s = Success \<and> should_sync then wf_Sync tx fl f nd else returnR (s, f, nd)) (\<lambda>(s, f, nd).
         bindR (if s = Success then wf_Close tx fl f nd else returnR (s, f, nd)) (\<lambda>(s, f, nd).
         bindR (wf_destroy tx fl f nd) (\<lambda>nd.
         let fs = fs(fname \<mapsto> nd) in
         if s \<noteq> Success then bindR (DeleteFile tx fl fname fs) (\<lambda>(_, fs). returnR (s, fs))
         else returnR (s, fs)))))
       | _ \<Rightarrow> returnR (s, fs))"

definition WriteStringToFile :: "texts \<Rightarrow> io_flags \<Rightarrow> bytes \<Rightarrow> bytes \<Rightarrow> fs \<Rightarrow> (outcome \<times> fs) run" where
  "WriteStringToFile tx fl bs fname fs = DoWriteStringToFile tx fl bs fname False fs"

definition WriteStringToFileSync :: "texts \<Rightarrow> io_flags \<Rightarrow> bytes \<Rightarrow> bytes \<Rightarrow> fs \<Rightarrow> (outcome \<times> fs) run" where
  "WriteStringToFileSync tx fl bs fname fs = DoWriteStringToFile tx fl bs fname True fs"

definition kBufferSize :: nat where "kBufferSize = 8192"

lemma call_once_shorter: "call_once rs = Some (r, rs') \<Longrightarrow> length rs' < length rs"
  by (cases rs) auto

lemma fread_shorter: "fread xs pos n rs = Some (Inr ((bs, err), rs')) \<Longrightarrow> length rs' < length rs"
  by (auto simp: fread_def run_bindR Let_def dest!: call_once_shorter split: if_splits)

lemma sf_Read_shorter: "sf_Read tx fl n xs f rs = Some (Inr ((s, bs, f'), rs')) \<Longrightarrow> length rs' < length rs"
  by (auto simp: sf_Read_def run_bindR Let_def dest!: fread_shorter split: if_splits option.splits)

function read_fragments ::
  "texts \<Rightarrow> io_flags \<Rightarrow> bytes \<Rightarrow> PosixSequentialFile \<Rightarrow> bytes \<Rightarrow> (outcome \<times> bytes) run" where
  "read_fragments tx fl xs f got rs =
     (case sf_Read tx fl kBufferSize xs f rs of
        None \<Rightarrow> None
      | Some (Inl e) \<Rightarrow> Some (Inl e)
      | Some (Inr ((s, fragment, f'), rs')) \<Rightarrow>
          if s \<noteq> Success then returnR (s, got) rs'
          else let got = got @ fragment in
            if fragment = [] then returnR (s, got) rs' else read_fragments tx fl xs f' got rs')"
  by pat_completeness auto
termination
  by (relation "measure (\<lambda>(tx, fl, xs, f, got, rs). length rs)") (auto dest: sf_Read_shorter)

declare read_fragments.simps [simp del]

definition ReadFileToString :: "texts \<Rightarrow> io_flags \<Rightarrow> bytes \<Rightarrow> fs \<Rightarrow> (outcome \<times> bytes) run" where
  "ReadFileToString tx fl fname fs =
     bindR (NewSequentialFile tx fl fname fs) (\<lambda>(s, fo).
       case (fo, fs fname) of (Some f, Some nd) \<Rightarrow> read_fragments tx fl (content nd) f []
       | _ \<Rightarrow> returnR (s, []))"

section \<open>Reading back\<close>

lemma sf_Read_success:
  assumes "sf_Read tx fl n xs f rs = Some (Inr ((Success, bs, f'), rs'))"
  shows "bs = take n (drop (sf_pos f) xs) \<and> f' = f\<lparr>sf_pos := sf_pos f + length bs\<rparr>"
proof -
  obtain err rs1 where fr: "fread xs (sf_pos f) n rs = Some (Inr ((bs, err), rs1))"
    and f': "f' = f\<lparr>sf_pos := sf_pos f + length bs\<rparr>" and err: "length bs < n \<longrightarrow> err = None"
    using assms by (auto simp: sf_Read_def run_bindR Let_def split: if_splits option.splits)
  from fr err have "bs = take n (drop (sf_pos f) xs)"
    by (auto simp: fread_def run_bindR Let_def split: if_splits)
  then show ?thesis using f' by simp
qed

lemma take_drop_rest: "take n ys @ drop (length (take n ys)) ys = ys"
  by (cases "n \<le> length ys") simp_all

lemma read_fragments_success:
  assumes "read_fragments tx fl xs f got rs = Some (Inr ((Success, res), rs'))"
  shows "res = got @ drop (sf_pos f) xs"
  using assms
proof (induction tx fl xs f got rs rule: read_fragments.induct)
  case (1 tx fl xs f got rs)
  note unf = read_fragments.simps [of tx fl xs f got rs]
  obtain s bs f' rs1 where rd: "sf_Read tx fl kBufferSize xs f rs = Some (Inr ((s, bs, f'), rs1))"
    using "1.prems" by (auto simp: unf split: option.splits sum.splits)
  then have s: "s = Success" using "1.prems" by (auto simp: unf split: if_splits)
  note bs = sf_Read_success [OF rd [unfolded s]]
  show ?case
  proof (cases "bs = []")
    case True
    then have "res = got" "drop (sf_pos f) xs = []"
      using "1.prems" rd s bs by (auto simp: unf kBufferSize_def)
    then show ?thesis by simp
  next
    case False
    have run: "read_fragments tx fl xs f' (got @ bs) rs1 = Some (Inr ((Success, res), rs'))"
      using "1.prems" rd s False by (simp add: unf)
    have "res = (got @ bs) @ drop (sf_pos f') xs"
      by (rule "1.IH" [OF rd refl refl refl refl _ refl False run]) (simp add: s)
    moreover have "bs @ drop (sf_pos f') xs = drop (sf_pos f) xs"
      using bs take_drop_rest [of kBufferSize "drop (sf_pos f) xs"] by (simp add: add.commute)
    ultimately show ?thesis by simp
  qed
qed

lemma read_fragments_returns:
  assumes "length (drop (sf_pos f) xs) < m"
  shows "\<exists>res rs'. read_fragments tx fl xs f got (replicate m (Done kBufferSize)) = Some (Inr ((Success, res), rs'))"
  using assms
proof (induction m arbitrary: f got)
  case (Suc m)
  let ?avail = "drop (sf_pos f) xs"
  let ?bs = "take kBufferSize ?avail"
  let ?f = "f\<lparr>sf_pos := sf_pos f + length ?bs\<rparr>"
  have rd: "sf_Read tx fl kBufferSize xs f (replicate (Suc m) (Done kBufferSize))
      = Some (Inr ((Success, ?bs, ?f), replicate m (Done kBufferSize)))"
    by (simp add: sf_Read_def fread_def run_defs Let_def)
  show ?case
  proof (cases "?bs = []")
    case True
    then show ?thesis
      unfolding read_fragments.simps [of tx fl xs f got] rd by (simp add: returnR_def)
  next
    case False
    then have "length (drop (sf_pos ?f) xs) < m" using Suc.prems by (auto simp: kBufferSize_def min_def)
    from Suc.IH [OF this, of "got @ ?bs"] False show ?thesis
      unfolding read_fragments.simps [of tx fl xs f got] rd by (simp add: Let_def)
  qed
qed simp

text \<open>
  a file that is read to a string without an error gives exactly its contents, however the
  stream cuts them; and it is read without an error when the stream delivers, within one answer
  for opening it, one for each byte and one more.
\<close>

theorem read_file_exact:
  assumes "fs nm = Some nd"
  shows "(\<forall>rs res rs'. ReadFileToString tx fl nm fs rs = Some (Inr ((Success, res), rs')) \<longrightarrow> res = content nd)
    \<and> (\<exists>rs'. ReadFileToString tx fl nm fs (Done 0 # replicate (length (content nd) + 1) (Done kBufferSize))
        = Some (Inr ((Success, content nd), rs')))"
proof -
  have sound: "res = content nd" if "ReadFileToString tx fl nm fs rs = Some (Inr ((Success, res), rs'))" for rs res rs'
    using that assms
    by (auto simp: ReadFileToString_def NewSequentialFile_def run_bindR dest!: read_fragments_success)
  let ?rs = "replicate (length (content nd) + 1) (Done kBufferSize)"
  obtain res rs' where "read_fragments tx fl (content nd) \<lparr>sf_filename = nm, sf_pos = 0\<rparr> [] ?rs
      = Some (Inr ((Success, res), rs'))"
    using read_fragments_returns [of "\<lparr>sf_filename = nm, sf_pos = 0\<rparr>" "content nd" "length (content nd) + 1" tx fl "[]"] by auto
  then have "ReadFileToString tx fl nm fs (Done 0 # ?rs) = Some (Inr ((Success, res), rs'))"
    using assms by (simp add: ReadFileToString_def NewSequentialFile_def run_defs)
  with sound show ?thesis by blast
qed

section \<open>Writing\<close>

text \<open>
  The files these routines write have no space allocated and are not synchronised on closing:
  the file holds the bytes appended and nothing else.
\<close>

definition plain :: "PosixWritableFile \<Rightarrow> fnode \<Rightarrow> bool" where
  "plain f nd \<longleftrightarrow> wf_ok f nd \<and> pre_allocated_size f = 0 \<and> \<not> sync_on_close f"

lemma plain_appended: "plain f nd \<Longrightarrow> appended f nd = content nd"
  by (auto simp: plain_def wf_ok_def appended_def)

lemma plain_Append:
  assumes "plain f nd" "Append tx fl bs f nd rs = Some (Inr ((s, f', nd'), rs'))"
  obtains k where "plain f' nd'" "content nd' = content nd @ take k bs" "s = Success \<longrightarrow> take k bs = bs"
    "pending_sync f'" "durable nd' = durable nd"
proof -
  have ok: "wf_ok f nd" using assms(1) by (simp add: plain_def)
  from AppendVector_adds [OF ok assms(2) [unfolded Append_def]]
  have ad: "adds bs f nd s f' nd'" "pending_sync f'" by simp_all
  have "pre_allocated_size f' = pre_allocated_size f"
    using assms(2) AppendVector_keeps by (simp add: Append_def)
  then have pl: "plain f' nd'" using ad assms(1) by (auto simp: plain_def adds_def)
  obtain k where "k \<le> length bs" "appended f' nd' = appended f nd @ take k bs" "s = Success \<longrightarrow> k = length bs"
    using ad by (auto simp: adds_def log_step_def)
  then show thesis
    using that [OF pl, of k] plain_appended [OF pl] plain_appended [OF assms(1)] ad by (auto simp: adds_def)
qed

lemma plain_Close:
  assumes "plain f nd" "wf_Close tx fl f nd rs = Some (Inr ((s, f', nd'), rs'))"
  shows "nd' = nd \<and> f' = f\<lparr>wf_fd := -1\<rparr>"
proof -
  from wf_Close_result [OF assms(2)] obtain s1 f1 nd1 rs1 s2 f2 rs2 where
    "close_truncate tx fl f nd rs = Some (Inr ((s1, f1, nd1), rs1))"
    "close_sync tx fl s1 f1 nd1 rs1 = Some (Inr ((s2, f2, nd'), rs2))" "f' = f2\<lparr>wf_fd := -1\<rparr>" by metis
  then show ?thesis using assms(1) by (auto simp: close_truncate_def close_sync_def plain_def)
qed

lemma plain_destroy: "plain f nd \<Longrightarrow> wf_destroy tx fl f nd rs = Some (Inr (nd', rs')) \<Longrightarrow> nd' = nd"
  using plain_Close by (auto simp: wf_destroy_def run_bindR split: if_splits)

lemma plain_Sync:
  assumes "plain f nd" "wf_Sync tx fl f nd rs = Some (Inr ((s, f', nd'), rs'))"
  shows "plain f' nd' \<and> content nd' = content nd
    \<and> (s = Success \<and> pending_sync f \<and> \<not> never_fsync fl \<longrightarrow> durable nd' = content nd)"
  using wf_Sync_result [OF assms(2)] assms(1) by (auto simp: plain_def wf_ok_def fsync_def)

text \<open>What a run leaves of the answers is an end of them.\<close>

definition consumes :: "'a run \<Rightarrow> bool" where
  "consumes m \<longleftrightarrow> (\<forall>rs x rs'. m rs = Some (Inr (x, rs')) \<longrightarrow> (\<exists>used. rs = used @ rs'))"

lemma RETRY_consumes: "RETRY_ON_EINTR rs = Some (r, rs') \<Longrightarrow> \<exists>used. rs = used @ rs'"
  by (induction rs rule: RETRY_ON_EINTR.induct) (auto split: if_splits intro: exI [of _ "_ # _"])

lemma call_once_eq: "call_once rs = Some (r, rs') \<longleftrightarrow> rs = r # rs'"
  by (cases rs) auto

lemma consumes_base: "consumes (returnR x)" "consumes (liftR v)" "consumes (askR call_once)" "consumes (askR RETRY_ON_EINTR)"
  by (auto simp: consumes_def call_once_eq intro: RETRY_consumes)

lemma consumes_bind: "consumes m \<Longrightarrow> (\<And>x. consumes (k x)) \<Longrightarrow> consumes (bindR m k)"
  unfolding consumes_def run_bindR by (metis append_assoc)

lemmas consumes_intros = consumes_base consumes_bind

lemma consumes_DoWritev: "consumes (DoWritev tx fl dv i n f nd)"
  by (auto simp: DoWritev_def Let_def intro!: consumes_intros split: reply.splits)

lemma consumes_append_loop: "consumes (append_loop tx fl dv i s f nd)"
proof (induction tx fl dv i s f nd rule: append_loop.induct)
  case (1 tx fl dv i s f nd)
  then show ?case
    by (subst append_loop.simps) (auto intro!: consumes_intros consumes_DoWritev)
qed

lemma consumes_Append: "consumes (Append tx fl bs f nd)"
  by (auto simp: Append_def AppendVector_def intro!: consumes_intros consumes_append_loop)

lemma consumes_Sync: "consumes (wf_Sync tx fl f nd)"
  by (auto simp: wf_Sync_def DoSync_def intro!: consumes_intros split: reply.splits)

lemma consumes_Close: "consumes (wf_Close tx fl f nd)"
  by (auto simp: wf_Close_def close_truncate_def close_sync_def intro!: consumes_intros consumes_Sync split: reply.splits)

lemma consumes_destroy: "consumes (wf_destroy tx fl f nd)"
  by (auto simp: wf_destroy_def intro!: consumes_intros consumes_Close)

lemma default_open_answer:
  assumes "DoOpen tx fl nm CREATE_IF_NON_EXISTING_TRUNCATE fs rs = Some (Inr ((s, no, fs'), rs'))"
  shows "if no = None then \<exists>e. rs = Err e # rs' else \<exists>n. rs = Done n # rs'"
proof -
  obtain fs1 where "sys_open fs nm (mode_flags CREATE_IF_NON_EXISTING_TRUNCATE) = Inr fs1"
    by (cases "fs nm") (auto simp: sys_open_def mode_flags_def)
  then show ?thesis
    using assms by (auto simp: DoOpen_def run_bindR call_once_eq)
qed

lemma open_default:
  assumes "NewWritableFile tx fl default_options nm fs rs = Some (Inr ((s, fo, fs'), rs'))"
  shows "(\<exists>e. rs = Err e # rs') \<and> fo = None \<and> s \<noteq> Success \<and> fs' = fs
    \<or> (\<exists>n. rs = Done n # rs') \<and> s = Success \<and> (\<exists>n d. fo = Some (PosixWritableFile nm n 0 False) \<and> fs' = fs(nm \<mapsto> \<lparr>content = [], durable = d\<rparr>))"
proof -
  obtain s1 no fs1 rs1 where op: "DoOpen tx fl nm CREATE_IF_NON_EXISTING_TRUNCATE fs rs = Some (Inr ((s1, no, fs1), rs1))"
    and rest: "(case no of None \<Rightarrow> returnR (s1, None, fs1)
       | Some n \<Rightarrow> bindR (InstantiateNewWritableFile tx fl nm n default_options fs1) (\<lambda>(s, f). returnR (s, f, fs1))) rs1
      = Some (Inr ((s, fo, fs'), rs'))"
    using assms
    by (auto simp: NewWritableFile_def run_bindR default_options_def [THEN arg_cong [of _ _ opt_mode]])
  show ?thesis
  proof (cases no)
    case None
    then show ?thesis using DoOpen_result [OF op] default_open_answer [OF op] rest by auto
  next
    case (Some n)
    then have fs1: "sys_open fs nm (mode_flags CREATE_IF_NON_EXISTING_TRUNCATE) = Inr fs1"
      using DoOpen_result [OF op] by auto
    then have "\<exists>d. fs1 = fs(nm \<mapsto> \<lparr>content = [], durable = d\<rparr>)"
    proof (cases "fs nm")
      case None
      then show ?thesis using fs1 by (auto simp: sys_open_def mode_flags_def empty_file_def)
    next
      case (Some nd)
      then show ?thesis using fs1 by (cases nd) (auto simp: sys_open_def mode_flags_def)
    qed
    then show ?thesis
      using rest default_open_answer [OF op]
      by (auto simp: Some InstantiateNewWritableFile_def default_options_def run_bindR)
  qed
qed

lemma DeleteFile_result:
  assumes "DeleteFile tx fl nm fs rs = Some (Inr ((s, fs'), rs'))" "fs nm \<noteq> None"
  shows "\<exists>r. rs = r # rs' \<and> fs' = (case r of Done _ \<Rightarrow> fs(nm := None) | Err _ \<Rightarrow> fs)"
  using assms by (auto simp: DeleteFile_def run_bindR call_once_eq)

text \<open>
  The outcome for any answers.  When the first one, to \<^verbatim>\<open>open\<close>, is an error, the files are as they
  were; when a later call fails, the last one asked for is \<^verbatim>\<open>unlink\<close>, and its answer decides.
\<close>

lemma write_result:
  assumes "DoWriteStringToFile tx fl bs nm sync fs rs = Some (Inr ((s, fs'), rs'))"
  shows "if s = Success
    then \<exists>d. fs' = fs(nm \<mapsto> \<lparr>content = bs, durable = d\<rparr>) \<and> (sync \<and> \<not> never_fsync fl \<longrightarrow> d = bs)
    else (\<exists>e. rs = Err e # rs' \<and> fs' = fs)
      \<or> (\<exists>n used r k d. rs = Done n # used @ r # rs'
          \<and> fs' = (case r of Done _ \<Rightarrow> fs(nm := None)
              | Err _ \<Rightarrow> fs(nm \<mapsto> \<lparr>content = take k bs, durable = d\<rparr>)))"
proof -
  obtain s0 fo fs0 rs0 where new: "NewWritableFile tx fl default_options nm fs rs = Some (Inr ((s0, fo, fs0), rs0))"
    and rest: "(case (fo, fs0 nm) of (Some f, Some nd) \<Rightarrow>
         bindR (Append tx fl bs f nd) (\<lambda>(s, f, nd).
         bindR (if s = Success \<and> sync then wf_Sync tx fl f nd else returnR (s, f, nd)) (\<lambda>(s, f, nd).
         bindR (if s = Success then wf_Close tx fl f nd else returnR (s, f, nd)) (\<lambda>(s, f, nd).
         bindR (wf_destroy tx fl f nd) (\<lambda>nd.
         let fs = fs0(nm \<mapsto> nd) in
         if s \<noteq> Success then bindR (DeleteFile tx fl nm fs) (\<lambda>(_, fs). returnR (s, fs))
         else returnR (s, fs)))))
       | _ \<Rightarrow> returnR (s0, fs0)) rs0 = Some (Inr ((s, fs'), rs'))"
    using assms by (auto simp: DoWriteStringToFile_def run_bindR)
  from open_default [OF new] show ?thesis
  proof (elim disjE conjE exE)
    fix e
    assume "fo = None" "s0 \<noteq> Success" "fs0 = fs" "rs = Err e # rs0"
    then show ?thesis using rest by simp
  next
    fix m n d
    assume fo: "fo = Some (PosixWritableFile nm n 0 False)" and fs0: "fs0 = fs(nm \<mapsto> \<lparr>content = [], durable = d\<rparr>)"
      and m: "rs = Done m # rs0"
    let ?f = "PosixWritableFile nm n 0 False" and ?nd = "\<lparr>content = [], durable = d\<rparr>"
    obtain s1 f1 nd1 rs1 s2 f2 nd2 rs2 s3 f3 nd3 rs3 nd4 rs4 where
      ap: "Append tx fl bs ?f ?nd rs0 = Some (Inr ((s1, f1, nd1), rs1))"
      and sy: "(if s1 = Success \<and> sync then wf_Sync tx fl f1 nd1 else returnR (s1, f1, nd1)) rs1
        = Some (Inr ((s2, f2, nd2), rs2))"
      and cl: "(if s2 = Success then wf_Close tx fl f2 nd2 else returnR (s2, f2, nd2)) rs2
        = Some (Inr ((s3, f3, nd3), rs3))"
      and de: "wf_destroy tx fl f3 nd3 rs3 = Some (Inr (nd4, rs4))"
      and en: "(let fs = fs0(nm \<mapsto> nd4) in
         if s3 \<noteq> Success then bindR (DeleteFile tx fl nm fs) (\<lambda>(_, fs). returnR (s3, fs))
         else returnR (s3, fs)) rs4 = Some (Inr ((s, fs'), rs'))"
      using rest by (simp add: fo fs0 run_bindR) (auto simp: fs0)
    have "consumes (if s1 = Success \<and> sync then wf_Sync tx fl f1 nd1 else returnR (s1, f1, nd1))"
      "consumes (if s2 = Success then wf_Close tx fl f2 nd2 else returnR (s2, f2, nd2))"
      by (auto intro: consumes_intros consumes_Sync consumes_Close)
    with ap sy cl de consumes_Append consumes_destroy obtain u0 u1 u2 u3
      where u: "rs0 = u0 @ rs1" "rs1 = u1 @ rs2" "rs2 = u2 @ rs3" "rs3 = u3 @ rs4"
      unfolding consumes_def by meson
    have p0: "plain ?f ?nd" by (simp add: plain_def wf_ok_def PosixWritableFile_def)
    obtain k where p1: "plain f1 nd1" and c1: "content nd1 = take k bs" and k: "s1 = Success \<longrightarrow> take k bs = bs"
      and pend: "pending_sync f1"
      by (rule plain_Append [OF p0 ap]) simp
    have 2: "plain f2 nd2" "content nd2 = take k bs"
      "s2 = Success \<longrightarrow> s1 = Success \<and> (sync \<and> \<not> never_fsync fl \<longrightarrow> durable nd2 = take k bs)"
      using sy p1 c1 pend plain_Sync [OF p1, of tx fl rs1 s2 f2 nd2 rs2] by (auto split: if_splits)
    have 3: "nd3 = nd2" "s3 = Success \<longrightarrow> s2 = Success" "plain f3 nd3"
      using cl 2(1) plain_Close [OF 2(1), of tx fl rs2 s3 f3 nd3 rs3]
      by (auto simp: plain_def wf_ok_def split: if_splits)
    have 4: "nd4 = nd3" by (rule plain_destroy [OF 3(3) de])
    have nd4: "nd4 = \<lparr>content = take k bs, durable = durable nd2\<rparr>" using 4 3(1) 2(2) by (cases nd2) simp
    have up: "fs0(nm \<mapsto> nd4) = fs(nm \<mapsto> nd4)" "fs0(nm := None) = fs(nm := None)" by (simp_all add: fs0)
    show ?thesis
    proof (cases "s3 = Success")
      case True
      then have "s = Success" "fs' = fs(nm \<mapsto> nd4)" using en up by (simp_all add: Let_def)
      then show ?thesis using True 2(3) 3(2) k nd4 by auto
    next
      case False
      then have "s = s3" and "\<exists>sd. DeleteFile tx fl nm (fs(nm \<mapsto> nd4)) rs4 = Some (Inr ((sd, fs'), rs'))"
        using en by (auto simp: Let_def run_bindR up(1))
      then obtain r where s: "s \<noteq> Success" and r: "rs4 = r # rs'"
        "fs' = (case r of Done _ \<Rightarrow> fs(nm := None) | Err _ \<Rightarrow> fs(nm \<mapsto> nd4))"
        using False DeleteFile_result by fastforce
      have "rs = Done m # (u0 @ u1 @ u2 @ u3) @ r # rs'" using m u r(1) by simp
      then show ?thesis using s r(2) unfolding nd4 by auto
    qed
  qed
qed

lemma write_completes:
  "\<exists>fs'. DoWriteStringToFile tx fl bs nm sync fs
      ([Done 3, Done (length bs)] @ (if sync \<and> \<not> never_fsync fl then [Done 0] else []) @ [Done 0])
      = Some (Inr ((Success, fs'), []))"
proof -
  have "\<exists>nd. sys_open fs nm \<lparr>O_CREAT = True, O_TRUNC = True, O_EXCL = False\<rparr> = Inr (fs(nm \<mapsto> nd))"
    by (auto simp: sys_open_def split: option.splits)
  then show ?thesis
    by (auto simp: DoWriteStringToFile_def NewWritableFile_def default_options_def DoOpen_def mode_flags_def
        InstantiateNewWritableFile_def PosixWritableFile_def Append_def AppendVector_def append_loop.simps
        DoWritev_def IOV_MAX_def wf_Sync_def DoSync_def wf_Close_def close_truncate_def close_sync_def
        wf_destroy_def run_defs Let_def EINTR_def)
qed

text \<open>
  C24: writing a string to a file leaves exactly that string in it when it succeeds, and durably
  so for the synchronising variant.  When it fails, either the file could not be opened and no
  file is touched, or the last thing done is the deletion of the file: it is gone when the
  system does that, and holds a prefix of the string only when the system refuses.  No other
  file is touched.  When every call is answered with success, so is the write.
\<close>

theorem write_string_atomic:
  "(\<forall>rs s fs' rs'. DoWriteStringToFile tx fl bs nm sync fs rs = Some (Inr ((s, fs'), rs')) \<longrightarrow>
      (if s = Success
       then \<exists>d. fs' = fs(nm \<mapsto> \<lparr>content = bs, durable = d\<rparr>) \<and> (sync \<and> \<not> never_fsync fl \<longrightarrow> d = bs)
       else (\<exists>e. rs = Err e # rs' \<and> fs' = fs)
         \<or> (\<exists>n used r k d. rs = Done n # used @ r # rs'
             \<and> fs' = (case r of Done _ \<Rightarrow> fs(nm := None)
                 | Err _ \<Rightarrow> fs(nm \<mapsto> \<lparr>content = take k bs, durable = d\<rparr>)))))
   \<and> (\<exists>fs'. DoWriteStringToFile tx fl bs nm sync fs
        ([Done 3, Done (length bs)] @ (if sync \<and> \<not> never_fsync fl then [Done 0] else []) @ [Done 0])
        = Some (Inr ((Success, fs'), [])))"
  using write_result [of tx fl bs nm sync fs] write_completes [of tx fl bs nm sync fs] by blast

text \<open>
  C25: what has been written to a file is what is read back from it.
\<close>

theorem write_read_roundtrip:
  assumes "WriteStringToFile tx fl bs nm fs rs = Some (Inr ((Success, fs'), rs'))"
    and "ReadFileToString tx fl nm fs' rs2 = Some (Inr ((Success, res), rs3))"
  shows "res = bs"
proof -
  obtain d where "fs' = fs(nm \<mapsto> \<lparr>content = bs, durable = d\<rparr>)"
    using write_result [OF assms(1) [unfolded WriteStringToFile_def]] by auto
  then show ?thesis
    using assms(2) by (auto simp: ReadFileToString_def NewSequentialFile_def run_bindR dest!: read_fragments_success)
qed

lemma write_two:
  "DoWriteStringToFile no_texts test_flags [1, 2] [5] True Map.empty [Done 3, Err EINTR, Done 2, Done 0, Done 0]
     = Some (Inr ((Success, [[5] \<mapsto> \<lparr>content = [1, 2], durable = [1, 2]\<rparr>]), []))"
  "WriteStringToFile no_texts test_flags [1, 2] [5] Map.empty [Done 3, Err EINTR, Done 2, Done 0]
     = Some (Inr ((Success, [[5] \<mapsto> \<lparr>content = [1, 2], durable = []\<rparr>]), []))"
  by (simp_all add: WriteStringToFile_def DoWriteStringToFile_def NewWritableFile_def default_options_def DoOpen_def
      sys_open_def mode_flags_def InstantiateNewWritableFile_def PosixWritableFile_def Append_def AppendVector_def
      append_loop.simps DoWritev_def IOV_MAX_def write_at_def resize_def wf_Sync_def DoSync_def fsync_def wf_Close_def
      close_truncate_def close_sync_def wf_destroy_def run_defs Let_def empty_file_def test_flags_def EINTR_def)

lemma read_two:
  "ReadFileToString no_texts test_flags [5] [[5] \<mapsto> \<lparr>content = [1, 2], durable = []\<rparr>] [Done 0, Done 9, Done 9]
     = Some (Inr ((Success, [1, 2]), []))"
  by (simp add: ReadFileToString_def NewSequentialFile_def read_fragments.simps sf_Read_def fread_def kBufferSize_def
      run_defs Let_def)

theorem read_file_exact_witness:
  "\<exists>rs'. ReadFileToString no_texts test_flags [5] [[5] \<mapsto> \<lparr>content = [1, 2], durable = []\<rparr>]
     (Done 0 # replicate 3 (Done kBufferSize)) = Some (Inr ((Success, [1, 2]), rs'))"
  using conjunct2 [OF read_file_exact [of "[[5] \<mapsto> \<lparr>content = [1, 2], durable = []\<rparr>]" "[5]" "\<lparr>content = [1, 2], durable = []\<rparr>"
      no_texts test_flags]]
  by (simp add: numeral_eq_Suc)

lemma write_fails:
  "\<exists>s. s \<noteq> Success \<and> DoWriteStringToFile no_texts test_flags [1, 2] [5] True Map.empty [Done 3, Done 1, Done 0, Done 0]
     = Some (Inr ((s, Map.empty), []))"
  by (simp add: DoWriteStringToFile_def NewWritableFile_def default_options_def DoOpen_def
      sys_open_def mode_flags_def InstantiateNewWritableFile_def PosixWritableFile_def Append_def AppendVector_def
      append_loop.simps DoWritev_def IOV_MAX_def short_write_def wf_Close_def DeleteFile_def
      close_truncate_def close_sync_def wf_destroy_def run_defs Let_def empty_file_def EINTR_def)

theorem write_string_atomic_witness:
  "(\<exists>s. s \<noteq> Success \<and> DoWriteStringToFile no_texts test_flags [1, 2] [5] True Map.empty [Done 3, Done 1, Done 0, Done 0]
     = Some (Inr ((s, Map.empty), [])))
   \<and> (\<exists>d. [[5] \<mapsto> \<lparr>content = [1, 2], durable = [1, 2]\<rparr>] = Map.empty([5 :: byte] \<mapsto> \<lparr>content = [1, 2], durable = d\<rparr>) \<and> d = [1, 2])"
  using write_fails conjunct1 [OF write_string_atomic, rule_format, OF write_two(1)]
  by (simp only: refl if_True) (simp add: test_flags_def)

theorem write_read_roundtrip_witness:
  "WriteStringToFile no_texts test_flags [1, 2] [5] Map.empty [Done 3, Err EINTR, Done 2, Done 0]
     = Some (Inr ((Success, [[5] \<mapsto> \<lparr>content = [1, 2], durable = []\<rparr>]), []))
   \<and> ReadFileToString no_texts test_flags [5] [[5] \<mapsto> \<lparr>content = [1, 2], durable = []\<rparr>] [Done 0, Done 9, Done 9]
     = Some (Inr ((Success, [1, 2]), [])) \<and> [1, 2] = [1 :: byte, 2]"
  by (intro conjI write_two(2) read_two write_read_roundtrip [OF write_two(2) read_two])

end
