(* ===== verification/ParseInts.thy ===== *)
theory ParseInts
  imports AsciiCtype
begin

text \<open>
  The integer parser of \<^verbatim>\<open>gbase/strings/numbers.cc\<close>, \<^verbatim>\<open>safe_int_internal\<close>, which the
  \<^verbatim>\<open>safe_strto32\<close> and \<^verbatim>\<open>safe_strto64\<close> overloads on a counted buffer instantiate.  The text
  between \<^verbatim>\<open>start\<close> and \<^verbatim>\<open>end\<close> is the list of its bytes; a signed operation whose result does
  not fit the type and a failed \<^verbatim>\<open>assert\<close> are errors of the model, told apart from
  \<^verbatim>\<open>return false\<close>.  \<open>int_literal\<close> is the grammar the parser is checked against.
\<close>

section \<open>The parser\<close>

definition kAsciiToInt :: "int list" where
  "kAsciiToInt = [
    36, 36, 36, 36, 36, 36, 36, 36, 36, 36, 36, 36, 36, 36, 36, 36,
    36, 36, 36, 36, 36, 36, 36, 36, 36, 36, 36, 36, 36, 36, 36, 36,
    36, 36, 36, 36, 36, 36, 36, 36, 36, 36, 36, 36, 36, 36, 36, 36,
    0, 1, 2, 3, 4, 5, 6, 7, 8, 9,
    36, 36, 36, 36, 36, 36, 36,
    10, 11, 12, 13, 14, 15, 16, 17, 18, 19, 20, 21, 22, 23, 24, 25,
    26, 27, 28, 29, 30, 31, 32, 33, 34, 35,
    36, 36, 36, 36, 36, 36,
    10, 11, 12, 13, 14, 15, 16, 17, 18, 19, 20, 21, 22, 23, 24, 25,
    26, 27, 28, 29, 30, 31, 32, 33, 34, 35,
    36, 36, 36, 36, 36,
    36, 36, 36, 36, 36, 36, 36, 36, 36, 36, 36, 36, 36, 36, 36, 36,
    36, 36, 36, 36, 36, 36, 36, 36, 36, 36, 36, 36, 36, 36, 36, 36,
    36, 36, 36, 36, 36, 36, 36, 36, 36, 36, 36, 36, 36, 36, 36, 36,
    36, 36, 36, 36, 36, 36, 36, 36, 36, 36, 36, 36, 36, 36, 36, 36,
    36, 36, 36, 36, 36, 36, 36, 36, 36, 36, 36, 36, 36, 36, 36, 36,
    36, 36, 36, 36, 36, 36, 36, 36, 36, 36, 36, 36, 36, 36, 36, 36,
    36, 36, 36, 36, 36, 36, 36, 36, 36, 36, 36, 36, 36, 36, 36, 36,
    36, 36, 36, 36, 36, 36, 36, 36, 36, 36, 36, 36, 36, 36, 36, 36]"

datatype stop = ReturnFalse | SignedOverflow | AssertFailed

text \<open>\<^verbatim>\<open>IntType\<close>: the limits \<^verbatim>\<open>std::numeric_limits<IntType>\<close> gives.\<close>

record int_type =
  vmin :: int
  vmax :: int

definition int32 :: int_type where "int32 = \<lparr>vmin = - (2 ^ 31), vmax = 2 ^ 31 - 1\<rparr>"
definition int64 :: int_type where "int64 = \<lparr>vmin = - (2 ^ 63), vmax = 2 ^ 63 - 1\<rparr>"

definition fits :: "int_type \<Rightarrow> int \<Rightarrow> stop + int" where
  "fits t x = (if vmin t \<le> x \<and> x \<le> vmax t then Inr x else Inl SignedOverflow)"

fun positive_digits :: "int_type \<Rightarrow> int \<Rightarrow> int \<Rightarrow> int \<Rightarrow> bytes \<Rightarrow> stop + int" where
  "positive_digits t base vmax_over_base v [] = Inr v"
| "positive_digits t base vmax_over_base v (c # cs) = (
     let digit = kAsciiToInt ! unat c in
     if v > vmax_over_base then Inl ReturnFalse
     else bindE (fits t (v * base)) (\<lambda>v.
       if digit \<ge> base then Inl ReturnFalse
       else if v > vmax t - digit then Inl ReturnFalse
       else bindE (fits t (v + digit)) (\<lambda>v. positive_digits t base vmax_over_base v cs)))"

fun negative_digits :: "int_type \<Rightarrow> int \<Rightarrow> int \<Rightarrow> int \<Rightarrow> bytes \<Rightarrow> stop + int" where
  "negative_digits t base vmin_over_base v [] = Inr v"
| "negative_digits t base vmin_over_base v (c # cs) = (
     let digit = kAsciiToInt ! unat c in
     if v < vmin_over_base then Inl ReturnFalse
     else bindE (fits t (v * base)) (\<lambda>v.
       if digit \<ge> base then Inl ReturnFalse
       else if v < vmin t + digit then Inl ReturnFalse
       else bindE (fits t (v - digit)) (\<lambda>v. negative_digits t base vmin_over_base v cs)))"

definition digits_value :: "int_type \<Rightarrow> bool \<Rightarrow> int \<Rightarrow> bytes \<Rightarrow> stop + int" where
  "digits_value t negative base cs =
    (if \<not> negative then
       bindE (assertE AssertFailed (vmax t > 0)) (\<lambda>_.
       bindE (assertE AssertFailed (vmax t \<ge> base)) (\<lambda>_.
         positive_digits t base (c_div (vmax t) base) 0 cs))
     else
       bindE (assertE AssertFailed (vmin t < 0)) (\<lambda>_.
       bindE (assertE AssertFailed (vmin t \<le> 0 - base)) (\<lambda>_.
         let vmin_over_base = c_div (vmin t) base in
         let vmin_over_base = (if c_mod (vmin t) base > 0 then vmin_over_base + 1 else vmin_over_base) in
         negative_digits t base vmin_over_base 0 cs)))"

definition has_0x :: "bytes \<Rightarrow> bool" where
  "has_0x s \<longleftrightarrow> length s \<ge> 2 \<and> s ! 0 = 48 \<and> (s ! 1 = 120 \<or> s ! 1 = 88)"

text \<open>The base-dependent prefix; \<open>None\<close> is an invalid base.\<close>

definition strip_prefix :: "int \<Rightarrow> bytes \<Rightarrow> (int \<times> bytes) option" where
  "strip_prefix base s =
    (if base = 0 then
       (if has_0x s then Some (16, drop 2 s)
        else if length s \<ge> 1 \<and> s ! 0 = 48 then Some (8, drop 1 s)
        else Some (10, s))
     else if base = 16 then Some (16, if has_0x s then drop 2 s else s)
     else if base \<ge> 2 \<and> base \<le> 36 then Some (base, s)
     else None)"

definition trim :: "bytes \<Rightarrow> bytes" where
  "trim s = rev (dropWhile ascii_isspace (rev (dropWhile ascii_isspace s)))"

definition safe_int_internal :: "int_type \<Rightarrow> bytes \<Rightarrow> int \<Rightarrow> stop + int" where
  "safe_int_internal t text base =
    (let s = trim text in
     if s = [] then Inl ReturnFalse
     else
       let negative = (s ! 0 = 45); signed = negative \<or> s ! 0 = 43; s' = (if signed then drop 1 s else s) in
       if signed \<and> s' = [] then Inl ReturnFalse
       else case strip_prefix base s' of
              None \<Rightarrow> Inl ReturnFalse
            | Some (base, s) \<Rightarrow> digits_value t negative base s)"

definition safe_strto32_base :: "bytes \<Rightarrow> int \<Rightarrow> stop + int" where
  "safe_strto32_base text base = safe_int_internal int32 text base"

definition safe_strto64_base :: "bytes \<Rightarrow> int \<Rightarrow> stop + int" where
  "safe_strto64_base text base = safe_int_internal int64 text base"

definition safe_strto32 :: "bytes \<Rightarrow> stop + int" where
  "safe_strto32 text = safe_int_internal int32 text 10"

definition safe_strto64 :: "bytes \<Rightarrow> stop + int" where
  "safe_strto64 text = safe_int_internal int64 text 10"

section \<open>Values of digit strings\<close>

text \<open>The value of a digit, 36 for any other character.\<close>

definition digit_value :: "byte \<Rightarrow> nat" where
  "digit_value c =
    (if ascii_isdigit c then unat c - 48
     else if ascii_isupper c then unat c - 55
     else if ascii_islower c then unat c - 87
     else 36)"

definition radix_value :: "nat \<Rightarrow> nat \<Rightarrow> bytes \<Rightarrow> nat" where
  "radix_value b v cs = foldl (\<lambda>v c. v * b + digit_value c) v cs"

lemma radix_value_simps [simp]:
  "radix_value b v [] = v"
  "radix_value b v (c # cs) = radix_value b (v * b + digit_value c) cs"
  by (simp_all add: radix_value_def)

lemma radix_value_append: "radix_value b v (cs @ ds) = radix_value b (radix_value b v cs) ds"
  by (simp add: radix_value_def)

definition all_digits :: "nat \<Rightarrow> bytes \<Rightarrow> bool" where
  "all_digits b cs \<longleftrightarrow> (\<forall>c\<in>set cs. digit_value c < b)"

lemma all_digits_simps [simp]:
  "all_digits b []"
  "all_digits b (c # cs) \<longleftrightarrow> digit_value c < b \<and> all_digits b cs"
  "all_digits b (cs @ ds) \<longleftrightarrow> all_digits b cs \<and> all_digits b ds"
  by (auto simp: all_digits_def)

lemma kAsciiToInt_table:
  "kAsciiToInt = map (\<lambda>n. int (if 48 \<le> n \<and> n \<le> 57 then n - 48 else if 65 \<le> n \<and> n \<le> 90 then n - 55
      else if 97 \<le> n \<and> n \<le> 122 then n - 87 else 36)) [0..<256]"
  by (simp add: kAsciiToInt_def upt_rec)

lemma kAsciiToInt_digit: "kAsciiToInt ! unat c = int (digit_value c)"
  using unat_byte_lt [of c]
  by (simp add: kAsciiToInt_table digit_value_def ascii_isdigit_def ascii_isupper_def
        ascii_islower_def byte_le_unat)

lemma radix_value_mono: "v \<le> w \<Longrightarrow> radix_value b v cs \<le> radix_value b w cs"
  by (induction cs arbitrary: v w) (auto intro: add_mono mult_le_mono1)

lemma radix_value_ge: "0 < b \<Longrightarrow> v \<le> radix_value b v cs"
proof (induction cs arbitrary: v)
  case (Cons c cs)
  have "v \<le> v * b + digit_value c"
    using Cons.prems by (cases b) auto
  also have "\<dots> \<le> radix_value b (v * b + digit_value c) cs"
    using Cons by blast
  finally show ?case
    by simp
qed simp

section \<open>The digit loops compute the value, or reject\<close>

lemma times_le_iff_le_div:
  assumes "0 < b"
  shows "v * b \<le> (m :: int) \<longleftrightarrow> v \<le> m div b"
proof
  assume "v * b \<le> m"
  then show "v \<le> m div b"
    using assms zdiv_mono1 [of "v * b" m b] by simp
next
  assume "v \<le> m div b"
  then have "v * b \<le> m div b * b"
    using assms by (intro mult_right_mono) simp_all
  also have "\<dots> \<le> m"
    using assms pos_mod_sign [of b m] div_mult_mod_eq [of m b] by linarith
  finally show "v * b \<le> m" .
qed

lemma fits_in: "vmin t \<le> x \<Longrightarrow> x \<le> vmax t \<Longrightarrow> fits t x = Inr x"
  by (simp add: fits_def)

lemma positive_digits_eq:
  assumes b: "2 \<le> b" and t: "vmin t \<le> 0" and v: "int v \<le> vmax t"
  shows "positive_digits t (int b) (vmax t div int b) (int v) cs =
    (if all_digits b cs \<and> int (radix_value b v cs) \<le> vmax t then Inr (int (radix_value b v cs))
     else Inl ReturnFalse)"
  using v
proof (induction cs arbitrary: v)
  case (Cons c cs)
  have ge: "v * b + digit_value c \<le> radix_value b (v * b + digit_value c) cs"
    using b by (intro radix_value_ge) simp
  show ?case
  proof (cases "int (v * b + digit_value c) \<le> vmax t")
    case True
    then have "int v * int b \<le> vmax t"
      by simp
    from this have "int v \<le> vmax t div int b"
      using b by (subst (asm) times_le_iff_le_div) auto
    moreover have m: "vmin t \<le> int v * int b"
      using t by (meson order_trans of_nat_0_le_iff zero_le_mult_iff)
    then have "fits t (int v * int b) = Inr (int v * int b)"
      using \<open>int v * int b \<le> vmax t\<close> by (rule fits_in)
    moreover have "fits t (int v * int b + int (digit_value c)) = Inr (int v * int b + int (digit_value c))"
      using m True by (intro fits_in) simp_all
    moreover note Cons.IH [of "v * b + digit_value c"]
    ultimately show ?thesis
      using True by (simp add: kAsciiToInt_digit Let_def)
  next
    case False
    with ge have "\<not> int (radix_value b (v * b + digit_value c) cs) \<le> vmax t"
      by linarith
    then have rhs: "(if all_digits b (c # cs) \<and> int (radix_value b v (c # cs)) \<le> vmax t
        then Inr (int (radix_value b v (c # cs))) else Inl ReturnFalse) = (Inl ReturnFalse :: stop + int)"
      by simp
    show ?thesis
    proof (cases "int v > vmax t div int b")
      case out: False
      then have "int v * int b \<le> vmax t"
        using b by (subst times_le_iff_le_div) auto
      moreover have "vmin t \<le> int v * int b"
        using t by (meson order_trans of_nat_0_le_iff zero_le_mult_iff)
      ultimately have "fits t (int v * int b) = Inr (int v * int b)"
        by (intro fits_in)
      with False out show ?thesis
        unfolding rhs by (simp add: kAsciiToInt_digit Let_def)
    qed (simp only: rhs positive_digits.simps Let_def if_True)
  qed
qed simp

lemma negative_digits_eq:
  assumes b: "2 \<le> b" and t: "0 \<le> vmax t" and v: "int v \<le> - vmin t"
  shows "negative_digits t (int b) (- ((- vmin t) div int b)) (- int v) cs =
    (if all_digits b cs \<and> int (radix_value b v cs) \<le> - vmin t then Inr (- int (radix_value b v cs))
     else Inl ReturnFalse)"
  using v
proof (induction cs arbitrary: v)
  case (Cons c cs)
  have ge: "v * b + digit_value c \<le> radix_value b (v * b + digit_value c) cs"
    using b by (intro radix_value_ge) simp
  show ?case
  proof (cases "int (v * b + digit_value c) \<le> - vmin t")
    case True
    then have "int v * int b \<le> - vmin t"
      by simp
    from this have "int v \<le> (- vmin t) div int b"
      using b by (subst (asm) times_le_iff_le_div) auto
    moreover have m: "- (int v * int b) \<le> vmax t"
      using t by (meson neg_le_0_iff_le order_trans of_nat_0_le_iff zero_le_mult_iff)
    then have "fits t (- (int v * int b)) = Inr (- (int v * int b))"
      using \<open>int v * int b \<le> - vmin t\<close> by (intro fits_in) simp_all
    moreover have "fits t (- (int v * int b) - int (digit_value c)) = Inr (- (int v * int b) - int (digit_value c))"
      using m True by (intro fits_in) simp_all
    moreover note Cons.IH [of "v * b + digit_value c"]
    ultimately show ?thesis
      using True by (simp add: kAsciiToInt_digit Let_def)
  next
    case False
    with ge have "\<not> int (radix_value b (v * b + digit_value c) cs) \<le> - vmin t"
      by linarith
    then have rhs: "(if all_digits b (c # cs) \<and> int (radix_value b v (c # cs)) \<le> - vmin t
        then Inr (- int (radix_value b v (c # cs))) else Inl ReturnFalse) = (Inl ReturnFalse :: stop + int)"
      by simp
    show ?thesis
    proof (cases "- int v < - ((- vmin t) div int b)")
      case out: False
      then have "int v * int b \<le> - vmin t"
        using b by (subst times_le_iff_le_div) auto
      moreover have "- (int v * int b) \<le> vmax t"
        using t by (meson neg_le_0_iff_le order_trans of_nat_0_le_iff zero_le_mult_iff)
      ultimately have "fits t (- (int v * int b)) = Inr (- (int v * int b))"
        by (intro fits_in) simp_all
      with False out show ?thesis
        unfolding rhs by (simp add: kAsciiToInt_digit Let_def)
    qed (simp only: rhs negative_digits.simps Let_def if_True)
  qed
qed simp

definition wide :: "int_type \<Rightarrow> bool" where
  "wide t \<longleftrightarrow> vmin t \<le> -36 \<and> 36 \<le> vmax t"

lemma wide_types [simp]: "wide int32" "wide int64"
  by (simp_all add: wide_def int32_def int64_def)

definition signed_value :: "bool \<Rightarrow> nat \<Rightarrow> int" where
  "signed_value negative n = (if negative then - int n else int n)"

lemma digits_value_eq:
  assumes b: "2 \<le> b" "b \<le> 36" and t: "wide t"
  shows "digits_value t negative (int b) ds =
    (let v = signed_value negative (radix_value b 0 ds) in
     if all_digits b ds \<and> vmin t \<le> v \<and> v \<le> vmax t then Inr v else Inl ReturnFalse)"
proof (cases negative)
  case False
  have "c_div (vmax t) (int b) = vmax t div int b"
    using b t by (intro c_div_nonneg) (auto simp: wide_def)
  moreover have "vmin t \<le> int (radix_value b 0 ds)"
    using t unfolding wide_def by linarith
  ultimately show ?thesis
    using False b t positive_digits_eq [of b t 0 ds]
    by (simp add: digits_value_def wide_def signed_value_def Let_def)
next
  case True
  have "c_div (vmin t) (int b) = - ((- vmin t) div int b)"
    using b t by (intro c_div_neg) (auto simp: wide_def)
  moreover have "\<not> c_mod (vmin t) (int b) > 0"
    using b t by (subst c_mod_neg) (auto simp: wide_def not_less)
  moreover have "- int (radix_value b 0 ds) \<le> vmax t"
    using t unfolding wide_def by linarith
  moreover have "int (radix_value b 0 ds) \<le> - vmin t \<longleftrightarrow> vmin t \<le> - int (radix_value b 0 ds)"
    by linarith
  ultimately show ?thesis
    using True b t negative_digits_eq [of b t 0 ds]
    by (simp add: digits_value_def wide_def signed_value_def Let_def)
qed

lemma strip_prefix_base: "strip_prefix base s = Some (b, ds) \<Longrightarrow> \<exists>n. b = int n \<and> 2 \<le> n \<and> n \<le> 36"
  by (intro exI [of _ "nat b"]) (auto simp: strip_prefix_def split: if_splits)

section \<open>The grammar of the accepted texts\<close>

definition spaces :: "bytes \<Rightarrow> bool" where
  "spaces ws \<longleftrightarrow> (\<forall>c\<in>set ws. ascii_isspace c)"

lemma spaces_simps [simp]: "spaces []" "spaces (c # ws) \<longleftrightarrow> ascii_isspace c \<and> spaces ws"
  by (simp_all add: spaces_def)

lemma trim_decomp: "\<exists>ws ws'. text = ws @ trim text @ ws' \<and> spaces ws \<and> spaces ws'"
proof -
  let ?s = "dropWhile ascii_isspace text"
  let ?r = "takeWhile ascii_isspace (rev ?s)"
  have "rev (dropWhile ascii_isspace (rev ?s)) @ rev ?r = ?s"
    by (metis rev_append rev_rev_ident takeWhile_dropWhile_id)
  then have "text = takeWhile ascii_isspace text @ trim text @ rev ?r"
    by (simp add: trim_def)
  moreover have "spaces (takeWhile ascii_isspace text)" "spaces (rev ?r)"
    by (auto simp: spaces_def dest: set_takeWhileD)
  ultimately show ?thesis
    by blast
qed

lemma dropWhile_spaces: "spaces ws \<Longrightarrow> xs \<noteq> [] \<Longrightarrow> \<not> ascii_isspace (hd xs) \<Longrightarrow>
    dropWhile ascii_isspace (ws @ xs) = xs"
  by (induction ws) (auto simp: neq_Nil_conv)

lemma trim_core:
  assumes "spaces ws" "spaces ws'" "core \<noteq> []" "\<not> ascii_isspace (hd core)" "\<not> ascii_isspace (last core)"
  shows "trim (ws @ core @ ws') = core"
proof -
  have "dropWhile ascii_isspace (ws @ core @ ws') = core @ ws'"
    using assms by (intro dropWhile_spaces) (simp_all add: hd_append)
  moreover have "dropWhile ascii_isspace (rev ws' @ rev core) = rev core"
    using assms by (intro dropWhile_spaces) (simp_all add: hd_rev spaces_def)
  ultimately show ?thesis
    by (simp add: trim_def)
qed

text \<open>The sign and what follows it.\<close>

definition sign_of :: "bytes \<Rightarrow> bytes" where
  "sign_of s = (if s \<noteq> [] \<and> (hd s = 45 \<or> hd s = 43) then [hd s] else [])"

lemma sign_cases: "sign_of s \<in> {[], [43], [45]}"
  by (auto simp: sign_of_def)

lemma safe_int_internal_sign:
  "safe_int_internal t text base =
    (let s = trim text; body = drop (length (sign_of s)) s in
     if body = [] then Inl ReturnFalse
     else case strip_prefix base body of None \<Rightarrow> Inl ReturnFalse
          | Some (b, ds) \<Rightarrow> digits_value t (sign_of s = [45]) b ds)"
  by (cases "trim text") (auto simp: safe_int_internal_def sign_of_def Let_def split: option.splits prod.splits)

lemma safe_int_internal_outcome:
  assumes "wide t"
  shows "safe_int_internal t text base = Inl ReturnFalse \<or> (\<exists>v. safe_int_internal t text base = Inr v)"
proof (cases "strip_prefix base (drop (length (sign_of (trim text))) (trim text))")
  case (Some p)
  obtain b ds where p: "p = (b, ds)"
    by (cases p)
  from strip_prefix_base [OF Some [unfolded p]] obtain n where "b = int n" "2 \<le> n" "n \<le> 36"
    by blast
  with assms show ?thesis
    using digits_value_eq [of n t "sign_of (trim text) = [45]" ds]
    unfolding safe_int_internal_sign Let_def Some p by simp
qed (simp add: safe_int_internal_sign Let_def)

lemma decimal_digits: "all_digits 10 ds \<longleftrightarrow> (\<forall>c\<in>set ds. ascii_isdigit c)"
proof -
  have "digit_value c < 10 \<longleftrightarrow> ascii_isdigit c" for c
    using unat_byte_lt [of c]
    by (auto simp: digit_value_def ascii_isdigit_def ascii_isupper_def ascii_islower_def byte_le_unat)
  then show ?thesis
    by (simp add: all_digits_def)
qed

lemma decimal_literal_iff:
  assumes t: "wide t"
  shows "safe_int_internal t text 10 = Inr v \<longleftrightarrow>
    (\<exists>ws sign ds ws'. text = ws @ sign @ ds @ ws' \<and> spaces ws \<and> spaces ws'
       \<and> sign \<in> {[], [43], [45]} \<and> ds \<noteq> [] \<and> (\<forall>c\<in>set ds. ascii_isdigit c)
       \<and> v = signed_value (sign = [45]) (radix_value 10 0 ds) \<and> vmin t \<le> v \<and> v \<le> vmax t)"
    (is "_ \<longleftrightarrow> (\<exists>ws sign ds ws'. ?lit ws sign ds ws')")
proof
  define s where "s = trim text"
  define ds where "ds = drop (length (sign_of s)) s"
  assume "safe_int_internal t text 10 = Inr v"
  then have "ds \<noteq> []" and dv: "digits_value t (sign_of s = [45]) (int 10) ds = Inr v"
    by (auto simp: safe_int_internal_sign Let_def strip_prefix_def s_def ds_def split: if_splits)
  moreover have "s = sign_of s @ ds"
    by (cases s) (auto simp: ds_def sign_of_def)
  moreover obtain ws ws' where "text = ws @ s @ ws'" "spaces ws" "spaces ws'"
    using trim_decomp [of "text"] s_def by blast
  moreover from dv t have "all_digits 10 ds \<and> v = signed_value (sign_of s = [45]) (radix_value 10 0 ds)
      \<and> vmin t \<le> v \<and> v \<le> vmax t"
    by (subst (asm) digits_value_eq) (auto simp: Let_def split: if_splits)
  ultimately have "?lit ws (sign_of s) ds ws'"
    using sign_cases [of s] by (metis append_assoc decimal_digits)
  then show "\<exists>ws sign ds ws'. ?lit ws sign ds ws'"
    by blast
next
  assume "\<exists>ws sign ds ws'. ?lit ws sign ds ws'"
  then obtain ws sign ds ws' where l: "?lit ws sign ds ws'"
    by blast
  have nosp: "\<not> ascii_isspace c" "c \<noteq> 43" "c \<noteq> 45" if "ascii_isdigit c" for c
    using that by (auto simp: ascii_isspace_iff ascii_isdigit_def byte_le_unat word_unat_eq_iff)
  from l have "ds \<noteq> []"
    by simp
  from l have "ascii_isdigit (hd ds)" "ascii_isdigit (last ds)"
    by simp_all
  note nd = nosp [OF this(1)] nosp [OF this(2)]
  have "trim (ws @ (sign @ ds) @ ws') = sign @ ds"
    using l nd by (intro trim_core) (auto simp: ascii_isspace_iff)
  then have tr: "trim text = sign @ ds"
    using l by simp
  have sg: "sign_of (sign @ ds) = sign"
    using l nd by (auto simp: sign_of_def)
  have "safe_int_internal t text 10 = digits_value t (sign = [45]) (int 10) ds"
    unfolding safe_int_internal_sign Let_def tr sg using \<open>ds \<noteq> []\<close> by (simp add: strip_prefix_def)
  then show "safe_int_internal t text 10 = Inr v"
    using l t digits_value_eq [of 10 t "sign = [45]" ds] by (simp add: Let_def decimal_digits)
qed

section \<open>Results\<close>

text \<open>
  The decimal parsers accept exactly the decimal literals whose value fits: optional
  white space, an optional sign, at least one digit, optional white space.
\<close>

lemma safe_strto32_iff:
  "safe_strto32 text = Inr v \<longleftrightarrow>
    (\<exists>ws sign ds ws'. text = ws @ sign @ ds @ ws' \<and> spaces ws \<and> spaces ws'
       \<and> sign \<in> {[], [43], [45]} \<and> ds \<noteq> [] \<and> list_all ascii_isdigit ds
       \<and> v = signed_value (sign = [45]) (radix_value 10 0 ds) \<and> - (2 ^ 31) \<le> v \<and> v < 2 ^ 31)"
proof -
  have "v < 2 ^ 31 \<longleftrightarrow> v \<le> 2 ^ 31 - 1"
    by auto
  then show ?thesis
    unfolding safe_strto32_def decimal_literal_iff [OF wide_types(1)]
    by (simp add: int32_def list_all_iff)
qed

lemma safe_strto64_iff:
  "safe_strto64 text = Inr v \<longleftrightarrow>
    (\<exists>ws sign ds ws'. text = ws @ sign @ ds @ ws' \<and> spaces ws \<and> spaces ws'
       \<and> sign \<in> {[], [43], [45]} \<and> ds \<noteq> [] \<and> list_all ascii_isdigit ds
       \<and> v = signed_value (sign = [45]) (radix_value 10 0 ds) \<and> - (2 ^ 63) \<le> v \<and> v < 2 ^ 63)"
proof -
  have "v < 2 ^ 63 \<longleftrightarrow> v \<le> 2 ^ 63 - 1"
    by auto
  then show ?thesis
    unfolding safe_strto64_def decimal_literal_iff [OF wide_types(2)]
    by (simp add: int64_def list_all_iff)
qed

lemma safe_int_range:
  assumes "wide t" "safe_int_internal t text base = Inr v"
  shows "vmin t \<le> v \<and> v \<le> vmax t"
proof -
  let ?s = "trim text"
  obtain b ds where sp: "strip_prefix base (drop (length (sign_of ?s)) ?s) = Some (b, ds)"
    and dv: "digits_value t (sign_of ?s = [45]) b ds = Inr v"
    using assms(2) by (auto simp: safe_int_internal_sign Let_def split: if_splits option.splits)
  from strip_prefix_base [OF sp] obtain n where "b = int n" "2 \<le> n" "n \<le> 36"
    by blast
  with dv assms(1) show ?thesis
    by (auto simp: digits_value_eq Let_def split: if_splits)
qed

text \<open>
  C29: no text and no base make the parser overflow its signed type or fail an assertion.
\<close>

theorem safe_strto_no_overflow:
  "(safe_strto32_base text base = Inl ReturnFalse \<or>
      (\<exists>v. safe_strto32_base text base = Inr v \<and> - (2 ^ 31) \<le> v \<and> v < 2 ^ 31))
   \<and> (safe_strto64_base text base = Inl ReturnFalse \<or>
      (\<exists>v. safe_strto64_base text base = Inr v \<and> - (2 ^ 63) \<le> v \<and> v < 2 ^ 63))"
  using safe_int_internal_outcome [OF wide_types(1), of "text" base]
    safe_int_internal_outcome [OF wide_types(2), of "text" base]
    safe_int_range [OF wide_types(1), of "text" base] safe_int_range [OF wide_types(2), of "text" base]
  unfolding safe_strto32_base_def safe_strto64_base_def by (auto simp: int32_def int64_def)

text \<open>A hexadecimal prefix with no digit after it is accepted, as zero.\<close>

lemma bare_hex_prefix_accepted:
  "safe_strto32_base [48, 120] 16 = Inr 0" "safe_strto32_base [45, 48, 88] 0 = Inr 0"
  by (simp_all add: safe_strto32_base_def safe_int_internal_def trim_def ascii_isspace_iff
        strip_prefix_def has_0x_def digits_value_def int32_def c_div_def c_mod_def Let_def)

end
