(* ===== verification/PrintInts.thy ===== *)
theory PrintInts
  imports ParseInts
begin

text \<open>
  The integer printers of \<^verbatim>\<open>gbase/strings/numbers.cc\<close>.  A printer that writes at the start of
  the caller's buffer returns the bytes it has written there, the final NUL included, and
  the end pointer it returns as an offset.  The labels of \<^verbatim>\<open>FastUInt32ToBufferLeft\<close> are
  functions, each calling the one it falls through to; \<^verbatim>\<open>goto\<close> is a call.  The
  specification is \<open>dec_nat\<close>, the usual representation without leading zeroes.
\<close>

section \<open>Decimal, two digits at a time\<close>

text \<open>\<^verbatim>\<open>two_ASCII_digits\<close> of \<^verbatim>\<open>strings/util.cc\<close>: entry \<open>i\<close> is the pair of characters \<open>i\<close> has in base ten.\<close>

definition two_ASCII_digits :: "(byte \<times> byte) list" where
  "two_ASCII_digits = [
    (48, 48), (48, 49), (48, 50), (48, 51), (48, 52),
    (48, 53), (48, 54), (48, 55), (48, 56), (48, 57),
    (49, 48), (49, 49), (49, 50), (49, 51), (49, 52),
    (49, 53), (49, 54), (49, 55), (49, 56), (49, 57),
    (50, 48), (50, 49), (50, 50), (50, 51), (50, 52),
    (50, 53), (50, 54), (50, 55), (50, 56), (50, 57),
    (51, 48), (51, 49), (51, 50), (51, 51), (51, 52),
    (51, 53), (51, 54), (51, 55), (51, 56), (51, 57),
    (52, 48), (52, 49), (52, 50), (52, 51), (52, 52),
    (52, 53), (52, 54), (52, 55), (52, 56), (52, 57),
    (53, 48), (53, 49), (53, 50), (53, 51), (53, 52),
    (53, 53), (53, 54), (53, 55), (53, 56), (53, 57),
    (54, 48), (54, 49), (54, 50), (54, 51), (54, 52),
    (54, 53), (54, 54), (54, 55), (54, 56), (54, 57),
    (55, 48), (55, 49), (55, 50), (55, 51), (55, 52),
    (55, 53), (55, 54), (55, 55), (55, 56), (55, 57),
    (56, 48), (56, 49), (56, 50), (56, 51), (56, 52),
    (56, 53), (56, 54), (56, 55), (56, 56), (56, 57),
    (57, 48), (57, 49), (57, 50), (57, 51), (57, 52),
    (57, 53), (57, 54), (57, 55), (57, 56), (57, 57)]"

type_synonym written = "bytes \<times> nat"

text \<open>Appending \<^verbatim>\<open>two_ASCII_digits[digits]\<close>; an index outside the table is a fault.\<close>

definition put_two :: "u32 \<Rightarrow> bytes \<Rightarrow> fault + bytes" where
  "put_two digits buf =
    (if unat digits < length two_ASCII_digits
     then let d = two_ASCII_digits ! unat digits in Inr (buf @ [fst d, snd d])
     else Inl OutOfBounds)"

definition put_one :: "u32 \<Rightarrow> bytes \<Rightarrow> bytes" where
  "put_one digits buf = buf @ [48 + ucast digits]"

definition finish :: "bytes \<Rightarrow> fault + written" where
  "finish buf = Inr (buf @ [0], length buf)"

definition lt100 :: "u32 \<Rightarrow> bytes \<Rightarrow> fault + written" where
  "lt100 u buf = bindE (put_two u buf) finish"

definition sublt100 :: "u32 \<Rightarrow> u32 \<Rightarrow> bytes \<Rightarrow> fault + written" where
  "sublt100 digits u buf = lt100 (u - digits * 100) buf"

definition lt10_000 :: "u32 \<Rightarrow> bytes \<Rightarrow> fault + written" where
  "lt10_000 u buf = (let digits = u div 100 in bindE (put_two digits buf) (sublt100 digits u))"

definition sublt10_000 :: "u32 \<Rightarrow> u32 \<Rightarrow> bytes \<Rightarrow> fault + written" where
  "sublt10_000 digits u buf = lt10_000 (u - digits * 10000) buf"

definition lt1_000_000 :: "u32 \<Rightarrow> bytes \<Rightarrow> fault + written" where
  "lt1_000_000 u buf = (let digits = u div 10000 in bindE (put_two digits buf) (sublt10_000 digits u))"

definition sublt1_000_000 :: "u32 \<Rightarrow> u32 \<Rightarrow> bytes \<Rightarrow> fault + written" where
  "sublt1_000_000 digits u buf = lt1_000_000 (u - digits * 1000000) buf"

definition lt100_000_000 :: "u32 \<Rightarrow> bytes \<Rightarrow> fault + written" where
  "lt100_000_000 u buf = (let digits = u div 1000000 in bindE (put_two digits buf) (sublt1_000_000 digits u))"

definition sublt100_000_000 :: "u32 \<Rightarrow> u32 \<Rightarrow> bytes \<Rightarrow> fault + written" where
  "sublt100_000_000 digits u buf = lt100_000_000 (u - digits * 100000000) buf"

definition FastUInt32ToBufferLeft :: "u32 \<Rightarrow> bytes \<Rightarrow> fault + written" where
  "FastUInt32ToBufferLeft u buf =
    (if u \<ge> 1000000000 then
       let digits = u div 100000000 in bindE (put_two digits buf) (sublt100_000_000 digits u)
     else if u < 100 then
       (if u \<ge> 10 then lt100 u buf else finish (put_one u buf))
     else if u < 10000 then
       (if u \<ge> 1000 then lt10_000 u buf
        else let digits = u div 100 in sublt100 digits u (put_one digits buf))
     else if u < 1000000 then
       (if u \<ge> 100000 then lt1_000_000 u buf
        else let digits = u div 10000 in sublt10_000 digits u (put_one digits buf))
     else if u < 100000000 then
       (if u \<ge> 10000000 then lt100_000_000 u buf
        else let digits = u div 1000000 in sublt1_000_000 digits u (put_one digits buf))
     else
       let digits = u div 100000000 in sublt100_000_000 digits u (put_one digits buf))"

text \<open>
  \<^verbatim>\<open>int32\<close> and \<^verbatim>\<open>int64\<close> arguments are integers; \<^verbatim>\<open>uint32 u = i\<close> reduces modulo the width.
\<close>

definition FastInt32ToBufferLeft :: "int \<Rightarrow> bytes \<Rightarrow> fault + written" where
  "FastInt32ToBufferLeft i buf =
    (let u = word_of_int i in
     if i < 0 then FastUInt32ToBufferLeft (0 - u) (buf @ [45]) else FastUInt32ToBufferLeft u buf)"

text \<open>The nine low digits that \<^verbatim>\<open>FastUInt64ToBufferLeft\<close> writes behind the others.\<close>

definition nine_digits :: "u32 \<Rightarrow> bytes \<Rightarrow> fault + written" where
  "nine_digits u buf =
    (let digits = u div 10000000 in
     bindE (assertE CheckFailed (digits < 100)) (\<lambda>_.
     bindE (put_two digits buf) (\<lambda>buf.
     let u = u - digits * 10000000; digits = u div 100000 in
     bindE (put_two digits buf) (\<lambda>buf.
     let u = u - digits * 100000; digits = u div 1000 in
     bindE (put_two digits buf) (\<lambda>buf.
     let u = u - digits * 1000; digits = u div 10 in
     bindE (put_two digits buf) (\<lambda>buf.
     let u = u - digits * 10 in
     finish (put_one u buf)))))))"

lemma top_digits_smaller:
  fixes u64 :: u64
  assumes "ucast (ucast u64 :: u32) \<noteq> u64"
  shows "unat (u64 div 1000000000) < unat u64"
proof -
  have "unat u64 \<noteq> 0"
    using assms by (auto simp: unat_eq_0)
  then show ?thesis
    by (simp add: unat_div)
qed

function FastUInt64ToBufferLeft :: "u64 \<Rightarrow> bytes \<Rightarrow> fault + written" where
  "FastUInt64ToBufferLeft u64 buf =
    (let u = ucast u64 :: u32 in
     if ucast u = u64 then FastUInt32ToBufferLeft u buf
     else
       let top_11_digits = u64 div 1000000000 in
       bindE (FastUInt64ToBufferLeft top_11_digits buf) (\<lambda>(out, p).
         nine_digits (ucast (u64 - top_11_digits * 1000000000)) (take p out)))"
  by pat_completeness auto
termination
  by (relation "measure (\<lambda>(u64, buf). unat u64)") (simp_all add: top_digits_smaller)

declare FastUInt64ToBufferLeft.simps [simp del]

definition FastInt64ToBufferLeft :: "int \<Rightarrow> bytes \<Rightarrow> fault + written" where
  "FastInt64ToBufferLeft i buf =
    (let u = word_of_int i in
     if i < 0 then FastUInt64ToBufferLeft (0 - u) (buf @ [45]) else FastUInt64ToBufferLeft u buf)"

text \<open>The variants that return the start of the buffer.\<close>

definition FastInt32ToBuffer :: "int \<Rightarrow> fault + bytes" where
  "FastInt32ToBuffer i = map_sum id fst (FastInt32ToBufferLeft i [])"

definition FastInt64ToBuffer :: "int \<Rightarrow> fault + bytes" where
  "FastInt64ToBuffer i = map_sum id fst (FastInt64ToBufferLeft i [])"

definition FastUInt32ToBuffer :: "u32 \<Rightarrow> fault + bytes" where
  "FastUInt32ToBuffer i = map_sum id fst (FastUInt32ToBufferLeft i [])"

definition FastUInt64ToBuffer :: "u64 \<Rightarrow> fault + bytes" where
  "FastUInt64ToBuffer i = map_sum id fst (FastUInt64ToBufferLeft i [])"

text \<open>\<^verbatim>\<open>SimpleItoa\<close>: the string between the buffer and the end pointer.\<close>

definition string_to :: "fault + written \<Rightarrow> fault + bytes" where
  "string_to r = map_sum id (\<lambda>(out, p). take p out) r"

definition SimpleItoa_int32 :: "int \<Rightarrow> fault + bytes" where
  "SimpleItoa_int32 i = string_to (FastInt32ToBufferLeft i [])"

definition SimpleItoa_uint32 :: "u32 \<Rightarrow> fault + bytes" where
  "SimpleItoa_uint32 i = string_to (FastUInt32ToBufferLeft i [])"

definition SimpleItoa_int64 :: "int \<Rightarrow> fault + bytes" where
  "SimpleItoa_int64 i = string_to (FastInt64ToBufferLeft i [])"

definition SimpleItoa_uint64 :: "u64 \<Rightarrow> fault + bytes" where
  "SimpleItoa_uint64 i = string_to (FastUInt64ToBufferLeft i [])"

section \<open>The decimal representation\<close>

text \<open>The specification is \<open>dec_nat\<close>, what \<^verbatim>\<open>%d\<close> prints.\<close>

text \<open>\<open>padded k n\<close>: exactly \<open>k\<close> digits, with leading zeroes.\<close>

fun padded :: "nat \<Rightarrow> nat \<Rightarrow> bytes" where
  "padded 0 n = []"
| "padded (Suc k) n = padded k (n div 10) @ [48 + word_of_nat (n mod 10)]"

lemma length_padded [simp]: "length (padded k n) = k"
  by (induction k arbitrary: n) simp_all

lemma padded_add: "padded (j + k) n = padded j (n div 10 ^ k) @ padded k (n mod 10 ^ k)"
proof (induction k arbitrary: n)
  case (Suc k)
  have eq: "n mod 10 ^ Suc k = 10 * (n div 10 mod 10 ^ k) + n mod 10"
    by (simp add: mod_mult2_eq)
  have "n mod 10 ^ Suc k div 10 = n div 10 mod 10 ^ k" "n mod 10 ^ Suc k mod 10 = n mod 10"
    unfolding eq by simp_all
  with Suc show ?case
    by (simp add: div_mult2_eq)
qed simp

lemma decimal_padded: "10 ^ k \<le> n \<Longrightarrow> n < 10 ^ Suc k \<Longrightarrow> dec_nat n = padded (Suc k) n"
proof (induction k arbitrary: n)
  case 0
  then show ?case by (simp add: dec_nat.simps)
next
  case (Suc k)
  have "dec_nat (n div 10) = padded (Suc k) (n div 10)"
    using Suc.prems by (intro Suc.IH) (simp_all add: less_mult_imp_div_less)
  moreover have "\<not> n < 10"
    using Suc.prems by (metis le_trans not_less one_le_power power_Suc mult_le_mono2 nat_mult_1_right numeral_One one_le_numeral)
  ultimately show ?case
    by (simp add: dec_nat.simps [of n])
qed

section \<open>Each label writes the digits it is meant for\<close>

lemma two_ASCII_digits_table:
  "two_ASCII_digits = map (\<lambda>n. (48 + word_of_nat (n div 10), 48 + word_of_nat (n mod 10))) [0..<100]"
  by (simp add: two_ASCII_digits_def upt_rec)

lemma padded_2: "n < 100 \<Longrightarrow> padded 2 n = [48 + word_of_nat (n div 10), 48 + word_of_nat (n mod 10)]"
  by (simp add: numeral_2_eq_2)

lemma padded_3: "n < 1000 \<Longrightarrow> padded 3 n =
    [48 + word_of_nat (n div 10 div 10), 48 + word_of_nat (n div 10 mod 10), 48 + word_of_nat (n mod 10)]"
  by (simp add: numeral_3_eq_3)

lemma put_two: "unat d < 100 \<Longrightarrow> put_two d buf = Inr (buf @ padded 2 (unat d))"
  by (simp add: put_two_def two_ASCII_digits_table padded_2 Let_def)

lemma put_one: "unat d < 10 \<Longrightarrow> put_one d buf = buf @ padded 1 (unat d)"
  by (simp add: put_one_def)

lemma unat_rest:
  fixes u m :: u32
  shows "unat (u - u div m * m) = unat u mod unat m"
  by (simp add: minus_div_mult_eq_mod unat_mod_distrib)

lemma label_step:
  fixes u m :: u32
  assumes L: "\<And>v buf. unat v < 10 ^ k \<Longrightarrow> L v buf = finish (buf @ padded k (unat v))"
    and m: "unat m = 10 ^ k"
  shows "unat u < 10 ^ (2 + k) \<Longrightarrow>
      bindE (put_two (u div m) buf) (\<lambda>buf. L (u - u div m * m) buf) = finish (buf @ padded (2 + k) (unat u))"
    and "unat u < 10 ^ (1 + k) \<Longrightarrow>
      L (u - u div m * m) (put_one (u div m) buf) = finish (buf @ padded (1 + k) (unat u))"
proof -
  have d: "unat (u div m) = unat u div 10 ^ k" and r: "unat (u - u div m * m) = unat u mod 10 ^ k"
    by (simp_all add: unat_div_distrib unat_rest m)
  show "bindE (put_two (u div m) buf) (\<lambda>buf. L (u - u div m * m) buf) = finish (buf @ padded (2 + k) (unat u))"
    if u: "unat u < 10 ^ (2 + k)"
  proof -
    from u have "unat (u div m) < 100"
      unfolding d by (intro less_mult_imp_div_less) (simp add: power_add)
    then show ?thesis
      unfolding padded_add [of 2 k] by (simp add: put_two L r d)
  qed
  show "L (u - u div m * m) (put_one (u div m) buf) = finish (buf @ padded (1 + k) (unat u))"
    if u: "unat u < 10 ^ (1 + k)"
  proof -
    from u have "unat (u div m) < 10"
      unfolding d by (intro less_mult_imp_div_less) (simp add: power_add)
    then show ?thesis
      unfolding padded_add [of 1 k] by (simp only: put_one L r d pos_mod_sign mod_less_divisor zero_less_power zero_less_numeral append_assoc)
  qed
qed

lemma sublt_labels:
  "sublt100 digits u = lt100 (u - digits * 100)"
  "sublt10_000 digits u = lt10_000 (u - digits * 10000)"
  "sublt1_000_000 digits u = lt1_000_000 (u - digits * 1000000)"
  "sublt100_000_000 digits u = lt100_000_000 (u - digits * 100000000)"
  by (simp_all add: fun_eq_iff sublt100_def sublt10_000_def sublt1_000_000_def sublt100_000_000_def)

lemma lt100: "unat u < 10 ^ 2 \<Longrightarrow> lt100 u buf = finish (buf @ padded 2 (unat u))"
  by (simp add: lt100_def put_two)

lemma lt10_000: "unat u < 10 ^ 4 \<Longrightarrow> lt10_000 u buf = finish (buf @ padded 4 (unat u))"
  using label_step(1) [of 2 lt100 100 u buf, OF lt100] by (simp add: lt10_000_def sublt_labels Let_def)

lemma lt1_000_000: "unat u < 10 ^ 6 \<Longrightarrow> lt1_000_000 u buf = finish (buf @ padded 6 (unat u))"
  using label_step(1) [of 4 lt10_000 10000 u buf, OF lt10_000] by (simp add: lt1_000_000_def sublt_labels Let_def)

lemma lt100_000_000: "unat u < 10 ^ 8 \<Longrightarrow> lt100_000_000 u buf = finish (buf @ padded 8 (unat u))"
  using label_step(1) [of 6 lt1_000_000 1000000 u buf, OF lt1_000_000]
  by (simp add: lt100_000_000_def sublt_labels Let_def)

lemma decimal_low: "n < 10 \<Longrightarrow> dec_nat n = padded 1 n"
  by (simp add: dec_nat.simps)

lemma FastUInt32ToBufferLeft_eq: "FastUInt32ToBufferLeft u buf = finish (buf @ dec_nat (unat u))"
proof -
  have bound: "unat u < 10 ^ 10"
    using unsigned_less [of u, where ?'a = nat] by simp
  have less: "u < 1000000000 \<longleftrightarrow> unat u < 10 ^ 9" "u < 100 \<longleftrightarrow> unat u < 10 ^ 2" "u < 10 \<longleftrightarrow> unat u < 10"
    "u < 10000 \<longleftrightarrow> unat u < 10 ^ 4" "u < 1000 \<longleftrightarrow> unat u < 10 ^ 3" "u < 1000000 \<longleftrightarrow> unat u < 10 ^ 6"
    "u < 100000 \<longleftrightarrow> unat u < 10 ^ 5" "u < 100000000 \<longleftrightarrow> unat u < 10 ^ 8" "u < 10000000 \<longleftrightarrow> unat u < 10 ^ 7"
    by (simp_all add: word_less_nat_alt)
  consider "unat u < 10" | "10 \<le> unat u" "unat u < 10 ^ 2" | "10 ^ 2 \<le> unat u" "unat u < 10 ^ 3"
    | "10 ^ 3 \<le> unat u" "unat u < 10 ^ 4" | "10 ^ 4 \<le> unat u" "unat u < 10 ^ 5"
    | "10 ^ 5 \<le> unat u" "unat u < 10 ^ 6" | "10 ^ 6 \<le> unat u" "unat u < 10 ^ 7"
    | "10 ^ 7 \<le> unat u" "unat u < 10 ^ 8" | "10 ^ 8 \<le> unat u" "unat u < 10 ^ 9" | "10 ^ 9 \<le> unat u"
    by linarith
  then show ?thesis
  proof cases
    case 1
    then show ?thesis
      unfolding FastUInt32ToBufferLeft_def not_less [symmetric] less
      by (simp add: put_one decimal_low)
  next
    case 2
    then show ?thesis
      using decimal_padded [of 1 "unat u"]
      unfolding FastUInt32ToBufferLeft_def not_less [symmetric] less
      by (simp add: lt100 padded_2)
  next
    case 3
    then show ?thesis
      using decimal_padded [of 2 "unat u"] label_step(2) [of 2 lt100 100 u buf, OF lt100]
      unfolding FastUInt32ToBufferLeft_def not_less [symmetric] less
      by (simp add: sublt_labels Let_def padded_3)
  next
    case 4
    then show ?thesis
      using decimal_padded [of 3 "unat u"]
      unfolding FastUInt32ToBufferLeft_def not_less [symmetric] less
      by (simp add: lt10_000)
  next
    case 5
    then show ?thesis
      using decimal_padded [of 4 "unat u"] label_step(2) [of 4 lt10_000 10000 u buf, OF lt10_000]
      unfolding FastUInt32ToBufferLeft_def not_less [symmetric] less
      by (simp add: sublt_labels Let_def)
  next
    case 6
    then show ?thesis
      using decimal_padded [of 5 "unat u"]
      unfolding FastUInt32ToBufferLeft_def not_less [symmetric] less
      by (simp add: lt1_000_000)
  next
    case 7
    then show ?thesis
      using decimal_padded [of 6 "unat u"] label_step(2) [of 6 lt1_000_000 1000000 u buf, OF lt1_000_000]
      unfolding FastUInt32ToBufferLeft_def not_less [symmetric] less
      by (simp add: sublt_labels Let_def)
  next
    case 8
    then show ?thesis
      using decimal_padded [of 7 "unat u"]
      unfolding FastUInt32ToBufferLeft_def not_less [symmetric] less
      by (simp add: lt100_000_000)
  next
    case 9
    then show ?thesis
      using decimal_padded [of 8 "unat u"] label_step(2) [of 8 lt100_000_000 100000000 u buf, OF lt100_000_000]
      unfolding FastUInt32ToBufferLeft_def not_less [symmetric] less
      by (simp add: sublt_labels Let_def)
  next
    case 10
    then show ?thesis
      using bound decimal_padded [of 9 "unat u"] label_step(1) [of 8 lt100_000_000 100000000 u buf, OF lt100_000_000]
      unfolding FastUInt32ToBufferLeft_def not_less [symmetric] less
      by (simp add: sublt_labels Let_def)
  qed
qed

lemma nine_step:
  fixes u m :: u32
  assumes "unat m = 10 ^ k" "unat u < 10 ^ (2 + k)"
  shows "put_two (u div m) buf = Inr (buf @ padded 2 (unat u div 10 ^ k))"
    and "unat (u - u div m * m) = unat u mod 10 ^ k"
proof -
  have d: "unat (u div m) = unat u div 10 ^ k"
    by (simp add: unat_div_distrib assms)
  moreover from assms have "unat u div 10 ^ k < 100"
    by (intro less_mult_imp_div_less) (simp add: power_add)
  ultimately show "put_two (u div m) buf = Inr (buf @ padded 2 (unat u div 10 ^ k))"
    by (simp add: put_two)
  show "unat (u - u div m * m) = unat u mod 10 ^ k"
    by (simp add: unat_rest assms)
qed

lemma nine_digits: "unat u < 10 ^ 9 \<Longrightarrow> nine_digits u buf = finish (buf @ padded 9 (unat u))"
proof -
  assume u: "unat u < 10 ^ 9"
  define u1 where "u1 = u - u div 10000000 * 10000000"
  define u2 where "u2 = u1 - u1 div 100000 * 100000"
  define u3 where "u3 = u2 - u2 div 1000 * 1000"
  define u4 where "u4 = u3 - u3 div 10 * 10"
  note s1 = nine_step [of 10000000 7 u] and s2 = nine_step [of 100000 5 u1]
    and s3 = nine_step [of 1000 3 u2] and s4 = nine_step [of 10 1 u3]
  have n1: "unat u1 = unat u mod 10 ^ 7" and p1: "put_two (u div 10000000) buf = Inr (buf @ padded 2 (unat u div 10 ^ 7))" for buf
    using s1 u unfolding u1_def by simp_all
  have n2: "unat u2 = unat u1 mod 10 ^ 5" and p2: "put_two (u1 div 100000) buf = Inr (buf @ padded 2 (unat u1 div 10 ^ 5))" for buf
    using s2 unfolding u2_def by (simp_all add: n1)
  have n3: "unat u3 = unat u2 mod 10 ^ 3" and p3: "put_two (u2 div 1000) buf = Inr (buf @ padded 2 (unat u2 div 10 ^ 3))" for buf
    using s3 unfolding u3_def by (simp_all add: n2)
  have n4: "unat u4 = unat u3 mod 10 ^ 1" and p4: "put_two (u3 div 10) buf = Inr (buf @ padded 2 (unat u3 div 10 ^ 1))" for buf
    using s4 unfolding u4_def by (simp_all add: n3)
  have "u div 10000000 < 100"
    using u by (simp add: word_less_nat_alt unat_div_distrib less_mult_imp_div_less)
  then have "nine_digits u buf = finish (put_one u4 ((((buf @ padded 2 (unat u div 10 ^ 7)) @ padded 2 (unat u1 div 10 ^ 5))
      @ padded 2 (unat u2 div 10 ^ 3)) @ padded 2 (unat u3 div 10 ^ 1)))"
    unfolding nine_digits_def Let_def
    by (simp only: assertE_True bindE.simps p1 p2 p3 p4 u1_def [symmetric] u2_def [symmetric] u3_def [symmetric] u4_def [symmetric])
  also have "put_one u4 bf = bf @ padded 1 (unat u4)" for bf
    by (rule put_one) (simp add: n4)
  finally have *: "nine_digits u buf = finish (buf @ padded 2 (unat u div 10 ^ 7) @ padded 2 (unat u1 div 10 ^ 5)
      @ padded 2 (unat u2 div 10 ^ 3) @ padded 2 (unat u3 div 10 ^ 1) @ padded 1 (unat u4))"
    by simp
  have "padded 2 (unat u3 div 10 ^ 1) @ padded 1 (unat u4) = padded 3 (unat u3)"
    using padded_add [of 2 1 "unat u3"] n4 by simp
  moreover have "padded 2 (unat u2 div 10 ^ 3) @ padded 3 (unat u3) = padded 5 (unat u2)"
    using padded_add [of 2 3 "unat u2"] n3 by simp
  moreover have "padded 2 (unat u1 div 10 ^ 5) @ padded 5 (unat u2) = padded 7 (unat u1)"
    using padded_add [of 2 5 "unat u1"] n2 by simp
  moreover have "padded 2 (unat u div 10 ^ 7) @ padded 7 (unat u1) = padded 9 (unat u)"
    using padded_add [of 2 7 "unat u"] n1 by simp
  ultimately show ?thesis
    by (simp only: *)
qed

lemma decimal_split:
  assumes "10 ^ k \<le> n"
  shows "dec_nat n = dec_nat (n div 10 ^ k) @ padded k (n mod 10 ^ k)"
  using assms
proof (induction k arbitrary: n)
  case (Suc k)
  have n: "10 ^ k \<le> n div 10" "\<not> n < 10"
    using Suc.prems by (auto simp: less_eq_div_iff_mult_less_eq mult.commute) (metis le_trans not_less mult_le_mono2 nat_mult_1_right one_le_power one_le_numeral)
  have eq: "n mod 10 ^ Suc k = 10 * (n div 10 mod 10 ^ k) + n mod 10"
    by (simp add: mod_mult2_eq)
  have m: "n mod 10 ^ Suc k div 10 = n div 10 mod 10 ^ k" "n mod 10 ^ Suc k mod 10 = n mod 10"
    unfolding eq by simp_all
  have "dec_nat n = dec_nat (n div 10) @ [48 + word_of_nat (n mod 10)]"
    using n by (simp add: dec_nat.simps [of n])
  also have "dec_nat (n div 10) = dec_nat (n div 10 div 10 ^ k) @ padded k (n div 10 mod 10 ^ k)"
    using n(1) by (rule Suc.IH)
  finally show ?case
    unfolding padded.simps m by (simp add: div_mult2_eq)
qed simp

lemma FastUInt64ToBufferLeft_eq: "FastUInt64ToBufferLeft u buf = finish (buf @ dec_nat (unat u))"
proof (induction u buf rule: FastUInt64ToBufferLeft.induct)
  case (1 u64 buf)
  show ?case
  proof (cases "ucast (ucast u64 :: u32) = u64")
    case True
    have "unat (ucast (ucast u64 :: u32) :: u64) = unat (ucast u64 :: u32)"
      using unsigned_less [of "ucast u64 :: u32", where ?'a = nat]
      by (simp add: unsigned_ucast_eq unsigned_take_bit_eq)
    then have "unat (ucast u64 :: u32) = unat u64"
      by (simp add: True)
    with True show ?thesis
      by (simp add: FastUInt64ToBufferLeft.simps [of u64] FastUInt32ToBufferLeft_eq)
  next
    case False
    let ?top = "u64 div 1000000000"
    have r: "u64 - ?top * 1000000000 = u64 mod 1000000000"
      by (rule minus_div_mult_eq_mod)
    have rn: "unat (u64 mod 1000000000) = unat u64 mod 10 ^ 9"
      by (simp add: unat_mod_distrib)
    then have "unat (ucast (u64 mod 1000000000) :: u32) = unat u64 mod 10 ^ 9"
      by (simp add: unsigned_ucast_eq take_bit_nat_eq_self)
    moreover have "10 ^ 9 \<le> unat u64"
    proof (rule ccontr)
      assume "\<not> 10 ^ 9 \<le> unat u64"
      then have "ucast (ucast u64 :: u32) = u64"
        by (simp add: word_unat_eq_iff unsigned_ucast_eq unsigned_take_bit_eq take_bit_nat_eq_self)
      with False show False ..
    qed
    moreover have "unat ?top = unat u64 div 10 ^ 9"
      by (simp add: unat_div_distrib)
    moreover have "FastUInt64ToBufferLeft ?top buf = finish (buf @ dec_nat (unat ?top))"
      using False by (rule "1.IH" [OF refl _ refl])
    ultimately show ?thesis
      using False decimal_split [of 9 "unat u64"]
      by (simp add: FastUInt64ToBufferLeft.simps [of u64] finish_def Let_def r nine_digits [unfolded finish_def])
  qed
qed

lemma unat_negated:
  assumes "- (2 ^ (LENGTH('a) - 1)) \<le> i" "i < 0"
  shows "unat (0 - word_of_int i :: 'a::len word) = nat (- i)"
proof -
  have "(2 :: int) ^ (LENGTH('a) - 1) < 2 ^ LENGTH('a)"
    by (simp add: power_strict_increasing)
  with assms have "0 \<le> - i" "- i < 2 ^ LENGTH('a)"
    by linarith+
  then have "take_bit LENGTH('a) (- i) = - i"
    by (intro take_bit_int_eq_self)
  moreover have "0 - word_of_int i = (word_of_int (- i) :: 'a word)"
    by simp
  ultimately show ?thesis
    by (metis unat_eq_nat_uint uint_word_of_int_eq)
qed

lemma unat_nonneg:
  assumes "0 \<le> i" "i < 2 ^ (LENGTH('a) - 1)"
  shows "unat (word_of_int i :: 'a::len word) = nat i"
proof -
  have "(2 :: int) ^ (LENGTH('a) - 1) < 2 ^ LENGTH('a)"
    by (simp add: power_strict_increasing)
  with assms have "i < 2 ^ LENGTH('a)"
    by linarith
  with assms have "take_bit LENGTH('a) i = i"
    by (intro take_bit_int_eq_self)
  then show ?thesis
    by (metis unat_eq_nat_uint uint_word_of_int_eq)
qed

lemma FastInt32ToBufferLeft_eq:
  assumes "- (2 ^ 31) \<le> i" "i < 2 ^ 31"
  shows "FastInt32ToBufferLeft i buf = finish (buf @ dec_int i)"
  using assms unat_negated [where ?'a = 32, of i] unat_nonneg [where ?'a = 32, of i]
  by (simp add: FastInt32ToBufferLeft_def Let_def FastUInt32ToBufferLeft_eq dec_int_def)

lemma FastInt64ToBufferLeft_eq:
  assumes "- (2 ^ 63) \<le> i" "i < 2 ^ 63"
  shows "FastInt64ToBufferLeft i buf = finish (buf @ dec_int i)"
  using assms unat_negated [where ?'a = 64, of i] unat_nonneg [where ?'a = 64, of i]
  by (simp add: FastInt64ToBufferLeft_def Let_def FastUInt64ToBufferLeft_eq dec_int_def)

lemma string_to_finish [simp]: "string_to (finish out) = Inr out"
  by (simp add: string_to_def finish_def)

section \<open>Printing and parsing back\<close>

lemma digit_value_decimal: "n < 10 \<Longrightarrow> digit_value (48 + word_of_nat n) = n"
  by (simp add: digit_value_def ascii_isdigit_def byte_le_unat unat_word_ariths unat_of_nat)

lemma ascii_isdigit_decimal: "n < 10 \<Longrightarrow> ascii_isdigit (48 + word_of_nat n)"
  by (simp add: ascii_isdigit_def byte_le_unat unat_word_ariths unat_of_nat)

lemma radix_value_decimal: "radix_value 10 0 (dec_nat n) = n"
proof (induction n rule: dec_nat.induct)
  case (1 n)
  then show ?case
    by (subst dec_nat.simps) (simp add: radix_value_append digit_value_decimal)
qed

lemma decimal_all_digits: "list_all ascii_isdigit (dec_nat n)"
proof (induction n rule: dec_nat.induct)
  case (1 n)
  then show ?case
    by (subst dec_nat.simps) (simp add: ascii_isdigit_decimal)
qed

lemma decimal_nonempty [simp]: "dec_nat n \<noteq> []"
  by (subst dec_nat.simps) simp

lemma decimal_int_literal:
  "\<exists>sign ds. dec_int i = sign @ ds \<and> sign \<in> {[], [43], [45]} \<and> ds \<noteq> [] \<and> list_all ascii_isdigit ds
     \<and> i = signed_value (sign = [45]) (radix_value 10 0 ds)"
proof (cases "i < 0")
  case True
  then show ?thesis
    by (intro exI [of _ "[45]"] exI [of _ "dec_nat (nat (- i))"])
      (simp add: dec_int_def signed_value_def radix_value_decimal decimal_all_digits)
next
  case False
  then show ?thesis
    by (intro exI [of _ "[]"] exI [of _ "dec_nat (nat i)"])
      (simp add: dec_int_def signed_value_def radix_value_decimal decimal_all_digits)
qed

lemma parse_decimal_int:
  "- (2 ^ 31) \<le> i \<Longrightarrow> i < 2 ^ 31 \<Longrightarrow> safe_strto32 (dec_int i) = Inr i"
  "- (2 ^ 63) \<le> i \<Longrightarrow> i < 2 ^ 63 \<Longrightarrow> safe_strto64 (dec_int i) = Inr i"
  unfolding safe_strto32_iff safe_strto64_iff
  using decimal_int_literal [of i] spaces_simps(1) by (metis append_Nil append_Nil2)+

lemma int32_text_roundtrip:
  assumes "- (2 ^ 31) \<le> i" "i < 2 ^ 31"
  shows "\<exists>out. SimpleItoa_int32 i = Inr out \<and> safe_strto32 out = Inr i"
  using assms by (simp add: SimpleItoa_int32_def FastInt32ToBufferLeft_eq parse_decimal_int)

text \<open>
  C30: an \<^verbatim>\<open>int64\<close> printed by \<^verbatim>\<open>SimpleItoa\<close> (two digits at a time, the sign handled in modular
  arithmetic) is read back as itself by \<^verbatim>\<open>safe_strto64\<close>, the most negative value included;
  no table access is out of range and no arithmetic overflows on the way.
\<close>

theorem int64_text_roundtrip:
  assumes "- (2 ^ 63) \<le> i" "i < 2 ^ 63"
  shows "\<exists>out. SimpleItoa_int64 i = Inr out \<and> safe_strto64 out = Inr i"
  using assms by (simp add: SimpleItoa_int64_def FastInt64ToBufferLeft_eq parse_decimal_int)

theorem int64_text_roundtrip_witness:
  "\<exists>out. SimpleItoa_int64 (- (2 ^ 63)) = Inr out \<and> safe_strto64 out = Inr (- (2 ^ 63))"
  by (rule int64_text_roundtrip) simp_all

text \<open>
  \<^verbatim>\<open>FastUInt64ToBufferLeft\<close>, with its table of digit pairs, its jumps and its recursion on
  the digits above the lowest nine, writes exactly the decimal representation of its
  argument followed by a NUL, and returns the position of that NUL.
\<close>

theorem fast_uint64_is_decimal:
  "FastUInt64ToBufferLeft u buf = Inr (buf @ dec_nat (unat u) @ [0], length buf + length (dec_nat (unat u)))
   \<and> FastUInt32ToBufferLeft v buf = Inr (buf @ dec_nat (unat v) @ [0], length buf + length (dec_nat (unat v)))"
  by (simp add: FastUInt64ToBufferLeft_eq FastUInt32ToBufferLeft_eq finish_def)

text \<open>The buffer sizes the header asks for: 12 bytes for 32 bits, 22 for 64.\<close>

lemma length_decimal: "n < 10 ^ Suc k \<Longrightarrow> length (dec_nat n) \<le> Suc k"
proof (induction k arbitrary: n)
  case 0
  then show ?case by (simp add: dec_nat.simps)
next
  case (Suc k)
  then have "length (dec_nat (n div 10)) \<le> Suc k"
    by (intro Suc.IH) (simp add: less_mult_imp_div_less)
  then show ?case
    by (subst dec_nat.simps) simp
qed

lemma int_buffer_sizes:
  "FastInt32ToBufferLeft i [] = Inr (out, p) \<Longrightarrow> - (2 ^ 31) \<le> i \<Longrightarrow> i < 2 ^ 31 \<Longrightarrow> length out \<le> 12"
  "FastInt64ToBufferLeft j [] = Inr (out, p) \<Longrightarrow> - (2 ^ 63) \<le> j \<Longrightarrow> j < 2 ^ 63 \<Longrightarrow> length out \<le> 21"
proof -
  assume a: "- (2 ^ 31) \<le> i" "i < 2 ^ 31"
  then have "nat (- i) < 10 ^ Suc 9" "nat i < 10 ^ Suc 9"
    by simp_all
  from length_decimal [OF this(1)] length_decimal [OF this(2)] a
  show "FastInt32ToBufferLeft i [] = Inr (out, p) \<Longrightarrow> length out \<le> 12"
    by (auto simp: FastInt32ToBufferLeft_eq finish_def dec_int_def split: if_splits)
next
  assume a: "- (2 ^ 63) \<le> j" "j < 2 ^ 63"
  then have "nat (- j) < 10 ^ Suc 18" "nat j < 10 ^ Suc 18"
    by simp_all
  from length_decimal [OF this(1)] length_decimal [OF this(2)] a
  show "FastInt64ToBufferLeft j [] = Inr (out, p) \<Longrightarrow> length out \<le> 21"
    by (auto simp: FastInt64ToBufferLeft_eq finish_def dec_int_def split: if_splits)
qed

end
