(* ===== verification/NumberTexts.thy ===== *)
theory NumberTexts
  imports PrintInts
begin

text \<open>
  The other number formats of \<^verbatim>\<open>gbase/strings/numbers.cc\<close>: decimal with commas, base 36,
  hexadecimal, the K/M/G/T abbreviation, and the small recognisers.  The routines that
  fill a local array from its end keep the text written so far; writing below the start of
  the array is a fault, so a result also shows that the array is large enough.
\<close>

section \<open>Commas\<close>

text \<open>\<^verbatim>\<open>*--p = c\<close> in an array of \<open>cap\<close> characters.\<close>

definition push :: "nat \<Rightarrow> byte \<Rightarrow> bytes \<Rightarrow> fault + bytes" where
  "push cap c t = (if length t < cap then Inr (c # t) else Inl OutOfBounds)"

text \<open>
  \<^verbatim>\<open>SimpleItoaWithCommas\<close>: the four overloads differ in the array and in the sign.  The
  counter is unsigned and only divided, so it is a natural number here.
\<close>

definition low_digit :: "nat \<Rightarrow> byte" where
  "low_digit n = 48 + word_of_nat (n mod 10)"

fun comma_loop :: "nat \<Rightarrow> nat \<Rightarrow> bytes \<Rightarrow> fault + bytes" where
  "comma_loop cap n t =
    (if n = 0 then Inr t
     else bindE (push cap (low_digit n) t) (\<lambda>t.
       if n div 10 = 0 then Inr t
       else bindE (push cap (low_digit (n div 10)) t) (\<lambda>t.
         if n div 10 div 10 = 0 then Inr t
         else bindE (push cap 44 t) (\<lambda>t.
           bindE (push cap (low_digit (n div 10 div 10)) t) (\<lambda>t.
             comma_loop cap (n div 10 div 10 div 10) t)))))"

declare comma_loop.simps [simp del]

definition with_commas :: "nat \<Rightarrow> nat \<Rightarrow> fault + bytes" where
  "with_commas cap n = bindE (push cap (low_digit n) []) (comma_loop cap (n div 10))"

definition SimpleItoaWithCommas_int32 :: "int \<Rightarrow> fault + bytes" where
  "SimpleItoaWithCommas_int32 i =
    (let n = word_of_int i :: u32; n = (if i < 0 then 0 - n else n) in
     bindE (with_commas 14 (unat n)) (\<lambda>t. if i < 0 then push 14 45 t else Inr t))"

definition SimpleItoaWithCommas_uint32 :: "u32 \<Rightarrow> fault + bytes" where
  "SimpleItoaWithCommas_uint32 i = with_commas 13 (unat i)"

definition SimpleItoaWithCommas_int64 :: "int \<Rightarrow> fault + bytes" where
  "SimpleItoaWithCommas_int64 i =
    (let n = word_of_int i :: u64; n = (if i < 0 then 0 - n else n) in
     bindE (with_commas 26 (unat n)) (\<lambda>t. if i < 0 then push 26 45 t else Inr t))"

definition SimpleItoaWithCommas_uint64 :: "u64 \<Rightarrow> fault + bytes" where
  "SimpleItoaWithCommas_uint64 i = with_commas 26 (unat i)"

text \<open>The text meant: groups of three digits from the right.\<close>

fun grouped :: "nat \<Rightarrow> bytes" where
  "grouped n = (if n < 1000 then dec_nat n else grouped (n div 1000) @ [44] @ padded 3 (n mod 1000))"

declare grouped.simps [simp del]

text \<open>What the loop writes before the digit that is already there.\<close>

fun loop_text :: "nat \<Rightarrow> bytes" where
  "loop_text n =
    (if n = 0 then []
     else if n < 10 then [low_digit n]
     else if n < 100 then [low_digit (n div 10), low_digit n]
     else loop_text (n div 1000) @ [low_digit (n div 100), 44, low_digit (n div 10), low_digit n])"

declare loop_text.simps [simp del]

lemma comma_loop_eq:
  "length (loop_text n) + length t \<le> cap \<Longrightarrow> comma_loop cap n t = Inr (loop_text n @ t)"
proof (induction n arbitrary: t rule: loop_text.induct)
  case (1 n)
  consider "n = 0" | "0 < n" "n < 10" | "10 \<le> n" "n < 100" | "100 \<le> n"
    by linarith
  then show ?case
  proof cases
    case 4
    from 1 4 have "comma_loop cap (n div 1000) (low_digit (n div 100) # 44 # low_digit (n div 10) # low_digit n # t)
        = Inr (loop_text (n div 1000) @ low_digit (n div 100) # 44 # low_digit (n div 10) # low_digit n # t)"
      by (simp add: loop_text.simps [of n])
    moreover have "0 < n div 100" "0 < n div 10"
      using 4 by (simp_all add: div_greater_zero_iff)
    ultimately show ?thesis
      using 1 4 by (simp add: loop_text.simps [of n] comma_loop.simps [of cap n] push_def div_mult2_eq [symmetric])
  qed (use 1 in \<open>simp_all add: loop_text.simps [of n] comma_loop.simps [of cap n] push_def
         loop_text.simps [of 0] comma_loop.simps [of cap 0] div_mult2_eq [symmetric]\<close>)
qed

lemma grouped_loop: "grouped n = loop_text (n div 10) @ [low_digit n]"
proof (induction n rule: grouped.induct)
  case (1 n)
  consider "n < 10" | "10 \<le> n" "n < 100" | "100 \<le> n" "n < 1000" | "1000 \<le> n"
    by linarith
  then show ?case
  proof cases
    case 4
    then have "grouped (n div 1000) = loop_text (n div 1000 div 10) @ [low_digit (n div 1000)]"
      by (intro 1) simp
    moreover have "padded 3 (n mod 1000) = [low_digit (n div 100), low_digit (n div 10), low_digit n]"
    proof -
      have "n mod 1000 = 100 * (n div 100 mod 10) + n mod 100" "n mod 1000 = 10 * (n div 10 mod 100) + n mod 10"
        using mod_mult2_eq [of n 100 10] mod_mult2_eq [of n 10 100] by simp_all
      then have "n mod 1000 div 100 = n div 100 mod 10" "n mod 1000 div 10 = n div 10 mod 100"
        by linarith+
      moreover have "n mod 1000 mod 10 = n mod 10" "n div 10 mod 100 mod 10 = n div 10 mod 10"
        by (rule mod_mod_cancel, simp)+
      ultimately have "n mod 1000 div 100 = n div 100 mod 10" "n mod 1000 div 10 mod 10 = n div 10 mod 10"
        "n mod 1000 mod 10 = n mod 10"
        by simp_all
      then show ?thesis
        by (simp add: padded_3 low_digit_def div_mult2_eq [symmetric])
    qed
    ultimately show ?thesis
      using 4 by (simp add: grouped.simps [of n] loop_text.simps [of "n div 10"] div_mult2_eq [symmetric])
  next
    case 3
    then have "10 \<le> n div 10" "n div 10 < 100"
      by linarith+
    with 3 show ?thesis
      using decimal_padded [of 2 n] padded_3 [of n]
      by (simp add: grouped.simps [of n] loop_text.simps [of "n div 10"] low_digit_def div_mult2_eq [symmetric])
  next
    case 2
    then have "1 \<le> n div 10" "n div 10 < 10"
      by linarith+
    with 2 show ?thesis
      using decimal_padded [of 1 n] padded_2 [of n]
      by (simp add: grouped.simps [of n] loop_text.simps [of "n div 10"] low_digit_def)
  qed (simp add: grouped.simps [of n] loop_text.simps [of 0] low_digit_def dec_nat.simps)
qed

lemma length_grouped: "1 \<le> r \<Longrightarrow> r \<le> 3 \<Longrightarrow> n < 10 ^ (3 * j + r) \<Longrightarrow> length (grouped n) \<le> 4 * j + r"
proof (induction j arbitrary: n)
  case 0
  then have "n < 10 ^ 3"
    using power_increasing [of r 3 "10 :: nat"] by simp
  with 0 length_decimal [of n "r - 1"] show ?case
    by (simp add: grouped.simps [of n])
next
  case (Suc j)
  show ?case
  proof (cases "n < 1000")
    case True
    then show ?thesis
      using length_decimal [of n 2] by (simp add: grouped.simps [of n])
  next
    case False
    have "n div 1000 < 10 ^ (3 * j + r)"
      using Suc.prems by (intro less_mult_imp_div_less) (simp add: power_add)
    with Suc False show ?thesis
      by (simp add: grouped.simps [of n])
  qed
qed

lemma with_commas_eq:
  assumes "length (grouped n) \<le> cap"
  shows "with_commas cap n = Inr (grouped n)"
  using assms by (simp add: with_commas_def push_def comma_loop_eq grouped_loop)

lemma bound32: "unat (n :: u32) < 10 ^ (3 * 3 + 1)"
  using unsigned_less [of n, where ?'a = nat] by simp

lemma bound64: "unat (n :: u64) < 10 ^ (3 * 6 + 2)"
  using unsigned_less [of n, where ?'a = nat] by simp

text \<open>
  \<^verbatim>\<open>SimpleItoaWithCommas\<close> of an unsigned number is its decimal text with a comma between
  groups of three digits, and the 13 and 26 characters of the local arrays are enough.
\<close>

theorem commas_fit:
  "SimpleItoaWithCommas_uint32 v = Inr (grouped (unat v)) \<and> SimpleItoaWithCommas_uint64 u = Inr (grouped (unat u))"
  using length_grouped [of 1 "unat v" 3] bound32 [of v] length_grouped [of 2 "unat u" 6] bound64 [of u]
  by (simp add: SimpleItoaWithCommas_uint32_def SimpleItoaWithCommas_uint64_def with_commas_eq)

text \<open>The signed overloads, the most negative value included: one character more.\<close>

definition grouped_int :: "int \<Rightarrow> bytes" where
  "grouped_int i = (if i < 0 then 45 # grouped (nat (- i)) else grouped (nat i))"

lemma commas_int32:
  assumes "- (2 ^ 31) \<le> i" "i < 2 ^ 31"
  shows "SimpleItoaWithCommas_int32 i = Inr (grouped_int i)"
proof -
  have "nat (- i) < 10 ^ (3 * 3 + 1)" "nat i < 10 ^ (3 * 3 + 1)"
    using assms by simp_all
  from length_grouped [OF _ _ this(1)] length_grouped [OF _ _ this(2)]
  have "length (grouped (nat (- i))) \<le> 13" "length (grouped (nat i)) \<le> 13"
    by simp_all
  then show ?thesis
    using assms unat_negated [where ?'a = 32, of i] unat_nonneg [where ?'a = 32, of i]
    by (simp add: SimpleItoaWithCommas_int32_def grouped_int_def Let_def with_commas_eq push_def)
qed

lemma commas_int64:
  assumes "- (2 ^ 63) \<le> i" "i < 2 ^ 63"
  shows "SimpleItoaWithCommas_int64 i = Inr (grouped_int i)"
proof -
  have "nat (- i) < 10 ^ (3 * 6 + 1)" "nat i < 10 ^ (3 * 6 + 1)"
    using assms by simp_all
  from length_grouped [OF _ _ this(1)] length_grouped [OF _ _ this(2)]
  have "length (grouped (nat (- i))) \<le> 25" "length (grouped (nat i)) \<le> 25"
    by simp_all
  then show ?thesis
    using assms unat_negated [where ?'a = 64, of i] unat_nonneg [where ?'a = 64, of i]
    by (simp add: SimpleItoaWithCommas_int64_def grouped_int_def Let_def with_commas_eq push_def)
qed

text \<open>Taking the commas out again gives the decimal text.\<close>

lemma digit_not_comma: "n < 10 \<Longrightarrow> (48 + word_of_nat n :: byte) \<noteq> 44"
  by (simp add: word_unat_eq_iff unat_word_ariths unat_of_nat)

lemma filter_padded: "filter (\<lambda>c. c \<noteq> 44) (padded k n) = padded k n"
  by (induction k arbitrary: n) (simp_all add: digit_not_comma)

lemma filter_decimal: "filter (\<lambda>c. c \<noteq> 44) (dec_nat n) = dec_nat n"
proof (induction n rule: dec_nat.induct)
  case (1 n)
  then show ?case
    by (subst (1 2) dec_nat.simps) (simp add: digit_not_comma)
qed

lemma grouped_without_commas: "filter (\<lambda>c. c \<noteq> 44) (grouped n) = dec_nat n"
proof (induction n rule: grouped.induct)
  case (1 n)
  show ?case
  proof (cases "n < 1000")
    case False
    then show ?thesis
      using 1 decimal_split [of 3 n] by (simp add: grouped.simps [of n] filter_padded)
  qed (simp add: grouped.simps [of n] filter_decimal)
qed

section \<open>Base 36\<close>

definition kAlphabet :: bytes where
  "kAlphabet = [48, 49, 50, 51, 52, 53, 54, 55, 56, 57,
     97, 98, 99, 100, 101, 102, 103, 104, 105, 106, 107, 108, 109,
     110, 111, 112, 113, 114, 115, 116, 117, 118, 119, 120, 121, 122]"

text \<open>The text at the end of the buffer, the NUL included; \<open>None\<close> when there is no room.\<close>

fun base36_loop :: "nat \<Rightarrow> nat \<Rightarrow> bytes \<Rightarrow> bytes option \<times> bytes" where
  "base36_loop buf_size number t =
    (if buf_size = length t then (None, t)
     else let t = kAlphabet ! (number mod 36) # t; number = number div 36 in
          if number \<noteq> 0 then base36_loop buf_size number t else (Some t, t))"

declare base36_loop.simps [simp del]

text \<open>The returned length and the contents of the buffer afterwards.\<close>

definition u64tostr_base36 :: "u64 \<Rightarrow> bytes \<Rightarrow> fault + (nat \<times> bytes)" where
  "u64tostr_base36 number buffer =
    (let buf_size = length buffer in
     bindE (assertE CheckFailed (buf_size > 0)) (\<lambda>_.
       let (r, t) = base36_loop buf_size (unat number) [0];
           buffer = take (buf_size - length t) buffer @ t in
       case r of None \<Rightarrow> Inr (0, buffer)
       | Some t \<Rightarrow> Inr (length t - 1, t @ drop (length t) buffer)))"

fun base36 :: "nat \<Rightarrow> bytes" where
  "base36 n = (if n < 36 then [] else base36 (n div 36)) @ [kAlphabet ! (n mod 36)]"

declare base36.simps [simp del]

lemma base36_loop_eq:
  "length t \<le> s \<Longrightarrow> base36_loop s n t =
    (if length (base36 n) + length t \<le> s then (Some (base36 n @ t), base36 n @ t)
     else (None, drop (length (base36 n) + length t - s) (base36 n @ t)))"
proof (induction n arbitrary: t rule: base36.induct)
  case (1 n)
  have "1 \<le> length (base36 n)"
    by (subst base36.simps) simp
  show ?case
  proof (cases "s = length t")
    case True
    with \<open>1 \<le> length (base36 n)\<close> show ?thesis
      by (cases "base36 n") (simp_all add: base36_loop.simps [of "length t" n])
  next
    case room: False
    with 1(2) have l: "length (kAlphabet ! (n mod 36) # t) \<le> s"
      by simp
    show ?thesis
    proof (cases "n < 36")
      case True
      with room l show ?thesis
        by (simp add: base36_loop.simps [of s n] base36.simps [of n] Let_def)
    next
      case False
      then have "n div 36 \<noteq> 0"
        by simp
      with 1(1) [OF False l] room False show ?thesis
        by (simp add: base36_loop.simps [of s n] base36.simps [of n] Let_def)
    qed
  qed
qed

lemma kAlphabet_digit: "n < 36 \<Longrightarrow> digit_value (kAlphabet ! n) = n"
proof -
  have "map digit_value kAlphabet = [0..<36]"
    by (simp add: kAlphabet_def digit_value_def ascii_isdigit_def ascii_isupper_def ascii_islower_def upt_rec)
  moreover have "length kAlphabet = 36"
    by (simp add: kAlphabet_def)
  moreover assume "n < 36"
  ultimately show ?thesis
    by (metis add_0 nth_map nth_upt)
qed

lemma radix_value_base36: "radix_value 36 0 (base36 n) = n"
proof (induction n rule: base36.induct)
  case (1 n)
  then show ?case
    by (subst base36.simps) (auto simp: radix_value_append kAlphabet_digit)
qed

lemma all_digits_base36: "all_digits 36 (base36 n)"
proof (induction n rule: base36.induct)
  case (1 n)
  then show ?case
    by (subst base36.simps) (simp add: kAlphabet_digit)
qed

text \<open>
  \<^verbatim>\<open>u64tostr_base36\<close> writes the base-36 text of the number and a NUL when the buffer has
  room for both, and its value read back in base 36 is the number; otherwise it returns 0.
  In both cases exactly the bytes of the buffer are touched.
\<close>

theorem base36_text:
  assumes "buffer \<noteq> []"
  shows "\<exists>r out. u64tostr_base36 n buffer = Inr (r, out) \<and> length out = length buffer
     \<and> (if length (base36 (unat n)) < length buffer
        then take (r + 1) out = base36 (unat n) @ [0] \<and> radix_value 36 0 (take r out) = unat n
        else r = 0)"
proof (cases "length (base36 (unat n)) < length buffer")
  case True
  with assms show ?thesis
    using base36_loop_eq [of "[0]" "length buffer" "unat n"]
    by (simp add: u64tostr_base36_def Let_def radix_value_base36)
next
  case False
  moreover have "1 \<le> length buffer"
    using assms by (cases buffer) simp_all
  ultimately show ?thesis
    using assms base36_loop_eq [of "[0]" "length buffer" "unat n"]
    by (simp add: u64tostr_base36_def Let_def)
qed

theorem base36_text_witness:
  "\<exists>r out. u64tostr_base36 1295 [7, 7, 7, 7] = Inr (r, out) \<and> length out = length [7 :: byte, 7, 7, 7]
     \<and> (if length (base36 (unat (1295 :: u64))) < length [7 :: byte, 7, 7, 7]
        then take (r + 1) out = base36 (unat (1295 :: u64)) @ [0] \<and> radix_value 36 0 (take r out) = unat (1295 :: u64)
        else r = 0)"
  by (rule base36_text) simp

text \<open>The counted parser accepts the text in base 36.\<close>

lemma base36_parse:
  assumes "int n < 2 ^ 63"
  shows "safe_strto64_base (base36 n) 36 = Inr (int n)"
proof -
  have ne: "base36 n \<noteq> []"
    by (subst base36.simps) simp
  have dig: "digit_value c < 36" if "c \<in> set (base36 n)" for c
    using all_digits_base36 [of n] that by (auto simp: all_digits_def)
  have nosp: "\<not> ascii_isspace c" "c \<noteq> 43" "c \<noteq> 45" if "digit_value c < 36" for c
    using that by (auto simp: digit_value_def ascii_isspace_iff ascii_isdigit_def ascii_isupper_def
        ascii_islower_def byte_le_unat word_unat_eq_iff split: if_splits)
  have h: "digit_value (hd (base36 n)) < 36" "digit_value (last (base36 n)) < 36"
    using ne by (auto intro: dig)
  have "trim ([] @ base36 n @ []) = base36 n"
    using ne h nosp by (intro trim_core) simp_all
  moreover have "sign_of (base36 n) = []"
    using h nosp by (simp add: sign_of_def)
  ultimately have "safe_int_internal int64 (base36 n) 36 = digits_value int64 False (int 36) (base36 n)"
    using ne by (simp add: safe_int_internal_sign Let_def strip_prefix_def)
  then show ?thesis
    using assms digits_value_eq [of 36 int64 False "base36 n"] radix_value_base36 [of n] all_digits_base36 [of n]
    by (simp add: safe_strto64_base_def Let_def signed_value_def) (simp add: int64_def)
qed

section \<open>Hexadecimal\<close>

definition hexdigits :: bytes where
  "hexdigits = [48, 49, 50, 51, 52, 53, 54, 55, 56, 57, 97, 98, 99, 100, 101, 102]"

text \<open>\<^verbatim>\<open>FastHexToBuffer\<close>: the text that starts at the returned pointer, in an array of 22.\<close>

fun hex_loop :: "nat \<Rightarrow> bytes \<Rightarrow> fault + bytes" where
  "hex_loop i t =
    bindE (push 22 (hexdigits ! (i mod 16)) t) (\<lambda>t.
      let i = i div 16 in if i > 0 then hex_loop i t else Inr t)"

declare hex_loop.simps [simp del]

definition FastHexToBuffer :: "int \<Rightarrow> fault + bytes" where
  "FastHexToBuffer i =
    bindE (assertE CheckFailed (i \<ge> 0)) (\<lambda>_.
    bindE (push 22 0 []) (\<lambda>t. hex_loop (nat i) t))"

fun InternalFastHexToBuffer_loop :: "u64 \<Rightarrow> nat \<Rightarrow> bytes \<Rightarrow> bytes" where
  "InternalFastHexToBuffer_loop v 0 t = t"
| "InternalFastHexToBuffer_loop v (Suc i) t =
     InternalFastHexToBuffer_loop (drop_bit 4 v) i (hexdigits ! unat (v AND 0xf) # t)"

definition InternalFastHexToBuffer :: "u64 \<Rightarrow> nat \<Rightarrow> bytes" where
  "InternalFastHexToBuffer v num_byte = InternalFastHexToBuffer_loop v num_byte [0]"

definition FastHex64ToBuffer :: "u64 \<Rightarrow> bytes" where
  "FastHex64ToBuffer v = InternalFastHexToBuffer v 16"

definition FastHex32ToBuffer :: "u32 \<Rightarrow> bytes" where
  "FastHex32ToBuffer v = InternalFastHexToBuffer (ucast v) 8"

text \<open>\<^verbatim>\<open>buf\<close> is a C string: the bytes before its NUL, which is not a hexadecimal digit.\<close>

fun HexDigitsPrefix :: "bytes \<Rightarrow> nat \<Rightarrow> bool" where
  "HexDigitsPrefix buf 0 = True"
| "HexDigitsPrefix [] (Suc n) = ascii_isxdigit 0"
| "HexDigitsPrefix (c # buf) (Suc n) = (ascii_isxdigit c \<and> HexDigitsPrefix buf n)"

lemma hexdigits_value: "n < 16 \<Longrightarrow> digit_value (hexdigits ! n) = n"
proof -
  have "map digit_value hexdigits = [0..<16]"
    by (simp add: hexdigits_def digit_value_def ascii_isdigit_def ascii_isupper_def ascii_islower_def upt_rec)
  moreover have "length hexdigits = 16"
    by (simp add: hexdigits_def)
  moreover assume "n < 16"
  ultimately show ?thesis
    by (metis add_0 nth_map nth_upt)
qed

text \<open>\<open>k\<close> hexadecimal digits of \<open>n\<close>, from the most significant.\<close>

fun hex_padded :: "nat \<Rightarrow> nat \<Rightarrow> bytes" where
  "hex_padded 0 n = []"
| "hex_padded (Suc k) n = hex_padded k (n div 16) @ [hexdigits ! (n mod 16)]"

lemma length_hex_padded [simp]: "length (hex_padded k n) = k"
  by (induction k arbitrary: n) simp_all

lemma radix_value_hex_padded: "radix_value 16 0 (hex_padded k n) = n mod 16 ^ k"
proof (induction k arbitrary: n)
  case (Suc k)
  have "n div 16 mod 16 ^ k * 16 + n mod 16 = n mod (16 * 16 ^ k)"
    by (simp add: mod_mult2_eq)
  with Suc show ?case
    by (simp add: radix_value_append hexdigits_value)
qed simp

lemma InternalFastHexToBuffer_loop_eq:
  "InternalFastHexToBuffer_loop v k t = hex_padded k (unat v) @ t"
proof (induction k arbitrary: v t)
  case (Suc k)
  have "unat (v AND 0xf) = unat v mod 16"
  proof -
    have "v AND 0xf = take_bit 4 v"
      by (simp add: take_bit_eq_mask mask_eq_exp_minus_1)
    then have "unat (v AND 0xf) = take_bit 4 (unat v)"
      by (simp add: unsigned_take_bit_eq)
    then show ?thesis
      by (simp add: take_bit_eq_mod)
  qed
  moreover have "unat (drop_bit 4 v) = unat v div 16"
    by (simp add: drop_bit_eq_div unat_div_distrib)
  ultimately show ?case
    using Suc by simp
qed simp

text \<open>
  the fixed-width hexadecimal printers write 16 (or 8) digits and a NUL, and reading the
  digits in base 16 gives the value back.
\<close>

theorem fast_hex_value:
  "length (FastHex64ToBuffer v) = 17 \<and> radix_value 16 0 (take 16 (FastHex64ToBuffer v)) = unat v
   \<and> length (FastHex32ToBuffer w) = 9 \<and> radix_value 16 0 (take 8 (FastHex32ToBuffer w)) = unat w"
proof -
  have "unat v mod 16 ^ 16 = unat v" "unat w mod 16 ^ 8 = unat w"
    using unsigned_less [of v, where ?'a = nat] unsigned_less [of w, where ?'a = nat] by simp_all
  moreover have "unat (ucast w :: u64) = unat w"
    using unsigned_less [of w, where ?'a = nat]
    by (simp add: unsigned_ucast_eq take_bit_nat_eq_self)
  ultimately show ?thesis
    by (simp add: FastHex64ToBuffer_def FastHex32ToBuffer_def InternalFastHexToBuffer_def
          InternalFastHexToBuffer_loop_eq radix_value_hex_padded)
qed

fun hex_text :: "nat \<Rightarrow> bytes" where
  "hex_text n = (if n < 16 then [] else hex_text (n div 16)) @ [hexdigits ! (n mod 16)]"

declare hex_text.simps [simp del]

lemma length_hex_text: "n < 16 ^ Suc k \<Longrightarrow> length (hex_text n) \<le> Suc k"
proof (induction k arbitrary: n)
  case 0
  then show ?case by (simp add: hex_text.simps)
next
  case (Suc k)
  then have "length (hex_text (n div 16)) \<le> Suc k"
    by (intro Suc.IH) (simp add: less_mult_imp_div_less)
  then show ?case
    by (subst hex_text.simps) simp
qed

lemma hex_loop_eq: "length (hex_text n) + length t \<le> 22 \<Longrightarrow> hex_loop n t = Inr (hex_text n @ t)"
proof (induction n arbitrary: t rule: hex_text.induct)
  case (1 n)
  show ?case
  proof (cases "n < 16")
    case True
    then show ?thesis
      using 1(2) by (simp add: hex_loop.simps [of n] hex_text.simps [of n] push_def Let_def)
  next
    case False
    then have "n div 16 > 0"
      by (simp add: div_greater_zero_iff)
    with 1(1) [OF False, of "hexdigits ! (n mod 16) # t"] 1(2) False show ?thesis
      by (simp add: hex_loop.simps [of n] hex_text.simps [of n] push_def Let_def)
  qed
qed

lemma radix_value_hex_text: "radix_value 16 0 (hex_text n) = n"
proof (induction n rule: hex_text.induct)
  case (1 n)
  then show ?case
    by (subst hex_text.simps) (auto simp: radix_value_append hexdigits_value)
qed

text \<open>\<^verbatim>\<open>FastHexToBuffer\<close> stays in its 22 characters for every \<^verbatim>\<open>int\<close> it accepts.\<close>

lemma FastHexToBuffer_eq:
  "FastHexToBuffer i = (if i < 0 then Inl CheckFailed else Inr (hex_text (nat i) @ [0]))" if "i < 2 ^ 31"
proof -
  have "nat i < 16 ^ Suc 7"
    using that by simp
  from length_hex_text [OF this] show ?thesis
    by (simp add: FastHexToBuffer_def push_def hex_loop_eq)
qed

section \<open>Abbreviated sizes\<close>

text \<open>
  \<^verbatim>\<open>ItoaKMGT\<close>: \<open>i\<close> is an \<^verbatim>\<open>int64\<close>; \<^verbatim>\<open>StringPrintf\<close> writes the sign, the value and the suffix.
\<close>

definition ItoaKMGT :: "int \<Rightarrow> bytes" where
  "ItoaKMGT i =
    (let sign = (if i < 0 then [45] else []);
         i = (if i < 0 then - (if i = - (2 ^ 63) then i + 1 else i) else i) in
     if drop_bit 40 i > 1 then sign @ dec_int (drop_bit 40 i) @ [84]
     else if drop_bit 30 i > 1 then sign @ dec_int (drop_bit 30 i) @ [71]
     else if drop_bit 20 i > 1 then sign @ dec_int (drop_bit 20 i) @ [77]
     else if drop_bit 10 i > 1 then sign @ dec_int (drop_bit 10 i) @ [75]
     else sign @ dec_int i)"

text \<open>
  The text names a whole number of units that does not exceed the magnitude and is less
  than one unit below it, with at least two units except for plain numbers.
\<close>

lemma ItoaKMGT_units:
  assumes "0 \<le> i"
  shows "\<exists>k suffix. (k, suffix) \<in> {(0, []), (10, [75]), (20, [77]), (30, [71]), (40, [84])}
     \<and> ItoaKMGT i = dec_int (i div 2 ^ k) @ suffix
     \<and> (k = 0 \<or> 2 \<le> i div 2 ^ k) \<and> i div 2 ^ k * 2 ^ k \<le> i \<and> i < (i div 2 ^ k + 1) * 2 ^ k"
proof -
  have fl: "i div 2 ^ k * 2 ^ k \<le> i" "i < (i div 2 ^ k + 1) * 2 ^ k" for k :: nat
  proof -
    have "0 \<le> i mod 2 ^ k" "i mod 2 ^ k < 2 ^ k"
      by simp_all
    with div_mult_mod_eq [of i "2 ^ k"] show "i div 2 ^ k * 2 ^ k \<le> i" "i < (i div 2 ^ k + 1) * 2 ^ k"
      by (simp_all add: distrib_right, linarith+)?
  qed
  have i: "\<not> i < 0"
    using assms by simp
  consider "drop_bit 40 i > 1" | "\<not> drop_bit 40 i > 1" "drop_bit 30 i > 1"
    | "\<not> drop_bit 40 i > 1" "\<not> drop_bit 30 i > 1" "drop_bit 20 i > 1"
    | "\<not> drop_bit 40 i > 1" "\<not> drop_bit 30 i > 1" "\<not> drop_bit 20 i > 1" "drop_bit 10 i > 1"
    | "\<not> drop_bit 40 i > 1" "\<not> drop_bit 30 i > 1" "\<not> drop_bit 20 i > 1" "\<not> drop_bit 10 i > 1"
    by blast
  then show ?thesis
  proof cases
    case 1
    then show ?thesis
      using i fl [of 40] by (intro exI [of _ "40 :: nat"] exI [of _ "[84]"])
        (simp add: ItoaKMGT_def Let_def drop_bit_eq_div)
  next
    case 2
    then show ?thesis
      using i fl [of 30] by (intro exI [of _ "30 :: nat"] exI [of _ "[71]"])
        (simp add: ItoaKMGT_def Let_def drop_bit_eq_div)
  next
    case 3
    then show ?thesis
      using i fl [of 20] by (intro exI [of _ "20 :: nat"] exI [of _ "[77]"])
        (simp add: ItoaKMGT_def Let_def drop_bit_eq_div)
  next
    case 4
    then show ?thesis
      using i fl [of 10] by (intro exI [of _ "10 :: nat"] exI [of _ "[75]"])
        (simp add: ItoaKMGT_def Let_def drop_bit_eq_div)
  next
    case 5
    then show ?thesis
      using i fl [of 0] by (intro exI [of _ "0 :: nat"] exI [of _ "[]"])
        (simp add: ItoaKMGT_def Let_def drop_bit_eq_div)
  qed
qed

text \<open>The comment's example: 57185920 is printed as 54M.\<close>

lemma ItoaKMGT_example: "ItoaKMGT 57185920 = [53, 52, 77]"
  by (simp add: ItoaKMGT_def drop_bit_eq_div dec_int_def dec_nat.simps)

section \<open>Recognisers\<close>

definition ConsumeStrayLeadingZeroes :: "bytes \<Rightarrow> bytes" where
  "ConsumeStrayLeadingZeroes s =
    (let n = length s in
     if n > 1 \<and> s ! 0 = 48 then
       let remove = 1 + length (takeWhile (\<lambda>c. c = 48) (drop 1 s));
           remove = (if remove = n then remove - 1 else remove) in
       drop remove s
     else s)"

lemma ConsumeStrayLeadingZeroes_eq:
  "ConsumeStrayLeadingZeroes s =
    (if s \<noteq> [] \<and> dropWhile (\<lambda>c. c = 48) s = [] then [48] else dropWhile (\<lambda>c. c = 48) s)"
proof (cases s)
  case (Cons c cs)
  define z where "z = takeWhile (\<lambda>c. c = 48) cs"
  define d where "d = dropWhile (\<lambda>c. c = 48) cs"
  have zd: "cs = z @ d" and z: "z = replicate (length z) 48"
    by (auto simp: z_def d_def dest: set_takeWhileD intro!: replicate_length_same [symmetric])
  show ?thesis
  proof (cases "c = 48")
    case True
    have "drop (length z) (48 # z) = [48]"
    proof -
      have "48 # z = replicate (Suc (length z)) 48"
        using z by simp
      then show ?thesis
        by (simp only: drop_replicate) simp
    qed
    moreover have L: "ConsumeStrayLeadingZeroes s =
        (if cs = [] then s else drop (if length z = length cs then length z else 1 + length z) (48 # cs))"
      by (simp add: Cons True ConsumeStrayLeadingZeroes_def z_def)
    moreover have "dropWhile (\<lambda>c. c = 48) s = d"
      by (simp add: Cons True d_def)
    moreover have "length z = length cs \<longleftrightarrow> d = []"
      using zd by simp
    moreover have "drop (1 + length z) (48 # cs) = d" "d = [] \<Longrightarrow> cs = z"
      using zd by simp_all
    ultimately show ?thesis
      using Cons True by (cases "d = []") auto
  qed (simp add: Cons ConsumeStrayLeadingZeroes_def)
qed (simp add: ConsumeStrayLeadingZeroes_def)

text \<open>The value of the digits is kept, and no leading zero is left but in the text 0 itself.\<close>

lemma radix_value_dropWhile: "radix_value b 0 (dropWhile (\<lambda>c. c = 48) ds) = radix_value b 0 ds"
  by (induction ds) (simp_all add: digit_value_def ascii_isdigit_def)

lemma stray_zeroes:
  "radix_value b 0 (ConsumeStrayLeadingZeroes ds) = radix_value b 0 ds"
  "ConsumeStrayLeadingZeroes ds \<noteq> [] \<Longrightarrow> hd (ConsumeStrayLeadingZeroes ds) = 48 \<Longrightarrow>
     ConsumeStrayLeadingZeroes ds = [48]"
proof -
  show "radix_value b 0 (ConsumeStrayLeadingZeroes ds) = radix_value b 0 ds"
    using radix_value_dropWhile [of b ds]
    by (auto simp: ConsumeStrayLeadingZeroes_eq digit_value_def ascii_isdigit_def simp del: dropWhile_eq_Nil_conv)
  show "ConsumeStrayLeadingZeroes ds \<noteq> [] \<Longrightarrow> hd (ConsumeStrayLeadingZeroes ds) = 48 \<Longrightarrow>
     ConsumeStrayLeadingZeroes ds = [48]"
    using hd_dropWhile [of "\<lambda>c. c = 48" ds]
    by (auto simp: ConsumeStrayLeadingZeroes_eq simp del: dropWhile_eq_Nil_conv split: if_splits)
qed

text \<open>\<^verbatim>\<open>ParseLeadingBoolValue\<close> of a C string: at most six alphanumerics are collected.\<close>

definition leading_word :: "bytes \<Rightarrow> bytes" where
  "leading_word s = map ascii_tolower (take 6 (takeWhile ascii_isalnum (dropWhile ascii_isspace s)))"

definition ParseLeadingBoolValue :: "bytes \<Rightarrow> bool \<Rightarrow> bool" where
  "ParseLeadingBoolValue s deflt =
    (let w = leading_word s in
     if length w = 0 \<or> length w > 5 then deflt
     else if length w = 1 then
       (if w ! 0 = 48 \<or> w ! 0 = 110 then False
        else if w ! 0 = 49 \<or> w ! 0 = 121 then True else deflt)
     else if length w = 2 then (if w = [110, 111] then False else deflt)
     else if length w = 3 then (if w = [121, 101, 115] then True else deflt)
     else if length w = 4 then (if w = [116, 114, 117, 101] then True else deflt)
     else (if w = [102, 97, 108, 115, 101] then False else deflt))"

lemma ParseLeadingBoolValue_words:
  "ParseLeadingBoolValue s deflt =
    (if leading_word s \<in> {[49], [121], [121, 101, 115], [116, 114, 117, 101]} then True
     else if leading_word s \<in> {[48], [110], [110, 111], [102, 97, 108, 115, 101]} then False
     else deflt)"
proof -
  have "length w = 1 \<longleftrightarrow> (\<exists>c. w = [c])" for w :: bytes
    by (cases w) auto
  then show ?thesis
    by (auto simp: ParseLeadingBoolValue_def Let_def)
qed

end
