(* ===== verification/AutoDigits.thy ===== *)
theory AutoDigits
  imports ParseInts "HOL-Library.List_Lexorder" "HOL-Library.Product_Lexorder"
begin

text \<open>
  \<^verbatim>\<open>AutoDigitStrCmp\<close> of \<^verbatim>\<open>gbase/strings/numbers.cc\<close>, the comparison that treats runs of digits
  as numbers, and the predicates built on it.  The two indices into a string are its
  unread rest.  Whether \<^verbatim>\<open>char\<close> is signed depends on the build and is a parameter.  The
  specification maps a string to a list of keys; the comparison is the lexicographic
  order of the keys, so it is a total preorder, and in strict mode a total order.
\<close>

section \<open>The comparison\<close>

text \<open>Equally long runs, digit by digit.\<close>

fun compare_runs :: "build \<Rightarrow> bytes \<Rightarrow> bytes \<Rightarrow> int" where
  "compare_runs sg (x # a) (y # b) =
    (if char_value sg x < char_value sg y then -1
     else if char_value sg x > char_value sg y then 1
     else compare_runs sg a b)"
| "compare_runs sg _ _ = 0"

lemma shorter_after_run:
  "ascii_isdigit x \<Longrightarrow> length (dropWhile ascii_isdigit (dropWhile (\<lambda>c. c = 48) (x # a))) < length (x # a)"
proof -
  assume x: "ascii_isdigit x"
  have "length (dropWhile ascii_isdigit (dropWhile (\<lambda>c. c = 48) a)) \<le> length a"
    by (meson length_dropWhile_le le_trans)
  moreover have "length (dropWhile ascii_isdigit a) \<le> length a"
    by (rule length_dropWhile_le)
  ultimately show ?thesis
    using x by auto
qed

function AutoDigitStrCmp :: "build \<Rightarrow> bytes \<Rightarrow> bytes \<Rightarrow> bool \<Rightarrow> int" where
  "AutoDigitStrCmp sg (x # a) (y # b) strict =
    (if ascii_isdigit x \<and> ascii_isdigit y then
       let azeroes = length (takeWhile (\<lambda>c. c = 48) (x # a));
           bzeroes = length (takeWhile (\<lambda>c. c = 48) (y # b));
           arest = dropWhile (\<lambda>c. c = 48) (x # a);
           brest = dropWhile (\<lambda>c. c = 48) (y # b);
           arun = takeWhile ascii_isdigit arest;
           brun = takeWhile ascii_isdigit brest in
       if length arun < length brun then -1
       else if length arun > length brun then 1
       else if compare_runs sg arun brun \<noteq> 0 then compare_runs sg arun brun
       else if strict \<and> azeroes \<noteq> bzeroes then (if azeroes > bzeroes then -1 else 1)
       else AutoDigitStrCmp sg (dropWhile ascii_isdigit arest) (dropWhile ascii_isdigit brest) strict
     else if char_value sg x < char_value sg y then -1
     else if char_value sg x > char_value sg y then 1
     else AutoDigitStrCmp sg a b strict)"
| "AutoDigitStrCmp sg (x # a) [] strict = 1"
| "AutoDigitStrCmp sg [] (y # b) strict = -1"
| "AutoDigitStrCmp sg [] [] strict = 0"
  by pat_completeness auto
termination
  by (relation "measure (\<lambda>(sg, a, b, strict). length a)") (simp, simp only: in_measure case_prod_conv, rule shorter_after_run, simp_all)

definition AutoDigitLessThan :: "build \<Rightarrow> bytes \<Rightarrow> bytes \<Rightarrow> bool" where
  "AutoDigitLessThan sg a b \<longleftrightarrow> AutoDigitStrCmp sg a b False < 0"

definition StrictAutoDigitLessThan :: "build \<Rightarrow> bytes \<Rightarrow> bytes \<Rightarrow> bool" where
  "StrictAutoDigitLessThan sg a b \<longleftrightarrow> AutoDigitStrCmp sg a b True < 0"

definition autodigit_less :: "build \<Rightarrow> bytes \<Rightarrow> bytes \<Rightarrow> bool" where
  "autodigit_less sg a b \<longleftrightarrow> AutoDigitLessThan sg a b"

definition autodigit_greater :: "build \<Rightarrow> bytes \<Rightarrow> bytes \<Rightarrow> bool" where
  "autodigit_greater sg a b \<longleftrightarrow> AutoDigitLessThan sg b a"

definition strict_autodigit_less :: "build \<Rightarrow> bytes \<Rightarrow> bytes \<Rightarrow> bool" where
  "strict_autodigit_less sg a b \<longleftrightarrow> StrictAutoDigitLessThan sg a b"

definition strict_autodigit_greater :: "build \<Rightarrow> bytes \<Rightarrow> bytes \<Rightarrow> bool" where
  "strict_autodigit_greater sg a b \<longleftrightarrow> StrictAutoDigitLessThan sg b a"

section \<open>Keys\<close>

type_synonym key = "int \<times> nat \<times> int"

text \<open>
  A run of digits counts as its value, then (in strict mode) as the number of its leading
  zeroes, more zeroes first; any other character counts as itself.
\<close>

function keys :: "build \<Rightarrow> bool \<Rightarrow> bytes \<Rightarrow> key list" where
  "keys sg strict [] = []"
| "keys sg strict (x # a) =
    (if ascii_isdigit x then
       let zeroes = length (takeWhile (\<lambda>c. c = 48) (x # a)); rest = dropWhile (\<lambda>c. c = 48) (x # a) in
       (48, radix_value 10 0 (takeWhile ascii_isdigit rest), if strict then - int zeroes else 0)
         # keys sg strict (dropWhile ascii_isdigit rest)
     else (char_value sg x, 0, 0) # keys sg strict a)"
  by pat_completeness auto
termination
  by (relation "measure (\<lambda>(sg, strict, a). length a)") (simp, simp only: in_measure case_prod_conv, rule shorter_after_run, simp_all)

text \<open>Three-way comparison in a linear order.\<close>

definition compare :: "'a::linorder \<Rightarrow> 'a \<Rightarrow> int" where
  "compare x y = (if x < y then -1 else if y < x then 1 else 0)"

lemma compare_eq_0 [simp]: "compare x y = 0 \<longleftrightarrow> x = y"
  by (auto simp: compare_def)

lemma compare_less_0 [simp]: "compare x y < 0 \<longleftrightarrow> x < y"
  by (simp add: compare_def)

lemma compare_Cons: "compare (x # xs) (y # ys) = (if compare x y \<noteq> 0 then compare x y else compare xs ys)"
  by (auto simp: compare_def)

lemma compare_Pair: "compare (x, u) (y, v) = (if compare x y \<noteq> 0 then compare x y else compare u v)"
  by (auto simp: compare_def)

lemma compare_Nil [simp]: "compare [] (y # ys) = -1" "compare (x # xs) [] = 1" "compare [] [] = 0"
  by (simp_all add: compare_def)

section \<open>Runs of digits compare as numbers\<close>

lemma radix_value_acc: "radix_value b v cs = v * b ^ length cs + radix_value b 0 cs"
proof (induction cs arbitrary: v)
  case (Cons c cs)
  show ?case
    using Cons [of "v * b + digit_value c"] Cons [of "digit_value c"] by (simp add: algebra_simps)
qed simp

lemma radix_value_less: "all_digits b cs \<Longrightarrow> radix_value b 0 cs < b ^ length cs"
proof (induction cs)
  case (Cons c cs)
  then have "digit_value c * b ^ length cs + radix_value b 0 cs < (digit_value c + 1) * b ^ length cs"
    by simp
  also have "\<dots> \<le> b * b ^ length cs"
    using Cons.prems by (intro mult_le_mono1) simp
  finally show ?case
    using radix_value_acc [of b "digit_value c" cs] by simp
qed simp

definition digits :: "bytes \<Rightarrow> bool" where
  "digits ds \<longleftrightarrow> list_all ascii_isdigit ds"

lemma digits_all: "digits ds \<Longrightarrow> all_digits 10 ds"
  by (simp add: digits_def decimal_digits list_all_iff)

lemma digit_char_value: "ascii_isdigit x \<Longrightarrow> char_value b x = 48 + int (digit_value x)"
proof -
  assume x: "ascii_isdigit x"
  then have "x < 128" "48 \<le> unat x"
    by (auto simp: ascii_isdigit_def byte_le_unat)
  then show ?thesis
    using x by (simp add: char_value_ascii digit_value_def of_nat_diff)
qed

lemma longer_run_greater:
  assumes "digits a" "digits b" "length a < length b" "hd b \<noteq> 48"
  shows "radix_value 10 0 a < radix_value 10 0 b"
proof -
  from assms(3) obtain y ys where b: "b = y # ys"
    by (cases b) auto
  have "ascii_isdigit y" "y \<noteq> 48"
    using assms(2,4) by (simp_all add: b digits_def)
  then have "1 \<le> digit_value y"
    by (auto simp: digit_value_def ascii_isdigit_def byte_le_unat word_unat_eq_iff)
  have "radix_value 10 0 a < 10 ^ length a"
    by (intro radix_value_less digits_all assms)
  also have "\<dots> \<le> 10 ^ length ys"
    using assms(3) by (simp add: b power_increasing)
  also have "\<dots> \<le> digit_value y * 10 ^ length ys + radix_value 10 0 ys"
    using \<open>1 \<le> digit_value y\<close> by (simp add: trans_le_add1)
  finally show ?thesis
    using radix_value_acc [of 10 "digit_value y" ys] by (simp add: b)
qed

lemma compare_runs_value:
  "length a = length b \<Longrightarrow> digits a \<Longrightarrow> digits b \<Longrightarrow>
    compare_runs sg a b = compare (radix_value 10 0 a) (radix_value 10 0 b)"
proof (induction a b rule: list_induct2)
  case (Cons x a y b)
  let ?n = "10 ^ length a :: nat"
  have d: "ascii_isdigit x" "ascii_isdigit y" "digits a" "digits b"
    using Cons.prems by (simp_all add: digits_def)
  have r: "radix_value 10 0 a < ?n" "radix_value 10 0 b < ?n"
    using d Cons.hyps radix_value_less [of 10 a] radix_value_less [of 10 b] by (simp_all add: digits_all)
  have v: "radix_value 10 0 (x # a) = digit_value x * ?n + radix_value 10 0 a"
    "radix_value 10 0 (y # b) = digit_value y * ?n + radix_value 10 0 b"
    using radix_value_acc [of 10 "digit_value x" a] radix_value_acc [of 10 "digit_value y" b] Cons.hyps by simp_all
  have less: "u * ?n + s < w * ?n + t" if "u < w" "s < ?n" for u w s t :: nat
  proof -
    have "u * ?n + s < (u + 1) * ?n"
      using that(2) by simp
    also have "\<dots> \<le> w * ?n"
      using that(1) by (intro mult_le_mono1) simp
    finally show ?thesis
      by simp
  qed
  consider "digit_value x < digit_value y" | "digit_value y < digit_value x" | "digit_value x = digit_value y"
    by linarith
  then show ?case
  proof cases
    case 1
    with less [OF 1 r(1), of "radix_value 10 0 b"] show ?thesis
      unfolding v by (simp add: compare_def digit_char_value d)
  next
    case 2
    with less [OF 2 r(2), of "radix_value 10 0 a"] show ?thesis
      unfolding v by (simp add: compare_def digit_char_value d)
  next
    case 3
    with Cons.IH d show ?thesis
      unfolding v by (simp add: compare_def digit_char_value)
  qed
qed (simp add: compare_def)

lemma digits_takeWhile [simp]: "digits (takeWhile ascii_isdigit xs)"
  by (auto simp: digits_def list_all_iff dest: set_takeWhileD)

lemma hd_run_no_zero: "takeWhile ascii_isdigit (dropWhile (\<lambda>c. c = 48) xs) \<noteq> [] \<Longrightarrow>
    hd (takeWhile ascii_isdigit (dropWhile (\<lambda>c. c = 48) xs)) \<noteq> 48"
proof -
  let ?d = "dropWhile (\<lambda>c. c = 48) xs"
  assume "takeWhile ascii_isdigit ?d \<noteq> []"
  then have "?d \<noteq> []" "hd (takeWhile ascii_isdigit ?d) = hd ?d"
    by (cases ?d; auto split: if_splits)+
  with hd_dropWhile [of "\<lambda>c. c = 48" xs] show ?thesis
    by simp
qed

text \<open>The part of the comparison that decides between two runs.\<close>

definition compare_two_runs :: "build \<Rightarrow> bytes \<Rightarrow> bytes \<Rightarrow> int" where
  "compare_two_runs sg arun brun =
    (if length arun < length brun then -1
     else if length arun > length brun then 1
     else compare_runs sg arun brun)"

lemma compare_two_runs_value:
  assumes "digits a" "digits b" "a \<noteq> [] \<longrightarrow> hd a \<noteq> 48" "b \<noteq> [] \<longrightarrow> hd b \<noteq> 48"
  shows "compare_two_runs sg a b = compare (radix_value 10 0 a) (radix_value 10 0 b)"
proof -
  consider "length a < length b" | "length b < length a" | "length a = length b"
    by linarith
  then show ?thesis
  proof cases
    case 1
    moreover from this have "hd b \<noteq> 48"
      using assms by auto
    ultimately show ?thesis
      using longer_run_greater [of a b] assms by (simp add: compare_two_runs_def compare_def)
  next
    case 2
    moreover from this have "hd a \<noteq> 48"
      using assms by auto
    ultimately show ?thesis
      using longer_run_greater [of b a] assms by (simp add: compare_two_runs_def compare_def)
  next
    case 3
    then show ?thesis
      using compare_runs_value [of a b sg] assms by (simp add: compare_two_runs_def)
  qed
qed

section \<open>The comparison is the order of the keys\<close>

lemma keys_digit_char:
  assumes "ascii_isdigit x" "\<not> ascii_isdigit y"
  shows "char_value sg x < char_value sg y \<longleftrightarrow> 48 < char_value sg y"
    and "char_value sg y < char_value sg x \<longleftrightarrow> char_value sg y < 48"
    and "char_value sg y \<noteq> 48"
proof -
  have x: "48 \<le> char_value sg x" "char_value sg x \<le> 57"
  proof -
    have "digit_value x \<le> 9"
      using assms(1) by (auto simp: digit_value_def ascii_isdigit_def byte_le_unat)
    then show "48 \<le> char_value sg x" "char_value sg x \<le> 57"
      unfolding digit_char_value [OF assms(1), of sg] by linarith+
  qed
  have y: "char_value sg y < 48 \<or> 57 < char_value sg y"
  proof (cases "y < 128")
    case True
    then show ?thesis
      using assms(2) by (auto simp: char_value_ascii ascii_isdigit_def word_le_def)
  next
    case False
    then have "128 \<le> uint y"
      by (simp add: word_less_def not_less)
    moreover have "sint y < 0"
    proof -
      have "bit y 7"
      proof -
        have "uint y < 256"
          using unsigned_less [of y, where ?'a = int] by simp
        then have "uint y div 128 = 1"
          using \<open>128 \<le> uint y\<close> by linarith
        then have "bit (uint y) 7"
          by (simp add: bit_iff_odd)
        then show ?thesis
          by (simp add: bit_uint_iff)
      qed
      then show ?thesis
        by (simp add: sint_uint bit_uint_iff signed_take_bit_negative_iff)
    qed
    ultimately show ?thesis
      by (cases sg) auto
  qed
  show "char_value sg x < char_value sg y \<longleftrightarrow> 48 < char_value sg y"
    "char_value sg y < char_value sg x \<longleftrightarrow> char_value sg y < 48" "char_value sg y \<noteq> 48"
    using x y by auto
qed

lemma AutoDigitStrCmp_keys:
  "AutoDigitStrCmp sg a b strict = compare (keys sg strict a) (keys sg strict b)"
proof (induction sg a b strict rule: AutoDigitStrCmp.induct)
  case (1 sg x a y b strict)
  show ?case
  proof (cases "ascii_isdigit x \<and> ascii_isdigit y")
    case True
    define za where "za = length (takeWhile (\<lambda>c. c = 48) (x # a))"
    define zb where "zb = length (takeWhile (\<lambda>c. c = 48) (y # b))"
    define ar where "ar = dropWhile (\<lambda>c. c = 48) (x # a)"
    define br where "br = dropWhile (\<lambda>c. c = 48) (y # b)"
    define u where "u = takeWhile ascii_isdigit ar"
    define v where "v = takeWhile ascii_isdigit br"
    define a' where "a' = dropWhile ascii_isdigit ar"
    define b' where "b' = dropWhile ascii_isdigit br"
    note ds = za_def [symmetric] zb_def [symmetric] ar_def [symmetric] br_def [symmetric]
      u_def [symmetric] v_def [symmetric] a'_def [symmetric] b'_def [symmetric]
    have runs: "compare_two_runs sg u v = compare (radix_value 10 0 u) (radix_value 10 0 v)"
      unfolding u_def v_def ar_def br_def
      by (intro compare_two_runs_value impI hd_run_no_zero digits_takeWhile)
    have IH: "AutoDigitStrCmp sg a' b' strict = compare (keys sg strict a') (keys sg strict b')"
      if "length u = length v" "compare_runs sg u v = 0" "\<not> (strict \<and> za \<noteq> zb)"
      using 1(1) [OF True refl refl refl refl refl refl] that unfolding ds by simp
    have L: "AutoDigitStrCmp sg (x # a) (y # b) strict =
        (if compare_two_runs sg u v \<noteq> 0 then compare_two_runs sg u v
         else if strict \<and> za \<noteq> zb then (if za > zb then -1 else 1)
         else AutoDigitStrCmp sg a' b' strict)"
      using True by (simp only: AutoDigitStrCmp.simps if_True Let_def ds) (simp add: compare_two_runs_def)
    have K: "keys sg strict (x # a) = (48, radix_value 10 0 u, if strict then - int za else 0) # keys sg strict a'"
      "keys sg strict (y # b) = (48, radix_value 10 0 v, if strict then - int zb else 0) # keys sg strict b'"
      using True by (simp_all only: keys.simps if_True Let_def ds)
    have Z: "compare (if strict then - int za else 0) (if strict then - int zb else (0 :: int))
        = (if strict \<and> za \<noteq> zb then (if za > zb then -1 else 1) else 0)"
      by (auto simp: compare_def)
    show ?thesis
    proof (cases "compare_two_runs sg u v = 0 \<and> \<not> (strict \<and> za \<noteq> zb)")
      case same: True
      then have "length u = length v" "compare_runs sg u v = 0"
        by (auto simp: compare_two_runs_def split: if_splits)
      with same IH have "AutoDigitStrCmp sg (x # a) (y # b) strict = compare (keys sg strict a') (keys sg strict b')"
        unfolding L by auto
      moreover have "radix_value 10 0 u = radix_value 10 0 v"
        using same runs by simp
      ultimately show ?thesis
        unfolding K compare_Cons compare_Pair Z using same by auto
    next
      case differ: False
      then show ?thesis
        unfolding L K compare_Cons compare_Pair Z runs [symmetric] by (auto simp: compare_def)
    qed
  next
    case False
    then consider "ascii_isdigit x" "\<not> ascii_isdigit y" | "ascii_isdigit y" "\<not> ascii_isdigit x"
      | "\<not> ascii_isdigit x" "\<not> ascii_isdigit y"
      by blast
    then show ?thesis
    proof cases
      case 1
      note c = keys_digit_char [OF 1, of sg]
      have "AutoDigitStrCmp sg (x # a) (y # b) strict = (if 48 < char_value sg y then -1 else 1)"
        using 1 c by (simp only: AutoDigitStrCmp.simps if_False simp_thms) auto
      moreover obtain k ks where "keys sg strict (x # a) = (48, k) # ks"
        using 1 by (simp add: Let_def)
      moreover have "keys sg strict (y # b) = (char_value sg y, 0, 0) # keys sg strict b"
        using 1 by simp
      ultimately show ?thesis
        unfolding compare_Cons compare_Pair using c by (auto simp: compare_def)
    next
      case 2
      note c = keys_digit_char [OF 2, of sg]
      have "AutoDigitStrCmp sg (x # a) (y # b) strict = (if char_value sg x < 48 then -1 else 1)"
        using 2 c by (simp only: AutoDigitStrCmp.simps if_False simp_thms) auto
      moreover obtain k ks where "keys sg strict (y # b) = (48, k) # ks"
        using 2 by (simp add: Let_def)
      moreover have "keys sg strict (x # a) = (char_value sg x, 0, 0) # keys sg strict a"
        using 2 by simp
      ultimately show ?thesis
        unfolding compare_Cons compare_Pair using c by (auto simp: compare_def)
    next
      case 3
      have IH: "AutoDigitStrCmp sg a b strict = compare (keys sg strict a) (keys sg strict b)"
        if "char_value sg x = char_value sg y"
        using 1(2) False that by simp
      show ?thesis
      proof (cases "char_value sg x = char_value sg y")
        case True
        with IH 3 show ?thesis
          by (simp add: compare_Cons compare_Pair)
      next
        case False
        with 3 show ?thesis
          by (auto simp: compare_Cons compare_Pair compare_def)
      qed
    qed
  qed
next
  case (2 sg x a strict)
  have "keys sg strict (x # a) \<noteq> []"
    by (simp add: Let_def)
  then show ?case
    by (auto simp: compare_def neq_Nil_conv keys.simps(1) simp del: keys.simps(2)) 
next
  case (3 sg y b strict)
  have "keys sg strict (y # b) \<noteq> []"
    by (simp add: Let_def)
  then show ?case
    by (auto simp: compare_def neq_Nil_conv keys.simps(1) simp del: keys.simps(2))
qed simp

section \<open>Orders\<close>

text \<open>Strict keys determine the string.\<close>

lemma radix_digits_inj:
  "length a = length b \<Longrightarrow> digits a \<Longrightarrow> digits b \<Longrightarrow> radix_value 10 0 a = radix_value 10 0 b \<Longrightarrow> a = b"
proof (induction a b rule: list_induct2)
  case (Cons x a y b)
  let ?n = "10 ^ length a :: nat"
  have d: "ascii_isdigit x" "ascii_isdigit y" "digits a" "digits b"
    using Cons.prems by (simp_all add: digits_def)
  have r: "radix_value 10 0 a < ?n" "radix_value 10 0 b < ?n"
    using d Cons.hyps radix_value_less [of 10 a] radix_value_less [of 10 b] by (simp_all add: digits_all)
  have e: "digit_value x * ?n + radix_value 10 0 a = digit_value y * ?n + radix_value 10 0 b"
    using radix_value_acc [of 10 "digit_value x" a] radix_value_acc [of 10 "digit_value y" b]
      Cons.hyps Cons.prems by simp
  have "digit_value x = (digit_value x * ?n + radix_value 10 0 a) div ?n"
    using r by simp
  also have "\<dots> = digit_value y"
    unfolding e using r by simp
  finally have xy: "digit_value x = digit_value y" .
  then have "x = y"
    using d by (auto simp: digit_value_def ascii_isdigit_def byte_le_unat word_unat_eq_iff)
  with e xy Cons.IH d show ?case
    by simp
qed simp

lemma run_eq:
  assumes "digits a" "digits b" "a \<noteq> [] \<longrightarrow> hd a \<noteq> 48" "b \<noteq> [] \<longrightarrow> hd b \<noteq> 48"
    "radix_value 10 0 a = radix_value 10 0 b"
  shows "a = b"
proof -
  have "compare_two_runs UnsignedChar a b = 0"
    using assms by (simp add: compare_two_runs_value)
  then have "length a = length b"
    by (auto simp: compare_two_runs_def split: if_splits)
  with assms show ?thesis
    by (intro radix_digits_inj)
qed

lemma run_decomp:
  "s = replicate (length (takeWhile (\<lambda>c. c = 48) s)) 48
     @ takeWhile ascii_isdigit (dropWhile (\<lambda>c. c = 48) s) @ dropWhile ascii_isdigit (dropWhile (\<lambda>c. c = 48) s)"
proof -
  have "takeWhile (\<lambda>c. c = 48) s = replicate (length (takeWhile (\<lambda>c. c = 48) s)) 48"
    by (auto dest: set_takeWhileD intro!: replicate_length_same [symmetric])
  then show ?thesis
    by (metis takeWhile_dropWhile_id)
qed

lemma char_value_inj: "char_value sg x = char_value sg y \<longleftrightarrow> x = y"
  by (cases sg) (auto dest: unsigned_word_eqI signed_word_eqI)

lemma keys_inj: "keys sg True a = keys sg True b \<Longrightarrow> a = b"
proof (induction "length a" arbitrary: a b rule: less_induct)
  case less
  show ?case
  proof (cases a)
    case Nil
    then show ?thesis
      using less.prems by (cases b) (auto simp: Let_def split: if_splits)
  next
    case a: (Cons x a')
    then obtain y b' where b: "b = y # b'"
      using less.prems by (cases b) (auto simp: Let_def split: if_splits)
    consider "ascii_isdigit x" "ascii_isdigit y" | "ascii_isdigit x" "\<not> ascii_isdigit y"
      | "ascii_isdigit y" "\<not> ascii_isdigit x" | "\<not> ascii_isdigit x" "\<not> ascii_isdigit y"
      by blast
    then show ?thesis
    proof cases
      case 1
      then have k: "length (takeWhile (\<lambda>c. c = 48) a) = length (takeWhile (\<lambda>c. c = 48) b)"
        "radix_value 10 0 (takeWhile ascii_isdigit (dropWhile (\<lambda>c. c = 48) a))
          = radix_value 10 0 (takeWhile ascii_isdigit (dropWhile (\<lambda>c. c = 48) b))"
        "keys sg True (dropWhile ascii_isdigit (dropWhile (\<lambda>c. c = 48) a))
          = keys sg True (dropWhile ascii_isdigit (dropWhile (\<lambda>c. c = 48) b))"
        using less.prems unfolding a b keys.simps if_True Let_def by simp_all
      have "takeWhile ascii_isdigit (dropWhile (\<lambda>c. c = 48) a) = takeWhile ascii_isdigit (dropWhile (\<lambda>c. c = 48) b)"
        by (intro run_eq k impI hd_run_no_zero digits_takeWhile)
      moreover have "dropWhile ascii_isdigit (dropWhile (\<lambda>c. c = 48) a) = dropWhile ascii_isdigit (dropWhile (\<lambda>c. c = 48) b)"
        using shorter_after_run [OF 1(1), of a'] k(3) by (intro less.hyps) (simp_all only: a)
      ultimately show ?thesis
        using run_decomp [of a] run_decomp [of b] k(1) by simp
    next
      case 2
      then show ?thesis
        using less.prems keys_digit_char(3) [OF 2, of sg] by (auto simp: a b Let_def)
    next
      case 3
      then show ?thesis
        using less.prems keys_digit_char(3) [OF 3, of sg] by (auto simp: a b Let_def)
    next
      case 4
      then show ?thesis
        using less.prems less.hyps [of a' b'] by (auto simp: a b char_value_inj)
    qed
  qed
qed

text \<open>
  the comparison of machine names is the lexicographic order of lists of keys in which a
  run of digits is one key, its number.
\<close>

theorem autodigit_is_key_order:
  "AutoDigitStrCmp sg a b strict =
    (if keys sg strict a < keys sg strict b then -1 else if keys sg strict b < keys sg strict a then 1 else 0)"
  unfolding AutoDigitStrCmp_keys compare_def ..

text \<open>
  Strict mode distinguishes any two different strings, and both modes are transitive and
  asymmetric, as sorting with them requires.
\<close>

lemma strict_autodigit_eq: "AutoDigitStrCmp sg a b True = 0 \<longleftrightarrow> a = b"
  unfolding AutoDigitStrCmp_keys compare_eq_0 using keys_inj by blast

lemma autodigit_less_keys:
  "AutoDigitLessThan sg a b \<longleftrightarrow> keys sg False a < keys sg False b"
  "StrictAutoDigitLessThan sg a b \<longleftrightarrow> keys sg True a < keys sg True b"
  by (simp_all add: AutoDigitLessThan_def StrictAutoDigitLessThan_def AutoDigitStrCmp_keys)

lemma autodigit_less_order:
  "\<not> autodigit_less sg a a"
  "autodigit_less sg a b \<Longrightarrow> autodigit_less sg b c \<Longrightarrow> autodigit_less sg a c"
  "autodigit_greater sg a b \<longleftrightarrow> autodigit_less sg b a"
  by (auto simp: autodigit_less_def autodigit_greater_def autodigit_less_keys)

lemma strict_autodigit_less_linear:
  "strict_autodigit_less sg a b \<or> a = b \<or> strict_autodigit_greater sg a b"
  "strict_autodigit_less sg a b \<Longrightarrow> strict_autodigit_less sg b c \<Longrightarrow> strict_autodigit_less sg a c"
  using keys_inj [of sg a b]
  by (auto simp: strict_autodigit_less_def strict_autodigit_greater_def autodigit_less_keys)

end
