(* ===== verification/StrToInts.thy ===== *)
theory StrToInts
  imports ParseInts
begin

text \<open>
  The parsers of C strings: \<^verbatim>\<open>gbase/strtoint.{h,cc}\<close> and the NUL-terminated overloads of
  \<^verbatim>\<open>gbase/strings/numbers.cc\<close>, on top of the C library's \<^verbatim>\<open>strtol\<close> family on an LP64
  platform.  A C string is the list of the bytes before its NUL, a pointer into it an
  offset.  \<^verbatim>\<open>errno\<close> is passed through.  The library functions follow the C standard: white
  space, a sign, a prefix \<^verbatim>\<open>0x\<close> only in front of a hexadecimal digit, digits; a value out of
  range is replaced by the limit and \<^verbatim>\<open>errno\<close> becomes \<^verbatim>\<open>ERANGE\<close>.
\<close>

section \<open>The C library\<close>

definition ERANGE :: int where "ERANGE = 34"

text \<open>The radix and the length of the prefix for the text behind the sign.\<close>

definition c_prefix :: "nat \<Rightarrow> bytes \<Rightarrow> nat \<times> nat" where
  "c_prefix base t =
    (if (base = 0 \<or> base = 16) \<and> has_0x t \<and> length t \<ge> 3 \<and> digit_value (t ! 2) < 16 then (16, 2)
     else if base = 0 then (if t \<noteq> [] \<and> t ! 0 = 48 then (8, 0) else (10, 0))
     else (base, 0))"

text \<open>Sign, magnitude and end pointer; the end pointer is 0 when there is no conversion.\<close>

definition c_scan :: "bytes \<Rightarrow> nat \<Rightarrow> bool \<times> nat \<times> nat" where
  "c_scan s base =
    (let t = dropWhile ascii_isspace s;
         skipped = length s - length t;
         sign = sign_of t;
         t = drop (length sign) t;
         (radix, prefix) = c_prefix base t;
         ds = takeWhile (\<lambda>c. digit_value c < radix) (drop prefix t) in
     if ds = [] then (False, 0, 0)
     else (sign = [45], radix_value radix 0 ds, skipped + length sign + prefix + length ds))"

definition strtol :: "int \<Rightarrow> bytes \<Rightarrow> nat \<Rightarrow> int \<times> nat \<times> int" where
  "strtol errno s base =
    (let (negative, n, e) = c_scan s base; v = signed_value negative n in
     if v < - (2 ^ 63) then (- (2 ^ 63), e, ERANGE)
     else if v > 2 ^ 63 - 1 then (2 ^ 63 - 1, e, ERANGE)
     else (v, e, errno))"

definition strtoul :: "int \<Rightarrow> bytes \<Rightarrow> nat \<Rightarrow> int \<times> nat \<times> int" where
  "strtoul errno s base =
    (let (negative, n, e) = c_scan s base in
     if int n > 2 ^ 64 - 1 then (2 ^ 64 - 1, e, ERANGE)
     else (signed_value negative n mod 2 ^ 64, e, errno))"

section \<open>Adapters\<close>

definition strto32_adapter :: "int \<Rightarrow> bytes \<Rightarrow> nat \<Rightarrow> int \<times> nat \<times> int" where
  "strto32_adapter errno s base =
    (let saved_errno = errno; (r, e, errno) = strtol 0 s base in
     if errno = ERANGE \<and> r = - (2 ^ 63) then (- (2 ^ 31), e, errno)
     else if errno = ERANGE \<and> r = 2 ^ 63 - 1 then (2 ^ 31 - 1, e, errno)
     else if errno = 0 \<and> r < - (2 ^ 31) then (- (2 ^ 31), e, ERANGE)
     else if errno = 0 \<and> r > 2 ^ 31 - 1 then (2 ^ 31 - 1, e, ERANGE)
     else (wrap32 r, e, if errno = 0 then saved_errno else errno))"

definition strtou32_adapter :: "int \<Rightarrow> bytes \<Rightarrow> nat \<Rightarrow> int \<times> nat \<times> int" where
  "strtou32_adapter errno s base =
    (let saved_errno = errno; (r, e, errno) = strtoul 0 s base in
     if errno = ERANGE \<and> r = 2 ^ 64 - 1 then (2 ^ 32 - 1, e, errno)
     else if errno = 0 \<and> r > 2 ^ 32 - 1 then (2 ^ 32 - 1, e, ERANGE)
     else (r mod 2 ^ 32, e, if errno = 0 then saved_errno else errno))"

definition strto32 :: "int \<Rightarrow> bytes \<Rightarrow> nat \<Rightarrow> int \<times> nat \<times> int" where
  "strto32 errno s base = strto32_adapter errno s base"

definition strtou32 :: "int \<Rightarrow> bytes \<Rightarrow> nat \<Rightarrow> int \<times> nat \<times> int" where
  "strtou32 errno s base = strtou32_adapter errno s base"

definition strto64 :: "int \<Rightarrow> bytes \<Rightarrow> nat \<Rightarrow> int \<times> nat \<times> int" where
  "strto64 errno s base = strtol errno s base"

definition strtou64 :: "int \<Rightarrow> bytes \<Rightarrow> nat \<Rightarrow> int \<times> nat \<times> int" where
  "strtou64 errno s base = strtoul errno s base"

section \<open>Checked parsers of C strings\<close>

text \<open>The common end: trailing white space is skipped unless nothing was converted.\<close>

definition whole_string :: "bytes \<Rightarrow> int \<times> nat \<times> int \<Rightarrow> int option" where
  "whole_string s r =
    (let (v, e, errno) = r;
         rest = (if e \<noteq> 0 then dropWhile ascii_isspace (drop e s) else drop e s) in
     if s \<noteq> [] \<and> rest = [] \<and> errno = 0 then Some v else None)"

definition safe_strto32_base_cstr :: "bytes \<Rightarrow> nat \<Rightarrow> int option" where
  "safe_strto32_base_cstr s base = whole_string s (strto32 0 s base)"

definition safe_strto64_base_cstr :: "bytes \<Rightarrow> nat \<Rightarrow> int option" where
  "safe_strto64_base_cstr s base = whole_string s (strto64 0 s base)"

definition safe_strtou32_base_cstr :: "bytes \<Rightarrow> nat \<Rightarrow> int option" where
  "safe_strtou32_base_cstr s base =
    (let s = dropWhile ascii_isspace s in
     if s \<noteq> [] \<and> hd s = 45 then None else whole_string s (strtou32 0 s base))"

definition safe_strtou64_base_cstr :: "bytes \<Rightarrow> nat \<Rightarrow> int option" where
  "safe_strtou64_base_cstr s base =
    (let s = dropWhile ascii_isspace s in
     if s \<noteq> [] \<and> hd s = 45 then None else whole_string s (strtou64 0 s base))"

text \<open>\<^verbatim>\<open>GEN_SAFE_STRTO\<close>: the overloads for \<^verbatim>\<open>string\<close> go through \<^verbatim>\<open>c_str()\<close>, which a NUL cuts short.\<close>

definition c_str :: "bytes \<Rightarrow> bytes" where
  "c_str s = takeWhile (\<lambda>c. c \<noteq> 0) s"

definition safe_strto32_base_string :: "bytes \<Rightarrow> nat \<Rightarrow> int option" where
  "safe_strto32_base_string s base = safe_strto32_base_cstr (c_str s) base"

definition safe_strto32_string :: "bytes \<Rightarrow> int option" where
  "safe_strto32_string s = safe_strto32_base_cstr (c_str s) 10"

section \<open>Lenient parsers\<close>

definition clamp32 :: "int \<Rightarrow> int" where
  "clamp32 v = (if v > 2 ^ 31 - 1 then 2 ^ 31 - 1 else if v < - (2 ^ 31) then - (2 ^ 31) else v)"

definition ParseLeadingInt32Value :: "bytes \<Rightarrow> int \<Rightarrow> int" where
  "ParseLeadingInt32Value s deflt =
    (let (v, e, errno) = strtol 0 s 0 in if e = 0 then deflt else clamp32 v)"

text \<open>The branch for a 64-bit \<^verbatim>\<open>long\<close>; the assignment to \<^verbatim>\<open>uint32\<close> reduces.\<close>

definition ParseLeadingUInt32Value :: "bytes \<Rightarrow> int \<Rightarrow> int" where
  "ParseLeadingUInt32Value s deflt =
    (let (v, e, errno) = strto64 0 s 0;
         v = (if v > 2 ^ 32 - 1 \<or> v < - (2 ^ 32 - 1) then 2 ^ 32 - 1 else v) in
     if e = 0 then deflt else v mod 2 ^ 32)"

definition ParseLeadingDec32Value :: "bytes \<Rightarrow> int \<Rightarrow> int" where
  "ParseLeadingDec32Value s deflt =
    (let (v, e, errno) = strtol 0 s 10 in if e = 0 then deflt else clamp32 v)"

definition ParseLeadingUDec32Value :: "bytes \<Rightarrow> int \<Rightarrow> int" where
  "ParseLeadingUDec32Value s deflt =
    (let (v, e, errno) = strto64 0 s 10;
         v = (if v > 2 ^ 32 - 1 \<or> v < - (2 ^ 32 - 1) then 2 ^ 32 - 1 else v) in
     if e = 0 then deflt else v mod 2 ^ 32)"

definition ParseLeadingUInt64Value :: "bytes \<Rightarrow> int \<Rightarrow> int" where
  "ParseLeadingUInt64Value s deflt =
    (let (v, e, errno) = strtou64 0 s 0 in if e = 0 then deflt else v)"

definition ParseLeadingInt64Value :: "bytes \<Rightarrow> int \<Rightarrow> int" where
  "ParseLeadingInt64Value s deflt =
    (let (v, e, errno) = strto64 0 s 0 in if e = 0 then deflt else v)"

definition ParseLeadingHex64Value :: "bytes \<Rightarrow> int \<Rightarrow> int" where
  "ParseLeadingHex64Value s deflt =
    (let (v, e, errno) = strtou64 0 s 16 in if e = 0 then deflt else v)"

definition ParseLeadingDec64Value :: "bytes \<Rightarrow> int \<Rightarrow> int" where
  "ParseLeadingDec64Value s deflt =
    (let (v, e, errno) = strto64 0 s 10 in if e = 0 then deflt else v)"

definition ParseLeadingUDec64Value :: "bytes \<Rightarrow> int \<Rightarrow> int" where
  "ParseLeadingUDec64Value s deflt =
    (let (v, e, errno) = strtou64 0 s 10 in if e = 0 then deflt else v)"

text \<open>\<^verbatim>\<open>atoi_kmgt\<close>: only the character behind the digits is looked at; the product wraps.\<close>

definition atoi_kmgt :: "bytes \<Rightarrow> fault + int" where
  "atoi_kmgt s =
    (let (n, e, errno) = strtou64 0 s 10; rest = drop e s in
     if rest = [] then Inr n
     else let c = ascii_toupper (hd rest) in
       if c = 75 then Inr (n * 2 ^ 10 mod 2 ^ 64)
       else if c = 77 then Inr (n * 2 ^ 20 mod 2 ^ 64)
       else if c = 71 then Inr (n * 2 ^ 30 mod 2 ^ 64)
       else if c = 84 then Inr (n * 2 ^ 40 mod 2 ^ 64)
       else Inl CheckFailed)"

section \<open>One scan, two presentations\<close>

text \<open>What the parsers of C strings do behind the sign, and what the counted parser does.\<close>

definition scan :: "nat \<Rightarrow> bytes \<Rightarrow> nat option" where
  "scan r y =
    (let ds = takeWhile (\<lambda>c. digit_value c < r) y in
     if ds \<noteq> [] \<and> spaces (dropWhile (\<lambda>c. digit_value c < r) y) then Some (radix_value r 0 ds) else None)"

definition c_value :: "nat \<Rightarrow> bytes \<Rightarrow> nat option" where
  "c_value base t = (let (radix, prefix) = c_prefix base t in scan radix (drop prefix t))"

definition counted_value :: "nat \<Rightarrow> bytes \<Rightarrow> nat option" where
  "counted_value base body =
    (case strip_prefix (int base) body of
       None \<Rightarrow> None
     | Some (b, ds) \<Rightarrow> if all_digits (nat b) ds then Some (radix_value (nat b) 0 ds) else None)"

definition valid_base :: "nat \<Rightarrow> bool" where
  "valid_base b \<longleftrightarrow> b = 0 \<or> 2 \<le> b \<and> b \<le> 36"

lemma space_no_digit: "ascii_isspace c \<Longrightarrow> r \<le> 36 \<Longrightarrow> \<not> digit_value c < r"
  by (auto simp: ascii_isspace_iff digit_value_def ascii_isdigit_def ascii_isupper_def ascii_islower_def
      byte_le_unat)

lemma scan_trailing:
  assumes "x \<noteq> []" "\<not> ascii_isspace (last x)" "spaces w" "r \<le> 36"
  shows "scan r (x @ w) = (if all_digits r x then Some (radix_value r 0 x) else None)"
proof (cases "all_digits r x")
  case True
  have w: "takeWhile (\<lambda>c. digit_value c < r) w = []"
    using assms space_no_digit by (cases w) auto
  have "takeWhile (\<lambda>c. digit_value c < r) (x @ w) = x @ takeWhile (\<lambda>c. digit_value c < r) w"
    "dropWhile (\<lambda>c. digit_value c < r) (x @ w) = dropWhile (\<lambda>c. digit_value c < r) w"
    using True by (simp_all add: all_digits_def)
  moreover have "dropWhile (\<lambda>c. digit_value c < r) w = w"
    using w by (cases w) (auto split: if_splits)
  ultimately show ?thesis
    using True assms w by (simp add: scan_def)
next
  case False
  then obtain c where "c \<in> set x" "\<not> digit_value c < r"
    by (auto simp: all_digits_def)
  then have d: "dropWhile (\<lambda>c. digit_value c < r) x \<noteq> []"
    "dropWhile (\<lambda>c. digit_value c < r) (x @ w) = dropWhile (\<lambda>c. digit_value c < r) x @ w"
    by (auto simp: dropWhile_append1)
  have "last (dropWhile (\<lambda>c. digit_value c < r) x) = last x"
    using d(1) by (metis last_appendR takeWhile_dropWhile_id)
  with d assms(2) have "\<not> spaces (dropWhile (\<lambda>c. digit_value c < r) (x @ w))"
    using last_in_set [OF d(1)] by (auto simp: spaces_def)
  with False show ?thesis
    by (simp add: scan_def)
qed

lemma scan_spaces: "spaces w \<Longrightarrow> r \<le> 36 \<Longrightarrow> scan r w = None"
  using space_no_digit by (cases w) (auto simp: scan_def)

lemma has_0x_trailing: "spaces w \<Longrightarrow> body \<noteq> [] \<Longrightarrow> has_0x (body @ w) \<longleftrightarrow> has_0x body"
  by (cases body; cases "tl body"; cases w) (auto simp: has_0x_def ascii_isspace_iff)

text \<open>The one kind of text on which they differ: a bare \<^verbatim>\<open>0x\<close>.\<close>

definition bare_0x :: "nat \<Rightarrow> bytes \<Rightarrow> bool" where
  "bare_0x base body \<longleftrightarrow> (base = 0 \<or> base = 16) \<and> has_0x body \<and> length body = 2"

lemma c_value_counted:
  assumes b: "body \<noteq> []" "\<not> ascii_isspace (last body)" and w: "spaces w"
    and base: "valid_base base" and nb: "\<not> bare_0x base body"
  shows "c_value base (body @ w) = counted_value base body"
proof -
  note h = has_0x_trailing [OF w b(1)]
  have plain: "scan r (body @ w) = (if all_digits r body then Some (radix_value r 0 body) else None)"
    if "r \<le> 36" for r
    using b w that by (rule scan_trailing)
  show ?thesis
  proof (cases "(base = 0 \<or> base = 16) \<and> has_0x body")
    case True
    with nb have len: "3 \<le> length body"
      by (auto simp: bare_0x_def has_0x_def)
    then have hex: "drop 2 body \<noteq> []" "last (drop 2 body) = last body" "(body @ w) ! 2 = body ! 2"
      "drop 2 (body @ w) = drop 2 body @ w"
      by (auto simp: nth_append)
    have sp: "strip_prefix (int base) body = Some (16, drop 2 body)"
      using True by (auto simp: strip_prefix_def)
    show ?thesis
    proof (cases "digit_value (body ! 2) < 16")
      case d: True
      have "c_prefix base (body @ w) = (16, 2)"
        using True d len h hex by (simp add: c_prefix_def)
      then have "c_value base (body @ w) = scan 16 (drop 2 body @ w)"
        by (simp only: c_value_def Let_def prod.case hex(4))
      moreover have "scan 16 (drop 2 body @ w) =
          (if all_digits 16 (drop 2 body) then Some (radix_value 16 0 (drop 2 body)) else None)"
        using hex b w by (intro scan_trailing) simp_all
      ultimately show ?thesis
        by (simp add: counted_value_def sp)
    next
      case d: False
      have "\<not> all_digits 16 (drop 2 body)"
        using d len by (auto simp: all_digits_def in_set_conv_nth numeral_2_eq_2 intro!: bexI [of _ "body ! 2"] exI [of _ 0])
      moreover have "c_prefix base (body @ w) \<in> {(8, 0), (16, 0)}"
        using True d len h hex b by (auto simp: c_prefix_def has_0x_def nth_append)
      moreover have "\<not> all_digits r body" if "r = 8 \<or> r = 16" for r
      proof -
        have "body ! 1 \<in> set body" "body ! 1 = 120 \<or> body ! 1 = 88"
          using True len by (auto simp: has_0x_def simp del: One_nat_def)
        moreover have "digit_value 120 = 33" "digit_value 88 = 33"
          by (simp_all add: digit_value_def ascii_isdigit_def ascii_isupper_def ascii_islower_def)
        ultimately obtain c where "c \<in> set body" "digit_value c = 33"
          by metis
        then show ?thesis
          using that by (auto simp: all_digits_def intro!: bexI [of _ c])
      qed
      ultimately show ?thesis
        using plain [of 8] plain [of 16] by (auto simp: c_value_def counted_value_def sp)
    qed
  next
    case no: False
    then have cp: "c_prefix base (body @ w) =
        (if base = 0 then (if body ! 0 = 48 then (8, 0) else (10, 0)) else (base, 0))"
      using b h by (auto simp: c_prefix_def nth_append)
    show ?thesis
    proof (cases "base = 0 \<and> body ! 0 = 48")
      case True
      with b obtain ds where ds: "body = 48 # ds"
        by (cases body) auto
      have "digit_value 48 = 0"
        by (simp add: digit_value_def ascii_isdigit_def)
      moreover have "strip_prefix (int base) body = Some (8, ds)"
        using True no ds by (simp add: strip_prefix_def)
      ultimately show ?thesis
        using True cp plain [of 8] ds by (simp add: c_value_def counted_value_def)
    next
      case False
      define r where "r = (if base = 0 then 10 else base)"
      have "r \<le> 36" "c_prefix base (body @ w) = (r, 0)"
        using base False cp by (auto simp: valid_base_def r_def)
      moreover have "strip_prefix (int base) body = Some (int r, body)"
        using no False base b by (auto simp: strip_prefix_def valid_base_def r_def)
      ultimately show ?thesis
        using plain [of r] by (simp add: c_value_def counted_value_def)
    qed
  qed
qed

section \<open>Both parsers in terms of the scan\<close>

lemma trim_dropWhile:
  obtains w where "dropWhile ascii_isspace s = trim s @ w" "spaces w"
proof -
  let ?t = "dropWhile ascii_isspace s"
  have "?t = trim s @ rev (takeWhile ascii_isspace (rev ?t))"
    unfolding trim_def by (metis rev_append rev_rev_ident takeWhile_dropWhile_id)
  moreover have "spaces (rev (takeWhile ascii_isspace (rev ?t)))"
    by (auto simp: spaces_def dest: set_takeWhileD)
  ultimately show thesis
    by (rule that)
qed

lemma trim_ends:
  assumes "trim s \<noteq> []"
  shows "\<not> ascii_isspace (hd (trim s))" "\<not> ascii_isspace (last (trim s))"
proof -
  let ?t = "dropWhile ascii_isspace s"
  from assms have "dropWhile ascii_isspace (rev ?t) \<noteq> []"
    by (simp add: trim_def)
  then show "\<not> ascii_isspace (last (trim s))"
    unfolding trim_def last_rev by (rule hd_dropWhile)
  obtain w where w: "?t = trim s @ w"
    by (rule trim_dropWhile)
  with assms have "?t \<noteq> []" "hd ?t = hd (trim s)"
    by simp_all
  then show "\<not> ascii_isspace (hd (trim s))"
    using hd_dropWhile by metis
qed

lemma trim_Nil: "trim s = [] \<Longrightarrow> dropWhile ascii_isspace s = []"
proof -
  assume "trim s = []"
  moreover obtain w where "dropWhile ascii_isspace s = trim s @ w" "spaces w"
    by (rule trim_dropWhile)
  ultimately have "spaces (dropWhile ascii_isspace s)"
    by simp
  then show ?thesis
    using hd_dropWhile [of ascii_isspace s] by (cases "dropWhile ascii_isspace s") auto
qed

definition body_of :: "bytes \<Rightarrow> bytes" where
  "body_of s = drop (length (sign_of (trim s))) (trim s)"

definition negative :: "bytes \<Rightarrow> bool" where
  "negative s \<longleftrightarrow> sign_of (trim s) = [45]"

lemma counted_eq:
  assumes "wide t"
  shows "safe_int_internal t s (int base) =
    (case (if body_of s = [] then None else counted_value base (body_of s)) of
       None \<Rightarrow> Inl ReturnFalse
     | Some n \<Rightarrow> let v = signed_value (negative s) n in
         if vmin t \<le> v \<and> v \<le> vmax t then Inr v else Inl ReturnFalse)"
proof (cases "body_of s = [] \<or> strip_prefix (int base) (body_of s) = None")
  case True
  then show ?thesis
    by (auto simp: safe_int_internal_sign Let_def body_of_def counted_value_def)
next
  case False
  then obtain b ds where sp: "strip_prefix (int base) (body_of s) = Some (b, ds)" and ne: "body_of s \<noteq> []"
    by auto
  from strip_prefix_base [OF sp] obtain n where n: "b = int n" "2 \<le> n" "n \<le> 36"
    by blast
  have "safe_int_internal t s (int base) = digits_value t (negative s) (int n) ds"
    using ne sp n by (simp add: safe_int_internal_sign Let_def body_of_def negative_def)
  then show ?thesis
    using digits_value_eq [OF n(2,3) assms, of "negative s" ds] ne sp n
    by (simp add: counted_value_def Let_def)
qed

lemma c_scan_value:
  obtains w where "spaces w"
    "dropWhile ascii_isspace s = sign_of (dropWhile ascii_isspace s) @ body_of s @ w"
    "trim s \<noteq> [] \<longrightarrow> sign_of (dropWhile ascii_isspace s) = sign_of (trim s)"
proof -
  obtain w where w: "dropWhile ascii_isspace s = trim s @ w" "spaces w"
    by (rule trim_dropWhile)
  show thesis
  proof (cases "trim s")
    case Nil
    then show thesis
      using trim_Nil [OF Nil] by (intro that [of "[]"]) (simp_all add: body_of_def sign_of_def)
  next
    case (Cons c cs)
    then have "sign_of (trim s @ w) = sign_of (trim s)" "trim s = sign_of (trim s) @ body_of s"
      by (auto simp: sign_of_def body_of_def)
    with w show thesis
      by (intro that [of w]) simp_all
  qed
qed

text \<open>The outcome of a scan through \<^verbatim>\<open>whole_string\<close>.\<close>

lemma whole_string_scan:
  assumes base: "valid_base base" and nb: "\<not> bare_0x base (body_of s)"
    and conv: "\<And>neg n e. c_scan s base = (neg, n, e) \<Longrightarrow>
      \<exists>v errno. conv = (v, e, errno) \<and> (errno = 0 \<longleftrightarrow> lo \<le> signed_value neg n \<and> signed_value neg n \<le> hi)
        \<and> (errno = 0 \<longrightarrow> v = signed_value neg n)"
  shows "whole_string s conv =
    (case (if body_of s = [] then None else counted_value base (body_of s)) of
       None \<Rightarrow> None
     | Some n \<Rightarrow> let v = signed_value (negative s) n in if lo \<le> v \<and> v \<le> hi then Some v else None)"
proof -
  let ?t = "dropWhile ascii_isspace s"
  obtain w where w: "spaces w" and t: "?t = sign_of ?t @ body_of s @ w"
    and sg: "trim s \<noteq> [] \<longrightarrow> sign_of ?t = sign_of (trim s)"
    by (rule c_scan_value)
  define y where "y = body_of s @ w"
  obtain r p where rp: "c_prefix base y = (r, p)"
    by (cases "c_prefix base y")
  have r: "r \<le> 36"
    using rp base by (auto simp: c_prefix_def valid_base_def split: if_splits)
  define ds where "ds = takeWhile (\<lambda>c. digit_value c < r) (drop p y)"
  define rest where "rest = dropWhile (\<lambda>c. digit_value c < r) (drop p y)"
  have ty: "drop (length (sign_of ?t)) ?t = y"
    using t y_def by (metis append_eq_conv_conj)
  have sc: "c_scan s base = (if ds = [] then (False, 0, 0)
      else (sign_of ?t = [45], radix_value r 0 ds, length s - length ?t + length (sign_of ?t) + p + length ds))"
    unfolding c_scan_def Let_def ty rp by (simp add: ds_def)
  have cv: "c_value base y = (if ds \<noteq> [] \<and> spaces rest then Some (radix_value r 0 ds) else None)"
    by (simp add: c_value_def rp scan_def Let_def ds_def rest_def)
  have cb: "c_value base y = (if body_of s = [] then None else counted_value base (body_of s))"
  proof (cases "body_of s = []")
    case True
    then have "\<not> has_0x y" "y = [] \<or> y ! 0 \<noteq> 48"
      using w by (cases y; auto simp: y_def has_0x_def ascii_isspace_iff)+
    then have "p = 0"
      using rp by (auto simp: c_prefix_def split: if_splits)
    then have "c_value base y = scan r y"
      unfolding c_value_def rp by simp
    then show ?thesis
      using True w r scan_spaces [of y r] by (simp add: y_def)
  next
    case False
    then have "trim s \<noteq> []" "last (body_of s) = last (trim s)"
      by (auto simp: body_of_def)
    then have "\<not> ascii_isspace (last (body_of s))"
      using trim_ends(2) by simp
    then show ?thesis
      using c_value_counted [OF False _ w base nb] False by (simp add: y_def)
  qed
  show ?thesis
  proof (cases "ds = []")
    case True
    from conv [OF sc [unfolded True, simplified]] obtain v errno where "conv = (v, 0, errno)"
      by auto
    then have "whole_string s conv = None"
      by (simp add: whole_string_def)
    moreover have "c_value base y = None"
      using cv True by simp
    ultimately show ?thesis
      unfolding cb [symmetric] by simp
  next
    case ds: False
    define e where "e = length s - length ?t + length (sign_of ?t) + p + length ds"
    from sc ds have sc': "c_scan s base = (sign_of ?t = [45], radix_value r 0 ds, e)"
      by (simp add: e_def)
    have "e \<noteq> 0"
      using ds by (simp add: e_def)
    have "drop e s = rest"
    proof -
      have "drop (length s - length ?t) s = ?t"
      proof -
        have "length s = length (takeWhile ascii_isspace s) + length ?t"
          by (metis length_append takeWhile_dropWhile_id)
        then show ?thesis
          by (simp add: dropWhile_eq_drop)
      qed
      moreover have "drop (length ds) (drop p y) = rest"
        unfolding ds_def rest_def by (rule dropWhile_eq_drop [symmetric])
      ultimately show ?thesis
        unfolding e_def by (metis drop_drop ty add.commute)
    qed
    note drop_e = this
    have sp: "dropWhile ascii_isspace rest = [] \<longleftrightarrow> spaces rest"
      by (simp add: spaces_def)
    have "s \<noteq> []"
    proof
      assume "s = []"
      then have "y = []"
        using t y_def by simp
      with ds show False
        by (simp add: ds_def)
    qed
    obtain v errno where r: "conv = (v, e, errno)"
      "errno = 0 \<longleftrightarrow> lo \<le> signed_value (sign_of ?t = [45]) (radix_value r 0 ds)
         \<and> signed_value (sign_of ?t = [45]) (radix_value r 0 ds) \<le> hi"
      "errno = 0 \<longrightarrow> v = signed_value (sign_of ?t = [45]) (radix_value r 0 ds)"
      using conv [OF sc'] by blast
    have ws: "whole_string s conv = (if spaces rest \<and> errno = 0 then Some v else None)"
      unfolding whole_string_def r(1) Let_def prod.case drop_e using \<open>s \<noteq> []\<close> \<open>e \<noteq> 0\<close> sp by simp
    show ?thesis
    proof (cases "spaces rest")
      case True
      with ds have some: "c_value base y = Some (radix_value r 0 ds)"
        using cv by simp
      then have "body_of s \<noteq> []"
        unfolding cb by (auto split: if_splits)
      then have "trim s \<noteq> []"
        by (auto simp: body_of_def)
      with sg have "sign_of ?t = [45] \<longleftrightarrow> negative s"
        by (simp add: negative_def)
      with r(2,3) show ?thesis
        unfolding cb [symmetric] some ws Let_def using True by simp
    next
      case False
      then have "c_value base y = None"
        using cv by simp
      then show ?thesis
        unfolding cb [symmetric] ws using False by simp
    qed
  qed
qed

section \<open>The overloads agree\<close>

lemma strtol_conv:
  assumes "c_scan s base = (neg, n, e)"
  shows "\<exists>v errno. strtol 0 s base = (v, e, errno)
      \<and> (errno = 0 \<longleftrightarrow> - (2 ^ 63) \<le> signed_value neg n \<and> signed_value neg n \<le> 2 ^ 63 - 1)
      \<and> (errno = 0 \<longrightarrow> v = signed_value neg n)"
  using assms by (simp add: strtol_def Let_def ERANGE_def)

lemma strto32_conv:
  assumes "c_scan s base = (neg, n, e)"
  shows "\<exists>v errno. strto32 0 s base = (v, e, errno)
      \<and> (errno = 0 \<longleftrightarrow> - (2 ^ 31) \<le> signed_value neg n \<and> signed_value neg n \<le> 2 ^ 31 - 1)
      \<and> (errno = 0 \<longrightarrow> v = signed_value neg n)"
  using assms
  by (simp add: strto32_def strto32_adapter_def strtol_def Let_def ERANGE_def wrap32_def)

lemma strto_overloads:
  assumes "valid_base base" "\<not> bare_0x base (body_of s)"
  shows "safe_strto32_base s (int base) = Inr v \<longleftrightarrow> safe_strto32_base_cstr s base = Some v"
    and "safe_strto64_base s (int base) = Inr v \<longleftrightarrow> safe_strto64_base_cstr s base = Some v"
proof -
  let ?n = "if body_of s = [] then None else counted_value base (body_of s)"
  have c32: "whole_string s (strto32 0 s base) = (case ?n of None \<Rightarrow> None
      | Some n \<Rightarrow> let v = signed_value (negative s) n in
          if - (2 ^ 31) \<le> v \<and> v \<le> 2 ^ 31 - 1 then Some v else None)"
    by (rule whole_string_scan [OF assms]) (rule strto32_conv)
  have c64: "whole_string s (strtol 0 s base) = (case ?n of None \<Rightarrow> None
      | Some n \<Rightarrow> let v = signed_value (negative s) n in
          if - (2 ^ 63) \<le> v \<and> v \<le> 2 ^ 63 - 1 then Some v else None)"
    by (rule whole_string_scan [OF assms]) (rule strtol_conv)
  show "safe_strto32_base s (int base) = Inr v \<longleftrightarrow> safe_strto32_base_cstr s base = Some v"
    unfolding safe_strto32_base_def safe_strto32_base_cstr_def counted_eq [OF wide_types(1)] c32
    by (cases ?n) (simp_all add: int32_def Let_def)
  show "safe_strto64_base s (int base) = Inr v \<longleftrightarrow> safe_strto64_base_cstr s base = Some v"
    unfolding safe_strto64_base_def safe_strto64_base_cstr_def strto64_def counted_eq [OF wide_types(2)] c64
    by (cases ?n) (simp_all add: int64_def Let_def)
qed

text \<open>
  on every text but one with a bare \<^verbatim>\<open>0x\<close>, the parser of C strings (library call,
  32-bit adapter, check of the end pointer and of \<^verbatim>\<open>errno\<close>) and the counted parser
  accept the same texts with the same values, in every valid base.
\<close>

theorem strto_overloads_agree:
  assumes "valid_base base" "\<not> bare_0x base (body_of s)"
  shows "(safe_strto32_base s (int base) = Inr v) = (safe_strto32_base_cstr s base = Some v)
    \<and> (safe_strto64_base s (int base) = Inr u) = (safe_strto64_base_cstr s base = Some u)"
  using strto_overloads [OF assms] by blast

theorem strto_overloads_agree_witness:
  "(safe_strto32_base [32, 45, 48, 120, 49, 48] (int 16) = Inr (-16))
      = (safe_strto32_base_cstr [32, 45, 48, 120, 49, 48] 16 = Some (-16))
   \<and> (safe_strto64_base [32, 45, 48, 120, 49, 48] (int 16) = Inr (-16))
      = (safe_strto64_base_cstr [32, 45, 48, 120, 49, 48] 16 = Some (-16))"
  by (rule strto_overloads_agree)
    (simp_all add: valid_base_def bare_0x_def body_of_def trim_def ascii_isspace_iff sign_of_def has_0x_def)

text \<open>The exception: the parser of C strings rejects the text the counted parser reads as 0.\<close>

lemma bare_hex_prefix_rejected: "safe_strto32_base_cstr [48, 120] 16 = None"
  by (simp add: safe_strto32_base_cstr_def whole_string_def strto32_def strto32_adapter_def strtol_def
      c_scan_def c_prefix_def has_0x_def sign_of_def ascii_isspace_iff digit_value_def ascii_isdigit_def
      ascii_isupper_def ascii_islower_def signed_value_def Let_def wrap32_def)

text \<open>A NUL inside a \<^verbatim>\<open>string\<close> ends the number for the string overload only.\<close>

lemma embedded_nul:
  "safe_strto32_string [49, 0, 50] = Some 1" "safe_strto32 [49, 0, 50] = Inl ReturnFalse"
proof -
  show "safe_strto32_string [49, 0, 50] = Some 1"
    by (simp add: safe_strto32_string_def c_str_def safe_strto32_base_cstr_def whole_string_def strto32_def
        strto32_adapter_def strtol_def c_scan_def c_prefix_def has_0x_def sign_of_def ascii_isspace_iff
        digit_value_def ascii_isdigit_def ascii_isupper_def ascii_islower_def signed_value_def Let_def wrap32_def)
  show "safe_strto32 [49, 0, 50] = Inl ReturnFalse"
    using counted_eq [OF wide_types(1), of "[49, 0, 50]" 10]
    by (simp add: safe_strto32_def body_of_def trim_def ascii_isspace_iff sign_of_def counted_value_def
        strip_prefix_def digit_value_def ascii_isdigit_def ascii_isupper_def ascii_islower_def)
qed

section \<open>The lenient parsers\<close>

text \<open>
  The branch for a 64-bit \<^verbatim>\<open>long\<close> returns what a 32-bit \<^verbatim>\<open>strtoul\<close> does: the maximum when
  the magnitude does not fit, and the value modulo \<open>2 ^ 32\<close> otherwise, negated texts included.
\<close>

definition strtoul32_value :: "bool \<Rightarrow> nat \<Rightarrow> int" where
  "strtoul32_value neg n = (if int n > 2 ^ 32 - 1 then 2 ^ 32 - 1 else signed_value neg n mod 2 ^ 32)"

lemma ParseLeadingUInt32Value_eq:
  "ParseLeadingUInt32Value s deflt = (let (neg, n, e) = c_scan s 0 in if e = 0 then deflt else strtoul32_value neg n)"
  "ParseLeadingUDec32Value s deflt = (let (neg, n, e) = c_scan s 10 in if e = 0 then deflt else strtoul32_value neg n)"
proof -
  have "(let (v, e, errno) = strto64 0 s base; v = (if v > 2 ^ 32 - 1 \<or> v < - (2 ^ 32 - 1) then 2 ^ 32 - 1 else v) in
      if e = 0 then deflt else v mod 2 ^ 32)
    = (let (neg, n, e) = c_scan s base in if e = 0 then deflt else strtoul32_value neg n)" for base
    by (cases "c_scan s base")
      (auto simp: strto64_def strtol_def strtoul32_value_def signed_value_def Let_def)
  then show "ParseLeadingUInt32Value s deflt = (let (neg, n, e) = c_scan s 0 in if e = 0 then deflt else strtoul32_value neg n)"
    "ParseLeadingUDec32Value s deflt = (let (neg, n, e) = c_scan s 10 in if e = 0 then deflt else strtoul32_value neg n)"
    by (simp_all only: ParseLeadingUInt32Value_def ParseLeadingUDec32Value_def)
qed

text \<open>
  The adapter for 32-bit unsigned values differs from a 32-bit \<^verbatim>\<open>strtoul\<close> on negated texts:
  it reports \<^verbatim>\<open>ERANGE\<close> and the maximum where the latter wraps.
\<close>

lemma strtou32_adapter_negative:
  "strtou32_adapter 0 [45, 50] 10 = (2 ^ 32 - 1, 2, ERANGE)" "strtoul32_value True 2 = 2 ^ 32 - 2"
  by (simp_all add: strtou32_adapter_def strtoul_def c_scan_def c_prefix_def sign_of_def ascii_isspace_iff
      digit_value_def ascii_isdigit_def ascii_isupper_def ascii_islower_def signed_value_def Let_def
      ERANGE_def strtoul32_value_def)

text \<open>The product in \<^verbatim>\<open>atoi_kmgt\<close> wraps, and what follows the suffix is ignored.\<close>

lemma atoi_kmgt_examples:
  "atoi_kmgt [49, 54, 84, 66] = Inr (16 * 2 ^ 40)" "atoi_kmgt [49, 54, 55, 55, 55, 50, 49, 54, 116] = Inr 0"
  by (simp_all add: atoi_kmgt_def strtou64_def strtoul_def c_scan_def c_prefix_def sign_of_def ascii_isspace_iff
      digit_value_def ascii_isdigit_def ascii_isupper_def ascii_islower_def signed_value_def Let_def
      word_unat_eq_iff unat_toupper)

end
