(* ===== verification/MemSearch.thy ===== *)
theory MemSearch
  imports AsciiCtype
begin

text \<open>
  Searches in counted buffers, \<^verbatim>\<open>gbase/strings/memutil.cc\<close>.  A buffer is the list of the
  bytes that may be read; a pointer into it is an offset, and the null pointer is \<open>None\<close>.
  A read past the end is a fault, so that a result also says that the routine stays inside
  the buffer.  \<open>occurs\<close> is the specification of substring search.
\<close>

section \<open>Comparison without case\<close>

fun memcasecmp :: "bytes \<Rightarrow> bytes \<Rightarrow> nat \<Rightarrow> fault + int" where
  "memcasecmp s1 s2 0 = Inr 0"
| "memcasecmp (a # s1) (b # s2) (Suc n) =
     (let diff = int (unat (ascii_tolower a)) - int (unat (ascii_tolower b)) in
      if diff \<noteq> 0 then Inr diff else memcasecmp s1 s2 n)"
| "memcasecmp _ _ (Suc n) = Inl OutOfBounds"

section \<open>Spans\<close>

text \<open>\<^verbatim>\<open>memrchr\<close> compares a \<^verbatim>\<open>char\<close> with an \<^verbatim>\<open>int\<close>.\<close>

fun memrchr_loop :: "build \<Rightarrow> bytes \<Rightarrow> int \<Rightarrow> nat \<Rightarrow> nat option" where
  "memrchr_loop b s c 0 = None"
| "memrchr_loop b s c (Suc e) = (if char_value b (s ! e) = c then Some e else memrchr_loop b s c e)"

definition memrchr :: "build \<Rightarrow> bytes \<Rightarrow> int \<Rightarrow> nat option" where
  "memrchr b s c = memrchr_loop b s c (length s)"

text \<open>
  \<^verbatim>\<open>memspn\<close> fetches the next character before it looks at the count; \<open>s\<close> is the memory that
  may be read and \<open>slen\<close> the count.  The set of characters is a C string.
\<close>

fun memspn_loop :: "bytes \<Rightarrow> nat \<Rightarrow> bytes \<Rightarrow> nat \<Rightarrow> fault + nat" where
  "memspn_loop [] slen accept p = Inl OutOfBounds"
| "memspn_loop (c # s) slen accept p =
     (case slen of 0 \<Rightarrow> Inr p
      | Suc slen \<Rightarrow> if c \<in> set accept then memspn_loop s slen accept (p + 1) else Inr p)"

definition memspn :: "bytes \<Rightarrow> nat \<Rightarrow> bytes \<Rightarrow> fault + nat" where
  "memspn s slen accept = memspn_loop s slen accept 0"

fun memcspn_loop :: "bytes \<Rightarrow> nat \<Rightarrow> bytes \<Rightarrow> nat \<Rightarrow> fault + nat" where
  "memcspn_loop s 0 reject p = Inr p"
| "memcspn_loop [] (Suc slen) reject p = Inl OutOfBounds"
| "memcspn_loop (c # s) (Suc slen) reject p =
     (if c \<in> set reject then Inr p else memcspn_loop s slen reject (p + 1))"

definition memcspn :: "bytes \<Rightarrow> nat \<Rightarrow> bytes \<Rightarrow> fault + nat" where
  "memcspn s slen reject = memcspn_loop s slen reject 0"

fun mempbrk_loop :: "bytes \<Rightarrow> nat \<Rightarrow> bytes \<Rightarrow> nat \<Rightarrow> fault + nat option" where
  "mempbrk_loop s 0 accept p = Inr None"
| "mempbrk_loop [] (Suc slen) accept p = Inl OutOfBounds"
| "mempbrk_loop (c # s) (Suc slen) accept p =
     (if c \<in> set accept then Inr (Some p) else mempbrk_loop s slen accept (p + 1))"

definition mempbrk :: "bytes \<Rightarrow> nat \<Rightarrow> bytes \<Rightarrow> fault + nat option" where
  "mempbrk s slen accept = mempbrk_loop s slen accept 0"

section \<open>Substring search\<close>

text \<open>
  \<^verbatim>\<open>int_memmatch\<close>: \<open>h\<close> and \<open>n\<close> are the offsets of \<^verbatim>\<open>haystack\<close> and \<^verbatim>\<open>needle\<close>.  A mismatch after
  a partial match moves \<^verbatim>\<open>haystack\<close> back, and the increment of the loop follows.
\<close>

definition fold_case :: "bool \<Rightarrow> byte \<Rightarrow> byte" where
  "fold_case case_sensitive c = (if case_sensitive then c else ascii_tolower c)"

function int_memmatch_loop :: "bool \<Rightarrow> bytes \<Rightarrow> bytes \<Rightarrow> nat \<Rightarrow> nat \<Rightarrow> nat option" where
  "int_memmatch_loop cs hay nee h n =
    (if n \<le> h \<and> n < length nee \<and> h < length hay then
       if fold_case cs (hay ! h) = fold_case cs (nee ! n) then
         if n + 1 = length nee then Some (h + 1 - length nee)
         else int_memmatch_loop cs hay nee (h + 1) (n + 1)
       else if n \<noteq> 0 then int_memmatch_loop cs hay nee (h - n + 1) 0
       else int_memmatch_loop cs hay nee (h + 1) 0
     else None)"
  by pat_completeness auto
termination
  by (relation "measures [\<lambda>(cs, hay, nee, h, n). length hay - (h - n), \<lambda>(cs, hay, nee, h, n). length hay - h]") auto

declare int_memmatch_loop.simps [simp del]

definition int_memmatch :: "bool \<Rightarrow> bytes \<Rightarrow> bytes \<Rightarrow> nat option" where
  "int_memmatch cs hay nee = (if length nee = 0 then Some 0 else int_memmatch_loop cs hay nee 0 0)"

text \<open>\<^verbatim>\<open>memmatch\<close>: candidates are found by \<^verbatim>\<open>memchr\<close> below \<^verbatim>\<open>hayend\<close> and compared whole.\<close>

definition memchr :: "bytes \<Rightarrow> byte \<Rightarrow> nat \<Rightarrow> nat \<Rightarrow> nat option" where
  "memchr s c i e = List.find (\<lambda>j. s ! j = c) [i..<e]"

lemma find_upt_Some:
  "List.find R [i..<e] = Some m \<Longrightarrow> i \<le> m \<and> m < e \<and> R m \<and> (\<forall>j. i \<le> j \<longrightarrow> j < m \<longrightarrow> \<not> R j)"
proof -
  assume "List.find R [i..<e] = Some m"
  then obtain k where k: "k < e - i" "m = i + k" "R (i + k)" "\<forall>l<k. \<not> R (i + l)"
    by (auto simp: find_Some_iff)
  then show ?thesis
    by (auto simp: le_iff_add)
qed

lemma find_upt_None: "List.find R [i..<e] = None \<Longrightarrow> i \<le> j \<Longrightarrow> j < e \<Longrightarrow> \<not> R j"
  by (auto simp: find_None_iff)

lemma memchr_Some: "memchr s c i e = Some m \<Longrightarrow> i \<le> m \<and> m < e \<and> s ! m = c \<and> (\<forall>j. i \<le> j \<longrightarrow> j < m \<longrightarrow> s ! j \<noteq> c)"
  unfolding memchr_def by (rule find_upt_Some)

lemma memchr_None: "memchr s c i e = None \<Longrightarrow> i \<le> j \<Longrightarrow> j < e \<Longrightarrow> s ! j \<noteq> c"
  unfolding memchr_def by (rule find_upt_None)

function memmatch_loop :: "bytes \<Rightarrow> bytes \<Rightarrow> nat \<Rightarrow> nat option" where
  "memmatch_loop hay nee p =
    (case memchr hay (nee ! 0) p (length hay + 1 - length nee) of
       None \<Rightarrow> None
     | Some m \<Rightarrow> if take (length nee) (drop m hay) = nee then Some m else memmatch_loop hay nee (m + 1))"
  by pat_completeness auto
termination
proof (relation "measure (\<lambda>(hay, nee, p). length hay + 1 - length nee - p)")
  show "((hay, nee, m + 1), hay, nee, p) \<in> measure (\<lambda>(hay, nee, p). length hay + 1 - length nee - p)"
    if "memchr hay (nee ! 0) p (length hay + 1 - length nee) = Some m" for hay nee :: bytes and p m
    using memchr_Some [OF that] by auto
qed simp

declare memmatch_loop.simps [simp del]

definition memmatch :: "bytes \<Rightarrow> bytes \<Rightarrow> nat option" where
  "memmatch hay nee =
    (if length nee = 0 then Some 0
     else if length hay < length nee then None
     else memmatch_loop hay nee 0)"

section \<open>The first occurrence\<close>

definition occurs :: "'a list \<Rightarrow> 'a list \<Rightarrow> nat \<Rightarrow> bool" where
  "occurs x s i \<longleftrightarrow> i + length x \<le> length s \<and> take (length x) (drop i s) = x"

definition first_at :: "(nat \<Rightarrow> bool) \<Rightarrow> nat option \<Rightarrow> bool" where
  "first_at P r \<longleftrightarrow> (case r of None \<Rightarrow> \<forall>i. \<not> P i | Some m \<Rightarrow> P m \<and> (\<forall>i<m. \<not> P i))"

lemma first_at_unique: "first_at P r \<Longrightarrow> first_at P r' \<Longrightarrow> r = r'"
  by (cases r; cases r') (auto simp: first_at_def, meson linorder_neqE_nat)

lemma occurs_nth: "occurs x s i \<longleftrightarrow> i + length x \<le> length s \<and> (\<forall>j<length x. s ! (i + j) = x ! j)"
  unfolding occurs_def by (auto simp: list_eq_iff_nth_eq)

lemma occurs_decomp: "occurs x s i \<longleftrightarrow> (\<exists>u v. s = u @ x @ v \<and> length u = i)"
proof
  assume o: "occurs x s i"
  then have "s = take i s @ take (length x) (drop i s) @ drop (length x) (drop i s)"
    by (metis append_take_drop_id)
  with o show "\<exists>u v. s = u @ x @ v \<and> length u = i"
    by (metis occurs_def length_take min.absorb2 add_leD1)
qed (auto simp: occurs_def)

lemma memmatch_loop_first:
  assumes "nee \<noteq> []" "length nee \<le> length hay" "\<forall>i<p. \<not> occurs nee hay i"
  shows "first_at (occurs nee hay) (memmatch_loop hay nee p)"
  using assms
proof (induction hay nee p rule: memmatch_loop.induct)
  case (1 hay nee p)
  let ?e = "length hay + 1 - length nee"
  have hd: "occurs nee hay i \<Longrightarrow> i < ?e \<and> hay ! i = nee ! 0" for i
    using 1(2,3) by (auto simp: occurs_nth)
  show ?case
  proof (cases "memchr hay (nee ! 0) p ?e")
    case None
    have "\<not> occurs nee hay i" for i
      using hd [of i] memchr_None [OF None, of i] 1(4) not_less by blast
    moreover have "memmatch_loop hay nee p = None"
      by (subst memmatch_loop.simps) (simp only: None option.case)
    ultimately show ?thesis
      by (simp add: first_at_def)
  next
    case (Some m)
    note m = memchr_Some [OF Some]
    have before: "\<not> occurs nee hay i" if "i < m" for i
      using hd [of i] m that 1(4) not_less by blast
    have step: "memmatch_loop hay nee p = (if take (length nee) (drop m hay) = nee then Some m else memmatch_loop hay nee (m + 1))"
      by (subst memmatch_loop.simps) (simp only: Some option.case)
    show ?thesis
    proof (cases "take (length nee) (drop m hay) = nee")
      case True
      moreover have "m + length nee \<le> length hay"
        using m 1(3) by linarith
      ultimately have "occurs nee hay m"
        by (simp add: occurs_def)
      with True before show ?thesis
        by (simp add: step first_at_def)
    next
      case False
      then have "\<not> occurs nee hay m"
        by (simp add: occurs_def)
      with before have "\<forall>i<m + 1. \<not> occurs nee hay i"
        by (auto simp: less_Suc_eq)
      with 1(1) [OF Some False 1(2,3)] False show ?thesis
        by (simp add: step)
    qed
  qed
qed

text \<open>Occurrence up to a folding of the characters.\<close>

definition occurs_case :: "bool \<Rightarrow> bytes \<Rightarrow> bytes \<Rightarrow> nat \<Rightarrow> bool" where
  "occurs_case cs x s i \<longleftrightarrow> occurs (map (fold_case cs) x) (map (fold_case cs) s) i"

lemma int_memmatch_loop_first:
  assumes "n \<le> h" "n < length nee" "h \<le> length hay"
    "\<forall>j<n. fold_case cs (hay ! (h - n + j)) = fold_case cs (nee ! j)"
    "\<forall>i<h - n. \<not> occurs_case cs nee hay i"
  shows "first_at (occurs_case cs nee hay) (int_memmatch_loop cs hay nee h n)"
  using assms
proof (induction cs hay nee h n rule: int_memmatch_loop.induct)
  case (1 cs hay nee h n)
  have occ: "occurs_case cs nee hay i \<longleftrightarrow> i + length nee \<le> length hay
      \<and> (\<forall>j<length nee. fold_case cs (hay ! (i + j)) = fold_case cs (nee ! j))" for i
    by (auto simp: occurs_case_def occurs_nth)
  show ?case
  proof (cases "h < length hay")
    case False
    have "\<not> occurs_case cs nee hay i" for i
    proof (cases "i < h - n")
      case False
      with \<open>\<not> h < length hay\<close> 1 have "\<not> i + length nee \<le> length hay"
        by linarith
      then show ?thesis
        by (simp add: occ)
    qed (use 1 in simp)
    with False show ?thesis
      by (simp add: int_memmatch_loop.simps [of cs hay nee h n] first_at_def)
  next
    case h: True
    then have c: "n \<le> h \<and> n < length nee \<and> h < length hay"
      using 1 by simp
    show ?thesis
    proof (cases "fold_case cs (hay ! h) = fold_case cs (nee ! n)")
      case eq: True
      then have m: "\<forall>j<n + 1. fold_case cs (hay ! (h - n + j)) = fold_case cs (nee ! j)"
        using 1 by (auto simp: less_Suc_eq)
      show ?thesis
      proof (cases "n + 1 = length nee")
        case True
        then have "h + 1 - length nee = h - n"
          using c by simp
        moreover have "h - n + length nee = h + 1"
          using True c by linarith
        then have "occurs_case cs nee hay (h - n)"
          using True m c by (simp add: occ del: diff_add_assoc2)
        ultimately show ?thesis
          using True eq c 1 by (simp add: int_memmatch_loop.simps [of cs hay nee h n] first_at_def)
      next
        case False
        with 1(1) [OF c eq False] m h c 1 show ?thesis
          using eq by (simp add: int_memmatch_loop.simps [of cs hay nee h n])
      qed
    next
      case ne: False
      have "\<not> occurs_case cs nee hay (h - n)"
      proof
        assume "occurs_case cs nee hay (h - n)"
        then have "fold_case cs (hay ! (h - n + n)) = fold_case cs (nee ! n)"
          unfolding occ using c by blast
        moreover have "h - n + n = h"
          using c by simp
        ultimately show False
          using ne by metis
      qed
      then have upto: "\<forall>i<h - n + 1. \<not> occurs_case cs nee hay i"
        using 1 by (auto simp: less_Suc_eq)
      show ?thesis
      proof (cases "n = 0")
        case True
        with 1(3) [OF c ne] upto h c ne show ?thesis
          by (simp add: int_memmatch_loop.simps [of cs hay nee h 0])
      next
        case False
        moreover have "nee \<noteq> []" "h - n + 1 \<le> length hay"
          using c by auto
        ultimately show ?thesis
          using 1(2) [OF c ne False] upto h c ne
          by (simp add: int_memmatch_loop.simps [of cs hay nee h n])
      qed
    qed
  qed
qed

lemma occurs_Nil: "occurs [] s 0"
  by (simp add: occurs_def)

lemma memmatch_first: "first_at (occurs nee hay) (memmatch hay nee)"
proof -
  consider "nee = []" | "nee \<noteq> []" "length hay < length nee" | "nee \<noteq> []" "length nee \<le> length hay"
    by linarith
  then show ?thesis
  proof cases
    case 1
    then show ?thesis
      by (simp add: memmatch_def first_at_def occurs_Nil)
  next
    case 2
    then show ?thesis
      by (simp add: memmatch_def first_at_def occurs_def)
  next
    case 3
    then show ?thesis
      using memmatch_loop_first [of nee hay 0] by (simp add: memmatch_def)
  qed
qed

lemma int_memmatch_first: "first_at (occurs_case cs nee hay) (int_memmatch cs hay nee)"
proof (cases "nee = []")
  case True
  then show ?thesis
    by (simp add: int_memmatch_def first_at_def occurs_case_def occurs_Nil)
next
  case False
  then show ?thesis
    using int_memmatch_loop_first [of 0 0 nee hay cs] by (simp add: int_memmatch_def)
qed

text \<open>
  both substring searches return the first occurrence, and none only if there is none;
  the one with backtracking also does so without regard to case.
\<close>

theorem substring_searches:
  "first_at (occurs nee hay) (memmatch hay nee)
   \<and> memmatch hay nee = int_memmatch True hay nee
   \<and> first_at (occurs (map ascii_tolower nee) (map ascii_tolower hay)) (int_memmatch False hay nee)"
proof -
  have f: "fold_case True = id" "fold_case False = ascii_tolower"
    by (auto simp: fold_case_def fun_eq_iff)
  have "occurs_case True nee hay = occurs nee hay"
    "occurs_case False nee hay = occurs (map ascii_tolower nee) (map ascii_tolower hay)"
    by (intro ext; simp add: occurs_case_def f)+
  then show ?thesis
    using memmatch_first [of nee hay] int_memmatch_first [of True nee hay]
      int_memmatch_first [of False nee hay] first_at_unique by metis
qed

section \<open>Spans and comparison\<close>

lemma memcasecmp_eq:
  assumes "length s1 = length s2"
  shows "memcasecmp s1 s2 (length s1) = Inr 0 \<longleftrightarrow> map ascii_tolower s1 = map ascii_tolower s2"
  using assms by (induction s1 s2 rule: list_induct2) (auto simp: Let_def word_uint_eq_iff)

lemma memcspn_eq:
  "n \<le> length s \<Longrightarrow> memcspn_loop s n reject p = Inr (p + length (takeWhile (\<lambda>c. c \<notin> set reject) (take n s)))"
  by (induction s n reject p rule: memcspn_loop.induct) auto

lemma mempbrk_eq:
  "n \<le> length s \<Longrightarrow> mempbrk_loop s n accept p =
    (let k = length (takeWhile (\<lambda>c. c \<notin> set accept) (take n s)) in Inr (if k < n then Some (p + k) else None))"
  by (induction s n accept p rule: mempbrk_loop.induct) (auto simp: Let_def)

text \<open>
  With a byte to spare behind the counted ones, \<^verbatim>\<open>memspn\<close> is the length of the span; in a
  buffer of exactly the counted size it reads past the end when all of them are accepted.
\<close>

lemma memspn_eq:
  "n < length s \<Longrightarrow> memspn_loop s n accept p = Inr (p + length (takeWhile (\<lambda>c. c \<in> set accept) (take n s)))"
  by (induction s n accept p rule: memspn_loop.induct) (auto split: nat.split)

lemma memspn_overread:
  assumes "set s \<subseteq> set accept"
  shows "memspn s (length s) accept = Inl OutOfBounds"
proof -
  have "memspn_loop s (length s) accept p = Inl OutOfBounds" for p
    using assms by (induction s arbitrary: p) auto
  then show ?thesis
    by (simp add: memspn_def)
qed

end
