(* ===== verification/StringPieces.thy ===== *)
theory StringPieces
  imports MemSearch Fastmem
begin

text \<open>
  \<^verbatim>\<open>StringPiece\<close> (\<^verbatim>\<open>gbase/strings/stringpiece.{h,cc}\<close>): a pointer and an \<^verbatim>\<open>int\<close> length, here the
  list of the bytes it covers.  A position is a \<^verbatim>\<open>size_type\<close>, a natural number below \<open>2 ^ 64\<close>; the
  searches return an \<^verbatim>\<open>int\<close>, \<open>-1\<close> being \<^verbatim>\<open>npos\<close>.  Where a position becomes an \<^verbatim>\<open>int\<close> it
  wraps, and an access before the start of the piece is a fault.
\<close>

section \<open>Construction, parts and comparison\<close>

definition npos :: nat where "npos = 2 ^ 64 - 1"

definition piece_from :: "bytes \<Rightarrow> int \<Rightarrow> fault + bytes" where
  "piece_from x pos =
    bindE (assertE CheckFailed (0 \<le> pos)) (\<lambda>_.
    bindE (assertE CheckFailed (pos \<le> int (length x))) (\<lambda>_. Inr (drop (nat pos) x)))"

definition piece_range :: "bytes \<Rightarrow> int \<Rightarrow> int \<Rightarrow> fault + bytes" where
  "piece_range x pos n =
    bindE (assertE CheckFailed (0 \<le> pos)) (\<lambda>_.
    bindE (assertE CheckFailed (pos \<le> int (length x))) (\<lambda>_.
    bindE (assertE CheckFailed (n \<ge> 0)) (\<lambda>_.
      Inr (take (nat (min n (int (length x) - pos))) (drop (nat pos) x)))))"

definition sp_index :: "bytes \<Rightarrow> int \<Rightarrow> fault + byte" where
  "sp_index s i =
    bindE (assertE CheckFailed (0 \<le> i)) (\<lambda>_.
    bindE (assertE CheckFailed (i < int (length s))) (\<lambda>_. Inr (s ! nat i)))"

definition sp_remove_prefix :: "bytes \<Rightarrow> nat \<Rightarrow> fault + bytes" where
  "sp_remove_prefix s n = bindE (assertE CheckFailed (length s \<ge> n)) (\<lambda>_. Inr (drop n s))"

definition sp_remove_suffix :: "bytes \<Rightarrow> nat \<Rightarrow> fault + bytes" where
  "sp_remove_suffix s n = bindE (assertE CheckFailed (length s \<ge> n)) (\<lambda>_. Inr (take (length s - n) s))"

definition sp_compare :: "bytes \<Rightarrow> bytes \<Rightarrow> fault + int" where
  "sp_compare s x =
    bindE (memcmp s x (if length s < length x then length s else length x)) (\<lambda>r.
      Inr (if r < 0 then -1 else if r > 0 then 1
           else if length s < length x then -1 else if length s > length x then 1 else 0))"

definition sp_starts_with :: "bytes \<Rightarrow> bytes \<Rightarrow> fault + bool" where
  "sp_starts_with s x =
    (if length s \<ge> length x then bindE (memcmp s x (length x)) (\<lambda>r. Inr (r = 0)) else Inr False)"

definition sp_ends_with :: "bytes \<Rightarrow> bytes \<Rightarrow> fault + bool" where
  "sp_ends_with s x =
    (if length s \<ge> length x then bindE (memcmp (drop (length s - length x) s) x (length x)) (\<lambda>r. Inr (r = 0))
     else Inr False)"

definition sp_eq :: "bytes \<Rightarrow> bytes \<Rightarrow> fault + bool" where
  "sp_eq x y =
    (if length x \<noteq> length y then Inr False
     else if length x \<le> 0 then Inr True else memeq x y (length x))"

definition sp_ne :: "bytes \<Rightarrow> bytes \<Rightarrow> fault + bool" where
  "sp_ne x y = map_sum id Not (sp_eq x y)"

definition sp_less :: "bytes \<Rightarrow> bytes \<Rightarrow> fault + bool" where
  "sp_less x y =
    bindE (memcmp x y (if length x < length y then length x else length y)) (\<lambda>r.
      Inr (r < 0 \<or> (r = 0 \<and> length x < length y)))"

definition sp_greater :: "bytes \<Rightarrow> bytes \<Rightarrow> fault + bool" where
  "sp_greater x y = sp_less y x"

definition sp_le :: "bytes \<Rightarrow> bytes \<Rightarrow> fault + bool" where
  "sp_le x y = map_sum id Not (sp_greater x y)"

definition sp_ge :: "bytes \<Rightarrow> bytes \<Rightarrow> fault + bool" where
  "sp_ge x y = map_sum id Not (sp_less x y)"

text \<open>
  \<^verbatim>\<open>copy\<close>: the difference of the length and the position is a \<^verbatim>\<open>size_type\<close>; reading more than
  the piece covers is a fault.
\<close>

definition sp_copy :: "bytes \<Rightarrow> nat \<Rightarrow> nat \<Rightarrow> fault + bytes" where
  "sp_copy s n pos =
    (let ret = min (nat ((int (length s) - int pos) mod 2 ^ 64)) n in
     if pos + ret \<le> length s then Inr (take ret (drop pos s)) else Inl OutOfBounds)"

definition sp_substr :: "bytes \<Rightarrow> nat \<Rightarrow> nat \<Rightarrow> bytes" where
  "sp_substr s pos n =
    (let pos = (if pos > length s then length s else pos);
         n = (if n > length s - pos then length s - pos else n) in
     take n (drop pos s))"

section \<open>Searches\<close>

definition sp_find :: "bytes \<Rightarrow> bytes \<Rightarrow> nat \<Rightarrow> int" where
  "sp_find s x pos =
    (if s = [] \<or> pos > length s then
       (if s = [] \<and> pos = 0 \<and> x = [] then 0 else -1)
     else case memmatch (drop pos s) x of None \<Rightarrow> -1 | Some m \<Rightarrow> int (pos + m))"

definition sp_contains :: "bytes \<Rightarrow> bytes \<Rightarrow> bool" where
  "sp_contains s x \<longleftrightarrow> sp_find s x 0 \<noteq> -1"

definition sp_find_char :: "bytes \<Rightarrow> byte \<Rightarrow> nat \<Rightarrow> int" where
  "sp_find_char s c pos =
    (if s = [] \<or> pos \<ge> length s then -1
     else case memchr s c pos (length s) of None \<Rightarrow> -1 | Some m \<Rightarrow> int m)"

text \<open>\<^verbatim>\<open>std::find_end\<close>: the last occurrence in a range, or its end.\<close>

definition find_end :: "bytes \<Rightarrow> bytes \<Rightarrow> nat" where
  "find_end s x = (case List.find (occurs x s) (rev [0..<length s]) of None \<Rightarrow> length s | Some i \<Rightarrow> i)"

definition sp_rfind :: "bytes \<Rightarrow> bytes \<Rightarrow> nat \<Rightarrow> int" where
  "sp_rfind s x pos =
    (if length s < length x then -1
     else if length x = 0 then int (min (length s) pos)
     else let last = min (length s - length x) pos + length x;
              result = find_end (take last s) x in
          if result \<noteq> last then int result else -1)"

text \<open>The loops upwards from an \<^verbatim>\<open>int\<close> and downwards to 0.\<close>

function upwards :: "(byte \<Rightarrow> bool) \<Rightarrow> bytes \<Rightarrow> int \<Rightarrow> fault + int" where
  "upwards P s i =
    (if i \<ge> int (length s) then Inr (-1)
     else if i < 0 then Inl OutOfBounds
     else if P (s ! nat i) then Inr i
     else upwards P s (i + 1))"
  by pat_completeness auto
termination
  by (relation "measure (\<lambda>(P, s, i). nat (int (length s) - i))") auto

declare upwards.simps [simp del]

fun downwards :: "(byte \<Rightarrow> bool) \<Rightarrow> bytes \<Rightarrow> nat \<Rightarrow> int" where
  "downwards P s 0 = (if P (s ! 0) then 0 else -1)"
| "downwards P s (Suc i) = (if P (s ! Suc i) then int (Suc i) else downwards P s i)"

text \<open>\<^verbatim>\<open>BuildLookupTable\<close>: the entries of the characters wanted are set to true.\<close>

definition BuildLookupTable :: "bytes \<Rightarrow> byte \<Rightarrow> bool" where
  "BuildLookupTable x = foldl (\<lambda>table c. table(c := True)) (\<lambda>_. False) x"

lemma lookup_table: "foldl (\<lambda>table c. table(c := True)) t x = (\<lambda>c. t c \<or> c \<in> set x)"
  by (induction x arbitrary: t) auto

lemma BuildLookupTable_set [simp]: "BuildLookupTable x = (\<lambda>c. c \<in> set x)"
  by (simp add: BuildLookupTable_def lookup_table)

definition sp_rfind_char :: "bytes \<Rightarrow> byte \<Rightarrow> nat \<Rightarrow> int" where
  "sp_rfind_char s c pos =
    (if s = [] then -1 else downwards (\<lambda>x. x = c) s (min pos (length s - 1)))"

definition sp_find_first_of :: "bytes \<Rightarrow> bytes \<Rightarrow> nat \<Rightarrow> fault + int" where
  "sp_find_first_of s x pos =
    (if s = [] \<or> x = [] then Inr (-1)
     else if length x = 1 then Inr (sp_find_char s (x ! 0) pos)
     else upwards (BuildLookupTable x) s (wrap32 (int pos)))"

definition sp_find_first_not_of_char :: "bytes \<Rightarrow> byte \<Rightarrow> nat \<Rightarrow> int" where
  "sp_find_first_not_of_char s c pos =
    (case List.find (\<lambda>i. s ! i \<noteq> c) [pos..<length s] of None \<Rightarrow> -1 | Some i \<Rightarrow> int i)"

definition sp_find_first_not_of :: "bytes \<Rightarrow> bytes \<Rightarrow> nat \<Rightarrow> fault + int" where
  "sp_find_first_not_of s x pos =
    (if s = [] then Inr (-1)
     else if x = [] then Inr 0
     else if length x = 1 then Inr (sp_find_first_not_of_char s (x ! 0) pos)
     else upwards (\<lambda>c. \<not> BuildLookupTable x c) s (wrap32 (int pos)))"

definition sp_find_last_of :: "bytes \<Rightarrow> bytes \<Rightarrow> nat \<Rightarrow> int" where
  "sp_find_last_of s x pos =
    (if s = [] \<or> x = [] then -1
     else if length x = 1 then sp_rfind_char s (x ! 0) pos
     else downwards (BuildLookupTable x) s (min pos (length s - 1)))"

definition sp_find_last_not_of_char :: "bytes \<Rightarrow> byte \<Rightarrow> nat \<Rightarrow> int" where
  "sp_find_last_not_of_char s c pos =
    (if s = [] then -1 else downwards (\<lambda>x. x \<noteq> c) s (min pos (length s - 1)))"

definition sp_find_last_not_of :: "bytes \<Rightarrow> bytes \<Rightarrow> nat \<Rightarrow> int" where
  "sp_find_last_not_of s x pos =
    (if s = [] then -1
     else let i = min pos (length s - 1) in
       if x = [] then int i
       else if length x = 1 then sp_find_last_not_of_char s (x ! 0) pos
       else downwards (\<lambda>c. \<not> BuildLookupTable x c) s i)"

section \<open>What the searches find\<close>

definition first_from :: "nat \<Rightarrow> (nat \<Rightarrow> bool) \<Rightarrow> int \<Rightarrow> bool" where
  "first_from pos Q r \<longleftrightarrow>
    (r = -1 \<and> (\<forall>i\<ge>pos. \<not> Q i)) \<or> (\<exists>m. r = int m \<and> pos \<le> m \<and> Q m \<and> (\<forall>i. pos \<le> i \<and> i < m \<longrightarrow> \<not> Q i))"

definition last_upto :: "nat \<Rightarrow> (nat \<Rightarrow> bool) \<Rightarrow> int \<Rightarrow> bool" where
  "last_upto pos Q r \<longleftrightarrow>
    (r = -1 \<and> (\<forall>i\<le>pos. \<not> Q i)) \<or> (\<exists>m. r = int m \<and> m \<le> pos \<and> Q m \<and> (\<forall>i. m < i \<and> i \<le> pos \<longrightarrow> \<not> Q i))"

lemma first_from_none: "(\<And>i. pos \<le> i \<Longrightarrow> \<not> Q i) \<Longrightarrow> first_from pos Q (-1)"
  by (simp add: first_from_def)

lemma first_from_some: "pos \<le> m \<Longrightarrow> Q m \<Longrightarrow> (\<And>i. pos \<le> i \<Longrightarrow> i < m \<Longrightarrow> \<not> Q i) \<Longrightarrow> first_from pos Q (int m)"
  by (auto simp: first_from_def)

lemma last_upto_none: "(\<And>i. i \<le> pos \<Longrightarrow> \<not> Q i) \<Longrightarrow> last_upto pos Q (-1)"
  by (simp add: last_upto_def)

lemma last_upto_some: "m \<le> pos \<Longrightarrow> Q m \<Longrightarrow> (\<And>i. m < i \<Longrightarrow> i \<le> pos \<Longrightarrow> \<not> Q i) \<Longrightarrow> last_upto pos Q (int m)"
  by (auto simp: last_upto_def)

lemma last_upto_Suc:
  "last_upto i Q r \<Longrightarrow> last_upto (Suc i) Q (if Q (Suc i) then int (Suc i) else r)"
proof (cases "Q (Suc i)")
  case True
  then show ?thesis
    using last_upto_some [of "Suc i" "Suc i" Q] by simp
next
  case False
  assume "last_upto i Q r"
  with False show ?thesis
    by (fastforce simp: last_upto_def le_Suc_eq)
qed

definition char_at :: "bytes \<Rightarrow> (byte \<Rightarrow> bool) \<Rightarrow> nat \<Rightarrow> bool" where
  "char_at s P i \<longleftrightarrow> i < length s \<and> P (s ! i)"

lemma occurs_drop: "pos \<le> length s \<Longrightarrow> occurs x (drop pos s) m \<longleftrightarrow> occurs x s (pos + m)"
  by (auto simp: occurs_def add.commute)

lemma sp_find_first: "first_from pos (occurs x s) (sp_find s x pos)"
proof (cases "s = [] \<or> pos > length s")
  case True
  then show ?thesis
    by (auto simp: sp_find_def first_from_def occurs_def)
next
  case False
  then have p: "pos \<le> length s"
    by simp
  note f = memmatch_first [of x "drop pos s"]
  show ?thesis
  proof (cases "memmatch (drop pos s) x")
    case None
    with f p have "\<not> occurs x s (pos + m)" for m
      by (simp add: first_at_def occurs_drop)
    then have "\<not> occurs x s i" if "pos \<le> i" for i
      using that by (metis le_Suc_ex)
    with None False show ?thesis
      by (simp add: sp_find_def first_from_def)
  next
    case (Some m)
    with f p have m: "occurs x s (pos + m)" "\<forall>i<m. \<not> occurs x s (pos + i)"
      by (simp_all add: first_at_def occurs_drop)
    then have "\<not> occurs x s i" if "pos \<le> i" "i < pos + m" for i
      using that by (metis le_Suc_ex nat_add_left_cancel_less)
    then have "first_from pos (occurs x s) (int (pos + m))"
      by (intro first_from_some) (use m in simp_all)
    with Some False show ?thesis
      by (simp add: sp_find_def)
  qed
qed

lemma sp_contains_iff: "sp_contains s x \<longleftrightarrow> (\<exists>u v. s = u @ x @ v)"
proof -
  have "sp_contains s x \<longleftrightarrow> (\<exists>i. occurs x s i)"
    using sp_find_first [of 0 x s] by (auto simp: sp_contains_def first_from_def)
  then show ?thesis
    by (auto simp: occurs_decomp)
qed

lemma sp_find_char_first: "first_from pos (char_at s (\<lambda>x. x = c)) (sp_find_char s c pos)"
proof (cases "memchr s c pos (length s)")
  case None
  then show ?thesis
    using memchr_None [OF None] by (auto simp: sp_find_char_def first_from_def char_at_def)
next
  case (Some m)
  with memchr_Some [OF Some] show ?thesis
    by (auto simp: sp_find_char_def first_from_def char_at_def)
qed

lemma upwards_first:
  "0 \<le> i \<Longrightarrow> \<exists>r. upwards P s i = Inr r \<and> first_from (nat i) (char_at s P) r"
proof (induction P s i rule: upwards.induct)
  case (1 P s i)
  show ?case
  proof (cases "i \<ge> int (length s)")
    case True
    then show ?thesis
      using 1(2) by (auto simp: upwards.simps [of P s i] first_from_def char_at_def)
  next
    case low: False
    show ?thesis
    proof (cases "P (s ! nat i)")
      case True
      then show ?thesis
        using low 1(2) by (auto simp: upwards.simps [of P s i] first_from_def char_at_def intro!: exI [of _ "nat i"])
    next
      case False
      with 1(1) [OF low _ False] 1(2) obtain r where r: "upwards P s (i + 1) = Inr r"
        "first_from (nat (i + 1)) (char_at s P) r"
        by auto
      have "first_from (nat i) (char_at s P) r"
      proof -
        have "nat (i + 1) = Suc (nat i)"
          using 1(2) by simp
        moreover have "\<not> char_at s P (nat i)"
          using False by (simp add: char_at_def)
        ultimately show ?thesis
          using r(2) unfolding first_from_def by (metis Suc_leD Suc_leI le_neq_implies_less)
      qed
      with r low 1(2) False show ?thesis
        by (simp add: upwards.simps [of P s i])
    qed
  qed
qed

lemma downwards_last: "i < length s \<Longrightarrow> last_upto i (char_at s P) (downwards P s i)"
proof (induction i)
  case 0
  then show ?case
    using last_upto_some [of 0 0 "char_at s P"] by (auto simp: last_upto_def char_at_def)
next
  case (Suc i)
  then have "last_upto i (char_at s P) (downwards P s i)"
    by simp
  moreover have "char_at s P (Suc i) \<longleftrightarrow> P (s ! Suc i)"
    using Suc.prems by (simp add: char_at_def)
  ultimately show ?case
    using last_upto_Suc [of i "char_at s P" "downwards P s i"] by simp
qed

lemma last_upto_min:
  "last_upto (min pos (length s - 1)) (char_at s P) r \<Longrightarrow> s \<noteq> [] \<Longrightarrow> last_upto pos (char_at s P) r"
  by (auto simp: last_upto_def char_at_def min_def split: if_splits)

lemma wrap32_pos: "pos < 2 ^ 31 \<Longrightarrow> wrap32 (int pos) = int pos"
  by (simp add: wrap32_def)

lemma single: "length x = 1 \<Longrightarrow> set x = {x ! 0}"
  by (cases x) auto

lemma find_first_of_first:
  assumes "pos < 2 ^ 31"
  shows "\<exists>r. sp_find_first_of s x pos = Inr r \<and> first_from pos (char_at s (\<lambda>c. c \<in> set x)) r"
proof -
  consider "s = [] \<or> x = []" | "s \<noteq> []" "length x = 1" | "s \<noteq> []" "x \<noteq> []" "length x \<noteq> 1"
    by auto
  then show ?thesis
  proof cases
    case 1
    then show ?thesis
      by (auto simp: sp_find_first_of_def first_from_def char_at_def)
  next
    case 2
    then have "x \<noteq> []"
      by auto
    with 2 show ?thesis
      using sp_find_char_first [of pos s "x ! 0"] single [of x] by (simp add: sp_find_first_of_def)
  next
    case 3
    then show ?thesis
      using upwards_first [of "int pos" "\<lambda>c. c \<in> set x" s] wrap32_pos [OF assms]
      by (simp add: sp_find_first_of_def)
  qed
qed

lemma find_first_not_of_first:
  assumes "pos < 2 ^ 31" "x \<noteq> []"
  shows "\<exists>r. sp_find_first_not_of s x pos = Inr r \<and> first_from pos (char_at s (\<lambda>c. c \<notin> set x)) r"
proof -
  consider "s = []" | "s \<noteq> []" "length x = 1" | "s \<noteq> []" "length x \<noteq> 1"
    by auto
  then show ?thesis
  proof cases
    case 1
    then show ?thesis
      by (auto simp: sp_find_first_not_of_def first_from_def char_at_def)
  next
    case 2
    have "first_from pos (char_at s (\<lambda>c. c \<noteq> x ! 0)) (sp_find_first_not_of_char s (x ! 0) pos)"
    proof (cases "List.find (\<lambda>i. s ! i \<noteq> x ! 0) [pos..<length s]")
      case None
      then show ?thesis
        unfolding sp_find_first_not_of_char_def None option.case
        by (intro first_from_none) (use find_upt_None [OF None] in \<open>auto simp: char_at_def\<close>)
    next
      case (Some m)
      then show ?thesis
        unfolding sp_find_first_not_of_char_def Some option.case
        by (intro first_from_some) (use find_upt_Some [OF Some] in \<open>auto simp: char_at_def\<close>)
    qed
    with 2 assms single [of x] show ?thesis
      by (simp add: sp_find_first_not_of_def)
  next
    case 3
    then show ?thesis
      using upwards_first [of "int pos" "\<lambda>c. c \<notin> set x" s] wrap32_pos [OF assms(1)] assms(2)
      by (simp add: sp_find_first_not_of_def)
  qed
qed

lemma last_index: "s \<noteq> [] \<Longrightarrow> min pos (length s - 1) < length s"
  by (cases s) auto

lemma downwards_upto: "s \<noteq> [] \<Longrightarrow> last_upto pos (char_at s P) (downwards P s (min pos (length s - 1)))"
  by (rule last_upto_min [OF downwards_last [OF last_index]])

lemma find_last_of_last: "last_upto pos (char_at s (\<lambda>c. c \<in> set x)) (sp_find_last_of s x pos)"
proof -
  consider "s = [] \<or> x = []" | "s \<noteq> []" "x \<noteq> []"
    by auto
  then show ?thesis
  proof cases
    case 1
    then show ?thesis
      by (auto simp: sp_find_last_of_def last_upto_def char_at_def)
  next
    case 2
    then show ?thesis
      using downwards_upto [of s pos] single [of x] by (simp add: sp_find_last_of_def sp_rfind_char_def)
  qed
qed

lemma find_last_not_of_last: "last_upto pos (char_at s (\<lambda>c. c \<notin> set x)) (sp_find_last_not_of s x pos)"
proof (cases "s = []")
  case True
  then show ?thesis
    by (auto simp: sp_find_last_not_of_def last_upto_def char_at_def)
next
  case False
  note d = downwards_upto [OF False, of pos]
  show ?thesis
  proof (cases "x = []")
    case True
    have "last_upto pos (char_at s (\<lambda>c. True)) (int (min pos (length s - 1)))"
      by (rule last_upto_min [OF last_upto_some])
        (use last_index [OF False, of pos] False in \<open>auto simp: char_at_def min_def split: if_splits\<close>)
    with True False show ?thesis
      by (simp add: sp_find_last_not_of_def)
  next
    case ne: False
    with False d single [of x] show ?thesis
      by (simp add: sp_find_last_not_of_def sp_find_last_not_of_char_def Let_def)
  qed
qed

text \<open>The backward search for a string, the empty string included.\<close>

lemma find_end_last:
  assumes "x \<noteq> []"
  shows "find_end s x = length s \<and> (\<forall>i. \<not> occurs x s i)
    \<or> find_end s x < length s \<and> occurs x s (find_end s x) \<and> (\<forall>i. find_end s x < i \<longrightarrow> \<not> occurs x s i)"
proof -
  have bound: "occurs x s i \<Longrightarrow> i < length s" for i
    using assms by (cases x) (auto simp: occurs_def)
  show ?thesis
  proof (cases "List.find (occurs x s) (rev [0..<length s])")
    case None
    then have "find_end s x = length s"
      by (simp add: find_end_def)
    with None bound show ?thesis
      by (auto simp: find_None_iff)
  next
    case (Some m)
    then obtain k where k: "k < length s" "m = rev [0..<length s] ! k" "occurs x s (rev [0..<length s] ! k)"
      "\<forall>l<k. \<not> occurs x s (rev [0..<length s] ! l)"
      by (auto simp: find_Some_iff)
    then have m: "m = length s - 1 - k" "occurs x s m"
      by (simp_all add: rev_nth)
    have "\<not> occurs x s i" if "m < i" for i
    proof
      assume o: "occurs x s i"
      then have "i < length s"
        by (rule bound)
      with that m k have "length s - 1 - i < k" "rev [0..<length s] ! (length s - 1 - i) = i"
        by (simp_all add: rev_nth)
      with k(4) o show False
        by metis
    qed
    moreover have "find_end s x = m"
      by (simp add: find_end_def Some)
    moreover have "m < length s"
      using m k by linarith
    ultimately show ?thesis
      using m(2) by blast
  qed
qed

lemma occurs_take: "occurs x (take n s) i \<longleftrightarrow> occurs x s i \<and> i + length x \<le> n"
  by (auto simp: occurs_def min_def take_drop split: if_splits)

lemma sp_rfind_last: "last_upto pos (occurs x s) (sp_rfind s x pos)"
proof -
  consider "length s < length x" | "x = []" | "x \<noteq> []" "length x \<le> length s"
    by linarith
  then show ?thesis
  proof cases
    case 1
    then show ?thesis
      by (simp add: sp_rfind_def) (rule last_upto_none, simp add: occurs_def)
  next
    case 2
    have "last_upto pos (occurs [] s) (int (min (length s) pos))"
      by (rule last_upto_some) (auto simp: occurs_def)
    with 2 show ?thesis
      by (simp add: sp_rfind_def)
  next
    case 3
    define l where "l = min (length s - length x) pos + length x"
    have l: "l \<le> length s"
      using 3 by (simp add: l_def)
    have oc: "occurs x (take l s) i \<longleftrightarrow> occurs x s i \<and> i \<le> pos" for i
    proof -
      have "occurs x s i \<Longrightarrow> i + length x \<le> length s"
        by (simp add: occurs_def)
      then show ?thesis
        unfolding occurs_take l_def by auto
    qed
    have r: "sp_rfind s x pos = (if find_end (take l s) x \<noteq> l then int (find_end (take l s) x) else -1)"
      using 3 by (simp add: sp_rfind_def l_def Let_def)
    from find_end_last [OF 3(1), of "take l s"] show ?thesis
    proof
      assume a: "find_end (take l s) x = length (take l s) \<and> (\<forall>i. \<not> occurs x (take l s) i)"
      then have "find_end (take l s) x = l"
        using l by simp
      with a show ?thesis
        unfolding r by (simp add: oc) (rule last_upto_none, auto)
    next
      assume a: "find_end (take l s) x < length (take l s) \<and> occurs x (take l s) (find_end (take l s) x)
        \<and> (\<forall>i. find_end (take l s) x < i \<longrightarrow> \<not> occurs x (take l s) i)"
      then have "find_end (take l s) x \<noteq> l"
        using l by simp
      moreover have "last_upto pos (occurs x s) (int (find_end (take l s) x))"
        using a by (intro last_upto_some) (auto simp: oc)
      ultimately show ?thesis
        unfolding r by simp
    qed
  qed
qed

text \<open>
  C40: every forward search returns the first position from \<^verbatim>\<open>pos\<close> on that qualifies and every
  backward search the last one up to \<^verbatim>\<open>pos\<close>, or \<^verbatim>\<open>npos\<close> when there is none; positions of the
  table-driven searches are those an \<^verbatim>\<open>int\<close> holds.
\<close>

theorem piece_searches:
  assumes "pos < 2 ^ 31" "chars \<noteq> []"
  shows "first_from pos (occurs x s) (sp_find s x pos)
    \<and> last_upto pos (occurs x s) (sp_rfind s x pos)
    \<and> (\<exists>r. sp_find_first_of s chars pos = Inr r \<and> first_from pos (char_at s (\<lambda>c. c \<in> set chars)) r)
    \<and> (\<exists>r. sp_find_first_not_of s chars pos = Inr r \<and> first_from pos (char_at s (\<lambda>c. c \<notin> set chars)) r)
    \<and> last_upto pos (char_at s (\<lambda>c. c \<in> set chars)) (sp_find_last_of s chars pos)
    \<and> last_upto pos (char_at s (\<lambda>c. c \<notin> set chars)) (sp_find_last_not_of s chars pos)"
  using sp_find_first sp_rfind_last find_first_of_first [OF assms(1)] find_first_not_of_first [OF assms]
    find_last_of_last find_last_not_of_last by blast

theorem piece_searches_witness:
  "first_from 1 (occurs [98 :: byte] [97, 98]) (sp_find [97, 98] [98] 1)
    \<and> last_upto 1 (occurs [98 :: byte] [97, 98]) (sp_rfind [97, 98] [98] 1)
    \<and> (\<exists>r. sp_find_first_of [97, 98] [97, 98] 1 = Inr r \<and> first_from 1 (char_at [97, 98] (\<lambda>c. c \<in> set [97, 98])) r)
    \<and> (\<exists>r. sp_find_first_not_of [97, 98] [97, 98] 1 = Inr r \<and> first_from 1 (char_at [97, 98] (\<lambda>c. c \<notin> set [97, 98])) r)
    \<and> last_upto 1 (char_at [97, 98] (\<lambda>c. c \<in> set [97, 98])) (sp_find_last_of [97, 98] [97, 98] 1)
    \<and> last_upto 1 (char_at [97, 98] (\<lambda>c. c \<notin> set [97, 98])) (sp_find_last_not_of [97, 98] [97, 98] 1)"
  by (rule piece_searches) simp_all

text \<open>
  Two divergences from \<^verbatim>\<open>std::string\<close>: the search for a character outside the empty set
  ignores the position, and a position beyond \<^verbatim>\<open>int\<close> is a read before the piece.
\<close>

lemma find_first_not_of_empty: "s \<noteq> [] \<Longrightarrow> sp_find_first_not_of s [] pos = Inr 0"
  by (simp add: sp_find_first_not_of_def)

lemma find_first_of_npos: "s \<noteq> [] \<Longrightarrow> 2 \<le> length x \<Longrightarrow> sp_find_first_of s x npos = Inl OutOfBounds"
  by (cases x) (auto simp: sp_find_first_of_def npos_def wrap32_def upwards.simps)

lemma copy_beyond_end: "length s < pos \<Longrightarrow> pos \<le> 2 ^ 63 \<Longrightarrow> 0 < n \<Longrightarrow> sp_copy s n pos = Inl OutOfBounds"
proof -
  assume a: "length s < pos" "pos \<le> 2 ^ 63" "0 < n"
  have "(int (length s) - int pos) mod 2 ^ 64 = int (length s) - int pos + 2 ^ 64"
  proof -
    have "(int (length s) - int pos) mod 2 ^ 64 = (int (length s) - int pos + 2 ^ 64) mod 2 ^ 64"
      by simp
    also have "\<dots> = int (length s) - int pos + 2 ^ 64"
      using a by (intro mod_pos_pos_trivial) simp_all
    finally show ?thesis .
  qed
  then show ?thesis
    using a by (auto simp: sp_copy_def Let_def)
qed

section \<open>The order of pieces\<close>

lemma memcmp_min:
  "memcmp x y (if length x < length y then length x else length y)
    = Inr (block_cmp (take (length y) x) (take (length x) y))"
proof -
  let ?n = "if length x < length y then length x else length y"
  have "?n \<le> length x" "?n \<le> length y" "take ?n x = take (length y) x" "take ?n y = take (length x) y"
    by auto
  then show ?thesis
    using memcmp_block [of ?n x y] by simp
qed

text \<open>The block order decides first on the common length, then on the lengths.\<close>

lemma block_cmp_lengths:
  "block_cmp x y = (let r = block_cmp (take (length y) x) (take (length x) y) in
     if r \<noteq> 0 then r else if length x < length y then -1 else if length x > length y then 1 else 0)"
  by (induction x y rule: block_cmp.induct) (auto simp: Let_def)

lemma sp_compare_eq: "sp_compare s x = Inr (block_cmp s x)"
proof -
  have "block_cmp u v \<in> {-1, 0, 1}" for u v
    by (induction u v rule: block_cmp.induct) auto
  from this [of "take (length x) s" "take (length s) x"] show ?thesis
    unfolding sp_compare_def memcmp_min block_cmp_lengths [of s x] by (auto simp: Let_def)
qed

lemma sp_less_eq: "sp_less x y = Inr (ord_class.lexordp x y)"
  unfolding sp_less_def memcmp_min block_cmp_lexordp [symmetric] block_cmp_lengths [of x y]
  by (auto simp: Let_def)

lemma sp_eq_eq: "sp_eq x y = Inr (x = y)"
  using memeq_block [of "length x" x y] by (auto simp: sp_eq_def)

lemma sp_starts_with_eq: "sp_starts_with s x = Inr (take (length x) s = x)"
proof (cases "length x \<le> length s")
  case True
  then show ?thesis
    using memcmp_block [of "length x" s x] by (simp add: sp_starts_with_def block_cmp_0_iff)
next
  case False
  then have "take (length x) s \<noteq> x"
    by (metis length_take min.absorb_iff2 nle_le)
  with False show ?thesis
    by (simp add: sp_starts_with_def)
qed

lemma sp_ends_with_eq: "sp_ends_with s x = Inr (\<exists>u. s = u @ x)"
proof (cases "length x \<le> length s")
  case True
  then have "memcmp (drop (length s - length x) s) x (length x) = Inr (block_cmp (drop (length s - length x) s) x)"
    using memcmp_block [of "length x" "drop (length s - length x) s" x] by simp
  moreover have "drop (length s - length x) s = x \<longleftrightarrow> (\<exists>u. s = u @ x)"
    by (auto intro: exI [of _ "take (length s - length x) s"]) (metis append_take_drop_id)
  ultimately show ?thesis
    using True by (simp add: sp_ends_with_def block_cmp_0_iff)
qed (auto simp: sp_ends_with_def)

text \<open>
  The six comparison operators are those of one total order of byte strings, the
  lexicographic order of unsigned bytes, and never read outside the pieces.
\<close>

lemma piece_operators:
  "sp_less x y = Inr (ord_class.lexordp x y)" "sp_greater x y = Inr (ord_class.lexordp y x)"
  "sp_le x y = Inr (x = y \<or> ord_class.lexordp x y)" "sp_ge x y = Inr (x = y \<or> ord_class.lexordp y x)"
  "sp_eq x y = Inr (x = y)" "sp_ne x y = Inr (x \<noteq> y)"
proof -
  have "\<not> ord_class.lexordp y x \<longleftrightarrow> x = y \<or> ord_class.lexordp x y" for x y :: bytes
    unfolding block_cmp_lexordp [symmetric] block_cmp_0_iff [symmetric]
    using block_cmp_swap [of y x] by linarith
  then show "sp_less x y = Inr (ord_class.lexordp x y)" "sp_greater x y = Inr (ord_class.lexordp y x)"
    "sp_le x y = Inr (x = y \<or> ord_class.lexordp x y)" "sp_ge x y = Inr (x = y \<or> ord_class.lexordp y x)"
    "sp_eq x y = Inr (x = y)" "sp_ne x y = Inr (x \<noteq> y)"
    by (auto simp: sp_less_eq sp_greater_def sp_le_def sp_ge_def sp_eq_eq sp_ne_def)
qed

end
