(* ===== verification/KeyRanges.thy ===== *)
theory KeyRanges
  imports StringPieces "HOL-Library.Sublist"
begin

text \<open>
  The key-range helpers of \<^verbatim>\<open>gbase/strings/util.cc\<close>: \<^verbatim>\<open>PrefixSuccessor\<close>, \<^verbatim>\<open>ImmediateSuccessor\<close>
  and \<^verbatim>\<open>FindShortestSeparator\<close>.  They compare a \<^verbatim>\<open>char\<close> with 255, so what they do depends
  on whether \<^verbatim>\<open>char\<close> is signed.  The order of keys is the one of the \<^verbatim>\<open>StringPiece\<close> operators.
\<close>

section \<open>The routines\<close>

text \<open>\<^verbatim>\<open>limit\<close> loses its last character while that is 255; \<open>None\<close> is the loop ending without \<^verbatim>\<open>done\<close>.\<close>

function PrefixSuccessor_loop :: "build \<Rightarrow> bytes \<Rightarrow> bytes option" where
  "PrefixSuccessor_loop b limit =
    (if limit = [] then None
     else if char_value b (last limit) = 255 then PrefixSuccessor_loop b (butlast limit)
     else Some (butlast limit @ [last limit + 1]))"
  by pat_completeness auto
termination
  by (relation "measure (\<lambda>(b, limit). length limit)") simp_all

declare PrefixSuccessor_loop.simps [simp del]

definition PrefixSuccessor :: "build \<Rightarrow> bytes \<Rightarrow> bytes" where
  "PrefixSuccessor b p =
    (case PrefixSuccessor_loop b p of None \<Rightarrow> [] | Some limit \<Rightarrow> limit)"

definition ImmediateSuccessor :: "bytes \<Rightarrow> bytes" where
  "ImmediateSuccessor s = s @ [0]"

text \<open>The loop over the common prefix; the two unread rests are its state.\<close>

fun common_length :: "bytes \<Rightarrow> bytes \<Rightarrow> nat" where
  "common_length (a # start) (b # limit) = (if a = b then Suc (common_length start limit) else 0)"
| "common_length _ _ = 0"

definition FindShortestSeparator :: "build \<Rightarrow> bytes \<Rightarrow> bytes \<Rightarrow> fault + bytes" where
  "FindShortestSeparator b start limit =
    (let min_length = min (length start) (length limit); diff_index = common_length start limit in
     if diff_index \<ge> min_length then Inr start
     else if diff_index + 1 = length start then Inr start
     else if char_value b (start ! diff_index) = 0xff then Inr start
     else
       let separator = take diff_index start @ [start ! diff_index + 1] in
       bindE (sp_ge separator limit) (\<lambda>ge. Inr (if ge then start else separator)))"

section \<open>The order of keys\<close>

definition key_less :: "bytes \<Rightarrow> bytes \<Rightarrow> bool" where
  "key_less x y \<longleftrightarrow> ord_class.lexordp x y"

definition key_le :: "bytes \<Rightarrow> bytes \<Rightarrow> bool" where
  "key_le x y \<longleftrightarrow> x = y \<or> key_less x y"

lemma key_less_simps [simp]:
  "\<not> key_less x []"
  "key_less [] (b # y)"
  "key_less (a # x) (b # y) \<longleftrightarrow> a < b \<or> a = b \<and> key_less x y"
  by (auto simp: key_less_def)

lemma key_le_simps [simp]:
  "key_le [] y"
  "\<not> key_le (a # x) []"
  "key_le (a # x) (b # y) \<longleftrightarrow> a < b \<or> a = b \<and> key_le x y"
proof -
  show "key_le [] y"
    by (cases y) (simp_all add: key_le_def)
  show "\<not> key_le (a # x) []"
    by (simp add: key_le_def)
  show "key_le (a # x) (b # y) \<longleftrightarrow> a < b \<or> a = b \<and> key_le x y"
    by (auto simp: key_le_def)
qed

lemma key_less_append [simp]: "key_less (q @ x) (q @ y) \<longleftrightarrow> key_less x y"
  by (induction q) auto

lemma key_le_append [simp]: "key_le (q @ x) (q @ y) \<longleftrightarrow> key_le x y"
  by (induction q) auto

lemma key_less_or_le: "\<not> key_less x y \<longleftrightarrow> key_le y x"
proof -
  have "\<not> block_cmp x y < 0 \<longleftrightarrow> block_cmp y x = 0 \<or> block_cmp y x < 0"
    using block_cmp_swap [of y x] by linarith
  then show ?thesis
    by (simp only: key_less_def key_le_def block_cmp_lexordp block_cmp_0_iff)
qed

lemma key_le_prefix: "key_le p (p @ t)"
  using key_le_append [of p "[]" t] by simp

lemma between_common_prefix:
  "key_le (q @ x) s \<Longrightarrow> key_less s (q @ y) \<Longrightarrow> \<exists>t. s = q @ t \<and> key_le x t \<and> key_less t y"
proof (induction q arbitrary: s)
  case (Cons a q)
  then obtain b s' where s: "s = b # s'"
    by (cases s) auto
  with Cons.prems have "a = b" "key_le (q @ x) s'" "key_less s' (q @ y)"
    by auto
  with Cons.IH s show ?case
    by auto
qed auto

lemma byte_succ: "(c :: byte) \<noteq> 255 \<Longrightarrow> c < c + 1" "(c :: byte) \<noteq> 255 \<Longrightarrow> d < c + 1 \<longleftrightarrow> d \<le> c"
proof -
  assume "c \<noteq> 255"
  then have "unat (c + 1) = unat c + 1"
    using unat_byte_lt [of c]
    by (simp add: unat_word_ariths word_unat_eq_iff)
  then show "c < c + 1" "d < c + 1 \<longleftrightarrow> d \<le> c"
    by (auto simp: byte_le_unat)
qed

lemma top_bytes: "key_le (replicate k 255) t \<Longrightarrow> prefix (replicate k 255) t"
proof (induction k arbitrary: t)
  case (Suc k)
  then obtain d t' where t: "t = d # t'"
    by (cases t) auto
  have "d \<le> 255"
    unfolding byte_le_unat using unat_byte_lt [of d] by simp
  moreover have "255 < d \<or> 255 = d \<and> key_le (replicate k 255) t'"
    using Suc.prems t by simp
  ultimately have "d = 255" "key_le (replicate k 255) t'"
    using leD by blast+
  with Suc.IH t show ?case
    by simp
qed simp

text \<open>A key is some bytes, one that is not 255, and a run of 255s, or such a run only.\<close>

lemma key_shape: "(\<exists>k. p = replicate k (255 :: byte)) \<or> (\<exists>q c k. p = q @ c # replicate k 255 \<and> c \<noteq> 255)"
proof (induction p rule: rev_induct)
  case (snoc c p)
  show ?case
  proof (cases "c = 255")
    case True
    have rep: "replicate k 255 @ [c] = replicate (Suc k) 255" for k
      by (simp add: True replicate_append_same)
    from snoc show ?thesis
    proof
      assume "\<exists>k. p = replicate k 255"
      then show ?thesis
        using rep by blast
    next
      assume "\<exists>q c k. p = q @ c # replicate k 255 \<and> c \<noteq> 255"
      then obtain q d k where "p @ [c] = q @ d # replicate (Suc k) 255" "d \<noteq> 255"
        unfolding rep [symmetric] by auto
      then show ?thesis
        by blast
    qed
  next
    case False
    then show ?thesis
      by (intro disjI2 exI [of _ p] exI [of _ c] exI [of _ 0]) simp
  qed
qed simp

lemma PrefixSuccessor_loop_unsigned:
  "PrefixSuccessor_loop UnsignedChar (replicate k 255) = None"
  "c \<noteq> 255 \<Longrightarrow> PrefixSuccessor_loop UnsignedChar (q @ c # replicate k 255) = Some (q @ [c + 1])"
proof -
  have drop: "PrefixSuccessor_loop UnsignedChar (p @ replicate k 255) = PrefixSuccessor_loop UnsignedChar p" for p
  proof (induction k)
    case (Suc k)
    have "p @ replicate (Suc k) 255 = (p @ replicate k 255) @ [255 :: byte]"
      by (simp add: replicate_append_same)
    then show ?case
      using Suc by (subst PrefixSuccessor_loop.simps) (simp del: append_assoc replicate_Suc)
  qed simp
  show "PrefixSuccessor_loop UnsignedChar (replicate k 255) = None"
    using drop [of "[]"] by (simp add: PrefixSuccessor_loop.simps [of _ "[]"])
  assume "c \<noteq> 255"
  then show "PrefixSuccessor_loop UnsignedChar (q @ c # replicate k 255) = Some (q @ [c + 1])"
    using drop [of "q @ [c]"] by (subst (asm) (2) PrefixSuccessor_loop.simps) (simp add: word_uint_eq_iff)
qed

lemma unsigned_range:
  "prefix p s \<longleftrightarrow> key_le p s \<and> (PrefixSuccessor UnsignedChar p = [] \<or> key_less s (PrefixSuccessor UnsignedChar p))"
  using key_shape [of p]
proof
  assume "\<exists>k. p = replicate k 255"
  then obtain k where p: "p = replicate k 255"
    by blast
  then have "PrefixSuccessor UnsignedChar p = []"
    by (simp add: PrefixSuccessor_def PrefixSuccessor_loop_unsigned)
  then show ?thesis
    using top_bytes [of k s] key_le_prefix [of p] by (auto simp: p prefix_def)
next
  assume "\<exists>q c k. p = q @ c # replicate k 255 \<and> c \<noteq> 255"
  then obtain q c k where p: "p = q @ c # replicate k 255" and c: "c \<noteq> 255"
    by blast
  then have r: "PrefixSuccessor UnsignedChar p = q @ [c + 1]"
    by (simp add: PrefixSuccessor_def PrefixSuccessor_loop_unsigned)
  show ?thesis
  proof
    assume "prefix p s"
    then obtain t where s: "s = p @ t"
      by (auto simp: prefix_def)
    have "key_less s (q @ [c + 1])"
      unfolding s p by (simp add: byte_succ(1) [OF c])
    with r key_le_prefix [of p t] s show "key_le p s \<and> (PrefixSuccessor UnsignedChar p = [] \<or> key_less s (PrefixSuccessor UnsignedChar p))"
      by simp
  next
    assume "key_le p s \<and> (PrefixSuccessor UnsignedChar p = [] \<or> key_less s (PrefixSuccessor UnsignedChar p))"
    with r have "key_le (q @ c # replicate k 255) s" "key_less s (q @ [c + 1])"
      by (simp_all add: p)
    from between_common_prefix [OF this] obtain t where t: "s = q @ t" "key_le (c # replicate k 255) t"
      "key_less t [c + 1]"
      by blast
    then obtain d t' where d: "t = d # t'"
      by (cases t) auto
    from t(2) d have "c < d \<or> c = d \<and> key_le (replicate k 255) t'"
      by simp
    moreover from t(3) d have "d < c + 1"
      by simp
    then have "d \<le> c"
      using byte_succ(2) [OF c] by blast
    ultimately have "d = c" "key_le (replicate k 255) t'"
      using leD by blast+
    with t d top_bytes [of k t'] show "prefix p s"
      by (simp add: p)
  qed
qed

lemma signed_successor: "p \<noteq> [] \<Longrightarrow> PrefixSuccessor SignedChar p = butlast p @ [last p + 1]"
  using sint_less [of "last p"] by (auto simp: PrefixSuccessor_def PrefixSuccessor_loop.simps [of _ p])

lemma same_successor:
  assumes "p = [] \<or> last p \<noteq> 255"
  shows "PrefixSuccessor SignedChar p = PrefixSuccessor UnsignedChar p"
proof (cases "p = []")
  case False
  then have "p = butlast p @ last p # replicate 0 255" "last p \<noteq> 255"
    using assms by simp_all
  then show ?thesis
    using PrefixSuccessor_loop_unsigned(2) [of "last p" "butlast p" 0] signed_successor [OF False]
    by (simp add: PrefixSuccessor_def)
qed (simp add: PrefixSuccessor_def PrefixSuccessor_loop.simps)

text \<open>
  C39: for an unsigned \<^verbatim>\<open>char\<close>, and for a signed one where the prefix does not end with 255, the
  keys that start with a prefix are exactly the keys from the prefix up to its successor, an
  empty successor being no bound at all.  For a signed \<^verbatim>\<open>char\<close> and a prefix that ends with 255,
  no key is from the prefix up to its successor.
\<close>

theorem prefix_range:
  "(b = UnsignedChar \<or> p = [] \<or> last p \<noteq> 255 \<longrightarrow>
      (prefix p s \<longleftrightarrow> key_le p s \<and> (PrefixSuccessor b p = [] \<or> key_less s (PrefixSuccessor b p))))
    \<and> (b = SignedChar \<and> p \<noteq> [] \<and> last p = 255 \<longrightarrow>
      PrefixSuccessor b p \<noteq> [] \<and> \<not> (key_le p s \<and> key_less s (PrefixSuccessor b p)))"
proof (intro conjI impI)
  assume "b = UnsignedChar \<or> p = [] \<or> last p \<noteq> 255"
  then have "PrefixSuccessor b p = PrefixSuccessor UnsignedChar p"
    using same_successor [of p] by (cases b) auto
  then show "prefix p s \<longleftrightarrow> key_le p s \<and> (PrefixSuccessor b p = [] \<or> key_less s (PrefixSuccessor b p))"
    using unsigned_range [of p s] by simp
next
  assume a: "b = SignedChar \<and> p \<noteq> [] \<and> last p = 255"
  then have r: "PrefixSuccessor b p = butlast p @ [0]" and p: "p = butlast p @ [255]"
    using signed_successor [of p] append_butlast_last_id [of p] by auto
  show "PrefixSuccessor b p \<noteq> []"
    by (simp add: r)
  show "\<not> (key_le p s \<and> key_less s (PrefixSuccessor b p))"
  proof
    assume "key_le p s \<and> key_less s (PrefixSuccessor b p)"
    then have "key_le (butlast p @ [255]) s" "key_less s (butlast p @ [0])"
      using p r by simp_all
    from between_common_prefix [OF this] obtain t where "key_le [255] t" "key_less t [0 :: byte]"
      by blast
    then show False
      by (cases t) auto
  qed
qed

theorem prefix_range_witness:
  "PrefixSuccessor UnsignedChar [97, 255] = [98] \<and> prefix [97, 255] [97, 255, 3 :: byte]
    \<and> key_less [97, 255, 3] (PrefixSuccessor UnsignedChar [97, 255])"
proof -
  have u: "PrefixSuccessor UnsignedChar [97, 255] = [98]"
    by (simp add: PrefixSuccessor_def PrefixSuccessor_loop.simps)
  then show ?thesis
    using prefix_range [of UnsignedChar "[97, 255]" "[97, 255, 3]"] by simp
qed

text \<open>With a signed \<^verbatim>\<open>char\<close> no character equals 255, and the bound is below the prefix.\<close>

lemma prefix_successor_signed:
  "PrefixSuccessor SignedChar [97, 255] = [97, 0]" "key_less [97, 0] [97, 255]"
  by (simp_all add: PrefixSuccessor_def PrefixSuccessor_loop.simps)

lemma immediate_successor: "key_less s t \<longleftrightarrow> key_le (ImmediateSuccessor s) t"
  unfolding ImmediateSuccessor_def
proof (induction s arbitrary: t)
  case Nil
  then show ?case
    by (cases t) (auto simp: word_gt_0)
next
  case (Cons a s)
  then show ?case
    by (cases t) auto
qed

section \<open>Separators\<close>

lemma common_length_decomp:
  "common_length start limit < min (length start) (length limit) \<Longrightarrow>
    \<exists>q a x b y. start = q @ a # x \<and> limit = q @ b # y \<and> a \<noteq> b \<and> length q = common_length start limit"
proof (induction start limit rule: common_length.induct)
  case (1 a start b limit)
  show ?case
  proof (cases "a = b")
    case True
    with 1 obtain q c x d y where "start = q @ c # x" "limit = q @ d # y" "c \<noteq> d" "length q = common_length start limit"
      by auto
    with True show ?thesis
      by (intro exI [of _ "a # q"] exI) auto
  next
    case False
    then show ?thesis
      by (intro exI [of _ "[]"] exI) auto
  qed
qed auto

text \<open>
  with an unsigned \<^verbatim>\<open>char\<close>, the separator of two keys in order is from the first key on,
  below the second and not longer than the first; for keys not in order it is the first.
\<close>

theorem separator_between:
  "\<exists>sep. FindShortestSeparator UnsignedChar start limit = Inr sep
     \<and> (if key_less start limit then key_le start sep \<and> key_less sep limit \<and> length sep \<le> length start
        else sep = start)"
proof -
  have ref: "key_le start start"
    by (simp add: key_le_def)
  define d where "d = common_length start limit"
  show ?thesis
  proof (cases "d < min (length start) (length limit) \<and> d + 1 \<noteq> length start \<and> start ! d \<noteq> 255")
    case False
    then have "FindShortestSeparator UnsignedChar start limit = Inr start"
      by (auto simp: FindShortestSeparator_def d_def [symmetric] Let_def word_uint_eq_iff)
    with ref show ?thesis
      by simp
  next
    case True
    then obtain q a x b y where k: "start = q @ a # x" "limit = q @ b # y" "a \<noteq> b" "length q = d"
      using common_length_decomp [of start limit] unfolding d_def by blast
    with True have a: "a \<noteq> 255" "x \<noteq> []"
      by auto
    define sep where "sep = q @ [a + 1]"
    have "FindShortestSeparator UnsignedChar start limit = Inr (if key_le limit sep then start else sep)"
      using True k unfolding FindShortestSeparator_def d_def [symmetric] Let_def
      by (auto simp: piece_operators sep_def key_le_def key_less_def word_uint_eq_iff)
    moreover have "key_less start limit \<longleftrightarrow> a < b" "key_less sep limit \<longleftrightarrow> a + 1 < b \<or> a + 1 = b \<and> y \<noteq> []"
      "key_le start sep" "length sep \<le> length start"
      using k(3) byte_succ(1) [OF a(1)] a(2) by (cases y; auto simp: k sep_def Suc_le_eq)+
    moreover have "key_le limit sep" if "\<not> a < b"
      using that k(3) byte_succ(2) [OF a(1), of b] by (auto simp: k sep_def)
    ultimately show ?thesis
      using ref key_less_or_le [of sep limit] by auto
  qed
qed

text \<open>With a signed \<^verbatim>\<open>char\<close> the guard against overflow never fires, and the result can precede both keys.\<close>

lemma separator_signed:
  "FindShortestSeparator SignedChar [255, 1] [5] = Inr [0]" "key_less [0] [255, 1]" "\<not> key_less [255, 1] [5]"
  by (simp_all add: FindShortestSeparator_def piece_operators Let_def)

end
