(* ===== verification/WildcardMatch.thy ===== *)
theory WildcardMatch
  imports Rune
begin

text \<open>
  Wildcard patterns: \<^verbatim>\<open>MatchPattern\<close> of \<^verbatim>\<open>gbase/strings/util.cc\<close> with \<^verbatim>\<open>NextCharUTF8\<close>.  A pair of
  pointers into the pattern or the string is the list of the bytes between them.  The pattern
  language is a relation \<open>glob\<close>, against which the matcher is proved sound for all patterns and
  complete for those with at most 16 wildcards.
\<close>

section \<open>The matcher\<close>

definition IsWildcard :: "byte \<Rightarrow> bool" where
  "IsWildcard c \<longleftrightarrow> c = 0x2A \<or> c = 0x3F"

text \<open>The rune and the number of bytes by which the pointer advances; the decoder cannot fault here.\<close>

definition NextCharUTF8 :: "bytes \<Rightarrow> int \<times> nat" where
  "NextCharUTF8 p =
    (case charntorune p (int (length p)) of Inr (c, offset) \<Rightarrow> (c, nat offset) | Inl e \<Rightarrow> (Runeerror, 0))"

lemma NextCharUTF8_total:
  "charntorune p (int (length p)) = Inr (fst (NextCharUTF8 p), int (snd (NextCharUTF8 p)))
   \<and> snd (NextCharUTF8 p) \<le> length p"
proof -
  obtain r k where d: "charntorune p (int (length p)) = Inr (r, k)"
    using charntorune_total [of "int (length p)" p] by auto
  show ?thesis
    using arith_consumed [OF d [unfolded charntorune_eq_arith]] d by (auto simp: NextCharUTF8_def)
qed

text \<open>The decoder advances unless it reports an error.\<close>

lemma NextCharUTF8_valid:
  assumes "NextCharUTF8 p = (r, k)" "r \<noteq> Runeerror" "r \<le> Runemax"
  shows "0 \<le> r" "p = runetochar r @ drop k p" "runetochar r \<noteq> []"
proof -
  have d: "charntorune p (int (length p)) = Inr (r, int k)"
    using NextCharUTF8_total [of p] assms(1) by simp
  from d have c: "0 \<le> r \<and> take k p = runetochar r"
    using arith_canonical [OF d [unfolded charntorune_eq_arith]] assms(2,3)
    by (simp add: Bad_def Runemax_def)
  then show "0 \<le> r" "p = runetochar r @ drop k p"
    by (metis append_take_drop_id)+
  show "runetochar r \<noteq> []"
    by (simp add: runetochar_def Let_def)
qed

lemma NextCharUTF8_enc: "0 \<le> r \<Longrightarrow> r \<le> Runemax \<Longrightarrow> NextCharUTF8 (runetochar r @ t) = (r, length (runetochar r))"
  using charntorune_enc [of r "int (length (runetochar r @ t))" t]
  by (simp add: NextCharUTF8_def valid_rune_def runelen_def)

lemma NextCharUTF8_ascii [simp]: "c < 0x80 \<Longrightarrow> NextCharUTF8 (c # t) = (uint c, 1)"
  by (simp add: NextCharUTF8_def charntorune_def rune_consts word_less_def)

lemma IsWildcard_ascii [simp]: "IsWildcard c \<Longrightarrow> c < 0x80"
  by (auto simp: IsWildcard_def)

lemma step_positive:
  "p \<noteq> [] \<Longrightarrow> hd p = 0x5C \<Longrightarrow> 0 < snd (NextCharUTF8 p)"
  "p \<noteq> [] \<Longrightarrow> IsWildcard (hd p) \<Longrightarrow> 0 < snd (NextCharUTF8 p)"
  "(r, k) = NextCharUTF8 p \<Longrightarrow> r \<noteq> Runeerror \<Longrightarrow> r \<le> Runemax \<Longrightarrow> 0 < k"
proof -
  show "p \<noteq> [] \<Longrightarrow> hd p = 0x5C \<Longrightarrow> 0 < snd (NextCharUTF8 p)"
    "p \<noteq> [] \<Longrightarrow> IsWildcard (hd p) \<Longrightarrow> 0 < snd (NextCharUTF8 p)"
    by (cases p; simp)+
  show "(r, k) = NextCharUTF8 p \<Longrightarrow> r \<noteq> Runeerror \<Longrightarrow> r \<le> Runemax \<Longrightarrow> 0 < k"
    using NextCharUTF8_valid [of p r k] by (cases k) auto
qed

text \<open>
  \<^verbatim>\<open>EatSameChars\<close>: \<^verbatim>\<open>escape\<close> holds the pattern from a backslash on while the character after it
  is compared.
\<close>

function EatSameChars :: "bytes option \<Rightarrow> bytes \<Rightarrow> bytes \<Rightarrow> bytes \<times> bytes" where
  "EatSameChars escape pat s =
    (if pat = [] \<or> s = [] then (pat, s)
     else if escape = None \<and> IsWildcard (hd pat) then (pat, s)
     else if escape = None \<and> hd pat = 0x5C then
       EatSameChars (Some pat) (drop (snd (NextCharUTF8 pat)) pat) s
     else
       let (pattern_char, k) = NextCharUTF8 pat; (string_char, j) = NextCharUTF8 s in
       if pattern_char = string_char \<and> pattern_char \<noteq> Runeerror \<and> pattern_char \<le> Runemax then
         EatSameChars None (drop k pat) (drop j s)
       else ((case escape of Some e \<Rightarrow> e | None \<Rightarrow> pat), s))"
  by pat_completeness auto
termination
  by (relation "measure (\<lambda>(e, pat, s). length pat)") (auto simp: step_positive)

declare EatSameChars.simps [simp del]

function EatWildcard :: "bytes \<Rightarrow> bytes" where
  "EatWildcard pat =
    (if pat = [] then pat
     else if \<not> IsWildcard (hd pat) then pat
     else EatWildcard (drop (snd (NextCharUTF8 pat)) pat))"
  by pat_completeness auto
termination
  by (relation "measure length") (auto simp: step_positive)

declare EatWildcard.simps [simp del]

definition kMaxDepth :: nat where "kMaxDepth = 16"

text \<open>\<open>match_star\<close> is the loop of the asterisk over the rest of the string.\<close>

function MatchPatternT :: "bytes \<Rightarrow> bytes \<Rightarrow> nat \<Rightarrow> bool"
  and match_star :: "bytes \<Rightarrow> bytes \<Rightarrow> nat \<Rightarrow> bool" where
  "MatchPatternT eval pat depth =
    (if depth > kMaxDepth then False
     else
       let (pat, eval) = EatSameChars None pat eval in
       if eval = [] then EatWildcard pat = []
       else if pat = [] then False
       else
         let next_pat = drop (snd (NextCharUTF8 pat)) pat in
         if hd pat = 0x3F \<and> MatchPatternT eval next_pat (depth + 1) then True
         else if hd pat = 0x3F \<and> MatchPatternT (drop (snd (NextCharUTF8 eval)) eval) next_pat (depth + 1) then True
         else if hd pat = 0x2A then
           if match_star eval (EatWildcard next_pat) (depth + 1) then True else EatWildcard pat = []
         else False)"
| "match_star eval next_pat depth =
    (if eval = [] then False
     else if MatchPatternT eval next_pat depth then True
     else match_star (tl eval) next_pat depth)"
  by pat_completeness auto
termination
  by (relation "measures [\<lambda>x. case x of Inl (e, p, d) \<Rightarrow> kMaxDepth + 1 - d | Inr (e, p, d) \<Rightarrow> kMaxDepth + 1 - d,
        \<lambda>x. case x of Inl (e, p, d) \<Rightarrow> 0 | Inr (e, p, d) \<Rightarrow> Suc (length e)]") auto

declare MatchPatternT.simps [simp del] match_star.simps [simp del]

definition MatchPattern :: "bytes \<Rightarrow> bytes \<Rightarrow> bool" where
  "MatchPattern eval pat = MatchPatternT eval pat 0"

section \<open>The language of a pattern\<close>

text \<open>
  An asterisk stands for any bytes, a question mark for nothing or one step of the decoder, a
  character other than a wildcard or a backslash, and any character after a backslash, for
  itself.  The replacement character \<^verbatim>\<open>Runeerror\<close> is no character here.
\<close>

definition literal :: "int \<Rightarrow> bool" where
  "literal r \<longleftrightarrow> 0 \<le> r \<and> r \<le> Runemax \<and> r \<noteq> Runeerror"

inductive glob :: "bytes \<Rightarrow> bytes \<Rightarrow> bool" where
  glob_Nil: "glob [] []"
| glob_star: "glob p s \<Longrightarrow> glob (0x2A # p) (u @ s)"
| glob_none: "glob p s \<Longrightarrow> glob (0x3F # p) s"
| glob_one: "s \<noteq> [] \<Longrightarrow> glob p (drop (snd (NextCharUTF8 s)) s) \<Longrightarrow> glob (0x3F # p) s"
| glob_literal: "literal r \<Longrightarrow> r \<notin> {0x2A, 0x3F, 0x5C} \<Longrightarrow> glob p s \<Longrightarrow> glob (runetochar r @ p) (runetochar r @ s)"
| glob_escape: "literal r \<Longrightarrow> glob p s \<Longrightarrow> glob (0x5C # runetochar r @ p) (runetochar r @ s)"

text \<open>The wildcards of a pattern that are not escaped.\<close>

fun wildcards :: "bytes \<Rightarrow> nat" where
  "wildcards [] = 0"
| "wildcards (c # p) =
    (if c = 0x5C then wildcards (drop 1 p)
     else if IsWildcard c then Suc (wildcards p) else wildcards p)"

lemma high_byte: "(0x80 :: byte) \<le> x \<longleftrightarrow> 0x80 \<le> uint x"
  by (simp add: word_le_def)

lemma runetochar_shape:
  assumes "literal r"
  shows "(\<exists>c. runetochar r = [c] \<and> r = uint c \<and> c < 0x80) \<or> (\<exists>c t. runetochar r = c # t \<and> (\<forall>x\<in>set (c # t). 0x80 \<le> x))"
proof -
  obtain k where n: "NextCharUTF8 (runetochar r) = (r, k)" "k = length (runetochar r)"
    using NextCharUTF8_enc [of r "[]"] assms by (simp add: literal_def)
  then have d: "charntorune (runetochar r) (int (length (runetochar r))) = Inr (r, int k)"
    using NextCharUTF8_total [of "runetochar r"] by simp
  from d [unfolded charntorune_eq_arith] show ?thesis
  proof (cases rule: arith_cases)
    case one
    with n(2) show ?thesis
      by (cases "runetochar r") (auto simp: word_less_def)
  next
    case two
    with n(2) have "length (runetochar r) = Suc (Suc 0)"
      by simp
    with two show ?thesis
      by (auto simp: length_Suc_conv high_byte)
  next
    case three
    with n(2) have "length (runetochar r) = Suc (Suc (Suc 0))"
      by simp
    with three show ?thesis
      by (auto simp: length_Suc_conv high_byte)
  next
    case four
    with n(2) have "length (runetochar r) = Suc (Suc (Suc (Suc 0)))"
      by simp
    with four show ?thesis
      by (auto simp: length_Suc_conv high_byte)
  qed (use assms n(2) in \<open>auto simp: literal_def Bad_def\<close>)
qed

text \<open>The first byte of a pattern or a string decides how it starts.\<close>

lemma wildcards_high: "(\<forall>x\<in>set t. 0x80 \<le> x) \<Longrightarrow> wildcards (t @ p) = wildcards p"
  by (induction t) (auto simp: IsWildcard_def)

lemma literal_first:
  assumes "literal r"
  obtains c t where "runetochar r = c # t" "IsWildcard c \<longleftrightarrow> r = 0x2A \<or> r = 0x3F" "c = 0x5C \<longleftrightarrow> r = 0x5C"
    "wildcards (t @ p) = wildcards p"
proof -
  consider c where "runetochar r = [c]" "r = uint c" "c < 0x80"
    | c t where "runetochar r = c # t" "\<forall>x\<in>set (c # t). 0x80 \<le> x"
    using runetochar_shape [OF assms] by blast
  then show ?thesis
  proof cases
    case 1
    then show ?thesis
      by (intro that [of c "[]"]) (auto simp: IsWildcard_def word_uint_eq_iff)
  next
    case (2 c t)
    have "r \<noteq> 0x2A" "r \<noteq> 0x3F" "r \<noteq> 0x5C"
      using 2 by (auto simp: runetochar_def rune_consts)
    moreover have "\<not> IsWildcard c" "c \<noteq> 0x5C"
      using 2 by (auto simp: IsWildcard_def)
    ultimately show ?thesis
      using 2 wildcards_high [of t p] by (intro that [of c t]) auto
  qed
qed

lemma same_first:
  assumes "literal r" "literal q" "runetochar r @ p = runetochar q @ s"
  shows "r = q \<and> p = s"
proof -
  have "(r, length (runetochar r)) = (q, length (runetochar q))"
    using NextCharUTF8_enc [of r p] NextCharUTF8_enc [of q s] assms by (simp add: literal_def)
  with assms(3) show ?thesis
    by simp
qed

lemma same_char:
  assumes "NextCharUTF8 p = (r, k)" "NextCharUTF8 s = (r', j)"
  shows "(r = r' \<and> r \<noteq> Runeerror \<and> r \<le> Runemax)
    \<longleftrightarrow> (\<exists>q p' s'. literal q \<and> p = runetochar q @ p' \<and> s = runetochar q @ s')"
    "r = r' \<Longrightarrow> r \<noteq> Runeerror \<Longrightarrow> r \<le> Runemax
      \<Longrightarrow> literal r \<and> p = runetochar r @ drop k p \<and> s = runetochar r @ drop j s"
proof -
  show eq: "literal r \<and> p = runetochar r @ drop k p \<and> s = runetochar r @ drop j s"
    if "r = r'" "r \<noteq> Runeerror" "r \<le> Runemax"
    using that NextCharUTF8_valid [OF assms(1)] NextCharUTF8_valid [OF assms(2)] by (simp add: literal_def)
  show "(r = r' \<and> r \<noteq> Runeerror \<and> r \<le> Runemax)
    \<longleftrightarrow> (\<exists>q p' s'. literal q \<and> p = runetochar q @ p' \<and> s = runetochar q @ s')"
  proof
    assume "r = r' \<and> r \<noteq> Runeerror \<and> r \<le> Runemax"
    then show "\<exists>q p' s'. literal q \<and> p = runetochar q @ p' \<and> s = runetochar q @ s'"
      using eq by blast
  next
    assume "\<exists>q p' s'. literal q \<and> p = runetochar q @ p' \<and> s = runetochar q @ s'"
    then show "r = r' \<and> r \<noteq> Runeerror \<and> r \<le> Runemax"
      using NextCharUTF8_enc assms by (fastforce simp: literal_def)
  qed
qed

lemma glob_Nil_iff [simp]: "glob [] s \<longleftrightarrow> s = []"
proof
  assume "glob [] s"
  then show "s = []"
  proof cases
    case (glob_literal r p s)
    then show ?thesis
      using literal_first [of r p] by auto
  qed simp
qed (simp add: glob_Nil)

definition same_start :: "bytes \<Rightarrow> bytes \<Rightarrow> bool" where
  "same_start p s \<longleftrightarrow> (\<exists>r p' s'. literal r \<and> p = runetochar r @ p' \<and> s = runetochar r @ s' \<and> glob p' s')"

lemma glob_literal_iff:
  assumes "p \<noteq> []" "\<not> IsWildcard (hd p)" "hd p \<noteq> 0x5C"
  shows "glob p s \<longleftrightarrow> same_start p s"
proof
  assume "glob p s"
  then show "same_start p s"
    by cases (use assms in \<open>auto simp: same_start_def IsWildcard_def\<close>)
next
  assume "same_start p s"
  then obtain r p' s' where r: "literal r" "p = runetochar r @ p'" "s = runetochar r @ s'" "glob p' s'"
    by (auto simp: same_start_def)
  obtain c t where "runetochar r = c # t" "IsWildcard c \<longleftrightarrow> r = 0x2A \<or> r = 0x3F" "c = 0x5C \<longleftrightarrow> r = 0x5C"
    using literal_first [OF r(1), of p] by blast
  with assms r(2) have "r \<notin> {0x2A, 0x3F, 0x5C}"
    by auto
  then show "glob p s"
    using glob_literal [OF r(1) _ r(4)] r(2,3) by blast
qed

lemma glob_escape_iff: "glob (0x5C # p) s \<longleftrightarrow> same_start p s"
proof
  assume "glob (0x5C # p) s"
  then show "same_start p s"
  proof cases
    case (glob_literal r p' s')
    then show ?thesis
      using literal_first [of r p'] by (metis append_Cons insertCI list.inject)
  qed (auto simp: same_start_def)
qed (auto simp: same_start_def intro: glob_escape)

lemma glob_Nil_right: "glob p [] \<longleftrightarrow> list_all IsWildcard p"
proof (induction p)
  case (Cons c p)
  have n: "\<not> same_start q []" for q
    using literal_first by (fastforce simp: same_start_def)
  show ?case
  proof (cases "IsWildcard c")
    case True
    have "glob p []" if "glob (c # p) []"
      using that
    proof cases
      case (glob_literal r p' s')
      then show ?thesis
        using literal_first [of r p'] by auto
    next
      case (glob_escape r p s)
      then show ?thesis
        using literal_first [of r p] by auto
    qed auto
    moreover have "glob (c # p) []" if "glob p []"
      using that True glob_star [of p "[]" "[]"] glob_none [of p "[]"] by (auto simp: IsWildcard_def)
    ultimately show ?thesis
      using Cons.IH True by auto
  next
    case False
    then show ?thesis
      using n glob_escape_iff [of p "[]"] glob_literal_iff [of "c # p" "[]"] by (cases "c = 0x5C") auto
  qed
qed simp

lemma EatWildcard_eq: "EatWildcard p = dropWhile IsWildcard p"
  by (induction p) (simp_all add: EatWildcard.simps)

lemma EatWildcard_Nil: "EatWildcard p = [] \<longleftrightarrow> glob p []"
  by (simp add: EatWildcard_eq glob_Nil_right list_all_iff)

section \<open>The steps of the matcher\<close>

lemma wildcards_escape:
  assumes "literal r"
  shows "wildcards (0x5C # runetochar r @ p) = wildcards p"
proof -
  obtain c t where "runetochar r = c # t" "wildcards (t @ p) = wildcards p"
    using literal_first [OF assms, of p] by blast
  then show ?thesis
    by simp
qed

lemma wildcards_literal:
  assumes "literal r" "p = runetochar r @ q" "\<not> IsWildcard (hd p)" "hd p \<noteq> 0x5C"
  shows "wildcards p = wildcards q"
proof -
  obtain c t where "runetochar r = c # t" "wildcards (t @ q) = wildcards q"
    using literal_first [OF assms(1), of q] by blast
  with assms show ?thesis
    by simp
qed

text \<open>
  Eating equal characters keeps what has to be matched, and ends where one of the two is empty,
  the pattern has a wildcard, or nothing can match.
\<close>

definition eaten :: "bytes \<Rightarrow> bytes \<Rightarrow> bytes \<times> bytes \<Rightarrow> bool" where
  "eaten p s r \<longleftrightarrow> (case r of (p', s') \<Rightarrow>
    (glob p s \<longleftrightarrow> glob p' s') \<and> wildcards p' \<le> wildcards p
    \<and> (s' = [] \<or> p' = [] \<or> IsWildcard (hd p') \<or> \<not> glob p' s'))"

lemma eaten_refl: "s = [] \<or> p = [] \<or> IsWildcard (hd p) \<or> \<not> glob p s \<Longrightarrow> eaten p s (p, s)"
  by (simp add: eaten_def)

lemma eaten_step: "(glob p s \<longleftrightarrow> glob p' s') \<Longrightarrow> wildcards p' \<le> wildcards p \<Longrightarrow> eaten p' s' r \<Longrightarrow> eaten p s r"
  by (auto simp: eaten_def)

lemma same_start_rune: "literal r \<Longrightarrow> p = runetochar r @ p' \<Longrightarrow> s = runetochar r @ s' \<Longrightarrow> same_start p s \<longleftrightarrow> glob p' s'"
  unfolding same_start_def using same_first by metis

lemma EatSameChars_eaten:
  "(\<forall>x. e = Some x \<longrightarrow> x = 0x5C # p \<and> s \<noteq> []) \<Longrightarrow>
    eaten (case e of None \<Rightarrow> p | Some x \<Rightarrow> x) s (EatSameChars e p s)"
proof (induction e p s rule: EatSameChars.induct)
  case (1 e p s)
  define P where "P = (case e of None \<Rightarrow> p | Some x \<Rightarrow> x)"
  have P: "P = (if e = None then p else 0x5C # p)"
    using 1(3) by (auto simp: P_def split: option.splits)
  consider (ends) "p = [] \<or> s = []" | (wild) "p \<noteq> []" "s \<noteq> []" "e = None" "IsWildcard (hd p)"
    | (backslash) "p \<noteq> []" "s \<noteq> []" "e = None" "\<not> IsWildcard (hd p)" "hd p = 0x5C"
    | (compare) "p \<noteq> []" "s \<noteq> []" "\<not> (e = None \<and> (IsWildcard (hd p) \<or> hd p = 0x5C))"
    by blast
  then have "eaten P s (EatSameChars e p s)"
  proof cases
    case ends
    have "\<not> same_start [] s"
      using literal_first by (fastforce simp: same_start_def)
    with ends show ?thesis
      using 1(3) glob_escape_iff [of "[]" s] eaten_step [of "[0x5C]" s "[]" s "([], s)"]
      by (cases e) (auto simp: P EatSameChars.simps eaten_def)
  next
    case wild
    then show ?thesis
      by (auto simp: P EatSameChars.simps [of None p s] intro: eaten_refl)
  next
    case backslash
    then obtain q where q: "p = 0x5C # q"
      by (cases p) auto
    have "eaten p s (EatSameChars (Some p) q s)"
      using 1(1) backslash q by auto
    with backslash show ?thesis
      by (simp add: P EatSameChars.simps [of None p s]) (simp add: q)
  next
    case compare
    obtain r k r' j where n: "NextCharUTF8 p = (r, k)" "NextCharUTF8 s = (r', j)"
      by (metis surj_pair)
    have g: "glob P s \<longleftrightarrow> same_start p s"
      using compare glob_literal_iff [of p s] glob_escape_iff [of p s] by (auto simp: P)
    show ?thesis
    proof (cases "r = r' \<and> r \<noteq> Runeerror \<and> r \<le> Runemax")
      case True
      then have l: "literal r" "p = runetochar r @ drop k p" "s = runetochar r @ drop j s"
        using same_char(2) [OF n] by auto
      have "eaten (drop k p) (drop j s) (EatSameChars None (drop k p) (drop j s))"
        using 1(2) [of "(r, k)" r k "(r', j)" r' j] compare n True by auto
      moreover have "wildcards (drop k p) \<le> wildcards P"
        using compare wildcards_literal [OF l(1,2)]
          wildcards_escape [OF l(1), of "drop k p", unfolded l(2) [symmetric]]
        by (cases "e = None") (auto simp: P)
      moreover have "EatSameChars e p s = EatSameChars None (drop k p) (drop j s)"
        using compare n True by (auto simp: EatSameChars.simps [of e p s])
      ultimately show ?thesis
        using eaten_step [of P s "drop k p" "drop j s"] g same_start_rune [OF l] by simp
    next
      case False
      then have "\<not> glob P s"
        using g same_char(1) [OF n] by (auto simp: same_start_def)
      moreover have "EatSameChars e p s = (P, s)"
        using compare n False by (auto simp: EatSameChars.simps [of e p s] P_def)
      ultimately show ?thesis
        using eaten_refl by simp
    qed
  qed
  then show ?case
    by (simp add: P_def)
qed

text \<open>After an asterisk all further wildcards are idle.\<close>

lemma glob_quest_iff:
  "glob (0x3F # p) s \<longleftrightarrow> glob p s \<or> s \<noteq> [] \<and> glob p (drop (snd (NextCharUTF8 s)) s)"
proof
  assume "glob (0x3F # p) s"
  then show "glob p s \<or> s \<noteq> [] \<and> glob p (drop (snd (NextCharUTF8 s)) s)"
  proof cases
    case (glob_literal r p' s')
    then show ?thesis
      using literal_first [of r p'] by (metis IsWildcard_def append_Cons insertCI list.inject)
  qed auto
qed (auto intro: glob_none glob_one)

lemma glob_star_iff: "glob (0x2A # p) s \<longleftrightarrow> (\<exists>u t. s = u @ t \<and> glob p t)"
proof
  assume "glob (0x2A # p) s"
  then show "\<exists>u t. s = u @ t \<and> glob p t"
  proof cases
    case (glob_literal r p' s')
    then show ?thesis
      using literal_first [of r p'] by (metis IsWildcard_def append_Cons insertCI list.inject)
  qed auto
qed (auto intro: glob_star)

lemma star_collapse:
  "(\<exists>u t. s = u @ t \<and> glob p t) \<longleftrightarrow> (\<exists>u t. s = u @ t \<and> glob (EatWildcard p) t)"
proof (induction p arbitrary: s)
  case (Cons c p)
  have "(\<exists>u t. s = u @ t \<and> glob (c # p) t) \<longleftrightarrow> (\<exists>u t. s = u @ t \<and> glob p t)" if "IsWildcard c"
  proof
    assume "\<exists>u t. s = u @ t \<and> glob (c # p) t"
    then show "\<exists>u t. s = u @ t \<and> glob p t"
      using that glob_star_iff glob_quest_iff unfolding IsWildcard_def
      by (metis append.assoc append_take_drop_id)
  next
    assume "\<exists>u t. s = u @ t \<and> glob p t"
    then show "\<exists>u t. s = u @ t \<and> glob (c # p) t"
      using that glob_star_iff glob_quest_iff unfolding IsWildcard_def by (metis append_Nil)
  qed
  with Cons show ?case
    by (auto simp: EatWildcard_eq)
qed (simp add: EatWildcard_eq)

lemma wildcards_EatWildcard: "wildcards (EatWildcard p) \<le> wildcards p"
  unfolding EatWildcard_eq by (induction p rule: wildcards.induct) (auto simp: IsWildcard_def)

section \<open>The matcher decides the language\<close>

definition verdict :: "bool \<Rightarrow> bool \<Rightarrow> nat \<Rightarrow> bool" where
  "verdict answer matches n \<longleftrightarrow> (answer \<longrightarrow> matches) \<and> (n \<le> kMaxDepth \<longrightarrow> matches \<longrightarrow> answer)"

lemma verdict_eq: "verdict b b n"
  by (simp add: verdict_def)

lemma verdict_mono: "verdict a m k \<Longrightarrow> k \<le> n \<Longrightarrow> verdict a m n"
  by (auto simp: verdict_def)

definition star_match :: "bytes \<Rightarrow> bytes \<Rightarrow> bool" where
  "star_match eval p \<longleftrightarrow> (\<exists>u t. eval = u @ t \<and> t \<noteq> [] \<and> glob p t)"

lemma star_match_Nil [simp]: "\<not> star_match [] p"
  by (simp add: star_match_def)

lemma star_match_Cons: "star_match (c # s) p \<longleftrightarrow> glob p (c # s) \<or> star_match s p"
  unfolding star_match_def by (auto simp: Cons_eq_append_conv)

lemma star_match_iff:
  "glob (0x2A # p) s \<longleftrightarrow> star_match s (EatWildcard p) \<or> EatWildcard (0x2A # p) = []"
proof -
  have "EatWildcard (0x2A # p) = [] \<longleftrightarrow> glob (EatWildcard p) []"
    unfolding EatWildcard_Nil [symmetric] by (simp add: EatWildcard_eq IsWildcard_def)
  then show ?thesis
    unfolding glob_star_iff star_collapse [of s p] star_match_def by auto
qed

lemma matcher_verdict:
  "verdict (MatchPatternT eval pat depth) (glob pat eval) (depth + wildcards pat)"
  "verdict (match_star eval next_pat depth') (star_match eval next_pat) (depth' + wildcards next_pat)"
proof (induction eval pat depth and eval next_pat depth' rule: MatchPatternT_match_star.induct)
  case (1 eval pat depth)
  obtain p s where r: "EatSameChars None pat eval = (p, s)"
    by (metis surj_pair)
  have e: "glob pat eval \<longleftrightarrow> glob p s" "wildcards p \<le> wildcards pat"
    "s = [] \<or> p = [] \<or> IsWildcard (hd p) \<or> \<not> glob p s"
    using EatSameChars_eaten [of None pat eval] by (simp_all add: eaten_def r)
  show ?case
  proof (cases "depth > kMaxDepth")
    case True
    then show ?thesis
      by (simp add: MatchPatternT.simps verdict_def)
  next
    case d: False
    consider (ends) "s = []" | (stuck) "s \<noteq> []" "p = [] \<or> \<not> IsWildcard (hd p)"
      | (quest) q where "s \<noteq> []" "p = 0x3F # q" | (star) q where "s \<noteq> []" "p = 0x2A # q"
      by (cases p) (auto simp: IsWildcard_def)
    then have "verdict (MatchPatternT eval pat depth) (glob p s) (depth + wildcards p)"
    proof cases
      case ends
      then have "MatchPatternT eval pat depth = glob p s"
        using d r by (simp add: MatchPatternT.simps [of eval] EatWildcard_Nil)
      then show ?thesis
        by (simp add: verdict_eq)
    next
      case stuck
      then have "\<not> MatchPatternT eval pat depth" "\<not> glob p s"
        using d r e(3) by (auto simp: MatchPatternT.simps [of eval] IsWildcard_def)
      then show ?thesis
        by (simp add: verdict_def)
    next
      case (quest q)
      have n: "drop (snd (NextCharUTF8 p)) p = q"
        by (simp add: quest)
      have "MatchPatternT eval pat depth = (MatchPatternT s q (depth + 1)
          \<or> MatchPatternT (drop (snd (NextCharUTF8 s)) s) q (depth + 1))"
        using d r quest n by (simp add: MatchPatternT.simps [of eval])
      moreover have "verdict (MatchPatternT s q (depth + 1)) (glob q s) (depth + wildcards p)"
        using 1(1) [OF d refl r [symmetric] quest(1) _ refl] quest n
        by (simp add: IsWildcard_def verdict_mono)
      moreover have "verdict (MatchPatternT (drop (snd (NextCharUTF8 s)) s) q (depth + 1))
          (glob q (drop (snd (NextCharUTF8 s)) s)) (depth + wildcards p)"
        if "\<not> MatchPatternT s q (depth + 1)"
        using 1(2) [OF d refl r [symmetric] quest(1) _ refl] quest n that
        by (simp add: IsWildcard_def)
      ultimately show ?thesis
        using quest(1) glob_quest_iff [of q s] by (auto simp: verdict_def quest(2))
    next
      case (star q)
      have n: "drop (snd (NextCharUTF8 p)) p = q"
        by (simp add: star)
      have "MatchPatternT eval pat depth = (match_star s (EatWildcard q) (depth + 1) \<or> EatWildcard p = [])"
        using d r star n by (simp add: MatchPatternT.simps [of eval])
      moreover have "verdict (match_star s (EatWildcard q) (depth + 1)) (star_match s (EatWildcard q))
          (depth + 1 + wildcards (EatWildcard q))"
        using 1(3) [OF d refl r [symmetric] star(1) _ refl] star n by simp
      then have "verdict (match_star s (EatWildcard q) (depth + 1)) (star_match s (EatWildcard q)) (depth + wildcards p)"
        using wildcards_EatWildcard [of q] by (rule_tac verdict_mono) (auto simp: star IsWildcard_def)
      ultimately show ?thesis
        using star_match_iff [of q s] unfolding verdict_def star(2) by blast
    qed
    then show ?thesis
      using e(1,2) verdict_mono by simp
  qed
next
  case (2 eval next_pat depth)
  show ?case
  proof (cases eval)
    case Nil
    then show ?thesis
      by (simp add: match_star.simps verdict_def)
  next
    case (Cons c s)
    then show ?thesis
      using 2 by (auto simp: match_star.simps [of "c # s"] star_match_Cons verdict_def)
  qed
qed

text \<open>
  C34: a pattern with at most 16 wildcards matches exactly the strings of its language.
\<close>

theorem match_pattern_language:
  assumes "wildcards pat \<le> 16"
  shows "MatchPattern eval pat \<longleftrightarrow> glob pat eval"
  using matcher_verdict(1) [of eval pat 0] assms by (auto simp: verdict_def MatchPattern_def kMaxDepth_def)

theorem match_pattern_language_witness:
  "MatchPattern [97, 98, 42] [97, 42, 92, 42] \<and> glob [97, 42, 92, 42] [97, 98, 42]"
proof -
  have "MatchPattern [97, 98, 42] [97, 42, 92, 42]"
    by (simp add: MatchPattern_def MatchPatternT.simps match_star.simps EatSameChars.simps EatWildcard.simps
        IsWildcard_def kMaxDepth_def Let_def rune_consts)
  then show ?thesis
    using match_pattern_language [of "[97, 42, 92, 42]" "[97, 98, 42]"] by (simp add: IsWildcard_def)
qed

text \<open>A pattern with more wildcards matches nothing outside its language.\<close>

lemma match_pattern_sound: "MatchPattern eval pat \<Longrightarrow> glob pat eval"
  using matcher_verdict(1) [of eval pat 0] by (simp add: verdict_def MatchPattern_def)

text \<open>The replacement character U+FFFD, correctly encoded, does not match itself.\<close>

lemma replacement_character:
  "charntorune [0xEF, 0xBF, 0xBD] 3 = Inr (Runeerror, 3)"
  "\<not> MatchPattern [0xEF, 0xBF, 0xBD] [0xEF, 0xBF, 0xBD]"
proof -
  show "charntorune [0xEF, 0xBF, 0xBD] 3 = Inr (Runeerror, 3)"
    by (simp add: charntorune_def rd_def rune_consts Let_def push_bit_eq_mult Runeerror_def)
  then have n: "NextCharUTF8 [0xEF, 0xBF, 0xBD] = (Runeerror, 3)"
    by (simp add: NextCharUTF8_def)
  show "\<not> MatchPattern [0xEF, 0xBF, 0xBD] [0xEF, 0xBF, 0xBD]"
    by (simp add: MatchPattern_def MatchPatternT.simps EatSameChars.simps n IsWildcard_def kMaxDepth_def)
qed

end
