(* ===== verification/StringEdits.thy ===== *)
theory StringEdits
  imports StringPieces "HOL-Library.Multiset"
begin

text \<open>
  Editing and scanning strings, \<^verbatim>\<open>gbase/strings/util.cc\<close> and \<^verbatim>\<open>util.h\<close>: replacement of
  substrings, removal by index, insertion of separators, counting and n-th occurrences, copying
  with a bounded destination.  A \<^verbatim>\<open>std::string\<close> is the list of its bytes; what the code appends
  is the value of the definition.
\<close>

section \<open>Replacing substrings\<close>

lemma sp_find_bounds:
  assumes "sp_find s x pos \<noteq> -1"
  shows "pos \<le> nat (sp_find s x pos)" "nat (sp_find s x pos) + length x \<le> length s"
    "occurs x s (nat (sp_find s x pos))" "0 \<le> sp_find s x pos"
proof -
  have "first_from pos (occurs x s) (sp_find s x pos)"
    by (rule sp_find_first)
  with assms obtain m where m: "sp_find s x pos = int m" "pos \<le> m" "occurs x s m"
    by (auto simp: first_from_def)
  then show "pos \<le> nat (sp_find s x pos)" "nat (sp_find s x pos) + length x \<le> length s"
    "occurs x s (nat (sp_find s x pos))" "0 \<le> sp_find s x pos"
    by (auto simp: occurs_nth)
qed

lemma sp_find_progress:
  "x \<noteq> [] \<Longrightarrow> sp_find s x pos \<noteq> -1 \<Longrightarrow>
    length s + 1 - (nat (sp_find s x pos) + length x) < length s + 1 - pos"
  using sp_find_bounds(1,2) [of s x pos] by (cases x) auto

text \<open>
  The loop of \<^verbatim>\<open>StringReplace\<close>; it runs with a non-empty \<^verbatim>\<open>oldsub\<close> only (the early return comes
  first here as well), and \<open>start_pos\<close> then grows with each round.
\<close>

function StringReplace_loop :: "bytes \<Rightarrow> bytes \<Rightarrow> bytes \<Rightarrow> bool \<Rightarrow> nat \<Rightarrow> bytes \<Rightarrow> bytes" where
  "StringReplace_loop s oldsub newsub replace_all start_pos res =
    (if oldsub = [] then res @ s
     else
       let pos = sp_find s oldsub start_pos in
       if pos = -1 then res @ drop start_pos s
       else
         let res = res @ take (nat pos - start_pos) (drop start_pos s) @ newsub;
             start_pos = nat pos + length oldsub in
         if replace_all then StringReplace_loop s oldsub newsub replace_all start_pos res
         else res @ drop start_pos s)"
  by pat_completeness auto

termination
  by (relation "measure (\<lambda>(s, oldsub, newsub, all, start_pos, res). length s + 1 - start_pos)")
    (use sp_find_progress in auto)

declare StringReplace_loop.simps [simp del]

definition StringReplace_append :: "bytes \<Rightarrow> bytes \<Rightarrow> bytes \<Rightarrow> bool \<Rightarrow> bytes \<Rightarrow> bytes" where
  "StringReplace_append s oldsub newsub replace_all res =
    (if oldsub = [] then res @ s else StringReplace_loop s oldsub newsub replace_all 0 res)"

definition StringReplace :: "bytes \<Rightarrow> bytes \<Rightarrow> bytes \<Rightarrow> bool \<Rightarrow> bytes" where
  "StringReplace s oldsub newsub replace_all = StringReplace_append s oldsub newsub replace_all []"

text \<open>\<^verbatim>\<open>std::string::find\<close>: the first occurrence from a position on.\<close>

definition std_find :: "bytes \<Rightarrow> bytes \<Rightarrow> nat \<Rightarrow> nat option" where
  "std_find s x pos = List.find (occurs x s) [pos..<length s + 1]"

lemma std_find_Some:
  "std_find s x pos = Some m \<Longrightarrow> pos \<le> m \<and> occurs x s m \<and> (\<forall>i. pos \<le> i \<longrightarrow> i < m \<longrightarrow> \<not> occurs x s i)"
  unfolding std_find_def using find_upt_Some by blast

lemma std_find_None: "std_find s x pos = None \<Longrightarrow> pos \<le> i \<Longrightarrow> \<not> occurs x s i"
  unfolding std_find_def using find_upt_None [of "occurs x s" pos "length s + 1" i]
  by (cases "i < length s + 1") (auto simp: occurs_nth)

lemma std_find_progress:
  "x \<noteq> [] \<Longrightarrow> std_find s x pos = Some m \<Longrightarrow> length s + 1 - (m + length x) < length s + 1 - pos"
  using std_find_Some [of s x pos m] by (cases x) (auto simp: occurs_nth)

text \<open>The loop of \<^verbatim>\<open>GlobalReplaceSubstring\<close>: its state is \<^verbatim>\<open>pos\<close>, \<^verbatim>\<open>num_replacements\<close> and
  \<^verbatim>\<open>tmp\<close>.  The count is an \<^verbatim>\<open>int\<close> of the code, unbounded here: a string has fewer than \<open>2\<^sup>3\<^sup>1\<close> matches.\<close>

function GlobalReplace_loop :: "bytes \<Rightarrow> bytes \<Rightarrow> bytes \<Rightarrow> nat \<Rightarrow> int \<Rightarrow> bytes \<Rightarrow> nat \<times> int \<times> bytes" where
  "GlobalReplace_loop substring replacement s pos num_replacements tmp =
    (case if substring = [] then None else std_find s substring pos of
       None \<Rightarrow> (pos, num_replacements, tmp)
     | Some match_pos \<Rightarrow>
         GlobalReplace_loop substring replacement s (match_pos + length substring) (num_replacements + 1)
           (tmp @ take (match_pos - pos) (drop pos s) @ replacement))"
  by pat_completeness auto

termination
  by (relation "measure (\<lambda>(x, r, s, pos, n, tmp). length s + 1 - pos)")
    (auto split: if_splits dest: std_find_progress)

declare GlobalReplace_loop.simps [simp del]

definition GlobalReplaceSubstring :: "bytes \<Rightarrow> bytes \<Rightarrow> bytes \<Rightarrow> int \<times> bytes" where
  "GlobalReplaceSubstring substring replacement s =
    (if s = [] \<or> substring = [] then (0, s)
     else
       let (pos, num_replacements, tmp) = GlobalReplace_loop substring replacement s 0 0 [] in
       if num_replacements > 0 then (num_replacements, tmp @ drop pos s) else (num_replacements, s))"

text \<open>The replacement as a recursion over the string, and the number of places it replaces.\<close>

function replaced :: "bytes \<Rightarrow> bytes \<Rightarrow> bytes \<Rightarrow> nat \<times> bytes" where
  "replaced x r s =
    (if x = [] \<or> s = [] then (0, s)
     else if occurs x s 0 then (let p = replaced x r (drop (length x) s) in (Suc (fst p), r @ snd p))
     else (let p = replaced x r (tl s) in (fst p, hd s # snd p)))"
  by pat_completeness auto
termination
  by (relation "measure (\<lambda>(x, r, s). length s)") (auto simp: length_greater_0_conv [symmetric] simp del: length_greater_0_conv)

declare replaced.simps [simp del]

lemma replaced_trivial: "replaced [] r s = (0, s)" "replaced x r [] = (0, [])"
  by (subst replaced.simps, simp)+

lemma replaced_skip:
  assumes "\<forall>i<m. \<not> occurs x s i" "m \<le> length s" "x \<noteq> []"
  shows "replaced x r s = (fst (replaced x r (drop m s)), take m s @ snd (replaced x r (drop m s)))"
  using assms
proof (induction m arbitrary: s)
  case 0
  then show ?case
    by simp
next
  case (Suc m)
  then obtain c t where s: "s = c # t"
    by (cases s) auto
  have "\<not> occurs x t i" if "i < m" for i
    using Suc.prems(1) that s by (auto simp: occurs_def dest: spec [of _ "Suc i"])
  then have "replaced x r t = (fst (replaced x r (drop m t)), take m t @ snd (replaced x r (drop m t)))"
    using Suc s by simp
  then show ?case
    using Suc.prems s by (simp add: replaced.simps [of x r "c # t"])
qed

lemma replaced_none: "\<forall>i. \<not> occurs x s i \<Longrightarrow> x \<noteq> [] \<Longrightarrow> replaced x r s = (0, s)"
  using replaced_skip [of "length s" x s r] by (simp add: replaced.simps [of x r "[]"])

lemma replaced_first:
  assumes "occurs x s m" "\<forall>i<m. \<not> occurs x s i" "x \<noteq> []"
  shows "replaced x r s = (Suc (fst (replaced x r (drop (m + length x) s))),
    take m s @ r @ snd (replaced x r (drop (m + length x) s)))"
proof -
  have m: "m + length x \<le> length s" "occurs x (drop m s) 0" "drop m s \<noteq> []"
    using assms(1,3) by (auto simp: occurs_nth, cases x, auto)
  have d: "drop (length x) (drop m s) = drop (m + length x) s"
    by (simp add: add.commute)
  have "replaced x r (drop m s) = (Suc (fst (replaced x r (drop (m + length x) s))), r @ snd (replaced x r (drop (m + length x) s)))"
    using m(2,3) assms(3) by (subst replaced.simps) (simp only: d Let_def if_False if_True simp_thms)
  then show ?thesis
    using replaced_skip [OF assms(2) _ assms(3), of r] m(1) by simp
qed

lemma StringReplace_loop_eq:
  "start \<le> length s \<Longrightarrow> x \<noteq> [] \<Longrightarrow>
    StringReplace_loop s x r True start res = res @ snd (replaced x r (drop start s))"
proof (induction s x r True start res rule: StringReplace_loop.induct)
  case (1 s x r start res)
  have f: "first_from start (occurs x s) (sp_find s x start)"
    by (rule sp_find_first)
  show ?case
  proof (cases "sp_find s x start = -1")
    case True
    then have "\<forall>i. \<not> occurs x (drop start s) i"
      using f 1(2) by (auto simp: first_from_def occurs_drop)
    then show ?thesis
      using True 1(3) by (simp add: StringReplace_loop.simps replaced_none)
  next
    case False
    then obtain m where m: "sp_find s x start = int (start + m)"
      using sp_find_bounds [OF False] by (metis le_iff_add int_nat_eq)
    then have "occurs x s (start + m)" "\<forall>i. start \<le> i \<and> i < start + m \<longrightarrow> \<not> occurs x s i"
      using f unfolding first_from_def m of_nat_eq_iff by auto
    then have o: "occurs x (drop start s) m" "\<forall>i<m. \<not> occurs x (drop start s) i"
      using 1(2) by (auto simp: occurs_drop)
    have l: "start + m + length x \<le> length s"
      using sp_find_bounds(2) [OF False] m by simp
    have "StringReplace_loop s x r True start res
        = StringReplace_loop s x r True (start + m + length x) (res @ take m (drop start s) @ r)"
      using 1(3) m by (subst StringReplace_loop.simps) (simp add: Let_def nat_int_add)
    also have "\<dots> = (res @ take m (drop start s) @ r) @ snd (replaced x r (drop (start + m + length x) s))"
      using 1(1) [OF 1(3) refl False refl refl TrueI] l 1(3) by (simp add: m nat_int_add)
    finally show ?thesis
      using replaced_first [OF o 1(3), of r] by (simp add: ac_simps)
  qed
qed

lemma GlobalReplace_loop_eq:
  "start \<le> length s \<Longrightarrow> x \<noteq> [] \<Longrightarrow> GlobalReplace_loop x r s start n tmp = (pos, n', tmp') \<Longrightarrow>
    n' = n + int (fst (replaced x r (drop start s))) \<and> tmp' @ drop pos s = tmp @ snd (replaced x r (drop start s))"
proof (induction x r s start n tmp rule: GlobalReplace_loop.induct)
  case (1 x r s start n tmp)
  show ?case
  proof (cases "std_find s x start")
    case None
    then have "\<forall>i. \<not> occurs x (drop start s) i"
      using std_find_None [OF None] 1(2) by (auto simp: occurs_drop)
    then show ?thesis
      using None 1(3,4) by (simp add: GlobalReplace_loop.simps [of x r s start] replaced_none)
  next
    case (Some k)
    then obtain m where k: "k = start + m"
      using std_find_Some le_iff_add by blast
    have o: "occurs x (drop start s) m" "\<forall>i<m. \<not> occurs x (drop start s) i"
      using std_find_Some [OF Some] 1(2) by (auto simp: occurs_drop k)
    have l: "start + m + length x \<le> length s"
      using std_find_Some [OF Some] by (simp add: occurs_nth k)
    have "GlobalReplace_loop x r s (start + m + length x) (n + 1) (tmp @ take m (drop start s) @ r) = (pos, n', tmp')"
      using 1(4) 1(3) Some by (subst (asm) GlobalReplace_loop.simps) (simp add: k)
    then show ?thesis
      using 1(1) [of k] 1(3) Some l replaced_first [OF o 1(3), of r] by (simp add: k ac_simps)
  qed
qed

lemma replaced_zero: "fst (replaced x r s) = 0 \<Longrightarrow> snd (replaced x r s) = s"
  by (induction x r s rule: replaced.induct) (subst (asm) (3) replaced.simps, subst replaced.simps, auto simp: Let_def split: if_splits)

definition replaced_once :: "bytes \<Rightarrow> bytes \<Rightarrow> bytes \<Rightarrow> bytes \<Rightarrow> bool" where
  "replaced_once x r s t \<longleftrightarrow>
    (if x = [] \<or> (\<forall>i. \<not> occurs x s i) then t = s
     else \<exists>u v. s = u @ x @ v \<and> t = u @ r @ v \<and> (\<forall>i<length u. \<not> occurs x s i))"

lemma StringReplace_first: "replaced_once x r s (StringReplace s x r False)"
proof (cases "x = [] \<or> sp_find s x 0 = -1")
  case True
  moreover have "\<forall>i. \<not> occurs x s i" if "sp_find s x 0 = -1"
    using sp_find_first [of 0 x s] that by (simp add: first_from_def)
  ultimately show ?thesis
    by (auto simp: replaced_once_def StringReplace_def StringReplace_append_def StringReplace_loop.simps)
next
  case False
  then obtain m where m: "sp_find s x 0 = int m" "occurs x s m" "\<forall>i<m. \<not> occurs x s i"
    using sp_find_first [of 0 x s] by (auto simp: first_from_def)
  then obtain v where v: "s = take m s @ x @ v" "m \<le> length s"
    unfolding occurs_decomp by (metis append_eq_conv_conj length_append le_add1)
  have t: "StringReplace s x r False = take m s @ r @ drop (m + length x) s"
    using False m(1) by (simp add: StringReplace_def StringReplace_append_def StringReplace_loop.simps)
  have d: "drop (m + length x) s = v"
    using v by (metis add.commute append_eq_conv_conj drop_drop length_take min.absorb2)
  have "s = take m s @ x @ v \<and> take m s @ r @ v = take m s @ r @ v \<and> (\<forall>i<length (take m s). \<not> occurs x s i)"
    using m(3) v by simp
  then show ?thesis
    unfolding replaced_once_def t d using False m(2) by metis
qed

text \<open>
  C35: both routines that replace all occurrences compute the same leftmost, non-overlapping
  replacement, the count is the number of places replaced, and the single replacement is at
  the first occurrence.
\<close>

theorem replacement_agrees:
  "StringReplace s x r True = snd (replaced x r s)
   \<and> GlobalReplaceSubstring x r s = (int (fst (replaced x r s)), snd (replaced x r s))
   \<and> replaced_once x r s (StringReplace s x r False)"
proof -
  have "StringReplace s x r True = snd (replaced x r s)"
    using StringReplace_loop_eq [of 0 s x r "[]"]
    by (simp add: StringReplace_def StringReplace_append_def replaced_trivial)
  moreover have "GlobalReplaceSubstring x r s = (int (fst (replaced x r s)), snd (replaced x r s))"
  proof (cases "s = [] \<or> x = []")
    case True
    then show ?thesis
      by (auto simp: GlobalReplaceSubstring_def replaced_trivial)
  next
    case False
    obtain pos n tmp where g: "GlobalReplace_loop x r s 0 0 [] = (pos, n, tmp)"
      by (metis prod_cases3)
    show ?thesis
      using False GlobalReplace_loop_eq [OF _ _ g] replaced_zero [of x r s]
      by (auto simp: GlobalReplaceSubstring_def g)
  qed
  ultimately show ?thesis
    using StringReplace_first by blast
qed

section \<open>Counting and n-th occurrences\<close>

text \<open>\<^verbatim>\<open>CountSubstring\<close> moves on by one character, so that overlapping occurrences count.\<close>

function CountSubstring_loop :: "bytes \<Rightarrow> bytes \<Rightarrow> nat \<Rightarrow> int \<Rightarrow> int" where
  "CountSubstring_loop s x curr_pos found =
    (let pos = sp_find s x curr_pos in
     if pos = -1 then found else CountSubstring_loop s x (nat pos + 1) (found + 1))"
  by pat_completeness auto
termination
  by (relation "measure (\<lambda>(s, x, curr_pos, found). length s + 1 - curr_pos)") (use sp_find_bounds(1,2) in fastforce)+

declare CountSubstring_loop.simps [simp del]

definition CountSubstring :: "bytes \<Rightarrow> bytes \<Rightarrow> fault + int" where
  "CountSubstring s x = bindE (assertE CheckFailed (length x > 0)) (\<lambda>_. Inr (CountSubstring_loop s x 0 0))"

text \<open>\<^verbatim>\<open>FindNth\<close>: \<^verbatim>\<open>pos + 1\<close> of the initial \<^verbatim>\<open>npos\<close> is 0; \<open>-1\<close> is \<^verbatim>\<open>npos\<close>.\<close>

fun FindNth_loop :: "bytes \<Rightarrow> byte \<Rightarrow> nat \<Rightarrow> int \<Rightarrow> int" where
  "FindNth_loop s c 0 pos = pos"
| "FindNth_loop s c (Suc n) pos =
    (let pos = sp_find_char s c (nat (pos + 1)) in if pos = -1 then pos else FindNth_loop s c n pos)"

definition FindNth :: "bytes \<Rightarrow> byte \<Rightarrow> int \<Rightarrow> int" where
  "FindNth s c n = FindNth_loop s c (nat n) (-1)"

fun ReverseFindNth_loop :: "bytes \<Rightarrow> byte \<Rightarrow> nat \<Rightarrow> int \<Rightarrow> int" where
  "ReverseFindNth_loop s c 0 pos = pos"
| "ReverseFindNth_loop s c (Suc n) pos =
    (if pos = 0 then -1
     else let pos = sp_rfind_char s c (nat (pos - 1)) in
       if pos = -1 then pos else ReverseFindNth_loop s c n pos)"

definition ReverseFindNth :: "bytes \<Rightarrow> byte \<Rightarrow> int \<Rightarrow> int" where
  "ReverseFindNth s c n = (if n \<le> 0 then -1 else ReverseFindNth_loop s c (nat n) (int (length s)))"

text \<open>The specification: the list of the places, in order.\<close>

definition positions :: "bytes \<Rightarrow> byte \<Rightarrow> nat list" where
  "positions s c = filter (\<lambda>i. s ! i = c) [0..<length s]"

definition nth_of :: "nat list \<Rightarrow> int \<Rightarrow> int" where
  "nth_of ps n = (if 1 \<le> n \<and> n \<le> int (length ps) then int (ps ! nat (n - 1)) else -1)"

lemma filter_upt_first:
  assumes "i \<le> m" "m < l" "P m" "\<And>j. i \<le> j \<Longrightarrow> j < m \<Longrightarrow> \<not> P j"
  shows "filter P [i..<l] = m # filter P [Suc m..<l]"
proof -
  have "[i..<l] = [i..<m] @ m # [Suc m..<l]"
    using assms(1,2) by (metis le_add_diff_inverse less_imp_le_nat upt_add_eq_append upt_conv_Cons)
  moreover have "filter P [i..<m] = []"
    using assms(4) by (simp add: filter_empty_conv)
  ultimately show ?thesis
    using assms(3) by simp
qed

lemma filter_upt_last:
  assumes "m < l" "P m" "\<And>j. m < j \<Longrightarrow> j < l \<Longrightarrow> \<not> P j"
  shows "filter P [0..<l] = filter P [0..<m] @ [m]"
proof -
  have "[0..<l] = [0..<m] @ m # [Suc m..<l]"
    using assms(1) by (metis le_add_diff_inverse less_imp_le_nat upt_add_eq_append upt_conv_Cons zero_le add_0)
  moreover have "filter P [Suc m..<l] = []"
    using assms(3) by (simp add: filter_empty_conv)
  ultimately show ?thesis
    using assms(2) by simp
qed

lemma nth_of_Cons: "nth_of (m # ps) (int (Suc n)) = (if n = 0 then int m else nth_of ps (int n))"
  by (cases n) (auto simp: nth_of_def nat_add_distrib)

lemma nth_of_Nil [simp]: "nth_of [] n = -1"
  by (simp add: nth_of_def)

lemma FindNth_loop_eq:
  "-1 \<le> pos \<Longrightarrow> FindNth_loop s c n pos =
    (if n = 0 then pos else nth_of (filter (\<lambda>i. s ! i = c) [nat (pos + 1)..<length s]) (int n))"
proof (induction n arbitrary: pos)
  case (Suc n)
  have f: "first_from (nat (pos + 1)) (char_at s (\<lambda>x. x = c)) (sp_find_char s c (nat (pos + 1)))"
    by (rule sp_find_char_first)
  show ?case
  proof (cases "sp_find_char s c (nat (pos + 1)) = -1")
    case True
    then have "filter (\<lambda>i. s ! i = c) [nat (pos + 1)..<length s] = []"
      using f by (auto simp: first_from_def char_at_def filter_empty_conv)
    then show ?thesis
      by (simp add: True)
  next
    case False
    then obtain m where m: "sp_find_char s c (nat (pos + 1)) = int m" "nat (pos + 1) \<le> m" "m < length s" "s ! m = c"
      "\<forall>j. nat (pos + 1) \<le> j \<and> j < m \<longrightarrow> \<not> (j < length s \<and> s ! j = c)"
      using f by (auto simp: first_from_def char_at_def)
    then have "filter (\<lambda>i. s ! i = c) [nat (pos + 1)..<length s] = m # filter (\<lambda>i. s ! i = c) [Suc m..<length s]"
      by (intro filter_upt_first) auto
    moreover have "nat (int m + 1) = Suc m"
      by simp
    ultimately show ?thesis
      using Suc.IH [of "int m"] by (simp add: m(1) nth_of_Cons del: of_nat_Suc)
  qed
qed simp

lemma ReverseFindNth_loop_eq:
  "pos \<le> length s \<Longrightarrow> ReverseFindNth_loop s c n (int pos) =
    (if n = 0 then int pos else nth_of (rev (filter (\<lambda>i. s ! i = c) [0..<pos])) (int n))"
proof (induction n arbitrary: pos)
  case (Suc n)
  show ?case
  proof (cases pos)
    case (Suc p)
    then have "s \<noteq> []" "p < length s"
      using Suc.prems by auto
    then have f: "last_upto p (char_at s (\<lambda>x. x = c)) (sp_rfind_char s c p)"
      using downwards_upto [of s p "\<lambda>x. x = c"] by (simp add: sp_rfind_char_def)
    have n: "nat (int (Suc p) - 1) = p"
      by simp
    show ?thesis
    proof (cases "sp_rfind_char s c p = -1")
      case True
      then have "filter (\<lambda>i. s ! i = c) [0..<Suc p] = []"
        using f \<open>p < length s\<close> by (auto simp: last_upto_def char_at_def filter_empty_conv)
      then show ?thesis
        using True n by (simp add: Suc)
    next
      case False
      then obtain m where m: "sp_rfind_char s c p = int m" "m \<le> p" "s ! m = c"
        "\<forall>j. m < j \<and> j \<le> p \<longrightarrow> \<not> (j < length s \<and> s ! j = c)"
        using f by (auto simp: last_upto_def char_at_def)
      then have "filter (\<lambda>i. s ! i = c) [0..<Suc p] = filter (\<lambda>i. s ! i = c) [0..<m] @ [m]"
        using \<open>p < length s\<close> by (intro filter_upt_last) auto
      then show ?thesis
        using Suc.IH [of m] m(1,2) \<open>p < length s\<close> n
        by (simp add: Suc nth_of_Cons del: of_nat_Suc upt_Suc)
    qed
  qed simp
qed simp

lemma CountSubstring_loop_eq:
  "x \<noteq> [] \<Longrightarrow> CountSubstring_loop s x p n = n + int (card {i. p \<le> i \<and> occurs x s i})"
proof (induction s x p n rule: CountSubstring_loop.induct)
  case (1 s x p n)
  have f: "first_from p (occurs x s) (sp_find s x p)"
    by (rule sp_find_first)
  show ?case
  proof (cases "sp_find s x p = -1")
    case True
    then have "\<not> (p \<le> i \<and> occurs x s i)" for i
      using f by (auto simp: first_from_def)
    then have none: "{i. p \<le> i \<and> occurs x s i} = {}"
      by blast
    have "card {i. p \<le> i \<and> occurs x s i} = 0"
      unfolding none by simp
    then show ?thesis
      by (simp add: CountSubstring_loop.simps [of s x p] True)
  next
    case False
    then obtain m where m: "sp_find s x p = int m" "p \<le> m" "occurs x s m" "\<forall>i. p \<le> i \<and> i < m \<longrightarrow> \<not> occurs x s i"
      using f by (auto simp: first_from_def)
    then have "{i. p \<le> i \<and> occurs x s i} = insert m {i. m + 1 \<le> i \<and> occurs x s i}"
      by (auto simp: Suc_le_eq dest: le_neq_implies_less)
    moreover have "finite {i. m + 1 \<le> i \<and> occurs x s i}"
      by (rule finite_subset [of _ "{..length s}"]) (auto simp: occurs_nth)
    ultimately have "card {i. p \<le> i \<and> occurs x s i} = Suc (card {i. m + 1 \<le> i \<and> occurs x s i})"
      by simp
    moreover have "CountSubstring_loop s x (m + 1) (n + 1) = n + 1 + int (card {i. m + 1 \<le> i \<and> occurs x s i})"
      using 1 m(1) by simp
    ultimately show ?thesis
      by (simp add: CountSubstring_loop.simps [of s x p] m(1))
  qed
qed

text \<open>
  the n-th occurrence of a character from the front and from the back is the n-th
  of the list of its places, and there is none for other numbers; a substring is counted once for
  each place where it stands, overlapping or not.
\<close>

theorem nth_and_count:
  "FindNth s c n = nth_of (positions s c) n
   \<and> ReverseFindNth s c n = nth_of (rev (positions s c)) n
   \<and> CountSubstring s x = (if x = [] then Inl CheckFailed else Inr (int (card {i. occurs x s i})))"
proof -
  have "FindNth s c n = nth_of (positions s c) n"
    using FindNth_loop_eq [of "-1" s c "nat n"]
    by (cases "n \<le> 0") (auto simp: FindNth_def positions_def nth_of_def)
  moreover have "ReverseFindNth s c n = nth_of (rev (positions s c)) n"
    using ReverseFindNth_loop_eq [of "length s" s c "nat n"]
    by (auto simp: ReverseFindNth_def positions_def nth_of_def)
  ultimately show ?thesis
    using CountSubstring_loop_eq [of x s 0 0] by (simp add: CountSubstring_def)
qed

section \<open>Removing by index\<close>

text \<open>
  \<^verbatim>\<open>RemoveStrings\<close>: the loop over the indices from the last, with the checks of a debug build.
  The list holds the indices that remain, in order; it has at most \<open>2\<^sup>3\<^sup>1\<close> of them, so that the
  position of the last one is an \<^verbatim>\<open>int\<close>.
\<close>

function RemoveStrings_loop :: "'a list \<Rightarrow> int list \<Rightarrow> fault + 'a list" where
  "RemoveStrings_loop v indices =
    (if indices = [] then Inr v
     else
       let i = last indices; smaller = butlast indices in
       bindE (assertE CheckFailed (smaller \<noteq> [] \<longrightarrow> last smaller < i)) (\<lambda>_.
       bindE (assertE CheckFailed (i \<ge> 0)) (\<lambda>_.
       bindE (assertE CheckFailed (nat i < length v)) (\<lambda>_.
         RemoveStrings_loop (butlast (v[nat i := last v, length v - 1 := v ! nat i])) smaller))))"
  by pat_completeness auto
termination
  by (relation "measure (\<lambda>(v, indices). length indices)") simp_all

declare RemoveStrings_loop.simps [simp del]

definition RemoveStrings :: "'a list \<Rightarrow> int list \<Rightarrow> fault + 'a list" where
  "RemoveStrings v indices =
    bindE (assertE CheckFailed (length indices \<le> length v)) (\<lambda>_. RemoveStrings_loop v indices)"

definition removable :: "'a list \<Rightarrow> int list \<Rightarrow> bool" where
  "removable v indices \<longleftrightarrow> sorted_wrt (<) indices \<and> (\<forall>i\<in>set indices. 0 \<le> i \<and> i < int (length v))"

lemma swap_out:
  assumes "i < length v"
  shows "mset v = add_mset (v ! i) (mset (butlast (v[i := last v, length v - 1 := v ! i])))"
    "j < i \<Longrightarrow> butlast (v[i := last v, length v - 1 := v ! i]) ! j = v ! j"
proof -
  define w where "w = v[i := last v, length v - 1 := v ! i]"
  have v: "v \<noteq> []"
    using assms by auto
  have "w = v[i := v ! (length v - 1), length v - 1 := v ! i]"
    using v by (simp add: w_def last_conv_nth)
  then have "mset w = mset v"
    using assms v by (simp add: mset_swap)
  moreover have "w \<noteq> []" "last w = v ! i"
    using v by (auto simp: w_def last_conv_nth)
  then have "w = butlast w @ [v ! i]"
    by (metis append_butlast_last_id)
  then have "mset w = mset (butlast w @ [v ! i])"
    by (rule arg_cong)
  ultimately show "mset v = add_mset (v ! i) (mset (butlast (v[i := last v, length v - 1 := v ! i])))"
    by (simp add: w_def)
  show "butlast (v[i := last v, length v - 1 := v ! i]) ! j = v ! j" if "j < i"
    using assms that by (simp add: nth_butlast)
qed

lemma RemoveStrings_loop_eq:
  "case RemoveStrings_loop v indices of
     Inl e \<Rightarrow> e = CheckFailed \<and> \<not> removable v indices
   | Inr v' \<Rightarrow> removable v indices \<and> mset v = mset v' + mset (map (\<lambda>i. v ! nat i) indices)"
proof (induction indices arbitrary: v rule: rev_induct)
  case Nil
  then show ?case
    by (simp add: RemoveStrings_loop.simps removable_def)
next
  case (snoc i smaller)
  show ?case
  proof (cases "(smaller \<noteq> [] \<longrightarrow> last smaller < i) \<and> i \<ge> 0 \<and> nat i < length v")
    case False
    have "\<not> removable v (smaller @ [i])"
      using False by (auto simp: removable_def sorted_wrt_append)
    moreover have "RemoveStrings_loop v (smaller @ [i]) = Inl CheckFailed"
      using False by (auto simp: RemoveStrings_loop.simps [of v] assertE_def Let_def)
    ultimately show ?thesis
      by simp
  next
    case True
    define w where "w = butlast (v[nat i := last v, length v - 1 := v ! nat i])"
    have r: "RemoveStrings_loop v (smaller @ [i]) = RemoveStrings_loop w smaller"
      using True by (auto simp: RemoveStrings_loop.simps [of v] Let_def w_def)
    have len: "length w = length v - 1"
      by (simp add: w_def)
    have below: "\<forall>j\<in>set smaller. j < i" if "sorted_wrt (<) smaller"
    proof
      fix j
      assume "j \<in> set smaller"
      moreover from this have "j \<le> last smaller"
        using that by (cases smaller rule: rev_cases) (auto simp: sorted_wrt_append)
      ultimately show "j < i"
        using True by (cases smaller) auto
    qed
    then have rem: "removable v (smaller @ [i]) \<longleftrightarrow> removable w smaller"
      using True by (fastforce simp: removable_def sorted_wrt_append len)
    have m: "map (\<lambda>j. w ! nat j) smaller = map (\<lambda>j. v ! nat j) smaller" if "removable w smaller"
    proof -
      have "w ! nat j = v ! nat j" if j: "j \<in> set smaller" for j
      proof -
        have "0 \<le> j" "j < i"
          using below \<open>removable w smaller\<close> j by (auto simp: removable_def)
        then show ?thesis
          unfolding w_def using True by (intro swap_out(2)) auto
      qed
      then show ?thesis
        by simp
    qed
    have a: "mset v = add_mset (v ! nat i) (mset w)"
      using swap_out(1) [of "nat i" v] True by (simp add: w_def)
    show ?thesis
      using snoc.IH [of w] unfolding r rem
    proof (cases "RemoveStrings_loop w smaller")
      case (Inr v')
      with snoc.IH [of w] have "removable w smaller" "mset w = mset v' + mset (map (\<lambda>i. w ! nat i) smaller)"
        by simp_all
      then show "case RemoveStrings_loop w smaller of Inl e \<Rightarrow> e = CheckFailed \<and> \<not> removable w smaller
        | Inr v' \<Rightarrow> removable w smaller \<and> mset v = mset v' + mset (map (\<lambda>i. v ! nat i) (smaller @ [i]))"
        unfolding a m [OF \<open>removable w smaller\<close>] by (simp add: Inr)
    qed simp
  qed
qed

text \<open>
  C36: exactly for strictly increasing indices within the vector the removal passes its
  checks, and it then keeps exactly the strings that were not named, in some order.
\<close>

theorem removed_by_index:
  "case RemoveStrings v indices of
     Inl e \<Rightarrow> e = CheckFailed \<and> \<not> removable v indices
   | Inr v' \<Rightarrow> removable v indices \<and> mset v = mset v' + mset (map (\<lambda>i. v ! nat i) indices)"
proof (cases "length indices \<le> length v")
  case True
  then show ?thesis
    using RemoveStrings_loop_eq [of v indices] by (simp add: RemoveStrings_def)
next
  case False
  have "length indices \<le> length v" if "removable v indices"
  proof -
    have "distinct indices"
      using that by (auto simp: removable_def strict_sorted_iff)
    then have "length indices = card (nat ` set indices)"
      using that by (subst card_image) (auto simp: removable_def inj_on_def distinct_card eq_nat_nat_iff)
    also have "\<dots> \<le> card {..<length v}"
      using that by (intro card_mono) (auto simp: removable_def)
    finally show ?thesis
      by simp
  qed
  with False show ?thesis
    by (auto simp: RemoveStrings_def)
qed

section \<open>Inserting separators\<close>

text \<open>
  \<^verbatim>\<open>append\<close> and \<^verbatim>\<open>substr\<close> of a string throw when the position is beyond it; \<^verbatim>\<open>num_inserts\<close>
  and \<^verbatim>\<open>i * interval\<close> are of type \<^verbatim>\<open>int\<close>.
\<close>

definition std_substr :: "bytes \<Rightarrow> int \<Rightarrow> nat \<Rightarrow> fault + bytes" where
  "std_substr s pos n =
    (if 0 \<le> pos \<and> pos \<le> int (length s) then Inr (take n (drop (nat pos) s)) else Inl OutOfBounds)"

fun UniformInsert_loop :: "bytes \<Rightarrow> int \<Rightarrow> bytes \<Rightarrow> int \<Rightarrow> nat \<Rightarrow> bytes \<Rightarrow> fault + bytes" where
  "UniformInsert_loop s interval separator i 0 tmp = Inr tmp"
| "UniformInsert_loop s interval separator i (Suc left) tmp =
     bindE (std_substr s (wrap32 (i * interval)) (nat interval)) (\<lambda>part.
       UniformInsert_loop s interval separator (i + 1) left (tmp @ part @ separator))"

definition UniformInsertString :: "bytes \<Rightarrow> int \<Rightarrow> bytes \<Rightarrow> fault + bytes" where
  "UniformInsertString s interval separator =
    (if interval < 1 \<or> s = [] \<or> separator = [] then Inr s
     else
       let num_inserts = wrap32 (int (length s - 1) div interval) in
       if num_inserts = 0 then Inr s
       else
         bindE (UniformInsert_loop s interval separator 0 (nat num_inserts) []) (\<lambda>tmp.
         bindE (std_substr s (wrap32 (num_inserts * interval)) (length s)) (\<lambda>tail.
           Inr (tmp @ tail))))"

fun InsertString_loop :: "bytes \<Rightarrow> u32 \<Rightarrow> u32 list \<Rightarrow> bytes \<Rightarrow> bytes \<Rightarrow> fault + u32 \<times> bytes" where
  "InsertString_loop s last_pos [] separator tmp = Inr (last_pos, tmp)"
| "InsertString_loop s last_pos (pos # indices) separator tmp =
     bindE (assertE CheckFailed (pos \<ge> last_pos)) (\<lambda>_.
     bindE (assertE CheckFailed (pos \<le> of_nat (length s))) (\<lambda>_.
     bindE (std_substr s (uint last_pos) (unat (pos - last_pos))) (\<lambda>part.
       InsertString_loop s pos indices separator (tmp @ part @ separator))))"

definition InsertString :: "bytes \<Rightarrow> u32 list \<Rightarrow> bytes \<Rightarrow> fault + bytes" where
  "InsertString s indices separator =
    (if indices = [] then Inr s
     else if separator = [] then Inr s
     else
       bindE (InsertString_loop s 0 indices separator []) (\<lambda>(last_pos, tmp).
       bindE (std_substr s (uint last_pos) (length s)) (\<lambda>tail. Inr (tmp @ tail))))"

text \<open>The specification: a separator after every \<open>n\<close> characters, but not at the end.\<close>

function spread :: "nat \<Rightarrow> bytes \<Rightarrow> bytes \<Rightarrow> bytes" where
  "spread n sep s = (if n = 0 \<or> length s \<le> n then s else take n s @ sep @ spread n sep (drop n s))"
  by pat_completeness auto
termination
  by (relation "measure (\<lambda>(n, sep, s). length s)") auto

declare spread.simps [simp del]

lemma spread_short: "length s \<le> n \<Longrightarrow> spread n sep s = s"
  by (subst spread.simps) simp

lemma spread_step: "1 \<le> n \<Longrightarrow> n < length s \<Longrightarrow> spread n sep s = take n s @ sep @ spread n sep (drop n s)"
  by (subst spread.simps) simp

lemma spread_nothing: "spread n [] s = s"
proof (induction "length s" arbitrary: s rule: less_induct)
  case less
  then show ?case
    by (cases "n = 0 \<or> length s \<le> n") (auto simp: spread_step spread_short spread.simps [of 0])
qed

lemma std_substr_in: "p \<le> length s \<Longrightarrow> std_substr s (int p) n = Inr (take n (drop p s))"
  by (simp add: std_substr_def)

lemma UniformInsert_loop_eq:
  assumes "1 \<le> n" "length s < 2 ^ 31"
  shows "(i + k) * n < length s \<Longrightarrow> length s \<le> (i + k + 1) * n \<Longrightarrow>
    \<exists>r. UniformInsert_loop s (int n) sep (int i) k tmp = Inr (tmp @ r)
      \<and> r @ drop ((i + k) * n) s = spread n sep (drop (i * n) s)"
proof (induction k arbitrary: i tmp)
  case 0
  then have "length (drop (i * n) s) \<le> n"
    by simp
  then show ?case
    by (simp add: spread_short)
next
  case (Suc k)
  have b: "i * n + n \<le> (i + Suc k) * n" "i * n + n < length s"
    using Suc.prems(1) by (auto simp: algebra_simps)
  have "wrap32 (int i * int n) = int (i * n)"
    using b(2) assms(2) by (simp add: wrap32_pos flip: of_nat_mult)
  then have "std_substr s (wrap32 (int i * int n)) (nat (int n)) = Inr (take n (drop (i * n) s))"
    using b(2) std_substr_in [of "i * n" s n] by simp
  moreover obtain r where "UniformInsert_loop s (int n) sep (int (i + 1)) k (tmp @ take n (drop (i * n) s) @ sep)
        = Inr ((tmp @ take n (drop (i * n) s) @ sep) @ r)"
      "r @ drop ((i + 1 + k) * n) s = spread n sep (drop ((i + 1) * n) s)"
    using Suc.IH [of "i + 1" "tmp @ take n (drop (i * n) s) @ sep"] Suc.prems by auto
  moreover have "spread n sep (drop (i * n) s) = take n (drop (i * n) s) @ sep @ spread n sep (drop ((i + 1) * n) s)"
    using assms(1) b(2) spread_step [of n "drop (i * n) s" sep] by (simp add: algebra_simps)
  ultimately show ?case
    by (auto simp: algebra_simps)
qed

lemma unat_u32: "x < 2 ^ 31 \<Longrightarrow> unat (of_nat x :: u32) = x"
  by (simp add: unat_of_nat)

lemma uint_u32: "x < 2 ^ 31 \<Longrightarrow> uint (of_nat x :: u32) = int x"
  by (simp add: uint_nat unat_u32)

lemma InsertString_loop_eq:
  assumes "1 \<le> n" "length s < 2 ^ 31"
  shows "(i + k) * n < length s \<Longrightarrow> length s \<le> (i + k + 1) * n \<Longrightarrow>
    \<exists>r. InsertString_loop s (of_nat (i * n)) (map (\<lambda>j. of_nat (j * n)) [i + 1..<i + k + 1]) sep tmp
        = Inr (of_nat ((i + k) * n), tmp @ r)
      \<and> r @ drop ((i + k) * n) s = spread n sep (drop (i * n) s)"
proof (induction k arbitrary: i tmp)
  case 0
  then have "length (drop (i * n) s) \<le> n"
    by simp
  then show ?case
    by (simp add: spread_short)
next
  case (Suc k)
  have b: "i * n + n < length s"
    using Suc.prems(1) by (auto simp: algebra_simps)
  have a: "i * n \<le> (i + 1) * n" "(i + 1) * n < length s" "(i + 1) * n - i * n = n"
    using b by simp_all
  then have u: "unat (of_nat (i * n) :: u32) = i * n" "unat (of_nat ((i + 1) * n) :: u32) = (i + 1) * n"
    "unat (of_nat (length s) :: u32) = length s"
    using less_trans [OF le_less_trans [OF a(1,2)] assms(2)] less_trans [OF a(2) assms(2)] assms(2)
    by (simp_all only: unat_u32)
  have o: "(of_nat (i * n) :: u32) \<le> of_nat ((i + 1) * n)" "(of_nat ((i + 1) * n) :: u32) \<le> of_nat (length s)"
    using a unfolding word_le_nat_alt u by simp_all
  have d: "unat (of_nat ((i + 1) * n) - of_nat (i * n) :: u32) = n"
    using unat_sub [OF o(1)] unfolding u a(3) .
  have p: "std_substr s (uint (of_nat (i * n) :: u32)) n = Inr (take n (drop (i * n) s))"
    using std_substr_in [of "i * n" s n] b u(1) by (simp add: uint_nat)
  have l: "[i + 1..<i + Suc k + 1] = (i + 1) # [i + 1 + 1..<i + 1 + k + 1]"
    by (simp add: upt_conv_Cons del: upt_Suc)
  obtain r where "InsertString_loop s (of_nat ((i + 1) * n)) (map (\<lambda>j. of_nat (j * n)) [i + 1 + 1..<i + 1 + k + 1]) sep
        (tmp @ take n (drop (i * n) s) @ sep)
        = Inr (of_nat ((i + 1 + k) * n), (tmp @ take n (drop (i * n) s) @ sep) @ r)"
      "r @ drop ((i + 1 + k) * n) s = spread n sep (drop ((i + 1) * n) s)"
    using Suc.IH [of "i + 1" "tmp @ take n (drop (i * n) s) @ sep"] Suc.prems by auto
  moreover have "spread n sep (drop (i * n) s) = take n (drop (i * n) s) @ sep @ spread n sep (drop ((i + 1) * n) s)"
    using assms(1) b spread_step [of n "drop (i * n) s" sep] by (simp add: algebra_simps)
  ultimately show ?case
    unfolding l list.map InsertString_loop.simps d p using o by (auto simp: algebra_simps)
qed

text \<open>
  inserting at regular intervals puts a separator after every \<^verbatim>\<open>interval\<close>
  characters and none at the end, and is the insertion at the multiples of the interval.
\<close>

theorem uniform_insertion:
  assumes "1 \<le> n" "length s < 2 ^ 31" "n < 2 ^ 31"
  shows "UniformInsertString s (int n) sep = Inr (spread n sep s)
    \<and> InsertString s (map (\<lambda>j. of_nat (j * n)) [1..<(length s - 1) div n + 1]) sep = Inr (spread n sep s)"
proof (cases "s = [] \<or> sep = [] \<or> length s \<le> n")
  case True
  have "spread n sep s = s"
    using True by (auto simp: spread_nothing spread_short)
  moreover have "length s \<le> n \<Longrightarrow> (length s - 1) div n = 0"
    using assms(1) by simp
  ultimately show ?thesis
    using True by (auto simp: UniformInsertString_def InsertString_def Let_def wrap32_def zdiv_int [symmetric])
next
  case False
  define k where "k = (length s - 1) div n"
  have "k * n + (length s - 1) mod n = length s - 1" "(length s - 1) mod n < n"
    using assms(1) by (simp_all add: k_def)
  then have "k * n < length s" "length s \<le> k * n + n"
    using False by auto
  then have k: "k * n < length s" "length s \<le> (k + 1) * n"
    by simp_all
  have "0 < k"
    using False k(2) by (cases k) auto
  have "k \<le> k * n"
    using assms(1) by simp
  with k(1) assms(2) have "k < 2 ^ 31" "k * n < 2 ^ 31"
    by linarith+
  then have w: "wrap32 (int (length s - 1) div int n) = int k" "wrap32 (int k * int n) = int (k * n)"
    by (simp_all add: k_def wrap32_pos flip: of_nat_mult zdiv_int)
  obtain r where r: "UniformInsert_loop s (int n) sep 0 k [] = Inr r" "r @ drop (k * n) s = spread n sep s"
    using UniformInsert_loop_eq [OF assms(1,2), of 0 k sep "[]"] k by auto
  obtain q where q: "InsertString_loop s 0 (map (\<lambda>j. of_nat (j * n)) [1..<k + 1]) sep [] = Inr (of_nat (k * n), q)"
      "q @ drop (k * n) s = spread n sep s"
    using InsertString_loop_eq [OF assms(1,2), of 0 k sep "[]"] k by auto
  have "uint (of_nat (k * n) :: u32) = int (k * n)"
    using \<open>k * n < 2 ^ 31\<close> by (rule uint_u32)
  then have "InsertString s (map (\<lambda>j. of_nat (j * n)) [1..<k + 1]) sep = Inr (spread n sep s)"
    using False \<open>0 < k\<close> k(1) q std_substr_in [of "k * n" s "length s"] by (simp add: InsertString_def del: upt_Suc)
  moreover have "UniformInsertString s (int n) sep = Inr (spread n sep s)"
    using False assms(1) \<open>0 < k\<close> r k(1) w std_substr_in [of "k * n" s "length s"]
    by (simp add: UniformInsertString_def Let_def)
  ultimately show ?thesis
    by (simp only: k_def)
qed

theorem uniform_insertion_witness:
  "UniformInsertString [49, 50, 51, 52, 53] (int 2) [44] = Inr (spread 2 [44] [49, 50, 51, 52, 53])
    \<and> InsertString [49, 50, 51, 52, 53] (map (\<lambda>j. of_nat (j * 2)) [1..<(length [49, 50, 51, 52, 53 :: byte] - 1) div 2 + 1]) [44]
      = Inr (spread 2 [44] [49, 50, 51, 52, 53])"
  by (rule uniform_insertion) simp_all

end
