(* ===== verification/CStrings.thy ===== *)
theory CStrings
  imports StringEdits
begin

text \<open>
  Routines on C strings, \<^verbatim>\<open>gbase/strings/util.{h,cc}\<close>: bounded copies, searches that stop at the
  terminating NUL, identifiers, words and ends of lines.  A pointer is the list of the bytes
  that may be read from it on; reading on past them is a fault.  A pointer into that memory is
  an offset.
\<close>

definition at_byte :: "bytes \<Rightarrow> nat \<Rightarrow> fault + byte" where
  "at_byte p i = (if i < length p then Inr (p ! i) else Inl OutOfBounds)"

definition put_byte :: "bytes \<Rightarrow> nat \<Rightarrow> byte \<Rightarrow> fault + bytes" where
  "put_byte p i c = (if i < length p then Inr (p[i := c]) else Inl OutOfBounds)"

section \<open>Bounded copies\<close>

text \<open>
  The copying loop of \<^verbatim>\<open>lcpyT\<close> and \<^verbatim>\<open>safestrncpy\<close> for the \<open>n\<close> indices from \<open>i\<close> on: the new
  destination and, when the NUL was reached, its index.
\<close>

fun copy_loop :: "bytes \<Rightarrow> bytes \<Rightarrow> nat \<Rightarrow> nat \<Rightarrow> fault + nat option \<times> bytes" where
  "copy_loop dst src i 0 = Inr (None, dst)"
| "copy_loop dst src i (Suc n) =
     bindE (at_byte src i) (\<lambda>c.
     bindE (put_byte dst i c) (\<lambda>dst.
       if c = 0 then Inr (Some i, dst) else copy_loop dst src (i + 1) n))"

text \<open>The count of the rest; the memory of the source bounds it.\<close>

function length_loop :: "bytes \<Rightarrow> nat \<Rightarrow> fault + nat" where
  "length_loop src n =
    (if n < length src then if src ! n \<noteq> 0 then length_loop src (n + 1) else Inr n else Inl OutOfBounds)"
  by pat_completeness auto
termination
  by (relation "measure (\<lambda>(src, n). length src - n)") auto

declare length_loop.simps [simp del]

definition lcpyT :: "bytes \<Rightarrow> bytes \<Rightarrow> nat \<Rightarrow> fault + nat \<times> bytes" where
  "lcpyT dst src dst_size =
    bindE (copy_loop dst src 0 dst_size) (\<lambda>(hit, dst).
      case hit of
        Some i \<Rightarrow> Inr (i, dst)
      | None \<Rightarrow>
          bindE (if dst_size \<noteq> 0 then put_byte dst (dst_size - 1) 0 else Inr dst) (\<lambda>dst.
          bindE (length_loop src dst_size) (\<lambda>n. Inr (n, dst))))"

definition strlcpy :: "bytes \<Rightarrow> bytes \<Rightarrow> nat \<Rightarrow> fault + nat \<times> bytes" where
  "strlcpy dst src dst_size = lcpyT dst src dst_size"

definition safestrncpy :: "bytes \<Rightarrow> bytes \<Rightarrow> nat \<Rightarrow> fault + bytes" where
  "safestrncpy dest src n =
    (if n < 1 then Inr dest
     else
       bindE (copy_loop dest src 0 n) (\<lambda>(hit, dest).
         case hit of Some i \<Rightarrow> Inr dest | None \<Rightarrow> put_byte dest (n - 1) 0))"

text \<open>A C string in memory: characters other than NUL, the NUL, and what follows.\<close>

definition c_string :: "bytes \<Rightarrow> bytes \<Rightarrow> bool" where
  "c_string p s \<longleftrightarrow> 0 \<notin> set s \<and> (\<exists>t. p = s @ 0 # t)"

lemma c_string_at:
  assumes "c_string p s"
  shows "i < length s \<Longrightarrow> at_byte p i = Inr (s ! i) \<and> s ! i \<noteq> 0" "at_byte p (length s) = Inr 0"
  using assms by (auto simp: c_string_def at_byte_def nth_append in_set_conv_nth)

lemma copy_loop_eq:
  assumes "c_string p s"
  shows "i \<le> length s \<Longrightarrow> i + n \<le> length dst \<Longrightarrow> copy_loop dst p i n =
    (if n \<le> length s - i then Inr (None, take i dst @ take n (drop i s) @ drop (i + n) dst)
     else Inr (Some (length s), take i dst @ drop i s @ 0 # drop (length s + 1) dst))"
proof (induction n arbitrary: i dst)
  case (Suc n)
  show ?case
  proof (cases "i = length s")
    case True
    then show ?thesis
      using c_string_at(2) [OF assms] Suc.prems by (simp add: put_byte_def upd_conv_take_nth_drop)
  next
    case False
    then have i: "i < length s"
      using Suc.prems(1) by simp
    have t: "take (i + 1) (dst[i := s ! i]) = take i dst @ [s ! i]"
      using Suc.prems(2) by (simp add: take_Suc_conv_app_nth)
    have d: "drop i s = s ! i # drop (i + 1) s"
      using i by (simp add: Cons_nth_drop_Suc)
    have "copy_loop dst p i (Suc n) = copy_loop (dst[i := s ! i]) p (i + 1) n"
      using c_string_at(1) [OF assms i] Suc.prems(2) by (simp add: put_byte_def)
    also have "\<dots> = (if n \<le> length s - (i + 1)
        then Inr (None, (take i dst @ [s ! i]) @ take n (drop (i + 1) s) @ drop (i + 1 + n) (dst[i := s ! i]))
        else Inr (Some (length s), (take i dst @ [s ! i]) @ drop (i + 1) s @ 0 # drop (length s + 1) (dst[i := s ! i])))"
      using Suc.IH [of "i + 1" "dst[i := s ! i]"] Suc.prems i unfolding t by simp
    finally show ?thesis
      using i d by (auto simp: drop_update_cancel)
  qed
qed simp

lemma length_loop_eq: "c_string p s \<Longrightarrow> n \<le> length s \<Longrightarrow> length_loop p n = Inr (length s)"
proof (induction "length s - n" arbitrary: n)
  case 0
  then show ?case
    using c_string_at(2) [of p s] by (subst length_loop.simps) (auto simp: at_byte_def split: if_splits)
next
  case (Suc k)
  then have "n < length s" "length_loop p (n + 1) = Inr (length s)"
    by simp_all
  then show ?case
    using c_string_at(1) [of p s n] Suc.prems by (subst length_loop.simps) (auto simp: at_byte_def split: if_splits)
qed

text \<open>
  C37: copying a C string into a buffer of \<^verbatim>\<open>dst_size\<close> bytes writes the longest part of it
  that leaves room for the NUL, the NUL, and nothing else; \<^verbatim>\<open>strlcpy\<close> returns the length of the
  source and leaves an empty buffer alone, and \<^verbatim>\<open>safestrncpy\<close> writes the same bytes.
\<close>

theorem bounded_copies:
  assumes "c_string p s" "dst_size \<le> length dst"
  shows "\<exists>dst'. strlcpy dst p dst_size = Inr (length s, dst') \<and> safestrncpy dst p dst_size = Inr dst'
    \<and> dst' = (if dst_size = 0 then dst
        else take (dst_size - 1) s @ 0 # drop (min (dst_size - 1) (length s) + 1) dst)"
proof (cases "dst_size \<le> length s")
  case True
  then have c: "copy_loop dst p 0 dst_size = Inr (None, take dst_size s @ drop dst_size dst)"
    using copy_loop_eq [OF assms(1), of 0 dst_size dst] assms(2) by simp
  have u: "(take dst_size s @ drop dst_size dst)[dst_size - 1 := 0] = take (dst_size - 1) s @ 0 # drop dst_size dst"
    if "dst_size \<noteq> 0"
    using that True by (cases dst_size) (simp_all add: list_update_append take_Suc_conv_app_nth)
  show ?thesis
    using c u True assms length_loop_eq [OF assms(1) True]
    by (auto simp: strlcpy_def lcpyT_def safestrncpy_def put_byte_def min_def)
next
  case False
  then have m: "min (dst_size - 1) (length s) = length s" "take (dst_size - 1) s = s"
    by simp_all
  from False have "copy_loop dst p 0 dst_size = Inr (Some (length s), s @ 0 # drop (length s + 1) dst)"
    using copy_loop_eq [OF assms(1), of 0 dst_size dst] assms(2) by simp
  then show ?thesis
    using False unfolding m by (simp add: strlcpy_def lcpyT_def safestrncpy_def)
qed

theorem bounded_copies_witness:
  "\<exists>dst'. strlcpy [1, 1, 1] [104, 105, 33, 0] 3 = Inr (length [104 :: byte, 105, 33], dst')
    \<and> safestrncpy [1, 1, 1] [104, 105, 33, 0] 3 = Inr dst'
    \<and> dst' = (if (3 :: nat) = 0 then [1, 1, 1]
        else take (3 - 1) [104, 105, 33] @ 0 # drop (min (3 - 1) (length [104 :: byte, 105, 33]) + 1) [1, 1, 1])"
  by (rule bounded_copies) (simp_all add: c_string_def)

section \<open>Items of a delimited list\<close>

text \<open>\<^verbatim>\<open>strstr_delimited\<close>: the three inner loops move the offset of \<^verbatim>\<open>haystack\<close>.\<close>

function skip_delims :: "bytes \<Rightarrow> byte \<Rightarrow> nat \<Rightarrow> fault + nat" where
  "skip_delims h delim p =
    (if p < length h then if h ! p = delim then skip_delims h delim (p + 1) else Inr p else Inl OutOfBounds)"
  by pat_completeness auto
termination
  by (relation "measure (\<lambda>(h, delim, p). length h - p)") auto

fun match_needle :: "bytes \<Rightarrow> bytes \<Rightarrow> nat \<Rightarrow> fault + bool \<times> nat" where
  "match_needle h [] p = Inr (True, p)"
| "match_needle h (c # nee) p =
     bindE (at_byte h p) (\<lambda>x. if x \<noteq> c then Inr (False, p) else match_needle h nee (p + 1))"

function consume_item :: "bytes \<Rightarrow> byte \<Rightarrow> nat \<Rightarrow> fault + nat option" where
  "consume_item h delim p =
    (if p < length h then
       if h ! p \<noteq> delim then if h ! p = 0 then Inr None else consume_item h delim (p + 1)
       else Inr (Some p)
     else Inl OutOfBounds)"
  by pat_completeness auto
termination
  by (relation "measure (\<lambda>(h, delim, p). length h - p)") auto

declare skip_delims.simps [simp del] consume_item.simps [simp del]

lemma skip_delims_bounds: "skip_delims h delim p = Inr q \<Longrightarrow> p \<le> q \<and> q < length h \<and> h ! q \<noteq> delim \<and> (h ! p = delim \<longrightarrow> p < q)"
proof (induction h delim p rule: skip_delims.induct)
  case (1 h delim p)
  then show ?case
    using skip_delims.simps [of h delim p] by (auto split: if_splits)
qed

lemma match_needle_bounds: "match_needle h nee p = Inr (ok, q) \<Longrightarrow> p \<le> q"
  by (induction nee arbitrary: p) (fastforce simp: bindE_Inr_iff split: if_splits)+

lemma consume_item_bounds: "consume_item h delim p = Inr (Some q) \<Longrightarrow> p \<le> q \<and> q < length h \<and> h ! q = delim"
proof (induction h delim p rule: consume_item.induct)
  case (1 h delim p)
  then show ?case
    using consume_item.simps [of h delim p] by (auto split: if_splits)
qed

lemma delimited_progress:
  assumes "skip_delims h delim p = Inr m" "match_needle h nee m = Inr (ok, q)" "consume_item h delim q = Inr (Some p')"
  shows "length h - p' < length h - p"
proof -
  have "p \<le> m" "m < length h" "h ! m \<noteq> delim" "m \<le> q" "q \<le> p'" "p' < length h" "h ! p' = delim"
    using skip_delims_bounds [OF assms(1)] match_needle_bounds [OF assms(2)] consume_item_bounds [OF assms(3)]
    by auto
  then have "m \<noteq> p'"
    by auto
  then show ?thesis
    using \<open>p \<le> m\<close> \<open>m \<le> q\<close> \<open>q \<le> p'\<close> \<open>p' < length h\<close> by simp
qed

function delimited_loop :: "bytes \<Rightarrow> bytes \<Rightarrow> byte \<Rightarrow> nat \<Rightarrow> fault + nat option" where
  "delimited_loop h nee delim p =
    bindE (skip_delims h delim p) (\<lambda>this_match.
    bindE (match_needle h nee this_match) (\<lambda>(matched, q).
    bindE (if matched then at_byte h q else Inr 1) (\<lambda>c.
      if matched \<and> (c = 0 \<or> c = delim) then Inr (Some this_match)
      else
        bindE (consume_item h delim q) (\<lambda>r.
          case r of None \<Rightarrow> Inr None | Some p \<Rightarrow> delimited_loop h nee delim p))))"
  by pat_completeness auto

termination
  by (relation "measure (\<lambda>(h, nee, delim, p). length h - p)") (auto dest: delimited_progress)

declare delimited_loop.simps [simp del]

definition strstr_delimited :: "bytes \<Rightarrow> bytes \<Rightarrow> byte \<Rightarrow> fault + nat option" where
  "strstr_delimited h needle delim = (if needle = [] then Inr (Some 0) else delimited_loop h needle delim 0)"

lemma c_string_mem:
  assumes "c_string h s"
  shows "i < length s \<Longrightarrow> i < length h \<and> h ! i = s ! i \<and> s ! i \<noteq> 0" "length s < length h" "h ! length s = 0"
  using assms by (auto simp: c_string_def nth_append in_set_conv_nth)

text \<open>A place where the needle stands as a whole item of the list.\<close>

definition item_at :: "bytes \<Rightarrow> bytes \<Rightarrow> byte \<Rightarrow> nat \<Rightarrow> bool" where
  "item_at s nee delim i \<longleftrightarrow> occurs nee s i \<and> (i = 0 \<or> s ! (i - 1) = delim)
    \<and> (i + length nee = length s \<or> s ! (i + length nee) = delim)"

lemma range_step: "(\<forall>j :: nat. p \<le> j \<and> j < q \<longrightarrow> R j) \<longleftrightarrow> (p < q \<longrightarrow> R p) \<and> (\<forall>j. p + 1 \<le> j \<and> j < q \<longrightarrow> R j)"
proof -
  have "p \<le> j \<longleftrightarrow> j = p \<or> p + 1 \<le> j" for j :: nat
    by auto
  then show ?thesis
    by auto
qed

lemma skip_delims_eq:
  assumes "c_string h s" "delim \<noteq> 0"
  shows "p \<le> length s \<Longrightarrow> \<exists>q. skip_delims h delim p = Inr q \<and> p \<le> q \<and> q \<le> length s
    \<and> (\<forall>j. p \<le> j \<and> j < q \<longrightarrow> s ! j = delim) \<and> (q < length s \<longrightarrow> s ! q \<noteq> delim)"
proof (induction "length s - p" arbitrary: p)
  case 0
  then have "p = length s"
    by simp
  then show ?case
    using c_string_mem [OF assms(1)] assms(2) by (intro exI [of _ p]) (auto simp: skip_delims.simps [of h delim "length s"])
next
  case (Suc k)
  then have p: "p < length s" and rest: "k = length s - (p + 1)" "p + 1 \<le> length s"
    by simp_all
  show ?case
  proof (cases "s ! p = delim")
    case True
    obtain q where "skip_delims h delim (p + 1) = Inr q \<and> p + 1 \<le> q \<and> q \<le> length s
        \<and> (\<forall>j. p + 1 \<le> j \<and> j < q \<longrightarrow> s ! j = delim) \<and> (q < length s \<longrightarrow> s ! q \<noteq> delim)"
      using Suc.hyps(1) [OF rest] by blast
    then show ?thesis
      using True p c_string_mem(1) [OF assms(1) p]
      unfolding range_step [of p]
      by (intro exI [of _ q]) (auto simp: skip_delims.simps [of h delim p])
  next
    case False
    then show ?thesis
      using p c_string_mem(1) [OF assms(1) p] by (intro exI [of _ p]) (auto simp: skip_delims.simps [of h delim p])
  qed
qed

lemma match_needle_eq:
  assumes "c_string h s"
  shows "q \<le> length s \<Longrightarrow> 0 \<notin> set nee \<Longrightarrow>
    \<exists>ok k. match_needle h nee q = Inr (ok, q + k) \<and> k \<le> length nee \<and> q + k \<le> length s
      \<and> (\<forall>j<k. s ! (q + j) = nee ! j) \<and> (ok \<longleftrightarrow> k = length nee)
      \<and> (k < length nee \<and> q + k < length s \<longrightarrow> s ! (q + k) \<noteq> nee ! k)"
proof (induction nee arbitrary: q)
  case (Cons c nee)
  show ?case
  proof (cases "q < length s \<and> s ! q = c")
    case True
    then obtain ok k where "match_needle h nee (q + 1) = Inr (ok, q + 1 + k) \<and> k \<le> length nee \<and> q + 1 + k \<le> length s
      \<and> (\<forall>j<k. s ! (q + 1 + j) = nee ! j) \<and> (ok \<longleftrightarrow> k = length nee)
      \<and> (k < length nee \<and> q + 1 + k < length s \<longrightarrow> s ! (q + 1 + k) \<noteq> nee ! k)"
      using Cons.IH [of "q + 1"] Cons.prems by auto
    then show ?thesis
      using True c_string_at(1) [OF assms, of q]
      by (intro exI [of _ ok] exI [of _ "Suc k"]) (auto simp: less_Suc_eq_0_disj)
  next
    case False
    then have "match_needle h (c # nee) q = Inr (False, q)"
      using c_string_at [OF assms] Cons.prems by (cases "q = length s") auto
    then show ?thesis
      using False Cons.prems by (intro exI [of _ False] exI [of _ 0]) auto
  qed
qed auto

lemma consume_item_eq:
  assumes "c_string h s" "delim \<noteq> 0"
  shows "p \<le> length s \<Longrightarrow> \<exists>r. consume_item h delim p = Inr r \<and>
    (case r of None \<Rightarrow> \<forall>j. p \<le> j \<and> j < length s \<longrightarrow> s ! j \<noteq> delim
     | Some q \<Rightarrow> p \<le> q \<and> q < length s \<and> s ! q = delim \<and> (\<forall>j. p \<le> j \<and> j < q \<longrightarrow> s ! j \<noteq> delim))"
proof (induction "length s - p" arbitrary: p)
  case 0
  then have "p = length s"
    by simp
  then show ?case
    using c_string_mem [OF assms(1)] assms(2)
    by (intro exI [of _ None]) (auto simp: consume_item.simps [of h delim "length s"])
next
  case (Suc k)
  then have p: "p < length s" and rest: "k = length s - (p + 1)" "p + 1 \<le> length s"
    by simp_all
  show ?case
  proof (cases "s ! p = delim")
    case True
    then show ?thesis
      using p c_string_mem(1) [OF assms(1) p]
      by (intro exI [of _ "Some p"]) (auto simp: consume_item.simps [of h delim p])
  next
    case False
    obtain r where "consume_item h delim (p + 1) = Inr r \<and>
      (case r of None \<Rightarrow> \<forall>j. p + 1 \<le> j \<and> j < length s \<longrightarrow> s ! j \<noteq> delim
       | Some q \<Rightarrow> p + 1 \<le> q \<and> q < length s \<and> s ! q = delim \<and> (\<forall>j. p + 1 \<le> j \<and> j < q \<longrightarrow> s ! j \<noteq> delim))"
      using Suc.hyps(1) [OF rest] by blast
    then show ?thesis
      using False p c_string_mem(1) [OF assms(1) p]
      unfolding range_step [of p]
      by (intro exI [of _ r]) (auto simp: consume_item.simps [of h delim p] split: option.splits)
  qed
qed

text \<open>
  Items start at the front or after a delimiter, so that none starts inside a run of delimiters
  or of other characters.
\<close>

lemma no_item:
  assumes "nee \<noteq> []" "delim \<notin> set nee"
  shows "s ! j = delim \<Longrightarrow> \<not> item_at s nee delim j" "0 < j \<Longrightarrow> s ! (j - 1) \<noteq> delim \<Longrightarrow> \<not> item_at s nee delim j"
  using assms by (cases nee; fastforce simp: item_at_def occurs_nth)+

lemma delimited_loop_eq:
  assumes c: "c_string h s" and nee: "nee \<noteq> []" "delim \<notin> set nee" "0 \<notin> set nee" and d: "delim \<noteq> 0"
  shows "p \<le> length s \<Longrightarrow> p = 0 \<or> p < length s \<and> s ! p = delim \<Longrightarrow> \<forall>j<p. \<not> item_at s nee delim j \<Longrightarrow>
    \<exists>r. delimited_loop h nee delim p = Inr r \<and> first_at (item_at s nee delim) r"
proof (induction "length s - p" arbitrary: p rule: less_induct)
  case less
  obtain m where m: "skip_delims h delim p = Inr m" "p \<le> m" "m \<le> length s" "\<forall>j. p \<le> j \<and> j < m \<longrightarrow> s ! j = delim"
    "m < length s \<longrightarrow> s ! m \<noteq> delim"
    using skip_delims_eq [OF c d less.prems(1)] by blast
  obtain ok k where k: "match_needle h nee m = Inr (ok, m + k)" "k \<le> length nee" "m + k \<le> length s"
    "\<forall>j<k. s ! (m + j) = nee ! j" "ok \<longleftrightarrow> k = length nee"
    "k < length nee \<and> m + k < length s \<longrightarrow> s ! (m + k) \<noteq> nee ! k"
    using match_needle_eq [OF c m(3) nee(3)] by blast
  have start: "m = 0 \<or> s ! (m - 1) = delim"
    using m(2,4,5) less.prems(2) by (cases "m = p") (auto dest: spec [of _ "m - 1"])
  have before: "\<forall>j<m. \<not> item_at s nee delim j"
    using less.prems(3) m(4) no_item(1) [OF nee(1,2)] not_less by blast
  have end_char: "at_byte h (m + k) = Inr (if m + k < length s then s ! (m + k) else 0)"
    using c_string_at [OF c] k(3) by (cases "m + k = length s") auto
  have found: "ok \<and> (m + k = length s \<or> s ! (m + k) = delim) \<longleftrightarrow> item_at s nee delim m"
  proof
    assume "ok \<and> (m + k = length s \<or> s ! (m + k) = delim)"
    then show "item_at s nee delim m"
      using k(3,4,5) start by (auto simp: item_at_def occurs_nth)
  next
    assume i: "item_at s nee delim m"
    then have "\<not> k < length nee"
      using k(6) by (auto simp: item_at_def occurs_nth)
    then show "ok \<and> (m + k = length s \<or> s ! (m + k) = delim)"
      using i k(2,5) by (auto simp: item_at_def)
  qed
  have stop: "(if m + k < length s then s ! (m + k) else 0) = 0 \<or> (if m + k < length s then s ! (m + k) else 0) = delim
      \<longleftrightarrow> m + k = length s \<or> s ! (m + k) = delim"
    using c_string_mem(1) [OF c, of "m + k"] k(3) d by auto
  show ?case
  proof (cases "item_at s nee delim m")
    case True
    then have "delimited_loop h nee delim p = Inr (Some m)"
      using found stop by (simp add: delimited_loop.simps [of h nee delim p] m(1) k(1) end_char)
    then show ?thesis
      using True before by (simp add: first_at_def)
  next
    case False
    obtain r where r: "consume_item h delim (m + k) = Inr r"
      "case r of None \<Rightarrow> \<forall>j. m + k \<le> j \<and> j < length s \<longrightarrow> s ! j \<noteq> delim
       | Some q \<Rightarrow> m + k \<le> q \<and> q < length s \<and> s ! q = delim \<and> (\<forall>j. m + k \<le> j \<and> j < q \<longrightarrow> s ! j \<noteq> delim)"
      using consume_item_eq [OF c d k(3)] by blast
    have l: "delimited_loop h nee delim p = (case r of None \<Rightarrow> Inr None | Some q \<Rightarrow> delimited_loop h nee delim q)"
      using False found stop by (auto simp: delimited_loop.simps [of h nee delim p] m(1) k(1) end_char r(1))
    have word: "s ! j \<noteq> delim" if "m \<le> j" "j < m + k" for j
      using k(2,4) nee(2) that by (metis add_less_cancel_left le_add_diff_inverse less_le_trans nth_mem)
    show ?thesis
    proof (cases r)
      case None
      have "\<not> item_at s nee delim j" for j
      proof (cases "j \<le> m")
        case True
        then show ?thesis
          using before False by (cases "j = m") auto
      next
        case j: False
        have "s ! (j - 1) \<noteq> delim" if "j \<le> length s"
          using that j word [of "j - 1"] r(2) None by (cases "j - 1 < m + k") auto
        then show ?thesis
          using no_item(2) [OF nee(1,2), of j s] j by (cases "j \<le> length s") (auto simp: item_at_def occurs_nth)
      qed
      then show ?thesis
        by (simp add: l None first_at_def)
    next
      case (Some q)
      have q: "m + k \<le> q" "q < length s" "s ! q = delim" "\<forall>j. m + k \<le> j \<and> j < q \<longrightarrow> s ! j \<noteq> delim"
        using r(2) Some by auto
      have "\<not> item_at s nee delim j" if "j < q" for j
      proof (cases "j \<le> m")
        case True
        then show ?thesis
          using before False by (cases "j = m") auto
      next
        case j: False
        have "s ! (j - 1) \<noteq> delim"
          using that j word [of "j - 1"] q(4) by (cases "j - 1 < m + k") auto
        then show ?thesis
          using no_item(2) [OF nee(1,2), of j s] j by auto
      qed
      moreover have "p < q"
        using m(2,5) q k(1) less.prems(2) by (metis le_add1 le_neq_implies_less le_trans order_le_less_trans)
      ultimately show ?thesis
        using less.hyps [of q] q(2,3) by (auto simp: l Some)
    qed
  qed
qed

text \<open>
  for a needle without delimiters the search finds the first item of the list that is
  equal to it, and nothing if there is none.
\<close>

theorem delimited_search:
  assumes "c_string h s" "nee \<noteq> []" "delim \<notin> set nee" "0 \<notin> set nee" "delim \<noteq> 0"
  shows "\<exists>r. strstr_delimited h nee delim = Inr r \<and> first_at (item_at s nee delim) r"
  using delimited_loop_eq [OF assms, of 0] assms(2) by (simp add: strstr_delimited_def)

theorem delimited_search_witness:
  "\<exists>r. strstr_delimited [97, 98, 44, 98, 0] [98] 44 = Inr r \<and> first_at (item_at [97, 98, 44, 98] [98] 44) r"
  by (rule delimited_search) (simp_all add: c_string_def)

text \<open>
  A needle that is a series of items can be missed: after a partial match the search goes on
  behind it and does not come back.
\<close>

lemma delimited_series_missed:
  "strstr_delimited [97, 44, 97, 44, 98, 0] [97, 44, 98] 44 = Inr None"
  "item_at [97, 44, 97, 44, 98] [97, 44, 98] 44 2"
  by (simp_all add: strstr_delimited_def delimited_loop.simps skip_delims.simps consume_item.simps at_byte_def
      item_at_def occurs_def)

section \<open>Identifiers, words, lines\<close>

text \<open>A scan over the characters that satisfy a test; the NUL ends it where the test fails on it.\<close>

function scan_while :: "(byte \<Rightarrow> bool) \<Rightarrow> bytes \<Rightarrow> nat \<Rightarrow> fault + nat" where
  "scan_while P p i =
    (if i < length p then if P (p ! i) then scan_while P p (i + 1) else Inr i else Inl OutOfBounds)"
  by pat_completeness auto
termination
  by (relation "measure (\<lambda>(P, p, i). length p - i)") auto

declare scan_while.simps [simp del]

definition id_start :: "byte \<Rightarrow> bool" where
  "id_start ch \<longleftrightarrow> (97 \<le> ch \<and> ch \<le> 122) \<or> (65 \<le> ch \<and> ch \<le> 90) \<or> ch = 95"

definition id_char :: "byte \<Rightarrow> bool" where
  "id_char ch \<longleftrightarrow> (97 \<le> ch \<and> ch \<le> 122) \<or> (65 \<le> ch \<and> ch \<le> 90) \<or> (48 \<le> ch \<and> ch \<le> 57) \<or> ch = 95"

definition AdvanceIdentifier :: "bytes \<Rightarrow> fault + nat option" where
  "AdvanceIdentifier p =
    bindE (at_byte p 0) (\<lambda>ch.
      if \<not> id_start ch then Inr None else map_sum id Some (scan_while id_char p 1))"

definition IsIdentifier :: "bytes \<Rightarrow> fault + bool" where
  "IsIdentifier p =
    bindE (AdvanceIdentifier p) (\<lambda>r.
      case r of None \<Rightarrow> Inr False | Some i \<Rightarrow> bindE (at_byte p i) (\<lambda>c. Inr (c = 0)))"

text \<open>The start of the first word and the end that is stored through \<^verbatim>\<open>end_ptr\<close>.\<close>

definition ScanForFirstWord :: "bytes \<Rightarrow> fault + (nat \<times> nat) option" where
  "ScanForFirstWord p =
    bindE (scan_while (\<lambda>c. c \<noteq> 0 \<and> ascii_isspace c) p 0) (\<lambda>first_word.
    bindE (at_byte p first_word) (\<lambda>c.
      if c = 0 then Inr None
      else
        bindE (scan_while (\<lambda>c. c \<noteq> 0 \<and> \<not> ascii_isspace c) p first_word) (\<lambda>e.
          Inr (Some (first_word, e)))))"

text \<open>\<^verbatim>\<open>FindEol\<close>: the place of the end of line and its length.\<close>

function FindEol_loop :: "bytes \<Rightarrow> nat \<Rightarrow> nat \<times> nat" where
  "FindEol_loop s i =
    (if i < length s then
       if s ! i = 10 then (i, 1)
       else if s ! i = 13 then if i + 1 < length s \<and> s ! (i + 1) = 10 then (i, 2) else (i, 1)
       else FindEol_loop s (i + 1)
     else (length s, 0))"
  by pat_completeness auto
termination
  by (relation "measure (\<lambda>(s, i). length s - i)") auto

declare FindEol_loop.simps [simp del]

definition FindEol :: "bytes \<Rightarrow> nat \<times> nat" where
  "FindEol s = FindEol_loop s 0"

definition OnlyWhitespace :: "bytes \<Rightarrow> bool" where
  "OnlyWhitespace s = list_all ascii_isspace s"

definition IsAscii :: "bytes \<Rightarrow> bool" where
  "IsAscii s = list_all ascii_isascii s"

fun strcount :: "bytes \<Rightarrow> byte \<Rightarrow> fault + int" where
  "strcount [] c = Inl OutOfBounds"
| "strcount (x # p) c =
     (if x = 0 then Inr 0 else map_sum id (\<lambda>num. if x = c then num + 1 else num) (strcount p c))"

definition strcount_range :: "bytes \<Rightarrow> byte \<Rightarrow> int" where
  "strcount_range s c = int (length (filter (\<lambda>x. x = c) s))"

text \<open>\<^verbatim>\<open>strchrnth\<close>: \<open>k\<close> occurrences have been passed.\<close>

function strchrnth_loop :: "bytes \<Rightarrow> byte \<Rightarrow> int \<Rightarrow> int \<Rightarrow> nat \<Rightarrow> fault + nat option" where
  "strchrnth_loop p c n k i =
    (if i < length p then
       if p ! i = 0 then Inr (if k < n then None else Some i)
       else if p ! i = c then if k + 1 \<ge> n then Inr (Some i) else strchrnth_loop p c n (k + 1) (i + 1)
       else strchrnth_loop p c n k (i + 1)
     else Inl OutOfBounds)"
  by pat_completeness auto
termination
  by (relation "measure (\<lambda>(p, c, n, k, i). length p - i)") auto

declare strchrnth_loop.simps [simp del]

definition strchrnth :: "bytes \<Rightarrow> byte \<Rightarrow> int \<Rightarrow> fault + nat option" where
  "strchrnth p c n = (if n \<le> 0 then Inr (Some 0) else strchrnth_loop p c n 0 0)"

lemma scan_while_eq:
  assumes "c_string p s" "\<not> P 0"
  shows "i \<le> length s \<Longrightarrow> scan_while P p i = Inr (i + length (takeWhile P (drop i s)))"
proof (induction "length s - i" arbitrary: i)
  case 0
  then show ?case
    using c_string_mem(2,3) [OF assms(1)] assms(2) by (auto simp: scan_while.simps [of P p "length s"] scan_while.simps [of P p i])
next
  case (Suc k)
  then have i: "i < length s" and d: "drop i s = s ! i # drop (i + 1) s"
    by (simp_all add: Cons_nth_drop_Suc)
  have "scan_while P p (i + 1) = Inr (i + 1 + length (takeWhile P (drop (i + 1) s)))"
    using Suc i by simp
  then show ?case
    using c_string_mem(1) [OF assms(1) i] i unfolding d by (simp add: scan_while.simps [of P p i])
qed

lemma AdvanceIdentifier_eq:
  assumes "c_string p s"
  shows "AdvanceIdentifier p = Inr (if s \<noteq> [] \<and> id_start (hd s) then Some (length (takeWhile id_char s)) else None)"
proof -
  have z: "\<not> id_start 0" "\<not> id_char 0"
    by (simp_all add: id_start_def id_char_def)
  show ?thesis
  proof (cases s)
    case Nil
    then show ?thesis
      using c_string_at(2) [OF assms] z by (simp add: AdvanceIdentifier_def)
  next
    case (Cons c t)
    moreover have "id_start c \<Longrightarrow> id_char c"
      by (auto simp: id_start_def id_char_def)
    ultimately show ?thesis
      using c_string_at(1) [OF assms, of 0] scan_while_eq [of p s id_char 1] assms z
      by (simp add: AdvanceIdentifier_def)
  qed
qed

lemma IsIdentifier_eq:
  assumes "c_string p s"
  shows "IsIdentifier p = Inr (s \<noteq> [] \<and> id_start (hd s) \<and> list_all id_char s)"
proof (cases "s \<noteq> [] \<and> id_start (hd s)")
  case True
  define n where "n = length (takeWhile id_char s)"
  have "at_byte p n = Inr 0 \<longleftrightarrow> n = length s" "\<exists>c. at_byte p n = Inr c"
    using c_string_at(1) [OF assms, of n] c_string_at(2) [OF assms] length_takeWhile_le [of id_char s]
    by (cases "n < length s"; force simp: n_def)+
  moreover have "n = length s \<longleftrightarrow> list_all id_char s"
    unfolding n_def list_all_iff by (metis takeWhile_eq_all_conv takeWhile_eq_take take_all_iff le_refl)
  ultimately show ?thesis
    using True by (auto simp: IsIdentifier_def AdvanceIdentifier_eq [OF assms] n_def [symmetric])
qed (auto simp: IsIdentifier_def AdvanceIdentifier_eq [OF assms])

text \<open>The first word: the spaces before it, its characters, and the space or the end behind it.\<close>

lemma ScanForFirstWord_eq:
  assumes "c_string p s"
  shows "ScanForFirstWord p = Inr (let u = takeWhile ascii_isspace s; v = dropWhile ascii_isspace s in
    if v = [] then None
    else Some (length u, length u + length (takeWhile (\<lambda>c. \<not> ascii_isspace c) v)))"
proof -
  define n where "n = length (takeWhile ascii_isspace s)"
  have z: "0 \<notin> set s"
    using assms by (simp add: c_string_def)
  have t1: "takeWhile (\<lambda>c. c \<noteq> 0 \<and> ascii_isspace c) s = takeWhile ascii_isspace s"
    using z by (intro takeWhile_cong) auto
  have t2: "takeWhile (\<lambda>c. c \<noteq> 0 \<and> \<not> ascii_isspace c) (drop n s) = takeWhile (\<lambda>c. \<not> ascii_isspace c) (drop n s)"
    using z in_set_dropD by (intro takeWhile_cong) fastforce+
  have d: "dropWhile ascii_isspace s = drop n s" "n \<le> length s"
    using dropWhile_eq_drop [of ascii_isspace s] length_takeWhile_le [of ascii_isspace s] by (simp_all add: n_def)
  have "scan_while (\<lambda>c. c \<noteq> 0 \<and> ascii_isspace c) p 0 = Inr n"
    using scan_while_eq [OF assms, of "\<lambda>c. c \<noteq> 0 \<and> ascii_isspace c" 0] t1 by (simp add: n_def)
  moreover have "scan_while (\<lambda>c. c \<noteq> 0 \<and> \<not> ascii_isspace c) p n
      = Inr (n + length (takeWhile (\<lambda>c. \<not> ascii_isspace c) (drop n s)))"
    using scan_while_eq [OF assms, of "\<lambda>c. c \<noteq> 0 \<and> \<not> ascii_isspace c" n] t2 d(2) by simp
  ultimately show ?thesis
    unfolding Let_def d n_def [symmetric] ScanForFirstWord_def
    using c_string_at [OF assms] d(2) by (cases "n = length s") auto
qed

lemma FindEol_loop_eq:
  "\<forall>j<i. s ! j \<noteq> 10 \<and> s ! j \<noteq> 13 \<Longrightarrow> i \<le> length s \<Longrightarrow> FindEol_loop s i = (e, n) \<Longrightarrow>
    (\<forall>j<e. s ! j \<noteq> 10 \<and> s ! j \<noteq> 13) \<and>
    (take n (drop e s) = [13, 10] \<or> take n (drop e s) = [10] \<or>
     take n (drop e s) = [13] \<and> take 1 (drop (e + 1) s) \<noteq> [10] \<or> (e = length s \<and> n = 0))"
proof (induction s i rule: FindEol_loop.induct)
  case (1 s i)
  show ?case
  proof (cases "i < length s")
    case i: True
    have d: "drop i s = s ! i # drop (i + 1) s"
      using i by (simp add: Cons_nth_drop_Suc)
    have d2: "drop (i + 1) s = s ! (i + 1) # drop (i + 2) s" if "i + 1 < length s"
      using that by (simp add: Cons_nth_drop_Suc)
    consider "s ! i = 10" | "s ! i = 13" | "s ! i \<noteq> 10" "s ! i \<noteq> 13"
      by blast
    then show ?thesis
    proof cases
      case 1
      then show ?thesis
        using i d "1.prems" by (auto simp: FindEol_loop.simps [of s i])
    next
      case 2
      then show ?thesis
        using i d d2 "1.prems" by (cases "i + 1 < length s") (auto simp: FindEol_loop.simps [of s i] split: if_splits)
    next
      case 3
      then have n: "FindEol_loop s (i + 1) = (e, n)" "\<forall>j<i + 1. s ! j \<noteq> 10 \<and> s ! j \<noteq> 13" "i + 1 \<le> length s"
        using i "1.prems" by (auto simp: FindEol_loop.simps [of s i] less_Suc_eq)
      show ?thesis
        by (rule "1.IH" [OF i 3 n(2,3,1)])
    qed
  next
    case False
    then have "e = length s" "n = 0" "i = length s"
      using "1.prems"(2,3) by (simp_all add: FindEol_loop.simps [of s "length s"])
    then show ?thesis
      using "1.prems"(1) by simp
  qed
qed

lemma strcount_eq: "c_string p s \<Longrightarrow> strcount p c = Inr (strcount_range s c)" if "c \<noteq> 0"
proof (induction s arbitrary: p)
  case Nil
  then show ?case
    by (auto simp: c_string_def strcount_range_def)
next
  case (Cons x s)
  then obtain q where "p = x # q" "c_string q s" "x \<noteq> 0"
    by (auto simp: c_string_def)
  with Cons.IH [of q] show ?case
    by (simp add: strcount_range_def)
qed

end
