(* ===== verification/LineEndings.thy ===== *)
theory LineEndings
  imports Fastmem
begin

text \<open>
  \<^verbatim>\<open>CleanStringLineEndings\<close> of \<^verbatim>\<open>gbase/strings/escaping.cc\<close>: line endings are converted in place,
  eight bytes at a time where a test on a whole machine word shows that none of them can be a
  line ending.  The word test is proved from the arithmetic of its bytes, and the routine equal
  to a recursive conversion of the string.
\<close>

section \<open>The routine\<close>

text \<open>Loads and stores of 64 bits at an offset, in little-endian order.\<close>

definition load64 :: "bytes \<Rightarrow> nat \<Rightarrow> u64" where
  "load64 p i = word_of_int (le_value (take 8 (drop i p)))"

definition bytes64 :: "u64 \<Rightarrow> bytes" where
  "bytes64 v = map (\<lambda>i. ucast (drop_bit (8 * i) v)) [0, 1, 2, 3, 4, 5, 6, 7]"

fun store_bytes :: "bytes \<Rightarrow> nat \<Rightarrow> bytes \<Rightarrow> bytes" where
  "store_bytes p i [] = p"
| "store_bytes p i (b # bs) = store_bytes (p[i := b]) (i + 1) bs"

definition store64 :: "bytes \<Rightarrow> nat \<Rightarrow> u64 \<Rightarrow> bytes" where
  "store64 p i v = store_bytes p i (bytes64 v)"

lemma length_store_bytes [simp]: "length (store_bytes p i bs) = length p"
  by (induction p i bs rule: store_bytes.induct) simp_all

lemma length_store64 [simp]: "length (store64 p i v) = length p"
  by (simp add: store64_def)

lemma store_bytes_eq: "i + length bs \<le> length p \<Longrightarrow> store_bytes p i bs = take i p @ bs @ drop (i + length bs) p"
proof (induction p i bs rule: store_bytes.induct)
  case (2 p i b bs)
  then show ?case
    by (simp add: take_Suc_conv_app_nth)
qed simp

text \<open>The macro \<^verbatim>\<open>has_less\<close>: \<^verbatim>\<open>~0ULL/255\<close> is 0x0101010101010101.\<close>

definition ones :: u64 where "ones = (NOT 0) div 255"

definition has_less :: "u64 \<Rightarrow> u64 \<Rightarrow> bool" where
  "has_less x n \<longleftrightarrow> (x - ones * n) AND NOT x AND ones * 128 \<noteq> 0"

text \<open>
  The loop: \<^verbatim>\<open>len\<close>, the string as it is rewritten, \<^verbatim>\<open>input_pos\<close>, \<^verbatim>\<open>output_pos\<close> and \<^verbatim>\<open>r_seen\<close>.  The
  character is a reference into the string and read again after the pending newline is written.
  The positions are \<^verbatim>\<open>int\<close>s: they stay below \<^verbatim>\<open>len\<close>, except in \<open>input_pos + 8\<close>, and \<open>None\<close> is the
  overflow of that sum.
\<close>

function clean_loop :: "int \<Rightarrow> bytes \<Rightarrow> nat \<Rightarrow> nat \<Rightarrow> bool \<Rightarrow> (bytes \<times> nat \<times> bool) option" where
  "clean_loop len p input_pos output_pos r_seen =
    (if int input_pos < len then
       if \<not> r_seen \<and> int input_pos + 8 > 2 ^ 31 - 1 then None
       else if \<not> r_seen \<and> int input_pos + 8 < len \<and> \<not> has_less (load64 p input_pos) (13 + 1) then
         clean_loop len
           (if output_pos \<noteq> input_pos then store64 p output_pos (load64 p input_pos) else p)
           (input_pos + 8) (output_pos + 8) r_seen
       else if p ! input_pos = 13 then
         if r_seen then clean_loop len (p[output_pos := 10]) (input_pos + 1) (output_pos + 1) True
         else clean_loop len p (input_pos + 1) output_pos True
       else if p ! input_pos = 10 then
         clean_loop len (if input_pos \<noteq> output_pos then p[output_pos := 10] else p)
           (input_pos + 1) (output_pos + 1) False
       else
         let p' = (if r_seen then p[output_pos := 10] else p);
             output_pos' = (if r_seen then output_pos + 1 else output_pos) in
         clean_loop len (if input_pos \<noteq> output_pos' then p'[output_pos' := p' ! input_pos] else p')
           (input_pos + 1) (output_pos' + 1) False
     else Some (p, output_pos, r_seen))"
  by pat_completeness auto
termination
  by (relation "measure (\<lambda>(len, p, i, j, r). nat len - i)")
    (auto simp: Let_def)

declare clean_loop.simps [simp del]

text \<open>\<^verbatim>\<open>len\<close> is the size of the string converted to an \<^verbatim>\<open>int\<close>.\<close>

definition CleanStringLineEndings :: "bytes \<Rightarrow> bool \<Rightarrow> bytes option" where
  "CleanStringLineEndings s auto_end_last_line =
    (let len = wrap32 (int (length s)) in
     case clean_loop len s 0 0 False of
       None \<Rightarrow> None
     | Some (p, output_pos, r_seen) \<Rightarrow> Some (
         if r_seen \<or> (auto_end_last_line \<and> output_pos > 0 \<and> p ! (output_pos - 1) \<noteq> 10) then
           take output_pos p @ [10]
         else if int output_pos < len then take output_pos p
         else p))"

definition CleanStringLineEndings_append :: "bytes \<Rightarrow> bytes \<Rightarrow> bool \<Rightarrow> bytes option" where
  "CleanStringLineEndings_append s dst auto_end_last_line =
    (if dst = [] then CleanStringLineEndings (dst @ s) auto_end_last_line
     else map_option ((@) dst) (CleanStringLineEndings s auto_end_last_line))"

section \<open>The word test\<close>

text \<open>Where no byte borrows from the next, the difference of two words is bytewise.\<close>

lemma le_value_simps [simp]: "le_value [] = 0" "le_value (b # bs) = uint b + 256 * le_value bs"
  by (simp_all add: le_value_def)

lemma le_value_bounds: "0 \<le> le_value bs \<and> le_value bs < 256 ^ length bs"
proof (induction bs)
  case (Cons b bs)
  have "uint b + 256 * le_value bs < 256 * (le_value bs + 1)"
    using uint_byte_bounds [of b] by simp
  also have "\<dots> \<le> 256 * 256 ^ length bs"
    using Cons by simp
  finally show ?case
    using Cons by simp
qed simp

lemma bit_high: "bit (x + 256 * y) (8 * Suc i + 7) \<longleftrightarrow> bit y (8 * i + 7)" if "0 \<le> x" "x < 256" for x y :: int
proof -
  have "(x + 256 * y) div 2 ^ 8 = y"
    using that by simp
  then have "drop_bit 8 (x + 256 * y) = y"
    by (simp only: drop_bit_eq_div)
  then have "bit y (8 * i + 7) \<longleftrightarrow> bit (drop_bit 8 (x + 256 * y)) (8 * i + 7)"
    by simp
  then show ?thesis
    by (simp add: bit_drop_bit_eq ac_simps)
qed

lemma bit_7: "bit (x + 256 * y) 7 \<longleftrightarrow> 128 \<le> x mod 256" for x y :: int
proof -
  obtain q r where x: "x = r + 256 * q" "0 \<le> r" "r < 256" "x mod 256 = r"
    by (rule that [of "x mod 256" "x div 256"]) simp_all
  have "(r + 128 * (2 * (q + y))) div 128 = r div 128 + 2 * (q + y)"
    by simp
  moreover have "x + 256 * y = r + 128 * (2 * (q + y))"
    by (simp add: x(1))
  ultimately have "(x + 256 * y) div 128 = r div 128 + 2 * (q + y)"
    by (simp only:)
  moreover have "bit (x + 256 * y) 7 \<longleftrightarrow> odd ((x + 256 * y) div 128)"
    by (simp add: bit_iff_odd)
  ultimately have "bit (x + 256 * y) 7 \<longleftrightarrow> odd (r div 128)"
    by (simp only: even_add even_mult_iff even_numeral simp_thms)
  moreover have "r div 128 = (if 128 \<le> r then 1 else 0)"
    using x(2,3) by auto
  ultimately show ?thesis
    using x(4) by simp
qed

lemma less_byte_bit:
  assumes "n \<le> 128" "0 \<le> n"
  shows "(\<exists>b\<in>set bs. uint b < n) \<Longrightarrow>
    \<exists>i<length bs. bit (le_value bs - le_value (replicate (length bs) (word_of_int n))) (8 * i + 7)
      \<and> \<not> bit (le_value bs) (8 * i + 7)"
proof (induction bs)
  case (Cons b bs)
  have n: "uint (word_of_int n :: byte) = n"
    using assms by (simp add: uint_word_of_int)
  define rest where "rest = le_value bs - le_value (replicate (length bs) (word_of_int n))"
  have d: "le_value (b # bs) - le_value (replicate (length (b # bs)) (word_of_int n)) = (uint b - n) + 256 * rest"
    by (simp add: n rest_def algebra_simps)
  show ?case
  proof (cases "uint b < n")
    case True
    have "(uint b - n) mod 256 = uint b - n + 256"
      using True assms uint_byte_bounds [of b] mod_pos_pos_trivial [of "uint b - n + 256" 256]
        mod_add_self2 [of "uint b - n" 256] by linarith
    then have "bit ((uint b - n) + 256 * rest) 7"
      using assms(1) uint_byte_bounds(1) [of b] unfolding bit_7 by linarith
    moreover have "\<not> bit (le_value (b # bs)) 7"
      using True assms uint_byte_bounds [of b] mod_pos_pos_trivial [of "uint b" 256]
      unfolding le_value_simps bit_7 by linarith
    ultimately have "bit ((uint b - n) + 256 * rest) 7" "\<not> bit (le_value (b # bs)) 7"
      by blast+
    then show ?thesis
      unfolding d by (intro exI [of _ 0]) simp
  next
    case False
    then obtain i where i: "i < length bs" "bit rest (8 * i + 7)" "\<not> bit (le_value bs) (8 * i + 7)"
      using Cons unfolding rest_def by auto
    have "bit ((uint b - n) + 256 * rest) (8 * Suc i + 7)"
      using i(2) bit_high [of "uint b - n" rest i] False uint_byte_bounds [of b] assms by linarith
    moreover have "\<not> bit (le_value (b # bs)) (8 * Suc i + 7)"
      using i(3) bit_high [of "uint b" "le_value bs" i] by simp
    ultimately show ?thesis
      unfolding d using i(1) by (intro exI [of _ "Suc i"]) simp
  qed
qed simp

lemma ones_value: "ones = 0x0101010101010101"
  by (simp add: ones_def word_uint_eq_iff uint_div)

lemma le_value_fourteens: "ones * (13 + 1) = word_of_int (le_value (replicate 8 14))"
proof -
  have "replicate 8 (14 :: byte) = [14, 14, 14, 14, 14, 14, 14, 14]"
    by (simp add: eval_nat_numeral)
  then have "le_value (replicate 8 14) = 0x0E0E0E0E0E0E0E0E"
    by (simp only: le_value_simps) simp
  then show ?thesis
    by (simp add: ones_value)
qed

lemma not_has_less:
  assumes "\<not> has_less (word_of_int (le_value bs)) (13 + 1)" "length bs = 8" "b \<in> set bs"
  shows "14 \<le> uint b"
proof (rule ccontr)
  assume "\<not> 14 \<le> uint b"
  then have "\<exists>b\<in>set bs. uint b < 14"
    using assms(3) by force
  then obtain i where i: "i < 8" "bit (le_value bs - le_value (replicate 8 14)) (8 * i + 7)" "\<not> bit (le_value bs) (8 * i + 7)"
    using less_byte_bit [of 14 bs] assms(2) by auto
  have m: "8 * i + 7 < 64"
    using i(1) by simp
  have "i \<in> {0, 1, 2, 3, 4, 5, 6, 7}"
    using i(1) by auto
  then have "bit (ones * 128) (8 * i + 7)"
    by (auto simp: ones_value bit_iff_odd)
  moreover have "bit ((word_of_int (le_value bs) - ones * (13 + 1)) AND NOT (word_of_int (le_value bs)) :: u64) (8 * i + 7)"
    using i(2,3) m unfolding le_value_fourteens wi_hom_sub
    by (simp add: bit_and_iff bit_not_iff bit_word_of_int_iff del: of_int_diff)
  ultimately have "bit ((word_of_int (le_value bs) - ones * (13 + 1)) AND NOT (word_of_int (le_value bs)) AND ones * 128 :: u64) (8 * i + 7)"
    by (simp add: bit_and_iff)
  with assms(1) show False
    by (auto simp: has_less_def)
qed

lemma le_value_nth: "i < length bs \<Longrightarrow> le_value bs div 256 ^ i mod 256 = uint (bs ! i)"
proof (induction bs arbitrary: i)
  case (Cons b bs)
  show ?case
  proof (cases i)
    case 0
    then show ?thesis
      using uint_byte_bounds [of b] by simp
  next
    case (Suc j)
    have "(uint b + 256 * le_value bs) div 256 = le_value bs"
      using uint_byte_bounds [of b] by simp
    then have "(uint b + 256 * le_value bs) div (256 * 256 ^ j) = le_value bs div 256 ^ j"
      using zdiv_zmult2_eq [of "256 ^ j" "uint b + 256 * le_value bs" 256] by simp
    then show ?thesis
      using Cons Suc by simp
  qed
qed simp

lemma bytes64_load:
  assumes "length bs = 8"
  shows "bytes64 (word_of_int (le_value bs)) = bs"
proof -
  have b: "0 \<le> le_value bs" "le_value bs < 2 ^ 64"
    using le_value_bounds [of bs] assms by simp_all
  have byte: "ucast (drop_bit (8 * i) (word_of_int (le_value bs) :: u64)) = bs ! i" if "i < 8" for i
  proof (rule word_uint_eqI)
    have v: "uint (word_of_int (le_value bs) :: u64) = le_value bs"
      using b by (simp add: uint_word_of_int)
    have "uint (ucast (drop_bit (8 * i) (word_of_int (le_value bs) :: u64)) :: byte)
        = take_bit 8 (drop_bit (8 * i) (take_bit 64 (le_value bs)))"
      by (simp only: unsigned_ucast_eq unsigned_drop_bit_eq v) simp
    also have "\<dots> = le_value bs div 2 ^ (8 * i) mod 256"
      using b by (simp add: take_bit_eq_mod drop_bit_eq_div)
    finally have "uint (ucast (drop_bit (8 * i) (word_of_int (le_value bs) :: u64)) :: byte) = le_value bs div 2 ^ (8 * i) mod 256" .
    then show "uint (ucast (drop_bit (8 * i) (word_of_int (le_value bs) :: u64)) :: byte) = uint (bs ! i)"
      using le_value_nth [of i bs] assms that by (simp add: power_mult)
  qed
  have "bytes64 (word_of_int (le_value bs)) = map ((!) bs) [0, 1, 2, 3, 4, 5, 6, 7]"
    unfolding bytes64_def
  proof (intro map_cong refl)
    fix i :: nat
    assume "i \<in> set [0, 1, 2, 3, 4, 5, 6, 7]"
    then have "i < 8"
      by auto
    then show "ucast (drop_bit (8 * i) (word_of_int (le_value bs) :: u64)) = bs ! i"
      by (rule byte)
  qed
  also have "[0, 1, 2, 3, 4, 5, 6, 7] = [0..<length bs]"
    by (simp add: assms upt_rec)
  finally show ?thesis
    by (simp add: map_nth)
qed

section \<open>What the conversion does\<close>

text \<open>CR LF, CR and LF become LF; the last line is ended where that is asked for.\<close>

fun unix_lines :: "bytes \<Rightarrow> bytes" where
  "unix_lines [] = []"
| "unix_lines (c # s) =
    (if c = 13 then 10 # unix_lines (if s \<noteq> [] \<and> hd s = 10 then tl s else s) else c # unix_lines s)"

definition end_line :: "bool \<Rightarrow> bytes \<Rightarrow> bytes" where
  "end_line auto s = (if auto \<and> s \<noteq> [] \<and> last s \<noteq> 10 then s @ [10] else s)"

definition pending :: "bool \<Rightarrow> bytes \<Rightarrow> bytes" where
  "pending r s = (if r then unix_lines (13 # s) else unix_lines s)"

lemma pending_Nil: "pending r [] = (if r then [10] else [])"
  by (simp add: pending_def)

lemma pending_Cons:
  "pending r (13 # s) = (if r then 10 # pending True s else pending True s)"
  "pending r (10 # s) = 10 # pending False s"
  "c \<noteq> 13 \<Longrightarrow> c \<noteq> 10 \<Longrightarrow> pending r (c # s) = (if r then [10, c] else [c]) @ pending False s"
  by (simp_all add: pending_def)

lemma unix_lines_plain: "(\<And>b. b \<in> set bs \<Longrightarrow> 14 \<le> uint b) \<Longrightarrow> unix_lines (bs @ s) = bs @ unix_lines s"
proof (induction bs)
  case (Cons c bs)
  have "14 \<le> uint c"
    using Cons.prems by simp
  then have "c \<noteq> 13"
    by auto
  then show ?case
    using Cons by simp
qed simp

lemma drop_write: "j < i \<Longrightarrow> drop i (p[j := x]) = drop i p"
  by simp

lemma take_write: "j < length p \<Longrightarrow> take (j + 1) (p[j := x]) = take j p @ [x]"
  by (simp add: take_Suc_conv_app_nth)

text \<open>
  What has been written and what the rest will give is the conversion of the whole; the writes
  stay behind the reading position.
\<close>

lemma clean_loop_eq:
  "j \<le> i \<Longrightarrow> i \<le> length p \<Longrightarrow> (r \<longrightarrow> j < i) \<Longrightarrow> len = int (length p)
    \<Longrightarrow> clean_loop len p i j r = Some (q, k, r') \<Longrightarrow>
    length q = length p \<and> k \<le> length p \<and> (r' \<longrightarrow> k < length p)
    \<and> take k q @ (if r' then [10] else []) = take j p @ pending r (drop i p)"
proof (induction len p i j r rule: clean_loop.induct)
  case (1 len p i j r)
  note len = "1.prems"(4) and run = "1.prems"(5)
  show ?case
  proof (cases "i < length p")
    case False
    then have "i = length p" "q = p" "k = j" "r' = r"
      using "1.prems"(2) run by (auto simp: len clean_loop.simps [of _ p "length p"])
    then show ?thesis
      using "1.prems"(1,3) by (simp add: pending_Nil)
  next
    case i: True
    have d: "drop i p = p ! i # drop (i + 1) p"
      using i by (simp add: Cons_nth_drop_Suc)
    have i': "int i < len"
      using i len by simp
    have ov: "\<not> (\<not> r \<and> int i + 8 > 2 ^ 31 - 1)"
      using run i' by (auto simp: clean_loop.simps [of len p i])
    consider (word) "\<not> r \<and> int i + 8 < len \<and> \<not> has_less (load64 p i) (13 + 1)"
      | (cr) "\<not> (\<not> r \<and> int i + 8 < len \<and> \<not> has_less (load64 p i) (13 + 1))" "p ! i = 13"
      | (lf) "\<not> (\<not> r \<and> int i + 8 < len \<and> \<not> has_less (load64 p i) (13 + 1))" "p ! i = 10"
      | (other) "\<not> (\<not> r \<and> int i + 8 < len \<and> \<not> has_less (load64 p i) (13 + 1))" "p ! i \<noteq> 13" "p ! i \<noteq> 10"
      by blast
    then show ?thesis
    proof cases
      case word
      then have i8: "i + 8 < length p"
        using len by simp
      define w where "w = take 8 (drop i p)"
      have "drop 8 (drop i p) = drop (i + 8) p"
        by (simp add: add.commute)
      then have "drop i p = w @ drop (i + 8) p"
        using append_take_drop_id [of 8 "drop i p"] unfolding w_def by metis
      moreover have "length w = 8"
        using word i8 by (auto simp: w_def)
      ultimately have w: "length w = 8" "drop i p = w @ drop (i + 8) p"
        by blast+
      have "\<And>b. b \<in> set w \<Longrightarrow> 14 \<le> uint b"
        using not_has_less [of w] word w(1) by (auto simp: load64_def w_def)
      then have plain: "pending r (drop i p) = w @ pending r (drop (i + 8) p)"
        using word by (simp add: pending_def w(2) unix_lines_plain)
      define p' where "p' = (if j \<noteq> i then store64 p j (load64 p i) else p)"
      have b: "bytes64 (load64 p i) = w"
        using bytes64_load [OF w(1)] by (simp add: load64_def w_def)
      have "p' = take j p @ w @ drop (j + 8) p"
        using word i8 "1.prems"(1) w(1) store_bytes_eq [of j w p] w(2)
        by (cases "j = i") (auto simp: p'_def store64_def b, metis append_take_drop_id)
      then have p': "length p' = length p" "take (j + 8) p' = take j p @ w" "drop (i + 8) p' = drop (i + 8) p"
        using word i8 "1.prems"(1) w(1) by simp_all
      have "clean_loop len p' (i + 8) (j + 8) r = Some (q, k, r')"
        using run i' ov word by (simp add: clean_loop.simps [of len p i] p'_def)
      then show ?thesis
        using "1.IH"(1) [OF i' ov word] word len "1.prems"(1) p' plain by (simp add: p'_def [symmetric])
    next
      case cr
      show ?thesis
      proof (cases r)
        case True
        then have "clean_loop len (p[j := 10]) (i + 1) (j + 1) True = Some (q, k, r')"
          using run i' ov cr by (auto simp: clean_loop.simps [of len p i] split: if_splits)
        then show ?thesis
          using "1.IH"(2) [OF i' ov cr True] len i True "1.prems"(1,3) take_write [of j p 10] drop_write [of j "i + 1" p 10]
          by (simp add: d cr(2) pending_Cons(1))
      next
        case False
        then have "clean_loop len p (i + 1) j True = Some (q, k, r')"
          using run i' ov cr by (auto simp: clean_loop.simps [of len p i] split: if_splits)
        then show ?thesis
          using "1.IH"(3) [OF i' ov cr False] len i False "1.prems"(1) by (simp add: d cr(2) pending_Cons(1))
      qed
    next
      case lf
      define p' where "p' = (if i \<noteq> j then p[j := 10] else p)"
      have p': "length p' = length p" "take (j + 1) p' = take j p @ [10]" "drop (i + 1) p' = drop (i + 1) p"
        using i lf(2) "1.prems"(1) take_write [of j p 10] by (auto simp: p'_def take_Suc_conv_app_nth)
      have "clean_loop len p' (i + 1) (j + 1) False = Some (q, k, r')"
        using run i' ov lf by (auto simp: clean_loop.simps [of len p i] p'_def split: if_splits)
      then show ?thesis
        using "1.IH"(4) [OF i' ov lf(1) _ lf(2)] len i "1.prems"(1) p' by (simp add: d lf(2) pending_Cons(2) p'_def [symmetric])
    next
      case other
      define p1 where "p1 = (if r then p[j := 10] else p)"
      define j1 where "j1 = (if r then j + 1 else j)"
      define p2 where "p2 = (if i \<noteq> j1 then p1[j1 := p1 ! i] else p1)"
      have j1: "j1 \<le> i"
        using "1.prems"(1,3) by (auto simp: j1_def)
      have p1: "length p1 = length p" "take j1 p1 = take j p @ (if r then [10] else [])" "drop i p1 = drop i p" "p1 ! i = p ! i"
        using i "1.prems"(1,3) take_write [of j p 10] by (auto simp: p1_def j1_def)
      have p2: "length p2 = length p" "take (j1 + 1) p2 = take j p @ (if r then [10] else []) @ [p ! i]"
        "drop (i + 1) p2 = drop (i + 1) p"
        using i j1 p1 take_write [of j1 p1 "p ! i"] "1.prems"(1,3)
        by (auto simp: p2_def p1_def take_Suc_conv_app_nth)
      have "clean_loop len p2 (i + 1) (j1 + 1) False = Some (q, k, r')"
        using run i' ov other
        unfolding p2_def p1_def j1_def by (auto simp: clean_loop.simps [of len p i] Let_def split: if_splits)
      then have "length q = length p2 \<and> k \<le> length p2 \<and> (r' \<longrightarrow> k < length p2)
          \<and> take k q @ (if r' then [10] else []) = take (j1 + 1) p2 @ pending False (drop (i + 1) p2)"
        using i j1 p2(1) len
        by (intro "1.IH"(5) [OF i' ov other(1) other(2) other(3) refl refl, folded p1_def j1_def, folded p2_def]) auto
      then show ?thesis
        using other(2,3) p2(2,3) by (simp add: d pending_Cons(3) p2(1))
    qed
  qed
qed

lemma last_take: "0 < k \<Longrightarrow> k \<le> length q \<Longrightarrow> last (take k q) = q ! (k - 1)"
  by (subst last_conv_nth) auto

lemma clean_loop_returns: "len \<le> 2 ^ 31 - 8 \<Longrightarrow> clean_loop len p i j r \<noteq> None"
proof (induction len p i j r rule: clean_loop.induct)
  case (1 len p i j r)
  then show ?case
    by (subst clean_loop.simps) (auto simp: Let_def)
qed

text \<open>
  C38: the conversion in place, with its test of eight bytes at a time, gives the string with
  every CR LF and every lone CR replaced by LF, and ends the last line where that is asked for,
  for every string of at most \<open>2 ^ 31 - 8\<close> bytes, so that its size and the positions in it fit
  an \<^verbatim>\<open>int\<close>.  A string of at least 2 and less than 4 GiB is left as it is.
\<close>

theorem clean_line_endings:
  "(length s \<le> 2 ^ 31 - 8 \<longrightarrow> CleanStringLineEndings s auto = Some (end_line auto (unix_lines s)))
    \<and> (2 ^ 31 \<le> length s \<and> length s < 2 ^ 32 \<longrightarrow> CleanStringLineEndings s auto = Some s)"
proof (intro conjI impI)
  assume l: "length s \<le> 2 ^ 31 - 8"
  then have len: "wrap32 (int (length s)) = int (length s)" "int (length s) \<le> 2 ^ 31 - 8"
    by (auto simp: wrap32_def)
  obtain q k r where c: "clean_loop (int (length s)) s 0 0 False = Some (q, k, r)"
    using clean_loop_returns [OF len(2)] by (metis option.exhaust prod_cases3)
  have q: "length q = length s" "k \<le> length s" "take k q @ (if r then [10] else []) = unix_lines s"
    using clean_loop_eq [OF _ _ _ refl c] by (simp_all add: pending_def)
  show "CleanStringLineEndings s auto = Some (end_line auto (unix_lines s))"
  proof (cases r)
    case True
    then have "unix_lines s = take k q @ [10]"
      using q(3) by simp
    then show ?thesis
      using True by (simp add: CleanStringLineEndings_def len(1) c end_line_def)
  next
    case False
    then have u: "unix_lines s = take k q"
      using q(3) by simp
    have n: "take k q \<noteq> [] \<longleftrightarrow> k > 0"
      using q(1,2) by (cases q) auto
    show ?thesis
      using False q(1,2) last_take [of k q]
      unfolding CleanStringLineEndings_def Let_def len(1) c u end_line_def n
      by (cases "k > 0"; cases "k < length s") auto
  qed
next
  assume l: "2 ^ 31 \<le> length s \<and> length s < 2 ^ 32"
  then have "int (length s) + 2 ^ 31 = (int (length s) - 2 ^ 31) + 2 ^ 32" "0 \<le> int (length s) - 2 ^ 31" "int (length s) - 2 ^ 31 < 2 ^ 32"
    by simp_all
  then have "(int (length s) + 2 ^ 31) mod 2 ^ 32 = int (length s) - 2 ^ 31"
    by (metis mod_add_self2 mod_pos_pos_trivial)
  then have "wrap32 (int (length s)) < 0"
    using l unfolding wrap32_def by simp
  then show "CleanStringLineEndings s auto = Some s"
    by (simp add: CleanStringLineEndings_def clean_loop.simps Let_def)
qed

text \<open>Of a longer string only a first part is converted, and the rest can be cut off.\<close>

lemma clean_cuts_off:
  assumes "length t = 2 ^ 32"
  shows "CleanStringLineEndings (13 # 10 # t) auto = Some [10]"
proof -
  have "(2 + 2 ^ 31 + 2 ^ 32 :: int) mod 2 ^ 32 = 2 + 2 ^ 31"
    by simp
  then have "wrap32 (int (length (13 # 10 # t))) = 2"
    using assms by (simp add: wrap32_def)
  then show ?thesis
    by (simp add: CleanStringLineEndings_def Let_def clean_loop.simps)
qed

theorem clean_line_endings_witness:
  "CleanStringLineEndings [97, 13, 10, 98, 13] True = Some [97, 10, 98, 10]"
  using clean_line_endings [of "[97, 13, 10, 98, 13]" True] by (simp add: end_line_def)

end
