(* ===== verification/Escapes.thy ===== *)
theory Escapes
  imports CStrings Rune
begin

text \<open>
  C-style escapes, \<^verbatim>\<open>gbase/strings/escaping.cc\<close>: \<^verbatim>\<open>CEscape\<close> and its variants with the writes
  into a counted buffer, \<^verbatim>\<open>CUnescape\<close> with its error messages, and the backslash escapes for a
  \<^verbatim>\<open>CharSet\<close>.  Whether \<^verbatim>\<open>char\<close> is signed is a parameter.
\<close>

section \<open>Escaping\<close>

text \<open>\<^verbatim>\<open>sprintf\<close> with \<^verbatim>\<open>%02x\<close> and \<^verbatim>\<open>%03o\<close>: the argument, an \<^verbatim>\<open>int\<close>, is read as \<^verbatim>\<open>unsigned\<close>.\<close>

function printed :: "nat \<Rightarrow> nat \<Rightarrow> bytes" where
  "printed base n =
    (if base < 2 \<or> n < base then [hex_digit (of_nat n)]
     else printed base (n div base) @ [hex_digit (of_nat (n mod base))])"
  by pat_completeness auto
termination
  by (relation "measure (\<lambda>(base, n). n)") auto

declare printed.simps [simp del]

definition padded :: "nat \<Rightarrow> bytes \<Rightarrow> bytes" where
  "padded w ds = replicate (w - length ds) 48 @ ds"

definition escape_text :: "bool \<Rightarrow> int \<Rightarrow> bytes" where
  "escape_text use_hex c =
    (let n = nat (c mod 2 ^ 32) in
     if use_hex then 92 # 120 # padded 2 (printed 16 n) else 92 # padded 3 (printed 8 n))"

fun write_bytes :: "bytes \<Rightarrow> nat \<Rightarrow> bytes \<Rightarrow> fault + bytes" where
  "write_bytes dest i [] = Inr dest"
| "write_bytes dest i (b # bs) = bindE (put_byte dest i b) (\<lambda>dest. write_bytes dest (i + 1) bs)"

definition letter_escape :: "byte \<Rightarrow> byte option" where
  "letter_escape c =
    (if c = 10 then Some 110 else if c = 13 then Some 114 else if c = 9 then Some 116
     else if c = 34 then Some 34 else if c = 39 then Some 39 else if c = 92 then Some 92 else None)"

text \<open>
  The loop of \<^verbatim>\<open>CEscapeInternal\<close>; the result is the count returned, \<open>None\<close> for \<open>-1\<close>, and the
  destination.  \<^verbatim>\<open>sprintf\<close> also writes a NUL, and \<^verbatim>\<open>used\<close> grows by four whatever it wrote.
\<close>

fun CEscape_loop :: "build \<Rightarrow> bool \<Rightarrow> bool \<Rightarrow> bytes \<Rightarrow> int \<Rightarrow> nat \<Rightarrow> bool \<Rightarrow> bytes \<Rightarrow> fault + nat option \<times> bytes" where
  "CEscape_loop b use_hex utf8_safe [] dest_len used last_hex_escape dest =
    (if dest_len - int used < 1 then Inr (None, dest)
     else bindE (put_byte dest used 0) (\<lambda>dest. Inr (Some used, dest)))"
| "CEscape_loop b use_hex utf8_safe (c # src) dest_len used last_hex_escape dest =
    (if dest_len - int used < 2 then Inr (None, dest)
     else
       case letter_escape c of
         Some x \<Rightarrow>
           bindE (write_bytes dest used [92, x])
             (CEscape_loop b use_hex utf8_safe src dest_len (used + 2) False)
       | None \<Rightarrow>
           if (\<not> utf8_safe \<or> char_value b c < 0x80) \<and>
              (\<not> ascii_isprint c \<or> (last_hex_escape \<and> ascii_isxdigit c)) then
             if dest_len - int used < 4 then Inr (None, dest)
             else
               bindE (write_bytes dest used (escape_text use_hex (char_value b c) @ [0]))
                 (CEscape_loop b use_hex utf8_safe src dest_len (used + 4) use_hex)
           else
             bindE (put_byte dest used c)
               (CEscape_loop b use_hex utf8_safe src dest_len (used + 1) False))"

definition CEscapeInternal :: "build \<Rightarrow> bytes \<Rightarrow> bytes \<Rightarrow> int \<Rightarrow> bool \<Rightarrow> bool \<Rightarrow> fault + nat option \<times> bytes" where
  "CEscapeInternal b src dest dest_len use_hex utf8_safe =
    CEscape_loop b use_hex utf8_safe src dest_len 0 False dest"

text \<open>
  The four routines that return a string: a buffer of the greatest possible length, whose
  first content does not matter.  Where its length is not positive as an \<^verbatim>\<open>int\<close>, there is none.
\<close>

definition CEscape_string :: "build \<Rightarrow> bool \<Rightarrow> bool \<Rightarrow> bytes \<Rightarrow> fault + bytes" where
  "CEscape_string b use_hex utf8_safe src =
    (let dest_length = wrap32 (int (length src) * 4 + 1) in
     bindE (CEscapeInternal b src (replicate (nat dest_length) 0) dest_length use_hex utf8_safe) (\<lambda>(len, dest).
       case len of None \<Rightarrow> Inl CheckFailed | Some len \<Rightarrow> Inr (take len dest)))"

definition CEscape :: "build \<Rightarrow> bytes \<Rightarrow> fault + bytes" where
  "CEscape b src = CEscape_string b False False src"

definition CHexEscape :: "build \<Rightarrow> bytes \<Rightarrow> fault + bytes" where
  "CHexEscape b src = CEscape_string b True False src"

definition Utf8SafeCEscape :: "build \<Rightarrow> bytes \<Rightarrow> fault + bytes" where
  "Utf8SafeCEscape b src = CEscape_string b False True src"

definition Utf8SafeCHexEscape :: "build \<Rightarrow> bytes \<Rightarrow> fault + bytes" where
  "Utf8SafeCHexEscape b src = CEscape_string b True True src"

section \<open>Unescaping\<close>

definition hex_digit_to_int :: "byte \<Rightarrow> u32" where
  "hex_digit_to_int c = (let x = (ucast c :: u32) in (if x > 57 then x + 9 else x) AND 0xf)"

definition is_octal_digit :: "byte \<Rightarrow> bool" where
  "is_octal_digit c \<longleftrightarrow> 48 \<le> c \<and> c \<le> 55"

definition octal_value :: "bytes \<Rightarrow> u32" where
  "octal_value ds = foldl (\<lambda>ch c. ch * 8 + ucast c - 48) 0 ds"

definition hex_value32 :: "bytes \<Rightarrow> u32" where
  "hex_value32 ds = foldl (\<lambda>ch c. push_bit 4 ch + hex_digit_to_int c) 0 ds"

definition simple_escape :: "byte \<Rightarrow> byte option" where
  "simple_escape c =
    (if c = 97 then Some 7 else if c = 98 then Some 8 else if c = 102 then Some 12
     else if c = 110 then Some 10 else if c = 114 then Some 13 else if c = 116 then Some 9
     else if c = 118 then Some 11 else if c \<in> {92, 63, 39, 34} then Some c else None)"

text \<open>
  \<^verbatim>\<open>\u\<close> and \<^verbatim>\<open>\U\<close>: a fixed number of digits.  \<open>seen\<close> is the text from the letter on that the error
  message quotes.
\<close>

fun u_digits :: "nat \<Rightarrow> u32 \<Rightarrow> bytes \<Rightarrow> bytes \<Rightarrow> bytes + u32" where
  "u_digits 0 rune seen p = Inr rune"
| "u_digits (Suc n) rune seen [] = Inl []"
| "u_digits (Suc n) rune seen (c # p) =
    (if ascii_isxdigit c then u_digits n (push_bit 4 rune + hex_digit_to_int c) (seen @ [c]) p
     else Inl ([92] @ str ''u must be followed by 4 hex digits: '' @ [92] @ seen))"

fun U_digits :: "nat \<Rightarrow> u32 \<Rightarrow> bytes \<Rightarrow> bytes \<Rightarrow> bytes + u32" where
  "U_digits 0 rune seen p = Inr rune"
| "U_digits (Suc n) rune seen [] = Inl []"
| "U_digits (Suc n) rune seen (c # p) =
    (if ascii_isxdigit c then
       let newrune = push_bit 4 rune + hex_digit_to_int c in
       if newrune > 0x10FFFF then
         Inl (str ''Value of '' @ [92] @ seen @ [c] @ str '' exceeds Unicode limit (0x10FFFF)'')
       else U_digits n newrune (seen @ [c]) p
     else Inl ([92] @ str ''U must be followed by 8 hex digits: '' @ [92] @ seen))"

text \<open>
  The sequence behind a backslash: an error message, or the bytes to write and the rest.  With
  \<open>leave_nulls\<close> the escape of a null character is copied.
\<close>

definition unescape_one :: "bool \<Rightarrow> bytes \<Rightarrow> bytes + bytes \<times> bytes" where
  "unescape_one leave_nulls p =
    (case p of
       [] \<Rightarrow> Inl (str ''String cannot end with '' @ [92])
     | c # q \<Rightarrow>
         (case simple_escape c of
            Some x \<Rightarrow> Inr ([x], q)
          | None \<Rightarrow>
              if is_octal_digit c then
                let ds = c # takeWhile is_octal_digit (take 2 q); rest = drop (length ds - 1) q; ch = octal_value ds in
                if ch > 0xff then Inl (str ''Value of '' @ [92] @ ds @ str '' exceeds 0xff'')
                else if ch = 0 \<and> leave_nulls then Inr (92 # ds, rest)
                else Inr ([ucast ch], rest)
              else if c = 120 \<or> c = 88 then
                if q = [] then Inl (str ''String cannot end with '' @ [92] @ str ''x'')
                else if \<not> ascii_isxdigit (hd q) then Inl ([92] @ str ''x cannot be followed by a non-hex digit'')
                else
                  let ds = takeWhile ascii_isxdigit q; rest = dropWhile ascii_isxdigit q; ch = hex_value32 ds in
                  if ch > 0xFF then Inl (str ''Value of '' @ [92] @ (c # ds) @ str '' exceeds 0xff'')
                  else if ch = 0 \<and> leave_nulls then Inr (92 # c # ds, rest)
                  else Inr ([ucast ch], rest)
              else if c = 117 then
                if length q < 4 then Inl ([92] @ str ''u must be followed by 4 hex digits: '' @ [92] @ [c])
                else (case u_digits 4 0 [c] q of
                  Inl e \<Rightarrow> Inl e
                | Inr rune \<Rightarrow>
                    if rune = 0 \<and> leave_nulls then Inr (92 # take 5 p, drop 4 q)
                    else Inr (runetochar (uint rune), drop 4 q))
              else if c = 85 then
                if length q < 8 then Inl ([92] @ str ''U must be followed by 8 hex digits: '' @ [92] @ [c])
                else (case U_digits 8 0 [c] q of
                  Inl e \<Rightarrow> Inl e
                | Inr rune \<Rightarrow>
                    if rune = 0 \<and> leave_nulls then Inr (92 # take 9 p, drop 8 q)
                    else Inr (runetochar (uint rune), drop 8 q))
              else Inl (str ''Unknown escape sequence: '' @ [92] @ [c])))"

lemma unescape_one_rest: "unescape_one leave p = Inr (w, rest) \<Longrightarrow> length rest < length p"
  by (auto simp: unescape_one_def Let_def length_dropWhile_le less_Suc_eq_le split: list.splits option.splits if_splits sum.splits)

function CUnescape_loop :: "bool \<Rightarrow> bytes \<Rightarrow> bytes \<Rightarrow> bytes + bytes" where
  "CUnescape_loop leave_nulls p d =
    (if p = [] then Inr d
     else if hd p \<noteq> 92 then CUnescape_loop leave_nulls (tl p) (d @ [hd p])
     else
       case unescape_one leave_nulls (tl p) of
         Inl e \<Rightarrow> Inl e
       | Inr (w, rest) \<Rightarrow> CUnescape_loop leave_nulls rest (d @ w))"
  by pat_completeness auto
termination
proof (relation "measure (\<lambda>(leave, p, d). length p)", simp, simp)
  fix leave p and d :: bytes and y w rest
  assume "p \<noteq> []" "unescape_one leave (tl p) = Inr y" "(w, rest) = y"
  then show "((leave, rest, d @ w), leave, p, d) \<in> measure (\<lambda>(leave, p, d). length p)"
    using unescape_one_rest [of leave "tl p" w rest] by (cases p) auto
qed

declare CUnescape_loop.simps [simp del]

definition CUnescapeInternal :: "bytes \<Rightarrow> bool \<Rightarrow> bytes + bytes" where
  "CUnescapeInternal source leave_nulls_escaped = CUnescape_loop leave_nulls_escaped source []"

definition CUnescape :: "bytes \<Rightarrow> bytes + bytes" where
  "CUnescape source = CUnescapeInternal source False"

definition CUnescapeForNullTerminatedString :: "bytes \<Rightarrow> bytes + bytes" where
  "CUnescapeForNullTerminatedString source = CUnescapeInternal source True"

section \<open>Round trip\<close>

lemma below_16: "d < 16 \<Longrightarrow> d \<in> {0, 1, 2, 3, 4, 5, 6, 7, 8, 9, 10, 11, 12, 13, 14, 15 :: nat}"
proof -
  have "{..<16} = set [0..<16 :: nat]"
    by auto
  also have "[0..<16] = [0, 1, 2, 3, 4, 5, 6, 7, 8, 9, 10, 11, 12, 13, 14, 15 :: nat]"
    by (simp add: upt_rec)
  finally have s: "{..<16} = set [0, 1, 2, 3, 4, 5, 6, 7, 8, 9, 10, 11, 12, 13, 14, 15 :: nat]" .
  assume "d < 16"
  then have "d \<in> {..<16}"
    by (simp only: lessThan_iff)
  then show ?thesis
    by (simp only: s list.set)
qed

lemma hex_digit_facts:
  assumes "d < 16"
  shows "ascii_isxdigit (hex_digit (of_nat d)) \<and> hex_digit_to_int (hex_digit (of_nat d)) = of_nat d"
  using below_16 [OF assms] by (elim insertE emptyE) (simp_all add: ascii_isxdigit_iff ascii_isdigit_def hex_digit_def hex_digit_to_int_def)

lemma octal_digit_facts:
  assumes "d < 8"
  shows "is_octal_digit (hex_digit (of_nat d)) \<and> (ucast (hex_digit (of_nat d) :: byte) :: u32) = 48 + of_nat d"
proof -
  have "d < 16"
    using assms by simp
  from below_16 [OF this] assms show ?thesis
    by (elim insertE emptyE) (simp_all add: hex_digit_def is_octal_digit_def)
qed

lemma uint_unsigned: "nat (uint (c :: byte) mod 2 ^ 32) = unat c"
proof -
  have "uint c mod 2 ^ 32 = uint c"
    using less_trans [OF uint_byte_bounds(2) [of c], of "2 ^ 32"] by (intro mod_pos_pos_trivial) simp_all
  then show ?thesis
    by simp
qed

lemma printed_octal: "n < 256 \<Longrightarrow> padded 3 (printed 8 n) = map (\<lambda>d. hex_digit (of_nat d)) [n div 64, n div 8 mod 8, n mod 8]"
proof -
  assume n: "n < 256"
  have z: "hex_digit (of_nat 0) = 48"
    by (simp add: hex_digit_def)
  consider "n < 8" | "8 \<le> n" "n < 64" | "64 \<le> n"
    by linarith
  then show ?thesis
  proof cases
    case 1
    then have "printed 8 n = [hex_digit (of_nat n)]"
      by (simp add: printed.simps)
    then show ?thesis
      using 1 z by (simp add: padded_def numeral_2_eq_2)
  next
    case 2
    then have "n div 8 < 8"
      by simp
    with 2 have "printed 8 n = [hex_digit (of_nat (n div 8)), hex_digit (of_nat (n mod 8))]"
      by (simp add: printed.simps [of 8 n] printed.simps [of 8 "n div 8"])
    then show ?thesis
      using 2 z by (simp add: padded_def)
  next
    case 3
    have "n div 64 < 8" "n div 8 div 8 = n div 64" "\<not> n div 8 < 8"
      using n 3 by (simp_all add: div_mult2_eq [of n 8 8, simplified])
    then have "printed 8 n = [hex_digit (of_nat (n div 64)), hex_digit (of_nat (n div 8 mod 8)), hex_digit (of_nat (n mod 8))]"
      using 3 by (simp add: printed.simps [of 8 n] printed.simps [of 8 "n div 8"] printed.simps [of 8 "n div 64"])
    then show ?thesis
      by (simp add: padded_def)
  qed
qed

lemma printed_hex: "n < 256 \<Longrightarrow> padded 2 (printed 16 n) = map (\<lambda>d. hex_digit (of_nat d)) [n div 16, n mod 16]"
proof -
  assume n: "n < 256"
  show ?thesis
  proof (cases "n < 16")
    case True
    then show ?thesis
      by (simp add: printed.simps padded_def hex_digit_def)
  next
    case False
    have "n div 16 < 16"
      using n by simp
    then show ?thesis
      using False by (simp add: printed.simps [of 16 n] printed.simps [of 16 "n div 16"] padded_def)
  qed
qed

lemma octal_escape:
  "\<exists>x y z. escape_text False (uint (c :: byte)) = [92, x, y, z] \<and> is_octal_digit x \<and> is_octal_digit y \<and> is_octal_digit z
     \<and> octal_value [x, y, z] = ucast c"
proof -
  define n where "n = unat c"
  have n: "n < 256"
    using unat_byte_lt by (simp add: n_def)
  have c: "nat (uint c mod 2 ^ 32) = n" "(ucast c :: u32) = of_nat n"
    unfolding n_def by (rule uint_unsigned) simp
  have d: "n div 64 < 8" "n div 8 mod 8 < 8" "n mod 8 < 8"
    using n by auto
  have "n div 64 * 8 + n div 8 mod 8 = n div 8"
    using div_mult_mod_eq [of "n div 8" 8] div_mult2_eq [of n 8 8] by simp
  then have "n = (n div 64) * 64 + (n div 8 mod 8) * 8 + n mod 8"
    using div_mult_mod_eq [of n 8] by linarith
  then have "(of_nat n :: u32) = of_nat ((n div 64) * 64 + (n div 8 mod 8) * 8 + n mod 8)"
    by (rule arg_cong)
  then have v: "(of_nat n :: u32) = of_nat (n div 64) * 64 + of_nat (n div 8 mod 8) * 8 + of_nat (n mod 8)"
    by simp
  have "octal_value (map (\<lambda>d. hex_digit (of_nat d)) [n div 64, n div 8 mod 8, n mod 8]) = of_nat n"
    unfolding v using octal_digit_facts [OF d(1)] octal_digit_facts [OF d(2)] octal_digit_facts [OF d(3)]
    by (simp add: octal_value_def algebra_simps)
  moreover have "escape_text False (uint c) = 92 # map (\<lambda>d. hex_digit (of_nat d)) [n div 64, n div 8 mod 8, n mod 8]"
    by (simp only: escape_text_def Let_def c if_False printed_octal [OF n])
  ultimately show ?thesis
    using octal_digit_facts [OF d(1)] octal_digit_facts [OF d(2)] octal_digit_facts [OF d(3)]
    unfolding c(2) by auto
qed

lemma hex_escape:
  "\<exists>y z. escape_text True (uint (c :: byte)) = [92, 120, y, z] \<and> ascii_isxdigit y \<and> ascii_isxdigit z
     \<and> hex_value32 [y, z] = ucast c"
proof -
  define n where "n = unat c"
  have n: "n < 256"
    using unat_byte_lt by (simp add: n_def)
  have c: "nat (uint c mod 2 ^ 32) = n" "(ucast c :: u32) = of_nat n"
    unfolding n_def by (rule uint_unsigned) simp
  have d: "n div 16 < 16" "n mod 16 < 16"
    using n by auto
  have "(of_nat n :: u32) = of_nat ((n div 16) * 16 + n mod 16)"
    by simp
  then have v: "(of_nat n :: u32) = of_nat (n div 16) * 16 + of_nat (n mod 16)"
    by (simp only: of_nat_add of_nat_mult of_nat_numeral)
  have "hex_value32 (map (\<lambda>d. hex_digit (of_nat d)) [n div 16, n mod 16]) = of_nat n"
    unfolding v using hex_digit_facts [OF d(1)] hex_digit_facts [OF d(2)]
    by (simp add: hex_value32_def push_bit_eq_mult)
  moreover have "escape_text True (uint c) = 92 # 120 # map (\<lambda>d. hex_digit (of_nat d)) [n div 16, n mod 16]"
    by (simp only: escape_text_def Let_def c if_True printed_hex [OF n])
  ultimately show ?thesis
    using hex_digit_facts [OF d(1)] hex_digit_facts [OF d(2)] unfolding c(2) by auto
qed

text \<open>The text that an escaping routine produces where \<^verbatim>\<open>char\<close> is unsigned.\<close>

fun escaped :: "bool \<Rightarrow> bool \<Rightarrow> bool \<Rightarrow> bytes \<Rightarrow> bytes" where
  "escaped use_hex utf8_safe after_hex [] = []"
| "escaped use_hex utf8_safe after_hex (c # s) =
    (case letter_escape c of
       Some x \<Rightarrow> [92, x] @ escaped use_hex utf8_safe False s
     | None \<Rightarrow>
         if (\<not> utf8_safe \<or> c < 0x80) \<and> (\<not> ascii_isprint c \<or> after_hex \<and> ascii_isxdigit c) then
           escape_text use_hex (uint c) @ escaped use_hex utf8_safe use_hex s
         else c # escaped use_hex utf8_safe False s)"

lemma length_escape_text: "length (escape_text h (uint (c :: byte))) = 4"
  using octal_escape [of c] hex_escape [of c] by (cases h) auto

lemma length_escaped: "length (escaped h u l s) \<le> 4 * length s"
  by (induction h u l s rule: escaped.induct) (auto simp: length_escape_text split: option.splits)

lemma write_bytes_eq:
  "i + length bs \<le> length dest \<Longrightarrow> write_bytes dest i bs = Inr (take i dest @ bs @ drop (i + length bs) dest)"
proof (induction bs arbitrary: dest i)
  case (Cons b bs)
  then show ?case
    by (simp add: put_byte_def take_Suc_conv_app_nth)
qed simp

lemma CEscape_loop_eq:
  "int (used + 4 * length s + 1) \<le> n \<Longrightarrow> n \<le> int (length dest) \<Longrightarrow>
    \<exists>t. CEscape_loop UnsignedChar h u s n used l dest = Inr (Some (used + length (escaped h u l s)), t)
      \<and> take (used + length (escaped h u l s)) t = take used dest @ escaped h u l s"
proof (induction s arbitrary: used l dest)
  case Nil
  then show ?case
    by (simp add: put_byte_def)
next
  case (Cons c s)
  have cont: "\<exists>t. bindE (write_bytes dest used (w @ z)) (CEscape_loop UnsignedChar h u s n (used + length w) l')
        = Inr (Some (used + length (w @ escaped h u l' s)), t)
      \<and> take (used + length (w @ escaped h u l' s)) t = take used dest @ w @ escaped h u l' s"
    if wz: "length (w @ z) \<le> 5" "1 \<le> length w" "length w \<le> 4" for w z l'
  proof -
    have b: "used + length (w @ z) \<le> length dest"
      using Cons.prems wz(1) by simp
    define t where "t = take used dest @ (w @ z) @ drop (used + length (w @ z)) dest"
    have "length t = length dest" "take (used + length w) t = take used dest @ w"
      using b by (simp_all add: t_def)
    moreover obtain t' where "CEscape_loop UnsignedChar h u s n (used + length w) l' t
        = Inr (Some (used + length w + length (escaped h u l' s)), t')"
      "take (used + length w + length (escaped h u l' s)) t' = take (used + length w) t @ escaped h u l' s"
      using Cons.IH [of "used + length w" t l'] Cons.prems wz(3) \<open>length t = length dest\<close> by auto
    moreover have "write_bytes dest used (w @ z) = Inr t"
      by (simp only: write_bytes_eq [OF b] t_def)
    ultimately show ?thesis
      by (intro exI [of _ t']) (simp add: add.assoc)
  qed
  have put: "put_byte dest used c = write_bytes dest used ([c] @ [])"
    by (cases "put_byte dest used c") simp_all
  have room: "\<not> n - int used < 2" "\<not> n - int used < 4"
    using Cons.prems by simp_all
  have v: "char_value UnsignedChar c = uint c" "uint c < 0x80 \<longleftrightarrow> c < 0x80"
    by (simp_all add: word_less_def)
  show ?case
  proof (cases "letter_escape c")
    case (Some x)
    then show ?thesis
      using cont [of "[92, x]" "[]" False] room by simp
  next
    case None
    define special where "special \<longleftrightarrow> (\<not> u \<or> c < 0x80) \<and> (\<not> ascii_isprint c \<or> l \<and> ascii_isxdigit c)"
    have e: "escaped h u l (c # s) = (if special then escape_text h (uint c) @ escaped h u h s else [c] @ escaped h u False s)"
      by (simp add: special_def None)
    have "CEscape_loop UnsignedChar h u (c # s) n used l dest
        = (if special then bindE (write_bytes dest used (escape_text h (uint c) @ [0]))
             (CEscape_loop UnsignedChar h u s n (used + length (escape_text h (uint c))) h)
           else bindE (write_bytes dest used ([c] @ [])) (CEscape_loop UnsignedChar h u s n (used + length [c]) False))"
      unfolding CEscape_loop.simps v put special_def length_escape_text using room None by simp
    then show ?thesis
      unfolding e using cont [of "escape_text h (uint c)" "[0]" h] cont [of "[c]" "[]" False]
      by (cases special) (simp_all add: length_escape_text)
  qed
qed

lemma CEscape_string_eq:
  assumes "length s < 2 ^ 29"
  shows "CEscape_string UnsignedChar h u s = Inr (escaped h u False s)"
proof -
  define n where "n = 4 * length s + 1"
  have "int (length s) * 4 + 1 = int n"
    by (simp add: n_def)
  then have w: "wrap32 (int (length s) * 4 + 1) = int n"
    using assms wrap32_pos [of n] by (simp only:) (simp add: n_def)
  obtain t where "CEscape_loop UnsignedChar h u s (int n) 0 False (replicate n 0) = Inr (Some (length (escaped h u False s)), t)"
    "take (length (escaped h u False s)) t = escaped h u False s"
    using CEscape_loop_eq [of 0 s "int n" "replicate n 0" h u False] by (auto simp: n_def)
  then show ?thesis
    unfolding CEscape_string_def CEscapeInternal_def Let_def w nat_int by simp
qed

lemma uint_ucast32: "uint (ucast (c :: byte) :: u32) = uint c"
  by (rule uint_up_ucast) (simp add: is_up)

lemma small_byte: "\<not> (ucast (c :: byte) :: u32) > 0xff"
proof -
  have "uint c \<le> 255"
    using uint_byte_bounds(2) [of c] by linarith
  then show ?thesis
    by (simp add: word_less_def uint_ucast32)
qed

lemma ucast_back [simp]: "ucast (ucast (c :: byte) :: u32) = c"
proof (rule word_uint_eqI)
  have "uint c mod 2 ^ 8 = uint c"
    using uint_byte_bounds [of c] by (intro mod_pos_pos_trivial) simp_all
  then show "uint (ucast (ucast c :: u32) :: byte) = uint c"
    by (simp only: unsigned_ucast_eq [of "ucast c :: u32"] uint_ucast32 take_bit_eq_mod len_num0 len_bit0 len_num1 numeral_eq_Suc)
       (simp add: numeral_eq_Suc)
qed

lemma unescape_octal:
  assumes "is_octal_digit x" "is_octal_digit y" "is_octal_digit z" "octal_value [x, y, z] = ucast (c :: byte)"
  shows "unescape_one False (x # y # z # rest) = Inr ([c], rest)"
proof -
  have "simple_escape x = None"
    using assms(1) by (auto simp: simple_escape_def is_octal_digit_def)
  moreover have "\<not> (ucast c :: u32) > 0xff"
    by (rule small_byte)
  ultimately show ?thesis
    using assms by (simp add: unescape_one_def Let_def numeral_2_eq_2)
qed

lemma unescape_hex:
  assumes "ascii_isxdigit y" "ascii_isxdigit z" "hex_value32 [y, z] = ucast (c :: byte)"
    "rest = [] \<or> \<not> ascii_isxdigit (hd rest)"
  shows "unescape_one False (120 # y # z # rest) = Inr ([c], rest)"
proof -
  have "\<not> (ucast c :: u32) > 0xff"
    by (rule small_byte)
  moreover have "takeWhile ascii_isxdigit rest = []" "dropWhile ascii_isxdigit rest = rest"
    using assms(4) by (cases rest; simp)+
  ultimately show ?thesis
    using assms(1-3) by (simp add: unescape_one_def Let_def simple_escape_def is_octal_digit_def)
qed

lemma escaped_after_hex: "escaped h u True s = [] \<or> \<not> ascii_isxdigit (hd (escaped h u True s))"
proof (cases s)
  case (Cons c t)
  have "\<not> ascii_isxdigit 92"
    by (simp add: ascii_isxdigit_iff ascii_isdigit_def)
  moreover have "ascii_isxdigit c \<Longrightarrow> c < 0x80"
    by (auto simp: ascii_isxdigit_iff ascii_isdigit_def byte_le_unat)
  moreover have "hd (escape_text h (uint c) @ x) = 92" for x
    using octal_escape [of c] hex_escape [of c] by (cases h) auto
  ultimately show ?thesis
    by (auto simp: Cons split: option.splits)
qed simp

lemma unescape_letter: "letter_escape c = Some x \<Longrightarrow> unescape_one False (x # rest) = Inr ([c], rest)"
  by (auto simp: letter_escape_def unescape_one_def simple_escape_def split: if_splits)

lemma unescape_escaped: "CUnescape_loop False (escaped h u l s) d = Inr (d @ s)"
proof (induction h u l s arbitrary: d rule: escaped.induct)
  case 1
  then show ?case
    by (simp add: CUnescape_loop.simps)
next
  case (2 h u l c s)
  have step: "CUnescape_loop False (92 # p @ rest) d = CUnescape_loop False rest (d @ [c])"
    if "unescape_one False (p @ rest) = Inr ([c], rest)" for p rest
    using that by (simp add: CUnescape_loop.simps [of False "92 # p @ rest"])
  show ?case
  proof (cases "letter_escape c")
    case (Some x)
    then show ?thesis
      using step [of "[x]"] unescape_letter [OF Some] 2(3) [OF Some] by simp
  next
    case None
    then have "c \<noteq> 92"
      by (auto simp: letter_escape_def)
    show ?thesis
    proof (cases "(\<not> u \<or> c < 0x80) \<and> (\<not> ascii_isprint c \<or> l \<and> ascii_isxdigit c)")
      case True
      have "CUnescape_loop False (escape_text h (uint c) @ escaped h u h s) d = CUnescape_loop False (escaped h u h s) (d @ [c])"
      proof (cases h)
        case True
        obtain y z where "escape_text True (uint c) = [92, 120, y, z]" "ascii_isxdigit y" "ascii_isxdigit z"
          "hex_value32 [y, z] = ucast c"
          using hex_escape [of c] by blast
        then show ?thesis
          using step [of "[120, y, z]" "escaped True u True s"]
            unescape_hex [of y z c "escaped True u True s"] escaped_after_hex [of True u s] True by simp
      next
        case False
        obtain x y z where "escape_text False (uint c) = [92, x, y, z]" "is_octal_digit x" "is_octal_digit y"
          "is_octal_digit z" "octal_value [x, y, z] = ucast c"
          using octal_escape [of c] by blast
        then show ?thesis
          using step [of "[x, y, z]" "escaped False u False s"]
            unescape_octal [of x y z c "escaped False u False s"] False by simp
      qed
      then show ?thesis
        using None True 2(1) [OF None True] by simp
    next
      case False
      then have "escaped h u l (c # s) = c # escaped h u False s"
        using None by auto
      then show ?thesis
        using 2(2) [OF None False] \<open>c \<noteq> 92\<close>
        by (simp add: CUnescape_loop.simps [of False "c # escaped h u False s"])
    qed
  qed
qed

text \<open>
  C31: with an unsigned \<^verbatim>\<open>char\<close>, each of the four escapes of a string is unescaped to the
  string again, in particular without a write outside the buffer.
\<close>

theorem c_escape_roundtrip:
  assumes "length src < 2 ^ 29"
  shows "(\<exists>t. CEscape UnsignedChar src = Inr t \<and> CUnescape t = Inr src)
    \<and> (\<exists>t. CHexEscape UnsignedChar src = Inr t \<and> CUnescape t = Inr src)
    \<and> (\<exists>t. Utf8SafeCEscape UnsignedChar src = Inr t \<and> CUnescape t = Inr src)
    \<and> (\<exists>t. Utf8SafeCHexEscape UnsignedChar src = Inr t \<and> CUnescape t = Inr src)"
proof -
  have "\<exists>t. CEscape_string UnsignedChar h u src = Inr t \<and> CUnescape t = Inr src" for h u
    using CEscape_string_eq [OF assms] unescape_escaped [of h u False src "[]"]
    by (simp add: CUnescape_def CUnescapeInternal_def)
  then show ?thesis
    by (simp add: CEscape_def CHexEscape_def Utf8SafeCEscape_def Utf8SafeCHexEscape_def)
qed

theorem c_escape_roundtrip_witness:
  "(\<exists>t. CEscape UnsignedChar [0, 49, 10, 233] = Inr t \<and> CUnescape t = Inr [0, 49, 10, 233])
    \<and> (\<exists>t. CHexEscape UnsignedChar [0, 49, 10, 233] = Inr t \<and> CUnescape t = Inr [0, 49, 10, 233])
    \<and> (\<exists>t. Utf8SafeCEscape UnsignedChar [0, 49, 10, 233] = Inr t \<and> CUnescape t = Inr [0, 49, 10, 233])
    \<and> (\<exists>t. Utf8SafeCHexEscape UnsignedChar [0, 49, 10, 233] = Inr t \<and> CUnescape t = Inr [0, 49, 10, 233])"
  by (rule c_escape_roundtrip) simp

text \<open>
  With a signed \<^verbatim>\<open>char\<close> a byte above 127 is printed with eleven octal digits and written far
  outside the buffer.  Also with an unsigned one, the NUL of \<^verbatim>\<open>sprintf\<close> goes one byte beyond a
  buffer that has room for just the four characters.  A hexadecimal value of more than 32 bits
  wraps and is not reported.
\<close>

lemma CEscape_signed: "CEscape SignedChar [233] = Inl OutOfBounds"
  by (simp add: CEscape_def CEscape_string_def CEscapeInternal_def wrap32_def Let_def letter_escape_def
      ascii_isprint_def escape_text_def printed.simps padded_def put_byte_def)

lemma CEscape_sprintf_nul: "CEscapeInternal UnsignedChar [1] [0, 0, 0, 0] 4 True False = Inl OutOfBounds"
  by (simp add: CEscapeInternal_def letter_escape_def ascii_isprint_def escape_text_def
      printed.simps padded_def put_byte_def byte_le_unat)

lemma hex_value_wraps:
  "CUnescape ([92, 120] @ str ''100000041'') = Inr [0x41]"
  by (simp add: CUnescape_def CUnescapeInternal_def CUnescape_loop.simps unescape_one_def simple_escape_def
      is_octal_digit_def str_def ascii_isxdigit_iff ascii_isdigit_def hex_value32_def hex_digit_to_int_def Let_def push_bit_eq_mult)

text \<open>The output is never longer than the source, whose size the buffer has.\<close>

lemma runetochar_length: "length (runetochar r) \<le> 4"
  by (simp add: runetochar_def Let_def)

lemma unescape_one_length:
  assumes "unescape_one leave p = Inr (w, rest)"
  shows "length w + length rest \<le> length p + 1"
proof (cases p)
  case Nil
  then show ?thesis
    using assms by (simp add: unescape_one_def)
next
  case (Cons c q)
  define o1 where "o1 = takeWhile is_octal_digit (take 2 q)"
  define h1 where "h1 = takeWhile ascii_isxdigit q"
  have b: "length o1 \<le> length q" "length h1 + length (dropWhile ascii_isxdigit q) = length q"
    using length_takeWhile_le [of is_octal_digit "take 2 q"] length_append [of h1 "dropWhile ascii_isxdigit q"]
    by (auto simp: o1_def h1_def)
  have r: "length (runetochar x) + n - 4 \<le> Suc (Suc n)" "length (runetochar x) + n - 8 \<le> Suc (Suc n)"
    "length (runetochar x) + (n - 8) \<le> Suc (Suc n)" if "4 \<le> n" for x n
    using runetochar_length [of x] that by simp_all
  consider x where "simple_escape c = Some x" | "simple_escape c = None" "is_octal_digit c"
    | "simple_escape c = None" "\<not> is_octal_digit c" "c = 120 \<or> c = 88"
    | "simple_escape c = None" "\<not> is_octal_digit c" "c = 117"
    | "simple_escape c = None" "\<not> is_octal_digit c" "c = 85"
    | "simple_escape c = None" "\<not> is_octal_digit c" "c \<noteq> 120" "c \<noteq> 88" "c \<noteq> 117" "c \<noteq> 85"
    by (cases "simple_escape c") blast+
  then show ?thesis
  proof cases
    case 2
    then show ?thesis
      using assms b(1) unfolding Cons unescape_one_def o1_def [symmetric]
      by (auto simp: Let_def o1_def [symmetric] split: if_splits)
  next
    case 3
    then show ?thesis
      using assms b(2) unfolding Cons unescape_one_def
      by (auto simp: Let_def h1_def [symmetric] split: if_splits)
  next
    case 4
    then show ?thesis
      using assms r unfolding Cons unescape_one_def
      by (auto simp: Let_def not_less split: if_splits sum.splits)
  next
    case 5
    then show ?thesis
      using assms r unfolding Cons unescape_one_def
      by (auto simp: Let_def not_less split: if_splits sum.splits)
  qed (use assms in \<open>auto simp: Cons unescape_one_def\<close>)
qed

lemma CUnescape_loop_length: "CUnescape_loop leave p d = Inr r \<Longrightarrow> length r \<le> length d + length p"
proof (induction leave p d rule: CUnescape_loop.induct)
  case (1 leave p d)
  show ?case
  proof (cases "p = [] \<or> hd p \<noteq> 92")
    case True
    then show ?thesis
      using 1 by (cases p) (auto simp: CUnescape_loop.simps [of leave "[]"] CUnescape_loop.simps [of leave "a # q" for a q])
  next
    case False
    then obtain w rest where u: "unescape_one leave (tl p) = Inr (w, rest)" "CUnescape_loop leave rest (d @ w) = Inr r"
      using 1(3) by (auto simp: CUnescape_loop.simps [of leave p] split: sum.splits)
    then show ?thesis
      using 1(2) [of "(w, rest)" w rest] False unescape_one_length [OF u(1)] by (cases p) auto
  qed
qed

end
