(* ===== verification/Spec2Isabelle.thy ===== *)
theory Spec2Isabelle
  imports Rune RandomGen MonoTime Fastmem FastString SliceView StatusCode Atomic WaterMark
    MemTrackers BlockingQueues Latches RWSemaphore ThreadPools Tokens X509Host RWCLocks Base64
    Sockets SpinLocks FileSys WritableFiles RWFiles FileUtil AsciiCtype ParseInts PrintInts
    NumberTexts AutoDigits StrToInts MemSearch StringPieces KeyRanges WildcardMatch StringEdits
    CStrings LineEndings Escapes
begin

text \<open>
  Verification library of \<^verbatim>\<open>bboy\<close>, a C++ runtime library for servers: base services
  (\<^verbatim>\<open>src/bboy/base\<close>), portable utilities (\<^verbatim>\<open>src/bboy/gbase\<close>), security
  (\<^verbatim>\<open>src/bboy/security\<close>) and the beginnings of an RPC layer (\<^verbatim>\<open>src/bboy/rpc\<close>).

  \<^bold>\<open>Theories and the code they model.\<close>
  \<^item> \<open>Prelude\<close>: bytes and machine integers, C division, faults, reads of buffers, numerals as
    the printf formats print them, and the lemma collections of the library.
  \<^item> \<open>Codec\<close>, \<open>Rune\<close>: the interface of a coder with its inverse, and the UTF-8 coders of
    \<^verbatim>\<open>gbase/utf/rune.cc\<close> that provide it.
  \<^item> \<open>Base64\<close>: the Base64 coders of \<^verbatim>\<open>gbase/strings/escaping.cc\<close>, one locale for an alphabet
    with its inverse table, interpreted for the standard and the web-safe tables.
  \<^item> \<open>Fastmem\<close>, \<open>FastString\<close>, \<open>SliceView\<close>, \<open>StatusCode\<close>: memory comparison
    (\<^verbatim>\<open>gbase/strings/fastmem.h\<close>), growing buffers (\<^verbatim>\<open>base/faststring.*\<close>), views of bytes
    (\<^verbatim>\<open>base/slice.*\<close>) and the packed status object built on them (\<^verbatim>\<open>base/status.*\<close>).
  \<^item> \<open>RandomGen\<close> (\<^verbatim>\<open>base/random.h\<close>, \<^verbatim>\<open>random_util.cc\<close>) and \<open>MonoTime\<close> (\<^verbatim>\<open>base/monotime.*\<close>).
  \<^item> \<open>Atomic\<close>, \<open>WaterMark\<close>, \<open>MemTrackers\<close>: \<^verbatim>\<open>base/sync/atomic.h\<close>, \<^verbatim>\<open>base/high_water_mark.h\<close>
    and \<^verbatim>\<open>base/mem_tracker.*\<close>; the tree of trackers counts with high-water marks.
  \<^item> \<open>BlockingQueues\<close>, \<open>Latches\<close>, \<open>RWSemaphore\<close>, \<open>RWCLocks\<close>: the synchronisation objects of
    \<^verbatim>\<open>base/sync\<close>, with \<^verbatim>\<open>base/promise.h\<close>, \<^verbatim>\<open>async_util.h\<close> and \<^verbatim>\<open>scoped_cleanup.h\<close>.
  \<^item> \<open>ThreadPools\<close>: \<^verbatim>\<open>base/thread/threadpool.*\<close>.
  \<^item> \<open>OrderedMap\<close>, \<open>Tokens\<close>: \<^verbatim>\<open>std::map\<close> as a sorted association list behind locales for its
    contract, and on it the keys, the verifier and the signer of \<^verbatim>\<open>security/token_*\<close>.
  \<^item> \<open>X509Host\<close>: \<^verbatim>\<open>security/x509_check_host.*\<close>.
  \<^item> \<open>SysStatus\<close>, \<open>Sockets\<close>: statuses of system calls; \<^verbatim>\<open>base/net/socket.*\<close> and \<^verbatim>\<open>security/tls_socket.*\<close>, whose virtual reads and
    writes are instances of one locale; the blocking loops run over a list of answers of the
    system, and a loop that has not returned when the list ends is \<open>None\<close>.
  \<^item> \<open>SpinLocks\<close>: \<^verbatim>\<open>gbase/spinlock*\<close> and \<^verbatim>\<open>gbase/once.*\<close>, lock words with waiters that sleep on
    futexes.
  \<^item> \<open>FileSys\<close>, \<open>WritableFiles\<close>, \<open>RWFiles\<close>, \<open>FileUtil\<close>: the files of \<^verbatim>\<open>base/env_posix.cc\<close> over a
    file with visible and durable contents, and the whole-file routines of \<^verbatim>\<open>base/env.cc\<close>; an
    operation is a function of the list of answers of the system.
  \<^item> \<open>AsciiCtype\<close>, \<open>ParseInts\<close>, \<open>PrintInts\<close>, \<open>NumberTexts\<close>, \<open>AutoDigits\<close>, \<open>StrToInts\<close>: character classes
    (\<^verbatim>\<open>gbase/strings/ascii_ctype.*\<close>) and numbers as text (\<^verbatim>\<open>gbase/strings/numbers.*\<close>,
    \<^verbatim>\<open>gbase/strtoint.*\<close>): parsing with overflow, fast printing, digit-aware comparison.
  \<^item> \<open>MemSearch\<close>, \<open>StringPieces\<close>: searches in counted memory and the \<^verbatim>\<open>StringPiece\<close> class
    (\<^verbatim>\<open>gbase/strings/memutil.cc\<close>, \<^verbatim>\<open>stringpiece.*\<close>).
  \<^item> \<open>KeyRanges\<close>, \<open>StringEdits\<close>, \<open>CStrings\<close>, \<open>WildcardMatch\<close>: key successors and separators,
    replacement and removal, C strings, and wildcard patterns (\<^verbatim>\<open>gbase/strings/util.*\<close>).
  \<^item> \<open>LineEndings\<close>, \<open>Escapes\<close>: conversion of line endings with its word-at-a-time test, and C-style
    escapes, both of \<^verbatim>\<open>gbase/strings/escaping.cc\<close>.

  \<^bold>\<open>How state and operations correspond.\<close>  A class is a record with the fields of the code, a
  method a function that returns the changed record with its result.  A failed \<^verbatim>\<open>CHECK\<close>, a failed
  \<^verbatim>\<open>DCHECK\<close> (the build does not define \<^verbatim>\<open>NDEBUG\<close>) and an access outside a buffer are values of
  the type \<open>fault\<close>, so that a theorem of the form \<open>\<dots> = Inr \<dots>\<close> includes the absence of both.
  Code that runs under a lock is one step; a wait on a condition variable ends the step, and the
  wake-ups a step sends are part of its result.  The objects that threads share without a lock
  are transition systems with one step for each atomic access (\<open>hwm_step\<close>, \<open>sem_step\<close>,
  \<open>spin_step\<close>, \<open>once_next\<close>), the
  others with one step for each critical section (\<open>pool_step\<close>, \<open>rwc_step\<close>).  OpenSSL, protobuf
  and thread creation are parameters: records of functions whose documented behaviour is a
  named hypothesis (\<open>good_crypto\<close>, \<open>index_contract\<close>), each with a witness on a concrete instance.

  \<^bold>\<open>What the lemmas show.\<close>  The coders invert each other and stay inside their buffers; the
  block-wise memory routines agree with byte-wise references; status objects keep what was put
  in.  Trackers are a ledger that a failed try leaves untouched; queues are first-in first-out
  within their bound and send every wake-up; the two reader-writer locks keep their
  compatibility matrix in every run.  A thread pool starts accepted tasks once and in order and
  can always run out of threads after a shutdown.  A signer keeps usable keys, verifiers agree
  once keys have spread, a token lives as long as it says unless its key ends first.  A host
  check succeeds only for a name the certificate carries.  A blocking transfer on a socket returns,
  having moved exactly the counted prefix, and a plain socket owns its descriptor.  A spin lock excludes and loses no wake-up, a
  once runs its function once.  A writable file is a log, whole files are written entirely or
  deleted and read back as written, and writes are durable once a synchronisation succeeds.  Parsing a number
  never overflows and inverts printing; the searches, replacements and the conversion of line
  endings (below 2 GiB) equal plain specifications, a wildcard pattern matches its language, the prefix
  successor bounds exactly the keys with the prefix, and escaped text is unescaped to itself.
  Where the code does not do what its
  comments or callers expect, a theorem states what it does: a token that outlives its key, a
  shutdown that forgets waiting clients, a failed thread creation that is reported as success, a
  buffer skipped after a failed write, a failed synchronisation that is forgotten, a read that
  reads nothing, a copy of the wrong length, a put that reads its status backwards, a decoder that depends on the
  sign of characters, a search that misses a series of items, an escape that writes past its buffer.

  \<^bold>\<open>Bounds and fuel.\<close>  Loops recurse on their data, or on fuel with a theorem that a stated
  amount is enough (the entry count plus two in \<open>host_check_answers\<close>, the length of the source
  in \<open>decoder_total\<close>, one answer for each byte and each interruption and one more in
  \<open>blocking_write_exact\<close> and \<open>blocking_read_exact\<close>).  Lengths that the code keeps in \<^verbatim>\<open>int\<close> are converted as there and bounded in
  the theorems that need it (a conversion of line endings, a read at an offset, an escape); the
  wrapped cases are stated by \<open>slice_compare_wraps\<close>, \<open>rw_read_int_truncation\<close> and
  \<open>clean_cuts_off\<close>.  Two counters of \<open>StringEdits\<close> are unbounded where the code has an \<^verbatim>\<open>int\<close>:
  the number of replacements, which differs from \<open>2\<^sup>3\<^sup>1\<close> matches on, and the position in the list
  of indices to remove, which differs beyond \<open>2\<^sup>3\<^sup>1\<close> indices.

  \<^bold>\<open>Not modelled.\<close>  System calls on directories, processes and threads, options and addresses of
  sockets, calls into OpenSSL,
  Kerberos and rapidjson, the template machinery of callbacks and smart pointers, vendored
  headers, and the RPC layer, most of which has no bodies at this commit.  Of the modelled files:
  conversions of time to floating point, the double-valued random draws, floating-point text,
  splitting and joining of strings, the other codings of \<^verbatim>\<open>escaping.cc\<close> (Base32, hexadecimal, quoted-printable), and functions
  that only print.
\<close>

end
